(* ===== verification/Prelude.thy ===== *)
theory Prelude
  imports Main "HOL-Library.Word" "HOL-Library.Monad_Syntax" "HOL-Library.Multiset"
begin

text \<open>
  Shared vocabulary of the development: bytes and byte buffers, the memory-fault monad
  (\<open>None\<close> is an access outside the allocated block, a failed \<open>assert\<close> or a loop that does
  not end), the C library's memory functions, and the little-endian integer formats that
  intsets, ziplists and RDB files store on disk.  \<open>zrealloc\<close> gives the cells it adds the
  value 0; the theorems about its users determine every byte of their results, so they do
  not depend on that choice.
\<close>

named_theorems mem_simps \<open>how the memory functions act on a buffer split at the access\<close>
named_theorems le_simps \<open>the little-endian integer formats\<close>

type_synonym byte = "8 word"
type_synonym bytes = "byte list"

section \<open>Buffers and the memory functions\<close>

definition mem_read :: "bytes \<Rightarrow> nat \<Rightarrow> nat \<Rightarrow> bytes option" where
  "mem_read b off n = (if off + n \<le> length b then Some (take n (drop off b)) else None)"

definition mem_write :: "bytes \<Rightarrow> nat \<Rightarrow> bytes \<Rightarrow> bytes option" where
  "mem_write b off xs =
     (if off + length xs \<le> length b
      then Some (take off b @ xs @ drop (off + length xs) b) else None)"

definition mem_get :: "bytes \<Rightarrow> nat \<Rightarrow> byte option" where
  "mem_get b i = (if i < length b then Some (b ! i) else None)"

definition mem_set :: "bytes \<Rightarrow> nat \<Rightarrow> byte \<Rightarrow> bytes option" where
  "mem_set b i x = (if i < length b then Some (b[i := x]) else None)"

text \<open>\<open>memmove\<close> copies through a temporary, so the blocks may overlap.\<close>

definition mem_move :: "bytes \<Rightarrow> nat \<Rightarrow> nat \<Rightarrow> nat \<Rightarrow> bytes option" where
  "mem_move b dst src n = do { xs \<leftarrow> mem_read b src n; mem_write b dst xs }"

definition zrealloc :: "bytes \<Rightarrow> nat \<Rightarrow> bytes" where
  "zrealloc b n = take n b @ replicate (n - length b) 0"

definition c_assert :: "bool \<Rightarrow> unit option" where
  "c_assert P = (if P then Some () else None)"

text \<open>Arrays of other cells: an index outside them is a fault as well.\<close>

definition arr_get :: "'a list \<Rightarrow> nat \<Rightarrow> 'a option" where
  "arr_get xs i = (if i < length xs then Some (xs ! i) else None)"

lemma arr_get_in [simp]: "i < length xs \<Longrightarrow> arr_get xs i = Some (xs ! i)"
  by (simp add: arr_get_def)

lemma c_assert_simps [simp]: "c_assert True = Some ()" "c_assert False = None"
  by (simp_all add: c_assert_def)

lemma length_zrealloc [simp]: "length (zrealloc b n) = n"
  by (simp add: zrealloc_def)

lemma zrealloc_grow: "length b \<le> n \<Longrightarrow> zrealloc b n = b @ replicate (n - length b) 0"
  by (simp add: zrealloc_def)

lemma zrealloc_shrink: "n \<le> length b \<Longrightarrow> zrealloc b n = take n b"
  by (simp add: zrealloc_def)

lemma mem_read_mid [mem_simps]:
  "off = length xs \<Longrightarrow> n = length ys \<Longrightarrow> mem_read (xs @ ys @ zs) off n = Some ys"
  by (simp add: mem_read_def)

lemma mem_read_Some: "mem_read b off n = Some ys \<Longrightarrow> length ys = n"
  by (auto simp: mem_read_def split: if_splits)

lemma mem_write_mid [mem_simps]:
  "off = length xs \<Longrightarrow> length ys' = length ys \<Longrightarrow>
   mem_write (xs @ ys @ zs) off ys' = Some (xs @ ys' @ zs)"
  by (simp add: mem_write_def)

lemma mem_write_length: "mem_write b off xs = Some b' \<Longrightarrow> length b' = length b"
  by (auto simp: mem_write_def split: if_splits)

lemma mem_get_mid [mem_simps]:
  "i = length xs \<Longrightarrow> mem_get (xs @ y # zs) i = Some y"
  by (simp add: mem_get_def)

lemma mem_get_eq_read: "mem_get b i = map_option hd (mem_read b i 1)"
  by (auto simp: mem_get_def mem_read_def hd_drop_conv_nth take_Suc)

lemma mem_set_mid [mem_simps]:
  "i = length xs \<Longrightarrow> mem_set (xs @ y # zs) i x = Some (xs @ x # zs)"
  by (simp add: mem_set_def)

lemma mem_move_right [mem_simps]:
  "src = length xs \<Longrightarrow> dst = src + length gap \<Longrightarrow> n = length ys \<Longrightarrow>
   mem_move (xs @ ys @ gap) dst src n = Some (xs @ take (length gap) (ys @ gap) @ ys)"
  by (simp add: mem_move_def mem_read_mid mem_write_def)

lemma mem_move_left [mem_simps]:
  "dst = length xs \<Longrightarrow> src = dst + length gap \<Longrightarrow> n = length ys \<Longrightarrow>
   mem_move (xs @ gap @ ys) dst src n = Some (xs @ ys @ drop (length ys) (gap @ ys))"
  using mem_read_mid [of src "xs @ gap" n ys "[]"]
  by (simp add: mem_move_def mem_write_def)

section \<open>Little-endian integers\<close>

fun le_bytes :: "nat \<Rightarrow> nat \<Rightarrow> bytes" where
  "le_bytes 0 v = []"
| "le_bytes (Suc n) v = of_nat v # le_bytes n (v div 256)"

lemma le_bytes_numeral [simp]:
  "le_bytes (numeral n) v = of_nat v # le_bytes (pred_numeral n) (v div 256)"
  by (simp only: numeral_eq_Suc [of n] le_bytes.simps)

fun le_val :: "bytes \<Rightarrow> nat" where
  "le_val [] = 0"
| "le_val (b # bs) = unat b + 256 * le_val bs"

lemma unat_of_nat_byte: "unat (of_nat v :: byte) = v mod 256"
  by (simp add: unat_of_nat)

lemma unat_byte_less [simp]: "unat (b :: byte) < 256"
  using unsigned_less [of b] by simp

lemma length_le_bytes [simp]: "length (le_bytes n v) = n"
  by (induction n arbitrary: v) auto

lemma le_val_le_bytes [le_simps]: "le_val (le_bytes n v) = v mod 256 ^ n"
proof (induction n arbitrary: v)
  case 0
  then show ?case by simp
next
  case (Suc n)
  have "le_val (le_bytes (Suc n) v) = v mod 256 + 256 * (v div 256 mod 256 ^ n)"
    by (simp add: Suc unat_of_nat_byte)
  also have "\<dots> = v mod (256 * 256 ^ n)"
    by (simp add: mod_mult2_eq)
  finally show ?case by simp
qed

lemma le_val_less: "le_val bs < 256 ^ length bs"
proof (induction bs)
  case (Cons b bs)
  have "unat b + 256 * le_val bs < 256 * (le_val bs + 1)"
    by simp
  also have "\<dots> \<le> 256 * 256 ^ length bs"
    using Cons by (intro mult_le_mono2) simp
  finally show ?case by simp
qed simp

lemma le_bytes_le_val [le_simps]: "n = length bs \<Longrightarrow> le_bytes n (le_val bs) = bs"
proof (induction bs arbitrary: n)
  case (Cons b bs)
  have "(unat b + 256 * le_val bs) div 256 = le_val bs"
    by simp
  moreover have "(of_nat (unat b + 256 * le_val bs) :: byte) = b"
    by (simp only: word_unat_eq_iff unat_of_nat_byte, simp)
  ultimately show ?case using Cons by simp
qed simp

lemma le_bytes_mod [le_simps]: "le_bytes n (v mod 256 ^ n) = le_bytes n v"
  using le_bytes_le_val [of n "le_bytes n v"] by (simp add: le_val_le_bytes)

text \<open>Two's complement of \<open>n\<close> bytes: what a store to an \<open>intN_t\<close> leaves in memory.\<close>

definition le_sbytes :: "nat \<Rightarrow> int \<Rightarrow> bytes" where
  "le_sbytes n v = le_bytes n (nat (v mod 256 ^ n))"

definition le_sval :: "bytes \<Rightarrow> int" where
  "le_sval bs =
     (let v = int (le_val bs); m = 256 ^ length bs
      in if 2 * v < m then v else v - m)"

definition fits_bytes :: "nat \<Rightarrow> int \<Rightarrow> bool" where
  "fits_bytes n v \<longleftrightarrow> - (256 ^ n) \<le> 2 * v \<and> 2 * v < 256 ^ n"

lemma length_le_sbytes [simp]: "length (le_sbytes n v) = n"
  by (simp add: le_sbytes_def)

lemma le_sval_le_sbytes [le_simps]:
  assumes "fits_bytes n v"
  shows "le_sval (le_sbytes n v) = v"
proof -
  let ?m = "256 ^ n :: int"
  have m: "0 < ?m" by simp
  have "int (le_val (le_sbytes n v)) = v mod ?m"
    by (simp add: le_sbytes_def le_val_le_bytes zmod_int)
  moreover have "v mod ?m = (if 0 \<le> v then v else v + ?m)"
  proof (cases "0 \<le> v")
    case True
    with assms m show ?thesis by (simp add: fits_bytes_def)
  next
    case False
    have "v mod ?m = (v + ?m) mod ?m" by simp
    also have "\<dots> = v + ?m"
      using assms False m by (intro mod_pos_pos_trivial) (auto simp: fits_bytes_def)
    finally show ?thesis using False by simp
  qed
  ultimately show ?thesis
    using assms by (auto simp: le_sval_def fits_bytes_def Let_def)
qed

lemma fits_bytes_le_sval: "fits_bytes (length bs) (le_sval bs)"
proof -
  have "int (le_val bs) < 256 ^ length bs"
    using le_val_less [of bs] by (metis of_nat_less_iff of_nat_numeral of_nat_power)
  moreover have "- m \<le> 2 * (if 2 * v < m then v else v - m) \<and>
      2 * (if 2 * v < m then v else v - m) < m" if "0 \<le> v" "v < m" for v m :: int
    using that by simp
  ultimately show ?thesis unfolding fits_bytes_def le_sval_def Let_def by simp
qed

definition int64_range :: "int \<Rightarrow> bool" where
  "int64_range v \<longleftrightarrow> - (2 ^ 63) \<le> v \<and> v < 2 ^ 63"

section \<open>Arrays of fixed-width cells\<close>

text \<open>
  A C array of \<open>w\<close>-byte cells inside a byte buffer is the concatenation of the cells'
  encodings; reading, writing and splitting it at a cell boundary.
\<close>

lemma length_concat_fixed:
  "(\<And>x. length (f x) = w) \<Longrightarrow> length (concat (map f xs)) = w * length xs"
  by (induction xs) auto

lemma take_concat_fixed:
  "(\<And>x. length (f x) = w) \<Longrightarrow> take (w * i) (concat (map f xs)) = concat (map f (take i xs))"
proof (induction xs arbitrary: i)
  case (Cons x xs)
  then show ?case by (cases i) auto
qed simp

lemma drop_concat_fixed:
  "(\<And>x. length (f x) = w) \<Longrightarrow> drop (w * i) (concat (map f xs)) = concat (map f (drop i xs))"
proof (induction xs arbitrary: i)
  case (Cons x xs)
  then show ?case by (cases i) auto
qed simp

lemma mem_read_concat_fixed:
  assumes "\<And>x. length (f x) = w" "i < length xs"
  shows "mem_read (concat (map f xs) @ zs) (w * i) w = Some (f (xs ! i))"
proof -
  have "concat (map f xs) = concat (map f (take i xs)) @ f (xs ! i) @ concat (map f (drop (Suc i) xs))"
    using assms(2) by (subst id_take_nth_drop [OF assms(2)]) simp
  moreover have "length (concat (map f (take i xs))) = w * i"
    using assms by (simp add: length_concat_fixed [OF assms(1)])
  ultimately show ?thesis
    using assms(1) by (simp add: mem_read_mid)
qed

end
