(* ===== verification/Interfaces.thy ===== *)
theory Interfaces
  imports Prelude
begin

text \<open>
  The contracts between components, as locales.  A client lemma is proved once inside the
  locale; each provider interprets it on its own operations in its own theory.

  \<^item> \<open>bounded_set\<close>: a set with add, delete and membership, up to a capacity;
  \<^item> \<open>prefix_codec\<close>: a self-delimiting byte format, whose decoder reports how many bytes
    it consumed;
  \<^item> \<open>map_store\<close>: a finite map with add, replace, delete and lookup;
  \<^item> \<open>seq_store\<close>: a sequence with insertion, deletion and lookup by position from either end,
    as long as the total cost of the elements stays below a capacity.
\<close>

section \<open>Sets\<close>

datatype 'a set_op = SAdd 'a | SDel 'a | SMem 'a

fun set_op_arg :: "'a set_op \<Rightarrow> 'a" where
  "set_op_arg (SAdd v) = v"
| "set_op_arg (SDel v) = v"
| "set_op_arg (SMem v) = v"

text \<open>What a set answers to an operation, and the set it leaves.\<close>

fun spec_set_op :: "'a set \<Rightarrow> 'a set_op \<Rightarrow> 'a set \<times> bool" where
  "spec_set_op A (SAdd v) = (insert v A, v \<notin> A)"
| "spec_set_op A (SDel v) = (A - {v}, v \<in> A)"
| "spec_set_op A (SMem v) = (A, v \<in> A)"

fun spec_set_ops :: "'a set \<Rightarrow> 'a set_op list \<Rightarrow> 'a set \<times> bool list" where
  "spec_set_ops A [] = (A, [])"
| "spec_set_ops A (x # xs) =
     (let (A', r) = spec_set_op A x; (A'', rs) = spec_set_ops A' xs in (A'', r # rs))"

fun run_set_op ::
  "('s \<Rightarrow> 'a \<Rightarrow> ('s \<times> bool) option) \<Rightarrow> ('s \<Rightarrow> 'a \<Rightarrow> ('s \<times> bool) option) \<Rightarrow>
   ('s \<Rightarrow> 'a \<Rightarrow> bool option) \<Rightarrow> 's \<Rightarrow> 'a set_op \<Rightarrow> ('s \<times> bool) option" where
  "run_set_op add del mem s (SAdd v) = add s v"
| "run_set_op add del mem s (SDel v) = del s v"
| "run_set_op add del mem s (SMem v) = map_option (Pair s) (mem s v)"

fun run_set_ops ::
  "('s \<Rightarrow> 'a \<Rightarrow> ('s \<times> bool) option) \<Rightarrow> ('s \<Rightarrow> 'a \<Rightarrow> ('s \<times> bool) option) \<Rightarrow>
   ('s \<Rightarrow> 'a \<Rightarrow> bool option) \<Rightarrow> 's \<Rightarrow> 'a set_op list \<Rightarrow> ('s \<times> bool list) option" where
  "run_set_ops add del mem s [] = Some (s, [])"
| "run_set_ops add del mem s (x # xs) =
     do { (s', r) \<leftarrow> run_set_op add del mem s x;
          (s'', rs) \<leftarrow> run_set_ops add del mem s' xs;
          Some (s'', r # rs) }"

locale bounded_set =
  fixes rep :: "'s \<Rightarrow> 'a set \<Rightarrow> bool"
    and valid :: "'a \<Rightarrow> bool"
    and cap :: nat
    and add :: "'s \<Rightarrow> 'a \<Rightarrow> ('s \<times> bool) option"
    and del :: "'s \<Rightarrow> 'a \<Rightarrow> ('s \<times> bool) option"
    and mem :: "'s \<Rightarrow> 'a \<Rightarrow> bool option"
  assumes rep_finite: "rep s A \<Longrightarrow> finite A"
    and add_rep: "rep s A \<Longrightarrow> valid v \<Longrightarrow> Suc (card A) < cap \<Longrightarrow>
      \<exists>s'. add s v = Some (s', v \<notin> A) \<and> rep s' (insert v A)"
    and del_rep: "rep s A \<Longrightarrow> valid v \<Longrightarrow>
      \<exists>s'. del s v = Some (s', v \<in> A) \<and> rep s' (A - {v})"
    and mem_rep: "rep s A \<Longrightarrow> valid v \<Longrightarrow> mem s v = Some (v \<in> A)"
begin

lemma step_refines:
  assumes "rep s A" "valid (set_op_arg x)" "Suc (card A) < cap"
  shows "\<exists>s'. run_set_op add del mem s x = Some (s', snd (spec_set_op A x)) \<and>
    rep s' (fst (spec_set_op A x)) \<and> card (fst (spec_set_op A x)) \<le> Suc (card A)"
proof (cases x)
  case (SAdd v)
  then show ?thesis
    using add_rep [OF assms(1), of v] assms(2,3) card_insert_le_m1 [of "Suc (card A)" A v]
    by (auto simp: card_insert_if rep_finite [OF assms(1)])
next
  case (SDel v)
  then show ?thesis
    using del_rep [OF assms(1), of v] assms(2) card_Diff1_le [of A v] by auto
next
  case (SMem v)
  then show ?thesis using mem_rep [OF assms(1), of v] assms(1,2) by simp
qed

lemma trace_refines:
  assumes "rep s A" "\<forall>x \<in> set xs. valid (set_op_arg x)" "card A + length xs < cap"
  shows "\<exists>s'. run_set_ops add del mem s xs = Some (s', snd (spec_set_ops A xs)) \<and>
    rep s' (fst (spec_set_ops A xs))"
  using assms
proof (induction xs arbitrary: s A)
  case (Cons x xs)
  obtain s1 where s1: "run_set_op add del mem s x = Some (s1, snd (spec_set_op A x))"
    "rep s1 (fst (spec_set_op A x))" "card (fst (spec_set_op A x)) \<le> Suc (card A)"
    using step_refines [of s A x] Cons.prems by auto
  obtain s2 where "run_set_ops add del mem s1 xs = Some (s2, snd (spec_set_ops (fst (spec_set_op A x)) xs))"
    "rep s2 (fst (spec_set_ops (fst (spec_set_op A x)) xs))"
    using Cons.IH [OF s1(2)] Cons.prems s1(3) by auto
  with s1 show ?case by (simp add: case_prod_beta Let_def)
qed simp

end

section \<open>Self-delimiting byte formats\<close>

text \<open>Decode a number of values that stand one behind the other in a buffer.\<close>

fun decode_seq :: "(bytes \<Rightarrow> ('a \<times> nat) option) \<Rightarrow> nat \<Rightarrow> bytes \<Rightarrow> ('a list \<times> nat) option" where
  "decode_seq dec 0 b = Some ([], 0)"
| "decode_seq dec (Suc n) b =
     do { (x, k) \<leftarrow> dec b;
          (xs, m) \<leftarrow> decode_seq dec n (drop k b);
          Some (x # xs, k + m) }"

locale prefix_codec =
  fixes enc :: "'a \<Rightarrow> bytes"
    and dec :: "bytes \<Rightarrow> ('a \<times> nat) option"
    and valid :: "'a \<Rightarrow> bool"
  assumes roundtrip: "valid x \<Longrightarrow> dec (enc x @ rest) = Some (x, length (enc x))"
begin

lemma enc_prefix_free:
  "valid x \<Longrightarrow> valid y \<Longrightarrow> enc x @ r = enc y @ r' \<Longrightarrow> x = y \<and> r = r'"
  using roundtrip [of x r] roundtrip [of y r'] by auto

lemma enc_inj: "valid x \<Longrightarrow> valid y \<Longrightarrow> enc x = enc y \<Longrightarrow> x = y"
  using enc_prefix_free [of x y "[]" "[]"] by simp

lemma decode_seq_roundtrip:
  "\<forall>x \<in> set xs. valid x \<Longrightarrow>
   decode_seq dec (length xs) (concat (map enc xs) @ rest) = Some (xs, length (concat (map enc xs)))"
  by (induction xs) (auto simp: roundtrip)

end

section \<open>Finite maps\<close>

text \<open>
  Keys are compared by an equivalence \<open>eq\<close> the client chooses, so a map is a function that
  respects it.
\<close>

definition map_upd :: "('k \<Rightarrow> 'k \<Rightarrow> bool) \<Rightarrow> ('k \<Rightarrow> 'v option) \<Rightarrow> 'k \<Rightarrow> 'v \<Rightarrow> 'k \<Rightarrow> 'v option" where
  "map_upd eq m k v = (\<lambda>k'. if eq k k' then Some v else m k')"

definition map_del :: "('k \<Rightarrow> 'k \<Rightarrow> bool) \<Rightarrow> ('k \<Rightarrow> 'v option) \<Rightarrow> 'k \<Rightarrow> 'k \<Rightarrow> 'v option" where
  "map_del eq m k = (\<lambda>k'. if eq k k' then None else m k')"

text \<open>Operations of a client, and housekeeping the store may do at any time.\<close>

datatype ('k, 'v, 'c) map_op = MAdd 'k 'v | MReplace 'k 'v | MDelete 'k | MFind 'k | MHousekeep 'c

datatype 'v map_reply = Done bool | Found "'v option"

fun spec_map_op ::
  "('k \<Rightarrow> 'k \<Rightarrow> bool) \<Rightarrow> ('v \<Rightarrow> 'v) \<Rightarrow> ('k \<Rightarrow> 'v option) \<Rightarrow> ('k, 'v, 'c) map_op \<Rightarrow>
   ('k \<Rightarrow> 'v option) \<times> 'v map_reply" where
  "spec_map_op eq st m (MAdd k v) = (if m k = None then (map_upd eq m k (st v), Done True) else (m, Done False))"
| "spec_map_op eq st m (MReplace k v) = (map_upd eq m k (st v), Done (m k = None))"
| "spec_map_op eq st m (MDelete k) = (map_del eq m k, Done (m k \<noteq> None))"
| "spec_map_op eq st m (MFind k) = (m, Found (m k))"
| "spec_map_op eq st m (MHousekeep c) = (m, Done True)"

fun spec_map_ops ::
  "('k \<Rightarrow> 'k \<Rightarrow> bool) \<Rightarrow> ('v \<Rightarrow> 'v) \<Rightarrow> ('k \<Rightarrow> 'v option) \<Rightarrow> ('k, 'v, 'c) map_op list \<Rightarrow>
   ('k \<Rightarrow> 'v option) \<times> 'v map_reply list" where
  "spec_map_ops eq st m [] = (m, [])"
| "spec_map_ops eq st m (x # xs) =
     (let (m', r) = spec_map_op eq st m x; (m'', rs) = spec_map_ops eq st m' xs in (m'', r # rs))"

text \<open>A trace of operations of a store that runs them one by one.\<close>

fun run_ops :: "('s \<Rightarrow> 'o \<Rightarrow> ('s \<times> 'r) option) \<Rightarrow> 's \<Rightarrow> 'o list \<Rightarrow> ('s \<times> 'r list) option" where
  "run_ops run s [] = Some (s, [])"
| "run_ops run s (x # xs) =
     do { (s', r) \<leftarrow> run s x; (s'', rs) \<leftarrow> run_ops run s' xs; Some (s'', r # rs) }"

text \<open>\<open>cnt\<close> is the number of stored elements; below \<open>cap\<close> every operation succeeds and
  behaves like the map.\<close>

locale map_store =
  fixes eq :: "'k \<Rightarrow> 'k \<Rightarrow> bool"
    and st :: "'v \<Rightarrow> 'v"
    and inv :: "'s \<Rightarrow> bool"
    and abs :: "'s \<Rightarrow> 'k \<Rightarrow> 'v option"
    and cnt :: "'s \<Rightarrow> nat"
    and cap :: nat
    and run :: "'s \<Rightarrow> ('k, 'v, 'c) map_op \<Rightarrow> ('s \<times> 'v map_reply) option"
  assumes run_refines: "inv s \<Longrightarrow> cnt s < cap \<Longrightarrow>
      \<exists>s'. run s x = Some (s', snd (spec_map_op eq st (abs s) x)) \<and> inv s' \<and>
        abs s' = fst (spec_map_op eq st (abs s) x) \<and> cnt s' \<le> Suc (cnt s)"
begin

lemma trace_refines:
  assumes "inv s" "cnt s + length xs \<le> cap"
  shows "\<exists>s'. run_ops run s xs = Some (s', snd (spec_map_ops eq st (abs s) xs)) \<and> inv s' \<and>
    abs s' = fst (spec_map_ops eq st (abs s) xs)"
  using assms
proof (induction xs arbitrary: s)
  case (Cons x xs)
  obtain s1 where s1: "run s x = Some (s1, snd (spec_map_op eq st (abs s) x))" "inv s1"
    "abs s1 = fst (spec_map_op eq st (abs s) x)" "cnt s1 \<le> Suc (cnt s)"
    using run_refines [of s x] Cons.prems by auto
  obtain s2 where "run_ops run s1 xs = Some (s2, snd (spec_map_ops eq st (abs s1) xs))" "inv s2"
    "abs s2 = fst (spec_map_ops eq st (abs s1) xs)"
    using Cons.IH [OF s1(2)] Cons.prems(2) s1(4) by auto
  with s1 show ?case by (simp add: case_prod_beta Let_def)
qed simp

end

section \<open>Sequences\<close>

text \<open>Positions count from the head, negative ones from the tail.\<close>

definition seq_index :: "'a list \<Rightarrow> int \<Rightarrow> nat option" where
  "seq_index xs i =
     (if 0 \<le> i then (if nat i < length xs then Some (nat i) else None)
      else if nat (- i) \<le> length xs then Some (length xs - nat (- i)) else None)"

datatype 'a seq_op = QPush 'a bool | QInsert int 'a | QDelete int nat | QNth int | QMem 'a | QLen

datatype 'a seq_reply = QDone | QElem "'a option" | QBool bool | QCount nat

fun spec_seq_op :: "'a list \<Rightarrow> 'a seq_op \<Rightarrow> 'a list \<times> 'a seq_reply" where
  "spec_seq_op xs (QPush a head) = (if head then a # xs else xs @ [a], QDone)"
| "spec_seq_op xs (QInsert i a) =
     (case seq_index xs i of None \<Rightarrow> xs | Some j \<Rightarrow> take j xs @ a # drop j xs, QDone)"
| "spec_seq_op xs (QDelete i n) =
     (case seq_index xs i of None \<Rightarrow> xs | Some j \<Rightarrow> take j xs @ drop (j + n) xs, QDone)"
| "spec_seq_op xs (QNth i) = (xs, QElem (map_option ((!) xs) (seq_index xs i)))"
| "spec_seq_op xs (QMem a) = (xs, QBool (a \<in> set xs))"
| "spec_seq_op xs QLen = (xs, QCount (length xs))"

fun spec_seq_ops :: "'a list \<Rightarrow> 'a seq_op list \<Rightarrow> 'a list \<times> 'a seq_reply list" where
  "spec_seq_ops xs [] = (xs, [])"
| "spec_seq_ops xs (x # ops) =
     (let (xs', r) = spec_seq_op xs x; (xs'', rs) = spec_seq_ops xs' ops in (xs'', r # rs))"

text \<open>Elements have a cost; a store has room for a total cost.\<close>

definition seq_cost :: "('a \<Rightarrow> nat) \<Rightarrow> 'a list \<Rightarrow> nat" where
  "seq_cost cost xs = (\<Sum>x\<leftarrow>xs. cost x)"

fun seq_op_cost :: "('a \<Rightarrow> nat) \<Rightarrow> 'a seq_op \<Rightarrow> nat" where
  "seq_op_cost cost (QPush a _) = cost a"
| "seq_op_cost cost (QInsert _ a) = cost a"
| "seq_op_cost cost _ = 0"

lemma seq_cost_simps [simp]:
  "seq_cost c [] = 0" "seq_cost c (x # xs) = c x + seq_cost c xs" "seq_cost c (xs @ ys) = seq_cost c xs + seq_cost c ys"
  by (simp_all add: seq_cost_def)

lemma seq_cost_take_drop: "seq_cost c (take i xs) + seq_cost c (drop i xs) = seq_cost c xs"
  by (metis append_take_drop_id seq_cost_simps(3))

lemma seq_cost_drop_le: "seq_cost c (drop (i + n) xs) \<le> seq_cost c (drop i xs)"
  using seq_cost_take_drop [of c n "drop i xs"] by (simp add: add.commute)

lemma spec_seq_op_cost: "seq_cost c (fst (spec_seq_op xs x)) \<le> seq_cost c xs + seq_op_cost c x"
proof (cases x)
  case (QInsert i a)
  then show ?thesis using seq_cost_take_drop [of c _ xs] by (auto split: option.split)
next
  case (QDelete i n)
  have "seq_cost c (take j xs) + seq_cost c (drop (j + n) xs) \<le> seq_cost c xs" for j
    using seq_cost_take_drop [of c j xs] seq_cost_drop_le [of c j n xs] by linarith
  then show ?thesis using QDelete by (auto split: option.split)
qed auto

locale seq_store =
  fixes rep :: "'s \<Rightarrow> 'a list \<Rightarrow> bool"
    and cost :: "'a \<Rightarrow> nat"
    and cap :: nat
    and run :: "'s \<Rightarrow> 'a seq_op \<Rightarrow> ('s \<times> 'a seq_reply) option"
  assumes run_refines: "rep s xs \<Longrightarrow> seq_cost cost xs + seq_op_cost cost x < cap \<Longrightarrow>
      \<exists>s'. run s x = Some (s', snd (spec_seq_op xs x)) \<and> rep s' (fst (spec_seq_op xs x))"
begin

lemma trace_refines:
  assumes "rep s xs" "seq_cost cost xs + (\<Sum>x\<leftarrow>ops. seq_op_cost cost x) < cap"
  shows "\<exists>s'. run_ops run s ops = Some (s', snd (spec_seq_ops xs ops)) \<and> rep s' (fst (spec_seq_ops xs ops))"
  using assms
proof (induction ops arbitrary: s xs)
  case (Cons x ops)
  obtain s1 where s1: "run s x = Some (s1, snd (spec_seq_op xs x))" "rep s1 (fst (spec_seq_op xs x))"
    using run_refines [of s xs x] Cons.prems by auto
  have "seq_cost cost (fst (spec_seq_op xs x)) + (\<Sum>x\<leftarrow>ops. seq_op_cost cost x) < cap"
    using spec_seq_op_cost [of cost xs x] Cons.prems(2) by simp
  from Cons.IH [OF s1(2) this] s1(1) show ?case by (auto simp: case_prod_beta Let_def)
qed simp

end


section \<open>Builders\<close>

text \<open>A buffer that grows at its end.  \<open>cat\<close> appends a chunk; chunks are appended one after the other by the
  clients (quoting, joining, protocol output), so what they build is the concatenation.\<close>

fun cat_all :: "('s \<Rightarrow> bytes \<Rightarrow> 's option) \<Rightarrow> 's \<Rightarrow> bytes list \<Rightarrow> 's option" where
  "cat_all cat s [] = Some s"
| "cat_all cat s (x # xs) = Option.bind (cat s x) (\<lambda>s. cat_all cat s xs)"

lemma cat_all_append: "cat_all cat s (xs @ ys) = Option.bind (cat_all cat s xs) (\<lambda>s. cat_all cat s ys)"
  by (induction xs arbitrary: s) (auto split: bind_split)

locale byte_builder =
  fixes rep :: "'s \<Rightarrow> bytes \<Rightarrow> bool"
    and cap :: nat
    and cat :: "'s \<Rightarrow> bytes \<Rightarrow> 's option"
  assumes cat_rep: "rep s xs \<Longrightarrow> length xs + length ys < cap \<Longrightarrow> \<exists>s'. cat s ys = Some s' \<and> rep s' (xs @ ys)"
begin

lemma catE:
  assumes "rep s xs" "length xs + length ys < cap"
  obtains s' where "cat s ys = Some s'" "rep s' (xs @ ys)"
  using cat_rep [OF assms] by blast

lemma cat_all_rep:
  "rep s xs \<Longrightarrow> length xs + length (concat yss) < cap \<Longrightarrow> \<exists>s'. cat_all cat s yss = Some s' \<and> rep s' (xs @ concat yss)"
proof (induction yss arbitrary: s xs)
  case (Cons ys yss)
  obtain s1 where s1: "cat s ys = Some s1" "rep s1 (xs @ ys)"
    using catE [OF Cons.prems(1), of ys] Cons.prems(2) by auto
  show ?case using Cons.IH [OF s1(2)] s1(1) Cons.prems(2) by simp
qed simp

end

section \<open>Refinement of a specification\<close>

text \<open>A state machine with replies and a specification of its steps; \<open>ok\<close> says when a step may be taken.\<close>

fun spec_ops :: "('a \<Rightarrow> 'o \<Rightarrow> 'a \<times> 'r) \<Rightarrow> 'a \<Rightarrow> 'o list \<Rightarrow> 'a \<times> 'r list" where
  "spec_ops spec a [] = (a, [])"
| "spec_ops spec a (x # xs) = (case spec a x of (a', r) \<Rightarrow> case spec_ops spec a' xs of (a'', rs) \<Rightarrow> (a'', r # rs))"

fun ops_ok :: "('a \<Rightarrow> 'o \<Rightarrow> 'a \<times> 'r) \<Rightarrow> ('a \<Rightarrow> 'o \<Rightarrow> bool) \<Rightarrow> 'a \<Rightarrow> 'o list \<Rightarrow> bool" where
  "ops_ok spec ok a [] \<longleftrightarrow> True"
| "ops_ok spec ok a (x # xs) \<longleftrightarrow> ok a x \<and> ops_ok spec ok (fst (spec a x)) xs"

locale refinement =
  fixes rep :: "'c \<Rightarrow> 'a \<Rightarrow> bool"
    and run :: "'c \<Rightarrow> 'o \<Rightarrow> ('c \<times> 'r) option"
    and spec :: "'a \<Rightarrow> 'o \<Rightarrow> 'a \<times> 'r"
    and ok :: "'a \<Rightarrow> 'o \<Rightarrow> bool"
  assumes run_refines: "rep c a \<Longrightarrow> ok a x \<Longrightarrow> \<exists>c'. run c x = Some (c', snd (spec a x)) \<and> rep c' (fst (spec a x))"
begin

lemma history_refines:
  "rep c a \<Longrightarrow> ops_ok spec ok a xs \<Longrightarrow> \<exists>c'. run_ops run c xs = Some (c', snd (spec_ops spec a xs)) \<and> rep c' (fst (spec_ops spec a xs))"
proof (induction xs arbitrary: c a)
  case (Cons x xs)
  obtain c1 where "run c x = Some (c1, snd (spec a x))" "rep c1 (fst (spec a x))" using run_refines Cons.prems by fastforce
  moreover from this obtain c2 where "run_ops run c1 xs = Some (c2, snd (spec_ops spec (fst (spec a x)) xs))" "rep c2 (fst (spec_ops spec (fst (spec a x)) xs))"
    using Cons.IH [of c1 "fst (spec a x)"] Cons.prems by auto
  ultimately show ?case by (auto simp: split_beta)
qed simp

end

end
