(* ===== verification/Intset.thy ===== *)
theory Intset
  imports Interfaces
begin

text \<open>
  The integer set of \<^verbatim>\<open>intset.c\<close>: a sorted array of 2, 4 or 8 byte little-endian
  integers behind an 8 byte header.  The header's \<open>length\<close> is a \<open>uint32_t\<close> and the
  allocation sizes are \<open>uint32_t\<close> products, so both are 32-bit words here; the cells are
  the raw bytes of \<open>contents\<close>.  Positions are C \<open>int\<close>s, held as \<open>int\<close>.
\<close>

section \<open>Data and cell access\<close>

record intset =
  is_encoding :: nat
  is_length :: "32 word"
  is_contents :: bytes

definition INTSET_ENC_INT16 :: nat where "INTSET_ENC_INT16 = 2"
definition INTSET_ENC_INT32 :: nat where "INTSET_ENC_INT32 = 4"
definition INTSET_ENC_INT64 :: nat where "INTSET_ENC_INT64 = 8"

lemmas intset_enc_defs = INTSET_ENC_INT16_def INTSET_ENC_INT32_def INTSET_ENC_INT64_def

definition intsetValueEncoding :: "int \<Rightarrow> nat" where
  "intsetValueEncoding v =
     (if v < - (2 ^ 31) \<or> v > 2 ^ 31 - 1 then INTSET_ENC_INT64
      else if v < - (2 ^ 15) \<or> v > 2 ^ 15 - 1 then INTSET_ENC_INT32
      else INTSET_ENC_INT16)"

text \<open>Address of cell \<open>pos\<close> of an array of \<open>w\<close>-byte cells; a negative one is a fault.\<close>

definition cell_read :: "bytes \<Rightarrow> int \<Rightarrow> nat \<Rightarrow> bytes option" where
  "cell_read b pos w = (if pos < 0 then None else mem_read b (w * nat pos) w)"

definition cell_write :: "bytes \<Rightarrow> int \<Rightarrow> bytes \<Rightarrow> bytes option" where
  "cell_write b pos xs = (if pos < 0 then None else mem_write b (length xs * nat pos) xs)"

definition intsetGetEncoded :: "intset \<Rightarrow> int \<Rightarrow> nat \<Rightarrow> int option" where
  "intsetGetEncoded is pos enc =
     (if enc = INTSET_ENC_INT64 then map_option le_sval (cell_read (is_contents is) pos 8)
      else if enc = INTSET_ENC_INT32 then map_option le_sval (cell_read (is_contents is) pos 4)
      else map_option le_sval (cell_read (is_contents is) pos 2))"

definition intsetGet_at :: "intset \<Rightarrow> int \<Rightarrow> int option" where
  "intsetGet_at is pos = intsetGetEncoded is pos (is_encoding is)"

definition intsetSet :: "intset \<Rightarrow> int \<Rightarrow> int \<Rightarrow> intset option" where
  "intsetSet is pos value =
     (let store = (\<lambda>w. map_option (\<lambda>c. is\<lparr>is_contents := c\<rparr>)
                         (cell_write (is_contents is) pos (le_sbytes w value)))
      in if is_encoding is = INTSET_ENC_INT64 then store 8
         else if is_encoding is = INTSET_ENC_INT32 then store 4
         else store 2)"

definition intsetNew :: intset where
  "intsetNew = \<lparr>is_encoding = INTSET_ENC_INT16, is_length = 0, is_contents = []\<rparr>"

definition intsetResize :: "intset \<Rightarrow> 32 word \<Rightarrow> intset" where
  "intsetResize is len =
     (let size = len * of_nat (is_encoding is)
      in is\<lparr>is_contents := zrealloc (is_contents is) (unat size)\<rparr>)"

section \<open>Search, insertion, removal\<close>

text \<open>The binary search loop: returns \<open>(min, mid, cur)\<close> (here \<open>mn\<close>, \<open>mid\<close>, \<open>cur\<close>) as they stand when it is left.\<close>

partial_function (option) intsetSearch_loop ::
  "intset \<Rightarrow> int \<Rightarrow> int \<Rightarrow> int \<Rightarrow> int \<Rightarrow> int \<Rightarrow> (int \<times> int \<times> int) option" where
  "intsetSearch_loop is value mn mx mid cur =
     (if mx \<ge> mn then
        (let mid = uint (drop_bit 1 (word_of_int mn + word_of_int mx :: 32 word)) in
         Option.bind (intsetGet_at is mid) (\<lambda>cur.
           if value > cur then intsetSearch_loop is value (mid + 1) mx mid cur
           else if value < cur then intsetSearch_loop is value mn (mid - 1) mid cur
           else Some (mn, mid, cur)))
      else Some (mn, mid, cur))"

definition intsetSearch :: "intset \<Rightarrow> int \<Rightarrow> (bool \<times> 32 word) option" where
  "intsetSearch is value =
     (if is_length is = 0 then Some (False, 0)
      else do {
        lastv \<leftarrow> intsetGet_at is (sint (is_length is - 1));
        if value > lastv then Some (False, is_length is)
        else do {
          firstv \<leftarrow> intsetGet_at is 0;
          if value < firstv then Some (False, 0)
          else do {
            (mn, mid, cur) \<leftarrow> intsetSearch_loop is value 0 (sint (is_length is - 1)) (-1) (-1);
            if value = cur then Some (True, word_of_int mid) else Some (False, word_of_int mn)
          }
        }
      })"

fun upgrade_loop :: "intset \<Rightarrow> nat \<Rightarrow> int \<Rightarrow> nat \<Rightarrow> intset option" where
  "upgrade_loop is 0 prepend curenc = Some is"
| "upgrade_loop is (Suc n) prepend curenc =
     do { v \<leftarrow> intsetGetEncoded is (int n) curenc;
          is' \<leftarrow> intsetSet is (int n + prepend) v;
          upgrade_loop is' n prepend curenc }"

definition intsetUpgradeAndAdd :: "intset \<Rightarrow> int \<Rightarrow> intset option" where
  "intsetUpgradeAndAdd is value =
     (let curenc = is_encoding is;
          newenc = intsetValueEncoding value;
          len = sint (is_length is);
          prepend = (if value < 0 then 1 else 0);
          is1 = is\<lparr>is_encoding := newenc\<rparr>;
          is2 = intsetResize is1 (is_length is1 + 1)
      in if len < 0 then None
         else do {
           is3 \<leftarrow> upgrade_loop is2 (nat len) prepend curenc;
           is4 \<leftarrow> (if prepend \<noteq> 0 then intsetSet is3 0 value
                   else intsetSet is3 (sint (is_length is3)) value);
           Some (is4\<lparr>is_length := is_length is4 + 1\<rparr>)
         })"

definition intsetMoveTail :: "intset \<Rightarrow> 32 word \<Rightarrow> 32 word \<Rightarrow> intset option" where
  "intsetMoveTail is from to =
     (let w = (if is_encoding is = INTSET_ENC_INT64 then 8
               else if is_encoding is = INTSET_ENC_INT32 then 4 else 2);
          nbytes = (is_length is - from) * of_nat w
      in map_option (\<lambda>c. is\<lparr>is_contents := c\<rparr>)
           (mem_move (is_contents is) (w * unat to) (w * unat from) (unat nbytes)))"

definition intsetAdd :: "intset \<Rightarrow> int \<Rightarrow> (intset \<times> bool) option" where
  "intsetAdd is value =
     (if intsetValueEncoding value > is_encoding is
      then map_option (\<lambda>is'. (is', True)) (intsetUpgradeAndAdd is value)
      else do {
        (found, pos) \<leftarrow> intsetSearch is value;
        if found then Some (is, False)
        else do {
          let is1 = intsetResize is (is_length is + 1);
          is2 \<leftarrow> (if pos < is_length is1 then intsetMoveTail is1 pos (pos + 1) else Some is1);
          is3 \<leftarrow> intsetSet is2 (sint pos) value;
          Some (is3\<lparr>is_length := is_length is3 + 1\<rparr>, True)
        }
      })"

definition intsetRemove :: "intset \<Rightarrow> int \<Rightarrow> (intset \<times> bool) option" where
  "intsetRemove is value =
     (if intsetValueEncoding value \<le> is_encoding is
      then do {
        (found, pos) \<leftarrow> intsetSearch is value;
        if found then do {
          let len = is_length is;
          is1 \<leftarrow> (if pos < len - 1 then intsetMoveTail is (pos + 1) pos else Some is);
          let is2 = intsetResize is1 (len - 1);
          Some (is2\<lparr>is_length := len - 1\<rparr>, True)
        } else Some (is, False)
      } else Some (is, False))"

definition intsetFind :: "intset \<Rightarrow> int \<Rightarrow> bool option" where
  "intsetFind is value =
     (if intsetValueEncoding value \<le> is_encoding is
      then map_option fst (intsetSearch is value) else Some False)"

text \<open>\<open>intsetRandom\<close> takes the value of \<open>rand()\<close>; an empty set divides by zero.\<close>

definition intsetRandom :: "intset \<Rightarrow> 32 word \<Rightarrow> int option" where
  "intsetRandom is r =
     (if is_length is = 0 then None else intsetGet_at is (sint (r mod is_length is)))"

definition intsetGet :: "intset \<Rightarrow> 32 word \<Rightarrow> int option option" where
  "intsetGet is pos =
     (if pos < is_length is then map_option Some (intsetGet_at is (sint pos)) else Some None)"

definition intsetLen :: "intset \<Rightarrow> 32 word" where
  "intsetLen is = is_length is"

definition intsetBlobLen :: "intset \<Rightarrow> nat" where
  "intsetBlobLen is = 8 + unat (is_length is * of_nat (is_encoding is))"

section \<open>Representation of a sorted list\<close>

text \<open>
  \<open>intset_rep is xs\<close>: the block holds exactly the cells of the strictly increasing list
  \<open>xs\<close>.  The bound on the length is where the \<open>uint32_t\<close> products stay below \<open>2 ^ 32\<close>.
\<close>

definition intset_rep :: "intset \<Rightarrow> int list \<Rightarrow> bool" where
  "intset_rep is xs \<longleftrightarrow>
     is_encoding is \<in> {2, 4, 8} \<and> length xs < 2 ^ 29 \<and>
     is_length is = of_nat (length xs) \<and>
     is_contents is = concat (map (le_sbytes (is_encoding is)) xs) \<and>
     (\<forall>x \<in> set xs. fits_bytes (is_encoding is) x) \<and> sorted_wrt (<) xs"

lemma intset_repD:
  assumes "intset_rep is xs"
  shows "is_encoding is \<in> {2, 4, 8}" "length xs < 2 ^ 29"
    "is_length is = of_nat (length xs)"
    "is_contents is = concat (map (le_sbytes (is_encoding is)) xs)"
    "x \<in> set xs \<Longrightarrow> fits_bytes (is_encoding is) x" "sorted_wrt (<) xs"
  using assms by (auto simp: intset_rep_def)

lemma unat_of_nat32: "n < 2 ^ 32 \<Longrightarrow> unat (of_nat n :: 32 word) = n"
  by (simp add: unat_of_nat)

lemma sint_of_nat32: "n < 2 ^ 31 \<Longrightarrow> sint (of_nat n :: 32 word) = int n"
  by (simp add: sint_uint uint_nat unat_of_nat signed_take_bit_int_eq_self)

lemma intsetNew_rep: "intset_rep intsetNew []"
  by (simp add: intset_rep_def intsetNew_def intset_enc_defs)

lemma value_encoding_fits:
  "int64_range v \<Longrightarrow> fits_bytes (intsetValueEncoding v) v"
  by (simp add: int64_range_def intsetValueEncoding_def fits_bytes_def intset_enc_defs)

lemma value_encoding_mem: "intsetValueEncoding v \<in> {2, 4, 8}"
  by (simp add: intsetValueEncoding_def intset_enc_defs)

lemma fits_bytes_mono: "m \<le> n \<Longrightarrow> fits_bytes m v \<Longrightarrow> fits_bytes n v"
proof -
  assume "m \<le> n"
  then have "(256 :: int) ^ m \<le> 256 ^ n" by (simp add: power_increasing)
  then show "fits_bytes m v \<Longrightarrow> fits_bytes n v" unfolding fits_bytes_def by linarith
qed

text \<open>A value that needs a wider encoding lies outside the range of the present one.\<close>

lemma wider_outside:
  assumes "e < intsetValueEncoding v" "e \<in> {2, 4, 8}" "fits_bytes e x"
  shows "v < 0 \<Longrightarrow> v < x" and "0 \<le> v \<Longrightarrow> x < v"
  using assms
  by (auto simp: intsetValueEncoding_def fits_bytes_def intset_enc_defs split: if_splits)

lemma fits_iff_encoding:
  assumes "int64_range v" "e \<in> {2, 4, 8}"
  shows "intsetValueEncoding v \<le> e \<longleftrightarrow> fits_bytes e v"
  using assms
  by (auto simp: intsetValueEncoding_def fits_bytes_def intset_enc_defs int64_range_def
      split: if_splits)

lemma intsetGetEncoded_cells:
  assumes "e \<in> {2, 4, 8}" "is_contents is = concat (map (le_sbytes e) xs) @ zs"
    and "n < length xs" "fits_bytes e (xs ! n)"
  shows "intsetGetEncoded is (int n) e = Some (xs ! n)"
proof -
  have "mem_read (is_contents is) (e * n) e = Some (le_sbytes e (xs ! n))"
    unfolding assms(2) by (rule mem_read_concat_fixed) (use assms(3) in simp_all)
  then show ?thesis
    using assms(1,4)
    by (auto simp: intsetGetEncoded_def cell_read_def intset_enc_defs le_simps)
qed

lemma intsetGet_at_rep:
  assumes "intset_rep is xs" "0 \<le> i" "i < int (length xs)"
  shows "intsetGet_at is i = Some (xs ! nat i)"
proof -
  have "nat i < length xs" using assms(2,3) by linarith
  then show ?thesis
    using intsetGetEncoded_cells [of "is_encoding is" "is" xs "[]" "nat i"] assms(2)
      intset_repD [OF assms(1)]
    by (simp add: intsetGet_at_def)
qed

section \<open>Binary search\<close>

lemma midpoint32:
  assumes "0 \<le> mn" "0 \<le> mx" "mn < 2 ^ 31" "mx < 2 ^ 31"
  shows "uint (drop_bit 1 (word_of_int mn + word_of_int mx :: 32 word)) = (mn + mx) div 2"
proof -
  have "uint (word_of_int mn + word_of_int mx :: 32 word) = mn + mx"
    using assms by (simp add: uint_word_ariths uint_word_of_int)
  then show ?thesis
    by (simp only: drop_bit_eq_div uint_div) simp
qed

lemma sorted_wrt_less_nth:
  "sorted_wrt (<) xs \<Longrightarrow> i < j \<Longrightarrow> j < length xs \<Longrightarrow> xs ! i < (xs ! j :: int)"
  by (simp add: sorted_wrt_iff_nth_less)

text \<open>
  The loop keeps everything left of \<open>mn\<close> below the value and everything right of \<open>mx\<close>
  above it; it ends with the value's position or with the place to insert it.
\<close>

lemma intsetSearch_loop_correct:
  assumes "intset_rep is xs"
    and "0 \<le> mn" "mx < int (length xs)" "mn \<le> mx + 1" "mn \<le> mx \<or> cur \<noteq> value"
    and "\<forall>i < length xs. int i < mn \<longrightarrow> xs ! i < value"
    and "\<forall>i < length xs. int i > mx \<longrightarrow> value < xs ! i"
  shows "\<exists>mn' mid' cur'. intsetSearch_loop is value mn mx mid cur = Some (mn', mid', cur') \<and>
     (cur' = value \<and> 0 \<le> mid' \<and> mid' < int (length xs) \<and> xs ! nat mid' = value \<or>
      cur' \<noteq> value \<and> 0 \<le> mn' \<and> mn' \<le> int (length xs) \<and>
      (\<forall>i < length xs. int i < mn' \<longrightarrow> xs ! i < value) \<and>
      (\<forall>i < length xs. mn' \<le> int i \<longrightarrow> value < xs ! i))"
  using assms(2-)
proof (induction "nat (mx - mn + 1)" arbitrary: mn mx mid cur rule: less_induct)
  case less
  note len = intset_repD(2) [OF assms(1)] and srt = intset_repD(6) [OF assms(1)]
  show ?case
  proof (cases "mn \<le> mx")
    case False
    with less.prems show ?thesis
      by (subst intsetSearch_loop.simps) auto
  next
    case True
    define m where "m = (mn + mx) div 2"
    have m: "mn \<le> m" "m \<le> mx" using True by (auto simp: m_def)
    have len': "int (length xs) < 2 ^ 31" using len by simp
    have mid: "uint (drop_bit 1 (word_of_int mn + word_of_int mx :: 32 word)) = m"
      unfolding m_def by (rule midpoint32) (use less.prems True len' in linarith)+
    have got: "intsetGet_at is m = Some (xs ! nat m)"
      using less.prems m by (intro intsetGet_at_rep [OF assms(1)]) auto
    have step: "intsetSearch_loop is value mn mx mid cur =
        (if value > xs ! nat m then intsetSearch_loop is value (m + 1) mx m (xs ! nat m)
         else if value < xs ! nat m then intsetSearch_loop is value mn (m - 1) m (xs ! nat m)
         else Some (mn, m, xs ! nat m))"
      by (subst intsetSearch_loop.simps) (simp only: True mid got Let_def if_True bind.bind_lunit)
    have low: "xs ! i < xs ! nat m" if "int i < m" for i
      using that m less.prems by (intro sorted_wrt_less_nth [OF srt]) auto
    have high: "xs ! nat m < xs ! i" if "m < int i" "i < length xs" for i
      using that m less.prems by (intro sorted_wrt_less_nth [OF srt]) auto
    consider "value > xs ! nat m" | "value < xs ! nat m" | "value = xs ! nat m" by linarith
    then show ?thesis
    proof cases
      case 1
      have "\<forall>i < length xs. int i < m + 1 \<longrightarrow> xs ! i < value"
        using 1 low by (smt (verit) nat_int)
      moreover have eq: "intsetSearch_loop is value mn mx mid cur =
          intsetSearch_loop is value (m + 1) mx m (xs ! nat m)"
        using 1 step by simp
      ultimately show ?thesis
        unfolding eq by (intro less.hyps) (use less.prems m less_imp_neq [OF 1] in auto)
    next
      case 2
      have "\<forall>i < length xs. int i > m - 1 \<longrightarrow> value < xs ! i"
        using 2 high by (smt (verit) nat_int)
      moreover have eq: "intsetSearch_loop is value mn mx mid cur =
          intsetSearch_loop is value mn (m - 1) m (xs ! nat m)"
        using 2 step by simp
      ultimately show ?thesis
        unfolding eq by (intro less.hyps) (use less.prems m less_imp_neq [OF 2] in auto)
    next
      case 3
      then have "intsetSearch_loop is value mn mx mid cur = Some (mn, m, value)"
        using step by simp
      then show ?thesis using 3 less.prems m by auto
    qed
  qed
qed

text \<open>
  What \<open>intsetSearch\<close> reports: the value's position, or the insertion position that
  splits the list into the smaller and the larger elements.
\<close>

lemma intsetSearch_correct:
  assumes "intset_rep is xs"
  shows "\<exists>pos. intsetSearch is value = Some (value \<in> set xs, of_nat pos) \<and> pos \<le> length xs \<and>
     (value \<in> set xs \<longrightarrow> pos < length xs \<and> xs ! pos = value) \<and>
     (value \<notin> set xs \<longrightarrow> (\<forall>x \<in> set (take pos xs). x < value) \<and> (\<forall>x \<in> set (drop pos xs). value < x))"
proof (cases "xs = []")
  case True
  with assms show ?thesis
    by (auto simp: intsetSearch_def intset_rep_def intro: exI [of _ 0])
next
  case False
  let ?n = "length xs"
  note len = intset_repD(2,3) [OF assms] and srt = intset_repD(6) [OF assms]
  have n: "0 < ?n" using False by simp
  have lenw: "is_length is \<noteq> 0" "sint (is_length is - 1) = int (?n - 1)"
  proof -
    have "unat (is_length is) = ?n" using len by (simp add: unat_of_nat32)
    then show "is_length is \<noteq> 0" using n by auto
    have "is_length is - 1 = of_nat (?n - 1)"
      using n len(2) by (cases ?n) auto
    then show "sint (is_length is - 1) = int (?n - 1)"
      using len(1) by (simp add: sint_of_nat32)
  qed
  have gl: "intsetGet_at is (int (?n - 1)) = Some (xs ! (?n - 1))"
    using intsetGet_at_rep [OF assms, of "int (?n - 1)"] n by (simp only: nat_int)
  have gf: "intsetGet_at is 0 = Some (xs ! 0)"
    using intsetGet_at_rep [OF assms, of 0] n by simp
  have nth_le: "xs ! i \<le> xs ! j" if "i \<le> j" "j < ?n" for i j
    using that sorted_wrt_less_nth [OF srt, of i j] by (cases "i = j") auto
  consider "value > xs ! (?n - 1)" | "\<not> value > xs ! (?n - 1)" "value < xs ! 0"
    | "\<not> value > xs ! (?n - 1)" "\<not> value < xs ! 0" by blast
  then show ?thesis
  proof cases
    case 1
    have "xs ! i < value" if "i < ?n" for i
      using le_less_trans [OF nth_le [of i "?n - 1"] 1] that by simp
    then have "\<forall>x \<in> set xs. x < value"
      by (auto simp: in_set_conv_nth)
    then show ?thesis
      using 1 lenw gl len n by (auto simp: intsetSearch_def intro!: exI [of _ ?n])
  next
    case 2
    have "value < xs ! i" if "i < ?n" for i
      using less_le_trans [OF 2(2) nth_le [of 0 i]] that by simp
    then have "\<forall>x \<in> set xs. value < x"
      by (auto simp: in_set_conv_nth)
    then show ?thesis
      using 2 lenw gl gf n by (auto simp: intsetSearch_def intro!: exI [of _ 0])
  next
    case 3
    obtain mn mid cur where loop:
      "intsetSearch_loop is value 0 (int (?n - 1)) (-1) (-1) = Some (mn, mid, cur)"
      and res: "cur = value \<and> 0 \<le> mid \<and> mid < int ?n \<and> xs ! nat mid = value \<or>
        cur \<noteq> value \<and> 0 \<le> mn \<and> mn \<le> int ?n \<and>
        (\<forall>i < ?n. int i < mn \<longrightarrow> xs ! i < value) \<and> (\<forall>i < ?n. mn \<le> int i \<longrightarrow> value < xs ! i)"
      using intsetSearch_loop_correct [OF assms, of 0 "int (?n - 1)" "-1" "value" "-1"] n by auto
    have eval: "intsetSearch is value =
        (if value = cur then Some (True, word_of_int mid) else Some (False, word_of_int mn))"
      using 3 lenw gl gf loop by (simp add: intsetSearch_def)
    from res show ?thesis
    proof
      assume *: "cur = value \<and> 0 \<le> mid \<and> mid < int ?n \<and> xs ! nat mid = value"
      then have "value \<in> set xs" using nth_mem [of "nat mid" xs] by auto
      with * eval show ?thesis by (auto intro!: exI [of _ "nat mid"])
    next
      assume *: "cur \<noteq> value \<and> 0 \<le> mn \<and> mn \<le> int ?n \<and>
        (\<forall>i < ?n. int i < mn \<longrightarrow> xs ! i < value) \<and> (\<forall>i < ?n. mn \<le> int i \<longrightarrow> value < xs ! i)"
      then have "\<forall>x \<in> set (take (nat mn) xs). x < value" "\<forall>x \<in> set (drop (nat mn) xs). value < x"
        by (auto simp: in_set_conv_nth)
      moreover from this have "value \<notin> set xs"
        by (metis append_take_drop_id in_set_conv_decomp order_less_irrefl set_append Un_iff)
      ultimately show ?thesis
        using * eval by (auto intro!: exI [of _ "nat mn"])
    qed
  qed
qed

section \<open>Insertion and removal\<close>

lemma insort_split:
  assumes "sorted_wrt (<) xs" "\<forall>x \<in> set (take n xs). x < v" "\<forall>x \<in> set (drop n xs). v < (x :: int)"
  shows "take n xs @ v # drop n xs = insort v xs"
    and "sorted_wrt (<) (take n xs @ v # drop n xs)"
proof -
  have "sorted_wrt (<) (take n xs @ drop n xs)" using assms(1) by simp
  then show srt: "sorted_wrt (<) (take n xs @ v # drop n xs)"
    using assms(2,3) by (auto simp: sorted_wrt_append intro: less_trans)
  have "set (take n xs @ v # drop n xs) = set (insort v xs)"
    by (simp add: set_insort_key) (metis Un_insert_right append_take_drop_id set_append)
  moreover have "v \<notin> set xs"
    using assms(2,3) by (metis append_take_drop_id order_less_irrefl set_append Un_iff)
  ultimately show "take n xs @ v # drop n xs = insort v xs"
    using srt assms(1)
    by (intro sorted_distinct_set_unique)
      (auto simp: strict_sorted_iff distinct_insort sorted_insort)
qed

lemma length_cells [simp]:
  "length (concat (map (le_sbytes e) xs)) = e * length xs"
  by (rule length_concat_fixed) simp

lemma intsetSet_cells:
  assumes "is_encoding is \<in> {2, 4, 8}" "is_contents is = pre @ old @ post"
    and "length pre = is_encoding is * n" "length old = is_encoding is"
  shows "intsetSet is (int n) v =
    Some (is\<lparr>is_contents := pre @ le_sbytes (is_encoding is) v @ post\<rparr>)"
  using assms mem_write_mid [of "is_encoding is * n" pre "le_sbytes (is_encoding is) v" old post]
  by (auto simp: intsetSet_def cell_write_def intset_enc_defs Let_def)

text \<open>Allocation size: the \<open>uint32_t\<close> product is exact below the length bound.\<close>

lemma resize_size:
  assumes "e \<in> {2, 4, 8}" "n < 2 ^ 29"
  shows "unat (of_nat n * of_nat e :: 32 word) = n * e"
proof -
  have "of_nat n * of_nat e = (of_nat (n * e) :: 32 word)" by simp
  moreover have "n * e < 2 ^ 32" using assms by auto
  ultimately show ?thesis by (simp only: unat_of_nat32)
qed

lemma intsetResize_grow:
  assumes "intset_rep is xs" "Suc (length xs) < 2 ^ 29"
  shows "intsetResize is (is_length is + 1) =
    is\<lparr>is_contents := is_contents is @ replicate (is_encoding is) 0\<rparr>"
proof -
  note r = intset_repD [OF assms(1)]
  have "is_length is + 1 = of_nat (Suc (length xs))" using r(3) by simp
  then have "unat ((is_length is + 1) * of_nat (is_encoding is)) = Suc (length xs) * is_encoding is"
    using resize_size [OF r(1) assms(2)] by (simp only:)
  then show ?thesis
    using r(4) by (simp add: intsetResize_def zrealloc_grow Let_def mult.commute)
qed

lemma intsetMoveTail_eq:
  assumes "is_encoding is \<in> {2, 4, 8}"
  shows "intsetMoveTail is from to =
    map_option (\<lambda>c. is\<lparr>is_contents := c\<rparr>)
      (mem_move (is_contents is) (is_encoding is * unat to) (is_encoding is * unat from)
         (unat ((is_length is - from) * of_nat (is_encoding is))))"
  using assms by (auto simp: intsetMoveTail_def intset_enc_defs Let_def)

lemma tail_bytes:
  assumes "e \<in> {2, 4, 8}" "n < 2 ^ 29" "k \<le> n"
  shows "unat ((of_nat n - of_nat k) * of_nat e :: 32 word) = (n - k) * e"
  using resize_size [OF assms(1), of "n - k"] assms(2,3) by (simp add: of_nat_diff)

lemma intsetAdd_insert:
  assumes "intset_rep is xs" "Suc (length xs) < 2 ^ 29" "fits_bytes (is_encoding is) v"
    and "intsetValueEncoding v \<le> is_encoding is" "v \<notin> set xs"
  shows "\<exists>is'. intsetAdd is v = Some (is', True) \<and> intset_rep is' (insort v xs)"
proof -
  note r = intset_repD [OF assms(1)]
  let ?e = "is_encoding is" and ?c = "\<lambda>ys. concat (map (le_sbytes (is_encoding is)) ys)"
  obtain pos where pos: "intsetSearch is v = Some (False, of_nat pos)" "pos \<le> length xs"
    and split: "\<forall>x \<in> set (take pos xs). x < v" "\<forall>x \<in> set (drop pos xs). v < x"
    using intsetSearch_correct [OF assms(1), of v] assms(5) by auto
  let ?A = "?c (take pos xs)" and ?B = "?c (drop pos xs)" and ?z = "replicate ?e 0"
  define is1 where "is1 = is\<lparr>is_contents := is_contents is @ ?z\<rparr>"
  have c1: "is_contents is1 = ?A @ ?B @ ?z"
    using r(4) by (simp add: is1_def flip: concat_append map_append)
  have upos: "unat (of_nat pos :: 32 word) = pos" "sint (of_nat pos :: 32 word) = int pos"
    "unat (of_nat pos + 1 :: 32 word) = Suc pos"
    using pos(2) assms(2) unat_of_nat32 [of "Suc pos"]
    by (simp_all add: unat_of_nat32 sint_of_nat32 add.commute)
  have e: "?e \<noteq> 0" using r(1) by auto
  have moved: "\<exists>old. length old = ?e \<and>
      (if of_nat pos < is_length is1 then intsetMoveTail is1 (of_nat pos) (of_nat pos + 1) else Some is1)
      = Some (is1\<lparr>is_contents := ?A @ old @ ?B\<rparr>)"
  proof (cases "pos < length xs")
    case True
    have "mem_move (is_contents is1) (?e * Suc pos) (?e * pos) ((length xs - pos) * ?e) =
        Some (?A @ take ?e (?B @ ?z) @ ?B)"
      unfolding c1 using True by (subst mem_move_right) (simp_all add: mult.commute)
    then show ?thesis
      using True r(1-3) upos tail_bytes [of ?e "length xs" pos]
      by (auto simp: is1_def intsetMoveTail_eq word_less_nat_alt unat_of_nat32
          intro!: exI [of _ "take ?e (?B @ ?z)"])
  next
    case False
    then show ?thesis
      using pos(2) r(2,3) upos c1
      by (auto simp: is1_def word_less_nat_alt unat_of_nat32 intro!: exI [of _ ?z])
  qed
  then obtain old where old: "length old = ?e"
    "(if of_nat pos < is_length is1 then intsetMoveTail is1 (of_nat pos) (of_nat pos + 1) else Some is1)
      = Some (is1\<lparr>is_contents := ?A @ old @ ?B\<rparr>)" by blast
  have set: "intsetSet (is1\<lparr>is_contents := ?A @ old @ ?B\<rparr>) (int pos) v =
      Some (is1\<lparr>is_contents := ?A @ le_sbytes ?e v @ ?B\<rparr>)"
    using intsetSet_cells [of "is1\<lparr>is_contents := ?A @ old @ ?B\<rparr>" ?A old ?B pos v] r(1) old(1) pos(2)
    by (simp add: is1_def)
  let ?is' = "is1\<lparr>is_contents := ?A @ le_sbytes ?e v @ ?B, is_length := is_length is + 1\<rparr>"
  have "intsetAdd is v = Some (?is', True)"
  proof -
    have "intsetResize is (is_length is + 1) = is1"
      using intsetResize_grow [OF assms(1,2)] by (simp add: is1_def)
    then show ?thesis
      using assms(4) pos(1)
      by (simp add: intsetAdd_def Let_def old(2) set upos(2) split del: if_split)
        (simp add: is1_def)
  qed
  moreover have "intset_rep ?is' (take pos xs @ v # drop pos xs)"
    using r assms(2,3) insort_split(2) [OF r(6) split] pos(2)
    by (auto simp: intset_rep_def is1_def dest: in_set_takeD in_set_dropD)
  ultimately show ?thesis
    using insort_split(1) [OF r(6) split] by auto
qed

text \<open>
  The upgrade rewrites the cells from the last to the first.  With \<open>k\<close> cells left, the
  first \<open>k\<close> old cells are still intact and the other values stand, in the new width, at
  their final places.
\<close>

lemma upgrade_loop_correct:
  assumes "e \<in> {2, 4, 8}" "is_encoding is \<in> {2, 4, 8}" "e \<le> is_encoding is"
    and "\<forall>x \<in> set xs. fits_bytes e x" "k \<le> length xs"
    and "take (e * k) (is_contents is) = concat (map (le_sbytes e) (take k xs))"
    and "drop (is_encoding is * (k + p)) (is_contents is) =
           concat (map (le_sbytes (is_encoding is)) (drop k xs)) @ tail"
    and "is_encoding is * (k + p) \<le> length (is_contents is)"
  shows "\<exists>c. upgrade_loop is k (int p) e = Some (is\<lparr>is_contents := c\<rparr>) \<and>
    length c = length (is_contents is) \<and>
    drop (is_encoding is * p) c = concat (map (le_sbytes (is_encoding is)) xs) @ tail"
  using assms(2-)
proof (induction k arbitrary: "is")
  case 0
  then show ?case by (intro exI [of _ "is_contents is"]) simp
next
  case (Suc k)
  let ?e' = "is_encoding is" and ?c = "is_contents is"
  have k: "k < length xs" using Suc.prems by simp
  have tk: "take (Suc k) xs = take k xs @ [xs ! k]"
    using k by (rule take_Suc_conv_app_nth)
  have old: "intsetGetEncoded is (int k) e = Some (xs ! k)"
  proof -
    have "?c = concat (map (le_sbytes e) (take (Suc k) xs)) @ drop (e * Suc k) ?c"
      using Suc.prems(5) by (metis append_take_drop_id)
    from intsetGetEncoded_cells [OF assms(1) this, of k] show ?thesis
      using k Suc.prems(3) by simp
  qed
  have le: "e * k \<le> ?e' * (k + p)"
    using Suc.prems(2) by (intro mult_le_mono) auto
  have room: "?e' * (k + p) + ?e' \<le> length ?c" using Suc.prems(7) by simp
  define c' where "c' = take (?e' * (k + p)) ?c @ le_sbytes ?e' (xs ! k) @ drop (?e' * (Suc k + p)) ?c"
  have split: "?c = take (?e' * (k + p)) ?c @ take ?e' (drop (?e' * (k + p)) ?c) @ drop (?e' * (Suc k + p)) ?c"
    by (metis (no_types, lifting) add.commute append_take_drop_id drop_drop mult_Suc_right add_Suc)
  have set: "intsetSet is (int k + int p) (xs ! k) = Some (is\<lparr>is_contents := c'\<rparr>)"
    using intsetSet_cells [OF Suc.prems(1) split, of "k + p" "xs ! k"] room
    by (simp add: c'_def)
  have l: "length c' = length ?c" using room by (simp add: c'_def)
  have t': "take (e * k) c' = concat (map (le_sbytes e) (take k xs))"
  proof -
    have "take (e * k) c' = take (e * k) (take (e * Suc k) ?c)"
      using le room by (simp add: c'_def min_def)
    also have "\<dots> = concat (map (le_sbytes e) (take k xs))"
      unfolding Suc.prems(5) tk using k by simp
    finally show ?thesis .
  qed
  have "concat (map (le_sbytes ?e') (drop k xs)) =
      le_sbytes ?e' (xs ! k) @ concat (map (le_sbytes ?e') (drop (Suc k) xs))"
    using k by (simp flip: Cons_nth_drop_Suc)
  then have d': "drop (?e' * (k + p)) c' = concat (map (le_sbytes ?e') (drop k xs)) @ tail"
    using room Suc.prems(6) by (simp add: c'_def)
  show ?case
    using Suc.IH [of "is\<lparr>is_contents := c'\<rparr>"] Suc.prems(1-3) k t' d' l room old set
    by simp
qed

lemma insort_outside:
  "\<forall>x \<in> set xs. v < (x::int) \<Longrightarrow> insort v xs = v # xs"
  "\<forall>x \<in> set xs. x < (v::int) \<Longrightarrow> insort v xs = xs @ [v]"
  by (induction xs) auto

lemma intsetUpgradeAndAdd_correct:
  assumes "intset_rep is xs" "Suc (length xs) < 2 ^ 29" "int64_range v"
    and "is_encoding is < intsetValueEncoding v"
  shows "\<exists>is'. intsetUpgradeAndAdd is v = Some is' \<and> intset_rep is' (insort v xs)"
proof -
  note r = intset_repD [OF assms(1)]
  let ?e = "is_encoding is" and ?e' = "intsetValueEncoding v" and ?n = "length xs"
  define p where "p = (if v < 0 then 1 else 0 :: nat)"
  define is2 where "is2 = is\<lparr>is_encoding := ?e', is_contents := zrealloc (is_contents is) (?e' * Suc ?n)\<rparr>"
  have le: "?e * ?n \<le> ?e' * Suc ?n" using assms(4) by (intro mult_le_mono) auto
  have resize: "intsetResize (is\<lparr>is_encoding := ?e'\<rparr>) (is_length is + 1) = is2"
  proof -
    have "is_length is + 1 = of_nat (Suc ?n)" using r(3) by simp
    then have "unat ((is_length is + 1) * of_nat ?e') = Suc ?n * ?e'"
      using resize_size [OF value_encoding_mem assms(2)] by (simp only:)
    then show ?thesis by (simp add: intsetResize_def is2_def Let_def mult.commute)
  qed
  have c2: "take (?e * ?n) (is_contents is2) = concat (map (le_sbytes ?e) xs)"
    using le r(4) by (simp add: is2_def zrealloc_grow)
  define tail where "tail = drop (?e' * (?n + p)) (is_contents is2)"
  have "\<exists>c. upgrade_loop is2 ?n (int p) ?e = Some (is2\<lparr>is_contents := c\<rparr>) \<and>
      length c = length (is_contents is2) \<and>
      drop (is_encoding is2 * p) c = concat (map (le_sbytes (is_encoding is2)) xs) @ tail"
    by (rule upgrade_loop_correct)
      (use r assms(4) c2 value_encoding_mem [of v] in \<open>auto simp: is2_def tail_def p_def\<close>)
  then obtain c where c: "upgrade_loop is2 ?n (int p) ?e = Some (is2\<lparr>is_contents := c\<rparr>)"
      "length c = ?e' * Suc ?n" "drop (?e' * p) c = concat (map (le_sbytes ?e') xs) @ tail"
    by (auto simp: is2_def)
  have fits: "\<forall>x \<in> set xs. fits_bytes ?e' x"
    using r(5) fits_bytes_mono [OF less_imp_le [OF assms(4)]] by blast
  have len: "sint (is_length is) = int ?n" "is_length is = of_nat ?n"
    using r(2,3) by (simp_all add: sint_of_nat32)
  let ?is' = "is2\<lparr>is_contents := concat (map (le_sbytes ?e') (insort v xs)), is_length := is_length is + 1\<rparr>"
  have stored: "(if int p \<noteq> 0 then intsetSet (is2\<lparr>is_contents := c\<rparr>) 0 v
        else intsetSet (is2\<lparr>is_contents := c\<rparr>) (sint (is_length (is2\<lparr>is_contents := c\<rparr>))) v) =
      Some (is2\<lparr>is_contents := concat (map (le_sbytes ?e') (insort v xs))\<rparr>)"
  proof (cases "v < 0")
    case True
    then have "insort v xs = v # xs"
      using wider_outside(1) [OF assms(4) r(1)] r(5) by (intro insort_outside) auto
    moreover have "c = [] @ take ?e' c @ concat (map (le_sbytes ?e') xs)"
      using c(3) True append_take_drop_id [of ?e' c] by (simp add: p_def tail_def is2_def)
    ultimately show ?thesis
      using intsetSet_cells [of "is2\<lparr>is_contents := c\<rparr>" "[]" "take ?e' c" _ 0 v]
        value_encoding_mem [of v] c(2) True
      by (simp add: is2_def p_def)
  next
    case False
    then have "insort v xs = xs @ [v]"
      using wider_outside(2) [OF assms(4) r(1)] r(5) by (intro insort_outside) auto
    moreover have "c = concat (map (le_sbytes ?e') xs) @ tail @ []" "length tail = ?e'"
      using c(3) False by (simp_all add: p_def tail_def is2_def)
    ultimately show ?thesis
      using intsetSet_cells [of "is2\<lparr>is_contents := c\<rparr>" "concat (map (le_sbytes ?e') xs)" tail "[]" ?n v]
        value_encoding_mem [of v] False len(1)
      by (simp add: is2_def p_def)
  qed
  have "intsetUpgradeAndAdd is v = Some ?is'"
  proof -
    have p: "(if v < 0 then 1 else 0) = int p" by (simp add: p_def)
    have l: "is_length (is\<lparr>is_encoding := ?e'\<rparr>) = is_length is" by simp
    show ?thesis
      unfolding intsetUpgradeAndAdd_def Let_def p l resize len(1) nat_int
      by (simp only: c(1) bind.bind_lunit stored) (simp add: is2_def)
  qed
  moreover have "v \<notin> set xs"
    using wider_outside [OF assms(4) r(1), of v] r(5) by (cases "v < 0") auto
  then have "intset_rep ?is' (insort v xs)"
    using r(2,3,6) assms(2) fits value_encoding_mem [of v] value_encoding_fits [OF assms(3)]
    by (auto simp: intset_rep_def is2_def set_insort_key strict_sorted_iff distinct_insort sorted_insort)
  ultimately show ?thesis by blast
qed

text \<open>
  Removal: the cells behind the value move one place forward and the block shrinks.
\<close>

lemma intsetRemove_present:
  assumes "intset_rep is xs" "v \<in> set xs" "intsetValueEncoding v \<le> is_encoding is"
  shows "\<exists>is'. intsetRemove is v = Some (is', True) \<and> intset_rep is' (remove1 v xs)"
proof -
  note r = intset_repD [OF assms(1)]
  let ?e = "is_encoding is" and ?c = "\<lambda>ys. concat (map (le_sbytes (is_encoding is)) ys)"
  obtain pos where pos: "intsetSearch is v = Some (True, of_nat pos)" "pos < length xs" "xs ! pos = v"
    using intsetSearch_correct [OF assms(1), of v] assms(2) by auto
  let ?A = "?c (take pos xs)" and ?B = "?c (drop (Suc pos) xs)"
  have xs: "xs = take pos xs @ v # drop (Suc pos) xs"
    using id_take_nth_drop [OF pos(2)] pos(3) by simp
  have c: "is_contents is = ?A @ le_sbytes ?e v @ ?B"
    using r(4) by (subst (asm) xs) simp
  have lw: "is_length is - 1 = of_nat (length xs - 1)"
    using pos(2) r(3) by (cases "length xs") auto
  have lu: "unat (of_nat (length xs - 1) :: 32 word) = length xs - 1"
    by (rule unat_of_nat32) (use r(2) in simp)
  have upos: "unat (of_nat pos :: 32 word) = pos" "unat (of_nat pos + 1 :: 32 word) = Suc pos"
    using pos(2) r(2) unat_of_nat32 [of "Suc pos"] by (simp_all add: unat_of_nat32 add.commute)
  have size: "unat ((is_length is - 1) * of_nat ?e) = (length xs - 1) * ?e"
    unfolding lw using resize_size [OF r(1), of "length xs - 1"] r(2) by simp
  have "\<exists>is1. (if of_nat pos < is_length is - 1 then intsetMoveTail is (of_nat pos + 1) (of_nat pos)
       else Some is) = Some is1 \<and> (\<exists>t. is1 = is\<lparr>is_contents := ?A @ ?B @ t\<rparr>)"
  proof (cases "pos < length xs - 1")
    case True
    have "mem_move (is_contents is) (?e * pos) (?e * Suc pos) ((length xs - Suc pos) * ?e) =
        Some (?A @ ?B @ drop (length ?B) (le_sbytes ?e v @ ?B))"
      unfolding c using pos(2) by (subst mem_move_left) (simp_all add: mult.commute)
    moreover have "unat ((is_length is - (of_nat pos + 1)) * of_nat ?e) = (length xs - Suc pos) * ?e"
      using tail_bytes [OF r(1), of "length xs" "Suc pos"] r(2,3) pos(2) by (simp add: add.commute)
    ultimately show ?thesis
      using True upos lu
      by (auto simp: intsetMoveTail_eq [OF r(1)] word_less_nat_alt lw simp del: of_nat_diff)
  next
    case False
    then have "drop (Suc pos) xs = []" using pos(2) by simp
    then show ?thesis
      using False upos lu c
      by (auto simp: word_less_nat_alt lw simp del: of_nat_diff intro!: exI [of _ "le_sbytes ?e v"])
  qed
  then obtain t where t: "(if of_nat pos < is_length is - 1
      then intsetMoveTail is (of_nat pos + 1) (of_nat pos) else Some is) =
      Some (is\<lparr>is_contents := ?A @ ?B @ t\<rparr>)" by auto
  have rm: "remove1 v xs = take pos xs @ drop (Suc pos) xs"
  proof -
    have "v \<notin> set (take pos xs)"
      using sorted_wrt_less_nth [OF r(6), of _ pos] pos(2,3) by (force simp: in_set_conv_nth)
    then show ?thesis by (subst xs) (simp add: remove1_append)
  qed
  have lc: "length (remove1 v xs) = length xs - 1"
    using assms(2) by (simp add: length_remove1)
  have shrunk: "intsetResize (is\<lparr>is_contents := ?A @ ?B @ t\<rparr>) (is_length is - 1) =
      is\<lparr>is_contents := ?c (remove1 v xs)\<rparr>"
  proof -
    have "length (?A @ ?B) = ?e * (length xs - 1)"
      using lc rm by (metis length_cells concat_append map_append)
    moreover have "take (length (?A @ ?B)) ((?A @ ?B) @ t) = ?A @ ?B"
      by (rule append_eq_conv_conj [THEN iffD1, OF refl, THEN conjunct1, symmetric])
    ultimately have "take ((length xs - 1) * ?e) (?A @ ?B @ t) = ?c (remove1 v xs)"
      using rm by (simp add: mult.commute)
    moreover have "(length xs - 1) * ?e \<le> length (?A @ ?B @ t)"
      using \<open>length (?A @ ?B) = ?e * (length xs - 1)\<close> by (simp add: mult.commute)
    ultimately show ?thesis
      using size by (simp add: intsetResize_def Let_def zrealloc_shrink)
  qed
  let ?is' = "is\<lparr>is_contents := ?c (remove1 v xs), is_length := is_length is - 1\<rparr>"
  have "intsetRemove is v = Some (?is', True)"
    using assms(3) pos(1) shrunk by (simp add: intsetRemove_def Let_def t split del: if_split)
  moreover have "intset_rep ?is' (remove1 v xs)"
    using r lc lw set_remove1_subset [of v xs]
    by (auto simp: intset_rep_def strict_sorted_iff sorted_remove1)
  ultimately show ?thesis by blast
qed

lemma intsetAdd_rep:
  assumes "intset_rep is xs" "Suc (length xs) < 2 ^ 29" "int64_range v"
  shows "\<exists>is'. intsetAdd is v = Some (is', v \<notin> set xs) \<and>
    intset_rep is' (if v \<in> set xs then xs else insort v xs)"
proof -
  note r = intset_repD [OF assms(1)]
  show ?thesis
  proof (cases "intsetValueEncoding v \<le> is_encoding is")
    case True
    then have fits: "fits_bytes (is_encoding is) v"
      using fits_iff_encoding [OF assms(3) r(1)] by simp
    show ?thesis
    proof (cases "v \<in> set xs")
      case present: True
      with intsetSearch_correct [OF assms(1), of v] have "\<exists>p. intsetSearch is v = Some (True, p)"
        by auto
      with True present assms(1) show ?thesis by (auto simp: intsetAdd_def)
    next
      case False
      with intsetAdd_insert [OF assms(1,2) fits True] show ?thesis by auto
    qed
  next
    case False
    then have "\<not> fits_bytes (is_encoding is) v"
      using fits_iff_encoding [OF assms(3) r(1)] by simp
    then have "v \<notin> set xs" using r(5) by blast
    then show ?thesis
      using intsetUpgradeAndAdd_correct [OF assms] False by (auto simp: intsetAdd_def)
  qed
qed

lemma intsetRemove_rep:
  assumes "intset_rep is xs" "int64_range v"
  shows "\<exists>is'. intsetRemove is v = Some (is', v \<in> set xs) \<and> intset_rep is' (remove1 v xs)"
proof -
  note r = intset_repD [OF assms(1)]
  have mem: "v \<in> set xs \<Longrightarrow> intsetValueEncoding v \<le> is_encoding is"
    using fits_iff_encoding [OF assms(2) r(1)] r(5) by simp
  show ?thesis
  proof (cases "v \<in> set xs")
    case True
    then show ?thesis using intsetRemove_present [OF assms(1)] mem by auto
  next
    case False
    then have "\<exists>p. intsetSearch is v = Some (False, p)"
      using intsetSearch_correct [OF assms(1), of v] by auto
    with False assms(1) show ?thesis by (auto simp: intsetRemove_def remove1_idem)
  qed
qed

lemma intsetFind_rep:
  assumes "intset_rep is xs" "int64_range v"
  shows "intsetFind is v = Some (v \<in> set xs)"
proof -
  note r = intset_repD [OF assms(1)]
  have "v \<in> set xs \<Longrightarrow> intsetValueEncoding v \<le> is_encoding is"
    using fits_iff_encoding [OF assms(2) r(1)] r(5) by simp
  then show ?thesis
    using intsetSearch_correct [OF assms(1), of v] by (auto simp: intsetFind_def)
qed

lemma intset_rep_insort:
  "intset_rep is xs \<Longrightarrow> xs = sorted_list_of_set (set xs)"
  by (drule intset_repD(6)) (simp add: strict_sorted_iff sorted_list_of_set.idem_if_sorted_distinct)

definition intset_set_rep :: "intset \<Rightarrow> int set \<Rightarrow> bool" where
  "intset_set_rep is A \<longleftrightarrow> finite A \<and> intset_rep is (sorted_list_of_set A)"

interpretation intset_store: bounded_set intset_set_rep int64_range "2 ^ 29" intsetAdd intsetRemove intsetFind
proof unfold_locales
  fix s A v
  assume rep: "intset_set_rep s A"
  then show fin: "finite A" by (simp add: intset_set_rep_def)
  from rep have r: "intset_rep s (sorted_list_of_set A)" by (simp add: intset_set_rep_def)
  assume v: "int64_range v"
  show "intsetFind s v = Some (v \<in> A)"
    using intsetFind_rep [OF r v] fin by simp
  show "\<exists>s'. intsetRemove s v = Some (s', v \<in> A) \<and> intset_set_rep s' (A - {v})"
    using intsetRemove_rep [OF r v] fin
    by (simp add: intset_set_rep_def sorted_list_of_set_remove)
  assume "Suc (card A) < 2 ^ 29"
  then show "\<exists>s'. intsetAdd s v = Some (s', v \<notin> A) \<and> intset_set_rep s' (insert v A)"
    using intsetAdd_rep [OF r _ v] fin
    by (cases "v \<in> A")
      (auto simp: intset_set_rep_def insert_absorb sorted_list_of_set_insert)
qed

section \<open>Encodings and the size limit\<close>

lemma intsetSet_frame:
  "intsetSet is p v = Some is' \<Longrightarrow> is_encoding is' = is_encoding is \<and> is_length is' = is_length is"
  by (auto simp: intsetSet_def Let_def split: if_splits)

lemma intsetMoveTail_frame:
  "intsetMoveTail is f t = Some is' \<Longrightarrow> is_encoding is' = is_encoding is \<and> is_length is' = is_length is"
  by (auto simp: intsetMoveTail_def Let_def split: if_splits)

lemma intsetResize_frame [simp]:
  "is_encoding (intsetResize is n) = is_encoding is" "is_length (intsetResize is n) = is_length is"
  by (simp_all add: intsetResize_def Let_def)

lemma upgrade_loop_frame:
  "upgrade_loop is n p e = Some is' \<Longrightarrow> is_encoding is' = is_encoding is \<and> is_length is' = is_length is"
proof (induction n arbitrary: "is")
  case (Suc n)
  then obtain v is1 where "intsetSet is (int n + p) v = Some is1" "upgrade_loop is1 n p e = Some is'"
    by (auto split: bind_splits)
  with Suc.IH [of is1] show ?case by (simp add: intsetSet_frame)
qed simp

lemma intsetUpgradeAndAdd_encoding:
  "intsetUpgradeAndAdd is v = Some is' \<Longrightarrow> is_encoding is' = intsetValueEncoding v"
  by (auto simp: intsetUpgradeAndAdd_def Let_def split: bind_splits if_splits
      dest!: intsetSet_frame upgrade_loop_frame)

text \<open>At \<open>2 ^ 29 - 1\<close> eight-byte elements the next allocation size is \<open>2 ^ 32\<close>, which the
  \<open>uint32_t\<close> product turns into 0.\<close>

lemma resize_wraps: "(of_nat (2 ^ 29 - 1) + 1) * of_nat 8 = (0 :: 32 word)"
  by simp

lemma intset_full_resize:
  assumes "is_encoding is = 8" "is_length is = of_nat (2 ^ 29 - 1)"
  shows "is_contents (intsetResize is (is_length is + 1)) = []"
  using resize_wraps by (simp add: intsetResize_def zrealloc_def Let_def assms)

definition intset_example :: intset where
  "intset_example = \<lparr>is_encoding = 2, is_length = 2, is_contents = [253, 255, 44, 1]\<rparr>"

lemma intset_example_rep: "intset_rep intset_example [-3, 300]"
  by (simp add: intset_rep_def intset_example_def le_sbytes_def fits_bytes_def)

section \<open>Properties\<close>

text \<open>C20: Every sequence of intset additions, removals and lookups of 64-bit integers from
  the empty intset runs without an out-of-bounds access, answers as the mathematical set
  does, and leaves the bytes of the sorted elements.\<close>

theorem intset_trace_refines:
  assumes "\<forall>x \<in> set ops. int64_range (set_op_arg x)" "length ops < 2 ^ 29"
  shows "\<exists>is. run_set_ops intsetAdd intsetRemove intsetFind intsetNew ops =
      Some (is, snd (spec_set_ops {} ops)) \<and>
    intset_rep is (sorted_list_of_set (fst (spec_set_ops {} ops)))"
  using intset_store.trace_refines [of intsetNew "{}" ops] assms intsetNew_rep
  by (auto simp: intset_set_rep_def)

lemma intset_trace_refines_witness:
  "\<exists>is. run_set_ops intsetAdd intsetRemove intsetFind intsetNew
        [SAdd 5, SAdd (-70000), SMem 5, SDel 5, SAdd 5000000000] = Some (is, [True, True, True, True, True]) \<and>
     intset_rep is [-70000, 5000000000]"
  using intset_trace_refines [of "[SAdd 5, SAdd (-70000), SMem 5, SDel 5, SAdd 5000000000]"]
  by (simp add: int64_range_def insert_Diff_if)

text \<open>C28: Adding one value to an intset that holds the sorted list \<open>xs\<close> never touches memory
  outside the block; it reports whether the value was new, leaves the bytes of the sorted list
  with the value in its place, and the width becomes the larger of the old one and the one
  the value needs.\<close>

theorem intsetAdd_sorted_insert:
  assumes "intset_rep is xs" "Suc (length xs) < 2 ^ 29" "int64_range v"
  shows "\<exists>is'. intsetAdd is v = Some (is', v \<notin> set xs) \<and>
    intset_rep is' (if v \<in> set xs then xs else insort v xs) \<and>
    is_encoding is' = max (is_encoding is) (intsetValueEncoding v)"
proof -
  obtain is' where is': "intsetAdd is v = Some (is', v \<notin> set xs)"
    "intset_rep is' (if v \<in> set xs then xs else insort v xs)"
    using intsetAdd_rep [OF assms] by blast
  have "is_encoding is' = max (is_encoding is) (intsetValueEncoding v)"
    using is'(1)
    by (auto simp: intsetAdd_def Let_def split: if_splits bind_splits
        dest!: intsetSet_frame intsetMoveTail_frame intsetUpgradeAndAdd_encoding)
  with is' show ?thesis by blast
qed

lemma intsetAdd_sorted_insert_witness:
  "intset_rep intset_example [-3, 300] \<and>
   (\<exists>is'. intsetAdd intset_example 40000 =
      Some (is', True) \<and> intset_rep is' [-3, 300, 40000] \<and> is_encoding is' = 4)"
proof -
  note r = intset_example_rep
  from intsetAdd_sorted_insert [OF r, of 40000] r show ?thesis
    by (simp add: int64_range_def intsetValueEncoding_def intset_enc_defs intset_example_def)
qed

text \<open>Removing a value reports whether it was present and leaves the bytes of the list
  without it; removing an absent value changes nothing; no access leaves the block.\<close>

theorem intsetRemove_sorted_delete:
  assumes "intset_rep is xs" "int64_range v"
  shows "\<exists>is'. intsetRemove is v = Some (is', v \<in> set xs) \<and> intset_rep is' (remove1 v xs) \<and>
    is_encoding is' = is_encoding is \<and> (v \<notin> set xs \<longrightarrow> is' = is)"
proof -
  obtain is' where is': "intsetRemove is v = Some (is', v \<in> set xs)" "intset_rep is' (remove1 v xs)"
    using intsetRemove_rep [OF assms] by blast
  moreover have "is_encoding is' = is_encoding is \<and> (v \<notin> set xs \<longrightarrow> is' = is)"
    using is'(1)
    by (auto simp: intsetRemove_def Let_def split: if_splits bind_splits dest!: intsetMoveTail_frame)
  ultimately show ?thesis by blast
qed

lemma intsetRemove_sorted_delete_witness:
  "\<exists>is'. intsetRemove intset_example (-3) =
     Some (is', True) \<and> intset_rep is' [300]"
proof -
  note r = intset_example_rep
  from intsetRemove_sorted_delete [OF r, of "-3"] show ?thesis
    by (auto simp: int64_range_def)
qed

text \<open>C29: The binary search ends, reads only cells of the array, and returns the value's
  position or the position that separates the smaller from the larger elements.\<close>

theorem intsetSearch_position:
  assumes "intset_rep is xs"
  shows "\<exists>pos. intsetSearch is v = Some (v \<in> set xs, of_nat pos) \<and> pos \<le> length xs \<and>
     (v \<in> set xs \<longrightarrow> pos < length xs \<and> xs ! pos = v) \<and>
     (v \<notin> set xs \<longrightarrow> (\<forall>x \<in> set (take pos xs). x < v) \<and> (\<forall>x \<in> set (drop pos xs). v < x))"
  by (rule intsetSearch_correct [OF assms])

lemma intsetSearch_position_witness:
  "intsetSearch intset_example 300 = Some (True, 1)"
proof -
  note r = intset_example_rep
  obtain pos where "intsetSearch intset_example 300 =
      Some (True, of_nat pos)" "pos < 2" "[-3, 300] ! pos = (300 :: int)"
    using intsetSearch_position [OF r, of 300] by auto
  then show ?thesis by (cases pos) auto
qed

text \<open>C30: The \<open>uint32_t\<close> allocation size wraps: adding a new largest element to a full-width
  intset of \<open>2 ^ 29 - 1\<close> elements shrinks the block to nothing and then writes outside it.\<close>

theorem intsetAdd_size_overflow:
  assumes "intset_rep is xs" "is_encoding is = 8" "length xs = 2 ^ 29 - 1"
    and "\<forall>x \<in> set xs. x < v"
  shows "intsetAdd is v = None"
proof -
  note r = intset_repD [OF assms(1)]
  have "v \<notin> set xs" using assms(4) by auto
  then obtain pos where pos: "intsetSearch is v = Some (False, of_nat pos)" "pos \<le> length xs"
    and "\<forall>x \<in> set (drop pos xs). v < x"
    using intsetSearch_correct [OF assms(1), of v] by auto
  then have "drop pos xs = []"
    using assms(4) by (metis in_set_dropD list.set_intros(1) neq_Nil_conv order_less_asym)
  then have p: "pos = length xs" using pos(2) by simp
  have len: "is_length is = of_nat (2 ^ 29 - 1)" using r(3) assms(3) by simp
  have "intsetValueEncoding v \<le> is_encoding is"
    using assms(2) by (simp add: intsetValueEncoding_def intset_enc_defs)
  moreover have "intsetSet (intsetResize is (is_length is + 1)) q v = None" for q
    using intset_full_resize [OF assms(2) len]
    by (simp add: intsetSet_def cell_write_def mem_write_def Let_def)
  ultimately show ?thesis
    using pos(1) r(3) p by (simp add: intsetAdd_def Let_def)
qed

lemma intsetAdd_size_overflow_witness:
  "intsetAdd \<lparr>is_encoding = 8, is_length = of_nat (2 ^ 29 - 1),
     is_contents = concat (map (le_sbytes 8) (map int [0..<2 ^ 29 - 1]))\<rparr> (2 ^ 40) = None"
proof (rule intsetAdd_size_overflow [where xs = "map int [0..<2 ^ 29 - 1]"])
  show "intset_rep \<lparr>is_encoding = 8, is_length = of_nat (2 ^ 29 - 1),
     is_contents = concat (map (le_sbytes 8) (map int [0..<2 ^ 29 - 1]))\<rparr> (map int [0..<2 ^ 29 - 1])"
    unfolding intset_rep_def
    by (auto simp: fits_bytes_def sorted_wrt_map simp del: upt_rec_numeral)
qed (auto simp del: upt_rec_numeral)

end
