(* ===== verification/Util.thy ===== *)
theory Util
  imports Interfaces "HOL-Library.Char_ord"
begin

text \<open>
  Number formatting and parsing and glob matching of \<^verbatim>\<open>util.c\<close>.  Strings are byte lists.
  \<open>ll2string\<close> writes into a caller's buffer, so the buffer is an argument and a write
  outside it is a fault; \<open>stringmatchlen\<close> reads the bytes behind its arguments, so it runs on
  buffers with an explicit terminator and on signed lengths.
\<close>

section \<open>Decimal digits\<close>

definition ascii :: "string \<Rightarrow> bytes" where
  "ascii s = map of_char s"

definition LLONG_MAX :: int where "LLONG_MAX = 2 ^ 63 - 1"
definition LLONG_MIN :: int where "LLONG_MIN = - (2 ^ 63)"
definition ULLONG_MAX :: nat where "ULLONG_MAX = 2 ^ 64 - 1"

lemmas llong_defs = LLONG_MAX_def LLONG_MIN_def ULLONG_MAX_def

fun digits10 :: "nat \<Rightarrow> nat" where
  "digits10 v =
     (if v < 10 then 1
      else if v < 100 then 2
      else if v < 1000 then 3
      else if v < 1000000000000 then
        (if v < 100000000 then
           (if v < 1000000 then
              (if v < 10000 then 4 else 5 + (if v \<ge> 100000 then 1 else 0))
            else 7 + (if v \<ge> 10000000 then 1 else 0))
         else if v < 10000000000 then 9 + (if v \<ge> 1000000000 then 1 else 0)
         else 11 + (if v \<ge> 100000000000 then 1 else 0))
      else 12 + digits10 (v div 1000000000000))"

declare digits10.simps [simp del]

definition sdigits10 :: "int \<Rightarrow> nat" where
  "sdigits10 v =
     (if v < 0 then
        (let uv = (if v \<noteq> LLONG_MIN then nat (- v) else nat LLONG_MAX + 1)
         in digits10 uv + 1)
      else digits10 (nat v))"

text \<open>The two-digit table of \<open>ll2string\<close>.\<close>

definition digits_table :: bytes where
  "digits_table = ascii
     (''0001020304050607080910111213141516171819'' @
      ''2021222324252627282930313233343536373839'' @
      ''4041424344454647484950515253545556575859'' @
      ''6061626364656667686970717273747576777879'' @
      ''8081828384858687888990919293949596979899'')"

function ll2string_loop :: "bytes \<Rightarrow> 32 word \<Rightarrow> nat \<Rightarrow> (bytes \<times> 32 word \<times> nat) option" where
  "ll2string_loop dst next v =
     (if v \<ge> 100 then
        (let i = (v mod 100) * 2 in
         Option.bind (mem_set dst (unat next) (digits_table ! (i + 1))) (\<lambda>dst1.
         Option.bind (mem_set dst1 (unat (next - 1)) (digits_table ! i)) (\<lambda>dst2.
         ll2string_loop dst2 (next - 2) (v div 100))))
      else Some (dst, next, v))"
  by pat_completeness auto
termination by (relation "measure (\<lambda>(dst, next, v). v)") auto

declare ll2string_loop.simps [simp del]

definition ll2string_last :: "bytes \<Rightarrow> 32 word \<Rightarrow> nat \<Rightarrow> bytes option" where
  "ll2string_last dst next v =
     (if v < 10 then mem_set dst (unat next) (48 + of_nat v)
      else do {
        d \<leftarrow> mem_set dst (unat next) (digits_table ! (v * 2 + 1));
        mem_set d (unat (next - 1)) (digits_table ! (v * 2)) })"

definition ll2string :: "bytes \<Rightarrow> nat \<Rightarrow> int \<Rightarrow> (bytes \<times> nat) option" where
  "ll2string dst dstlen svalue =
     (let v = (if svalue < 0
               then (if svalue \<noteq> LLONG_MIN then nat (- svalue) else nat LLONG_MAX + 1)
               else nat svalue);
          negative = (if svalue < 0 then 1 else 0);
          len = digits10 v + negative
      in if len \<ge> dstlen then Some (dst, 0)
         else do {
           dst0 \<leftarrow> mem_set dst len 0;
           (dst1, next, v1) \<leftarrow> ll2string_loop dst0 (of_nat len - 1) v;
           dst2 \<leftarrow> ll2string_last dst1 next v1;
           dst3 \<leftarrow> (if negative \<noteq> 0 then mem_set dst2 0 45 else Some dst2);
           Some (dst3, len)
         })"

section \<open>Parsing integers\<close>

text \<open>\<open>None\<close> of \<open>string2ll\<close> is its return value 0, \<open>Some v\<close> a return value 1 with \<open>*value = v\<close>.
  The loop returns what it parsed and the bytes it did not use.\<close>

fun string2ll_loop :: "nat \<Rightarrow> bytes \<Rightarrow> (nat \<times> bytes) option" where
  "string2ll_loop v [] = Some (v, [])"
| "string2ll_loop v (c # cs) =
     (if 48 \<le> c \<and> c \<le> 57 then
        (if v > ULLONG_MAX div 10 then None
         else let v1 = v * 10; d = unat (c - 48)
              in if v1 > ULLONG_MAX - d then None else string2ll_loop (v1 + d) cs)
      else Some (v, c # cs))"

definition string2ll :: "bytes \<Rightarrow> int option" where
  "string2ll s =
     (if s = [] then None
      else if length s = 1 \<and> s ! 0 = 48 then Some 0
      else
        let negative = (s ! 0 = 45);
            p = (if negative then drop 1 s else s)
        in if negative \<and> p = [] then None
           else if 49 \<le> p ! 0 \<and> p ! 0 \<le> 57 then
             (case string2ll_loop (unat (p ! 0 - 48)) (drop 1 p) of
                None \<Rightarrow> None
              | Some (v, rest) \<Rightarrow>
                  if rest \<noteq> [] then None
                  else if negative then
                    (if v > nat (- (LLONG_MIN + 1)) + 1 then None else Some (- int v))
                  else (if int v > LLONG_MAX then None else Some (int v)))
           else if p ! 0 = 48 \<and> length s = 1 then Some 0
           else None)"

text \<open>On the 64-bit targets \<open>long\<close> is \<open>long long\<close>, so the range test never fails.\<close>

definition string2l :: "bytes \<Rightarrow> int option" where
  "string2l s =
     (case string2ll s of None \<Rightarrow> None
      | Some v \<Rightarrow> if v < LLONG_MIN \<or> v > LLONG_MAX then None else Some v)"

section \<open>Reference printing\<close>

fun dec :: "nat \<Rightarrow> bytes" where
  "dec v = (if v < 10 then [48 + of_nat v] else dec (v div 10) @ [48 + of_nat (v mod 10)])"

declare dec.simps [simp del]

definition idec :: "int \<Rightarrow> bytes" where
  "idec v = (if v < 0 then 45 # dec (nat (- v)) else dec (nat v))"

lemma dec_small: "v < 10 \<Longrightarrow> dec v = [48 + of_nat v]"
  by (simp add: dec.simps)

lemma dec_step: "10 \<le> v \<Longrightarrow> dec v = dec (v div 10) @ [48 + of_nat (v mod 10)]"
  by (subst dec.simps) simp

lemma dec_snoc: "0 < v \<Longrightarrow> d < 10 \<Longrightarrow> dec (v * 10 + d) = dec v @ [48 + of_nat d]"
  by (subst dec_step) auto

lemma dec_nonempty [simp]: "dec v \<noteq> []"
  by (subst dec.simps) simp

lemma length_dec_pos [simp]: "0 < length (dec v)"
  by simp

lemma length_dec_step: "10 \<le> v \<Longrightarrow> length (dec v) = Suc (length (dec (v div 10)))"
  by (subst dec_step) simp_all

text \<open>\<open>k\<close> more digits for every factor \<open>10 ^ k\<close>.\<close>

lemma length_dec_power: "10 ^ k \<le> v \<Longrightarrow> length (dec v) = k + length (dec (v div 10 ^ k))"
proof (induction k arbitrary: v)
  case (Suc k)
  have "10 \<le> v" using Suc.prems by (metis le_trans mult.right_neutral mult_le_mono2 one_le_numeral
        one_le_power power_Suc)
  moreover have "10 ^ k \<le> v div 10"
    using Suc.prems by (simp add: less_eq_div_iff_mult_less_eq mult.commute)
  ultimately show ?case
    using Suc.IH [of "v div 10"] by (simp add: length_dec_step div_mult2_eq)
qed simp

lemma length_dec_range:
  assumes "10 ^ k \<le> v" "v < 10 ^ Suc k"
  shows "length (dec v) = Suc k"
proof -
  have "v div 10 ^ k < 10" using assms(2) by (simp add: less_mult_imp_div_less)
  then show ?thesis using length_dec_power [OF assms(1)] by (simp add: dec_small)
qed

lemma digits10_range:
  assumes "k < 12" "0 < k" "10 ^ k \<le> v" "v < 10 ^ Suc k"
  shows "digits10 v = Suc k"
proof -
  have "k = 1 \<or> k = 2 \<or> k = 3 \<or> k = 4 \<or> k = 5 \<or> k = 6 \<or> k = 7 \<or> k = 8 \<or> k = 9 \<or> k = 10 \<or> k = 11"
    using assms(1,2) by presburger
  then show ?thesis
    using assms(3,4) by (elim disjE) (simp_all add: digits10.simps)
qed

lemma decade: "0 < v \<Longrightarrow> \<exists>k. 10 ^ k \<le> v \<and> v < (10::nat) ^ Suc k"
proof (induction v rule: less_induct)
  case (less v)
  show ?case
  proof (cases "v < 10")
    case True
    with less.prems show ?thesis by (intro exI [of _ 0]) simp
  next
    case False
    then have "v div 10 < v" "0 < v div 10" by auto
    then obtain k where "10 ^ k \<le> v div 10" "v div 10 < 10 ^ Suc k"
      using less.IH [of "v div 10"] by blast
    then have "10 ^ Suc k \<le> v" "v < 10 ^ Suc (Suc k)"
      by (simp_all add: less_eq_div_iff_mult_less_eq div_less_iff_less_mult mult.commute)
    then show ?thesis by blast
  qed
qed

lemma digits10_length: "digits10 v = length (dec v)"
proof (induction v rule: digits10.induct)
  case (1 v)
  consider "v < 10" | "10 \<le> v" "v < 1000000000000" | "1000000000000 \<le> v" by linarith
  then show ?case
  proof cases
    case 1
    then show ?thesis by (simp add: digits10.simps dec_small)
  next
    case 2
    then obtain k where k: "10 ^ k \<le> v" "v < 10 ^ Suc k" using decade [of v] by auto
    have "k \<noteq> 0" using k 2(1) by (cases k) auto
    moreover have "(10::nat) ^ k < 10 ^ 12" using k(1) 2(2) by simp
    then have "k < 12" by (simp only: power_strict_increasing_iff) 
    ultimately show ?thesis
      using digits10_range [of k v] length_dec_range [of k v] k by simp
  next
    case 3
    then have "digits10 (v div 1000000000000) = length (dec (v div 1000000000000))"
      by (intro 1) auto
    with 3 length_dec_power [of 12 v] show ?thesis
      by (subst digits10.simps) simp
  qed
qed

section \<open>ll2string writes the decimal representation\<close>

lemma digits_table_pairs:
  "digits_table = concat (map (\<lambda>i. [48 + of_nat (i div 10), 48 + of_nat (i mod 10)]) [0..<100])"
  by (simp add: digits_table_def ascii_def upt_conv_Cons)

lemma digits_table_nth:
  assumes "i < 100"
  shows "digits_table ! (i * 2) = 48 + of_nat (i div 10)"
    and "digits_table ! (i * 2 + 1) = 48 + of_nat (i mod 10)"
proof -
  let ?f = "\<lambda>i. [48 + of_nat (i div 10), 48 + of_nat (i mod 10) :: byte]"
  have d: "drop (2 * i) digits_table = concat (map ?f (drop i [0..<100]))"
    unfolding digits_table_pairs by (rule drop_concat_fixed) simp
  have "drop i [0..<100] = i # drop (Suc i) [0..<100]"
    using assms Cons_nth_drop_Suc [of i "[0..<100]"] by simp
  with d have e: "drop (2 * i) digits_table = ?f i @ concat (map ?f (drop (Suc i) [0..<100]))"
    by simp
  have l: "2 * i < length digits_table" "2 * i + 1 < length digits_table"
    using arg_cong [OF e, of length] by auto
  show "digits_table ! (i * 2) = 48 + of_nat (i div 10)"
    using arg_cong [OF e, of "\<lambda>xs. xs ! 0"] l by (simp add: mult.commute)
  show "digits_table ! (i * 2 + 1) = 48 + of_nat (i mod 10)"
    using arg_cong [OF e, of "\<lambda>xs. xs ! 1"] l by (simp add: mult.commute)
qed

lemma dec_two:
  assumes "100 \<le> v"
  shows "dec v = dec (v div 100) @ [digits_table ! (v mod 100 * 2), digits_table ! (v mod 100 * 2 + 1)]"
proof -
  have "dec v = dec (v div 10 div 10) @ [48 + of_nat (v div 10 mod 10), 48 + of_nat (v mod 10)]"
    using assms by (subst dec_step, simp, subst dec_step) auto
  moreover have "v div 10 mod 10 = v mod 100 div 10" "v mod 10 = v mod 100 mod 10"
    using mod_mult2_eq [of v 10 10] by (simp_all add: mod_mod_cancel)
  ultimately show ?thesis
    using digits_table_nth [of "v mod 100"] by (simp add: div_mult2_eq [symmetric])
qed

lemma unat_of_nat_pred:
  "k \<le> n \<Longrightarrow> n < 2 ^ 32 \<Longrightarrow> unat (of_nat n - of_nat k :: 32 word) = n - k"
  by (simp flip: of_nat_diff add: unat_of_nat)

lemma put_two:
  assumes "2 \<le> n" "n \<le> length dst" "n < 2 ^ 32"
  shows "mem_set dst (unat (of_nat n - 1 :: 32 word)) b \<bind>
      (\<lambda>d. mem_set d (unat (of_nat n - 1 - 1 :: 32 word)) a) =
    Some (take (n - 2) dst @ [a, b] @ drop n dst)"
proof -
  have u: "unat (of_nat n - 1 :: 32 word) = n - 1" "unat (of_nat n - 1 - 1 :: 32 word) = n - 2"
    using assms unat_of_nat_pred [of 1 n] unat_of_nat_pred [of 2 n]
    by (simp_all add: diff_diff_eq)
  have s: "Suc (n - 2) = n - 1" "Suc (n - 1) = n" using assms(1) by auto
  then have "drop (n - 2) dst = dst ! (n - 2) # dst ! (n - 1) # drop n dst"
    using assms Cons_nth_drop_Suc [of "n - 2" dst] Cons_nth_drop_Suc [of "n - 1" dst] by simp
  then have "dst = take (n - 2) dst @ [dst ! (n - 2), dst ! (n - 1)] @ drop n dst"
    by (metis append_Cons append_Nil append_take_drop_id)
  then obtain A x y C where d: "dst = A @ [x, y] @ C" "A = take (n - 2) dst" "C = drop n dst"
    by blast
  have l: "n = length A + 2" using assms unfolding d(2) by simp
  have "mem_set dst (n - 1) b = Some (A @ [x, b] @ C)"
    using mem_set_mid [of "n - 1" "A @ [x]" y C b] l by (simp add: d(1))
  moreover have "mem_set (A @ [x, b] @ C) (n - 2) a = Some (A @ [a, b] @ C)"
    using mem_set_mid [of "n - 2" A x "b # C" a] l by simp
  ultimately show ?thesis unfolding u d(2,3) by simp
qed

lemma put_one:
  assumes "1 \<le> n" "n \<le> length dst" "n < 2 ^ 32"
  shows "mem_set dst (unat (of_nat n - 1 :: 32 word)) b = Some (take (n - 1) dst @ [b] @ drop n dst)"
  using assms unat_of_nat_pred [of 1 n] by (simp add: mem_set_def upd_conv_take_nth_drop)

lemma ll2string_digits:
  assumes "length (dec v) \<le> n" "n \<le> length dst" "n < 2 ^ 32"
  shows "ll2string_loop dst (of_nat n - 1) v \<bind> (\<lambda>(d, next, v1). ll2string_last d next v1) =
    Some (take (n - length (dec v)) dst @ dec v @ drop n dst)"
  using assms
proof (induction v arbitrary: dst n rule: less_induct)
  case (less v)
  consider "v < 10" | "10 \<le> v" "v < 100" | "100 \<le> v" by linarith
  then show ?case
  proof cases
    case 1
    then show ?thesis
      using less.prems put_one [of n dst]
      by (subst ll2string_loop.simps) (simp add: ll2string_last_def dec_small)
  next
    case 2
    then have "dec v = [digits_table ! (v * 2), digits_table ! (v * 2 + 1)]"
      using digits_table_nth [of v] by (simp add: dec_step dec_small)
    then show ?thesis
      using 2 less.prems put_two [of n dst]
      by (subst ll2string_loop.simps) (simp add: ll2string_last_def flip: numeral_2_eq_2)
  next
    case 3
    let ?a = "digits_table ! (v mod 100 * 2)" and ?b = "digits_table ! (v mod 100 * 2 + 1)"
    let ?d = "take (n - 2) dst @ [?a, ?b] @ drop n dst"
    note two = dec_two [OF 3]
    have len: "length (dec (v div 100)) \<le> n - 2" "2 \<le> n" using less.prems(1) two by auto
    have w: "of_nat n - 1 - 2 = (of_nat (n - 2) - 1 :: 32 word)" using len(2) by (simp add: of_nat_diff)
    have "ll2string_loop dst (of_nat n - 1) v = ll2string_loop ?d (of_nat (n - 2) - 1) (v div 100)"
    proof -
      have "ll2string_loop dst (of_nat n - 1) v =
          (mem_set dst (unat (of_nat n - 1 :: 32 word)) ?b \<bind>
            (\<lambda>d. mem_set d (unat (of_nat n - 1 - 1 :: 32 word)) ?a)) \<bind>
          (\<lambda>d. ll2string_loop d (of_nat n - 1 - 2) (v div 100))"
        using 3 by (subst ll2string_loop.simps) (simp add: Let_def)
      then show ?thesis unfolding put_two [OF len(2) less.prems(2,3), of ?b ?a] w by simp
    qed
    then show ?thesis
      using less.IH [of "v div 100" "n - 2" ?d] 3 len less.prems two
      by (simp add: diff_diff_eq)
  qed
qed

lemma length_dec_le: "v < 10 ^ k \<Longrightarrow> 0 < k \<Longrightarrow> length (dec v) \<le> k"
proof (induction k arbitrary: v)
  case (Suc k)
  show ?case
  proof (cases "v < 10")
    case False
    with Suc.prems have "v div 10 < 10 ^ k" "0 < k"
      by (auto simp: less_mult_imp_div_less mult.commute intro: gr0I)
    with Suc.IH [of "v div 10"] False show ?thesis by (simp add: length_dec_step)
  qed (simp add: dec_small)
qed simp

definition abs64 :: "int \<Rightarrow> nat" where
  "abs64 v = (if v < 0 then nat (- v) else nat v)"

lemma idec_abs64: "idec v = (if v < 0 then 45 # dec (abs64 v) else dec (abs64 v))"
  by (simp add: idec_def abs64_def)

lemma llong_abs:
  "(if v < 0 then if v \<noteq> LLONG_MIN then nat (- v) else nat LLONG_MAX + 1 else nat v) = abs64 v"
  by (auto simp: abs64_def llong_defs)

lemma length_idec_le: "int64_range v \<Longrightarrow> length (idec v) \<le> 20"
proof -
  assume "int64_range v"
  then have "abs64 v < 10 ^ 19" by (auto simp: int64_range_def abs64_def)
  then show ?thesis using length_dec_le [of "abs64 v" 19] by (simp add: idec_abs64)
qed

lemma sdigits10_length: "int64_range v \<Longrightarrow> sdigits10 v = length (idec v)"
  by (auto simp: sdigits10_def idec_def digits10_length llong_defs int64_range_def)

lemma ll2string_writes:
  assumes "int64_range v" "dstlen \<le> length dst"
  shows "ll2string dst dstlen v =
    Some (if dstlen \<le> length (idec v) then (dst, 0)
          else (idec v @ 0 # drop (Suc (length (idec v))) dst, length (idec v)))"
proof -
  define neg where "neg = (if v < 0 then 1 else 0 :: nat)"
  define len where "len = length (dec (abs64 v)) + neg"
  have len: "len = length (idec v)" "len < 2 ^ 32" "length (dec (abs64 v)) \<le> len"
    using length_idec_le [OF assms(1)] by (auto simp: len_def neg_def idec_abs64)
  have eq: "ll2string dst dstlen v =
     (if len \<ge> dstlen then Some (dst, 0)
      else do {
        dst0 \<leftarrow> mem_set dst len 0;
        dst2 \<leftarrow> ll2string_loop dst0 (of_nat len - 1) (abs64 v) \<bind> (\<lambda>(d, next, v1). ll2string_last d next v1);
        dst3 \<leftarrow> (if neg \<noteq> 0 then mem_set dst2 0 45 else Some dst2);
        Some (dst3, len) })"
    unfolding ll2string_def llong_abs Let_def digits10_length
    by (simp add: len_def neg_def case_prod_unfold)
  show ?thesis
  proof (cases "dstlen \<le> len")
    case True
    with eq len(1) show ?thesis by simp
  next
    case False
    then have small: "len < length dst" using assms(2) by simp
    let ?d0 = "dst[len := 0]"
    have tail: "drop len ?d0 = 0 # drop (Suc len) dst"
      using small by (simp add: upd_conv_take_nth_drop)
    have digits: "ll2string_loop ?d0 (of_nat len - 1) (abs64 v) \<bind> (\<lambda>(d, next, v1). ll2string_last d next v1) =
        Some (take (len - length (dec (abs64 v))) ?d0 @ dec (abs64 v) @ 0 # drop (Suc len) dst)"
      using ll2string_digits [of "abs64 v" len ?d0] len small tail by simp
    have sign: "(if neg \<noteq> 0 then mem_set (take neg ?d0 @ dec (abs64 v) @ 0 # drop (Suc len) dst) 0 45
        else Some (take neg ?d0 @ dec (abs64 v) @ 0 # drop (Suc len) dst)) =
        Some (idec v @ 0 # drop (Suc len) dst)"
      using small len(3)
      by (cases "?d0") (auto simp: neg_def idec_abs64 mem_set_def)
    have "mem_set dst len 0 = Some ?d0" "len - length (dec (abs64 v)) = neg"
      using small by (simp_all add: mem_set_def len_def)
    with digits sign eq False have "ll2string dst dstlen v = Some (idec v @ 0 # drop (Suc len) dst, len)"
      by (simp only: if_False bind.bind_lunit)
    then show ?thesis using False len(1) by simp
  qed
qed

section \<open>string2ll accepts exactly the canonical representations\<close>

definition is_digit :: "byte \<Rightarrow> bool" where
  "is_digit c \<longleftrightarrow> 48 \<le> c \<and> c \<le> 57"

lemma is_digit_unat: "is_digit c \<longleftrightarrow> 48 \<le> unat c \<and> unat c \<le> 57"
  by (simp add: is_digit_def word_le_nat_alt)

lemma digit_value:
  assumes "is_digit c"
  shows "unat (c - 48) < 10" "48 + of_nat (unat (c - 48)) = c"
proof -
  have "48 \<le> c" using assms by (simp add: is_digit_def)
  then have "unat (c - 48) = unat c - 48" by (simp add: unat_sub)
  then show "unat (c - 48) < 10" using assms by (auto simp: is_digit_unat)
  show "48 + of_nat (unat (c - 48)) = c" by simp
qed

lemma digit_char:
  assumes "d < 10"
  shows "is_digit (48 + of_nat d)" "unat (48 + of_nat d - 48 :: byte) = d"
    "d \<noteq> 0 \<Longrightarrow> 49 \<le> (48 + of_nat d :: byte)"
proof -
  have "unat (48 + of_nat d :: byte) = 48 + d"
    using assms by (simp add: unat_word_ariths unat_of_nat)
  then show "is_digit (48 + of_nat d)" "d \<noteq> 0 \<Longrightarrow> 49 \<le> (48 + of_nat d :: byte)"
    using assms by (auto simp: is_digit_unat word_le_nat_alt)
  show "unat (48 + of_nat d - 48 :: byte) = d" using assms by (simp add: unat_of_nat)
qed

definition digit_step :: "nat \<Rightarrow> byte \<Rightarrow> nat" where
  "digit_step a c = a * 10 + unat (c - 48)"

lemma dec_digits: "c \<in> set (dec v) \<Longrightarrow> is_digit c"
proof (induction v rule: dec.induct)
  case (1 v)
  then show ?case by (cases "v < 10") (auto simp: dec_small dec_step digit_char)
qed

lemma foldl_dec: "foldl digit_step 0 (dec v) = v"
proof (induction v rule: dec.induct)
  case (1 v)
  then show ?case
    by (cases "v < 10") (simp_all add: dec_small dec_step digit_step_def unat_of_nat)
qed

lemma foldl_digit_ge: "a \<le> foldl digit_step a cs"
proof (induction cs arbitrary: a)
  case (Cons c cs)
  have "a \<le> digit_step a c" by (simp add: digit_step_def)
  with Cons [of "digit_step a c"] show ?case by simp
qed simp

lemma dec_foldl:
  "0 < v \<Longrightarrow> \<forall>c \<in> set cs. is_digit c \<Longrightarrow> dec (foldl digit_step v cs) = dec v @ cs"
proof (induction cs arbitrary: v)
  case (Cons c cs)
  then show ?case
    using digit_value [of c] dec_snoc [of v "unat (c - 48)"] by (simp add: digit_step_def)
qed simp

lemma string2ll_loop_eq:
  "string2ll_loop v cs = Some (v', []) \<longleftrightarrow>
   (\<forall>c \<in> set cs. is_digit c) \<and> v' = foldl digit_step v cs \<and> (v' \<le> ULLONG_MAX \<or> cs = [])"
proof (induction cs arbitrary: v)
  case (Cons c cs)
  show ?case
  proof (cases "is_digit c")
    case False
    then show ?thesis by (auto simp: is_digit_def)
  next
    case True
    have d: "unat (c - 48) < 10" by (rule digit_value [OF True])
    have chk: "string2ll_loop v (c # cs) =
        (if digit_step v c \<le> ULLONG_MAX then string2ll_loop (digit_step v c) cs else None)"
      using True d by (auto simp: is_digit_def digit_step_def ULLONG_MAX_def Let_def)
    have "digit_step v c \<le> foldl digit_step (digit_step v c) cs" by (rule foldl_digit_ge)
    with True chk Cons.IH [of "digit_step v c"] show ?thesis by auto
  qed
qed auto

lemma dec_Cons:
  assumes "0 < v"
  obtains c cs where "dec v = c # cs" "49 \<le> c" "c \<le> 57"
proof -
  have "dec v \<noteq> [] \<and> 49 \<le> hd (dec v)" if "0 < v" for v
    using that
  proof (induction v rule: dec.induct)
    case (1 v)
    then show ?case
      by (cases "v < 10") (auto simp: dec_small dec_step digit_char(3))
  qed
  then have "49 \<le> hd (dec v)" using assms by blast
  moreover have "is_digit (hd (dec v))" by (rule dec_digits [of _ v]) simp
  ultimately show thesis
    using that [of "hd (dec v)" "tl (dec v)"] by (simp add: is_digit_def)
qed

text \<open>The magnitude parser: a first digit 1-9 and then digits, read as the number whose
  decimal representation it is.\<close>

lemma string2ll_digits:
  assumes "49 \<le> c" "c \<le> 57"
  shows "(\<exists>v. string2ll_loop (unat (c - 48)) cs = Some (v, []) \<and> P v) \<longleftrightarrow>
         (\<exists>v. 0 < v \<and> dec v = c # cs \<and> v \<le> ULLONG_MAX \<and> P v)"
proof -
  have dg: "is_digit c" using assms by (auto simp: is_digit_unat word_le_nat_alt)
  let ?d = "unat (c - 48)"
  have d: "0 < ?d" "?d < 10" "dec ?d = [c]"
  proof -
    have "48 \<le> c" using assms(1) by (auto simp: word_le_nat_alt)
    then have "?d = unat c - 48" by (simp add: unat_sub)
    then show "0 < ?d" using assms(1) by (simp add: word_le_nat_alt)
    show "?d < 10" by (rule digit_value [OF dg])
    then show "dec ?d = [c]" using digit_value(2) [OF dg] by (simp add: dec_small)
  qed
  have max: "?d \<le> ULLONG_MAX" using d(2) by (simp add: ULLONG_MAX_def)
  have fold: "foldl digit_step 0 (c # cs) = foldl digit_step ?d cs"
    by (simp add: digit_step_def)
  show ?thesis
  proof
    assume "\<exists>v. string2ll_loop ?d cs = Some (v, []) \<and> P v"
    then show "\<exists>v. 0 < v \<and> dec v = c # cs \<and> v \<le> ULLONG_MAX \<and> P v"
      using dec_foldl [OF d(1), of cs] d max less_le_trans [OF d(1) foldl_digit_ge, of cs]
      by (auto simp: string2ll_loop_eq)
  next
    assume "\<exists>v. 0 < v \<and> dec v = c # cs \<and> v \<le> ULLONG_MAX \<and> P v"
    then obtain v where v: "dec v = c # cs" "v \<le> ULLONG_MAX" "P v" by blast
    then have "v = foldl digit_step ?d cs" using foldl_dec [of v] fold by simp
    moreover have "\<forall>x \<in> set cs. is_digit x" using dec_digits [of _ v] v(1) by auto
    ultimately show "\<exists>v. string2ll_loop ?d cs = Some (v, []) \<and> P v"
      using v by (auto simp: string2ll_loop_eq)
  qed
qed

lemma string2ll_iff: "string2ll s = Some v \<longleftrightarrow> int64_range v \<and> s = idec v"
proof -
  have zero: "idec 0 = [48]" by (simp add: idec_def dec_small)
  have pos: "string2ll s = Some v \<longleftrightarrow> int64_range v \<and> s = idec v"
    if s: "s = c # cs" "c \<noteq> 45" "\<not> (cs = [] \<and> c = 48)" for c cs
  proof (cases "49 \<le> c \<and> c \<le> 57")
    case True
    have "string2ll s = Some v \<longleftrightarrow>
        (\<exists>n. string2ll_loop (unat (c - 48)) cs = Some (n, []) \<and> int n \<le> LLONG_MAX \<and> v = int n)"
      using s True by (auto simp: string2ll_def split: option.splits)
    also have "\<dots> \<longleftrightarrow> (\<exists>n. 0 < n \<and> dec n = c # cs \<and> n \<le> ULLONG_MAX \<and> int n \<le> LLONG_MAX \<and> v = int n)"
      using True by (intro string2ll_digits) auto
    also have "\<dots> \<longleftrightarrow> int64_range v \<and> s = idec v"
    proof -
      have "s = idec v \<Longrightarrow> v \<noteq> 0" using s True zero by auto
      then show ?thesis
        using s by (auto simp: idec_def int64_range_def llong_defs intro!: exI [of _ "nat v"])
    qed
    finally show ?thesis .
  next
    case False
    have "idec v \<noteq> c # cs"
    proof (cases "0 < v")
      case True
      then obtain c' cs' where "dec (nat v) = c' # cs'" "49 \<le> c'" "c' \<le> 57"
        using dec_Cons [of "nat v"] by auto
      with True False show ?thesis by (auto simp: idec_def)
    next
      case nonpos: False
      with s(2,3) zero show ?thesis by (cases "v = 0") (auto simp: idec_def)
    qed
    moreover have "string2ll s = None" using s False by (auto simp: string2ll_def)
    ultimately show ?thesis using s(1) by auto
  qed
  have neg: "string2ll s = Some v \<longleftrightarrow> int64_range v \<and> s = idec v" if s: "s = 45 # cs" for cs
  proof (cases "\<exists>c ds. cs = c # ds \<and> 49 \<le> c \<and> c \<le> 57")
    case True
    then obtain c ds where c: "cs = c # ds" "49 \<le> c" "c \<le> 57" by blast
    have "string2ll s = Some v \<longleftrightarrow>
        (\<exists>n. string2ll_loop (unat (c - 48)) ds = Some (n, []) \<and> n \<le> 2 ^ 63 \<and> v = - int n)"
      using s c by (auto simp: string2ll_def llong_defs split: option.splits)
    also have "\<dots> \<longleftrightarrow> (\<exists>n. 0 < n \<and> dec n = c # ds \<and> n \<le> ULLONG_MAX \<and> n \<le> 2 ^ 63 \<and> v = - int n)"
      using c by (intro string2ll_digits) auto
    also have "\<dots> \<longleftrightarrow> int64_range v \<and> s = idec v"
    proof -
      have "dec (nat v) \<noteq> 45 # c # ds"
        using dec_digits [of 45 "nat v"] by (auto simp: is_digit_def)
      then show ?thesis
        using s c by (auto simp: idec_def int64_range_def ULLONG_MAX_def intro!: exI [of _ "nat (- v)"])
    qed
    finally show ?thesis .
  next
    case False
    have "idec v \<noteq> 45 # cs"
    proof (cases "v < 0")
      case True
      then obtain c' cs' where "dec (nat (- v)) = c' # cs'" "49 \<le> c'" "c' \<le> 57"
        using dec_Cons [of "nat (- v)"] by auto
      with False True show ?thesis by (auto simp: idec_def)
    next
      case nonneg: False
      then show ?thesis using dec_digits [of 45 "nat v"] by (auto simp: idec_def is_digit_def)
    qed
    moreover have "string2ll s = None" using s False by (cases cs) (auto simp: string2ll_def)
    ultimately show ?thesis using s by auto
  qed
  consider "s = []" | "s = [48]" | c cs where "s = c # cs" "c \<noteq> 45" "\<not> (cs = [] \<and> c = 48)"
    | cs where "s = 45 # cs" by (cases s) auto
  then show ?thesis
  proof cases
    case 1
    moreover have "idec v \<noteq> []" by (simp add: idec_def)
    ultimately show ?thesis by (auto simp: string2ll_def)
  next
    case 2
    have "idec v = [48] \<longleftrightarrow> v = 0"
      using foldl_dec [of "nat v"] zero
      by (auto simp: idec_def digit_step_def split: if_splits)
    with 2 show ?thesis by (auto simp: string2ll_def int64_range_def)
  qed (use pos neg in auto)
qed

section \<open>Properties\<close>

text \<open>C31: \<open>string2ll\<close> succeeds exactly on the canonical decimal representation of a 64-bit
  signed integer (no leading zeros, no plus sign, no "-0", no blanks, no overflow) and then
  returns that integer.\<close>

theorem string2ll_canonical: "string2ll s = Some v \<longleftrightarrow> int64_range v \<and> s = idec v"
  by (rule string2ll_iff)

text \<open>C32: \<open>ll2string\<close> writes the canonical representation and a terminating zero byte into the
  buffer when it fits, and otherwise returns 0 and leaves the buffer alone; it never writes
  outside the \<open>dstlen\<close> bytes, for every \<open>long long\<close> including \<open>LLONG_MIN\<close>.  Its length is
  what \<open>sdigits10\<close> computes.\<close>

theorem ll2string_canonical:
  assumes "int64_range v" "dstlen \<le> length dst"
  shows "ll2string dst dstlen v =
    Some (if dstlen \<le> sdigits10 v then (dst, 0)
          else (idec v @ 0 # drop (Suc (sdigits10 v)) dst, sdigits10 v))"
  using ll2string_writes [OF assms] sdigits10_length [OF assms(1)] by simp

lemma ll2string_canonical_witness:
  "ll2string (replicate 21 7) 21 (- (2 ^ 63)) =
     Some (ascii ''-9223372036854775808'' @ [0], 20) \<and>
   ll2string (replicate 21 7) 20 (- (2 ^ 63)) = Some (replicate 21 7, 0)"
  using ll2string_canonical [of "- (2 ^ 63)" 21 "replicate 21 7"]
    ll2string_canonical [of "- (2 ^ 63)" 20 "replicate 21 7"]
  by (simp add: int64_range_def sdigits10_def digits10.simps idec_def dec.simps llong_defs ascii_def)

text \<open>Round trip: what \<open>ll2string\<close> writes for a 64-bit integer, \<open>string2ll\<close> reads back.\<close>

theorem ll2string_string2ll_roundtrip:
  assumes "int64_range v" "21 \<le> length dst"
  shows "\<exists>dst' n. ll2string dst (length dst) v = Some (dst', n) \<and> 0 < n \<and> n \<le> 20 \<and>
    string2ll (take n dst') = Some v \<and> string2l (take n dst') = Some v"
proof -
  have len: "length (idec v) \<le> 20" "0 < length (idec v)"
    using length_idec_le [OF assms(1)] by (auto simp: idec_def)
  have "string2ll (idec v) = Some v" using assms(1) by (simp add: string2ll_iff)
  then show ?thesis
    using ll2string_writes [OF assms(1), of "length dst" dst] assms len
    by (auto simp: string2l_def int64_range_def llong_defs)
qed

lemma ll2string_string2ll_roundtrip_witness:
  "\<exists>dst' n. ll2string (replicate 32 0) 32 (-42) = Some (dst', n) \<and> string2ll (take n dst') = Some (-42)"
  using ll2string_string2ll_roundtrip [of "-42" "replicate 32 0"] by (auto simp: int64_range_def)

text \<open>\<open>digits10\<close> counts the decimal digits of every unsigned integer.\<close>

theorem digits10_counts: "digits10 v = length (dec v) \<and> foldl digit_step 0 (dec v) = v"
  by (simp add: digits10_length foldl_dec)

end
