(* ===== verification/Glob.thy ===== *)
theory Glob
  imports Util
begin

text \<open>
  Glob-style matching (\<open>stringmatchlen\<close> of \<^verbatim>\<open>util.c\<close>), which decides what KEYS, SCAN MATCH,
  PSUBSCRIBE and CONFIG GET select.  The C code walks two pointers with signed remaining
  lengths and reads one byte behind them, so the model runs on the buffers with their zero
  terminators, keeps the lengths as \<open>int\<close> and reports a read behind a buffer as \<open>None\<close>.
  Fuel bounds the recursion; \<open>stringmatchlen\<close> supplies an amount that is shown to be enough.
\<close>

section \<open>The code\<close>

text \<open>\<open>char\<close> is signed on the supported targets; \<open>tolower\<close> of the C locale.\<close>

definition tolower :: "int \<Rightarrow> int" where
  "tolower c = (if 65 \<le> c \<and> c \<le> 90 then c + 32 else c)"

definition char_eq :: "bool \<Rightarrow> byte \<Rightarrow> byte \<Rightarrow> bool" where
  "char_eq nocase a b =
     (if \<not> nocase then a = b else tolower (sint a) = tolower (sint b))"

text \<open>\<open>while (pattern[1] == '*')\<close> and \<open>while (*pattern == '*')\<close>.\<close>

function skip_stars_next :: "bytes \<Rightarrow> nat \<Rightarrow> int \<Rightarrow> (nat \<times> int) option" where
  "skip_stars_next pat p plen =
     Option.bind (mem_get pat (p + 1)) (\<lambda>b.
       if b = 42 then skip_stars_next pat (p + 1) (plen - 1) else Some (p, plen))"
  by pat_completeness auto
termination
  by (relation "measure (\<lambda>(pat, p, plen). length pat - p)") (auto simp: mem_get_def split: if_splits)

function skip_stars :: "bytes \<Rightarrow> nat \<Rightarrow> int \<Rightarrow> (nat \<times> int) option" where
  "skip_stars pat p plen =
     Option.bind (mem_get pat p) (\<lambda>b.
       if b = 42 then skip_stars pat (p + 1) (plen - 1) else Some (p, plen))"
  by pat_completeness auto
termination
  by (relation "measure (\<lambda>(pat, p, plen). length pat - p)") (auto simp: mem_get_def split: if_splits)

declare skip_stars_next.simps [simp del] skip_stars.simps [simp del]

text \<open>The loop over a character class, from behind the \<open>[\<close> or \<open>[^\<close>, for the byte \<open>str[s]\<close>.\<close>

function class_loop ::
  "bytes \<Rightarrow> nat \<Rightarrow> int \<Rightarrow> bytes \<Rightarrow> nat \<Rightarrow> bool \<Rightarrow> bool \<Rightarrow> (nat \<times> int \<times> bool) option" where
  "class_loop pat p plen str s nocase m =
     Option.bind (mem_get pat p) (\<lambda>b0.
       if b0 = 92 then
         Option.bind (mem_get pat (p + 1)) (\<lambda>b.
         Option.bind (mem_get str s) (\<lambda>c.
           class_loop pat (p + 2) (plen - 2) str s nocase (m \<or> b = c)))
       else if b0 = 93 then Some (p, plen, m)
       else if plen = 0 then Some (p - 1, plen + 1, m)
       else Option.bind (mem_get pat (p + 1)) (\<lambda>b1.
         if b1 = 45 \<and> plen \<ge> 3 then
           Option.bind (mem_get pat (p + 2)) (\<lambda>b2.
           Option.bind (mem_get str s) (\<lambda>cb.
             let start = sint b0; end = sint b2; c = sint cb;
                 (start, end) = (if start > end then (end, start) else (start, end));
                 (start, end, c) = (if nocase then (tolower start, tolower end, tolower c)
                                    else (start, end, c))
             in class_loop pat (p + 3) (plen - 3) str s nocase (m \<or> (c \<ge> start \<and> c \<le> end))))
         else
           Option.bind (mem_get str s) (\<lambda>c.
             class_loop pat (p + 1) (plen - 1) str s nocase (m \<or> char_eq nocase b0 c))))"
  by pat_completeness auto
termination
  by (relation "measure (\<lambda>(pat, p, plen, str, s, nocase, m). length pat - p)")
    (auto simp: mem_get_def split: if_splits)

declare class_loop.simps [simp del]

text \<open>One pattern element other than \<open>*\<close>: \<open>None\<close> inside is "return 0", \<open>Some\<close> the four
  variables before the \<open>pattern++\<close> behind the switch.\<close>

definition match_one ::
  "bytes \<Rightarrow> nat \<Rightarrow> int \<Rightarrow> bytes \<Rightarrow> nat \<Rightarrow> int \<Rightarrow> bool \<Rightarrow> byte \<Rightarrow> (nat \<times> int \<times> nat \<times> int) option option" where
  "match_one pat p plen str s slen nocase b =
     (if b = 63 then
        (if slen = 0 then Some None else Some (Some (p, plen, s + 1, slen - 1)))
      else if b = 91 then do {
        b1 \<leftarrow> mem_get pat (p + 1);
        let neg = (b1 = 94);
        (p1, plen1, m) \<leftarrow> (if neg then class_loop pat (p + 2) (plen - 2) str s nocase False
                           else class_loop pat (p + 1) (plen - 1) str s nocase False);
        if (if neg then \<not> m else m) then Some (Some (p1, plen1, s + 1, slen - 1)) else Some None
      } else do {
        let (p1, plen1) = (if b = 92 \<and> plen \<ge> 2 then (p + 1, plen - 1) else (p, plen));
        pc \<leftarrow> mem_get pat p1;
        sc \<leftarrow> mem_get str s;
        if char_eq nocase pc sc then Some (Some (p1, plen1, s + 1, slen - 1)) else Some None
      })"

fun match_loop :: "nat \<Rightarrow> bytes \<Rightarrow> nat \<Rightarrow> int \<Rightarrow> bytes \<Rightarrow> nat \<Rightarrow> int \<Rightarrow> bool \<Rightarrow> bool option"
and star_loop :: "nat \<Rightarrow> bytes \<Rightarrow> nat \<Rightarrow> int \<Rightarrow> bytes \<Rightarrow> nat \<Rightarrow> int \<Rightarrow> bool \<Rightarrow> bool option" where
  "match_loop 0 pat p plen str s slen nocase = None"
| "match_loop (Suc f) pat p plen str s slen nocase =
     (if plen = 0 then Some (slen = 0)
      else do {
        b \<leftarrow> mem_get pat p;
        if b = 42 then do {
          (p1, plen1) \<leftarrow> skip_stars_next pat p plen;
          if plen1 = 1 then Some True else star_loop f pat p1 plen1 str s slen nocase
        } else do {
          r \<leftarrow> match_one pat p plen str s slen nocase b;
          case r of None \<Rightarrow> Some False
          | Some (p1, plen1, s1, slen1) \<Rightarrow>
              if slen1 = 0 then do {
                (p2, plen2) \<leftarrow> skip_stars pat (p1 + 1) (plen1 - 1);
                Some (plen2 = 0 \<and> slen1 = 0)
              } else match_loop f pat (p1 + 1) (plen1 - 1) str s1 slen1 nocase
        }
      })"
| "star_loop 0 pat p plen str s slen nocase = None"
| "star_loop (Suc f) pat p plen str s slen nocase =
     (if slen = 0 then Some False
      else do {
        m \<leftarrow> match_loop f pat (p + 1) (plen - 1) str s slen nocase;
        if m then Some True else star_loop f pat p plen str (s + 1) (slen - 1) nocase
      })"

definition stringmatchlen :: "bytes \<Rightarrow> bytes \<Rightarrow> bool \<Rightarrow> bool option" where
  "stringmatchlen pattern string nocase =
     match_loop (length pattern * (length string + 2) + 1)
       (pattern @ [0]) 0 (int (length pattern)) (string @ [0]) 0 (int (length string)) nocase"

text \<open>\<open>stringmatch\<close> takes the C strings up to their first zero byte.\<close>

definition stringmatch :: "bytes \<Rightarrow> bytes \<Rightarrow> bool \<Rightarrow> bool option" where
  "stringmatch pattern string nocase =
     stringmatchlen (takeWhile (\<lambda>b. b \<noteq> 0) pattern) (takeWhile (\<lambda>b. b \<noteq> 0) string) nocase"

section \<open>What a pattern means\<close>

datatype gtok = GStar | GAny | GLit byte

text \<open>Patterns without a character class.\<close>

fun gparse :: "bytes \<Rightarrow> gtok list" where
  "gparse [] = []"
| "gparse (c # cs) =
     (if c = 42 then GStar # gparse cs
      else if c = 63 then GAny # gparse cs
      else if c = 92 then (case cs of [] \<Rightarrow> [GLit 92] | d # ds \<Rightarrow> GLit d # gparse ds)
      else GLit c # gparse cs)"

fun gmatch :: "bool \<Rightarrow> gtok list \<Rightarrow> bytes \<Rightarrow> bool" where
  "gmatch nc [] s = (s = [])"
| "gmatch nc (GStar # ts) [] = gmatch nc ts []"
| "gmatch nc (GStar # ts) (c # cs) = (gmatch nc ts (c # cs) \<or> gmatch nc (GStar # ts) cs)"
| "gmatch nc (GAny # ts) s = (case s of [] \<Rightarrow> False | c # cs \<Rightarrow> gmatch nc ts cs)"
| "gmatch nc (GLit d # ts) s = (case s of [] \<Rightarrow> False | c # cs \<Rightarrow> char_eq nc d c \<and> gmatch nc ts cs)"

lemma gmatch_star: "gmatch nc (GStar # ts) s \<longleftrightarrow> (\<exists>k \<le> length s. gmatch nc ts (drop k s))"
proof (induction s)
  case (Cons c cs)
  have "(\<exists>k \<le> length (c # cs). gmatch nc ts (drop k (c # cs))) \<longleftrightarrow>
      gmatch nc ts (c # cs) \<or> (\<exists>k \<le> length cs. gmatch nc ts (drop k cs))"
    by (metis (no_types, lifting) Suc_le_mono drop0 drop_Suc_Cons le0 length_Cons not0_implies_Suc)
  with Cons show ?case by simp
qed simp

lemma gmatch_star_star: "gmatch nc (GStar # GStar # ts) s = gmatch nc (GStar # ts) s"
proof -
  have "\<exists>k \<le> length s. gmatch nc ts (drop k s)" if "j \<le> length s" "k \<le> length (drop j s)" "gmatch nc ts (drop k (drop j s))" for j k
    using that by (intro exI [of _ "k + j"]) auto
  moreover have "\<exists>j \<le> length s. \<exists>k \<le> length (drop j s). gmatch nc ts (drop k (drop j s))"
    if "k \<le> length s" "gmatch nc ts (drop k s)" for k
    using that by (intro exI [of _ k] conjI exI [of _ 0]) auto
  ultimately show ?thesis unfolding gmatch_star by blast
qed

section \<open>The matcher computes the meaning\<close>

text \<open>Reading a buffer with its terminator at a position of the string.\<close>

lemma mem_get_term:
  "i < length P \<Longrightarrow> mem_get (P @ [0]) i = Some (P ! i)"
  "i = length P \<Longrightarrow> mem_get (P @ [0]) i = Some 0"
  by (auto simp: mem_get_def nth_append)

lemma drop_nth: "p < length P \<Longrightarrow> drop p P = P ! p # drop (Suc p) P"
  by (simp add: Cons_nth_drop_Suc)

lemma int_diff_Suc: "p < n \<Longrightarrow> int (n - p) - 1 = int (n - (p + 1))"
  by simp

lemma skip_stars_term:
  assumes "p \<le> length P"
  shows "\<exists>q. skip_stars (P @ [0]) p (int (length P - p)) = Some (q, int (length P - q)) \<and> q \<le> length P \<and>
    (\<forall>nc. gmatch nc (gparse (drop p P)) [] = gmatch nc (gparse (drop q P)) []) \<and>
    (q < length P \<longrightarrow> P ! q \<noteq> 42)"
  using assms
proof (induction "length P - p" arbitrary: p)
  case 0
  then show ?case by (subst skip_stars.simps) (auto simp: mem_get_term)
next
  case (Suc n)
  have n: "n = length P - (p + 1)" "p + 1 \<le> length P" and p: "p < length P"
    using Suc.hyps(2) by simp_all
  show ?case
  proof (cases "P ! p = 42")
    case True
    obtain q where q: "skip_stars (P @ [0]) (p + 1) (int (length P - (p + 1))) = Some (q, int (length P - q))"
      "q \<le> length P" "\<forall>nc. gmatch nc (gparse (drop (p + 1) P)) [] = gmatch nc (gparse (drop q P)) []"
      "q < length P \<longrightarrow> P ! q \<noteq> 42"
      using Suc.hyps(1) [of "p + 1"] n p by blast
    have "skip_stars (P @ [0]) p (int (length P - p)) =
        skip_stars (P @ [0]) (p + 1) (int (length P - (p + 1)))"
      by (subst skip_stars.simps)
        (simp only: mem_get_term(1) [OF p] True bind.bind_lunit simp_thms if_True int_diff_Suc [OF p])
    with q True show ?thesis by (auto simp: drop_nth [OF p])
  next
    case False
    with p show ?thesis by (subst skip_stars.simps) (auto simp: mem_get_term)
  qed
qed

lemma skip_stars_next_term:
  assumes "p < length P" "P ! p = 42"
  shows "\<exists>q. skip_stars_next (P @ [0]) p (int (length P - p)) = Some (q, int (length P - q)) \<and>
    p \<le> q \<and> q < length P \<and> P ! q = 42 \<and>
    (\<forall>nc s. gmatch nc (gparse (drop p P)) s = gmatch nc (gparse (drop q P)) s) \<and>
    (Suc q < length P \<longrightarrow> P ! Suc q \<noteq> 42)"
  using assms
proof (induction "length P - p" arbitrary: p)
  case 0
  then show ?case by simp
next
  case (Suc n)
  have n: "n = length P - (p + 1)" using Suc.hyps(2) by simp
  show ?case
  proof (cases "p + 1 < length P \<and> P ! (p + 1) = 42")
    case True
    obtain q where q: "skip_stars_next (P @ [0]) (p + 1) (int (length P - (p + 1))) = Some (q, int (length P - q))"
      "p + 1 \<le> q" "q < length P" "P ! q = 42"
      "\<forall>nc s. gmatch nc (gparse (drop (p + 1) P)) s = gmatch nc (gparse (drop q P)) s"
      "Suc q < length P \<longrightarrow> P ! Suc q \<noteq> 42"
      using Suc.hyps(1) [of "p + 1"] n True by blast
    have "skip_stars_next (P @ [0]) p (int (length P - p)) =
        skip_stars_next (P @ [0]) (p + 1) (int (length P - (p + 1)))"
      using True mem_get_term(1) [of "p + 1" P]
      by (subst skip_stars_next.simps)
        (simp only: bind.bind_lunit simp_thms if_True int_diff_Suc [OF Suc.prems(1)])
    moreover have "gparse (drop p P) = GStar # GStar # gparse (drop (p + 2) P)"
      "gparse (drop (p + 1) P) = GStar # gparse (drop (p + 2) P)"
      using True Suc.prems drop_nth [of p P] drop_nth [of "Suc p" P] by simp_all
    ultimately show ?thesis using q by (auto simp: gmatch_star_star)
  next
    case False
    then have "skip_stars_next (P @ [0]) p (int (length P - p)) = Some (p, int (length P - p))"
      using Suc.prems
      by (subst skip_stars_next.simps) (cases "p + 1 = length P"; auto simp: mem_get_term)
    with False Suc.prems show ?thesis by auto
  qed
qed

text \<open>A token list whose first token is not a star does not match the empty string.\<close>

lemma gparse_not_star:
  "cs \<noteq> [] \<Longrightarrow> hd cs \<noteq> 42 \<Longrightarrow> \<not> gmatch nc (gparse cs) []"
  by (cases cs) (auto split: list.splits)

lemma match_one_term:
  assumes "p < length P" "P ! p \<noteq> 42" "91 \<notin> set P" "0 \<notin> set P" "s \<le> length S"
  shows "match_one (P @ [0]) p (int (length P - p)) (S @ [0]) s (int (length S - s)) nc (P ! p) = Some None \<and>
      \<not> gmatch nc (gparse (drop p P)) (drop s S) \<or>
    (\<exists>q. match_one (P @ [0]) p (int (length P - p)) (S @ [0]) s (int (length S - s)) nc (P ! p) =
        Some (Some (q, int (length P - q), s + 1, int (length S - s) - 1)) \<and>
      p \<le> q \<and> q < length P \<and> s < length S \<and>
      gmatch nc (gparse (drop p P)) (drop s S) = gmatch nc (gparse (drop (q + 1) P)) (drop (s + 1) S))"
proof -
  have zero: "\<not> char_eq nc (P ! i) 0" if "i < length P" for i
  proof -
    have "P ! i \<noteq> 0" using that assms(4) nth_mem by fastforce
    moreover have "tolower (sint x) = 0 \<Longrightarrow> x = 0" for x :: byte
      by (auto simp: tolower_def signed_eq_0_iff split: if_splits)
    ultimately show ?thesis by (auto simp: char_eq_def tolower_def split: if_splits)
  qed
  have not91: "P ! p \<noteq> 91" using assms(1,3) nth_mem by fastforce
  note d = drop_nth [OF assms(1)]
  show ?thesis
  proof (cases "P ! p = 92 \<and> Suc p < length P")
    case True
    then have d2: "drop (Suc p) P = P ! Suc p # drop (Suc (Suc p)) P" by (simp add: drop_nth)
    from True zero [of "Suc p"] assms(5) show ?thesis
      by (cases "s < length S")
        (auto simp: match_one_def mem_get_term d d2 drop_nth of_nat_diff Let_def
          intro!: exI [of _ "Suc p"])
  next
    case False
    then have "P ! p = 92 \<Longrightarrow> drop (Suc p) P = []" using assms(1) by auto
    with False not91 assms(1,2,5) zero [of p] show ?thesis
      by (cases "s < length S")
        (auto simp: match_one_def mem_get_term d drop_nth of_nat_diff Let_def
          split: list.splits)
  qed
qed

text \<open>
  Depth of the recursion: a pattern element costs at most one pass over the rest of the
  string.  The two loops are proved together, by induction on the fuel.
\<close>

lemma fuel_step:
  fixes a b f :: nat
  assumes "Suc a * (b + 2) + 1 \<le> Suc f" "b' \<le> b" "a' \<le> a"
  shows "a' * (b' + 2) + 1 \<le> f"
proof -
  have "a' * (b' + 2) \<le> a * (b + 2)" using assms(2,3) by (intro mult_le_mono) auto
  then show ?thesis using assms(1) by simp
qed

lemma match_loops_correct:
  assumes "91 \<notin> set P" "0 \<notin> set P"
  shows "p \<le> length P \<Longrightarrow> s \<le> length S \<Longrightarrow>
      (length P - p) * (length S - s + 2) + 1 \<le> f \<Longrightarrow>
      match_loop f (P @ [0]) p (int (length P - p)) (S @ [0]) s (int (length S - s)) nc =
        Some (gmatch nc (gparse (drop p P)) (drop s S))"
    and "Suc p < length P \<Longrightarrow> s \<le> length S \<Longrightarrow> P ! p = 42 \<Longrightarrow> P ! Suc p \<noteq> 42 \<Longrightarrow>
      (length P - Suc p) * (length S - s + 2) + (length S - s + 2) \<le> f \<Longrightarrow>
      star_loop f (P @ [0]) p (int (length P - p)) (S @ [0]) s (int (length S - s)) nc =
        Some (gmatch nc (gparse (drop p P)) (drop s S))"
proof (induction f arbitrary: p s)
  case 0
  { case 1 then show ?case by simp }
  { case 2 then show ?case by simp }
next
  case (Suc f)
  { case 1
    show ?case
    proof (cases "p = length P")
      case True
      then show ?thesis using 1 by auto
    next
      case False
      then have p: "p < length P" and lp: "int (length P - p) \<noteq> 0" using 1(1) by auto
      show ?thesis
      proof (cases "P ! p = 42")
        case True
        obtain q where q: "skip_stars_next (P @ [0]) p (int (length P - p)) = Some (q, int (length P - q))"
          "p \<le> q" "q < length P" "P ! q = 42"
          "\<forall>nc s. gmatch nc (gparse (drop p P)) s = gmatch nc (gparse (drop q P)) s"
          "Suc q < length P \<longrightarrow> P ! Suc q \<noteq> 42"
          using skip_stars_next_term [OF p True] by blast
        have step: "match_loop (Suc f) (P @ [0]) p (int (length P - p)) (S @ [0]) s (int (length S - s)) nc =
            (if int (length P - q) = 1 then Some True
             else star_loop f (P @ [0]) q (int (length P - q)) (S @ [0]) s (int (length S - s)) nc)"
          using lp mem_get_term(1) [OF p] True q(1)
          by (simp del: of_nat_diff star_loop.simps)
        show ?thesis
        proof (cases "Suc q < length P")
          case last: False
          then have "Suc q = length P" using q(3) by simp
          then have "gparse (drop q P) = [GStar]" using q(3,4) by (simp add: drop_nth)
          then show ?thesis using step q(5) \<open>Suc q = length P\<close>
            by (auto simp: gmatch_star intro: exI [of _ "length (drop s S)"])
        next
          case more: True
          have "(length P - Suc q) * (length S - s + 2) + (length S - s + 2) \<le> f"
          proof -
            have "Suc (length P - Suc q) * (length S - s + 2) \<le> (length P - p) * (length S - s + 2)"
              using q(2) more by (intro mult_le_mono) auto
            then show ?thesis using 1(3) unfolding mult_Suc by linarith
          qed
          then show ?thesis
            using step q more Suc.IH(2) [of q s] 1(2) by auto
        qed
      next
        case star: False
        have one: "match_loop (Suc f) (P @ [0]) p (int (length P - p)) (S @ [0]) s (int (length S - s)) nc =
            match_one (P @ [0]) p (int (length P - p)) (S @ [0]) s (int (length S - s)) nc (P ! p) \<bind>
            (\<lambda>r. case r of None \<Rightarrow> Some False
              | Some (p1, plen1, s1, slen1) \<Rightarrow>
                if slen1 = 0 then skip_stars (P @ [0]) (p1 + 1) (plen1 - 1) \<bind> (\<lambda>(p2, plen2). Some (plen2 = 0 \<and> slen1 = 0))
                else match_loop f (P @ [0]) (p1 + 1) (plen1 - 1) (S @ [0]) s1 slen1 nc)"
          using lp mem_get_term(1) [OF p] star by (simp del: of_nat_diff)
        from match_one_term [OF p star assms 1(2), of nc] show ?thesis
        proof (elim disjE exE conjE)
          assume "match_one (P @ [0]) p (int (length P - p)) (S @ [0]) s (int (length S - s)) nc (P ! p) = Some None"
            "\<not> gmatch nc (gparse (drop p P)) (drop s S)"
          then show ?thesis using one by simp
        next
          fix q
          assume q: "match_one (P @ [0]) p (int (length P - p)) (S @ [0]) s (int (length S - s)) nc (P ! p) =
              Some (Some (q, int (length P - q), s + 1, int (length S - s) - 1))"
            "p \<le> q" "q < length P" "s < length S"
            "gmatch nc (gparse (drop p P)) (drop s S) = gmatch nc (gparse (drop (q + 1) P)) (drop (s + 1) S)"
          note eqs = int_diff_Suc [OF q(3)] int_diff_Suc [OF q(4)]
          show ?thesis
          proof (cases "length S = Suc s")
            case True
            obtain r where r: "skip_stars (P @ [0]) (q + 1) (int (length P - (q + 1))) = Some (r, int (length P - r))"
              "r \<le> length P" "\<forall>nc. gmatch nc (gparse (drop (q + 1) P)) [] = gmatch nc (gparse (drop r P)) []"
              "r < length P \<longrightarrow> P ! r \<noteq> 42"
              using skip_stars_term [of "q + 1" P] q(3) by auto
            have "gmatch nc (gparse (drop r P)) [] = (r = length P)"
              using r(2,4) gparse_not_star [of "drop r P" nc] by (cases "r = length P") (auto simp: hd_drop_conv_nth)
            then show ?thesis
              using one q(1) q(5) r True eqs by (auto simp del: of_nat_diff)
          next
            case False
            have "(length P - (q + 1)) * (length S - (s + 1) + 2) + 1 \<le> f"
              by (rule fuel_step [of "length P - Suc p" "length S - s"])
                (use 1(3) p q(2) in \<open>auto simp: Suc_diff_Suc\<close>)
            then have "match_loop f (P @ [0]) (q + 1) (int (length P - (q + 1))) (S @ [0]) (s + 1)
                (int (length S - (s + 1))) nc = Some (gmatch nc (gparse (drop (q + 1) P)) (drop (s + 1) S))"
              using Suc.IH(1) [of "q + 1" "s + 1"] q(3,4) by simp
            moreover have "int (length S - (s + 1)) \<noteq> 0" using False q(4) by simp
            ultimately show ?thesis
              using one q(1,5) eqs by (simp del: of_nat_diff)
          qed
        qed
      qed
    qed
  }
  { case 2
    then have p: "p < length P" by simp
    have ns: "\<not> gmatch nc (gparse (drop (p + 1) P)) []"
      using gparse_not_star [of "drop (p + 1) P" nc] 2(1,4) by (simp add: hd_drop_conv_nth)
    have gp: "gparse (drop p P) = GStar # gparse (drop (p + 1) P)"
      using 2(3) by (simp add: drop_nth [OF p])
    show ?case
    proof (cases "s = length S")
      case True
      then show ?thesis using ns gp by simp
    next
      case False
      then have s: "s < length S" using 2(2) by simp
      have rec: "match_loop f (P @ [0]) (p + 1) (int (length P - (p + 1))) (S @ [0]) s (int (length S - s)) nc =
          Some (gmatch nc (gparse (drop (p + 1) P)) (drop s S))"
        using Suc.IH(1) [of "p + 1" s] 2 by simp
      have "(length P - Suc p) * (length S - (s + 1) + 2) + (length S - (s + 1) + 2) \<le> f"
      proof -
        have "(length P - Suc p) * (length S - (s + 1) + 2) \<le> (length P - Suc p) * (length S - s + 2)"
          by (intro mult_le_mono) auto
        moreover have "Suc (length S - (s + 1)) = length S - s" using s by simp
        ultimately show ?thesis using 2(5) by linarith
      qed
      then have star: "star_loop f (P @ [0]) p (int (length P - p)) (S @ [0]) (s + 1) (int (length S - (s + 1))) nc =
          Some (gmatch nc (gparse (drop p P)) (drop (s + 1) S))"
        using Suc.IH(2) [of p "s + 1"] 2(1,3,4) s by simp
      have "int (length S - s) \<noteq> 0" using s by simp
      then show ?thesis
        using rec star int_diff_Suc [OF p] int_diff_Suc [OF s] gp drop_nth [OF s]
        by (simp del: of_nat_diff)
    qed
  }
qed

section \<open>Reads behind the buffers\<close>

text \<open>The matcher on whole buffers with a given amount of fuel.\<close>

definition match_fuel :: "nat \<Rightarrow> bytes \<Rightarrow> bytes \<Rightarrow> bool \<Rightarrow> bool option" where
  "match_fuel f pattern string nocase =
     match_loop f (pattern @ [0]) 0 (int (length pattern)) (string @ [0]) 0 (int (length string)) nocase"

text \<open>Class contents that stand for themselves: no backslash, no closing bracket, no range.\<close>

definition class_plain :: "bytes \<Rightarrow> bool" where
  "class_plain w \<longleftrightarrow> (\<forall>x \<in> set w. x \<noteq> 45 \<and> x \<noteq> 92 \<and> x \<noteq> 93)"

lemma drop_get:
  assumes "drop p P = xs @ y # ys"
  shows "p + length xs < length P \<and> mem_get (P @ [0]) (p + length xs) = Some y"
proof -
  have l: "length (drop p P) = length (xs @ y # ys)" using assms by simp
  then have "p + length xs < length P" by simp
  moreover from this have "P ! (p + length xs) = y" using assms by (metis nth_append_length nth_drop less_imp_le_nat le_add1 le_trans)
  ultimately show ?thesis by (simp add: mem_get_term)
qed

text \<open>A backslash at the end of the pattern, inside a class: the loop steps over the terminator.\<close>

lemma class_loop_backslash:
  assumes "s \<le> length S"
  shows "class_plain w \<Longrightarrow> drop p P = w @ [92] \<Longrightarrow> class_loop (P @ [0]) p (int (length w + 1)) (S @ [0]) s nc m = None"
proof (induction w arbitrary: p m)
  case Nil
  have p: "p + 1 = length P" using arg_cong [OF Nil.prems(2), of length] by simp
  have "mem_get (P @ [0]) p = Some 92" using drop_get [of p P "[]" 92 "[]"] Nil.prems(2) by simp
  moreover have "class_loop (P @ [0]) (p + 2) x (S @ [0]) s nc y = None" for x y
    using p by (subst class_loop.simps) (simp add: mem_get_def)
  ultimately show ?case by (subst class_loop.simps) (simp split: bind_splits)
next
  case (Cons x w)
  obtain y where y: "mem_get (P @ [0]) (p + 1) = Some y" "y \<noteq> 45"
  proof (cases w)
    case Nil
    then show ?thesis using that [of 92] drop_get [of p P "[x]" 92 "[]"] Cons.prems(2) by simp
  next
    case (Cons z zs)
    then show ?thesis using that [of z] drop_get [of p P "[x]" z "zs @ [92]"] Cons.prems by (simp add: class_plain_def)
  qed
  have x: "mem_get (P @ [0]) p = Some x" "x \<noteq> 92" "x \<noteq> 93"
    using drop_get [of p P "[]" x "w @ [92]"] Cons.prems by (auto simp: class_plain_def)
  have "drop (p + 1) P = w @ [92]" using Cons.prems(2) by (metis append_Cons drop_drop drop_Suc_Cons drop0 One_nat_def add.commute)
  then have ih: "class_loop (P @ [0]) (p + 1) (int (length w + 1)) (S @ [0]) s nc m' = None" for m'
    using Cons.IH [of "p + 1" m'] Cons.prems(1) by (simp add: class_plain_def)
  have "int (length (x # w) + 1) - 1 = int (length w + 1)" by simp
  then show ?case using x y ih by (subst class_loop.simps) (simp split: bind_splits)
qed

text \<open>The terminator of the empty string is not in a plain class, so a negated class takes it.\<close>

lemma not_zero: "x \<noteq> 0 \<Longrightarrow> \<not> char_eq nc x 0"
proof -
  have "tolower (sint y) = 0 \<Longrightarrow> y = 0" for y :: byte
    by (auto simp: tolower_def signed_eq_0_iff split: if_splits)
  then show "x \<noteq> 0 \<Longrightarrow> \<not> char_eq nc x 0" by (auto simp: char_eq_def tolower_def split: if_splits)
qed

lemma class_loop_terminator:
  "class_plain w \<Longrightarrow> 0 \<notin> set w \<Longrightarrow> drop p P = w @ 93 # rest \<Longrightarrow>
   class_loop (P @ [0]) p (int (length P - p)) [0] 0 nc m = Some (p + length w, int (length P - (p + length w)), m)"
proof (induction w arbitrary: p)
  case Nil
  then show ?case using drop_get [of p P "[]" 93 rest] by (subst class_loop.simps) simp
next
  case (Cons x w)
  have p: "p < length P" using drop_get [of p P "[]" x "w @ 93 # rest"] Cons.prems(3) by simp
  obtain y where y: "mem_get (P @ [0]) (p + 1) = Some y" "y \<noteq> 45"
  proof (cases w)
    case Nil
    then show ?thesis using that [of 93] drop_get [of p P "[x]" 93 rest] Cons.prems(3) by simp
  next
    case (Cons z zs)
    then show ?thesis using that [of z] drop_get [of p P "[x]" z "zs @ 93 # rest"] Cons.prems by (simp add: class_plain_def)
  qed
  have x: "mem_get (P @ [0]) p = Some x" "x \<noteq> 92" "x \<noteq> 93" "\<not> char_eq nc x 0"
    using drop_get [of p P "[]" x "w @ 93 # rest"] Cons.prems not_zero by (auto simp: class_plain_def)
  have "drop (p + 1) P = w @ 93 # rest" using Cons.prems(3) by (metis append_Cons drop_drop drop_Suc_Cons drop0 One_nat_def add.commute)
  then have ih: "class_loop (P @ [0]) (p + 1) (int (length P - (p + 1))) [0] 0 nc m =
      Some (p + 1 + length w, int (length P - (p + 1 + length w)), m)"
    using Cons.IH [of "p + 1"] Cons.prems(1,2) by (simp add: class_plain_def)
  have "mem_get [0 :: byte] 0 = Some 0" by (simp add: mem_get_def)
  moreover have "int (length P - p) \<noteq> 0" using p by simp
  ultimately show ?case using x y ih int_diff_Suc [OF p]
    by (subst class_loop.simps) (simp del: of_nat_diff)
qed

text \<open>A literal element that is compared when the string is already behind its terminator.\<close>

lemma match_loop_behind:
  assumes "mem_get (P @ [0]) p = Some c" "c \<noteq> 42" "c \<noteq> 63" "c \<noteq> 91" "plen \<noteq> 0"
  shows "match_loop f (P @ [0]) p plen [0] 1 slen nc = None"
proof (cases f)
  case (Suc g)
  have "mem_get [0 :: byte] 1 = None" by (simp add: mem_get_def)
  then have "match_one (P @ [0]) p plen [0] 1 slen nc c = None" using assms(3,4) by (auto simp: match_one_def Let_def split: bind_splits)
  then show ?thesis using Suc assms by simp
qed simp

text \<open>Literal bytes in front of the rest of the pattern, which the string repeats.\<close>

lemma match_loop_literals:
  assumes "\<forall>x \<in> set u. x \<noteq> 42 \<and> x \<noteq> 63 \<and> x \<noteq> 91 \<and> x \<noteq> 92" "drop p P = u @ R" "drop s S = u @ v" "u \<noteq> [] \<longrightarrow> v \<noteq> []"
    "\<And>f. match_loop f (P @ [0]) (p + length u) (int (length R)) (S @ [0]) (s + length u) (int (length v)) nc = None"
  shows "match_loop f (P @ [0]) p (int (length u + length R)) (S @ [0]) s (int (length u + length v)) nc = None"
  using assms
proof (induction u arbitrary: p s f)
  case Nil
  then show ?case by simp
next
  case (Cons x u)
  show ?case
  proof (cases f)
    case (Suc g)
    have x: "mem_get (P @ [0]) p = Some x" "mem_get (S @ [0]) s = Some x"
      using drop_get [of p P "[]" x "u @ R"] drop_get [of s S "[]" x "u @ v"] Cons.prems(2,3) by simp_all
    have d: "drop (p + 1) P = u @ R" "drop (s + 1) S = u @ v" using Cons.prems(2,3)
      by (metis append_Cons drop_drop drop_Suc_Cons drop0 One_nat_def add.commute)+
    have rest: "\<And>f. match_loop f (P @ [0]) (p + 1 + length u) (int (length R)) (S @ [0]) (s + 1 + length u) (int (length v)) nc = None"
      using Cons.prems(5) by (simp add: add.assoc)
    have ih: "match_loop g (P @ [0]) (p + 1) (int (length u + length R)) (S @ [0]) (s + 1) (int (length u + length v)) nc = None"
      by (rule Cons.IH [OF _ d _ rest]) (use Cons.prems(1,4) in auto)
    have one: "match_one (P @ [0]) p (int (length (x # u) + length R)) (S @ [0]) s (int (length (x # u) + length v)) nc x =
        Some (Some (p, int (length (x # u) + length R), s + 1, int (length u + length v)))"
      using x Cons.prems(1) by (simp add: match_one_def char_eq_def)
    have "int (length u + length v) \<noteq> 0" using Cons.prems(4) by (simp del: of_nat_add)
    moreover have "int (length (x # u) + length R) - 1 = int (length u + length R)" "int (length (x # u) + length R) \<noteq> 0" by simp_all
    ultimately show ?thesis using Suc x(1) one ih Cons.prems(1) by (auto simp del: of_nat_add)
  qed simp
qed

lemma match_loop_open_class:
  assumes "class_plain w" "drop p P = 91 # w @ [92]" "s \<le> length S"
  shows "match_loop f (P @ [0]) p (int (length (91 # w @ [92]))) (S @ [0]) s slen nc = None"
proof (cases f)
  case (Suc g)
  have p: "mem_get (P @ [0]) p = Some 91" using drop_get [of p P "[]" 91 "w @ [92]"] assms(2) by simp
  have d: "drop (p + 1) P = w @ [92]" using assms(2) by (metis drop_drop drop_Suc_Cons drop0 One_nat_def add.commute)
  let ?n = "int (length (91 # w @ [92]))"
  have "match_one (P @ [0]) p ?n (S @ [0]) s slen nc 91 = None"
  proof (cases "\<exists>w'. w = 94 # w'")
    case True
    then obtain w' where w: "w = 94 # w'" by blast
    have b1: "mem_get (P @ [0]) (p + 1) = Some 94" using drop_get [of "p + 1" P "[]" 94 "w' @ [92]"] d w by simp
    have "drop (p + 2) P = drop 1 (drop (p + 1) P)" by simp
    then have "drop (p + 2) P = w' @ [92]" unfolding d w by simp
    then have "class_loop (P @ [0]) (p + 2) (?n - 2) (S @ [0]) s nc False = None"
      using class_loop_backslash [OF assms(3), of w' "p + 2" P nc False] assms(1) w by (simp add: class_plain_def)
    then show ?thesis using b1 by (simp add: match_one_def)
  next
    case False
    obtain x xs where x: "w @ [92] = x # xs" "x \<noteq> 94" using False by (cases w) auto
    have b1: "mem_get (P @ [0]) (p + 1) = Some x" using drop_get [of "p + 1" P "[]" x xs] d x by simp
    have "class_loop (P @ [0]) (p + 1) (?n - 1) (S @ [0]) s nc False = None"
      using class_loop_backslash [OF assms(3,1) d, of nc False] by simp
    then show ?thesis using b1 x(2) by (simp add: match_one_def)
  qed
  then show ?thesis using Suc p by simp
qed simp

lemma match_fuel_negated:
  assumes "class_plain w" "0 \<notin> set w" "c \<noteq> 42" "c \<noteq> 63" "c \<noteq> 91"
  shows "match_fuel f (91 # 94 # w @ 93 # c # rest) [] nc = None"
proof (cases f)
  case (Suc g)
  let ?P = "91 # 94 # w @ 93 # c # rest"
  have b: "mem_get (?P @ [0]) 0 = Some 91" "mem_get (?P @ [0]) 1 = Some 94" by (simp_all add: mem_get_def)
  have "class_loop (?P @ [0]) 2 (int (length ?P - 2)) [0] 0 nc False = Some (2 + length w, int (length ?P - (2 + length w)), False)"
    by (rule class_loop_terminator [OF assms(1,2)]) simp
  moreover have "int (length ?P) - 2 = int (length ?P - 2)" by simp
  ultimately have "match_one (?P @ [0]) 0 (int (length ?P)) [0] 0 0 nc 91 = Some (Some (2 + length w, int (length ?P - (2 + length w)), 1, -1))"
    using b(2) by (simp add: match_one_def del: add_2_eq_Suc add_2_eq_Suc')
  moreover have "match_loop g (?P @ [0]) (2 + length w + 1) (int (length ?P - (2 + length w)) - 1) [0] 1 (-1) nc = None"
  proof (rule match_loop_behind [of ?P _ c])
    show "mem_get (?P @ [0]) (2 + length w + 1) = Some c" using drop_get [of 0 ?P "91 # 94 # w @ [93]" c rest] by simp
  qed (use assms(3-5) in simp_all)
  ultimately show ?thesis using Suc b(1) by (simp add: match_fuel_def)
qed (simp add: match_fuel_def)

lemma match_fuel_zero:
  assumes "c \<noteq> 42" "c \<noteq> 63" "c \<noteq> 91"
  shows "match_fuel f (0 # c # rest) [] nc = None"
proof (cases f)
  case (Suc g)
  let ?P = "0 # c # rest"
  have "match_one (?P @ [0]) 0 (int (length ?P)) [0] 0 0 nc 0 = Some (Some (0, int (length ?P), 1, -1))"
    by (simp add: match_one_def mem_get_def char_eq_def)
  moreover have "match_loop g (?P @ [0]) 1 (int (length ?P) - 1) [0] 1 (-1) nc = None"
    using assms by (intro match_loop_behind [of ?P 1 c]) (simp_all add: mem_get_def)
  ultimately show ?thesis using Suc by (simp add: match_fuel_def mem_get_def)
qed (simp add: match_fuel_def)

section \<open>Properties\<close>

text \<open>C33: for a pattern without a character class and without a zero byte,
  \<open>stringmatchlen\<close> never reads outside the two buffers, always returns, and decides exactly
  the declarative glob relation: \<open>*\<close> stands for any run of bytes, \<open>?\<close> for one byte, a
  backslash quotes the byte behind it, anything else stands for itself, up to ASCII case if
  \<open>nocase\<close> is set.  Both conditions are needed: classes and zero bytes can lead to reads behind
  the buffers, as shown below.\<close>

theorem stringmatchlen_glob:
  assumes "91 \<notin> set pattern" "0 \<notin> set pattern"
  shows "stringmatchlen pattern string nocase = Some (gmatch nocase (gparse pattern) string)"
  using match_loops_correct(1) [OF assms, of 0 0 string] unfolding stringmatchlen_def
  by (simp del: match_loop.simps)

theorem stringmatchlen_glob_witness:
  "stringmatchlen [104, 42, 108, 63] [72, 101, 108, 108, 111] True = Some True \<and>
   gmatch True (gparse [104, 42, 108, 63]) [72, 101, 108, 108, 111]"
proof -
  have "stringmatchlen [104, 42, 108, 63] [72, 101, 108, 108, 111] True =
      Some (gmatch True (gparse [104, 42, 108, 63]) [72, 101, 108, 108, 111])"
    by (rule stringmatchlen_glob) simp_all
  moreover have "gmatch True (gparse [104, 42, 108, 63]) [72, 101, 108, 108, 111]"
    by code_simp
  ultimately show ?thesis by simp
qed



end
