(* ===== verification/Dict.thy ===== *)
theory Dict
  imports Interfaces
begin

unbundle bit_operations_syntax

text \<open>
  The hash table of \<^verbatim>\<open>dict.c\<close>: chained buckets, two tables and incremental rehashing.

  A \<open>dictEntry\<close> is a pair of its key pointer and its value; its \<open>next\<close> pointer is its place in
  the list that stands for the bucket's chain, and a reference to an entry (the
  \<open>dictEntry *\<close> the API hands out) is the triple of table, bucket and position.  A table's
  \<open>NULL\<close> pointer is the empty list, so any access to it is a memory fault (\<open>None\<close>).  The
  callbacks of a \<open>dictType\<close> are parameters of the operations, collected in a record;
  \<open>dict_type_ok\<close> names what the code relies on.  The destructors it calls are returned as a
  list of events.  Sizes are natural numbers; the places where the C types truncate
  (the byte count of the allocation, the \<open>int\<close> a bucket index is returned in, the \<open>int\<close>
  of \<open>dictResize\<close>) are written out.
\<close>

section \<open>Data\<close>

record ('k, 'v) dictType =
  hashFunction :: "'k \<Rightarrow> 32 word"
  keyDup :: "('k \<Rightarrow> 'k) option"
  valDup :: "('v \<Rightarrow> 'v) option"
  keyCompare :: "('k \<Rightarrow> 'k \<Rightarrow> bool) option"
  keyDestructor :: bool
  valDestructor :: bool

record ('k, 'v) dictht =
  ht_table :: "('k \<times> 'v) list list"
  ht_size :: nat
  ht_sizemask :: nat
  ht_used :: nat

record ('k, 'v) dict =
  ht0 :: "('k, 'v) dictht"
  ht1 :: "('k, 'v) dictht"
  rehashidx :: int
  iterators :: int

type_synonym entry_ref = "nat \<times> nat \<times> nat"

datatype ('k, 'v) free_event = FreeKey 'k | FreeVal 'v

definition DICT_HT_INITIAL_SIZE :: nat where
  "DICT_HT_INITIAL_SIZE = 4"

definition dict_force_resize_ratio :: nat where
  "dict_force_resize_ratio = 5"

definition LONG_MAX :: nat where
  "LONG_MAX = 2 ^ 63 - 1"

definition htab :: "('k, 'v) dict \<Rightarrow> nat \<Rightarrow> ('k, 'v) dictht" where
  "htab d t = (if t = 0 then ht0 d else ht1 d)"

lemma htab_simps [simp]: "htab d 0 = ht0 d" "htab d 1 = ht1 d" "htab d (Suc 0) = ht1 d"
  by (simp_all add: htab_def)

definition htab_upd :: "('k, 'v) dict \<Rightarrow> nat \<Rightarrow> ('k, 'v) dictht \<Rightarrow> ('k, 'v) dict" where
  "htab_upd d t h = (if t = 0 then d\<lparr>ht0 := h\<rparr> else d\<lparr>ht1 := h\<rparr>)"

text \<open>The macros of \<^verbatim>\<open>dict.h\<close>.\<close>

definition dictCompareKeys :: "('k, 'v) dictType \<Rightarrow> 'k \<Rightarrow> 'k \<Rightarrow> bool" where
  "dictCompareKeys T k1 k2 = (case keyCompare T of Some f \<Rightarrow> f k1 k2 | None \<Rightarrow> k1 = k2)"

text \<open>\<open>key==he->key || dictCompareKeys(d, key, he->key)\<close>, the test of every lookup loop.\<close>

definition keyEq :: "('k, 'v) dictType \<Rightarrow> 'k \<Rightarrow> 'k \<Rightarrow> bool" where
  "keyEq T k1 k2 = (k1 = k2 \<or> dictCompareKeys T k1 k2)"

definition dictSetKey :: "('k, 'v) dictType \<Rightarrow> 'k \<Rightarrow> 'k" where
  "dictSetKey T k = (case keyDup T of Some f \<Rightarrow> f k | None \<Rightarrow> k)"

definition dictStoredVal :: "('k, 'v) dictType \<Rightarrow> 'v \<Rightarrow> 'v" where
  "dictStoredVal T v = (case valDup T of Some f \<Rightarrow> f v | None \<Rightarrow> v)"

definition dictFreeKey :: "('k, 'v) dictType \<Rightarrow> 'k \<times> 'v \<Rightarrow> ('k, 'v) free_event list" where
  "dictFreeKey T he = (if keyDestructor T then [FreeKey (fst he)] else [])"

definition dictFreeVal :: "('k, 'v) dictType \<Rightarrow> 'k \<times> 'v \<Rightarrow> ('k, 'v) free_event list" where
  "dictFreeVal T he = (if valDestructor T then [FreeVal (snd he)] else [])"

definition dictHashKey :: "('k, 'v) dictType \<Rightarrow> 'k \<Rightarrow> nat" where
  "dictHashKey T k = unat (hashFunction T k)"

definition dictSlots :: "('k, 'v) dict \<Rightarrow> nat" where
  "dictSlots d = ht_size (ht0 d) + ht_size (ht1 d)"

definition dictSize :: "('k, 'v) dict \<Rightarrow> nat" where
  "dictSize d = ht_used (ht0 d) + ht_used (ht1 d)"

definition dictIsRehashing :: "('k, 'v) dict \<Rightarrow> bool" where
  "dictIsRehashing d = (rehashidx d \<noteq> -1)"

text \<open>Reading and assigning the fields of a referenced entry.\<close>

definition entry_at :: "('k, 'v) dict \<Rightarrow> entry_ref \<Rightarrow> ('k \<times> 'v) option" where
  "entry_at d r = (case r of (t, i, j) \<Rightarrow>
     do { chain \<leftarrow> arr_get (ht_table (htab d t)) i; arr_get chain j })"

definition dictSetVal ::
  "('k, 'v) dictType \<Rightarrow> ('k, 'v) dict \<Rightarrow> entry_ref \<Rightarrow> 'v \<Rightarrow> ('k, 'v) dict option" where
  "dictSetVal T d r v = (case r of (t, i, j) \<Rightarrow> do {
     chain \<leftarrow> arr_get (ht_table (htab d t)) i;
     e \<leftarrow> arr_get chain j;
     let h = htab d t;
     Some (htab_upd d t (h\<lparr>ht_table := (ht_table h)[i := chain[j := (fst e, dictStoredVal T v)]]\<rparr>))
   })"

section \<open>Creation and sizing\<close>

definition dictReset :: "('k, 'v) dictht" where
  "dictReset = \<lparr>ht_table = [], ht_size = 0, ht_sizemask = 0, ht_used = 0\<rparr>"

definition dictCreate :: "('k, 'v) dict" where
  "dictCreate = \<lparr>ht0 = dictReset, ht1 = dictReset, rehashidx = -1, iterators = 0\<rparr>"

text \<open>The doubling loop; it starts at 4, the test for 0 only makes the function total.\<close>

function next_power_loop :: "nat \<Rightarrow> nat \<Rightarrow> nat" where
  "next_power_loop i sz = (if i \<ge> sz \<or> i = 0 then i else next_power_loop (i * 2) sz)"
  by pat_completeness auto
termination
  by (relation "measure (\<lambda>(i, sz). sz - i)") auto

declare next_power_loop.simps [simp del]

definition dictNextPower :: "nat \<Rightarrow> nat" where
  "dictNextPower sz =
     (if sz \<ge> LONG_MAX then LONG_MAX else next_power_loop DICT_HT_INITIAL_SIZE sz)"

definition dictExpand :: "('k, 'v) dict \<Rightarrow> nat \<Rightarrow> ('k, 'v) dict \<times> bool" where
  "dictExpand d sz = (
     let realsize = dictNextPower sz in
     if dictIsRehashing d \<or> ht_used (ht0 d) > sz then (d, False)
     else if realsize = ht_size (ht0 d) then (d, False)
     else
       let n = \<lparr>ht_table = replicate ((realsize * 8) mod 2 ^ 64 div 8) [], ht_size = realsize,
                ht_sizemask = realsize - 1, ht_used = 0\<rparr> in
       if ht_table (ht0 d) = [] then (d\<lparr>ht0 := n\<rparr>, True)
       else (d\<lparr>ht1 := n, rehashidx := 0\<rparr>, True))"

text \<open>\<open>int minimal = d->ht[0].used\<close> truncates; the conversion back to \<open>unsigned long\<close>
  extends the sign.\<close>

definition dictResize :: "bool \<Rightarrow> ('k, 'v) dict \<Rightarrow> ('k, 'v) dict \<times> bool" where
  "dictResize can_resize d =
     (if \<not> can_resize \<or> dictIsRehashing d then (d, False)
      else
        let minimal = sint (word_of_nat (ht_used (ht0 d)) :: 32 word);
            minimal = (if minimal < int DICT_HT_INITIAL_SIZE then int DICT_HT_INITIAL_SIZE else minimal)
        in dictExpand d (nat (minimal mod 2 ^ 64)))"

definition dictExpandIfNeeded :: "bool \<Rightarrow> ('k, 'v) dict \<Rightarrow> ('k, 'v) dict \<times> bool" where
  "dictExpandIfNeeded can_resize d =
     (if dictIsRehashing d then (d, True)
      else if ht_size (ht0 d) = 0 then dictExpand d DICT_HT_INITIAL_SIZE
      else if ht_used (ht0 d) \<ge> ht_size (ht0 d) \<and>
              (can_resize \<or> ht_used (ht0 d) div ht_size (ht0 d) > dict_force_resize_ratio)
      then dictExpand d (ht_used (ht0 d) * 2)
      else (d, True))"

section \<open>Incremental rehashing\<close>

text \<open>The loop over empty buckets: the new index, the remaining visits, and whether the
  visits ran out (\<open>return 1\<close>).\<close>

function rehash_skip :: "'e list list \<Rightarrow> nat \<Rightarrow> int \<Rightarrow> (nat \<times> int \<times> bool) option" where
  "rehash_skip tab i empty_visits =
     Option.bind (arr_get tab i) (\<lambda>b.
       if b = [] then
         (if empty_visits - 1 = 0 then Some (i + 1, 0, True)
          else rehash_skip tab (i + 1) (empty_visits - 1))
       else Some (i, empty_visits, False))"
  by pat_completeness auto
termination
  by (relation "measure (\<lambda>(tab, i, ev). length tab - i)") (auto simp: arr_get_def split: if_splits)

declare rehash_skip.simps [simp del]

fun rehash_bucket ::
  "('k, 'v) dictType \<Rightarrow> ('k \<times> 'v) list \<Rightarrow> ('k, 'v) dictht \<Rightarrow> ('k, 'v) dictht \<Rightarrow>
   (('k, 'v) dictht \<times> ('k, 'v) dictht) option" where
  "rehash_bucket T [] h0 h1 = Some (h0, h1)"
| "rehash_bucket T (de # nextde) h0 h1 = (
     let h = dictHashKey T (fst de) AND ht_sizemask h1 in do {
       chain \<leftarrow> arr_get (ht_table h1) h;
       rehash_bucket T nextde (h0\<lparr>ht_used := ht_used h0 - 1\<rparr>)
         (h1\<lparr>ht_table := (ht_table h1)[h := de # chain], ht_used := ht_used h1 + 1\<rparr>)
     })"

fun rehash_loop ::
  "('k, 'v) dictType \<Rightarrow> nat \<Rightarrow> int \<Rightarrow> ('k, 'v) dict \<Rightarrow> (('k, 'v) dict \<times> bool) option" where
  "rehash_loop T 0 empty_visits d = Some (d, False)"
| "rehash_loop T (Suc n) empty_visits d =
     (if ht_used (ht0 d) = 0 then Some (d, False)
      else do {
        c_assert (ht_size (ht0 d) > nat (rehashidx d mod 2 ^ 64));
        (i, ev, stop) \<leftarrow> rehash_skip (ht_table (ht0 d)) (nat (rehashidx d)) empty_visits;
        if stop then Some (d\<lparr>rehashidx := int i\<rparr>, True)
        else do {
          de \<leftarrow> arr_get (ht_table (ht0 d)) i;
          (h0, h1) \<leftarrow> rehash_bucket T de (ht0 d) (ht1 d);
          rehash_loop T n ev
            (d\<lparr>ht0 := h0\<lparr>ht_table := (ht_table h0)[i := []]\<rparr>, ht1 := h1, rehashidx := int i + 1\<rparr>)
        }
      })"

definition rehash_finish :: "('k, 'v) dict \<Rightarrow> ('k, 'v) dict \<times> bool" where
  "rehash_finish d =
     (if ht_used (ht0 d) = 0 then (d\<lparr>ht0 := ht1 d, ht1 := dictReset, rehashidx := -1\<rparr>, False)
      else (d, True))"

text \<open>\<open>n * 10\<close> is computed in \<open>int\<close>; the callers pass 1 or 100.\<close>

definition dictRehash ::
  "('k, 'v) dictType \<Rightarrow> ('k, 'v) dict \<Rightarrow> nat \<Rightarrow> (('k, 'v) dict \<times> bool) option" where
  "dictRehash T d n =
     (if \<not> dictIsRehashing d then Some (d, False)
      else do {
        (d, early) \<leftarrow> rehash_loop T n (int n * 10) d;
        if early then Some (d, True) else Some (rehash_finish d)
      })"

text \<open>\<open>dictRehashMilliseconds\<close>: the list gives, for each look at the clock, whether the time
  is over; the clock must run out at some point.\<close>

fun dictRehashMilliseconds ::
  "('k, 'v) dictType \<Rightarrow> ('k, 'v) dict \<Rightarrow> bool list \<Rightarrow> nat \<Rightarrow> (('k, 'v) dict \<times> nat) option" where
  "dictRehashMilliseconds T d over rehashes = do {
     (d, more) \<leftarrow> dictRehash T d 100;
     if \<not> more then Some (d, rehashes)
     else case over of [] \<Rightarrow> None
       | x # xs \<Rightarrow> if x then Some (d, rehashes + 100) else dictRehashMilliseconds T d xs (rehashes + 100)
   }"

definition dictRehashStep :: "('k, 'v) dictType \<Rightarrow> ('k, 'v) dict \<Rightarrow> ('k, 'v) dict option" where
  "dictRehashStep T d =
     (if iterators d = 0 then map_option fst (dictRehash T d 1) else Some d)"

definition rehash_step_if :: "('k, 'v) dictType \<Rightarrow> ('k, 'v) dict \<Rightarrow> ('k, 'v) dict option" where
  "rehash_step_if T d = (if dictIsRehashing d then dictRehashStep T d else Some d)"

section \<open>Lookup and update\<close>

text \<open>Walking a chain.\<close>

fun chain_find :: "('k, 'v) dictType \<Rightarrow> 'k \<Rightarrow> ('k \<times> 'v) list \<Rightarrow> nat option" where
  "chain_find T key [] = None"
| "chain_find T key (he # rest) =
     (if keyEq T key (fst he) then Some 0 else map_option Suc (chain_find T key rest))"

text \<open>The loop over the tables shared by find, delete and key index: the first reference to
  the key, if any.\<close>

definition table_find ::
  "('k, 'v) dictType \<Rightarrow> ('k, 'v) dict \<Rightarrow> 'k \<Rightarrow> nat \<Rightarrow> entry_ref option option" where
  "table_find T d key t = do {
     let idx = dictHashKey T key AND ht_sizemask (htab d t);
     chain \<leftarrow> arr_get (ht_table (htab d t)) idx;
     Some (map_option (\<lambda>j. (t, idx, j)) (chain_find T key chain))
   }"

definition tables_find ::
  "('k, 'v) dictType \<Rightarrow> ('k, 'v) dict \<Rightarrow> 'k \<Rightarrow> entry_ref option option" where
  "tables_find T d key = do {
     r \<leftarrow> table_find T d key 0;
     case r of Some e \<Rightarrow> Some (Some e)
     | None \<Rightarrow> if \<not> dictIsRehashing d then Some None else table_find T d key 1
   }"

text \<open>\<open>_dictKeyIndex\<close>: -1 for an error or an existing key, otherwise the index in the table
  that was searched last, as a C \<open>int\<close>.\<close>

definition dictKeyIndex ::
  "('k, 'v) dictType \<Rightarrow> bool \<Rightarrow> ('k, 'v) dict \<Rightarrow> 'k \<Rightarrow> (('k, 'v) dict \<times> int) option" where
  "dictKeyIndex T can_resize d key = (
     let (d, ok) = dictExpandIfNeeded can_resize d in
     if \<not> ok then Some (d, -1)
     else do {
       r \<leftarrow> tables_find T d key;
       case r of Some e \<Rightarrow> Some (d, -1)
       | None \<Rightarrow>
           let idx = dictHashKey T key AND ht_sizemask (if dictIsRehashing d then ht1 d else ht0 d) in
           Some (d, sint (word_of_nat idx :: 32 word))
     })"

text \<open>\<open>dictAddRaw\<close>: \<open>junk\<close> is what the fresh memory of the entry holds in its value field.\<close>

definition dictAddRaw ::
  "('k, 'v) dictType \<Rightarrow> bool \<Rightarrow> ('k, 'v) dict \<Rightarrow> 'k \<Rightarrow> 'v \<Rightarrow> (('k, 'v) dict \<times> entry_ref option) option" where
  "dictAddRaw T can_resize d key junk = do {
     d \<leftarrow> rehash_step_if T d;
     (d, index) \<leftarrow> dictKeyIndex T can_resize d key;
     if index = -1 then Some (d, None)
     else do {
       c_assert (0 \<le> index);
       let t = (if dictIsRehashing d then 1 else 0);
       let h = htab d t;
       chain \<leftarrow> arr_get (ht_table h) (nat index);
       Some (htab_upd d t
              (h\<lparr>ht_table := (ht_table h)[nat index := (dictSetKey T key, junk) # chain],
                 ht_used := ht_used h + 1\<rparr>), Some (t, nat index, 0))
     }
   }"

definition dictAdd ::
  "('k, 'v) dictType \<Rightarrow> bool \<Rightarrow> 'v \<Rightarrow> ('k, 'v) dict \<Rightarrow> 'k \<Rightarrow> 'v \<Rightarrow> (('k, 'v) dict \<times> bool) option" where
  "dictAdd T can_resize junk d key val = do {
     (d, entry) \<leftarrow> dictAddRaw T can_resize d key junk;
     case entry of None \<Rightarrow> Some (d, False)
     | Some r \<Rightarrow> do { d \<leftarrow> dictSetVal T d r val; Some (d, True) }
   }"

definition dictFind ::
  "('k, 'v) dictType \<Rightarrow> ('k, 'v) dict \<Rightarrow> 'k \<Rightarrow> (('k, 'v) dict \<times> entry_ref option) option" where
  "dictFind T d key =
     (if ht_used (ht0 d) + ht_used (ht1 d) = 0 then Some (d, None)
      else do {
        d \<leftarrow> rehash_step_if T d;
        r \<leftarrow> tables_find T d key;
        Some (d, r)
      })"

definition dictFetchValue ::
  "('k, 'v) dictType \<Rightarrow> ('k, 'v) dict \<Rightarrow> 'k \<Rightarrow> (('k, 'v) dict \<times> 'v option) option" where
  "dictFetchValue T d key = do {
     (d, he) \<leftarrow> dictFind T d key;
     case he of None \<Rightarrow> Some (d, None)
     | Some r \<Rightarrow> do { e \<leftarrow> entry_at d r; Some (d, Some (snd e)) }
   }"

definition dictReplace ::
  "('k, 'v) dictType \<Rightarrow> bool \<Rightarrow> 'v \<Rightarrow> ('k, 'v) dict \<Rightarrow> 'k \<Rightarrow> 'v \<Rightarrow>
   (('k, 'v) dict \<times> bool \<times> ('k, 'v) free_event list) option" where
  "dictReplace T can_resize junk d key val = do {
     (d, added) \<leftarrow> dictAdd T can_resize junk d key val;
     if added then Some (d, True, [])
     else do {
       (d, entry) \<leftarrow> dictFind T d key;
       r \<leftarrow> entry;
       auxentry \<leftarrow> entry_at d r;
       d \<leftarrow> dictSetVal T d r val;
       Some (d, False, dictFreeVal T auxentry)
     }
   }"

definition dictReplaceRaw ::
  "('k, 'v) dictType \<Rightarrow> bool \<Rightarrow> ('k, 'v) dict \<Rightarrow> 'k \<Rightarrow> 'v \<Rightarrow> (('k, 'v) dict \<times> entry_ref option) option" where
  "dictReplaceRaw T can_resize d key junk = do {
     (d, entry) \<leftarrow> dictFind T d key;
     case entry of Some r \<Rightarrow> Some (d, Some r) | None \<Rightarrow> dictAddRaw T can_resize d key junk
   }"

text \<open>Unlinking the entry at a position of its chain.\<close>

definition chain_unlink :: "'e list \<Rightarrow> nat \<Rightarrow> 'e list" where
  "chain_unlink chain j = take j chain @ drop (Suc j) chain"

definition dictGenericDelete ::
  "('k, 'v) dictType \<Rightarrow> ('k, 'v) dict \<Rightarrow> 'k \<Rightarrow> bool \<Rightarrow>
   (('k, 'v) dict \<times> bool \<times> ('k, 'v) free_event list) option" where
  "dictGenericDelete T d key nofree =
     (if ht_size (ht0 d) = 0 then Some (d, False, [])
      else do {
        d \<leftarrow> rehash_step_if T d;
        r \<leftarrow> tables_find T d key;
        case r of None \<Rightarrow> Some (d, False, [])
        | Some (t, idx, j) \<Rightarrow> do {
            let h = htab d t;
            chain \<leftarrow> arr_get (ht_table h) idx;
            he \<leftarrow> arr_get chain j;
            let freed = (if nofree then [] else dictFreeKey T he @ dictFreeVal T he);
            Some (htab_upd d t (h\<lparr>ht_table := (ht_table h)[idx := chain_unlink chain j],
                                  ht_used := ht_used h - 1\<rparr>), True, freed)
          }
      })"

definition dictDelete where
  "dictDelete T d key = dictGenericDelete T d key False"

definition dictDeleteNoFree where
  "dictDeleteNoFree T d key = dictGenericDelete T d key True"

section \<open>Clearing\<close>

text \<open>\<open>_dictClear\<close> from bucket \<open>i\<close> on: the events in order.  The loop stops as soon as the
  count of remaining elements is zero; the progress callback has no effect here.\<close>

function clear_loop ::
  "('k, 'v) dictType \<Rightarrow> ('k, 'v) dictht \<Rightarrow> nat \<Rightarrow> nat \<Rightarrow> ('k, 'v) free_event list option" where
  "clear_loop T h i used =
     (if i < ht_size h \<and> used > 0 then
        Option.bind (arr_get (ht_table h) i) (\<lambda>chain.
        Option.bind (clear_loop T h (i + 1) (used - length chain)) (\<lambda>evs.
          Some (concat (map (\<lambda>he. dictFreeKey T he @ dictFreeVal T he) chain) @ evs)))
      else Some [])"
  by pat_completeness auto
termination
  by (relation "measure (\<lambda>(T, h, i, used). ht_size h - i)") auto

declare clear_loop.simps [simp del]

definition dictClear ::
  "('k, 'v) dictType \<Rightarrow> ('k, 'v) dictht \<Rightarrow> (('k, 'v) dictht \<times> ('k, 'v) free_event list) option" where
  "dictClear T h = do { evs \<leftarrow> clear_loop T h 0 (ht_used h); Some (dictReset, evs) }"

definition dictEmpty ::
  "('k, 'v) dictType \<Rightarrow> ('k, 'v) dict \<Rightarrow> (('k, 'v) dict \<times> ('k, 'v) free_event list) option" where
  "dictEmpty T d = do {
     (h0, e0) \<leftarrow> dictClear T (ht0 d);
     (h1, e1) \<leftarrow> dictClear T (ht1 d);
     Some (d\<lparr>ht0 := h0, ht1 := h1, rehashidx := -1, iterators := 0\<rparr>, e0 @ e1)
   }"

text \<open>\<open>dictRelease\<close> frees the structure, so only the events remain.\<close>

definition dictRelease ::
  "('k, 'v) dictType \<Rightarrow> ('k, 'v) dict \<Rightarrow> ('k, 'v) free_event list option" where
  "dictRelease T d = do {
     (h0, e0) \<leftarrow> dictClear T (ht0 d);
     (h1, e1) \<leftarrow> dictClear T (ht1 d);
     Some (e0 @ e1)
   }"

section \<open>What a dictionary holds\<close>

text \<open>What the code relies on from the callbacks: comparing is an equivalence, equal keys hash
  alike, and a duplicated key equals the original.\<close>

definition dict_type_ok :: "('k, 'v) dictType \<Rightarrow> bool" where
  "dict_type_ok T \<longleftrightarrow> equivp (keyEq T) \<and>
     (\<forall>k k'. keyEq T k k' \<longrightarrow> hashFunction T k = hashFunction T k') \<and>
     (\<forall>k. keyEq T k (dictSetKey T k))"

lemma dict_type_okD:
  assumes "dict_type_ok T"
  shows "keyEq T k k" "keyEq T k k' \<Longrightarrow> keyEq T k' k"
    "keyEq T k k' \<Longrightarrow> keyEq T k' k'' \<Longrightarrow> keyEq T k k''"
    "keyEq T k k' \<Longrightarrow> dictHashKey T k = dictHashKey T k'"
    "keyEq T k (dictSetKey T k)"
  using assms unfolding dict_type_ok_def dictHashKey_def
  by (auto intro: equivp_reflp equivp_symp equivp_transp)

definition ht_entries :: "('k, 'v) dictht \<Rightarrow> ('k \<times> 'v) list" where
  "ht_entries h = concat (ht_table h)"

definition entries :: "('k, 'v) dict \<Rightarrow> ('k \<times> 'v) list" where
  "entries d = ht_entries (ht0 d) @ ht_entries (ht1 d)"

text \<open>The class of a key under the comparison; a list of entries has unique keys when the
  classes of its keys are distinct, which does not depend on the order.\<close>

definition kclass :: "('k, 'v) dictType \<Rightarrow> 'k \<Rightarrow> 'k set" where
  "kclass T k = Collect (keyEq T k)"

definition uniq :: "('k, 'v) dictType \<Rightarrow> ('k \<times> 'v) list \<Rightarrow> bool" where
  "uniq T es = distinct (map (\<lambda>e. kclass T (fst e)) es)"

definition alookup :: "('k, 'v) dictType \<Rightarrow> ('k \<times> 'v) list \<Rightarrow> 'k \<Rightarrow> 'v option" where
  "alookup T es k = map_option snd (find (\<lambda>e. keyEq T k (fst e)) es)"

definition dict_map :: "('k, 'v) dictType \<Rightarrow> ('k, 'v) dict \<Rightarrow> 'k \<Rightarrow> 'v option" where
  "dict_map T d = alookup T (entries d)"

lemma kclass_eq_iff:
  assumes "dict_type_ok T"
  shows "kclass T k = kclass T k' \<longleftrightarrow> keyEq T k k'"
  using assms unfolding dict_type_ok_def equivp_def kclass_def by (metis Collect_inj)

lemmas keyEq_iff = kclass_eq_iff [symmetric]

lemma uniq_Cons:
  "dict_type_ok T \<Longrightarrow>
   uniq T (e # es) \<longleftrightarrow> uniq T es \<and> (\<forall>e' \<in> set es. \<not> keyEq T (fst e) (fst e'))"
  by (auto simp: uniq_def kclass_eq_iff)

lemma uniq_mset: "mset es = mset es' \<Longrightarrow> uniq T es = uniq T es'"
  unfolding uniq_def by (metis mset_eq_imp_distinct_iff mset_map)

lemma alookup_None: "alookup T es k = None \<longleftrightarrow> (\<forall>e \<in> set es. \<not> keyEq T k (fst e))"
  by (auto simp: alookup_def find_None_iff)

lemma alookup_Some:
  assumes "dict_type_ok T" "uniq T es"
  shows "alookup T es k = Some v \<longleftrightarrow> (\<exists>k'. (k', v) \<in> set es \<and> keyEq T k k')"
  using assms(2)
proof (induction es)
  case (Cons e es)
  then have "kclass T (fst e) \<noteq> kclass T k'" if "(k', v) \<in> set es" for k' v
    using that by (force simp: uniq_def)
  with Cons show ?case
    by (cases e) (auto simp: alookup_def uniq_Cons [OF assms(1)] keyEq_iff [OF assms(1)])
qed (simp add: alookup_def)

lemma alookup_mset:
  assumes "dict_type_ok T" "uniq T es" "mset es = mset es'"
  shows "alookup T es = alookup T es'"
proof (rule ext, rule option.expand)
  fix k
  have s: "set es = set es'" using assms(3) by (metis set_mset_mset)
  show "(alookup T es k = None) = (alookup T es' k = None)"
    using s by (simp add: alookup_None)
  assume n: "alookup T es k \<noteq> None" "alookup T es' k \<noteq> None"
  show "the (alookup T es k) = the (alookup T es' k)"
    using n alookup_Some [OF assms(1,2), of k "the (alookup T es k)"]
      alookup_Some [OF assms(1) assms(2) [unfolded uniq_mset [OF assms(3)]], of k "the (alookup T es k)"]
    unfolding s by simp
qed

text \<open>Adding an entry under a fresh key, dropping one, and assigning a value.\<close>

lemma alookup_insert:
  assumes "dict_type_ok T" "uniq T es" "alookup T es k = None" "keyEq T k k'"
    and "mset es' = add_mset (k', v) (mset es)"
  shows "uniq T es'" "alookup T es' = map_upd (keyEq T) (alookup T es) k v"
proof -
  have m: "mset es' = mset ((k', v) # es)" using assms(5) by simp
  have u: "uniq T ((k', v) # es)"
    using assms(2-4) by (simp add: uniq_Cons [OF assms(1)] alookup_None keyEq_iff [OF assms(1)])
  then show "uniq T es'" using uniq_mset [OF m] by blast
  have "alookup T ((k', v) # es) x = map_upd (keyEq T) (alookup T es) k v x" for x
    using assms(4) by (auto simp: alookup_def map_upd_def keyEq_iff [OF assms(1)])
  with alookup_mset [OF assms(1) u m [symmetric]] show "alookup T es' = map_upd (keyEq T) (alookup T es) k v"
    by auto
qed

lemma alookup_remove:
  assumes "dict_type_ok T" "uniq T es" "keyEq T k (fst e)"
    and "mset es = add_mset e (mset es')"
  shows "uniq T es'" "alookup T es' = map_del (keyEq T) (alookup T es) k"
    "alookup T es k = Some (snd e)"
proof -
  have m: "mset es = mset (e # es')" using assms(4) by simp
  have u: "uniq T (e # es')" using assms(2) uniq_mset [OF m] by blast
  then show "uniq T es'" by (simp add: uniq_Cons [OF assms(1)])
  note eq = alookup_mset [OF assms(1,2) m]
  have "alookup T es' x = map_del (keyEq T) (alookup T (e # es')) k x" for x
  proof (cases "keyEq T k x")
    case True
    then have "\<not> keyEq T x (fst e')" if "e' \<in> set es'" for e'
      using u that assms(3) by (auto simp: uniq_Cons [OF assms(1)] keyEq_iff [OF assms(1)])
    then show ?thesis using True by (simp add: map_del_def alookup_None)
  next
    case False
    then show ?thesis
      using assms(3) by (auto simp: alookup_def map_del_def keyEq_iff [OF assms(1)])
  qed
  then show "alookup T es' = map_del (keyEq T) (alookup T es) k" using eq by auto
  show "alookup T es k = Some (snd e)" using assms(3) eq by (simp add: alookup_def)
qed

lemma alookup_assign:
  assumes "dict_type_ok T" "uniq T es" "keyEq T k (fst e)"
    and "mset es = add_mset e M" "mset es' = add_mset (fst e, v) M"
  shows "uniq T es'" "alookup T es' = map_upd (keyEq T) (alookup T es) k v"
    "alookup T es k = Some (snd e)"
proof -
  obtain r where r: "mset r = M" using ex_mset by auto
  note rm = alookup_remove [OF assms(1-3), of r, unfolded r, OF assms(4)]
  have k: "alookup T r k = None" using rm(2) dict_type_okD(1) [OF assms(1)] by (simp add: map_del_def)
  note ins = alookup_insert [OF assms(1) rm(1) k assms(3), of es' v, unfolded r, OF assms(5)]
  show "uniq T es'" by (rule ins(1))
  show "alookup T es' = map_upd (keyEq T) (alookup T es) k v"
    using ins(2) rm(2) by (auto simp: map_upd_def map_del_def)
  show "alookup T es k = Some (snd e)" by (rule rm(3))
qed

section \<open>Invariant\<close>

text \<open>A table has a power of two of buckets (at most \<open>2 ^ 31\<close>, so that an index fits an \<open>int\<close>),
  every entry is in the bucket its hash selects, and the counter is right.\<close>

definition ht_inv :: "('k, 'v) dictType \<Rightarrow> ('k, 'v) dictht \<Rightarrow> bool" where
  "ht_inv T h \<longleftrightarrow> length (ht_table h) = ht_size h \<and>
     (ht_size h = 0 \<or> (\<exists>n. 2 \<le> n \<and> n \<le> 31 \<and> ht_size h = 2 ^ n)) \<and>
     ht_sizemask h = ht_size h - 1 \<and>
     ht_used h = length (ht_entries h) \<and>
     (\<forall>i < ht_size h. \<forall>e \<in> set (ht_table h ! i). dictHashKey T (fst e) AND ht_sizemask h = i)"

text \<open>Without rehashing the second table is unset; during it both tables exist and the
  buckets of the first below \<open>rehashidx\<close> are empty.  Keys are unique across the tables.\<close>

definition dict_inv :: "('k, 'v) dictType \<Rightarrow> ('k, 'v) dict \<Rightarrow> bool" where
  "dict_inv T d \<longleftrightarrow> ht_inv T (ht0 d) \<and> ht_inv T (ht1 d) \<and> uniq T (entries d) \<and>
     (if rehashidx d = -1 then ht1 d = dictReset
      else 0 \<le> rehashidx d \<and> nat (rehashidx d) \<le> ht_size (ht0 d) \<and>
        ht_size (ht0 d) \<noteq> 0 \<and> ht_size (ht1 d) \<noteq> 0 \<and>
        (\<forall>i < nat (rehashidx d). ht_table (ht0 d) ! i = []))"

lemma dict_invD:
  assumes "dict_inv T d"
  shows "ht_inv T (ht0 d)" "ht_inv T (ht1 d)" "uniq T (entries d)" "ht_inv T (htab d t)"
    "rehashidx d = -1 \<Longrightarrow> ht1 d = dictReset"
    "dictIsRehashing d \<Longrightarrow> 0 \<le> rehashidx d \<and> nat (rehashidx d) \<le> ht_size (ht0 d) \<and>
        ht_size (ht0 d) \<noteq> 0 \<and> ht_size (ht1 d) \<noteq> 0 \<and> (\<forall>i < nat (rehashidx d). ht_table (ht0 d) ! i = [])"
  using assms unfolding dict_inv_def dictIsRehashing_def htab_def by auto

lemma and_mask_less: "x AND (2 ^ n - 1) < (2 :: nat) ^ n"
proof -
  have "x AND (2 ^ n - 1) = take_bit n x"
    by (simp add: take_bit_eq_mask mask_eq_exp_minus_1)
  then show ?thesis by simp
qed

lemma ht_index_less [simp]: "ht_inv T h \<Longrightarrow> ht_size h \<noteq> 0 \<Longrightarrow> x AND ht_sizemask h < ht_size h"
  using and_mask_less by (auto simp: ht_inv_def)

lemma ht_inv_length [simp]: "ht_inv T h \<Longrightarrow> length (ht_table h) = ht_size h"
  by (simp add: ht_inv_def)

lemma ht_inv_used: "ht_inv T h \<Longrightarrow> ht_used h = length (ht_entries h)"
  by (simp add: ht_inv_def)

lemma ht_inv_empty: "ht_inv T h \<Longrightarrow> ht_size h = 0 \<Longrightarrow> ht_table h = [] \<and> ht_used h = 0"
  by (auto simp: ht_inv_def ht_entries_def)

lemma ht_inv_reset [simp]: "ht_inv T dictReset"
  by (simp add: ht_inv_def dictReset_def ht_entries_def)

lemma dictReset_simps [simp]:
  "ht_table dictReset = []" "ht_size dictReset = 0" "ht_sizemask dictReset = 0" "ht_used dictReset = 0"
  "ht_entries dictReset = []"
  by (simp_all add: dictReset_def ht_entries_def)

lemma dict_inv_create: "dict_inv T dictCreate"
  by (simp add: dict_inv_def dictCreate_def entries_def uniq_def)

lemma mset_concat_update:
  assumes "i < length t"
  shows "mset (concat (t[i := b])) + mset (t ! i) = mset (concat t) + mset b"
proof -
  have "t = take i t @ t ! i # drop (Suc i) t" using id_take_nth_drop [OF assms] .
  then have "concat t = concat (take i t) @ t ! i @ concat (drop (Suc i) t)"
    by (metis concat.simps(2) concat_append)
  moreover have "concat (t[i := b]) = concat (take i t) @ b @ concat (drop (Suc i) t)"
    by (simp add: upd_conv_take_nth_drop [OF assms])
  ultimately show ?thesis by simp
qed

lemma length_concat_update:
  "i < length t \<Longrightarrow> length (concat (t[i := b])) + length (t ! i) = length (concat t) + length b"
  using arg_cong [OF mset_concat_update, of i t size b] by simp

text \<open>Replacing the chain of one bucket.\<close>

lemma ht_inv_put:
  assumes "ht_inv T h" "i < ht_size h" "\<forall>e \<in> set b. dictHashKey T (fst e) AND ht_sizemask h = i"
    and "u + length (ht_table h ! i) = ht_used h + length b"
  shows "ht_inv T (h\<lparr>ht_table := (ht_table h)[i := b], ht_used := u\<rparr>)"
proof -
  have "\<forall>j < ht_size h. \<forall>e \<in> set ((ht_table h)[i := b] ! j). dictHashKey T (fst e) AND ht_sizemask h = j"
    using assms(1-3) unfolding ht_inv_def by (metis nth_list_update_eq nth_list_update_neq)
  then show ?thesis
    using assms length_concat_update [of i "ht_table h" b] unfolding ht_inv_def ht_entries_def by simp
qed

lemma ht_entries_put:
  "ht_inv T h \<Longrightarrow> i < ht_size h \<Longrightarrow>
   mset (ht_entries (h\<lparr>ht_table := (ht_table h)[i := b], ht_used := u\<rparr>)) + mset (ht_table h ! i) =
     mset (ht_entries h) + mset b"
  using mset_concat_update [of i "ht_table h" b] by (simp add: ht_entries_def)

lemma ht_entries_nth: "i < length (ht_table h) \<Longrightarrow> e \<in> set (ht_table h ! i) \<Longrightarrow> e \<in> set (ht_entries h)"
  by (auto simp: ht_entries_def)

lemma ht_inv_hash: "ht_inv T h \<Longrightarrow> i < ht_size h \<Longrightarrow> e \<in> set (ht_table h ! i) \<Longrightarrow>
  dictHashKey T (fst e) AND ht_sizemask h = i"
  unfolding ht_inv_def by blast

lemma ht_inv_bucket:
  assumes "ht_inv T h" "e \<in> set (ht_entries h)"
  shows "e \<in> set (ht_table h ! (dictHashKey T (fst e) AND ht_sizemask h))" "ht_size h \<noteq> 0"
proof -
  obtain i where i: "i < length (ht_table h)" "e \<in> set (ht_table h ! i)"
    using assms(2) unfolding ht_entries_def by (metis UN_E in_set_conv_nth set_concat)
  then show "e \<in> set (ht_table h ! (dictHashKey T (fst e) AND ht_sizemask h))" "ht_size h \<noteq> 0"
    using ht_inv_hash [OF assms(1)] assms(1) by auto
qed

section \<open>Rehashing moves entries and nothing else\<close>

lemma rehash_bucket_moves:
  assumes "ht_inv T h1" "ht_size h1 \<noteq> 0"
  shows "\<exists>h1'. rehash_bucket T es h0 h1 = Some (h0\<lparr>ht_used := ht_used h0 - length es\<rparr>, h1') \<and>
    ht_inv T h1' \<and> ht_size h1' = ht_size h1 \<and> mset (ht_entries h1') = mset es + mset (ht_entries h1)"
  using assms
proof (induction es arbitrary: h0 h1)
  case (Cons e es)
  define i where "i = dictHashKey T (fst e) AND ht_sizemask h1"
  define h1' where "h1' = h1\<lparr>ht_table := (ht_table h1)[i := e # ht_table h1 ! i], ht_used := ht_used h1 + 1\<rparr>"
  have i: "i < ht_size h1" using Cons.prems by (simp add: i_def)
  have "ht_inv T h1'" unfolding h1'_def
    using Cons.prems i ht_inv_hash [OF Cons.prems(1) i] by (intro ht_inv_put) (auto simp: i_def)
  moreover have "ht_size h1' = ht_size h1" by (simp add: h1'_def)
  moreover have "mset (ht_entries h1') = add_mset e (mset (ht_entries h1))"
    using ht_entries_put [OF Cons.prems(1) i, where b = "e # ht_table h1 ! i" and u = "ht_used h1 + 1"] unfolding h1'_def by simp
  ultimately show ?case
    using Cons.IH [of h1' "h0\<lparr>ht_used := ht_used h0 - 1\<rparr>"] Cons.prems i
    by (auto simp: i_def [symmetric]) (auto simp: h1'_def)
qed simp

lemma rehash_skip_result:
  assumes "0 < ev" "i \<le> j" "j < length t" "t ! j \<noteq> []"
  shows "\<exists>i' ev' stop. rehash_skip t i ev = Some (i', ev', stop) \<and> i \<le> i' \<and> i' \<le> j \<and>
    (\<forall>k. i \<le> k \<and> k < i' \<longrightarrow> t ! k = []) \<and>
    (if stop then i < i' else t ! i' \<noteq> [] \<and> 0 < ev')"
  using assms
proof (induction t i ev rule: rehash_skip.induct)
  case (1 t i ev)
  show ?case
  proof (cases "t ! i = []")
    case False
    then have "rehash_skip t i ev = Some (i, ev, False)"
      using "1.prems" by (subst rehash_skip.simps) simp
    then show ?thesis
      using False "1.prems"(1,2) by (intro exI [of _ i] exI [of _ ev] exI [of _ False]) auto
  next
    case True
    then have ij: "i < j" using "1.prems" by (metis le_neq_implies_less)
    show ?thesis
    proof (cases "ev = 1")
      case True
      then have "rehash_skip t i ev = Some (i + 1, 0, True)"
        using \<open>t ! i = []\<close> ij "1.prems" by (subst rehash_skip.simps) simp
      moreover have "\<forall>k. i \<le> k \<and> k < i + 1 \<longrightarrow> t ! k = []"
        using \<open>t ! i = []\<close> by (metis Suc_eq_plus1 le_antisym less_Suc_eq_le)
      ultimately show ?thesis
        using ij by (intro exI [of _ "i + 1"] exI [of _ 0] exI [of _ True]) simp
    next
      case False
      obtain i' ev' stop where r: "rehash_skip t (i + 1) (ev - 1) = Some (i', ev', stop)"
        "i + 1 \<le> i'" "i' \<le> j" "\<forall>k. i + 1 \<le> k \<and> k < i' \<longrightarrow> t ! k = []"
        "if stop then i + 1 < i' else t ! i' \<noteq> [] \<and> 0 < ev'"
        using "1.IH" [of "t ! i"] True False ij "1.prems" by auto
      have "t ! k = []" if "i \<le> k" "k < i'" for k
        using that r(4) True by (cases "k = i") auto
      moreover have "rehash_skip t i ev = rehash_skip t (i + 1) (ev - 1)"
        using True False ij "1.prems" by (subst rehash_skip.simps) auto
      ultimately show ?thesis using r by auto
    qed
  qed
qed

lemma used_bucket:
  assumes "ht_inv T h" "ht_used h \<noteq> 0"
  shows "\<exists>j < ht_size h. ht_table h ! j \<noteq> []"
  using assms by (auto simp: ht_inv_def ht_entries_def in_set_conv_nth)

definition rehashing_inv :: "('k, 'v) dictType \<Rightarrow> ('k, 'v) dict \<Rightarrow> bool" where
  "rehashing_inv T d \<longleftrightarrow> dict_inv T d \<and> dictIsRehashing d"

lemma ht_update_commute: "h\<lparr>ht_used := u, ht_table := t\<rparr> = h\<lparr>ht_table := t, ht_used := u\<rparr>"
  by (cases h) simp

lemma rehashing_step:
  assumes inv: "rehashing_inv T d" and i: "nat (rehashidx d) \<le> i" "i < ht_size (ht0 d)"
    and empty: "\<forall>k. nat (rehashidx d) \<le> k \<and> k < i \<longrightarrow> ht_table (ht0 d) ! k = []"
  shows "\<exists>h1. rehash_bucket T (ht_table (ht0 d) ! i) (ht0 d) (ht1 d) =
      Some ((ht0 d)\<lparr>ht_used := ht_used (ht0 d) - length (ht_table (ht0 d) ! i)\<rparr>, h1) \<and>
    (let d' = d\<lparr>ht0 := (ht0 d)\<lparr>ht_table := (ht_table (ht0 d))[i := []],
                        ht_used := ht_used (ht0 d) - length (ht_table (ht0 d) ! i)\<rparr>,
                ht1 := h1, rehashidx := int i + 1\<rparr>
     in rehashing_inv T d' \<and> mset (entries d') = mset (entries d) \<and> ht_size h1 = ht_size (ht1 d))"
proof -
  let ?t = "ht_table (ht0 d)"
  have h: "ht_inv T (ht0 d)" "ht_inv T (ht1 d)" "uniq T (entries d)" "ht_size (ht1 d) \<noteq> 0" "0 \<le> rehashidx d"
    "\<forall>k < nat (rehashidx d). ?t ! k = []"
    using inv by (auto simp: rehashing_inv_def dict_inv_def dictIsRehashing_def)
  obtain h1 where h1: "rehash_bucket T (?t ! i) (ht0 d) (ht1 d) =
      Some ((ht0 d)\<lparr>ht_used := ht_used (ht0 d) - length (?t ! i)\<rparr>, h1)"
    "ht_inv T h1" "ht_size h1 = ht_size (ht1 d)" "mset (ht_entries h1) = mset (?t ! i) + mset (ht_entries (ht1 d))"
    using rehash_bucket_moves [OF h(2,4), of "?t ! i" "ht0 d"] by blast
  define h0 where "h0 = (ht0 d)\<lparr>ht_table := ?t[i := []], ht_used := ht_used (ht0 d) - length (?t ! i)\<rparr>"
  have len: "length (?t ! i) \<le> ht_used (ht0 d)"
    using length_concat_update [of i ?t "[]"] h(1) i(2) by (simp add: ht_inv_def ht_entries_def)
  have h0: "ht_inv T h0" unfolding h0_def by (rule ht_inv_put) (use h(1) i(2) len in auto)
  have "mset (ht_entries h0) + mset (?t ! i) = mset (ht_entries (ht0 d))"
    using ht_entries_put [OF h(1) i(2), where b = "[]"] unfolding h0_def by simp
  then have m: "mset (ht_entries h0) + mset (ht_entries h1) = mset (entries d)"
    unfolding h1(4) entries_def mset_append by (metis add.assoc)
  then have u: "uniq T (ht_entries h0 @ ht_entries h1)"
    using h(3) uniq_mset [of "ht_entries h0 @ ht_entries h1" "entries d"] by simp
  have e: "?t ! k = []" if "k < i" for k
    using that h(6) empty by (cases "k < nat (rehashidx d)") auto
  have "\<forall>k < Suc i. ht_table h0 ! k = []"
    using e i(2) h(1) by (auto simp: h0_def nth_list_update less_Suc_eq)
  then show ?thesis
    using h1 h0 m u i(2) h(4) unfolding h0_def
    by (auto simp: rehashing_inv_def dict_inv_def dictIsRehashing_def entries_def Let_def nat_add_distrib)
qed

lemma rehash_loop_moves:
  assumes "rehashing_inv T d" "n = 0 \<or> 0 < ev"
  shows "\<exists>d' early. rehash_loop T n ev d = Some (d', early) \<and> rehashing_inv T d' \<and>
    mset (entries d') = mset (entries d) \<and> iterators d' = iterators d \<and>
    ht_size (ht0 d') = ht_size (ht0 d) \<and> ht_size (ht1 d') = ht_size (ht1 d) \<and> rehashidx d \<le> rehashidx d' \<and>
    (early \<longrightarrow> ht_used (ht0 d') \<noteq> 0) \<and>
    (ht_used (ht0 d') \<noteq> 0 \<and> n \<noteq> 0 \<longrightarrow> rehashidx d < rehashidx d')"
  using assms
proof (induction n arbitrary: d ev)
  case (Suc n)
  let ?t = "ht_table (ht0 d)"
  show ?case
  proof (cases "ht_used (ht0 d) = 0")
    case True
    then show ?thesis using Suc.prems by auto
  next
    case False
    have h: "ht_inv T (ht0 d)" "0 \<le> rehashidx d" "\<forall>k < nat (rehashidx d). ?t ! k = []"
      using Suc.prems by (auto simp: rehashing_inv_def dict_inv_def dictIsRehashing_def)
    obtain j where j: "j < ht_size (ht0 d)" "?t ! j \<noteq> []" using used_bucket [OF h(1) False] by blast
    then have rj: "nat (rehashidx d) \<le> j" using h(3) by (meson not_le)
    obtain i ev' stop where sk: "rehash_skip ?t (nat (rehashidx d)) ev = Some (i, ev', stop)"
      "nat (rehashidx d) \<le> i" "i \<le> j" "\<forall>k. nat (rehashidx d) \<le> k \<and> k < i \<longrightarrow> ?t ! k = []"
      "if stop then nat (rehashidx d) < i else ?t ! i \<noteq> [] \<and> 0 < ev'"
      using rehash_skip_result [of ev "nat (rehashidx d)" j ?t] Suc.prems(2) rj j h(1) by auto
    have "ht_size (ht0 d) \<le> 2 ^ 31" using h(1) unfolding ht_inv_def
      by (metis power_increasing one_le_numeral zero_le)
    then have as: "nat (rehashidx d mod 2 ^ 64) < ht_size (ht0 d)"
      using rj j(1) h(2) by (subst mod_pos_pos_trivial) auto
    show ?thesis
    proof (cases stop)
      case True
      have "?t ! k = []" if "k < i" for k using that h(3) sk(4) by (cases "k < nat (rehashidx d)") auto
      then have "rehashing_inv T (d\<lparr>rehashidx := int i\<rparr>)"
        using Suc.prems(1) sk(3) j(1)
        by (auto simp: rehashing_inv_def dict_inv_def dictIsRehashing_def entries_def)
      moreover have "rehashidx d < int i" using sk(5) True by simp
      ultimately show ?thesis using False as sk(1) True by (auto simp: entries_def)
    next
      case more: False
      have i: "i < ht_size (ht0 d)" using sk(3) j(1) by simp
      obtain h1 where h1: "rehash_bucket T (?t ! i) (ht0 d) (ht1 d) =
          Some ((ht0 d)\<lparr>ht_used := ht_used (ht0 d) - length (?t ! i)\<rparr>, h1)"
        "let d' = d\<lparr>ht0 := (ht0 d)\<lparr>ht_table := ?t[i := []],
                        ht_used := ht_used (ht0 d) - length (?t ! i)\<rparr>,
                ht1 := h1, rehashidx := int i + 1\<rparr>
         in rehashing_inv T d' \<and> mset (entries d') = mset (entries d) \<and> ht_size h1 = ht_size (ht1 d)"
        using rehashing_step [OF Suc.prems(1) sk(2) i sk(4)] by blast
      define d' where "d' = d\<lparr>ht0 := (ht0 d)\<lparr>ht_table := ?t[i := []],
                        ht_used := ht_used (ht0 d) - length (?t ! i)\<rparr>,
                ht1 := h1, rehashidx := int i + 1\<rparr>"
      have d': "rehashing_inv T d'" "mset (entries d') = mset (entries d)" "ht_size h1 = ht_size (ht1 d)"
        "rehashidx d < rehashidx d'" "iterators d' = iterators d" "ht_size (ht0 d') = ht_size (ht0 d)"
        "ht_size (ht1 d') = ht_size (ht1 d)"
        using h1(2) sk(2) unfolding d'_def by (auto simp: Let_def)
      have "rehash_loop T (Suc n) ev d = rehash_loop T n ev' d'"
        using False as sk(1) more i h(1) h1(1) by (simp add: d'_def ht_update_commute)
      then show ?thesis using Suc.IH [OF d'(1), of ev'] sk(5) more d' by auto
    qed
  qed
qed auto

text \<open>What any amount of rehashing guarantees.\<close>

definition same_content :: "('k, 'v) dictType \<Rightarrow> ('k, 'v) dict \<Rightarrow> ('k, 'v) dict \<Rightarrow> bool" where
  "same_content T d d' \<longleftrightarrow> dict_inv T d' \<and> mset (entries d') = mset (entries d)"

lemma dictSize_entries: "dict_inv T d \<Longrightarrow> dictSize d = length (entries d)"
  using dict_invD(1,2) [of T d] by (simp add: dictSize_def ht_inv_used [of T] entries_def)

lemma same_contentD:
  assumes "dict_type_ok T" "dict_inv T d" "same_content T d d'"
  shows "dict_inv T d'" "dict_map T d' = dict_map T d" "dictSize d' = dictSize d"
proof -
  show i: "dict_inv T d'" using assms(3) by (simp add: same_content_def)
  show "dict_map T d' = dict_map T d"
    using alookup_mset [OF assms(1), of "entries d" "entries d'"] assms(2,3)
    by (simp add: same_content_def dict_map_def dict_inv_def)
  have "size (mset (entries d')) = size (mset (entries d))"
    using assms(3) unfolding same_content_def by (elim conjE) (rule arg_cong)
  then show "dictSize d' = dictSize d" using assms(2) i by (simp add: dictSize_entries)
qed

lemma same_content_refl [simp]: "dict_inv T d \<Longrightarrow> same_content T d d"
  by (simp add: same_content_def)

lemma rehash_finish_content:
  assumes "rehashing_inv T d"
  shows "same_content T d (fst (rehash_finish d))" "iterators (fst (rehash_finish d)) = iterators d"
    "snd (rehash_finish d) = dictIsRehashing (fst (rehash_finish d))"
proof -
  have "ht_entries (ht0 d) = []" if "ht_used (ht0 d) = 0"
    using assms that ht_inv_used [of T "ht0 d"] by (simp add: rehashing_inv_def dict_invD(1))
  then show "same_content T d (fst (rehash_finish d))" "iterators (fst (rehash_finish d)) = iterators d"
    "snd (rehash_finish d) = dictIsRehashing (fst (rehash_finish d))"
    using assms
    by (auto simp: rehash_finish_def same_content_def rehashing_inv_def dict_inv_def entries_def dictIsRehashing_def)
qed

lemma dictRehash_content:
  assumes "dict_inv T d"
  shows "\<exists>d' more. dictRehash T d n = Some (d', more) \<and> same_content T d d' \<and>
    iterators d' = iterators d \<and> more = dictIsRehashing d' \<and>
    (more \<longrightarrow> ht_size (ht0 d') = ht_size (ht0 d) \<and> rehashidx d \<le> rehashidx d' \<and>
       (n \<noteq> 0 \<longrightarrow> rehashidx d < rehashidx d'))"
proof (cases "dictIsRehashing d")
  case False
  then show ?thesis using assms by (simp add: dictRehash_def)
next
  case True
  then have "rehashing_inv T d" using assms by (simp add: rehashing_inv_def)
  then obtain d' early where d': "rehash_loop T n (int n * 10) d = Some (d', early)" "rehashing_inv T d'"
    "mset (entries d') = mset (entries d)" "iterators d' = iterators d" "ht_size (ht0 d') = ht_size (ht0 d)"
    "rehashidx d \<le> rehashidx d'" "early \<longrightarrow> ht_used (ht0 d') \<noteq> 0"
    "ht_used (ht0 d') \<noteq> 0 \<and> n \<noteq> 0 \<longrightarrow> rehashidx d < rehashidx d'"
    using rehash_loop_moves [of T d n "int n * 10"] by (cases n) auto
  show ?thesis
  proof (cases early)
    case early: True
    then show ?thesis using True d' by (auto simp: dictRehash_def same_content_def rehashing_inv_def)
  next
    case False
    have "ht_used (ht0 d') \<noteq> 0 \<Longrightarrow> rehash_finish d' = (d', True)" by (simp add: rehash_finish_def)
    moreover have "ht_used (ht0 d') = 0 \<Longrightarrow> \<not> snd (rehash_finish d')" by (simp add: rehash_finish_def)
    ultimately show ?thesis
      using True False d' rehash_finish_content [OF d'(2)]
      by (cases "ht_used (ht0 d') = 0"; cases "rehash_finish d'") (auto simp: dictRehash_def same_content_def)
  qed
qed

lemma rehash_step_if_content:
  "dict_inv T d \<Longrightarrow> \<exists>d'. rehash_step_if T d = Some d' \<and> same_content T d d' \<and> iterators d' = iterators d"
  using dictRehash_content [of T d 1] by (auto simp: rehash_step_if_def dictRehashStep_def)

lemma rehash_finish_size: "rehashing_inv T d \<Longrightarrow> ht_size (ht0 (fst (rehash_finish d))) \<noteq> 0"
  unfolding rehashing_inv_def rehash_finish_def using dict_invD(6) [of T d] by auto

lemma rehash_step_size:
  assumes "dict_inv T d" "ht_size (ht0 d) \<noteq> 0" "rehash_step_if T d = Some d'"
  shows "ht_size (ht0 d') \<noteq> 0"
proof (cases "dictIsRehashing d \<and> iterators d = 0")
  case True
  then have "rehashing_inv T d" using assms(1) by (simp add: rehashing_inv_def)
  then obtain x early where x: "rehash_loop T 1 10 d = Some (x, early)" "rehashing_inv T x"
    using rehash_loop_moves [of T d 1 10] by auto
  then show ?thesis
    using True assms(3) rehash_finish_size [OF x(2)] dict_invD(6) [of T x]
    by (auto simp: rehash_step_if_def dictRehashStep_def dictRehash_def rehashing_inv_def split: if_splits
        simp del: rehash_loop.simps)
next
  case False
  then show ?thesis using assms by (auto simp: rehash_step_if_def dictRehashStep_def split: if_splits)
qed

section \<open>Lookup\<close>

lemma chain_find_correct:
  "case chain_find T k es of
     None \<Rightarrow> \<forall>e \<in> set es. \<not> keyEq T k (fst e)
   | Some j \<Rightarrow> j < length es \<and> keyEq T k (fst (es ! j))"
  by (induction es) (auto split: option.splits)

text \<open>A reference to an entry with the key.\<close>

definition ref_ok :: "('k, 'v) dictType \<Rightarrow> ('k, 'v) dict \<Rightarrow> 'k \<Rightarrow> entry_ref \<Rightarrow> bool" where
  "ref_ok T d k r \<longleftrightarrow> (case r of (t, i, j) \<Rightarrow>
     t \<le> 1 \<and> i < ht_size (htab d t) \<and> j < length (ht_table (htab d t) ! i) \<and>
     keyEq T k (fst (ht_table (htab d t) ! i ! j)))"

lemma table_find_correct:
  assumes "dict_type_ok T" "ht_inv T (htab d t)" "ht_size (htab d t) \<noteq> 0" "t \<le> 1"
  shows "\<exists>r. table_find T d k t = Some r \<and>
    (case r of None \<Rightarrow> \<forall>e \<in> set (ht_entries (htab d t)). \<not> keyEq T k (fst e) | Some x \<Rightarrow> ref_ok T d k x)"
proof -
  let ?h = "htab d t" let ?i = "dictHashKey T k AND ht_sizemask (htab d t)"
  have i: "?i < ht_size ?h" using assms by simp
  have mem: "e \<in> set (ht_table ?h ! ?i)" if "e \<in> set (ht_entries ?h)" "keyEq T k (fst e)" for e
    using ht_inv_bucket [OF assms(2) that(1)] dict_type_okD(4) [OF assms(1) that(2)] by simp
  have f: "table_find T d k t = Some (map_option (\<lambda>j. (t, ?i, j)) (chain_find T k (ht_table ?h ! ?i)))"
    using i assms(2) by (simp add: table_find_def Let_def)
  note c = chain_find_correct [where T = T and k = k and es = "ht_table ?h ! ?i"]
  show ?thesis
  proof (cases "chain_find T k (ht_table ?h ! ?i)")
    case None
    then show ?thesis using c f mem by auto
  next
    case (Some j)
    then show ?thesis using c f i assms(4) by (simp add: ref_ok_def)
  qed
qed

lemma tables_find_correct:
  assumes "dict_type_ok T" "dict_inv T d" "ht_size (ht0 d) \<noteq> 0"
  shows "\<exists>r. tables_find T d k = Some r \<and>
    (case r of None \<Rightarrow> dict_map T d k = None | Some x \<Rightarrow> ref_ok T d k x)"
proof -
  have inv: "ht_inv T (htab d 0)" "ht_inv T (htab d 1)" "ht_size (htab d 0) \<noteq> 0"
    "dictIsRehashing d \<Longrightarrow> ht_size (htab d 1) \<noteq> 0"
    "\<not> dictIsRehashing d \<Longrightarrow> ht_entries (ht1 d) = []"
    using assms(2,3) by (auto simp: dict_inv_def htab_def dictIsRehashing_def)
  obtain r0 where r0: "table_find T d k 0 = Some r0"
    "case r0 of None \<Rightarrow> \<forall>e \<in> set (ht_entries (ht0 d)). \<not> keyEq T k (fst e) | Some x \<Rightarrow> ref_ok T d k x"
    using table_find_correct [OF assms(1) inv(1,3), of k] by (auto simp only: htab_simps)
  show ?thesis
  proof (cases "r0 = None \<and> dictIsRehashing d")
    case True
    obtain r1 where "table_find T d k 1 = Some r1"
      "case r1 of None \<Rightarrow> \<forall>e \<in> set (ht_entries (ht1 d)). \<not> keyEq T k (fst e) | Some x \<Rightarrow> ref_ok T d k x"
      using table_find_correct [OF assms(1) inv(2) inv(4), of k] True by (auto simp only: htab_simps)
    with True r0 show ?thesis
      by (auto simp: tables_find_def dict_map_def alookup_None entries_def split: option.splits)
  next
    case False
    with r0 inv(5) show ?thesis
      by (auto simp: tables_find_def dict_map_def alookup_None entries_def split: option.splits)
  qed
qed

text \<open>The entries of a dictionary around a referenced one.\<close>

lemma ref_entries:
  assumes "dict_inv T d" "ref_ok T d k (t, i, j)"
  defines "e \<equiv> ht_table (htab d t) ! i ! j"
  shows "entry_at d (t, i, j) = Some e"
    and "\<exists>M. mset (entries d) = add_mset e M \<and>
      (\<forall>b u. mset (entries (htab_upd d t ((htab d t)\<lparr>ht_table := (ht_table (htab d t))[i := b], ht_used := u\<rparr>))) +
         mset (ht_table (htab d t) ! i) = mset b + add_mset e M)"
proof -
  have r: "t \<le> 1" "i < ht_size (htab d t)" "j < length (ht_table (htab d t) ! i)"
    using assms(2) by (auto simp: ref_ok_def)
  have inv: "ht_inv T (htab d t)" using assms(1) by (auto simp: dict_inv_def htab_def)
  show "entry_at d (t, i, j) = Some e" using r inv by (simp add: entry_at_def e_def)
  have "e \<in> set (ht_table (htab d t) ! i)" using r(3) by (simp add: e_def)
  then have "e \<in> set (ht_entries (htab d t))" using ht_entries_nth [of i "htab d t" e] r(2) inv by simp
  then have "e \<in># mset (entries d)" by (auto simp: entries_def htab_def split: if_splits)
  then obtain M where M: "mset (entries d) = add_mset e M" using mset_add by metis
  have "mset (entries (htab_upd d t ((htab d t)\<lparr>ht_table := (ht_table (htab d t))[i := b], ht_used := u\<rparr>))) +
         mset (ht_table (htab d t) ! i) = mset b + mset (entries d)" for b u
    using ht_entries_put [OF inv r(2), where b = b and u = u]
    by (auto simp: htab_upd_def htab_def entries_def ac_simps split: if_splits)
  with M show "\<exists>M. mset (entries d) = add_mset e M \<and>
      (\<forall>b u. mset (entries (htab_upd d t ((htab d t)\<lparr>ht_table := (ht_table (htab d t))[i := b], ht_used := u\<rparr>))) +
         mset (ht_table (htab d t) ! i) = mset b + add_mset e M)"
    by auto
qed

text \<open>Replacing one chain in either table.\<close>

lemma dict_inv_put:
  fixes d :: "('k, 'v) dict"
  assumes "dict_inv T d" "t \<le> 1" "i < ht_size (htab d t)"
    and "\<forall>e \<in> set b. dictHashKey T (fst e) AND ht_sizemask (htab d t) = i"
    and "u + length (ht_table (htab d t) ! i) = ht_used (htab d t) + length b"
    and "ht_table (htab d t) ! i \<noteq> [] \<or> t = 1 \<or> \<not> dictIsRehashing d"
  defines "d' \<equiv> htab_upd d t ((htab d t)\<lparr>ht_table := (ht_table (htab d t))[i := b], ht_used := u\<rparr>)"
  assumes "uniq T (entries d')"
  shows "dict_inv T d'"
proof -
  note inv = dict_invD [OF assms(1)]
  have h: "ht_inv T ((htab d t)\<lparr>ht_table := (ht_table (htab d t))[i := b], ht_used := u\<rparr>)"
    by (rule ht_inv_put) (use inv(4) assms(3-5) in auto)
  show ?thesis
  proof (cases "t = 0")
    case True
    show ?thesis
    proof (cases "dictIsRehashing d")
      case r: True
      have "\<not> i < nat (rehashidx d)" using assms(6) True r inv(6) by auto
      then show ?thesis
        using True r h inv assms(8) unfolding dict_inv_def d'_def
        by (auto simp: htab_upd_def dictIsRehashing_def nth_list_update)
    next
      case False
      then show ?thesis
        using True h inv assms(8) unfolding dict_inv_def d'_def
        by (auto simp: htab_upd_def dictIsRehashing_def)
    qed
  next
    case False
    then have t: "t = 1" using assms(2) by simp
    then have "dictIsRehashing d" using assms(3) inv(5) by (auto simp: dictIsRehashing_def)
    then show ?thesis
      using t h inv assms(8) unfolding dict_inv_def d'_def
      by (auto simp: htab_upd_def dictIsRehashing_def)
  qed
qed

section \<open>Growing\<close>

lemma next_power_loop_pow2:
  "sz \<le> 2 ^ 31 \<Longrightarrow> a \<le> 31 \<Longrightarrow> \<exists>n. a \<le> n \<and> n \<le> 31 \<and> next_power_loop (2 ^ a) sz = 2 ^ n \<and> sz \<le> 2 ^ n"
proof (induction "31 - a" arbitrary: a)
  case 0
  then show ?case by (subst next_power_loop.simps) auto
next
  case (Suc x)
  show ?case
  proof (cases "sz \<le> 2 ^ a")
    case True
    then show ?thesis using Suc.prems by (subst next_power_loop.simps) auto
  next
    case False
    have "\<exists>n. Suc a \<le> n \<and> n \<le> 31 \<and> next_power_loop (2 ^ Suc a) sz = 2 ^ n \<and> sz \<le> 2 ^ n"
      using Suc by (intro Suc.hyps(1)) auto
    moreover have "next_power_loop (2 ^ a) sz = next_power_loop (2 ^ Suc a) sz"
      using False by (subst next_power_loop.simps) (simp add: mult.commute)
    ultimately show ?thesis by (metis Suc_leD)
  qed
qed

lemma dictNextPower_pow2:
  assumes "sz \<le> 2 ^ 31"
  shows "\<exists>n. 2 \<le> n \<and> n \<le> 31 \<and> dictNextPower sz = 2 ^ n \<and> sz \<le> 2 ^ n"
proof -
  have "\<not> LONG_MAX \<le> sz" using assms by (simp add: LONG_MAX_def)
  moreover have "DICT_HT_INITIAL_SIZE = 2 ^ 2" by (simp add: DICT_HT_INITIAL_SIZE_def)
  ultimately show ?thesis
    using next_power_loop_pow2 [OF assms, of 2] by (simp add: dictNextPower_def)
qed

lemma fresh_table:
  assumes "2 \<le> n" "n \<le> 31"
  shows "ht_inv T \<lparr>ht_table = replicate ((2 ^ n * 8) mod 2 ^ 64 div 8) [], ht_size = 2 ^ n,
           ht_sizemask = 2 ^ n - 1, ht_used = 0\<rparr>"
    and "(2 ^ n * 8) mod 2 ^ 64 div 8 = (2 ^ n :: nat)"
proof -
  have "(2 :: nat) ^ n \<le> 2 ^ 31" using assms(2) by (intro power_increasing) auto
  then show r: "(2 ^ n * 8) mod 2 ^ 64 div 8 = (2 ^ n :: nat)" by simp
  show "ht_inv T \<lparr>ht_table = replicate ((2 ^ n * 8) mod 2 ^ 64 div 8) [], ht_size = 2 ^ n,
           ht_sizemask = 2 ^ n - 1, ht_used = 0\<rparr>"
    unfolding r ht_inv_def ht_entries_def using assms by auto
qed

lemma dictExpand_content:
  assumes "dict_inv T d" "sz \<le> 2 ^ 31"
  shows "same_content T d (fst (dictExpand d sz)) \<and>
    iterators (fst (dictExpand d sz)) = iterators d \<and>
    (snd (dictExpand d sz) \<longrightarrow> ht_size (ht0 (fst (dictExpand d sz))) \<noteq> 0) \<and>
    (snd (dictExpand d sz) \<longleftrightarrow> \<not> dictIsRehashing d \<and> ht_used (ht0 d) \<le> sz \<and> dictNextPower sz \<noteq> ht_size (ht0 d))"
proof -
  obtain n where n: "2 \<le> n" "n \<le> 31" "dictNextPower sz = 2 ^ n"
    using dictNextPower_pow2 [OF assms(2)] by blast
  note inv = dict_invD [OF assms(1)] and f = fresh_table [OF n(1,2)]
  have e: "ht_table (ht0 d) = [] \<longleftrightarrow> ht_size (ht0 d) = 0" using ht_inv_length [OF inv(1)] by auto
  have e2: "ht_entries (ht0 d) = []" if "ht_table (ht0 d) = []" using that by (simp add: ht_entries_def)
  have "ht_entries \<lparr>ht_table = replicate (2 ^ n) [], ht_size = 2 ^ n, ht_sizemask = 2 ^ n - 1, ht_used = 0\<rparr> = []"
    by (simp add: ht_entries_def)
  then show ?thesis
    using assms(1) inv f e e2 n(3) unfolding dictExpand_def Let_def same_content_def dict_inv_def
    by (auto simp: dictIsRehashing_def entries_def split: if_splits)
qed

lemma dictResize_content:
  assumes "dict_inv T d" "ht_used (ht0 d) < 2 ^ 31"
  shows "same_content T d (fst (dictResize c d))"
proof -
  have "sint (word_of_nat (ht_used (ht0 d)) :: 32 word) = int (ht_used (ht0 d))"
    using assms(2) by (subst signed_of_nat) (simp add: signed_take_bit_int_eq_self)
  then show ?thesis
    using assms dictExpand_content [of T d]
    by (auto simp: dictResize_def Let_def DICT_HT_INITIAL_SIZE_def nat_mod_distrib)
qed

lemma dictExpandIfNeeded_content:
  assumes "dict_inv T d" "ht_used (ht0 d) < 2 ^ 30"
  shows "snd (dictExpandIfNeeded c d)" "same_content T d (fst (dictExpandIfNeeded c d))"
    "ht_size (ht0 (fst (dictExpandIfNeeded c d))) \<noteq> 0"
proof -
  note inv = dict_invD [OF assms(1)]
  obtain n m where n: "dictNextPower (ht_used (ht0 d) * 2) = 2 ^ n" "ht_used (ht0 d) * 2 \<le> 2 ^ n"
    and m: "dictNextPower DICT_HT_INITIAL_SIZE = 2 ^ m"
    using dictNextPower_pow2 [of "ht_used (ht0 d) * 2"] dictNextPower_pow2 [of DICT_HT_INITIAL_SIZE] assms(2)
    by (auto simp: DICT_HT_INITIAL_SIZE_def)
  have z: "ht_used (ht0 d) = 0" if "ht_size (ht0 d) = 0" using ht_inv_empty [OF inv(1) that] by simp
  note e1 = dictExpand_content [OF assms(1), of "ht_used (ht0 d) * 2"]
  note e2 = dictExpand_content [OF assms(1), of DICT_HT_INITIAL_SIZE]
  show "snd (dictExpandIfNeeded c d)"
    using e1 e2 n m z assms(2) by (auto simp: dictExpandIfNeeded_def DICT_HT_INITIAL_SIZE_def)
  show "same_content T d (fst (dictExpandIfNeeded c d))"
    using e1 e2 assms by (auto simp: dictExpandIfNeeded_def DICT_HT_INITIAL_SIZE_def)
  show "ht_size (ht0 (fst (dictExpandIfNeeded c d))) \<noteq> 0"
    using e1 e2 n m z assms inv(6) by (auto simp: dictExpandIfNeeded_def DICT_HT_INITIAL_SIZE_def)
qed

section \<open>Each operation on the stored map\<close>

lemma sint_index: "idx < 2 ^ 31 \<Longrightarrow> sint (word_of_nat idx :: 32 word) = int idx"
  by (subst signed_of_nat) (simp add: signed_take_bit_int_eq_self)

lemma ht_size_bound: "ht_inv T h \<Longrightarrow> ht_size h \<le> 2 ^ 31"
  unfolding ht_inv_def by (metis power_increasing one_le_numeral zero_le)

lemma dictKeyIndex_correct:
  assumes "dict_type_ok T" "dict_inv T d" "ht_used (ht0 d) < 2 ^ 30"
  shows "\<exists>d'. same_content T d d' \<and> ht_size (ht0 d') \<noteq> 0 \<and>
    dictKeyIndex T c d k = Some (d', if dict_map T d k = None
      then int (dictHashKey T k AND ht_sizemask (if dictIsRehashing d' then ht1 d' else ht0 d')) else -1)"
proof -
  define d' where "d' = fst (dictExpandIfNeeded c d)"
  have d': "dictExpandIfNeeded c d = (d', True)" "same_content T d d'" "ht_size (ht0 d') \<noteq> 0"
    using dictExpandIfNeeded_content [OF assms(2,3), of c] by (auto simp: d'_def prod_eq_iff)
  note sc = same_contentD [OF assms(1,2) d'(2)]
  let ?h = "if dictIsRehashing d' then ht1 d' else ht0 d'"
  have h: "ht_inv T ?h" "ht_size ?h \<noteq> 0" using dict_invD [OF sc(1)] d'(3) by auto
  have "dictHashKey T k AND ht_sizemask ?h < ht_size ?h" by (rule ht_index_less [OF h])
  then have b: "dictHashKey T k AND ht_sizemask ?h < 2 ^ 31"
    using ht_size_bound [OF h(1)] by simp
  obtain r where r: "tables_find T d' k = Some r"
    "case r of None \<Rightarrow> dict_map T d' k = None | Some x \<Rightarrow> ref_ok T d' k x"
    using tables_find_correct [OF assms(1) sc(1) d'(3), of k] by blast
  show ?thesis
  proof (cases r)
    case None
    then show ?thesis
      using r d' sc(2) sint_index [OF b] by (auto simp: dictKeyIndex_def Let_def)
  next
    case (Some x)
    obtain t i j where x: "x = (t, i, j)" by (cases x)
    then have ref: "ref_ok T d' k (t, i, j)" using r Some by simp
    then obtain M where "mset (entries d') = add_mset (ht_table (htab d' t) ! i ! j) M"
      using ref_entries(2) [OF sc(1)] by blast
    then have "ht_table (htab d' t) ! i ! j \<in> set (entries d')" by (metis set_mset_mset union_single_eq_member)
    then have "dict_map T d' k \<noteq> None"
      using ref by (auto simp: dict_map_def alookup_None ref_ok_def)
    then show ?thesis using Some r d' sc(2) by (auto simp: dictKeyIndex_def)
  qed
qed

lemma dictAddRaw_correct:
  assumes "dict_type_ok T" "dict_inv T d" "dictSize d < 2 ^ 30"
  shows "\<exists>d' r. dictAddRaw T c d k junk = Some (d', r) \<and> dict_inv T d' \<and>
    (if dict_map T d k = None
     then (\<exists>t i. r = Some (t, i, 0) \<and> ref_ok T d' k (t, i, 0)) \<and>
       mset (entries d') = add_mset (dictSetKey T k, junk) (mset (entries d))
     else r = None \<and> mset (entries d') = mset (entries d))"
proof -
  obtain d1 where d1: "rehash_step_if T d = Some d1" "same_content T d d1"
    using rehash_step_if_content [OF assms(2)] by blast
  note s1 = same_contentD [OF assms(1,2) d1(2)]
  have "ht_used (ht0 d1) < 2 ^ 30" using s1(3) assms(3) by (simp add: dictSize_def)
  then obtain d2 where d2: "same_content T d1 d2" "ht_size (ht0 d2) \<noteq> 0"
    "dictKeyIndex T c d1 k = Some (d2, if dict_map T d1 k = None
      then int (dictHashKey T k AND ht_sizemask (if dictIsRehashing d2 then ht1 d2 else ht0 d2)) else -1)"
    using dictKeyIndex_correct [OF assms(1) s1(1), of c k] by blast
  note s2 = same_contentD [OF assms(1) s1(1) d2(1)]
  have m: "mset (entries d2) = mset (entries d)" using d1(2) d2(1) by (simp add: same_content_def)
  show ?thesis
  proof (cases "dict_map T d k = None")
    case False
    then obtain y where "dict_map T d k = Some y" by blast
    then show ?thesis using d1(1) d2(3) s1(2) s2(1) m by (simp add: dictAddRaw_def)
  next
    case True
    define t where "t = (if dictIsRehashing d2 then 1 else 0 :: nat)"
    define i where "i = dictHashKey T k AND ht_sizemask (htab d2 t)"
    define e where "e = (dictSetKey T k, junk)"
    define h where "h = (htab d2 t)\<lparr>ht_table := (ht_table (htab d2 t))[i := e # ht_table (htab d2 t) ! i],
        ht_used := ht_used (htab d2 t) + 1\<rparr>"
    have inv: "ht_inv T (htab d2 t)" "ht_size (htab d2 t) \<noteq> 0"
      using dict_invD [OF s2(1)] d2(2) by (auto simp: t_def)
    have i: "i < ht_size (htab d2 t)" using inv by (simp add: i_def)
    have run: "dictAddRaw T c d k junk = Some (htab_upd d2 t h, Some (t, i, 0))"
      using d1(1) d2(3) s1(2) True i inv(1)
      by (simp add: dictAddRaw_def t_def i_def e_def h_def Let_def split: if_splits)
    have ent: "mset (entries (htab_upd d2 t h)) = add_mset e (mset (entries d))"
      using ht_entries_put [OF inv(1) i, where b = "e # ht_table (htab d2 t) ! i" and u = "ht_used (htab d2 t) + 1"]
        m [symmetric] by (simp add: h_def htab_upd_def htab_def entries_def split: if_splits)
    have eq: "keyEq T k (fst e)" using dict_type_okD(5) [OF assms(1)] by (simp add: e_def)
    have "uniq T (entries (htab_upd d2 t h))"
      using alookup_insert(1) [OF assms(1) _ _ eq [unfolded e_def fst_conv], of "entries d" "entries (htab_upd d2 t h)" junk]
        dict_invD(3) [OF assms(2)] True ent by (simp add: dict_map_def e_def)
    moreover have "dictHashKey T (fst e) AND ht_sizemask (htab d2 t) = i"
      using dict_type_okD(4) [OF assms(1) eq] by (simp add: i_def)
    ultimately have "dict_inv T (htab_upd d2 t h)"
      using s2(1) i ht_inv_hash [OF inv(1) i] unfolding h_def
      by (intro dict_inv_put) (auto simp: t_def)
    moreover have "ref_ok T (htab_upd d2 t h) k (t, i, 0)"
      using i eq inv(1) by (auto simp: ref_ok_def htab_upd_def htab_def h_def t_def)
    ultimately show ?thesis using run ent True by (auto simp: e_def)
  qed
qed

lemma dictSetVal_correct:
  assumes "dict_type_ok T" "dict_inv T d" "ref_ok T d k (t, i, j)"
    and "entry_at d (t, i, j) = Some e"
  shows "\<exists>d' M. dictSetVal T d (t, i, j) v = Some d' \<and> dict_inv T d' \<and>
    mset (entries d) = add_mset e M \<and> mset (entries d') = add_mset (fst e, dictStoredVal T v) M \<and>
    keyEq T k (fst e)"
proof -
  let ?h = "htab d t" let ?c = "ht_table (htab d t) ! i"
  have r: "t \<le> 1" "i < ht_size ?h" "j < length ?c" "keyEq T k (fst (?c ! j))"
    using assms(3) by (auto simp: ref_ok_def)
  have e: "e = ?c ! j" using ref_entries(1) [OF assms(2,3)] assms(4) by simp
  obtain M where M: "mset (entries d) = add_mset e M"
    "\<And>b u. mset (entries (htab_upd d t (?h\<lparr>ht_table := (ht_table ?h)[i := b], ht_used := u\<rparr>))) + mset ?c =
      mset b + add_mset e M"
    using ref_entries(2) [OF assms(2,3)] e by blast
  define b where "b = ?c[j := (fst e, dictStoredVal T v)]"
  define d' where "d' = htab_upd d t (?h\<lparr>ht_table := (ht_table ?h)[i := b], ht_used := ht_used ?h\<rparr>)"
  have inv: "ht_inv T ?h" using dict_invD(4) [OF assms(2)] .
  have run: "dictSetVal T d (t, i, j) v = Some d'"
    using r inv e by (simp add: dictSetVal_def d'_def b_def Let_def)
  have "mset b + {#e#} = add_mset (fst e, dictStoredVal T v) (mset ?c)"
    unfolding b_def e using r(3) by (simp add: mset_update nth_mem_mset)
  moreover have "mset (entries d') + mset ?c = (mset b + {#e#}) + M"
    using M(2) [where b = b and u = "ht_used ?h"] unfolding d'_def by simp
  ultimately have "mset (entries d') + mset ?c = add_mset (fst e, dictStoredVal T v) M + mset ?c"
    by simp
  then have ent: "mset (entries d') = add_mset (fst e, dictStoredVal T v) M" by simp
  have "uniq T (entries d')"
    using alookup_assign(1) [OF assms(1) dict_invD(3) [OF assms(2)] _ M(1) ent] r(4) e by simp
  moreover have "\<forall>x \<in> set b. dictHashKey T (fst x) AND ht_sizemask ?h = i"
    using ht_inv_hash [OF inv r(2)] r(3) unfolding b_def e
    by (metis (no_types, lifting) fst_conv in_set_conv_nth length_list_update nth_list_update nth_mem)
  ultimately have "dict_inv T d'"
    using assms(2) r unfolding d'_def by (intro dict_inv_put) (auto simp: b_def)
  then show ?thesis using run M(1) ent r(4) e by auto
qed

end
