(* ===== verification/Dict_Map.thy ===== *)
theory Dict_Map
  imports Dict
begin

text \<open>
  The dictionary as a finite map: what every operation of \<^verbatim>\<open>dict.c\<close> returns and leaves
  behind, on every branch, while an incremental rehash may be in progress.  The interface
  \<open>map_store\<close> is interpreted on these operations together with the housekeeping the server
  does between them (\<open>dictResize\<close>, \<open>dictRehash\<close>, enabling and disabling resizes).
\<close>

section \<open>Operations\<close>

lemma dict_inv_no_table:
  assumes "dict_inv T d" "ht_size (ht0 d) = 0"
  shows "entries d = []"
proof -
  have "rehashidx d = -1" using dict_invD(6) [OF assms(1)] assms(2) by (auto simp: dictIsRehashing_def)
  then show ?thesis
    using dict_invD(1,5) [OF assms(1)] ht_inv_empty [of T "ht0 d"] assms(2)
    by (simp add: entries_def ht_entries_def)
qed

lemma map_del_absent:
  assumes "dict_type_ok T" "dict_map T d k = None"
  shows "map_del (keyEq T) (dict_map T d) k = dict_map T d"
proof
  fix x
  have "dict_map T d x = None" if "kclass T k = kclass T x"
    using assms(2) that by (simp add: dict_map_def alookup_None keyEq_iff [OF assms(1)])
  then show "map_del (keyEq T) (dict_map T d) k x = dict_map T d x"
    by (simp add: map_del_def keyEq_iff [OF assms(1)])
qed

lemma dict_map_Some_entry:
  assumes "dict_type_ok T" "dict_inv T d" "ref_ok T d k (t, i, j)"
  shows "\<exists>e. entry_at d (t, i, j) = Some e \<and> dict_map T d k = Some (snd e) \<and> keyEq T k (fst e)"
proof -
  have k: "keyEq T k (fst (ht_table (htab d t) ! i ! j))" using assms(3) by (simp add: ref_ok_def)
  obtain M where M: "mset (entries d) = add_mset (ht_table (htab d t) ! i ! j) M"
    using ref_entries(2) [OF assms(2,3)] by blast
  obtain es where es: "mset es = M" using ex_mset by auto
  show ?thesis
    using ref_entries(1) [OF assms(2,3)] k
      alookup_remove(3) [OF assms(1) dict_invD(3) [OF assms(2)] k, of es] M es
    by (simp add: dict_map_def)
qed

lemma dictAdd_correct:
  assumes "dict_type_ok T" "dict_inv T d" "dictSize d < 2 ^ 30"
  shows "\<exists>d'. dictAdd T c junk d k v = Some (d', dict_map T d k = None) \<and> dict_inv T d' \<and>
    dict_map T d' = (if dict_map T d k = None
      then map_upd (keyEq T) (dict_map T d) k (dictStoredVal T v) else dict_map T d) \<and>
    dictSize d' = (if dict_map T d k = None then Suc (dictSize d) else dictSize d)"
proof (cases "dict_map T d k")
  case (Some y)
  then obtain d' where d': "dictAddRaw T c d k junk = Some (d', None)" "dict_inv T d'"
    "mset (entries d') = mset (entries d)"
    using dictAddRaw_correct [OF assms, of c k junk] by auto
  then have "same_content T d d'" by (simp add: same_content_def)
  then show ?thesis using Some d' same_contentD [OF assms(1,2)] by (simp add: dictAdd_def)
next
  case None
  then obtain d1 t i where d1: "dictAddRaw T c d k junk = Some (d1, Some (t, i, 0))" "dict_inv T d1"
    "ref_ok T d1 k (t, i, 0)" "mset (entries d1) = add_mset (dictSetKey T k, junk) (mset (entries d))"
    using dictAddRaw_correct [OF assms, of c k junk] by auto
  obtain e where e: "entry_at d1 (t, i, 0) = Some e"
    using dict_map_Some_entry [OF assms(1) d1(2,3)] by blast
  obtain d2 M where d2: "dictSetVal T d1 (t, i, 0) v = Some d2" "dict_inv T d2"
    "mset (entries d1) = add_mset e M" "mset (entries d2) = add_mset (fst e, dictStoredVal T v) M"
    "keyEq T k (fst e)"
    using dictSetVal_correct [OF assms(1) d1(2,3) e, of v] by blast
  note u = dict_invD(3) [OF assms(2)] dict_invD(3) [OF d1(2)]
  have "dict_map T d2 = map_upd (keyEq T) (dict_map T d1) k (dictStoredVal T v)"
    using alookup_assign(2) [OF assms(1) u(2) d2(5) d2(3,4)] by (simp add: dict_map_def)
  moreover have "dict_map T d1 = map_upd (keyEq T) (dict_map T d) k junk"
    using alookup_insert(2) [OF assms(1) u(1) _ dict_type_okD(5) [OF assms(1)] d1(4)] None
    by (simp add: dict_map_def)
  ultimately have "dict_map T d2 = map_upd (keyEq T) (dict_map T d) k (dictStoredVal T v)"
    by (auto simp: map_upd_def)
  moreover have "length (entries d2) = Suc (length (entries d))"
    using d2(3,4) d1(4) by (metis size_add_mset size_mset)
  ultimately show ?thesis
    using None d1(1) d2(1,2) assms(2) by (simp add: dictAdd_def dictSize_entries [of T])
qed

lemma dictFind_correct:
  assumes "dict_type_ok T" "dict_inv T d"
  shows "\<exists>d' r. dictFind T d k = Some (d', r) \<and> same_content T d d' \<and>
    (case r of None \<Rightarrow> dict_map T d k = None
     | Some x \<Rightarrow> ref_ok T d' k x \<and> (\<exists>e. entry_at d' x = Some e \<and> dict_map T d k = Some (snd e) \<and> keyEq T k (fst e)))"
proof (cases "ht_used (ht0 d) + ht_used (ht1 d) = 0")
  case True
  then have "entries d = []" using dictSize_entries [OF assms(2)] by (simp add: dictSize_def)
  then show ?thesis using True assms(2) by (simp add: dictFind_def dict_map_def alookup_def)
next
  case False
  obtain d' where d': "rehash_step_if T d = Some d'" "same_content T d d'"
    using rehash_step_if_content [OF assms(2)] by blast
  note sc = same_contentD [OF assms d'(2)]
  have "entries d' \<noteq> []" using False sc(3) dictSize_entries [OF sc(1)] by (auto simp: dictSize_def)
  then have "ht_size (ht0 d') \<noteq> 0"
    using dict_inv_no_table [OF sc(1)] by blast
  then obtain r where r: "tables_find T d' k = Some r"
    "case r of None \<Rightarrow> dict_map T d' k = None | Some x \<Rightarrow> ref_ok T d' k x"
    using tables_find_correct [OF assms(1) sc(1), of k] by blast
  have run: "dictFind T d k = Some (d', r)" using d'(1) r(1) unfolding dictFind_def if_not_P [OF False] by simp
  show ?thesis
  proof (cases r)
    case None
    then show ?thesis using run r(2) d'(2) sc(2) by simp
  next
    case (Some x)
    obtain t i j where "x = (t, i, j)" by (cases x)
    then show ?thesis
      using run r(2) d'(2) sc Some dict_map_Some_entry [OF assms(1) sc(1), of k t i j] by auto
  qed
qed

lemma dictFetchValue_correct:
  assumes "dict_type_ok T" "dict_inv T d"
  shows "\<exists>d'. dictFetchValue T d k = Some (d', dict_map T d k) \<and> same_content T d d'"
proof -
  obtain d' r where r: "dictFind T d k = Some (d', r)" "same_content T d d'"
    "case r of None \<Rightarrow> dict_map T d k = None
     | Some x \<Rightarrow> ref_ok T d' k x \<and> (\<exists>e. entry_at d' x = Some e \<and> dict_map T d k = Some (snd e) \<and> keyEq T k (fst e))"
    using dictFind_correct [OF assms, of k] by blast
  then show ?thesis by (cases r) (auto simp: dictFetchValue_def)
qed

lemma dictReplace_correct:
  assumes "dict_type_ok T" "dict_inv T d" "dictSize d < 2 ^ 30"
  shows "\<exists>d' evs. dictReplace T c junk d k v = Some (d', dict_map T d k = None, evs) \<and> dict_inv T d' \<and>
    dict_map T d' = map_upd (keyEq T) (dict_map T d) k (dictStoredVal T v) \<and>
    dictSize d' = (if dict_map T d k = None then Suc (dictSize d) else dictSize d) \<and>
    evs = (case dict_map T d k of None \<Rightarrow> [] | Some y \<Rightarrow> if valDestructor T then [FreeVal y] else [])"
proof -
  obtain d1 where d1: "dictAdd T c junk d k v = Some (d1, dict_map T d k = None)" "dict_inv T d1"
    "dict_map T d1 = (if dict_map T d k = None
      then map_upd (keyEq T) (dict_map T d) k (dictStoredVal T v) else dict_map T d)"
    "dictSize d1 = (if dict_map T d k = None then Suc (dictSize d) else dictSize d)"
    using dictAdd_correct [OF assms, of c junk k v] by blast
  show ?thesis
  proof (cases "dict_map T d k")
    case None
    then show ?thesis using d1 by (simp add: dictReplace_def)
  next
    case (Some y)
    then have m: "dict_map T d1 = dict_map T d" using d1(3) by simp
    obtain d2 r where r: "dictFind T d1 k = Some (d2, r)" "same_content T d1 d2"
      "case r of None \<Rightarrow> dict_map T d1 k = None
       | Some x \<Rightarrow> ref_ok T d2 k x \<and> (\<exists>e. entry_at d2 x = Some e \<and> dict_map T d1 k = Some (snd e) \<and> keyEq T k (fst e))"
      using dictFind_correct [OF assms(1) d1(2), of k] by blast
    then obtain t i j e where x: "r = Some (t, i, j)" "ref_ok T d2 k (t, i, j)" "entry_at d2 (t, i, j) = Some e"
      "snd e = y" using Some m by (cases r) auto
    note sc = same_contentD [OF assms(1) d1(2) r(2)]
    obtain d3 M where d3: "dictSetVal T d2 (t, i, j) v = Some d3" "dict_inv T d3"
      "mset (entries d2) = add_mset e M" "mset (entries d3) = add_mset (fst e, dictStoredVal T v) M"
      "keyEq T k (fst e)"
      using dictSetVal_correct [OF assms(1) sc(1) x(2,3), of v] by blast
    have "dict_map T d3 = map_upd (keyEq T) (dict_map T d2) k (dictStoredVal T v)"
      using alookup_assign(2) [OF assms(1) dict_invD(3) [OF sc(1)] d3(5) d3(3,4)] by (simp add: dict_map_def)
    moreover have "length (entries d3) = length (entries d2)"
      using d3(3,4) by (metis size_add_mset size_mset)
    ultimately show ?thesis
      using Some d1(1,4) r(1) x d3(1,2) sc m
      by (simp add: dictReplace_def dictFreeVal_def dictSize_entries [of T])
  qed
qed

lemma mset_chain_unlink:
  assumes "j < length c"
  shows "add_mset (c ! j) (mset (chain_unlink c j)) = mset c"
proof -
  have "mset c = mset (take j c @ c ! j # drop (Suc j) c)" using id_take_nth_drop [OF assms] by simp
  then show ?thesis by (simp add: chain_unlink_def)
qed

lemma set_chain_unlink: "set (chain_unlink c j) \<subseteq> set c"
  by (auto simp: chain_unlink_def dest: in_set_takeD in_set_dropD)

lemma dictGenericDelete_correct:
  assumes "dict_type_ok T" "dict_inv T d"
  shows "\<exists>d' evs. dictGenericDelete T d k nofree = Some (d', dict_map T d k \<noteq> None, evs) \<and> dict_inv T d' \<and>
    dict_map T d' = map_del (keyEq T) (dict_map T d) k \<and>
    (if dict_map T d k = None then evs = [] \<and> mset (entries d') = mset (entries d)
     else \<exists>e. keyEq T k (fst e) \<and> mset (entries d) = add_mset e (mset (entries d')) \<and>
       evs = (if nofree then [] else dictFreeKey T e @ dictFreeVal T e))"
proof (cases "ht_size (ht0 d) = 0")
  case True
  then have "entries d = []" by (rule dict_inv_no_table [OF assms(2)])
  then show ?thesis
    using True assms(2) by (auto simp: dictGenericDelete_def dict_map_def alookup_def map_del_def)
next
  case False
  obtain d1 where d1: "rehash_step_if T d = Some d1" "same_content T d d1"
    using rehash_step_if_content [OF assms(2)] by blast
  note sc = same_contentD [OF assms d1(2)]
  have m: "mset (entries d1) = mset (entries d)" using d1(2) by (simp add: same_content_def)
  have nz: "ht_size (ht0 d1) \<noteq> 0"
    using rehash_step_size [OF assms(2) False d1(1)] .
  obtain r where r: "tables_find T d1 k = Some r"
    "case r of None \<Rightarrow> dict_map T d1 k = None | Some x \<Rightarrow> ref_ok T d1 k x"
    using tables_find_correct [OF assms(1) sc(1) nz, of k] by blast
  show ?thesis
  proof (cases r)
    case None
    have eqv: "dict_map T d k = None" using None r(2) sc(2) by simp
    then show ?thesis
      using map_del_absent [OF assms(1) eqv] None r(1) d1(1) False sc m eqv by (simp add: dictGenericDelete_def)
  next
    case (Some x)
    obtain t i j where x: "x = (t, i, j)" by (cases x)
    then have ref: "ref_ok T d1 k (t, i, j)" using r(2) Some by simp
    let ?h = "htab d1 t" let ?c = "ht_table (htab d1 t) ! i"
    define e where "e = ?c ! j"
    have b: "t \<le> 1" "i < ht_size ?h" "j < length ?c" "keyEq T k (fst e)"
      using ref by (auto simp: ref_ok_def e_def)
    obtain M where M: "mset (entries d1) = add_mset e M"
      "\<And>b u. mset (entries (htab_upd d1 t (?h\<lparr>ht_table := (ht_table ?h)[i := b], ht_used := u\<rparr>))) + mset ?c =
        mset b + add_mset e M"
      using ref_entries(2) [OF sc(1) ref] unfolding e_def by blast
    define d' where "d' = htab_upd d1 t (?h\<lparr>ht_table := (ht_table ?h)[i := chain_unlink ?c j], ht_used := ht_used ?h - 1\<rparr>)"
    have inv: "ht_inv T ?h" using dict_invD(4) [OF sc(1)] .
    have "mset (entries d') + mset ?c = M + mset ?c"
      using M(2) [where b = "chain_unlink ?c j" and u = "ht_used ?h - 1"] mset_chain_unlink [OF b(3)]
      unfolding d'_def e_def by (metis union_commute union_mset_add_mset_left union_mset_add_mset_right)
    then have ent: "mset (entries d') = M" by simp
    note rm = alookup_remove [OF assms(1) dict_invD(3) [OF sc(1)] b(4), of "entries d'", unfolded ent, OF M(1)]
    have len: "length ?c = Suc (length (chain_unlink ?c j))"
      using mset_chain_unlink [OF b(3)] by (metis size_add_mset size_mset)
    have "length ?c \<le> ht_used ?h"
      using length_concat_update [of i "ht_table ?h" "[]"] ht_inv_used [OF inv] inv b(2)
      by (simp add: ht_entries_def)
    then have "dict_inv T d'"
      unfolding d'_def
    proof (intro dict_inv_put)
      show "\<forall>y \<in> set (chain_unlink ?c j). dictHashKey T (fst y) AND ht_sizemask ?h = i"
        using ht_inv_hash [OF inv b(2)] set_chain_unlink [of ?c j] by (meson subsetD)
      show "uniq T (entries (htab_upd d1 t (?h\<lparr>ht_table := (ht_table ?h)[i := chain_unlink ?c j], ht_used := ht_used ?h - 1\<rparr>)))"
        using rm(1) unfolding d'_def .
    qed (use sc(1) b len in auto)
    moreover have "dictGenericDelete T d k nofree =
        Some (d', True, if nofree then [] else dictFreeKey T e @ dictFreeVal T e)"
      using False d1(1) r(1) Some x b inv by (simp add: dictGenericDelete_def d'_def e_def Let_def)
    ultimately show ?thesis
      using rm(2,3) sc(2) M(1) m ent b(4) by (cases e) (auto simp: dict_map_def)
  qed
qed

text \<open>Clearing calls the destructors of every entry, table by table and in bucket order.\<close>

definition free_all :: "('k, 'v) dictType \<Rightarrow> ('k \<times> 'v) list \<Rightarrow> ('k, 'v) free_event list" where
  "free_all T es = concat (map (\<lambda>he. dictFreeKey T he @ dictFreeVal T he) es)"

lemma clear_loop_correct:
  assumes "length (ht_table h) = ht_size h" "used = length (concat (drop i (ht_table h)))"
  shows "clear_loop T h i used = Some (free_all T (concat (drop i (ht_table h))))"
  using assms
proof (induction T h i used rule: clear_loop.induct)
  case (1 T h i used)
  show ?case
  proof (cases "i < ht_size h \<and> 0 < used")
    case True
    then have d: "drop i (ht_table h) = ht_table h ! i # drop (Suc i) (ht_table h)"
      using 1(2) by (simp add: Cons_nth_drop_Suc)
    have "clear_loop T h (i + 1) (used - length (ht_table h ! i)) = Some (free_all T (concat (drop (i + 1) (ht_table h))))"
      using 1(1) [OF True] 1(2,3) True d by simp
    then show ?thesis using True 1(2) d by (subst clear_loop.simps) (simp add: free_all_def)
  next
    case False
    then have "concat (drop i (ht_table h)) = []" using 1(2,3) by auto
    then show ?thesis using False by (subst clear_loop.simps) (auto simp: free_all_def)
  qed
qed

lemma dictClear_correct: "ht_inv T h \<Longrightarrow> dictClear T h = Some (dictReset, free_all T (ht_entries h))"
  using clear_loop_correct [of h "ht_used h" 0 T] ht_inv_used [of T h]
  by (simp add: dictClear_def ht_entries_def)

lemma dictEmpty_correct:
  "dict_inv T d \<Longrightarrow> dictEmpty T d = Some (dictCreate, free_all T (entries d))"
  using dictClear_correct [of T "ht0 d"] dictClear_correct [of T "ht1 d"] dict_invD(1,2) [of T d]
  by (cases d) (simp add: dictEmpty_def dictCreate_def entries_def free_all_def)

section \<open>The server's use of a dictionary as a map\<close>

text \<open>The state is the dictionary and the global \<open>dict_can_resize\<close>.\<close>

type_synonym ('k, 'v) dict_state = "('k, 'v) dict \<times> bool"

datatype dict_cmd = CResize | CRehash nat | CEnableResize | CDisableResize

definition dictEnableResize :: "('k, 'v) dict_state \<Rightarrow> ('k, 'v) dict_state" where
  "dictEnableResize s = (fst s, True)"

definition dictDisableResize :: "('k, 'v) dict_state \<Rightarrow> ('k, 'v) dict_state" where
  "dictDisableResize s = (fst s, False)"

fun run_dict_op ::
  "('k, 'v) dictType \<Rightarrow> 'v \<Rightarrow> ('k, 'v) dict_state \<Rightarrow> ('k, 'v, dict_cmd) map_op \<Rightarrow>
   (('k, 'v) dict_state \<times> 'v map_reply) option" where
  "run_dict_op T junk (d, c) (MAdd k v) = do { (d, r) \<leftarrow> dictAdd T c junk d k v; Some ((d, c), Done r) }"
| "run_dict_op T junk (d, c) (MReplace k v) = do { (d, r, evs) \<leftarrow> dictReplace T c junk d k v; Some ((d, c), Done r) }"
| "run_dict_op T junk (d, c) (MDelete k) = do { (d, r, evs) \<leftarrow> dictDelete T d k; Some ((d, c), Done r) }"
| "run_dict_op T junk (d, c) (MFind k) = do { (d, v) \<leftarrow> dictFetchValue T d k; Some ((d, c), Found v) }"
| "run_dict_op T junk (d, c) (MHousekeep CResize) = Some ((fst (dictResize c d), c), Done True)"
| "run_dict_op T junk (d, c) (MHousekeep (CRehash n)) = do { (d, r) \<leftarrow> dictRehash T d n; Some ((d, c), Done True) }"
| "run_dict_op T junk s (MHousekeep CEnableResize) = Some (dictEnableResize s, Done True)"
| "run_dict_op T junk s (MHousekeep CDisableResize) = Some (dictDisableResize s, Done True)"

lemma run_dict_op_refines:
  assumes ok: "dict_type_ok T" and "dict_inv T (fst s)" "dictSize (fst s) < 2 ^ 30"
  shows "\<exists>s'. run_dict_op T junk s x = Some (s', snd (spec_map_op (keyEq T) (dictStoredVal T) (dict_map T (fst s)) x)) \<and>
    dict_inv T (fst s') \<and> dict_map T (fst s') = fst (spec_map_op (keyEq T) (dictStoredVal T) (dict_map T (fst s)) x) \<and>
    dictSize (fst s') \<le> Suc (dictSize (fst s))"
proof -
  obtain d c where s: "s = (d, c)" by (cases s)
  have inv: "dict_inv T d" "dictSize d < 2 ^ 30" using assms s by auto
  show ?thesis
  proof (cases x)
    case (MAdd k v)
    then show ?thesis using dictAdd_correct [OF ok inv, of c junk k v] s by auto
  next
    case (MReplace k v)
    then show ?thesis using dictReplace_correct [OF ok inv, of c junk k v] s by auto
  next
    case (MDelete k)
    obtain d' evs where d': "dictGenericDelete T d k False = Some (d', dict_map T d k \<noteq> None, evs)" "dict_inv T d'"
      "dict_map T d' = map_del (keyEq T) (dict_map T d) k"
      "if dict_map T d k = None then evs = [] \<and> mset (entries d') = mset (entries d)
       else \<exists>e. keyEq T k (fst e) \<and> mset (entries d) = add_mset e (mset (entries d')) \<and>
         evs = (if False then [] else dictFreeKey T e @ dictFreeVal T e)"
      using dictGenericDelete_correct [OF ok inv(1), of k False] by blast
    have "size (mset (entries d')) \<le> Suc (size (mset (entries d)))"
      using d'(4) by (cases "dict_map T d k") (auto dest: arg_cong [of _ _ size])
    then show ?thesis
      using MDelete s d' inv(1) by (auto simp: dictDelete_def dictSize_entries [of T])
  next
    case (MFind k)
    then show ?thesis
      using dictFetchValue_correct [OF ok inv(1), of k] same_contentD [OF ok inv(1)] s by fastforce
  next
    case (MHousekeep cmd)
    have "ht_used (ht0 d) < 2 ^ 31" using inv(2) by (simp add: dictSize_def)
    then have r: "same_content T d (fst (dictResize c d))" by (rule dictResize_content [OF inv(1)])
    show ?thesis
    proof (cases cmd)
      case CResize
      then show ?thesis using r same_contentD [OF ok inv(1) r] MHousekeep s by simp
    next
      case (CRehash n)
      then show ?thesis
        using dictRehash_content [OF inv(1), of n] same_contentD [OF ok inv(1)] MHousekeep s by fastforce
    qed (use MHousekeep s inv in \<open>simp_all add: dictEnableResize_def dictDisableResize_def\<close>)
  qed
qed

interpretation dict_store: map_store "keyEq T" "dictStoredVal T" "\<lambda>s. dict_type_ok T \<and> dict_inv T (fst s)"
  "\<lambda>s. dict_map T (fst s)" "\<lambda>s. dictSize (fst s)" "2 ^ 30" "run_dict_op T junk" for T :: "('k, 'v) dictType" and junk
proof unfold_locales
  fix s :: "('k, 'v) dict_state" and x
  assume "dict_type_ok T \<and> dict_inv T (fst s)" "dictSize (fst s) < 2 ^ 30"
  then show "\<exists>s'. run_dict_op T junk s x =
      Some (s', snd (spec_map_op (keyEq T) (dictStoredVal T) (dict_map T (fst s)) x)) \<and>
    (dict_type_ok T \<and> dict_inv T (fst s')) \<and>
    dict_map T (fst s') = fst (spec_map_op (keyEq T) (dictStoredVal T) (dict_map T (fst s)) x) \<and>
    dictSize (fst s') \<le> Suc (dictSize (fst s))"
    using run_dict_op_refines [of T s junk x] by simp
qed

section \<open>Rehashing ends\<close>

lemma rehash_ms_terminates:
  assumes "dict_inv T d" "\<not> dictIsRehashing d \<or> nat (int (ht_size (ht0 d)) - rehashidx d) \<le> length over"
  shows "\<exists>d' r'. dictRehashMilliseconds T d over r = Some (d', r') \<and> same_content T d d' \<and>
    (True \<notin> set over \<longrightarrow> \<not> dictIsRehashing d')"
  using assms
proof (induction over arbitrary: d r)
  case Nil
  obtain d' more where d': "dictRehash T d 100 = Some (d', more)" "same_content T d d'" "more = dictIsRehashing d'"
    "more \<longrightarrow> ht_size (ht0 d') = ht_size (ht0 d) \<and> rehashidx d < rehashidx d'"
    using dictRehash_content [OF Nil(1), of 100] by auto
  have "\<not> more"
  proof
    assume more: more
    have "dict_inv T d'" using d'(2) by (simp add: same_content_def)
    then have "nat (rehashidx d') \<le> ht_size (ht0 d)" using dict_invD(6) [of T d'] d'(3,4) more by auto
    moreover have "dictIsRehashing d"
      using d'(1) more by (auto simp: dictRehash_def split: if_splits)
    ultimately show False using Nil(2) d'(4) more by auto
  qed
  then show ?case using d' by auto
next
  case (Cons x xs)
  obtain d' more where d': "dictRehash T d 100 = Some (d', more)" "same_content T d d'" "more = dictIsRehashing d'"
    "more \<longrightarrow> ht_size (ht0 d') = ht_size (ht0 d) \<and> rehashidx d < rehashidx d'"
    using dictRehash_content [OF Cons(2), of 100] by auto
  have inv: "dict_inv T d'" using d'(2) by (simp add: same_content_def)
  show ?case
  proof (cases "more \<and> \<not> x")
    case True
    then have "dictIsRehashing d" using d'(1) by (auto simp: dictRehash_def split: if_splits)
    then have "nat (int (ht_size (ht0 d')) - rehashidx d') \<le> length xs"
      using Cons(3) d'(4) True by auto
    then obtain d'' r'' where "dictRehashMilliseconds T d' xs (r + 100) = Some (d'', r'')" "same_content T d' d''"
      "True \<notin> set xs \<longrightarrow> \<not> dictIsRehashing d''"
      using Cons(1) [OF inv] by blast
    then show ?thesis using True d'(1,2) by (auto simp: same_content_def)
  next
    case False
    then show ?thesis using d' by auto
  qed
qed

section \<open>Properties\<close>

text \<open>A concrete type of dictionary for the witnesses: keys are numbers and hash to themselves.\<close>

definition nat_dict_type :: "(nat, nat) dictType" where
  "nat_dict_type = \<lparr>hashFunction = word_of_nat, keyDup = None, valDup = None, keyCompare = None,
     keyDestructor = True, valDestructor = True\<rparr>"

lemma nat_dict_type_ok: "dict_type_ok nat_dict_type"
  unfolding dict_type_ok_def keyEq_def dictCompareKeys_def dictSetKey_def nat_dict_type_def
  by (auto intro: equivpI reflpI sympI transpI)

text \<open>Checking a concrete table bucket by bucket.\<close>

lemma ht_invI:
  assumes "2 \<le> n" "n \<le> 31" "ht_size h = 2 ^ n" "length (ht_table h) = ht_size h"
    "ht_sizemask h = ht_size h - 1" "ht_used h = length (ht_entries h)"
    "list_all (\<lambda>(i, es). list_all (\<lambda>e. dictHashKey T (fst e) AND ht_sizemask h = i) es) (enumerate 0 (ht_table h))"
  shows "ht_inv T h"
proof -
  have "dictHashKey T (fst e) AND ht_sizemask h = i" if "i < ht_size h" "e \<in> set (ht_table h ! i)" for i e
  proof -
    have "(i, ht_table h ! i) \<in> set (enumerate 0 (ht_table h))"
      using that(1) assms(4) by (auto simp: in_set_enumerate_eq)
    then show ?thesis using assms(7) that(2) by (auto simp: list_all_iff)
  qed
  then show ?thesis using assms unfolding ht_inv_def by blast
qed

definition nat_dict_example :: "(nat, nat) dict" where
  "nat_dict_example = \<lparr>
     ht0 = \<lparr>ht_table = [[], [], [(2, 20)], [(7, 70), (3, 30)]], ht_size = 4, ht_sizemask = 3, ht_used = 3\<rparr>,
     ht1 = \<lparr>ht_table = [[], [(1, 10)], [], [], [(4, 40)], [], [], []], ht_size = 8, ht_sizemask = 7, ht_used = 2\<rparr>,
     rehashidx = 2, iterators = 0\<rparr>"

lemma nat_dict_example_inv: "dict_inv nat_dict_type nat_dict_example"
proof -
  have k: "kclass nat_dict_type k = {k}" for k
    by (auto simp: kclass_def keyEq_def dictCompareKeys_def nat_dict_type_def)
  have h: "dictHashKey nat_dict_type k = k" if "k < 2 ^ 32" for k
    using that by (simp add: dictHashKey_def nat_dict_type_def unat_of_nat)
  have "ht_inv nat_dict_type (ht0 nat_dict_example)"
    by (rule ht_invI [of 2]) (simp_all add: nat_dict_example_def ht_entries_def h)
  moreover have "ht_inv nat_dict_type (ht1 nat_dict_example)"
    by (rule ht_invI [of 3]) (simp_all add: nat_dict_example_def ht_entries_def h)
  moreover have "uniq nat_dict_type (entries nat_dict_example)"
    by (simp add: nat_dict_example_def uniq_def entries_def ht_entries_def k)
  moreover have "ht_table (ht0 nat_dict_example) ! i = []" if "i < 2" for i
    using that by (auto simp: nat_dict_example_def less_2_cases_iff)
  ultimately show ?thesis by (simp add: dict_inv_def) (simp add: nat_dict_example_def)
qed

text \<open>C5: any sequence of \<open>dictAdd\<close>, \<open>dictReplace\<close>, \<open>dictDelete\<close> and \<open>dictFetchValue\<close> on a new
  dictionary, interleaved in any way with \<open>dictResize\<close>, \<open>dictRehash\<close> and switching resizes on
  and off, is free of memory faults and failed asserts, answers exactly like a finite map whose
  keys are compared by the type's callback, and ends in a well-formed dictionary that holds
  that map, provided the callbacks are a congruence and fewer than \<open>2 ^ 30\<close> operations are run.\<close>

theorem dict_trace_refines:
  assumes "dict_type_ok T" "length xs \<le> 2 ^ 30"
  shows "\<exists>s'. run_ops (run_dict_op T junk) (dictCreate, can_resize) xs =
      Some (s', snd (spec_map_ops (keyEq T) (dictStoredVal T) (\<lambda>_. None) xs)) \<and>
    dict_inv T (fst s') \<and>
    dict_map T (fst s') = fst (spec_map_ops (keyEq T) (dictStoredVal T) (\<lambda>_. None) xs)"
proof -
  have "dict_map T dictCreate = (\<lambda>_. None)"
    by (rule ext) (simp add: dict_map_def dictCreate_def entries_def alookup_def)
  moreover have "dictSize dictCreate + length xs \<le> 2 ^ 30" using assms(2) by (simp add: dictSize_def dictCreate_def)
  ultimately show ?thesis
    using dict_store.trace_refines [of T "(dictCreate, can_resize)" xs junk] assms(1) dict_inv_create [of T] by simp
qed

theorem dict_trace_refines_witness:
  "dict_type_ok nat_dict_type \<and>
   (\<exists>s'. run_ops (run_dict_op nat_dict_type 0) (dictCreate, True)
     [MAdd 1 10, MAdd 5 50, MAdd 1 11, MReplace 5 55, MDelete 1, MFind 1, MFind 5] =
    Some (s', [Done True, Done True, Done False, Done False, Done True, Found None, Found (Some 55)]))"
proof -
  let ?xs = "[MAdd 1 10, MAdd 5 50, MAdd 1 11, MReplace 5 55, MDelete 1, MFind 1, MFind 5]
    :: (nat, nat, dict_cmd) map_op list"
  have "snd (spec_map_ops (keyEq nat_dict_type) (dictStoredVal nat_dict_type) (\<lambda>_. None) ?xs) =
    [Done True, Done True, Done False, Done False, Done True, Found None, Found (Some 55)]"
    by (simp add: map_upd_def map_del_def keyEq_def dictCompareKeys_def dictStoredVal_def nat_dict_type_def)
  then show ?thesis
    using dict_trace_refines [OF nat_dict_type_ok, of ?xs 0 True] nat_dict_type_ok by auto
qed

text \<open>C22: \<open>dictRehashMilliseconds\<close> returns (the clock need not be read more often than the old
  table has buckets) and only moves entries: the map and the size stay the same, and if the
  time was never over the rehash is complete.\<close>

theorem dictRehashMilliseconds_completes:
  assumes "dict_type_ok T" "dict_inv T d" "ht_size (ht0 d) \<le> length over"
  shows "\<exists>d' r. dictRehashMilliseconds T d over 0 = Some (d', r) \<and> dict_inv T d' \<and>
    dict_map T d' = dict_map T d \<and> dictSize d' = dictSize d \<and>
    (True \<notin> set over \<longrightarrow> \<not> dictIsRehashing d')"
proof -
  have "\<not> dictIsRehashing d \<or> nat (int (ht_size (ht0 d)) - rehashidx d) \<le> length over"
    using assms(3) dict_invD(6) [OF assms(2)] by auto
  then show ?thesis
    using rehash_ms_terminates [OF assms(2), of over 0] same_contentD [OF assms(1,2)] by blast
qed

theorem dictRehashMilliseconds_completes_witness:
  "dict_inv nat_dict_type nat_dict_example \<and> dictIsRehashing nat_dict_example \<and>
   (\<exists>d' r. dictRehashMilliseconds nat_dict_type nat_dict_example [False, False, False, False] 0 = Some (d', r) \<and>
     dictSize d' = 5 \<and> \<not> dictIsRehashing d')"
  using dictRehashMilliseconds_completes [OF nat_dict_type_ok nat_dict_example_inv, of "[False, False, False, False]"]
    nat_dict_example_inv
  by (auto simp: nat_dict_example_def dictSize_def dictIsRehashing_def)

text \<open>C23: \<open>dictGenericDelete\<close> succeeds exactly if the key is stored, removes exactly one entry
  with an equal key from the map, and hands that entry's key and value, and nothing else, to the
  destructors (nothing at all for \<open>dictDeleteNoFree\<close>).\<close>

theorem dictDelete_exact:
  assumes "dict_type_ok T" "dict_inv T d"
  shows "\<exists>d' evs. dictGenericDelete T d k nofree = Some (d', dict_map T d k \<noteq> None, evs) \<and> dict_inv T d' \<and>
    dict_map T d' = map_del (keyEq T) (dict_map T d) k \<and>
    (if dict_map T d k = None then evs = [] \<and> mset (entries d') = mset (entries d)
     else \<exists>e. keyEq T k (fst e) \<and> mset (entries d) = add_mset e (mset (entries d')) \<and>
       evs = (if nofree then [] else dictFreeKey T e @ dictFreeVal T e))"
  by (rule dictGenericDelete_correct [OF assms])

theorem dictDelete_exact_witness:
  "dict_map nat_dict_type nat_dict_example 3 = Some 30 \<and>
   (\<exists>d' evs. dictGenericDelete nat_dict_type nat_dict_example 3 False = Some (d', True, evs) \<and>
     dict_map nat_dict_type d' 3 = None \<and> dict_map nat_dict_type d' 7 = Some 70)"
proof -
  have m: "dict_map nat_dict_type nat_dict_example 3 = Some 30" "dict_map nat_dict_type nat_dict_example 7 = Some 70"
    by (simp_all add: dict_map_def alookup_def entries_def ht_entries_def nat_dict_example_def
        keyEq_def dictCompareKeys_def nat_dict_type_def)
  have k: "keyEq nat_dict_type 3 3" "\<not> keyEq nat_dict_type 3 7"
    by (simp_all add: keyEq_def dictCompareKeys_def nat_dict_type_def)
  show ?thesis
    using dictDelete_exact [OF nat_dict_type_ok nat_dict_example_inv, of 3 False] m k by (auto simp: map_del_def)
qed

text \<open>C24: \<open>dictReplace\<close> stores the (duplicated) value under the key whether or not the key was
  there, reports whether it was new, and destroys the old value, after the new one has been
  stored, exactly if there was one; \<open>dictEmpty\<close> returns the initial state and destroys every
  key and value once.\<close>

theorem dictReplace_dictEmpty_exact:
  assumes "dict_type_ok T" "dict_inv T d" "dictSize d < 2 ^ 30"
  shows "(\<exists>d' evs. dictReplace T c junk d k v = Some (d', dict_map T d k = None, evs) \<and> dict_inv T d' \<and>
      dict_map T d' = map_upd (keyEq T) (dict_map T d) k (dictStoredVal T v) \<and>
      dictSize d' = (if dict_map T d k = None then Suc (dictSize d) else dictSize d) \<and>
      evs = (case dict_map T d k of None \<Rightarrow> [] | Some y \<Rightarrow> if valDestructor T then [FreeVal y] else [])) \<and>
    dictEmpty T d = Some (dictCreate, free_all T (entries d))"
  using dictReplace_correct [OF assms] dictEmpty_correct [OF assms(2)] by simp

theorem dictReplace_dictEmpty_exact_witness:
  "(\<exists>d' evs. dictReplace nat_dict_type True 0 nat_dict_example 3 33 = Some (d', False, evs) \<and>
     dict_map nat_dict_type d' 3 = Some 33 \<and> dictSize d' = 5 \<and> evs = [FreeVal 30]) \<and>
   dictEmpty nat_dict_type nat_dict_example =
     Some (dictCreate, [FreeKey 2, FreeVal 20, FreeKey 7, FreeVal 70, FreeKey 3, FreeVal 30,
       FreeKey 1, FreeVal 10, FreeKey 4, FreeVal 40])"
proof -
  have m: "dict_map nat_dict_type nat_dict_example 3 = Some 30"
    by (simp add: dict_map_def alookup_def entries_def ht_entries_def nat_dict_example_def
        keyEq_def dictCompareKeys_def nat_dict_type_def)
  have k: "keyEq nat_dict_type 3 3" "valDestructor nat_dict_type" "dictStoredVal nat_dict_type 33 = 33"
    "dictSize nat_dict_example = 5"
    by (simp_all add: keyEq_def dictCompareKeys_def dictStoredVal_def dictSize_def nat_dict_type_def nat_dict_example_def)
  have f: "free_all nat_dict_type (entries nat_dict_example) =
      [FreeKey 2, FreeVal 20, FreeKey 7, FreeVal 70, FreeKey 3, FreeVal 30, FreeKey 1, FreeVal 10, FreeKey 4, FreeVal 40]"
    by (simp add: free_all_def entries_def ht_entries_def nat_dict_example_def nat_dict_type_def
        dictFreeKey_def dictFreeVal_def)
  show ?thesis
    using dictReplace_dictEmpty_exact [OF nat_dict_type_ok nat_dict_example_inv, of True 0 3 33] m k f
    by (auto simp: map_upd_def)
qed

end
