(* ===== verification/Dict_Scan.thy ===== *)
theory Dict_Scan
  imports Dict_Map
begin

text \<open>
  The cursor of \<open>dictScan\<close> (\<^verbatim>\<open>dict.c\<close>), the stateless iteration behind SCAN.  The
  cursor is incremented from its high bits down, so an iteration survives a resize.  The
  theory proves the documented guarantee (an element present during the whole iteration is
  returned) for any sequence of well-formed tables, under a side condition on the cursor, and
  shows that without the side condition the guarantee fails: a call that finds the table
  shrinking can skip buckets for good.
\<close>

section \<open>The code\<close>

function rev_loop :: "nat \<Rightarrow> 64 word \<Rightarrow> 64 word \<Rightarrow> 64 word" where
  "rev_loop s m v =
     (let s = drop_bit 1 s in
      if s > 0 then
        let m = m XOR push_bit s m in
        rev_loop s m ((drop_bit s v AND m) OR (push_bit s v AND NOT m))
      else v)"
  by pat_completeness auto
termination by (relation "measure fst") (auto simp: drop_bit_eq_div)

declare rev_loop.simps [simp del]

definition dict_rev :: "64 word \<Rightarrow> 64 word" where
  "dict_rev v = rev_loop 64 (NOT 0) v"

text \<open>The loop over the expansions of the cursor in the larger table.  Each round increments
  the bits above the smaller mask, so the size of the larger table is fuel enough.\<close>

fun scan_expand ::
  "nat \<Rightarrow> ('k \<times> 'v) list list \<Rightarrow> 64 word \<Rightarrow> 64 word \<Rightarrow> 64 word \<Rightarrow> (('k \<times> 'v) list \<times> 64 word) option" where
  "scan_expand 0 tab m0 m1 v = None"
| "scan_expand (Suc f) tab m0 m1 v = do {
     de \<leftarrow> arr_get tab (unat (v AND m1));
     let v = (((v OR m0) + 1) AND NOT m0) OR (v AND m0);
     if v AND (m0 XOR m1) \<noteq> 0 then do {
       (es, v) \<leftarrow> scan_expand f tab m0 m1 v;
       Some (de @ es, v)
     } else Some (de, v)
   }"

definition scan_next :: "64 word \<Rightarrow> 64 word \<Rightarrow> 64 word" where
  "scan_next m0 v = dict_rev (dict_rev (v OR NOT m0) + 1)"

text \<open>The smaller and the larger table of a rehash, as the code picks them.\<close>

definition scan_tables :: "('k, 'v) dict \<Rightarrow> ('k, 'v) dictht \<times> ('k, 'v) dictht" where
  "scan_tables d = (if ht_size (ht0 d) > ht_size (ht1 d) then (ht1 d, ht0 d) else (ht0 d, ht1 d))"

text \<open>\<open>dictScan\<close>: the entries passed to the callback, and the next cursor.\<close>

definition dictScan :: "('k, 'v) dict \<Rightarrow> 64 word \<Rightarrow> (('k \<times> 'v) list \<times> 64 word) option" where
  "dictScan d v =
     (if dictSize d = 0 then Some ([], 0)
      else if \<not> dictIsRehashing d then do {
        let m0 = word_of_nat (ht_sizemask (ht0 d));
        de \<leftarrow> arr_get (ht_table (ht0 d)) (unat (v AND m0));
        Some (de, scan_next m0 v)
      } else do {
        let (t0, t1) = scan_tables d;
        let m0 = word_of_nat (ht_sizemask t0);
        let m1 = word_of_nat (ht_sizemask t1);
        de \<leftarrow> arr_get (ht_table t0) (unat (v AND m0));
        (es, v) \<leftarrow> scan_expand (ht_size t1) (ht_table t1) m0 m1 v;
        Some (de @ es, scan_next m0 v)
      })"

section \<open>Bit reversal\<close>

definition rev_stage :: "nat \<Rightarrow> 64 word \<Rightarrow> 64 word \<Rightarrow> 64 word" where
  "rev_stage s m v = (drop_bit s v AND m) OR (push_bit s v AND NOT m)"

lemma rev_loop_step:
  "s > 0 \<Longrightarrow> m' = m XOR push_bit s m \<Longrightarrow> rev_loop (2 * s) m v = rev_loop s m' (rev_stage s m' v)"
  by (subst rev_loop.simps) (simp add: drop_bit_eq_div rev_stage_def Let_def)

lemma rev_loop_end: "rev_loop 1 m v = v"
  by (subst rev_loop.simps) (simp add: drop_bit_eq_div Let_def)

lemma bit_rev_stage:
  "bit (rev_stage s m v) n = (if bit m n then bit v (n + s) else s \<le> n \<and> n < 64 \<and> bit v (n - s))"
  by (auto simp: rev_stage_def bit_simps ac_simps dest: bit_imp_le_length)

lemma dict_rev_stages: "dict_rev v =
  rev_stage 1 0x5555555555555555 (rev_stage 2 0x3333333333333333 (rev_stage 4 0x0F0F0F0F0F0F0F0F
   (rev_stage 8 0x00FF00FF00FF00FF (rev_stage 16 0x0000FFFF0000FFFF (rev_stage 32 0x00000000FFFFFFFF v)))))"
proof -
  have "mask 32 = (4294967295 :: 64 word)" by (simp add: mask_eq_exp_minus_1)
  then show ?thesis
    unfolding dict_rev_def
    using rev_loop_step [of 32 "0x00000000FFFFFFFF" "NOT 0" v]
      rev_loop_step [of 16 "0x0000FFFF0000FFFF" "0x00000000FFFFFFFF"]
      rev_loop_step [of 8 "0x00FF00FF00FF00FF" "0x0000FFFF0000FFFF"]
      rev_loop_step [of 4 "0x0F0F0F0F0F0F0F0F" "0x00FF00FF00FF00FF"]
      rev_loop_step [of 2 "0x3333333333333333" "0x0F0F0F0F0F0F0F0F"]
      rev_loop_step [of 1 "0x5555555555555555" "0x3333333333333333"]
      rev_loop_end
    by simp
qed

text \<open>The six exchange steps evaluated at each of the 64 positions.\<close>

lemma dict_rev_positions: "list_all (\<lambda>n. bit (dict_rev v) n = bit v (63 - n))
   [0,1,2,3,4,5,6,7,8,9,10,11,12,13,14,15,16,17,18,19,20,21,22,23,24,25,26,27,28,29,30,31,
   32,33,34,35,36,37,38,39,40,41,42,43,44,45,46,47,48,49,50,51,52,53,54,55,56,57,58,59,60,61,62,63]"
  unfolding dict_rev_stages bit_rev_stage by simp

lemma positions_upt: "[0,1,2,3,4,5,6,7,8,9,10,11,12,13,14,15,16,17,18,19,20,21,22,23,24,25,26,27,28,29,30,31,
   32,33,34,35,36,37,38,39,40,41,42,43,44,45,46,47,48,49,50,51,52,53,54,55,56,57,58,59,60,61,62,63] = [0..<64::nat]"
  by (simp add: upt_rec)

lemma bit_dict_rev: "n < 64 \<Longrightarrow> bit (dict_rev v) n = bit v (63 - n)"
  using dict_rev_positions [of v] unfolding positions_upt by (simp add: list_all_iff)

lemma dict_rev_word_reverse: "dict_rev v = word_reverse v"
  by (rule bit_word_eqI) (simp add: bit_dict_rev bit_word_reverse_iff)

lemma dict_rev_rev [simp]: "dict_rev (dict_rev v) = v"
  by (rule bit_word_eqI) (simp add: bit_dict_rev)

section \<open>The cursor as a number\<close>

text \<open>The position of a cursor or a hash in the order of the iteration.\<close>

definition scan_pos :: "64 word \<Rightarrow> nat" where
  "scan_pos v = unat (dict_rev v)"

lemma scan_pos_inj: "scan_pos v = scan_pos w \<longleftrightarrow> v = w"
  unfolding scan_pos_def by (metis dict_rev_rev word_eq_iff_unsigned)

lemma scan_pos_less: "scan_pos v < 2 ^ 64"
  using unsigned_less [of "dict_rev v"] by (simp add: scan_pos_def)

lemma scan_pos_0 [simp]: "scan_pos 0 = 0"
proof -
  have "dict_rev 0 = 0" by (rule bit_word_eqI) (simp add: bit_dict_rev)
  then show ?thesis by (simp add: scan_pos_def)
qed

text \<open>Agreeing on the low \<open>k\<close> bits is being in the same block of the order.\<close>

lemma scan_pos_block:
  assumes "k \<le> 64"
  shows "scan_pos v div 2 ^ (64 - k) = scan_pos w div 2 ^ (64 - k) \<longleftrightarrow> take_bit k v = take_bit k w"
proof -
  have "scan_pos v div 2 ^ (64 - k) = scan_pos w div 2 ^ (64 - k) \<longleftrightarrow>
      drop_bit (64 - k) (dict_rev v) = drop_bit (64 - k) (dict_rev w)"
    by (simp only: scan_pos_def drop_bit_eq_div [symmetric] unat_drop_bit_eq [symmetric] word_eq_iff_unsigned [symmetric])
  also have "\<dots> \<longleftrightarrow> (\<forall>n < 64. bit (drop_bit (64 - k) (dict_rev v)) n = bit (drop_bit (64 - k) (dict_rev w)) n)"
    by (auto intro: bit_word_eqI)
  also have "\<dots> \<longleftrightarrow> (\<forall>n < k. bit v n = bit w n)"
  proof -
    have "bit (drop_bit (64 - k) (dict_rev x)) n \<longleftrightarrow> n < k \<and> bit x (k - 1 - n)" for x n
      using assms bit_dict_rev [of "64 - k + n" x] bit_imp_le_length [of "dict_rev x" "64 - k + n"]
      by (auto simp: bit_drop_bit_eq algebra_simps)
    moreover have "(\<forall>n < 64. n < k \<and> bit v (k - 1 - n) \<longleftrightarrow> n < k \<and> bit w (k - 1 - n)) \<longleftrightarrow> (\<forall>n < k. bit v n = bit w n)"
      (is "?l = ?r")
    proof
      assume l: ?l
      show ?r
      proof (intro allI impI)
        fix n assume "n < k"
        then show "bit v n = bit w n" using l [rule_format, of "k - 1 - n"] assms by auto
      qed
    qed auto
    ultimately show ?thesis by simp
  qed
  also have "\<dots> \<longleftrightarrow> take_bit k v = take_bit k w"
    using assms by (simp add: bit_eq_iff bit_take_bit_iff) (meson order_less_le_trans)
  finally show ?thesis .
qed

lemma or_mask_plus_1: "(n OR mask j) + 1 = (n div 2 ^ j + 1) * 2 ^ j" for n :: nat
proof -
  have "n OR mask j = push_bit j (drop_bit j n) OR mask j"
    by (rule bit_eqI) (auto simp: bit_simps)
  also have "\<dots> = push_bit j (drop_bit j n) + mask j"
    by (rule disjunctive_add [symmetric]) (auto simp: bit_simps)
  finally show ?thesis
    by (simp add: push_bit_eq_mult drop_bit_eq_div mask_eq_exp_minus_1 algebra_simps)
qed

lemma unat_mask: "j \<le> 64 \<Longrightarrow> unat (mask j :: 64 word) = mask j"
  by (rule bit_eqI) (auto simp: bit_simps)

lemma scan_pos_next:
  assumes "k \<le> 64"
  shows "scan_pos (scan_next (mask k) v) = ((scan_pos v div 2 ^ (64 - k) + 1) * 2 ^ (64 - k)) mod 2 ^ 64"
proof -
  have "dict_rev (v OR NOT (mask k)) = dict_rev v OR mask (64 - k)"
    using assms by (intro bit_word_eqI) (auto simp: bit_simps bit_dict_rev)
  then have "scan_pos (scan_next (mask k) v) = unat ((dict_rev v OR mask (64 - k)) + 1)"
    by (simp add: scan_pos_def scan_next_def)
  also have "\<dots> = (unat (dict_rev v OR mask (64 - k)) + 1) mod 2 ^ 64"
    by (simp add: unat_word_ariths)
  also have "unat (dict_rev v OR mask (64 - k)) = scan_pos v OR mask (64 - k)"
    by (simp add: unsigned_or_eq unat_mask scan_pos_def)
  finally show ?thesis by (simp only: or_mask_plus_1)
qed

section \<open>What one call emits\<close>

text \<open>A table's mask as a word, and the index of a cursor in it.\<close>

lemma ht_mask:
  assumes "ht_inv T h" "ht_size h \<noteq> 0"
  shows "\<exists>k. 2 \<le> k \<and> k \<le> 31 \<and> ht_size h = 2 ^ k \<and> word_of_nat (ht_sizemask h) = (mask k :: 64 word) \<and>
    ht_sizemask h = mask k"
proof -
  obtain k where k: "2 \<le> k" "k \<le> 31" "ht_size h = 2 ^ k" using assms by (auto simp: ht_inv_def)
  then have m: "ht_sizemask h = mask k" using assms by (simp add: ht_inv_def mask_eq_exp_minus_1)
  moreover have "word_of_nat (mask k) = (mask k :: 64 word)"
    using k(2) by (metis of_nat_mask_eq)
  ultimately show ?thesis using k by auto
qed

lemma unat_take_bit_mod: "unat (take_bit k v) = unat v mod 2 ^ k" for v :: "64 word"
  by (subst unsigned_take_bit_eq) (rule take_bit_eq_mod)

lemma unat_and_mask: "unat (v AND mask k) = unat v mod 2 ^ k" for v :: "64 word"
  by (simp add: take_bit_eq_mask [symmetric] unat_take_bit_mod)

lemma take_bit_eq_unat: "take_bit k v = take_bit k w \<longleftrightarrow> unat v mod 2 ^ k = unat w mod 2 ^ k" for v w :: "64 word"
  by (metis take_bit_eq_mask unat_and_mask word_eq_iff_unsigned)

text \<open>The hash of a key as the word a cursor is compared with.\<close>

definition key_word :: "('k, 'v) dictType \<Rightarrow> 'k \<Rightarrow> 64 word" where
  "key_word T k = word_of_nat (dictHashKey T k)"

lemma unat_key_word: "unat (key_word T k) = dictHashKey T k"
proof -
  have "dictHashKey T k < 2 ^ 32" using unsigned_less [of "hashFunction T k"] by (simp add: dictHashKey_def)
  then show ?thesis by (simp add: key_word_def unat_of_nat)
qed

lemma and_mask_mod: "x AND mask k = x mod 2 ^ k" for x :: nat
  by (simp add: take_bit_eq_mask [symmetric] take_bit_eq_mod)

text \<open>One step of the expansion counts the bits above the smaller mask.\<close>

lemma unat_expand_step:
  fixes v :: "64 word"
  assumes "k \<le> 63"
  shows "unat ((((v OR mask k) + 1) AND NOT (mask k)) OR (v AND mask k)) =
    ((unat v div 2 ^ k + 1) * 2 ^ k) mod 2 ^ 64 + unat v mod 2 ^ k"
proof -
  let ?x = "(v OR mask k) + 1"
  have x: "unat ?x = ((unat v div 2 ^ k + 1) * 2 ^ k) mod 2 ^ 64"
    using assms by (simp only: unat_word_ariths unsigned_or_eq unat_mask or_mask_plus_1 [symmetric]) simp
  have "(2 :: nat) ^ 64 = 2 ^ k * 2 ^ (64 - k)" using assms by (simp flip: power_add)
  then have "((unat v div 2 ^ k + 1) * 2 ^ k) mod 2 ^ 64 = ((unat v div 2 ^ k + 1) mod 2 ^ (64 - k)) * 2 ^ k"
    by (simp add: mult_mod_right mult.commute)
  then have low: "take_bit k ?x = 0"
    using x by (simp add: word_eq_iff_unsigned [where ?'a = nat] unat_take_bit_mod)
  have "\<not> (n < k \<and> bit ?x n)" for n
    using arg_cong [OF low, of "\<lambda>w. bit w n"] by (simp add: bit_take_bit_iff)
  then have "?x AND NOT (mask k) = ?x"
    by (intro bit_word_eqI) (auto simp: bit_and_iff bit_not_iff bit_mask_iff)
  then have "(?x AND NOT (mask k)) OR (v AND mask k) = ?x + take_bit k v"
  proof -
    have "?x OR take_bit k v = ?x + take_bit k v"
    proof (rule disjunctive_add [symmetric])
      fix n
      have "\<not> bit (take_bit k ?x) n" using low by simp
      then show "\<not> bit ?x n \<or> \<not> bit (take_bit k v) n" by (auto simp: bit_take_bit_iff)
    qed
    then show ?thesis using \<open>?x AND NOT (mask k) = ?x\<close> by (simp add: take_bit_eq_mask)
  qed
  moreover have "unat ?x + unat (take_bit k v) < 2 ^ 64"
  proof -
    have "unat ?x \<le> 2 ^ 64 - 2 ^ k"
    proof -
      have "((unat v div 2 ^ k + 1) mod 2 ^ (64 - k)) + 1 \<le> 2 ^ (64 - k)"
        by (metis Suc_eq_plus1 Suc_leI mod_less_divisor zero_less_numeral zero_less_power)
      then have "(((unat v div 2 ^ k + 1) mod 2 ^ (64 - k)) + 1) * 2 ^ k \<le> 2 ^ (64 - k) * 2 ^ k"
        by (rule mult_le_mono1)
      then show ?thesis
        using x \<open>((unat v div 2 ^ k + 1) * 2 ^ k) mod 2 ^ 64 = ((unat v div 2 ^ k + 1) mod 2 ^ (64 - k)) * 2 ^ k\<close>
          \<open>(2 :: nat) ^ 64 = 2 ^ k * 2 ^ (64 - k)\<close> by (simp add: algebra_simps)
    qed
    moreover have "unat (take_bit k v) < 2 ^ k" by (simp add: unat_take_bit_mod)
    moreover have "(2 :: nat) ^ k \<le> 2 ^ 64" using assms by (intro power_increasing) auto
    ultimately show ?thesis by linarith
  qed
  ultimately show ?thesis
    using x by (simp add: unat_word_ariths unat_take_bit_mod)
qed

lemma expand_stop:
  fixes v :: "64 word"
  assumes "k0 \<le> k1" "k1 \<le> 31"
  shows "v AND (mask k0 XOR mask k1) = 0 \<longleftrightarrow> (unat v div 2 ^ k0) mod 2 ^ (k1 - k0) = 0"
proof -
  have "v AND (mask k0 XOR mask k1) = 0 \<longleftrightarrow> take_bit k1 v = take_bit k0 v"
    using assms by (auto simp: bit_eq_iff bit_simps)
  also have "\<dots> \<longleftrightarrow> unat v mod 2 ^ k1 = unat v mod 2 ^ k0"
    by (simp only: word_eq_iff_unsigned [where ?'a = nat] unat_take_bit_mod)
  also have "(2 :: nat) ^ k1 = 2 ^ k0 * 2 ^ (k1 - k0)" using assms by (simp flip: power_add)
  finally show ?thesis by (simp add: mod_mult2_eq)
qed

lemma expand_index:
  fixes v :: "64 word"
  assumes "k0 \<le> k1"
  shows "unat (v AND mask k1) = ((unat v div 2 ^ k0) mod 2 ^ (k1 - k0)) * 2 ^ k0 + unat v mod 2 ^ k0"
proof -
  have "(2 :: nat) ^ k1 = 2 ^ k0 * 2 ^ (k1 - k0)" using assms by (simp flip: power_add)
  then show ?thesis by (simp add: unat_and_mask mod_mult2_eq)
qed

text \<open>From counter \<open>j\<close> on, the loop visits the expansions \<open>j\<close>, \<open>j + 1\<close>, \<dots> up to the last.\<close>

lemma scan_expand_emits:
  fixes v :: "64 word"
  assumes "k0 \<le> k1" "k1 \<le> 31" "length tab = 2 ^ k1"
    and "j = (unat v div 2 ^ k0) mod 2 ^ (k1 - k0)" "2 ^ (k1 - k0) \<le> f + j"
  shows "\<exists>v'. scan_expand f tab (mask k0) (mask k1) v =
      Some (concat (map (\<lambda>i. tab ! (i * 2 ^ k0 + unat v mod 2 ^ k0)) [j..<2 ^ (k1 - k0)]), v') \<and>
    unat v' mod 2 ^ k0 = unat v mod 2 ^ k0"
  using assms(4,5)
proof (induction f arbitrary: v j)
  case 0
  have "j < 2 ^ (k1 - k0)" using 0(1) by simp
  then show ?case using 0(2) by simp
next
  case (Suc f)
  let ?K = "2 ^ (k1 - k0) :: nat"
  let ?v = "(((v OR mask k0) + 1) AND NOT (mask k0)) OR (v AND mask k0)"
  have k0: "k0 \<le> 63" using assms by simp
  have p64: "(2 :: nat) ^ 64 = 2 ^ k0 * 2 ^ (64 - k0)" using k0 by (simp flip: power_add)
  have u: "unat ?v = ((unat v div 2 ^ k0 + 1) mod 2 ^ (64 - k0)) * 2 ^ k0 + unat v mod 2 ^ k0"
    unfolding unat_expand_step [OF k0] p64 by (simp add: mult_mod_right mult.commute)
  have low: "unat ?v mod 2 ^ k0 = unat v mod 2 ^ k0" unfolding u by simp
  have "unat ?v div 2 ^ k0 = (unat v div 2 ^ k0 + 1) mod 2 ^ (64 - k0)" unfolding u by simp
  moreover have "?K dvd 2 ^ (64 - k0)" using assms by (intro le_imp_power_dvd) auto
  ultimately have c: "(unat ?v div 2 ^ k0) mod ?K = (j + 1) mod ?K"
    unfolding Suc.prems(1) by (simp add: mod_mod_cancel mod_Suc_eq)
  have j: "j < ?K" using Suc.prems(1) by simp
  have idx: "unat (v AND mask k1) = j * 2 ^ k0 + unat v mod 2 ^ k0"
    using expand_index [OF assms(1), of v] Suc.prems(1) by simp
  have "unat (v AND mask k1) < 2 ^ k1" by (simp add: unat_and_mask)
  then have get: "arr_get tab (unat (v AND mask k1)) = Some (tab ! (j * 2 ^ k0 + unat v mod 2 ^ k0))"
    using assms(3) idx by simp
  show ?case
  proof (cases "j + 1 = ?K")
    case True
    then have "?v AND (mask k0 XOR mask k1) = 0" using expand_stop [OF assms(1,2), of ?v] c by simp
    moreover have "[j..<?K] = [j]" using True by (metis Suc_eq_plus1 upt_Suc_append upt_eq_Nil_conv le_refl append_Nil)
    ultimately show ?thesis using get low by (simp add: Let_def)
  next
    case False
    then have j1: "j + 1 < ?K" using j by simp
    then have "?v AND (mask k0 XOR mask k1) \<noteq> 0" using expand_stop [OF assms(1,2), of ?v] c by simp
    moreover have "\<exists>v'. scan_expand f tab (mask k0) (mask k1) ?v =
      Some (concat (map (\<lambda>i. tab ! (i * 2 ^ k0 + unat ?v mod 2 ^ k0)) [j + 1..<?K]), v') \<and>
        unat v' mod 2 ^ k0 = unat ?v mod 2 ^ k0"
      using Suc.prems(2) c j1 by (intro Suc.IH) auto
    moreover have "[j..<?K] = j # [j + 1..<?K]" using j by (simp add: upt_rec)
    ultimately show ?thesis using get low by (auto simp: Let_def)
  qed
qed

text \<open>The table whose mask advances the cursor, and the side condition: during a rehash the
  cursor has no bit between the smaller and the larger mask.\<close>

definition scan_t0 :: "('k, 'v) dict \<Rightarrow> ('k, 'v) dictht" where
  "scan_t0 d = (if dictIsRehashing d then fst (scan_tables d) else ht0 d)"

definition scan_aligned :: "('k, 'v) dict \<Rightarrow> 64 word \<Rightarrow> bool" where
  "scan_aligned d v \<longleftrightarrow> \<not> dictIsRehashing d \<or>
     v AND word_of_nat (ht_sizemask (ht0 d) XOR ht_sizemask (ht1 d)) = 0"

lemma scan_tables_inv:
  assumes "dict_inv T d" "dictIsRehashing d" "scan_tables d = (t0, t1)"
  shows "ht_inv T t0" "ht_inv T t1" "ht_size t0 \<noteq> 0" "ht_size t1 \<noteq> 0" "ht_size t0 \<le> ht_size t1"
    "set (entries d) = set (ht_entries t0) \<union> set (ht_entries t1)"
    "ht_sizemask t0 XOR ht_sizemask t1 = ht_sizemask (ht0 d) XOR ht_sizemask (ht1 d)"
  using assms dict_invD [OF assms(1)]
  by (auto simp: scan_tables_def entries_def xor.commute split: if_splits)

lemma bucket_of:
  assumes "ht_inv T h" "ht_sizemask h = mask k" "e \<in> set (ht_entries h)"
  shows "e \<in> set (ht_table h ! (dictHashKey T (fst e) mod 2 ^ k))"
  using ht_inv_bucket(1) [OF assms(1,3)] by (simp add: assms(2) and_mask_mod)

lemma dictScan_single:
  assumes "dict_inv T d" "dictSize d \<noteq> 0" "\<not> dictIsRehashing d"
  shows "\<exists>k es v'. 2 \<le> k \<and> k \<le> 31 \<and> ht_size (scan_t0 d) = 2 ^ k \<and> dictScan d v = Some (es, v') \<and>
    scan_pos v' = ((scan_pos v div 2 ^ (64 - k) + 1) * 2 ^ (64 - k)) mod 2 ^ 64 \<and>
    (\<forall>e \<in> set (entries d). take_bit k (key_word T (fst e)) = take_bit k v \<longrightarrow> e \<in> set es) \<and>
    set es \<subseteq> set (entries d)"
proof -
  note inv = dict_invD [OF assms(1)]
  have "entries d \<noteq> []" using dictSize_entries [OF assms(1)] assms(2) by auto
  then have nz: "ht_size (ht0 d) \<noteq> 0" using dict_inv_no_table [OF assms(1)] by blast
  obtain k where k: "2 \<le> k" "k \<le> 31" "ht_size (ht0 d) = 2 ^ k"
    "word_of_nat (ht_sizemask (ht0 d)) = (mask k :: 64 word)" "ht_sizemask (ht0 d) = mask k"
    using ht_mask [OF inv(1) nz] by blast
  let ?i = "unat v mod 2 ^ k"
  have i: "?i < length (ht_table (ht0 d))" using inv(1) k(3) by simp
  have run: "dictScan d v = Some (ht_table (ht0 d) ! ?i, scan_next (mask k) v)"
    using assms(2,3) i k(4) by (simp add: dictScan_def Let_def unat_and_mask)
  have sub: "set (ht_table (ht0 d) ! ?i) \<subseteq> set (entries d)"
    using ht_entries_nth [OF i] by (auto simp: entries_def)
  have e1: "ht_entries (ht1 d) = []" using inv(5) assms(3) by (simp add: dictIsRehashing_def)
  have "e \<in> set (ht_table (ht0 d) ! ?i)"
    if "e \<in> set (entries d)" "take_bit k (key_word T (fst e)) = take_bit k v" for e
    using bucket_of [OF inv(1) k(5), of e] that e1
    by (simp add: entries_def take_bit_eq_unat unat_key_word)
  then show ?thesis
    using k run sub assms(3) scan_pos_next [of k v] by (auto simp: scan_t0_def)
qed

lemma dictScan_rehashing:
  assumes "dict_inv T d" "dictSize d \<noteq> 0" "dictIsRehashing d"
  shows "\<exists>k es v'. 2 \<le> k \<and> k \<le> 31 \<and> ht_size (scan_t0 d) = 2 ^ k \<and> dictScan d v = Some (es, v') \<and>
    scan_pos v' = ((scan_pos v div 2 ^ (64 - k) + 1) * 2 ^ (64 - k)) mod 2 ^ 64 \<and>
    (scan_aligned d v \<longrightarrow>
      (\<forall>e \<in> set (entries d). take_bit k (key_word T (fst e)) = take_bit k v \<longrightarrow> e \<in> set es)) \<and>
    set es \<subseteq> set (entries d)"
proof -
  obtain t0 t1 where t: "scan_tables d = (t0, t1)" by force
  note inv = scan_tables_inv [OF assms(1,3) t]
  obtain k where k: "2 \<le> k" "k \<le> 31" "ht_size t0 = 2 ^ k"
    "word_of_nat (ht_sizemask t0) = (mask k :: 64 word)" "ht_sizemask t0 = mask k"
    using ht_mask [OF inv(1,3)] by blast
  obtain k1 where k1: "2 \<le> k1" "k1 \<le> 31" "ht_size t1 = 2 ^ k1"
    "word_of_nat (ht_sizemask t1) = (mask k1 :: 64 word)" "ht_sizemask t1 = mask k1"
    using ht_mask [OF inv(2,4)] by blast
  have kk: "k \<le> k1" using inv(5) k(3) k1(3) by simp
  let ?L = "unat v mod 2 ^ k" let ?K = "2 ^ (k1 - k) :: nat"
  define j where "j = (unat v div 2 ^ k) mod ?K"
  let ?ex = "concat (map (\<lambda>i. ht_table t1 ! (i * 2 ^ k + ?L)) [j..<?K])"
  have "?K \<le> ht_size t1 + j" using k1(3) by (simp add: power_increasing trans_le_add1)
  then obtain v' where v': "scan_expand (ht_size t1) (ht_table t1) (mask k) (mask k1) v = Some (?ex, v')"
    "unat v' mod 2 ^ k = ?L"
    using scan_expand_emits [OF kk k1(2), of "ht_table t1" j v "ht_size t1"] inv(2) k1(3) by (auto simp: j_def)
  have i: "?L < length (ht_table t0)" using inv(1) k(3) by simp
  have run: "dictScan d v = Some (ht_table t0 ! ?L @ ?ex, scan_next (mask k) v')"
    using assms(2,3) t i v'(1) k(4) k1(4) by (simp add: dictScan_def Let_def unat_and_mask)
  have "scan_pos v' div 2 ^ (64 - k) = scan_pos v div 2 ^ (64 - k)"
    using k(2) v'(2) by (simp add: scan_pos_block take_bit_eq_unat)
  then have pos: "scan_pos (scan_next (mask k) v') = ((scan_pos v div 2 ^ (64 - k) + 1) * 2 ^ (64 - k)) mod 2 ^ 64"
    using scan_pos_next [of k v'] k(2) by simp
  have "i * 2 ^ k + ?L < 2 ^ k1" if "i < ?K" for i
  proof -
    have "(i + 1) * 2 ^ k \<le> ?K * 2 ^ k" using that by (intro mult_le_mono1) simp
    moreover have "?K * 2 ^ k = 2 ^ k1" using kk by (simp flip: power_add)
    moreover have "?L < 2 ^ k" by simp
    ultimately show ?thesis unfolding add_mult_distrib by linarith
  qed
  then have sub: "set (ht_table t0 ! ?L @ ?ex) \<subseteq> set (entries d)"
    using ht_entries_nth [OF i] ht_entries_nth [of _ t1] inv(2,6) k1(3) by fastforce
  have cover: "e \<in> set (ht_table t0 ! ?L @ ?ex)"
    if "scan_aligned d v" "e \<in> set (entries d)" "take_bit k (key_word T (fst e)) = take_bit k v" for e
  proof -
    have h: "dictHashKey T (fst e) mod 2 ^ k = ?L"
      using that(3) by (simp add: take_bit_eq_unat unat_key_word)
    have "v AND (mask k XOR mask k1) = 0"
      using that(1) assms(3) of_nat_xor_eq [of "ht_sizemask t0" "ht_sizemask t1", where ?'a = "64 word"]
      unfolding scan_aligned_def inv(7) [symmetric] k(4) k1(4) by simp
    then have j0: "j = 0" using expand_stop [OF kk k1(2), of v] by (simp add: j_def)
    let ?i = "(dictHashKey T (fst e) div 2 ^ k) mod ?K"
    have "(2 :: nat) ^ k1 = 2 ^ k * ?K" using kk by (simp flip: power_add)
    then have "dictHashKey T (fst e) mod 2 ^ k1 = ?i * 2 ^ k + ?L" using h by (simp add: mod_mult2_eq)
    moreover have "?i < ?K" by simp
    ultimately show ?thesis
      using that(2) inv(6) bucket_of [OF inv(1) k(5), of e] bucket_of [OF inv(2) k1(5), of e] h j0 by fastforce
  qed
  then show ?thesis
    using k run pos sub assms(3) t by (auto simp: scan_t0_def)
qed

lemma dictScan_covers:
  assumes "dict_inv T d" "dictSize d \<noteq> 0"
  shows "\<exists>k es v'. 2 \<le> k \<and> k \<le> 31 \<and> ht_size (scan_t0 d) = 2 ^ k \<and> dictScan d v = Some (es, v') \<and>
    scan_pos v' = ((scan_pos v div 2 ^ (64 - k) + 1) * 2 ^ (64 - k)) mod 2 ^ 64 \<and>
    (scan_aligned d v \<longrightarrow>
      (\<forall>e \<in> set (entries d). take_bit k (key_word T (fst e)) = take_bit k v \<longrightarrow> e \<in> set es)) \<and>
    set es \<subseteq> set (entries d)"
  using dictScan_rehashing [OF assms, of v] dictScan_single [OF assms, of v]
  by (cases "dictIsRehashing d") blast+

section \<open>Iterations\<close>

text \<open>
  An iteration over the successive states a dictionary has when the calls are made: it stops
  when a call returns cursor 0, and the flag says whether that happened.
\<close>

fun scan_iter :: "('k, 'v) dict list \<Rightarrow> 64 word \<Rightarrow> (('k \<times> 'v) list \<times> bool) option" where
  "scan_iter [] v = Some ([], False)"
| "scan_iter (d # ds) v = do {
     (es, v') \<leftarrow> dictScan d v;
     if v' = 0 then Some (es, True)
     else do { (es', c) \<leftarrow> scan_iter ds v'; Some (es @ es', c) }
   }"

text \<open>The side condition along an iteration.\<close>

fun scan_iter_aligned :: "('k, 'v) dict list \<Rightarrow> 64 word \<Rightarrow> bool" where
  "scan_iter_aligned [] v = True"
| "scan_iter_aligned (d # ds) v = (scan_aligned d v \<and>
     (case dictScan d v of None \<Rightarrow> False | Some (es, v') \<Rightarrow> v' = 0 \<or> scan_iter_aligned ds v'))"

text \<open>The invariant of an iteration: what lies before the cursor has been returned.\<close>

lemma scan_iter_covers:
  assumes ok: "dict_type_ok T"
    and "list_all (\<lambda>d. dict_inv T d \<and> dict_map T d key \<noteq> None) ds" "scan_iter_aligned ds v"
  shows "\<exists>es c. scan_iter ds v = Some (es, c) \<and>
    (c \<longrightarrow> scan_pos v \<le> scan_pos (key_word T key) \<longrightarrow> (\<exists>e \<in> set es. keyEq T key (fst e)))"
  using assms(2,3)
proof (induction ds arbitrary: v)
  case (Cons d ds)
  let ?R = "scan_pos (key_word T key)"
  have inv: "dict_inv T d" "dict_map T d key \<noteq> None" using Cons.prems(1) by auto
  then obtain e where e: "e \<in> set (entries d)" "keyEq T key (fst e)"
    by (auto simp: dict_map_def alookup_None)
  then have "dictSize d \<noteq> 0" using dictSize_entries [OF inv(1)] by auto
  then obtain k es v' where k: "2 \<le> k" "k \<le> 31" "dictScan d v = Some (es, v')"
    "scan_pos v' = ((scan_pos v div 2 ^ (64 - k) + 1) * 2 ^ (64 - k)) mod 2 ^ 64"
    "\<And>e. e \<in> set (entries d) \<Longrightarrow> take_bit k (key_word T (fst e)) = take_bit k v \<Longrightarrow> e \<in> set es"
    using dictScan_covers [OF inv(1), of v] Cons.prems(2) by auto
  have kw: "key_word T (fst e) = key_word T key"
    using dict_type_okD(4) [OF ok e(2)] by (simp add: key_word_def)
  define B where "B = (2 :: nat) ^ (64 - k)"
  have B: "0 < B" "2 ^ 64 = 2 ^ k * B" using k(2) by (simp_all add: B_def flip: power_add)
  have found: "\<exists>e \<in> set es. keyEq T key (fst e)"
    if "scan_pos v \<le> ?R" "?R < (scan_pos v div B + 1) * B"
  proof -
    have "?R div B = scan_pos v div B"
      using that B(1) by (metis Suc_eq_plus1 div_le_mono le_antisym less_Suc_eq_le less_mult_imp_div_less)
    then have "take_bit k (key_word T key) = take_bit k v"
      using scan_pos_block [of k "key_word T key" v] k(2) by (simp add: B_def)
    then show ?thesis using k(5) [OF e(1)] kw e(2) by auto
  qed
  show ?case
  proof (cases "v' = 0")
    case True
    have "scan_pos v div B < 2 ^ k" using scan_pos_less [of v] B by (simp add: div_less_iff_less_mult)
    then have "(scan_pos v div B + 1) * B \<le> 2 ^ 64" using B by (metis Suc_eq_plus1 Suc_leI mult_le_mono1)
    moreover have "((scan_pos v div B + 1) * B) mod 2 ^ 64 = 0" using k(4) True by (simp add: B_def)
    ultimately have "(scan_pos v div B + 1) * B = 2 ^ 64"
      using B(1) by (metis Suc_eq_plus1 le_neq_implies_less mod_less mult_is_0 nat.simps(3) not_gr_zero)
    then show ?thesis using True k(3) found scan_pos_less [of "key_word T key"] by auto
  next
    case False
    then have "scan_iter_aligned ds v'" using Cons.prems(2) k(3) by simp
    then obtain es' c where it: "scan_iter ds v' = Some (es', c)"
      "c \<longrightarrow> scan_pos v' \<le> ?R \<longrightarrow> (\<exists>e \<in> set es'. keyEq T key (fst e))"
      using Cons.IH [of v'] Cons.prems(1) by auto
    have "scan_pos v' \<le> (scan_pos v div B + 1) * B" using k(4) by (simp add: B_def)
    then have "\<exists>e \<in> set (es @ es'). keyEq T key (fst e)" if "c" "scan_pos v \<le> ?R"
      using it(2) that found by (cases "?R < (scan_pos v div B + 1) * B") auto
    then show ?thesis using False k(3) it(1) by auto
  qed
qed auto

text \<open>A cursor handed out by a smaller table is aligned for a larger one.\<close>

lemma block_start_low:
  assumes "k \<le> 64" "2 ^ (64 - k) dvd scan_pos v"
  shows "unat v < 2 ^ k"
proof -
  have "take_bit (64 - k) (dict_rev v) = 0"
    using assms(2) unfolding scan_pos_def
    by (simp add: word_eq_iff_unsigned [where ?'a = nat] unat_take_bit_mod dvd_eq_mod_eq_0)
  then have z: "\<not> bit (dict_rev v) n" if "n < 64 - k" for n
    using that by (metis bit_0_eq bit_take_bit_iff bot_apply bot_bool_def)
  have "\<not> bit v n" if "k \<le> n" "n < 64" for n
    using z [of "63 - n"] bit_dict_rev [of "63 - n" v] that by auto
  then have "bit v n \<Longrightarrow> n < k" for n
    using bit_imp_le_length [of v n] by (cases "k \<le> n") auto
  then have "take_bit k v = v"
    by (intro bit_word_eqI) (auto simp: bit_take_bit_iff)
  then have "unat v = unat v mod 2 ^ k" by (metis unat_take_bit_mod)
  then show ?thesis by (metis mod_less_divisor zero_less_numeral zero_less_power)
qed

lemma block_start_aligned:
  assumes "dict_inv T d" "ht_size (scan_t0 d) = 2 ^ k" "k \<le> 31" "2 ^ (64 - k) dvd scan_pos v"
  shows "scan_aligned d v"
proof (cases "dictIsRehashing d")
  case True
  obtain t0 t1 where t: "scan_tables d = (t0, t1)" by force
  note inv = scan_tables_inv [OF assms(1) True t]
  have t0: "ht_size t0 = 2 ^ k" using assms(2) True t by (simp add: scan_t0_def)
  obtain k' where k': "ht_size t0 = 2 ^ k'" "word_of_nat (ht_sizemask t0) = (mask k' :: 64 word)"
    using ht_mask [OF inv(1,3)] by blast
  obtain k1 where k1: "k1 \<le> 31" "ht_size t1 = 2 ^ k1" "word_of_nat (ht_sizemask t1) = (mask k1 :: 64 word)"
    using ht_mask [OF inv(2,4)] by blast
  have "k' = k" using t0 k'(1) by simp
  moreover have "k \<le> k1" using inv(5) t0 k1(2) by simp
  ultimately have "v AND (mask k' XOR mask k1) = 0"
    using expand_stop [OF _ k1(1), of k v] block_start_low [OF _ assms(4)] assms(3) by simp
  then show ?thesis
    using of_nat_xor_eq [of "ht_sizemask t0" "ht_sizemask t1", where ?'a = "64 word"]
    unfolding scan_aligned_def inv(7) [symmetric] k'(2) k1(3) by simp
qed (simp add: scan_aligned_def)

lemma next_block_start:
  assumes "k \<le> 64" "scan_pos v' = ((scan_pos v div 2 ^ (64 - k) + 1) * 2 ^ (64 - k)) mod 2 ^ 64"
  shows "2 ^ (64 - k) dvd scan_pos v'"
  unfolding assms(2) by (intro dvd_mod dvd_triv_right le_imp_power_dvd) simp

lemma scan_iter_growing:
  assumes "list_all (\<lambda>d. dict_inv T d \<and> dictSize d \<noteq> 0) (d # ds)"
    and "sorted (map (\<lambda>d. ht_size (scan_t0 d)) (d # ds))"
    and "ht_size (scan_t0 d) = 2 ^ k" "k \<le> 31" "2 ^ (64 - k) dvd scan_pos v"
  shows "scan_iter_aligned (d # ds) v"
  using assms
proof (induction ds arbitrary: d k v)
  case Nil
  obtain es v' where "dictScan d v = Some (es, v')" using dictScan_covers [of T d v] Nil(1) by auto
  then show ?case using block_start_aligned [of T d k v] Nil by simp
next
  case (Cons d' ds)
  have inv: "dict_inv T d" "dictSize d \<noteq> 0" "dict_inv T d'" "dictSize d' \<noteq> 0" using Cons.prems(1) by auto
  obtain k1 es v' where s1: "ht_size (scan_t0 d) = 2 ^ k1" "dictScan d v = Some (es, v')"
    "scan_pos v' = ((scan_pos v div 2 ^ (64 - k1) + 1) * 2 ^ (64 - k1)) mod 2 ^ 64"
    using dictScan_covers [OF inv(1,2), of v] by blast
  obtain k2 where k2: "k2 \<le> 31" "ht_size (scan_t0 d') = 2 ^ k2"
    using dictScan_covers [OF inv(3,4), of v] by blast
  have "k1 = k" using s1(1) Cons.prems(3) by simp
  then have "2 ^ (64 - k) dvd scan_pos v'" using next_block_start [OF _ s1(3)] Cons.prems(4) by simp
  moreover have "k \<le> k2" using Cons.prems(2,3) k2 by simp
  ultimately have "2 ^ (64 - k2) dvd scan_pos v'"
    by (meson diff_le_mono2 dvd_trans le_imp_power_dvd)
  then have "scan_iter_aligned (d' # ds) v'"
    using Cons.prems(1,2) k2 by (intro Cons.IH [of d' k2 v']) auto
  then show ?case using s1(2) block_start_aligned [of T d k v] Cons.prems inv(1) by simp
qed

text \<open>Without changes in between, as many calls as the smaller table has buckets are enough.\<close>

lemma scan_iter_static:
  assumes "dict_inv T d" "dictSize d \<noteq> 0" "ht_size (scan_t0 d) = 2 ^ k" "k \<le> 31"
    and "scan_pos v = i * 2 ^ (64 - k)" "i < 2 ^ k" "2 ^ k \<le> n + i"
  shows "\<exists>es. scan_iter (replicate n d) v = Some (es, True) \<and> set es \<subseteq> set (entries d)"
  using assms(5-)
proof (induction n arbitrary: v i)
  case (Suc n)
  obtain k1 es v' where s: "ht_size (scan_t0 d) = 2 ^ k1" "dictScan d v = Some (es, v')"
    "scan_pos v' = ((scan_pos v div 2 ^ (64 - k1) + 1) * 2 ^ (64 - k1)) mod 2 ^ 64" "set es \<subseteq> set (entries d)"
    using dictScan_covers [OF assms(1,2), of v] by blast
  have "k1 = k" using s(1) assms(3) by simp
  then have pos: "scan_pos v' = ((i + 1) * 2 ^ (64 - k)) mod 2 ^ 64" using s(3) Suc.prems(1) by simp
  have p64: "(2 :: nat) ^ 64 = 2 ^ k * 2 ^ (64 - k)" using assms(4) by (simp flip: power_add)
  show ?case
  proof (cases "i + 1 = 2 ^ k")
    case True
    then have "scan_pos v' = scan_pos 0" using pos p64 by simp
    then have "v' = 0" using scan_pos_inj by blast
    then show ?thesis using s(2,4) by simp
  next
    case False
    then have i: "i + 1 < 2 ^ k" using Suc.prems(2) by simp
    then have "(i + 1) * 2 ^ (64 - k) < 2 ^ 64" unfolding p64 by (intro mult_strict_right_mono) auto
    then have pos': "scan_pos v' = (i + 1) * 2 ^ (64 - k)" using pos by simp
    then have "v' \<noteq> 0" by auto
    moreover obtain es' where "scan_iter (replicate n d) v' = Some (es', True)" "set es' \<subseteq> set (entries d)"
      using Suc.IH [OF pos' i] Suc.prems(3) by auto
    ultimately show ?thesis using s(2,4) by auto
  qed
qed simp

section \<open>Properties\<close>

text \<open>C11: the guarantee of \<open>dictScan\<close>.  Take any iteration that starts with cursor 0 over any
  sequence of well-formed states of a dictionary (between two calls it may have been resized,
  rehashed or changed in any way), all of which hold the key, such that no call made during a
  rehash gets a cursor with bits between the two masks.  No call faults or loops, and if the
  iteration ends, an entry with the key has been returned.\<close>

theorem dictScan_guarantee:
  assumes "dict_type_ok T" "list_all (\<lambda>d. dict_inv T d \<and> dict_map T d key \<noteq> None) ds"
    and "scan_iter_aligned ds 0"
  shows "\<exists>es complete. scan_iter ds 0 = Some (es, complete) \<and>
    (complete \<longrightarrow> (\<exists>e \<in> set es. keyEq T key (fst e)))"
  using scan_iter_covers [OF assms] by simp

text \<open>The example dictionary is in the middle of growing from 4 to 8 buckets.\<close>

lemma nat_dict_example_scan:
  "dict_map nat_dict_type nat_dict_example 4 \<noteq> None" "dictSize nat_dict_example \<noteq> 0"
  "ht_size (scan_t0 nat_dict_example) = 2 ^ 2"
  by (simp_all add: dict_map_def alookup_def entries_def ht_entries_def nat_dict_example_def dictSize_def
      keyEq_def dictCompareKeys_def nat_dict_type_def scan_t0_def scan_tables_def dictIsRehashing_def)

theorem dictScan_guarantee_witness:
  "dictIsRehashing nat_dict_example \<and>
   (\<exists>es complete. scan_iter (replicate 4 nat_dict_example) 0 = Some (es, complete))"
proof -
  let ?ds = "nat_dict_example # replicate 3 nat_dict_example"
  have "scan_iter_aligned ?ds 0"
    by (rule scan_iter_growing [of nat_dict_type _ _ 2])
      (use nat_dict_example_inv nat_dict_example_scan in \<open>auto simp: numeral_3_eq_3\<close>)
  moreover have "list_all (\<lambda>d. dict_inv nat_dict_type d \<and> dict_map nat_dict_type d 4 \<noteq> None) ?ds"
    using nat_dict_example_inv nat_dict_example_scan(1) by (simp add: numeral_3_eq_3)
  ultimately have "\<exists>es complete. scan_iter ?ds 0 = Some (es, complete)"
    using dictScan_guarantee [OF nat_dict_type_ok, of 4 ?ds] by blast
  moreover have "?ds = replicate 4 nat_dict_example" by (simp add: numeral_eq_Suc)
  ultimately show ?thesis by (simp only:) (simp add: nat_dict_example_def dictIsRehashing_def)
qed

text \<open>C21: on a dictionary that does not change, also in the middle of a rehash, the iteration
  ends after as many calls as the smaller table has buckets, and returns exactly the stored
  entries.\<close>

theorem dictScan_static_complete:
  assumes "dict_type_ok T" "dict_inv T d" "dictSize d \<noteq> 0"
  shows "\<exists>es. scan_iter (replicate (ht_size (scan_t0 d)) d) 0 = Some (es, True) \<and> set es = set (entries d)"
proof -
  obtain k where k: "k \<le> 31" "ht_size (scan_t0 d) = 2 ^ k"
    using dictScan_covers [OF assms(2,3), of 0] by blast
  let ?ds = "replicate (2 ^ k) d"
  obtain es where es: "scan_iter ?ds 0 = Some (es, True)" "set es \<subseteq> set (entries d)"
    using scan_iter_static [OF assms(2,3) k(2,1), of 0 0 "2 ^ k"] by auto
  obtain n where n: "?ds = d # replicate n d" by (metis gr0_implies_Suc replicate_Suc zero_less_numeral zero_less_power)
  have al: "scan_iter_aligned ?ds 0" unfolding n
    by (rule scan_iter_growing [OF _ _ k(2,1)]) (use assms(2,3) in \<open>auto simp: list_all_iff\<close>)
  have "e \<in> set es" if e: "e \<in> set (entries d)" for e
  proof -
    have u: "uniq T (entries d)" using dict_invD(3) [OF assms(2)] .
    have "dict_map T d (fst e) \<noteq> None"
      using e dict_type_okD(1) [OF assms(1)] by (auto simp: dict_map_def alookup_None)
    then have "list_all (\<lambda>d. dict_inv T d \<and> dict_map T d (fst e) \<noteq> None) ?ds"
      using assms(2) by (simp add: list_all_iff)
    from scan_iter_covers [OF assms(1) this al] es(1)
    obtain e' where e': "e' \<in> set es" "keyEq T (fst e) (fst e')" by auto
    then have "kclass T (fst e) = kclass T (fst e')" by (simp add: kclass_eq_iff [OF assms(1)])
    then have "e = e'" using u e e'(1) es(2) unfolding uniq_def distinct_map by (meson inj_onD subsetD)
    then show ?thesis using e'(1) by simp
  qed
  then show ?thesis using es k(2) by auto
qed

theorem dictScan_static_complete_witness:
  "\<exists>es. scan_iter (replicate 4 nat_dict_example) 0 = Some (es, True) \<and>
    set es = {(2, 20), (7, 70), (3, 30), (1, 10), (4, 40)}"
proof -
  have "set (entries nat_dict_example) = {(2, 20), (7, 70), (3, 30), (1, 10), (4, 40)}"
    by (simp add: entries_def ht_entries_def nat_dict_example_def)
  then show ?thesis
    using dictScan_static_complete [OF nat_dict_type_ok nat_dict_example_inv nat_dict_example_scan(2)]
      nat_dict_example_scan(3) by simp
qed

text \<open>A table of 16 buckets with one element left, in bucket 4.\<close>

definition sparse_dict :: "(nat, nat) dict" where
  "sparse_dict = \<lparr>
     ht0 = \<lparr>ht_table = [[], [], [], [], [(4, 40)], [], [], [], [], [], [], [], [], [], [], []],
            ht_size = 16, ht_sizemask = 15, ht_used = 1\<rparr>,
     ht1 = dictReset, rehashidx = -1, iterators = 0\<rparr>"

definition shrinking_dict :: "(nat, nat) dict" where
  "shrinking_dict = sparse_dict\<lparr>
     ht1 := \<lparr>ht_table = [[], [], [], []], ht_size = 4, ht_sizemask = 3, ht_used = 0\<rparr>, rehashidx := 0\<rparr>"

text \<open>The cursors of the example.\<close>

lemma scan_nextI: "v OR NOT m = a \<Longrightarrow> dict_rev a = b \<Longrightarrow> dict_rev (b + 1) = c \<Longrightarrow> scan_next m v = c"
  by (simp add: scan_next_def)

lemma dict_rev_values:
  "dict_rev 0xFFFFFFFFFFFFFFF0 = 0x0FFFFFFFFFFFFFFF" "dict_rev 0x1000000000000000 = 8"
  "dict_rev 0xFFFFFFFFFFFFFFFC = 0x3FFFFFFFFFFFFFFF" "dict_rev 0x4000000000000000 = 2"
  "dict_rev 0xFFFFFFFFFFFFFFFE = 0x7FFFFFFFFFFFFFFF" "dict_rev 0x8000000000000000 = 1"
  "dict_rev 0xFFFFFFFFFFFFFFFD = 0xBFFFFFFFFFFFFFFF" "dict_rev 0xC000000000000000 = 3"
  "dict_rev 0xFFFFFFFFFFFFFFFF = -1" "dict_rev 0 = 0"
  unfolding dict_rev_stages rev_stage_def by simp_all

lemma scan_next_values:
  "scan_next 15 0 = 8" "scan_next 3 16 = 2" "scan_next 3 18 = 1" "scan_next 3 17 = 3" "scan_next 3 19 = 0"
  by (rule scan_nextI [OF _ dict_rev_values(1)], simp, simp add: dict_rev_values)
    (rule scan_nextI [OF _ dict_rev_values(3)], simp, simp add: dict_rev_values,
     rule scan_nextI [OF _ dict_rev_values(5)], simp, simp add: dict_rev_values,
     rule scan_nextI [OF _ dict_rev_values(7)], simp, simp add: dict_rev_values,
     rule scan_nextI [OF _ dict_rev_values(9)], simp, simp add: dict_rev_values)

lemma scan_expand_pos:
  "0 < f \<Longrightarrow> scan_expand f tab m0 m1 v = do {
     de \<leftarrow> arr_get tab (unat (v AND m1));
     let v = (((v OR m0) + 1) AND NOT m0) OR (v AND m0);
     if v AND (m0 XOR m1) \<noteq> 0 then do {
       (es, v) \<leftarrow> scan_expand (f - 1) tab m0 m1 v;
       Some (de @ es, v)
     } else Some (de, v)
   }"
  by (cases f) (simp_all only: scan_expand.simps diff_Suc_1 less_irrefl)

lemma shrinking_scan:
  "dictScan sparse_dict 0 = Some ([], 8)" "dictScan shrinking_dict 8 = Some ([], 2)"
  "dictScan shrinking_dict 2 = Some ([], 1)" "dictScan shrinking_dict 1 = Some ([], 3)"
  "dictScan shrinking_dict 3 = Some ([], 0)"
  by (simp_all add: dictScan_def scan_tables_def shrinking_dict_def sparse_dict_def dictSize_def dictIsRehashing_def
      scan_next_values scan_expand_pos Let_def)

text \<open>C19: the guarantee does not hold when the table starts to shrink during the iteration.  The
  first call sees 16 buckets and returns cursor 8; then \<open>dictResize\<close> starts to shrink the table
  to 4 buckets.  The next call visits only the expansions 8 and 12 of bucket 0 in the larger
  table (the loop increments from the cursor's high bits upwards) and never bucket 4, so the
  iteration ends without having returned the element that was there all the time.\<close>

theorem dictScan_misses_when_shrinking:
  "dictResize True sparse_dict = (shrinking_dict, True) \<and>
   dict_inv nat_dict_type sparse_dict \<and>
   dict_map nat_dict_type sparse_dict 4 = Some 40 \<and> dict_map nat_dict_type shrinking_dict 4 = Some 40 \<and>
   scan_iter [sparse_dict, shrinking_dict, shrinking_dict, shrinking_dict, shrinking_dict] 0 = Some ([], True)"
proof (intro conjI)
  have "next_power_loop 4 4 = 4" by (subst next_power_loop.simps) simp
  then have "dictNextPower 4 = 4" by (simp add: dictNextPower_def LONG_MAX_def DICT_HT_INITIAL_SIZE_def)
  moreover have "replicate 4 ([] :: (nat \<times> nat) list) = [[], [], [], []]" by (simp add: numeral_eq_Suc)
  ultimately show "dictResize True sparse_dict = (shrinking_dict, True)"
    by (simp add: dictResize_def dictExpand_def sparse_dict_def shrinking_dict_def dictIsRehashing_def
        DICT_HT_INITIAL_SIZE_def)
  have k: "dictHashKey nat_dict_type 4 = 4"
    by (simp add: dictHashKey_def nat_dict_type_def)
  have "ht_inv nat_dict_type (ht0 sparse_dict)"
    by (rule ht_invI [of 4]) (simp_all add: sparse_dict_def ht_entries_def k)
  then show "dict_inv nat_dict_type sparse_dict"
    by (simp add: dict_inv_def) (simp add: sparse_dict_def uniq_def entries_def ht_entries_def)
  show "dict_map nat_dict_type sparse_dict 4 = Some 40" "dict_map nat_dict_type shrinking_dict 4 = Some 40"
    by (simp_all add: dict_map_def alookup_def entries_def ht_entries_def shrinking_dict_def sparse_dict_def
        keyEq_def dictCompareKeys_def nat_dict_type_def)
  show "scan_iter [sparse_dict, shrinking_dict, shrinking_dict, shrinking_dict, shrinking_dict] 0 = Some ([], True)"
    by (simp add: shrinking_scan)
qed

end
