(* ===== verification/Dict_Iter.thy ===== *)
theory Dict_Iter
  imports Dict_Map
begin

text \<open>
  The iterators and the random samplers of \<^verbatim>\<open>dict.c\<close>.  An iterator's \<open>entry\<close> and
  \<open>nextEntry\<close> pointers are the remaining chains they point to.  The addresses of the two
  tables, which only the fingerprint looks at, are parameters; \<open>random()\<close> is a function from the
  number of earlier calls to the value returned.
\<close>

section \<open>Iterators\<close>

record ('k, 'v) dictIterator =
  it_index :: int
  it_table :: nat
  it_safe :: bool
  it_entry :: "('k \<times> 'v) list"
  it_nextEntry :: "('k \<times> 'v) list"
  it_fingerprint :: "64 word"

definition fingerprint_step :: "64 word \<Rightarrow> 64 word \<Rightarrow> 64 word" where
  "fingerprint_step hash i = (
     let hash = hash + i;
         hash = NOT hash + push_bit 21 hash;
         hash = hash XOR signed_drop_bit 24 hash;
         hash = (hash + push_bit 3 hash) + push_bit 8 hash;
         hash = hash XOR signed_drop_bit 14 hash;
         hash = (hash + push_bit 2 hash) + push_bit 4 hash;
         hash = hash XOR signed_drop_bit 28 hash
     in hash + push_bit 31 hash)"

definition dictFingerprint :: "64 word \<Rightarrow> 64 word \<Rightarrow> ('k, 'v) dict \<Rightarrow> 64 word" where
  "dictFingerprint addr0 addr1 d = foldl fingerprint_step 0
     [addr0, word_of_nat (ht_size (ht0 d)), word_of_nat (ht_used (ht0 d)),
      addr1, word_of_nat (ht_size (ht1 d)), word_of_nat (ht_used (ht1 d))]"

definition dictGetIterator :: "64 word \<Rightarrow> ('k, 'v) dictIterator" where
  "dictGetIterator junk = \<lparr>it_index = -1, it_table = 0, it_safe = False, it_entry = [],
     it_nextEntry = [], it_fingerprint = junk\<rparr>"

definition dictGetSafeIterator :: "64 word \<Rightarrow> ('k, 'v) dictIterator" where
  "dictGetSafeIterator junk = (dictGetIterator junk)\<lparr>it_safe := True\<rparr>"

text \<open>One round of the loop of \<open>dictNext\<close> up to the test of \<open>iter->entry\<close>; the flag is the \<open>break\<close>.\<close>

definition next_round ::
  "64 word \<Rightarrow> 64 word \<Rightarrow> ('k, 'v) dict \<Rightarrow> ('k, 'v) dictIterator \<Rightarrow>
   (('k, 'v) dict \<times> ('k, 'v) dictIterator \<times> bool) option" where
  "next_round a0 a1 d it =
     (if it_entry it = [] then
        let (d, it) = (if it_index it = -1 \<and> it_table it = 0 then
                         (if it_safe it then (d\<lparr>iterators := iterators d + 1\<rparr>, it)
                          else (d, it\<lparr>it_fingerprint := dictFingerprint a0 a1 d\<rparr>))
                       else (d, it));
            it = it\<lparr>it_index := it_index it + 1\<rparr>
        in if it_index it \<ge> int (ht_size (htab d (it_table it))) then
             (if dictIsRehashing d \<and> it_table it = 0 then do {
                chain \<leftarrow> arr_get (ht_table (ht1 d)) 0;
                Some (d, it\<lparr>it_table := 1, it_index := 0, it_entry := chain\<rparr>, False)
              } else Some (d, it, True))
           else do {
             chain \<leftarrow> arr_get (ht_table (htab d (it_table it))) (nat (it_index it));
             Some (d, it\<lparr>it_entry := chain\<rparr>, False)
           }
      else Some (d, it\<lparr>it_entry := it_nextEntry it\<rparr>, False))"

fun next_loop ::
  "nat \<Rightarrow> 64 word \<Rightarrow> 64 word \<Rightarrow> ('k, 'v) dict \<Rightarrow> ('k, 'v) dictIterator \<Rightarrow>
   (('k, 'v) dict \<times> ('k, 'v) dictIterator \<times> ('k \<times> 'v) option) option" where
  "next_loop 0 a0 a1 d it = None"
| "next_loop (Suc f) a0 a1 d it = do {
     (d, it, brk) \<leftarrow> next_round a0 a1 d it;
     if brk then Some (d, it, None)
     else case it_entry it of
       e # es \<Rightarrow> Some (d, it\<lparr>it_nextEntry := es\<rparr>, Some e)
     | [] \<Rightarrow> next_loop f a0 a1 d it
   }"

text \<open>Each round advances the index or the table, so the number of buckets bounds the rounds.\<close>

definition dictNext ::
  "64 word \<Rightarrow> 64 word \<Rightarrow> ('k, 'v) dict \<Rightarrow> ('k, 'v) dictIterator \<Rightarrow>
   (('k, 'v) dict \<times> ('k, 'v) dictIterator \<times> ('k \<times> 'v) option) option" where
  "dictNext a0 a1 d it = next_loop (dictSlots d + 3) a0 a1 d it"

definition dictReleaseIterator ::
  "64 word \<Rightarrow> 64 word \<Rightarrow> ('k, 'v) dict \<Rightarrow> ('k, 'v) dictIterator \<Rightarrow> ('k, 'v) dict option" where
  "dictReleaseIterator a0 a1 d it =
     (if \<not> (it_index it = -1 \<and> it_table it = 0) then
        (if it_safe it then Some (d\<lparr>iterators := iterators d - 1\<rparr>)
         else do { c_assert (it_fingerprint it = dictFingerprint a0 a1 d); Some d })
      else Some d)"

text \<open>The loop \<open>while ((de = dictNext(di)) != NULL)\<close> of the iterator's users.\<close>

fun iterate_all ::
  "nat \<Rightarrow> 64 word \<Rightarrow> 64 word \<Rightarrow> ('k, 'v) dict \<Rightarrow> ('k, 'v) dictIterator \<Rightarrow>
   (('k, 'v) dict \<times> ('k, 'v) dictIterator \<times> ('k \<times> 'v) list) option" where
  "iterate_all 0 a0 a1 d it = None"
| "iterate_all (Suc f) a0 a1 d it = do {
     (d, it, e) \<leftarrow> dictNext a0 a1 d it;
     case e of None \<Rightarrow> Some (d, it, [])
     | Some x \<Rightarrow> do { (d, it, xs) \<leftarrow> iterate_all f a0 a1 d it; Some (d, it, x # xs) }
   }"

section \<open>Sampling\<close>

text \<open>The loop that draws buckets until one is not empty, for a table that is not being
  rehashed and for one that is; \<open>n\<close> counts the calls of \<open>random()\<close>.  The loop ends only when a
  draw hits an occupied bucket, so the model makes at most \<open>fuel\<close> draws and says when it has not
  ended by then; \<open>None\<close> is an access out of bounds.\<close>

datatype 'a draws = Drawing | Drawn 'a

definition random_draw :: "('k, 'v) dict \<Rightarrow> nat \<Rightarrow> ('k \<times> 'v) list option" where
  "random_draw d r =
     (if dictIsRehashing d then
        (let h = (nat (rehashidx d) +
                   r mod (ht_size (ht0 d) + ht_size (ht1 d) - nat (rehashidx d))) mod 2 ^ 32
         in if h \<ge> ht_size (ht0 d) then arr_get (ht_table (ht1 d)) (h - ht_size (ht0 d))
            else arr_get (ht_table (ht0 d)) h)
      else arr_get (ht_table (ht0 d)) ((r AND ht_sizemask (ht0 d)) mod 2 ^ 32))"

fun random_bucket ::
  "nat \<Rightarrow> (nat \<Rightarrow> nat) \<Rightarrow> ('k, 'v) dict \<Rightarrow> nat \<Rightarrow> (('k \<times> 'v) list \<times> nat) draws option" where
  "random_bucket 0 random d n = Some Drawing"
| "random_bucket (Suc f) random d n = do {
     he \<leftarrow> random_draw d (random n);
     if he = [] then random_bucket f random d (n + 1) else Some (Drawn (he, n + 1))
   }"

definition dictGetRandomKey ::
  "nat \<Rightarrow> (nat \<Rightarrow> nat) \<Rightarrow> ('k, 'v) dictType \<Rightarrow> ('k, 'v) dict \<Rightarrow> (('k, 'v) dict \<times> ('k \<times> 'v) option) draws option" where
  "dictGetRandomKey fuel random T d =
     (if dictSize d = 0 then Some (Drawn (d, None))
      else do {
        d \<leftarrow> rehash_step_if T d;
        b \<leftarrow> random_bucket fuel random d 0;
        case b of
          Drawing \<Rightarrow> Some Drawing
        | Drawn (he, n) \<Rightarrow> do {
            let listele = random n mod length he;
            e \<leftarrow> arr_get he listele;
            Some (Drawn (d, Some e))
          }
      })"

text \<open>\<open>dictGetSomeKeys\<close>.  One round looks at index \<open>i\<close> of the first and then of the second
  table; a list of \<open>count\<close> collected entries ends everything.  The number of rounds is computed in
  \<open>unsigned int\<close>.\<close>

record ('k, 'v) some_keys =
  sk_i :: nat
  sk_emptylen :: nat
  sk_des :: "('k \<times> 'v) list"
  sk_draws :: nat

definition some_keys_table ::
  "(nat \<Rightarrow> nat) \<Rightarrow> ('k, 'v) dict \<Rightarrow> nat \<Rightarrow> nat \<Rightarrow> nat \<Rightarrow> nat \<Rightarrow> ('k, 'v) some_keys \<Rightarrow>
   (('k, 'v) some_keys) option" where
  "some_keys_table random d tables maxsizemask cnt j s =
     (if tables = 2 \<and> j = 0 \<and> sk_i s < nat (rehashidx d) then
        Some (if sk_i s \<ge> ht_size (ht1 d) then s\<lparr>sk_i := nat (rehashidx d)\<rparr> else s)
      else if sk_i s \<ge> ht_size (htab d j) then Some s
      else do {
        he \<leftarrow> arr_get (ht_table (htab d j)) (sk_i s);
        if he = [] then
          (let s = s\<lparr>sk_emptylen := sk_emptylen s + 1\<rparr> in
           Some (if sk_emptylen s \<ge> 5 \<and> sk_emptylen s > cnt
                 then s\<lparr>sk_i := random (sk_draws s) AND maxsizemask, sk_emptylen := 0, sk_draws := sk_draws s + 1\<rparr>
                 else s))
        else Some (s\<lparr>sk_emptylen := 0, sk_des := sk_des s @ take (cnt - length (sk_des s)) he\<rparr>)
      })"

fun some_keys_loop ::
  "nat \<Rightarrow> (nat \<Rightarrow> nat) \<Rightarrow> ('k, 'v) dict \<Rightarrow> nat \<Rightarrow> nat \<Rightarrow> nat \<Rightarrow> ('k, 'v) some_keys \<Rightarrow>
   ('k \<times> 'v) list option" where
  "some_keys_loop 0 random d tables maxsizemask cnt s = Some (sk_des s)"
| "some_keys_loop (Suc maxsteps) random d tables maxsizemask cnt s =
     (if \<not> length (sk_des s) < cnt then Some (sk_des s)
      else do {
        s \<leftarrow> some_keys_table random d tables maxsizemask cnt 0 s;
        if length (sk_des s) = cnt then Some (sk_des s)
        else do {
          s \<leftarrow> (if tables = 2 then some_keys_table random d tables maxsizemask cnt 1 s else Some s);
          if length (sk_des s) = cnt then Some (sk_des s)
          else some_keys_loop maxsteps random d tables maxsizemask cnt
                 (s\<lparr>sk_i := (sk_i s + 1) AND maxsizemask\<rparr>)
        }
      })"

fun rehash_steps :: "('k, 'v) dictType \<Rightarrow> nat \<Rightarrow> ('k, 'v) dict \<Rightarrow> ('k, 'v) dict option" where
  "rehash_steps T 0 d = Some d"
| "rehash_steps T (Suc n) d =
     (if dictIsRehashing d then do { d \<leftarrow> dictRehashStep T d; rehash_steps T n d } else Some d)"

definition dictGetSomeKeys ::
  "(nat \<Rightarrow> nat) \<Rightarrow> ('k, 'v) dictType \<Rightarrow> ('k, 'v) dict \<Rightarrow> nat \<Rightarrow> (('k, 'v) dict \<times> ('k \<times> 'v) list) option" where
  "dictGetSomeKeys random T d count0 = (
     let cnt = (if dictSize d < count0 then dictSize d else count0);
         maxsteps = (cnt * 10) mod 2 ^ 32
     in do {
       d \<leftarrow> rehash_steps T cnt d;
       let tables = (if dictIsRehashing d then 2 else 1);
       let maxsizemask = (if tables > 1 \<and> ht_sizemask (ht0 d) < ht_sizemask (ht1 d)
                          then ht_sizemask (ht1 d) else ht_sizemask (ht0 d));
       des \<leftarrow> some_keys_loop maxsteps random d tables maxsizemask cnt
                \<lparr>sk_i = random 0 AND maxsizemask, sk_emptylen = 0, sk_des = [], sk_draws = 1\<rparr>;
       Some (d, des)
     })"

section \<open>A full iteration returns every entry once\<close>

text \<open>The entries an iterator has still to return.\<close>

definition it_rest :: "('k, 'v) dict \<Rightarrow> ('k, 'v) dictIterator \<Rightarrow> ('k \<times> 'v) list" where
  "it_rest d it = (if it_entry it = [] then [] else it_nextEntry it) @
     concat (drop (nat (it_index it + 1)) (ht_table (htab d (it_table it)))) @
     (if it_table it = 0 \<and> dictIsRehashing d then ht_entries (ht1 d) else [])"

text \<open>Well-positioned iterators: an iterator that has started is registered or has the
  fingerprint of the dictionary.\<close>

definition it_ok :: "64 word \<Rightarrow> 64 word \<Rightarrow> ('k, 'v) dict \<Rightarrow> ('k, 'v) dictIterator \<Rightarrow> bool" where
  "it_ok a0 a1 d it \<longleftrightarrow> -1 \<le> it_index it \<and> it_table it \<le> 1 \<and> (it_table it = 1 \<longrightarrow> dictIsRehashing d) \<and>
     (it_table it = 1 \<longrightarrow> 0 \<le> it_index it) \<and> (it_index it = -1 \<longrightarrow> it_entry it = []) \<and>
     (it_index it \<noteq> -1 \<and> \<not> it_safe it \<longrightarrow> it_fingerprint it = dictFingerprint a0 a1 d)"

text \<open>The registration a safe iterator leaves in the dictionary while it is active.\<close>

definition started :: "('k, 'v) dictIterator \<Rightarrow> int" where
  "started it = (if it_safe it \<and> it_index it \<noteq> -1 then 1 else 0)"

lemma fingerprint_iterators [simp]: "dictFingerprint a0 a1 (d\<lparr>iterators := x\<rparr>) = dictFingerprint a0 a1 d"
  by (simp add: dictFingerprint_def)

lemma iterators_update_simps [simp]:
  "htab (d\<lparr>iterators := x\<rparr>) t = htab d t" "dictIsRehashing (d\<lparr>iterators := x\<rparr>) = dictIsRehashing d"
  "dictSlots (d\<lparr>iterators := x\<rparr>) = dictSlots d" "it_rest (d\<lparr>iterators := x\<rparr>) it = it_rest d it"
  "entries (d\<lparr>iterators := x\<rparr>) = entries d"
  by (simp_all add: htab_def dictIsRehashing_def dictSlots_def it_rest_def entries_def)

lemma dict_inv_iterators [simp]: "dict_inv T (d\<lparr>iterators := x\<rparr>) = dict_inv T d"
  by (simp add: dict_inv_def)

lemma next_round_break:
  assumes "dict_inv T d" "it_ok a0 a1 d it" "next_round a0 a1 d it = Some (d', it', True)"
  shows "it_rest d it' = []"
proof -
  have e: "it_entry it = []" using assms(3) by (auto simp: next_round_def split: if_splits)
  let ?h = "htab d (it_table it)"
  have "it_entry it' = [] \<and> it_table it' = it_table it \<and> it_index it' = it_index it + 1 \<and>
      it_index it + 1 \<ge> int (ht_size ?h) \<and> \<not> (dictIsRehashing d \<and> it_table it = 0)"
    using assms(3) e by (auto simp: next_round_def Let_def bind_eq_Some_conv split: if_splits prod.splits)
  then show ?thesis using dict_invD(4) [OF assms(1), of "it_table it"] by (auto simp: it_rest_def)
qed

text \<open>A bound on the rounds that find no entry.\<close>

definition it_rounds :: "('k, 'v) dict \<Rightarrow> ('k, 'v) dictIterator \<Rightarrow> nat" where
  "it_rounds d it = (if it_entry it = [] then 0 else 1) +
     (ht_size (htab d (it_table it)) - nat (it_index it + 1)) +
     (if it_table it = 0 \<and> dictIsRehashing d then ht_size (ht1 d) + 1 else 0)"

lemma it_rounds_iterators [simp]: "it_rounds (d\<lparr>iterators := x\<rparr>) it = it_rounds d it"
  by (simp add: it_rounds_def)

lemma next_round_spec:
  assumes inv: "dict_inv T d" and ok: "it_ok a0 a1 d it"
  shows "\<exists>it' brk. next_round a0 a1 d it = Some (d\<lparr>iterators := iterators d - started it + started it'\<rparr>, it', brk) \<and>
    it_ok a0 a1 d it' \<and> it_index it' \<noteq> -1 \<and> it_safe it' = it_safe it \<and>
    (if brk then it_rest d it = [] \<and> it_entry it' = []
     else it_rest d it = it_entry it' @ it_rest d (it'\<lparr>it_entry := []\<rparr>) \<and>
       (it_entry it' = [] \<longrightarrow> it_rounds d it' < it_rounds d it))"
proof (cases "it_entry it = []")
  case False
  then have "it_index it \<noteq> -1" using ok by (auto simp: it_ok_def)
  then show ?thesis using False ok
    by (auto simp: next_round_def it_ok_def it_rest_def it_rounds_def started_def intro!: exI [of _ "it\<lparr>it_entry := it_nextEntry it\<rparr>"])
next
  case True
  define it1 where "it1 = (if it_index it = -1 \<and> it_table it = 0 \<and> \<not> it_safe it
    then it\<lparr>it_fingerprint := dictFingerprint a0 a1 d\<rparr> else it)\<lparr>it_index := it_index it + 1\<rparr>"
  define d1 where "d1 = d\<lparr>iterators := iterators d - started it + started it1\<rparr>"
  let ?h = "htab d (it_table it)"
  have st: "it_table it1 = it_table it" "it_safe it1 = it_safe it" "it_entry it1 = []" "it_index it1 = it_index it + 1"
    using True by (auto simp: it1_def)
  have tab0: "it_index it = -1 \<Longrightarrow> it_table it = 0" using ok by (auto simp: it_ok_def)
  have ok1: "it_ok a0 a1 d it1" using ok True tab0 by (auto simp: it_ok_def it1_def)
  have d1: "(if it_index it = -1 \<and> it_table it = 0 then
        (if it_safe it then (d\<lparr>iterators := iterators d + 1\<rparr>, it)
         else (d, it\<lparr>it_fingerprint := dictFingerprint a0 a1 d\<rparr>)) else (d, it)) = (d1, it1\<lparr>it_index := it_index it\<rparr>)"
    using tab0 ok by (auto simp: d1_def it1_def started_def it_ok_def)
  have it1u: "it1\<lparr>it_index := it_index it + 1\<rparr> = it1" by (simp add: it1_def)
  have step: "next_round a0 a1 d it =
      (if it_index it1 \<ge> int (ht_size ?h) then
         (if dictIsRehashing d \<and> it_table it = 0 then do {
            chain \<leftarrow> arr_get (ht_table (ht1 d)) 0;
            Some (d1, it1\<lparr>it_table := 1, it_index := 0, it_entry := chain\<rparr>, False)
          } else Some (d1, it1, True))
       else do {
         chain \<leftarrow> arr_get (ht_table ?h) (nat (it_index it1));
         Some (d1, it1\<lparr>it_entry := chain\<rparr>, False)
       })"
    unfolding next_round_def using True by (simp only: d1 if_True Let_def prod.case) (simp add: st d1_def it1u)
  have idx: "0 \<le> it_index it1" using ok st by (simp add: it_ok_def)
  have hinv: "length (ht_table ?h) = ht_size ?h" by (rule ht_inv_length [OF dict_invD(4) [OF inv]])
  show ?thesis
  proof (cases "it_index it1 \<ge> int (ht_size ?h)")
    case out: True
    have nil: "drop (nat (it_index it + 1)) (ht_table ?h) = []" using out st hinv by simp
    show ?thesis
    proof (cases "dictIsRehashing d \<and> it_table it = 0")
      case True
      define it2 where "it2 = it1\<lparr>it_table := 1, it_index := 0, it_entry := ht_table (ht1 d) ! 0\<rparr>"
      have s1: "ht_size (ht1 d) \<noteq> 0" "length (ht_table (ht1 d)) = ht_size (ht1 d)"
        using dict_invD(2,6) [OF inv] True by auto
      then have "next_round a0 a1 d it = Some (d1, it2, False)" using step out True by (simp add: it2_def)
      moreover have "started it2 = started it1" using idx st by (simp add: started_def it2_def it1_def)
      moreover have "it_ok a0 a1 d it2" using ok1 True idx by (auto simp: it_ok_def it2_def)
      moreover have "it_rest d it = it_entry it2 @ it_rest d (it2\<lparr>it_entry := []\<rparr>)"
      proof -
        have "ht_table (ht1 d) = ht_table (ht1 d) ! 0 # drop 1 (ht_table (ht1 d))"
          using s1 by (metis Cons_nth_drop_Suc One_nat_def drop0 length_greater_0_conv list.size(3))
        then have "ht_entries (ht1 d) = ht_table (ht1 d) ! 0 @ concat (drop 1 (ht_table (ht1 d)))"
          unfolding ht_entries_def by (metis concat.simps(2))
        then show ?thesis using nil True \<open>it_entry it = []\<close> by (simp add: it_rest_def it2_def)
      qed
      moreover have "it_rounds d it2 < it_rounds d it" if "it_entry it2 = []"
        using that True s1(1) by (auto simp: it_rounds_def it2_def)
      ultimately show ?thesis using st by (auto simp: d1_def it2_def)
    next
      case False
      then have "next_round a0 a1 d it = Some (d1, it1, True)" using step out by auto
      moreover have "it_rest d it = []" using nil False \<open>it_entry it = []\<close> by (auto simp: it_rest_def)
      ultimately show ?thesis using ok1 st idx by (auto simp: d1_def)
    qed
  next
    case False
    define it2 where "it2 = it1\<lparr>it_entry := ht_table ?h ! nat (it_index it1)\<rparr>"
    have n: "nat (it_index it1) < length (ht_table ?h)" using False idx hinv by simp
    then have "next_round a0 a1 d it = Some (d1, it2, False)" using step False by (simp add: it2_def)
    moreover have "it_rest d it = it_entry it2 @ it_rest d (it2\<lparr>it_entry := []\<rparr>)"
    proof -
      have "drop (nat (it_index it1)) (ht_table ?h) = ht_table ?h ! nat (it_index it1) # drop (nat (it_index it1 + 1)) (ht_table ?h)"
        using n idx by (simp add: Cons_nth_drop_Suc nat_add_distrib)
      then have "concat (drop (nat (it_index it1)) (ht_table ?h)) = it_entry it2 @ concat (drop (nat (it_index it1 + 1)) (ht_table ?h))"
        by (simp add: it2_def)
      then show ?thesis using True st by (simp add: it_rest_def it2_def)
    qed
    moreover have "it_rounds d it2 < it_rounds d it" if "it_entry it2 = []"
      using that False True idx st by (auto simp: it_rounds_def it2_def)
    moreover have "it_ok a0 a1 d it2" using ok1 idx by (auto simp: it_ok_def it2_def)
    moreover have "started it2 = started it1" by (simp add: started_def it2_def)
    ultimately show ?thesis using st idx by (auto simp: d1_def it2_def)
  qed
qed

lemma next_loop_spec:
  assumes "dict_inv T d" "it_ok a0 a1 d it" "it_rounds d it < f"
  shows "\<exists>it'. next_loop f a0 a1 d it =
      Some (d\<lparr>iterators := iterators d - started it + started it'\<rparr>, it',
            case it_rest d it of [] \<Rightarrow> None | e # es \<Rightarrow> Some e) \<and>
    it_ok a0 a1 d it' \<and> it_index it' \<noteq> -1 \<and> it_safe it' = it_safe it \<and> it_rest d it' = tl (it_rest d it)"
  using assms
proof (induction f arbitrary: d it)
  case (Suc f)
  obtain it1 brk where r: "next_round a0 a1 d it = Some (d\<lparr>iterators := iterators d - started it + started it1\<rparr>, it1, brk)"
    "it_ok a0 a1 d it1" "it_index it1 \<noteq> -1" "it_safe it1 = it_safe it"
    "if brk then it_rest d it = [] \<and> it_entry it1 = []
     else it_rest d it = it_entry it1 @ it_rest d (it1\<lparr>it_entry := []\<rparr>) \<and>
       (it_entry it1 = [] \<longrightarrow> it_rounds d it1 < it_rounds d it)"
    using next_round_spec [OF Suc.prems(1,2)] by blast
  let ?d1 = "d\<lparr>iterators := iterators d - started it + started it1\<rparr>"
  show ?case
  proof (cases brk)
    case True
    have "it_rest d it1 = []"
    proof -
      have "next_round a0 a1 d it = Some (?d1, it1, True)" using r(1) True by simp
      then show ?thesis using next_round_break [OF Suc.prems(1,2)] by blast
    qed
    then show ?thesis using True r by auto
  next
    case False
    show ?thesis
    proof (cases "it_entry it1")
      case (Cons e es)
      have "it_rest d (it1\<lparr>it_nextEntry := es\<rparr>) = es @ it_rest d (it1\<lparr>it_entry := []\<rparr>)"
        using Cons by (simp add: it_rest_def)
      moreover have "it_ok a0 a1 d (it1\<lparr>it_nextEntry := es\<rparr>)" using r(2) by (simp add: it_ok_def)
      moreover have "started (it1\<lparr>it_nextEntry := es\<rparr>) = started it1" by (simp add: started_def)
      ultimately show ?thesis using False Cons r
        by (auto intro!: exI [of _ "it1\<lparr>it_nextEntry := es\<rparr>"])
    next
      case Nil
      have "it_ok a0 a1 ?d1 it1" using r(2) by (simp add: it_ok_def)
      moreover have "it_rounds ?d1 it1 < f" using r(5) False Nil Suc.prems(3) by simp
      ultimately obtain it2 where it2: "next_loop f a0 a1 ?d1 it1 =
          Some (?d1\<lparr>iterators := iterators ?d1 - started it1 + started it2\<rparr>, it2,
            case it_rest ?d1 it1 of [] \<Rightarrow> None | e # es \<Rightarrow> Some e)"
        "it_ok a0 a1 ?d1 it2" "it_index it2 \<noteq> -1" "it_safe it2 = it_safe it1" "it_rest ?d1 it2 = tl (it_rest ?d1 it1)"
        using Suc.IH [of ?d1 it1] Suc.prems(1) by auto
      have "it_rest d (it1\<lparr>it_entry := []\<rparr>) = it_rest d it1" using Nil by (simp add: it_rest_def)
      then have "it_rest d it1 = it_rest d it" using r(5) False Nil by simp
      then show ?thesis using it2 r False Nil by (auto simp: it_ok_def)
    qed
  qed
qed simp

lemma it_rounds_bound: "it_rounds d it \<le> dictSlots d + 2"
  by (auto simp: it_rounds_def dictSlots_def htab_def)

lemma iterate_all_spec:
  assumes "dict_inv T d" "it_ok a0 a1 d it" "length (it_rest d it) < f"
  shows "\<exists>it'. iterate_all f a0 a1 d it =
      Some (d\<lparr>iterators := iterators d - started it + started it'\<rparr>, it', it_rest d it) \<and>
    it_ok a0 a1 d it' \<and> it_index it' \<noteq> -1 \<and> it_safe it' = it_safe it"
  using assms
proof (induction f arbitrary: d it)
  case (Suc f)
  have "it_rounds d it < dictSlots d + 3" using it_rounds_bound [of d it] by simp
  then obtain it1 where n: "dictNext a0 a1 d it =
      Some (d\<lparr>iterators := iterators d - started it + started it1\<rparr>, it1,
            case it_rest d it of [] \<Rightarrow> None | e # es \<Rightarrow> Some e)"
    "it_ok a0 a1 d it1" "it_index it1 \<noteq> -1" "it_safe it1 = it_safe it" "it_rest d it1 = tl (it_rest d it)"
    using next_loop_spec [OF Suc.prems(1,2), of "dictSlots d + 3"] unfolding dictNext_def by blast
  let ?d1 = "d\<lparr>iterators := iterators d - started it + started it1\<rparr>"
  show ?case
  proof (cases "it_rest d it")
    case Nil
    then show ?thesis using n by auto
  next
    case (Cons e es)
    have "it_ok a0 a1 ?d1 it1" "length (it_rest ?d1 it1) < f"
      using n(2,5) Cons Suc.prems(3) by (simp_all add: it_ok_def)
    then obtain it2 where "iterate_all f a0 a1 ?d1 it1 =
        Some (?d1\<lparr>iterators := iterators ?d1 - started it1 + started it2\<rparr>, it2, it_rest ?d1 it1)"
      "it_ok a0 a1 ?d1 it2" "it_index it2 \<noteq> -1" "it_safe it2 = it_safe it1"
      using Suc.IH [of ?d1 it1] Suc.prems(1) by auto
    then show ?thesis using n Cons by (auto simp: it_ok_def)
  qed
qed simp

section \<open>Samples are entries\<close>

lemma arr_get_entries:
  assumes "arr_get (ht_table (htab d t)) i = Some b"
  shows "set b \<subseteq> set (entries d)"
proof -
  have "i < length (ht_table (htab d t))" "b = ht_table (htab d t) ! i"
    using assms by (auto simp: arr_get_def split: if_splits)
  then have "set b \<subseteq> set (ht_entries (htab d t))" using ht_entries_nth [of i "htab d t"] by blast
  then show ?thesis by (cases "t = 0") (auto simp: entries_def htab_def)
qed

lemma random_draw_entries: "random_draw d r = Some b \<Longrightarrow> set b \<subseteq> set (entries d)"
  using arr_get_entries [of d 0] arr_get_entries [of d 1]
  unfolding random_draw_def Let_def htab_simps by (metis (no_types, lifting))

text \<open>No draw leaves the tables.\<close>

lemma random_draw_safe:
  assumes "dict_inv T d" "entries d \<noteq> []"
  shows "\<exists>he. random_draw d r = Some he"
proof -
  note inv = dict_invD [OF assms(1)]
  have sz: "ht_size (ht0 d) \<le> 2 ^ 31" "ht_size (ht1 d) \<le> 2 ^ 31" using inv(1,2) ht_size_bound by blast+
  have len: "length (ht_table (ht0 d)) = ht_size (ht0 d)" "length (ht_table (ht1 d)) = ht_size (ht1 d)"
    using ht_inv_length [OF inv(1)] ht_inv_length [OF inv(2)] by simp_all
  show ?thesis
  proof (cases "dictIsRehashing d")
    case False
    then have "ht_entries (ht0 d) \<noteq> []" using assms(2) inv(5) by (simp add: entries_def dictIsRehashing_def)
    then have "ht_table (ht0 d) \<noteq> []" by (auto simp: ht_entries_def)
    then have "ht_size (ht0 d) \<noteq> 0" using len(1) by (metis length_0_conv)
    then obtain k where k: "ht_size (ht0 d) = 2 ^ k" "ht_sizemask (ht0 d) = mask k"
      using inv(1) unfolding ht_inv_def by (auto simp: mask_eq_exp_minus_1)
    have "r AND ht_sizemask (ht0 d) < ht_size (ht0 d)" unfolding k by (simp add: take_bit_eq_mask [symmetric])
    then have "(r AND ht_sizemask (ht0 d)) mod 2 ^ 32 < length (ht_table (ht0 d))" using sz len(1) by simp
    then show ?thesis using False by (simp add: random_draw_def arr_get_def)
  next
    case True
    then have rh: "nat (rehashidx d) \<le> ht_size (ht0 d)" "ht_size (ht1 d) \<noteq> 0" using inv(6) by auto
    define h where "h = nat (rehashidx d) + r mod (ht_size (ht0 d) + ht_size (ht1 d) - nat (rehashidx d))"
    have "r mod (ht_size (ht0 d) + ht_size (ht1 d) - nat (rehashidx d)) < ht_size (ht0 d) + ht_size (ht1 d) - nat (rehashidx d)"
      using rh by (intro mod_less_divisor) simp
    then have "h < ht_size (ht0 d) + ht_size (ht1 d)" using rh(1) by (simp add: h_def)
    moreover from this have "h mod 2 ^ 32 = h" using sz by simp
    ultimately show ?thesis using True len by (auto simp: random_draw_def Let_def arr_get_def h_def [symmetric])
  qed
qed

lemma random_bucket_safe:
  assumes "dict_inv T d" "entries d \<noteq> []"
  shows "\<exists>b. random_bucket f random d n = Some b \<and>
    (case b of Drawing \<Rightarrow> \<forall>i < f. random_draw d (random (n + i)) = Some [] | Drawn (he, n') \<Rightarrow> he \<noteq> [] \<and> set he \<subseteq> set (entries d))"
proof (induction f arbitrary: n)
  case (Suc f)
  obtain he where he: "random_draw d (random n) = Some he" using random_draw_safe [OF assms] by blast
  show ?case
  proof (cases "he = []")
    case True
    obtain b where b: "random_bucket f random d (n + 1) = Some b"
      "case b of Drawing \<Rightarrow> \<forall>i < f. random_draw d (random (n + 1 + i)) = Some [] | Drawn (he, n') \<Rightarrow> he \<noteq> [] \<and> set he \<subseteq> set (entries d)"
      using Suc.IH [of "n + 1"] by blast
    have "\<forall>i < Suc f. random_draw d (random (n + i)) = Some []" if "b = Drawing"
    proof (intro allI impI)
      fix i assume "i < Suc f"
      then show "random_draw d (random (n + i)) = Some []" using that b(2) he True by (cases i) auto
    qed
    then show ?thesis using he True b by (cases b) auto
  next
    case False
    then show ?thesis using he random_draw_entries [OF he] by simp
  qed
qed simp

text \<open>What a call of \<open>dictGetRandomKey\<close> does: it never faults, what it returns is an entry, and it
  goes on drawing only as long as every draw hits an empty bucket.\<close>

lemma dictGetRandomKey_exact:
  assumes "dict_inv T d"
  shows "\<exists>res. dictGetRandomKey fuel random T d = Some res \<and> (case res of
      Drawing \<Rightarrow> entries d \<noteq> [] \<and> (\<exists>d'. rehash_step_if T d = Some d' \<and> (\<forall>i < fuel. random_draw d' (random i) = Some []))
    | Drawn (d', r) \<Rightarrow> same_content T d d' \<and> (case r of None \<Rightarrow> entries d = [] | Some e \<Rightarrow> e \<in> set (entries d)))"
proof (cases "dictSize d = 0")
  case True
  then show ?thesis using assms dictSize_entries [OF assms] by (auto simp: dictGetRandomKey_def)
next
  case False
  then have ne: "entries d \<noteq> []" using dictSize_entries [OF assms] by auto
  obtain d1 where d1: "rehash_step_if T d = Some d1" "same_content T d d1" using rehash_step_if_content [OF assms] by blast
  then have inv: "dict_inv T d1" and m: "set (entries d1) = set (entries d)"
    unfolding same_content_def by (auto dest: mset_eq_setD)
  have "entries d1 \<noteq> []" using m ne by auto
  from random_bucket_safe [OF inv this, of fuel random 0] obtain b where b: "random_bucket fuel random d1 0 = Some b"
    "case b of Drawing \<Rightarrow> \<forall>i < fuel. random_draw d1 (random i) = Some [] | Drawn (he, n') \<Rightarrow> he \<noteq> [] \<and> set he \<subseteq> set (entries d1)"
    unfolding add_0 by blast
  show ?thesis
  proof (cases b)
    case Drawing
    then show ?thesis using False d1 b ne by (auto simp: dictGetRandomKey_def)
  next
    case (Drawn x)
    obtain he n where x: "x = (he, n)" by (cases x)
    have he: "he \<noteq> []" "set he \<subseteq> set (entries d)" using b(2) Drawn x m by auto
    then have l: "random n mod length he < length he" by simp
    then have "he ! (random n mod length he) \<in> set (entries d)" using he(2) nth_mem by blast
    then show ?thesis using False d1 b Drawn x l by (simp add: dictGetRandomKey_def Let_def arr_get_def)
  qed
qed

text \<open>Every entry can be drawn: the bucket and the position in it are values of \<open>random()\<close>.\<close>

lemma random_draw_hits:
  assumes "dict_inv T d" "e \<in> set (entries d)"
  shows "\<exists>r0 he. random_draw d r0 = Some he \<and> e \<in> set he"
proof -
  note inv = dict_invD [OF assms(1)]
  have bk: "\<exists>i < ht_size h. e \<in> set (ht_table h ! i)" if "ht_inv T h" "e \<in> set (ht_entries h)" for h
    using ht_inv_bucket [OF that] ht_index_less [OF that(1)] by blast
  have sz: "ht_size (ht0 d) \<le> 2 ^ 31" "ht_size (ht1 d) \<le> 2 ^ 31" using inv(1,2) ht_size_bound by blast+
  show ?thesis
  proof (cases "dictIsRehashing d")
    case False
    then have "e \<in> set (ht_entries (ht0 d))" using assms(2) inv(5) by (simp add: entries_def dictIsRehashing_def)
    then obtain i where i: "i < ht_size (ht0 d)" "e \<in> set (ht_table (ht0 d) ! i)" using bk [OF inv(1)] by blast
    then have nz: "ht_size (ht0 d) \<noteq> 0" by simp
    then obtain k where k: "ht_size (ht0 d) = 2 ^ k" "ht_sizemask (ht0 d) = mask k"
      using inv(1) unfolding ht_inv_def by (auto simp: mask_eq_exp_minus_1)
    have "i AND ht_sizemask (ht0 d) = i"
      using i(1) k by (simp add: take_bit_eq_mask [symmetric] take_bit_nat_eq_self_iff)
    then have "random_draw d i = Some (ht_table (ht0 d) ! i)"
      using False i sz ht_inv_length [OF inv(1)] by (auto simp: random_draw_def)
    then show ?thesis using i(2) by blast
  next
    case True
    then have rh: "0 \<le> rehashidx d" "nat (rehashidx d) \<le> ht_size (ht0 d)"
      "\<forall>i < nat (rehashidx d). ht_table (ht0 d) ! i = []" "ht_size (ht1 d) \<noteq> 0" using inv(6) by auto
    show ?thesis
    proof (cases "e \<in> set (ht_entries (ht0 d))")
      case in0: True
      then obtain i where i: "i < ht_size (ht0 d)" "e \<in> set (ht_table (ht0 d) ! i)" using bk [OF inv(1)] by blast
      then have ri: "nat (rehashidx d) \<le> i" using rh(3) by (metis empty_iff empty_set not_le)
      have "random_draw d (i - nat (rehashidx d)) = Some (ht_table (ht0 d) ! i)"
        using True i ri sz ht_inv_length [OF inv(1)] by (auto simp: random_draw_def Let_def)
      then show ?thesis using i(2) by blast
    next
      case False
      then have "e \<in> set (ht_entries (ht1 d))" using assms(2) by (simp add: entries_def)
      then obtain i where i: "i < ht_size (ht1 d)" "e \<in> set (ht_table (ht1 d) ! i)" using bk [OF inv(2)] by blast
      have m: "(ht_size (ht0 d) + i - nat (rehashidx d)) mod (ht_size (ht0 d) + ht_size (ht1 d) - nat (rehashidx d)) =
          ht_size (ht0 d) + i - nat (rehashidx d)" using i(1) rh(2) by simp
      have "random_draw d (ht_size (ht0 d) + i - nat (rehashidx d)) = Some (ht_table (ht1 d) ! i)"
        using True i rh(2) sz ht_inv_length [OF inv(2)] m by (auto simp: random_draw_def Let_def)
      then show ?thesis using i(2) by blast
    qed
  qed
qed

lemma dictGetRandomKey_reaches:
  assumes "dict_inv T d" "e \<in> set (entries d)"
  shows "\<exists>r0 j. (\<forall>fuel random. (\<exists>i < fuel. random i = r0) \<longrightarrow> (\<exists>d' e'. dictGetRandomKey fuel random T d = Some (Drawn (d', Some e')))) \<and>
    (\<exists>d'. dictGetRandomKey 1 (\<lambda>i. if i = 0 then r0 else j) T d = Some (Drawn (d', Some e)))"
proof -
  have ne: "entries d \<noteq> []" "dictSize d \<noteq> 0" using assms dictSize_entries [OF assms(1)] by auto
  obtain d1 where d1: "rehash_step_if T d = Some d1" "same_content T d d1" using rehash_step_if_content [OF assms(1)] by blast
  then have inv: "dict_inv T d1" "e \<in> set (entries d1)"
    using assms(2) unfolding same_content_def by (auto dest: mset_eq_setD)
  obtain r0 he where r0: "random_draw d1 r0 = Some he" "e \<in> set he" using random_draw_hits [OF inv] by blast
  obtain j where j: "j < length he" "he ! j = e" using r0(2) by (auto simp: in_set_conv_nth)
  have "\<exists>d' e'. dictGetRandomKey fuel random T d = Some (Drawn (d', Some e'))" if i: "i < fuel" "random i = r0" for fuel random i
  proof -
    obtain res where res: "dictGetRandomKey fuel random T d = Some res" "case res of
        Drawing \<Rightarrow> entries d \<noteq> [] \<and> (\<exists>d'. rehash_step_if T d = Some d' \<and> (\<forall>i < fuel. random_draw d' (random i) = Some []))
      | Drawn (d', r) \<Rightarrow> same_content T d d' \<and> (case r of None \<Rightarrow> entries d = [] | Some e \<Rightarrow> e \<in> set (entries d))"
      using dictGetRandomKey_exact [OF assms(1), of fuel random] by blast
    have "res \<noteq> Drawing" using res(2) i d1(1) r0 by auto
    then obtain d' r where "res = Drawn (d', r)" by (cases res) auto
    then show ?thesis using res ne(1) by (cases r) auto
  qed
  moreover have "dictGetRandomKey 1 (\<lambda>i. if i = 0 then r0 else j) T d = Some (Drawn (d1, Some e))"
    using ne(2) d1(1) r0 j by (auto simp: dictGetRandomKey_def Let_def arr_get_def)
  ultimately show ?thesis by blast
qed

lemma rehash_steps_content:
  "dict_inv T d \<Longrightarrow> \<exists>d'. rehash_steps T n d = Some d' \<and> same_content T d d'"
proof (induction n arbitrary: d)
  case (Suc n)
  show ?case
  proof (cases "dictIsRehashing d")
    case True
    then obtain d1 where d1: "dictRehashStep T d = Some d1" "same_content T d d1"
      using rehash_step_if_content [OF Suc.prems] by (auto simp: rehash_step_if_def)
    then obtain d2 where "rehash_steps T n d1 = Some d2" "same_content T d1 d2"
      using Suc.IH [of d1] by (auto simp: same_content_def)
    then show ?thesis using True d1 by (auto simp: same_content_def)
  qed (use Suc.prems in simp)
qed simp

definition sample_ok :: "('k, 'v) dict \<Rightarrow> nat \<Rightarrow> ('k, 'v) some_keys \<Rightarrow> bool" where
  "sample_ok d cnt s \<longleftrightarrow> set (sk_des s) \<subseteq> set (entries d) \<and> length (sk_des s) \<le> cnt"

lemma some_keys_table_ok:
  assumes "dict_inv T d" "sample_ok d cnt s"
  shows "\<exists>s'. some_keys_table random d tables m cnt j s = Some s' \<and> sample_ok d cnt s'"
proof (cases "sk_i s < ht_size (htab d j)")
  case True
  have l: "length (ht_table (htab d j)) = ht_size (htab d j)" by (rule ht_inv_length [OF dict_invD(4) [OF assms(1)]])
  have "set (ht_table (htab d j) ! sk_i s) \<subseteq> set (ht_entries (htab d j))"
    using ht_entries_nth [of "sk_i s" "htab d j"] True l by auto
  then have "set (ht_table (htab d j) ! sk_i s) \<subseteq> set (entries d)"
    by (auto simp: entries_def htab_def split: if_splits)
  then have "set (take n (ht_table (htab d j) ! sk_i s)) \<subseteq> set (entries d)" for n
    by (meson set_take_subset subset_trans)
  then show ?thesis
    using True l assms(2) by (auto simp: some_keys_table_def sample_ok_def Let_def)
qed (use assms(2) in \<open>auto simp: some_keys_table_def sample_ok_def\<close>)

lemma some_keys_loop_ok:
  assumes "dict_inv T d" "sample_ok d cnt s"
  shows "\<exists>des. some_keys_loop n random d tables m cnt s = Some des \<and>
    set des \<subseteq> set (entries d) \<and> length des \<le> cnt"
  using assms(2)
proof (induction n arbitrary: s)
  case (Suc n)
  obtain s1 where s1: "some_keys_table random d tables m cnt 0 s = Some s1" "sample_ok d cnt s1"
    using some_keys_table_ok [OF assms(1) Suc.prems] by blast
  obtain s2 where s2: "(if tables = 2 then some_keys_table random d tables m cnt 1 s1 else Some s1) = Some s2"
    "sample_ok d cnt s2"
    using some_keys_table_ok [OF assms(1) s1(2), of random tables m 1] s1(2) by (cases "tables = 2") auto
  have "sample_ok d cnt (s2\<lparr>sk_i := (sk_i s2 + 1) AND m\<rparr>)" using s2(2) by (simp add: sample_ok_def)
  then obtain des where "some_keys_loop n random d tables m cnt (s2\<lparr>sk_i := (sk_i s2 + 1) AND m\<rparr>) = Some des"
    "set des \<subseteq> set (entries d)" "length des \<le> cnt" using Suc.IH by blast
  then show ?case using s1 s2 Suc.prems unfolding some_keys_loop.simps by (auto simp: sample_ok_def)
qed (simp add: sample_ok_def)

lemma dictGetSomeKeys_ok:
  assumes "dict_inv T d"
  shows "\<exists>d' des. dictGetSomeKeys random T d n = Some (d', des) \<and> same_content T d d' \<and>
    set des \<subseteq> set (entries d) \<and> length des \<le> min n (dictSize d)"
proof -
  define cnt where "cnt = (if dictSize d < n then dictSize d else n)"
  obtain d1 where d1: "rehash_steps T cnt d = Some d1" "same_content T d d1"
    using rehash_steps_content [OF assms] by blast
  have inv: "dict_inv T d1" "set (entries d1) = set (entries d)"
    using d1(2) unfolding same_content_def by (auto dest: mset_eq_setD)
  define tables where "tables = (if dictIsRehashing d1 then 2 else 1 :: nat)"
  define m where "m = (if tables > 1 \<and> ht_sizemask (ht0 d1) < ht_sizemask (ht1 d1)
                          then ht_sizemask (ht1 d1) else ht_sizemask (ht0 d1))"
  let ?s = "\<lparr>sk_i = random 0 AND m, sk_emptylen = 0, sk_des = [], sk_draws = 1\<rparr>"
  have "sample_ok d1 cnt ?s" by (simp add: sample_ok_def)
  then obtain des where des: "some_keys_loop ((cnt * 10) mod 2 ^ 32) random d1 tables m cnt ?s = Some des"
    "set des \<subseteq> set (entries d1)" "length des \<le> cnt"
    using some_keys_loop_ok [OF inv(1)] by blast
  have "dictGetSomeKeys random T d n = Some (d1, des)"
    unfolding dictGetSomeKeys_def Let_def cnt_def [symmetric] d1(1)
    using des(1) by (simp add: m_def tables_def)
  then show ?thesis using d1(2) des(2,3) inv(2) by (auto simp: cnt_def split: if_splits)
qed

section \<open>Properties\<close>

lemma iterate_release:
  assumes "dict_inv T d" "it_ok a0 a1 d it" "it_index it = -1" "it_table it = 0"
  shows "\<exists>d1 it1. iterate_all (Suc (length (entries d))) a0 a1 d it = Some (d1, it1, entries d) \<and>
    d1 = d\<lparr>iterators := iterators d + (if it_safe it then 1 else 0)\<rparr> \<and> dictReleaseIterator a0 a1 d1 it1 = Some d"
proof -
  have e: "it_entry it = []" using assms(2,3) by (simp add: it_ok_def)
  have rest: "it_rest d it = entries d"
    using dict_invD(5) [OF assms(1)] e assms(3,4)
    by (auto simp: it_rest_def entries_def ht_entries_def dictIsRehashing_def)
  have s0: "started it = 0" using assms(3) by (simp add: started_def)
  obtain it1 where it1: "iterate_all (Suc (length (entries d))) a0 a1 d it =
      Some (d\<lparr>iterators := iterators d + started it1\<rparr>, it1, entries d)"
    "it_ok a0 a1 d it1" "it_index it1 \<noteq> -1" "it_safe it1 = it_safe it"
    using iterate_all_spec [OF assms(1,2), of "Suc (length (entries d))"] unfolding rest s0 by auto
  have "dictReleaseIterator a0 a1 (d\<lparr>iterators := iterators d + started it1\<rparr>) it1 = Some d"
    using it1(2,3) by (auto simp: dictReleaseIterator_def started_def it_ok_def)
  then show ?thesis using it1 by (auto simp: started_def)
qed

text \<open>C26: calling \<open>dictNext\<close> until it returns \<open>NULL\<close> on an unmodified dictionary, with an unsafe or
  a safe iterator and also in the middle of a rehash, always ends and returns every entry
  exactly once (the entries of the first table in bucket order, then those of the second).  A
  safe iterator is registered while it is active, so rehashing pauses, and releasing either
  kind succeeds (the fingerprint check included) and restores the dictionary.\<close>

theorem iterator_complete:
  assumes "dict_inv T d"
  shows "(\<exists>d1 it1. iterate_all (Suc (length (entries d))) a0 a1 d (dictGetIterator junk) = Some (d1, it1, entries d) \<and>
      d1 = d \<and> dictReleaseIterator a0 a1 d1 it1 = Some d) \<and>
    (\<exists>d1 it1. iterate_all (Suc (length (entries d))) a0 a1 d (dictGetSafeIterator junk) = Some (d1, it1, entries d) \<and>
      iterators d1 = iterators d + 1 \<and> dictReleaseIterator a0 a1 d1 it1 = Some d)"
proof
  have ok: "it_ok a0 a1 d (dictGetIterator junk)" "it_ok a0 a1 d (dictGetSafeIterator junk)"
    by (simp_all add: it_ok_def dictGetIterator_def dictGetSafeIterator_def)
  show "\<exists>d1 it1. iterate_all (Suc (length (entries d))) a0 a1 d (dictGetIterator junk) = Some (d1, it1, entries d) \<and>
      d1 = d \<and> dictReleaseIterator a0 a1 d1 it1 = Some d"
    using iterate_release [OF assms ok(1)] by (simp add: dictGetIterator_def del: iterate_all.simps)
  show "\<exists>d1 it1. iterate_all (Suc (length (entries d))) a0 a1 d (dictGetSafeIterator junk) = Some (d1, it1, entries d) \<and>
      iterators d1 = iterators d + 1 \<and> dictReleaseIterator a0 a1 d1 it1 = Some d"
    using iterate_release [OF assms ok(2)]
    by (auto simp: dictGetIterator_def dictGetSafeIterator_def simp del: iterate_all.simps)
qed

theorem iterator_complete_witness:
  "\<exists>d1 it1. iterate_all 6 0 0 nat_dict_example (dictGetSafeIterator 0) =
      Some (d1, it1, [(2, 20), (7, 70), (3, 30), (1, 10), (4, 40)]) \<and>
    iterators d1 = 1 \<and> dictReleaseIterator 0 0 d1 it1 = Some nat_dict_example"
proof -
  have e: "entries nat_dict_example = [(2, 20), (7, 70), (3, 30), (1, 10), (4, 40)]"
    "iterators nat_dict_example = 0"
    by (simp_all add: entries_def ht_entries_def nat_dict_example_def)
  have n: "Suc (length (entries nat_dict_example)) = 6" unfolding e by simp
  show ?thesis
    using iterator_complete [OF nat_dict_example_inv, of 0 0 0] unfolding n unfolding e by auto
qed

text \<open>C27: the samplers never leave the tables, what they return is in the dictionary, and they
  change only the state of the rehash.  \<open>dictGetRandomKey\<close> returns \<open>NULL\<close> only for an empty
  dictionary.  For every entry there is a value of \<open>random()\<close> such that a call returns as soon
  as \<open>random()\<close> gives that value, and an outcome of \<open>random()\<close> with which the first draw returns
  that entry.  \<open>dictGetSomeKeys\<close> always ends, and returns at most the number asked for and at most
  the number there is.\<close>

theorem samplers_sound:
  assumes "dict_type_ok T" "dict_inv T d"
  shows "(\<exists>res. dictGetRandomKey fuel random T d = Some res \<and> (case res of
      Drawing \<Rightarrow> entries d \<noteq> []
    | Drawn (d', r) \<Rightarrow> dict_map T d' = dict_map T d \<and> (case r of None \<Rightarrow> entries d = [] | Some e \<Rightarrow> e \<in> set (entries d)))) \<and>
    (\<forall>e \<in> set (entries d). \<exists>r0 j.
      (\<forall>fuel random. (\<exists>i < fuel. random i = r0) \<longrightarrow> (\<exists>d' e'. dictGetRandomKey fuel random T d = Some (Drawn (d', Some e')))) \<and>
      (\<exists>d'. dictGetRandomKey 1 (\<lambda>i. if i = 0 then r0 else j) T d = Some (Drawn (d', Some e)))) \<and>
    (\<exists>d' des. dictGetSomeKeys random T d n = Some (d', des) \<and> dict_map T d' = dict_map T d \<and>
      set des \<subseteq> set (entries d) \<and> length des \<le> min n (dictSize d))"
proof (intro conjI ballI)
  show "\<exists>res. dictGetRandomKey fuel random T d = Some res \<and> (case res of
      Drawing \<Rightarrow> entries d \<noteq> []
    | Drawn (d', r) \<Rightarrow> dict_map T d' = dict_map T d \<and> (case r of None \<Rightarrow> entries d = [] | Some e \<Rightarrow> e \<in> set (entries d)))"
    using dictGetRandomKey_exact [OF assms(2), of fuel random] same_contentD(2) [OF assms] by (fastforce split: draws.splits)
  show "\<exists>r0 j. (\<forall>fuel random. (\<exists>i < fuel. random i = r0) \<longrightarrow> (\<exists>d' e'. dictGetRandomKey fuel random T d = Some (Drawn (d', Some e')))) \<and>
      (\<exists>d'. dictGetRandomKey 1 (\<lambda>i. if i = 0 then r0 else j) T d = Some (Drawn (d', Some e)))" if "e \<in> set (entries d)" for e
    by (rule dictGetRandomKey_reaches [OF assms(2) that])
  show "\<exists>d' des. dictGetSomeKeys random T d n = Some (d', des) \<and> dict_map T d' = dict_map T d \<and>
      set des \<subseteq> set (entries d) \<and> length des \<le> min n (dictSize d)"
    using dictGetSomeKeys_ok [OF assms(2), of random n] same_contentD(2) [OF assms] by blast
qed

theorem samplers_sound_witness:
  "(\<exists>r0 j d'. dictGetRandomKey 1 (\<lambda>i. if i = 0 then r0 else j) nat_dict_type nat_dict_example = Some (Drawn (d', Some (4, 40)))) \<and>
   (\<exists>d' des. dictGetSomeKeys (\<lambda>_. 1) nat_dict_type nat_dict_example 3 = Some (d', des) \<and> length des \<le> 3)"
proof -
  have "(4, 40) \<in> set (entries nat_dict_example)" by (simp add: entries_def ht_entries_def nat_dict_example_def)
  then show ?thesis
    using samplers_sound [OF nat_dict_type_ok nat_dict_example_inv, where random = "\<lambda>_. 1" and n = 3] by fastforce
qed

end
