(* ===== verification/Dict_Types.thy ===== *)
theory Dict_Types
  imports Dict_Map Glob
begin

text \<open>
  The hash functions of \<^verbatim>\<open>dict.c\<close> and the callbacks of \<^verbatim>\<open>server.c\<close> that make up the server's
  dictionary types (the keyspace, expires, hashes, sets, sorted sets, blocked keys, the
  command table).  The theory shows that these callbacks meet the contract \<open>dict_type_ok\<close> on
  which the map refinement of the dictionary rests.
\<close>

section \<open>Hash functions\<close>

definition dictIntHashFunction :: "32 word \<Rightarrow> 32 word" where
  "dictIntHashFunction key = (
     let key = key + NOT (push_bit 15 key);
         key = key XOR drop_bit 10 key;
         key = key + push_bit 3 key;
         key = key XOR drop_bit 6 key;
         key = key + NOT (push_bit 11 key)
     in key XOR drop_bit 16 key)"

text \<open>MurmurHash2 on a little-endian machine; \<open>seed\<close> is \<open>dict_hash_function_seed\<close>.\<close>

definition murmur_m :: "32 word" where "murmur_m = 0x5bd1e995"

definition murmur_mix :: "32 word \<Rightarrow> 32 word \<Rightarrow> 32 word" where
  "murmur_mix h k = (
     let k = k * murmur_m;
         k = k XOR drop_bit 24 k;
         k = k * murmur_m
     in (h * murmur_m) XOR k)"

fun murmur_loop :: "32 word \<Rightarrow> bytes \<Rightarrow> 32 word" where
  "murmur_loop h (b0 # b1 # b2 # b3 # data) = murmur_loop (murmur_mix h (word_of_nat (le_val [b0, b1, b2, b3]))) data"
| "murmur_loop h [b0, b1, b2] =
     (let h = h XOR push_bit 16 (ucast b2); h = h XOR push_bit 8 (ucast b1) in (h XOR ucast b0) * murmur_m)"
| "murmur_loop h [b0, b1] = (let h = h XOR push_bit 8 (ucast b1) in (h XOR ucast b0) * murmur_m)"
| "murmur_loop h [b0] = (h XOR ucast b0) * murmur_m"
| "murmur_loop h [] = h"

definition dictGenHashFunction :: "32 word \<Rightarrow> bytes \<Rightarrow> 32 word" where
  "dictGenHashFunction seed key = (
     let h = murmur_loop (seed XOR word_of_nat (length key)) key;
         h = h XOR drop_bit 13 h;
         h = h * murmur_m
     in h XOR drop_bit 15 h)"

text \<open>\<open>*buf\<close> is an \<open>unsigned char\<close> here, so \<open>tolower\<close> of the C locale sees 0 to 255.\<close>

definition dictGenCaseHashFunction :: "32 word \<Rightarrow> bytes \<Rightarrow> 32 word" where
  "dictGenCaseHashFunction seed buf =
     foldl (\<lambda>hash b. (push_bit 5 hash + hash) + word_of_int (tolower (uint b))) seed buf"

section \<open>String objects and callbacks\<close>

text \<open>A string object is sds-encoded or holds a \<open>long\<close> in its pointer.\<close>

datatype robj = RStr bytes | RInt "64 word"

definition getDecodedObject :: "robj \<Rightarrow> bytes option" where
  "getDecodedObject o' = (case o' of RStr s \<Rightarrow> Some s
     | RInt w \<Rightarrow> do { (buf, n) \<leftarrow> ll2string (replicate 32 0) 32 (sint w); Some (takeWhile (\<lambda>b. b \<noteq> 0) buf) })"

text \<open>The code keeps the two lengths, and the length that the hash functions take, in an \<open>int\<close>: the definitions are about keys below
  \<open>2 ^ 31\<close> bytes.  The commands accept strings up to 512 MB.\<close>

definition dictSdsKeyCompare :: "bytes \<Rightarrow> bytes \<Rightarrow> bool" where
  "dictSdsKeyCompare key1 key2 = (if length key1 \<noteq> length key2 then False else key1 = key2)"

text \<open>\<open>strcasecmp\<close> stops at the first zero byte.\<close>

definition dictSdsKeyCaseCompare :: "bytes \<Rightarrow> bytes \<Rightarrow> bool" where
  "dictSdsKeyCaseCompare key1 key2 \<longleftrightarrow>
     map (\<lambda>b. tolower (uint b)) (takeWhile (\<lambda>b. b \<noteq> 0) key1) =
     map (\<lambda>b. tolower (uint b)) (takeWhile (\<lambda>b. b \<noteq> 0) key2)"

definition dictEncObjKeyCompare :: "robj \<Rightarrow> robj \<Rightarrow> bool" where
  "dictEncObjKeyCompare o1 o2 = (case (o1, o2) of
     (RInt w1, RInt w2) \<Rightarrow> w1 = w2
   | _ \<Rightarrow> (case (getDecodedObject o1, getDecodedObject o2) of
       (Some s1, Some s2) \<Rightarrow> dictSdsKeyCompare s1 s2 | _ \<Rightarrow> False))"

definition dictSdsHash :: "32 word \<Rightarrow> bytes \<Rightarrow> 32 word" where
  "dictSdsHash seed key = dictGenHashFunction seed key"

definition dictSdsCaseHash :: "32 word \<Rightarrow> bytes \<Rightarrow> 32 word" where
  "dictSdsCaseHash seed key = dictGenCaseHashFunction seed key"

definition dictEncObjHash :: "32 word \<Rightarrow> robj \<Rightarrow> 32 word" where
  "dictEncObjHash seed key = (case key of RStr s \<Rightarrow> dictGenHashFunction seed s
     | RInt w \<Rightarrow> (case ll2string (replicate 32 0) 32 (sint w) of
         Some (buf, len) \<Rightarrow> dictGenHashFunction seed (take len buf) | None \<Rightarrow> 0))"

section \<open>The dictionary types\<close>

definition dbDictType :: "32 word \<Rightarrow> (bytes, 'v) dictType" where
  "dbDictType seed = \<lparr>hashFunction = dictSdsHash seed, keyDup = None, valDup = None,
     keyCompare = Some dictSdsKeyCompare, keyDestructor = True, valDestructor = True\<rparr>"

definition keyptrDictType :: "32 word \<Rightarrow> (bytes, 'v) dictType" where
  "keyptrDictType seed = \<lparr>hashFunction = dictSdsHash seed, keyDup = None, valDup = None,
     keyCompare = Some dictSdsKeyCompare, keyDestructor = False, valDestructor = False\<rparr>"

definition setDictType :: "32 word \<Rightarrow> (robj, 'v) dictType" where
  "setDictType seed = \<lparr>hashFunction = dictEncObjHash seed, keyDup = None, valDup = None,
     keyCompare = Some dictEncObjKeyCompare, keyDestructor = True, valDestructor = False\<rparr>"

definition zsetDictType :: "32 word \<Rightarrow> (robj, 'v) dictType" where
  "zsetDictType seed = \<lparr>hashFunction = dictEncObjHash seed, keyDup = None, valDup = None,
     keyCompare = Some dictEncObjKeyCompare, keyDestructor = True, valDestructor = False\<rparr>"

definition hashDictType :: "32 word \<Rightarrow> (robj, 'v) dictType" where
  "hashDictType seed = \<lparr>hashFunction = dictEncObjHash seed, keyDup = None, valDup = None,
     keyCompare = Some dictEncObjKeyCompare, keyDestructor = True, valDestructor = True\<rparr>"

definition commandTableDictType :: "32 word \<Rightarrow> (bytes, 'v) dictType" where
  "commandTableDictType seed = \<lparr>hashFunction = dictSdsCaseHash seed, keyDup = None, valDup = None,
     keyCompare = Some dictSdsKeyCaseCompare, keyDestructor = True, valDestructor = False\<rparr>"

text \<open>\<open>htNeedsResize\<close> and what \<open>databasesCron\<close> does with it.\<close>

definition HASHTABLE_MIN_FILL :: int where "HASHTABLE_MIN_FILL = 10"

definition htNeedsResize :: "('k, 'v) dict \<Rightarrow> bool" where
  "htNeedsResize d \<longleftrightarrow>
     int (dictSlots d) > int DICT_HT_INITIAL_SIZE \<and>
     int (dictSize d) * 100 div int (dictSlots d) < HASHTABLE_MIN_FILL"

definition tryResizeHashTable :: "bool \<Rightarrow> ('k, 'v) dict \<Rightarrow> ('k, 'v) dict" where
  "tryResizeHashTable can_resize d = (if htNeedsResize d then fst (dictResize can_resize d) else d)"

section \<open>The callbacks are a congruence\<close>

lemma dec_no_zero: "0 \<notin> set (dec v)"
proof (induction v rule: dec.induct)
  case (1 v)
  have "(48 + of_nat d :: byte) \<noteq> 0" if "d < 10" for d
    using that by (auto simp: word_eq_iff_unsigned [where ?'a = nat] unat_word_ariths unat_of_nat_byte)
  then show ?case using 1 by (subst dec.simps) auto
qed

lemma idec_no_zero: "0 \<notin> set (idec v)"
  by (simp add: idec_def dec_no_zero)

lemma idec_inj: "int64_range v \<Longrightarrow> int64_range w \<Longrightarrow> idec v = idec w \<longleftrightarrow> v = w"
  using string2ll_iff [of "idec v" v] string2ll_iff [of "idec v" w] by auto

lemma sint_range: "int64_range (sint (w :: 64 word))"
  using sint_range_size [of w] by (simp add: int64_range_def word_size)

text \<open>The bytes of a string object, whatever its encoding.\<close>

definition obj_bytes :: "robj \<Rightarrow> bytes" where
  "obj_bytes o' = (case o' of RStr s \<Rightarrow> s | RInt w \<Rightarrow> idec (sint w))"

lemma ll2string_buf32:
  "ll2string (replicate 32 0) 32 (sint (w :: 64 word)) =
     Some (idec (sint w) @ replicate (32 - length (idec (sint w))) 0, length (idec (sint w)))"
proof -
  have "length (idec (sint w)) \<le> 20" by (rule length_idec_le [OF sint_range])
  then show ?thesis
    using ll2string_writes [OF sint_range [of w], of 32 "replicate 32 0"]
    by (simp flip: replicate_Suc add: Suc_diff_Suc)
qed

lemma getDecodedObject_bytes: "getDecodedObject o' = Some (obj_bytes o')"
proof (cases o')
  case (RInt w)
  have "takeWhile (\<lambda>b. b \<noteq> 0) (idec (sint w) @ replicate n 0) = idec (sint w)" for n
    using idec_no_zero [of "sint w"] by (subst takeWhile_append2) (auto simp: takeWhile_replicate)
  then show ?thesis using RInt by (simp add: getDecodedObject_def obj_bytes_def ll2string_buf32)
qed (simp add: getDecodedObject_def obj_bytes_def)

lemma dictEncObjKeyCompare_bytes: "dictEncObjKeyCompare o1 o2 \<longleftrightarrow> obj_bytes o1 = obj_bytes o2"
proof -
  have "idec (sint w1) = idec (sint w2) \<longleftrightarrow> w1 = w2" for w1 w2 :: "64 word"
    using idec_inj [OF sint_range sint_range] by (metis signed_word_eqI)
  then show ?thesis
    unfolding dictEncObjKeyCompare_def getDecodedObject_bytes dictSdsKeyCompare_def
    by (auto simp: obj_bytes_def split: robj.splits)
qed

lemma dictEncObjHash_bytes: "dictEncObjHash seed o' = dictGenHashFunction seed (obj_bytes o')"
  by (cases o') (simp_all add: dictEncObjHash_def obj_bytes_def ll2string_buf32)

text \<open>A type whose comparison and hash both go through one view of the key.\<close>

lemma dict_type_okI:
  assumes "keyCompare T = Some cmp" "\<And>k k'. cmp k k' \<longleftrightarrow> view k = view k'"
    and "\<And>k. hashFunction T k = hash (view k)" "keyDup T = None"
  shows "dict_type_ok T"
proof -
  have k: "keyEq T k k' \<longleftrightarrow> view k = view k'" for k k'
    using assms(1,2) by (auto simp: keyEq_def dictCompareKeys_def)
  show ?thesis
    unfolding dict_type_ok_def k using assms(3,4)
    by (auto simp: dictSetKey_def k intro!: equivpI reflpI sympI transpI)
qed

lemma case_hash_fold:
  "dictGenCaseHashFunction seed buf =
     foldl (\<lambda>hash c. (push_bit 5 hash + hash) + word_of_int c) seed (map (\<lambda>b. tolower (uint b)) buf)"
  unfolding dictGenCaseHashFunction_def by (induction buf arbitrary: seed) simp_all

section \<open>Properties\<close>

text \<open>C25: the callbacks the server installs satisfy what the dictionary needs: comparing is an
  equivalence and equal keys have equal hashes, for the keyspace and the expires table
  (binary-safe strings) and for hashes, sets and sorted sets, whose keys are objects that may be
  integer-encoded.  There an integer object and a string object are the same key exactly if the
  string is the canonical decimal representation of the integer, and integer-encoded keys are
  hashed through the same representation.\<close>

theorem server_dict_types_ok:
  "dict_type_ok (dbDictType seed) \<and> dict_type_ok (keyptrDictType seed) \<and>
   dict_type_ok (setDictType seed) \<and> dict_type_ok (zsetDictType seed) \<and> dict_type_ok (hashDictType seed) \<and>
   (\<forall>w s. keyEq (setDictType seed) (RInt w) (RStr s) \<longleftrightarrow> string2ll s = Some (sint w))"
proof (intro conjI allI)
  show "dict_type_ok (dbDictType seed)" "dict_type_ok (keyptrDictType seed)"
    by (rule dict_type_okI [where view = id and cmp = dictSdsKeyCompare and hash = "dictGenHashFunction seed"];
      auto simp: dbDictType_def keyptrDictType_def dictSdsKeyCompare_def dictSdsHash_def)+
  show "dict_type_ok (setDictType seed)" "dict_type_ok (zsetDictType seed)" "dict_type_ok (hashDictType seed)"
    by (rule dict_type_okI [where view = obj_bytes and cmp = dictEncObjKeyCompare and hash = "dictGenHashFunction seed"];
      simp add: setDictType_def zsetDictType_def hashDictType_def dictEncObjKeyCompare_bytes dictEncObjHash_bytes)+
  fix w s
  show "keyEq (setDictType seed) (RInt w) (RStr s) \<longleftrightarrow> string2ll s = Some (sint w)"
    using sint_range [of w]
    by (auto simp: keyEq_def dictCompareKeys_def setDictType_def dictEncObjKeyCompare_bytes obj_bytes_def string2ll_iff)
qed

text \<open>C35: in the command table, names that differ only in ASCII case and contain no zero byte
  compare equal and fall into the same bucket whatever the size of the table, so the lookup of a
  command does not depend on how the client spells it.\<close>

theorem command_table_case_insensitive:
  assumes "0 \<notin> set name1" "0 \<notin> set name2"
    and "map (\<lambda>b. tolower (uint b)) name1 = map (\<lambda>b. tolower (uint b)) name2"
  shows "keyEq (commandTableDictType seed) name1 name2 \<and>
    dictHashKey (commandTableDictType seed) name1 AND m = dictHashKey (commandTableDictType seed) name2 AND m"
proof -
  have "0 \<notin> set s \<Longrightarrow> takeWhile (\<lambda>b. b \<noteq> 0) s = s" for s :: bytes by (induction s) auto
  then have t: "takeWhile (\<lambda>b. b \<noteq> 0) name1 = name1" "takeWhile (\<lambda>b. b \<noteq> 0) name2 = name2"
    using assms(1,2) by blast+
  have "dictSdsKeyCaseCompare name1 name2" unfolding dictSdsKeyCaseCompare_def t by (rule assms(3))
  then show ?thesis
    using assms(3)
    by (simp add: keyEq_def dictCompareKeys_def commandTableDictType_def
        dictHashKey_def dictSdsCaseHash_def case_hash_fold)
qed

theorem command_table_case_insensitive_witness:
  "keyEq (commandTableDictType 5381) [71, 69, 84] [103, 101, 116] \<and>
   dictHashKey (commandTableDictType 5381) [71, 69, 84] AND 255 =
     dictHashKey (commandTableDictType 5381) [103, 101, 116] AND 255"
  using command_table_case_insensitive [of "[71, 69, 84]" "[103, 101, 116]" 5381 255]
  by (simp add: tolower_def)

end
