(* ===== verification/Ziplist.thy ===== *)
theory Ziplist
  imports Util Interfaces
begin

unbundle bit_operations_syntax

text \<open>
  The ziplist of \<^verbatim>\<open>ziplist.c\<close>, the compact encoding of small lists, hashes and sorted sets.
  A ziplist is its block of bytes; a pointer into it is an offset.  Every read, write and move
  checks the bounds of the block (\<open>None\<close> is a fault or a failed assert), the header fields
  and lengths are truncated to their widths where the code stores them, and integers are
  kept in the little-endian order the format prescribes.
\<close>

section \<open>Encodings\<close>

definition ZIP_END :: byte where "ZIP_END = 255"
definition ZIP_BIGLEN :: nat where "ZIP_BIGLEN = 254"
definition ZIP_STR_MASK :: byte where "ZIP_STR_MASK = 0xc0"
definition ZIP_STR_06B :: byte where "ZIP_STR_06B = 0"
definition ZIP_STR_14B :: byte where "ZIP_STR_14B = 0x40"
definition ZIP_STR_32B :: byte where "ZIP_STR_32B = 0x80"
definition ZIP_INT_16B :: byte where "ZIP_INT_16B = 0xc0"
definition ZIP_INT_32B :: byte where "ZIP_INT_32B = 0xd0"
definition ZIP_INT_64B :: byte where "ZIP_INT_64B = 0xe0"
definition ZIP_INT_24B :: byte where "ZIP_INT_24B = 0xf0"
definition ZIP_INT_8B :: byte where "ZIP_INT_8B = 0xfe"
definition ZIP_INT_IMM_MIN :: byte where "ZIP_INT_IMM_MIN = 0xf1"
definition ZIP_INT_IMM_MAX :: byte where "ZIP_INT_IMM_MAX = 0xfd"

lemmas zip_consts = ZIP_END_def ZIP_BIGLEN_def ZIP_STR_MASK_def ZIP_STR_06B_def ZIP_STR_14B_def
  ZIP_STR_32B_def ZIP_INT_16B_def ZIP_INT_32B_def ZIP_INT_64B_def ZIP_INT_24B_def ZIP_INT_8B_def
  ZIP_INT_IMM_MIN_def ZIP_INT_IMM_MAX_def

definition ZIPLIST_HEADER_SIZE :: nat where "ZIPLIST_HEADER_SIZE = 10"
definition ZIPLIST_END_SIZE :: nat where "ZIPLIST_END_SIZE = 1"

definition ZIP_IS_STR :: "byte \<Rightarrow> bool" where
  "ZIP_IS_STR enc = (enc AND ZIP_STR_MASK < ZIP_STR_MASK)"

definition ZIP_ENTRY_ENCODING :: "byte \<Rightarrow> byte" where
  "ZIP_ENTRY_ENCODING b = (if b < ZIP_STR_MASK then b AND ZIP_STR_MASK else b)"

definition zipIntSize :: "byte \<Rightarrow> nat" where
  "zipIntSize encoding =
     (if encoding = ZIP_INT_8B then 1
      else if encoding = ZIP_INT_16B then 2
      else if encoding = ZIP_INT_24B then 3
      else if encoding = ZIP_INT_32B then 4
      else if encoding = ZIP_INT_64B then 8
      else 0)"

text \<open>The bytes \<open>zipEncodeLength\<close> stores; called with \<open>NULL\<close> it returns their number.\<close>

definition encode_length_buf :: "byte \<Rightarrow> nat \<Rightarrow> bytes" where
  "encode_length_buf encoding rawlen =
     (if ZIP_IS_STR encoding then
        (if rawlen \<le> 0x3f then [ZIP_STR_06B OR word_of_nat rawlen]
         else if rawlen \<le> 0x3fff then
           [ZIP_STR_14B OR (word_of_nat (drop_bit 8 rawlen) AND 0x3f), word_of_nat rawlen]
         else [ZIP_STR_32B, word_of_nat (drop_bit 24 rawlen), word_of_nat (drop_bit 16 rawlen),
               word_of_nat (drop_bit 8 rawlen), word_of_nat rawlen])
      else [encoding])"

definition zipEncodeLength :: "bytes \<Rightarrow> nat \<Rightarrow> byte \<Rightarrow> nat \<Rightarrow> (bytes \<times> nat) option" where
  "zipEncodeLength zl p encoding rawlen = do {
     let buf = encode_length_buf encoding rawlen;
     zl \<leftarrow> mem_write zl p buf;
     Some (zl, length buf)
   }"

definition ZIP_DECODE_LENGTH :: "bytes \<Rightarrow> nat \<Rightarrow> (byte \<times> nat \<times> nat) option" where
  "ZIP_DECODE_LENGTH zl p = do {
     b0 \<leftarrow> mem_get zl p;
     let encoding = ZIP_ENTRY_ENCODING b0;
     if encoding < ZIP_STR_MASK then
       (if encoding = ZIP_STR_06B then Some (encoding, 1, unat (b0 AND 0x3f))
        else if encoding = ZIP_STR_14B then do {
          b1 \<leftarrow> mem_get zl (p + 1);
          Some (encoding, 2, push_bit 8 (unat (b0 AND 0x3f)) OR unat b1)
        } else if encoding = ZIP_STR_32B then do {
          b1 \<leftarrow> mem_get zl (p + 1);
          b2 \<leftarrow> mem_get zl (p + 2);
          b3 \<leftarrow> mem_get zl (p + 3);
          b4 \<leftarrow> mem_get zl (p + 4);
          Some (encoding, 5, push_bit 24 (unat b1) OR push_bit 16 (unat b2) OR push_bit 8 (unat b3) OR unat b4)
        } else None)
     else Some (encoding, 1, zipIntSize encoding)
   }"

text \<open>The bytes \<open>zipPrevEncodeLength\<close> stores, and those of the variant that always uses five.\<close>

definition prev_large_buf :: "nat \<Rightarrow> bytes" where
  "prev_large_buf len = word_of_nat ZIP_BIGLEN # le_bytes 4 len"

definition prev_length_buf :: "nat \<Rightarrow> bytes" where
  "prev_length_buf len = (if len < ZIP_BIGLEN then [word_of_nat len] else prev_large_buf len)"

definition zipPrevEncodeLength :: "bytes \<Rightarrow> nat \<Rightarrow> nat \<Rightarrow> (bytes \<times> nat) option" where
  "zipPrevEncodeLength zl p len = do {
     zl \<leftarrow> mem_write zl p (prev_length_buf len);
     Some (zl, length (prev_length_buf len))
   }"

definition zipPrevEncodeLengthForceLarge :: "bytes \<Rightarrow> nat \<Rightarrow> nat \<Rightarrow> bytes option" where
  "zipPrevEncodeLengthForceLarge zl p len = mem_write zl p (prev_large_buf len)"

definition ZIP_DECODE_PREVLENSIZE :: "bytes \<Rightarrow> nat \<Rightarrow> nat option" where
  "ZIP_DECODE_PREVLENSIZE zl p = do {
     b \<leftarrow> mem_get zl p;
     Some (if unat b < ZIP_BIGLEN then 1 else 5)
   }"

definition ZIP_DECODE_PREVLEN :: "bytes \<Rightarrow> nat \<Rightarrow> (nat \<times> nat) option" where
  "ZIP_DECODE_PREVLEN zl p = do {
     prevlensize \<leftarrow> ZIP_DECODE_PREVLENSIZE zl p;
     if prevlensize = 1 then do { b \<leftarrow> mem_get zl p; Some (prevlensize, unat b) }
     else do { bs \<leftarrow> mem_read zl (p + 1) 4; Some (prevlensize, le_val bs) }
   }"

definition zipPrevLenByteDiff :: "bytes \<Rightarrow> nat \<Rightarrow> nat \<Rightarrow> int option" where
  "zipPrevLenByteDiff zl p len = do {
     prevlensize \<leftarrow> ZIP_DECODE_PREVLENSIZE zl p;
     Some (int (length (prev_length_buf len)) - int prevlensize)
   }"

definition zipRawEntryLength :: "bytes \<Rightarrow> nat \<Rightarrow> nat option" where
  "zipRawEntryLength zl p = do {
     prevlensize \<leftarrow> ZIP_DECODE_PREVLENSIZE zl p;
     (encoding, lensize, len) \<leftarrow> ZIP_DECODE_LENGTH zl (p + prevlensize);
     Some (prevlensize + lensize + len)
   }"

definition zipTryEncoding :: "bytes \<Rightarrow> (int \<times> byte) option" where
  "zipTryEncoding entry =
     (if length entry \<ge> 32 \<or> length entry = 0 then None
      else case string2ll entry of None \<Rightarrow> None
        | Some v \<Rightarrow> Some (v,
            if 0 \<le> v \<and> v \<le> 12 then ZIP_INT_IMM_MIN + word_of_int v
            else if - (2 ^ 7) \<le> v \<and> v < 2 ^ 7 then ZIP_INT_8B
            else if - (2 ^ 15) \<le> v \<and> v < 2 ^ 15 then ZIP_INT_16B
            else if - (2 ^ 23) \<le> v \<and> v < 2 ^ 23 then ZIP_INT_24B
            else if - (2 ^ 31) \<le> v \<and> v < 2 ^ 31 then ZIP_INT_32B
            else ZIP_INT_64B))"

text \<open>\<open>zipSaveInteger\<close> and \<open>zipLoadInteger\<close>.  The 24-bit case goes through the upper three
  bytes of a 32-bit integer shifted by 8.\<close>

definition zipSaveInteger :: "bytes \<Rightarrow> nat \<Rightarrow> int \<Rightarrow> byte \<Rightarrow> bytes option" where
  "zipSaveInteger zl p v encoding =
     (if encoding = ZIP_INT_8B then mem_write zl p (le_sbytes 1 v)
      else if encoding = ZIP_INT_16B then mem_write zl p (le_sbytes 2 v)
      else if encoding = ZIP_INT_24B then mem_write zl p (drop 1 (le_sbytes 4 (v * 2 ^ 8)))
      else if encoding = ZIP_INT_32B then mem_write zl p (le_sbytes 4 v)
      else if encoding = ZIP_INT_64B then mem_write zl p (le_sbytes 8 v)
      else if encoding \<ge> ZIP_INT_IMM_MIN \<and> encoding \<le> ZIP_INT_IMM_MAX then Some zl
      else None)"

definition zipLoadInteger :: "bytes \<Rightarrow> nat \<Rightarrow> byte \<Rightarrow> int option" where
  "zipLoadInteger zl p encoding =
     (if encoding = ZIP_INT_8B then map_option le_sval (mem_read zl p 1)
      else if encoding = ZIP_INT_16B then map_option le_sval (mem_read zl p 2)
      else if encoding = ZIP_INT_32B then map_option le_sval (mem_read zl p 4)
      else if encoding = ZIP_INT_24B then map_option (\<lambda>bs. le_sval (0 # bs) div 2 ^ 8) (mem_read zl p 3)
      else if encoding = ZIP_INT_64B then map_option le_sval (mem_read zl p 8)
      else if encoding \<ge> ZIP_INT_IMM_MIN \<and> encoding \<le> ZIP_INT_IMM_MAX then Some (uint (encoding AND 0x0f) - 1)
      else None)"

record zlentry =
  prevrawlensize :: nat
  prevrawlen :: nat
  e_lensize :: nat
  e_len :: nat
  e_headersize :: nat
  e_encoding :: byte
  entry_p :: nat

definition zipEntry :: "bytes \<Rightarrow> nat \<Rightarrow> zlentry option" where
  "zipEntry zl p = do {
     (ps, pl) \<leftarrow> ZIP_DECODE_PREVLEN zl p;
     (enc, ls, l) \<leftarrow> ZIP_DECODE_LENGTH zl (p + ps);
     Some \<lparr>prevrawlensize = ps, prevrawlen = pl, e_lensize = ls, e_len = l, e_headersize = ps + ls,
           e_encoding = enc, entry_p = p\<rparr>
   }"

section \<open>The block\<close>

definition rd32 :: "bytes \<Rightarrow> nat \<Rightarrow> nat option" where
  "rd32 zl off = map_option le_val (mem_read zl off 4)"

definition wr32 :: "bytes \<Rightarrow> nat \<Rightarrow> int \<Rightarrow> bytes option" where
  "wr32 zl off v = mem_write zl off (le_bytes 4 (nat (v mod 2 ^ 32)))"

definition rd16 :: "bytes \<Rightarrow> nat \<Rightarrow> nat option" where
  "rd16 zl off = map_option le_val (mem_read zl off 2)"

definition wr16 :: "bytes \<Rightarrow> nat \<Rightarrow> int \<Rightarrow> bytes option" where
  "wr16 zl off v = mem_write zl off (le_bytes 2 (nat (v mod 2 ^ 16)))"

abbreviation ZIPLIST_BYTES where "ZIPLIST_BYTES zl \<equiv> rd32 zl 0"
abbreviation ZIPLIST_TAIL_OFFSET where "ZIPLIST_TAIL_OFFSET zl \<equiv> rd32 zl 4"
abbreviation ZIPLIST_LENGTH where "ZIPLIST_LENGTH zl \<equiv> rd16 zl 8"

definition ZIPLIST_INCR_LENGTH :: "bytes \<Rightarrow> int \<Rightarrow> bytes option" where
  "ZIPLIST_INCR_LENGTH zl incr = do {
     n \<leftarrow> ZIPLIST_LENGTH zl;
     if n < 65535 then wr16 zl 8 (int n + incr) else Some zl
   }"

definition ziplistNew :: "bytes" where
  "ziplistNew = le_bytes 4 (ZIPLIST_HEADER_SIZE + 1) @ le_bytes 4 ZIPLIST_HEADER_SIZE @ le_bytes 2 0 @ [ZIP_END]"

definition ziplistResize :: "bytes \<Rightarrow> nat \<Rightarrow> bytes option" where
  "ziplistResize zl len' = do {
     let len' = len' mod 2 ^ 32;
     let zl = zrealloc zl len';
     zl \<leftarrow> wr32 zl 0 (int len');
     c_assert (0 < len');
     mem_set zl (len' - 1) ZIP_END
   }"

text \<open>The loop of \<open>__ziplistCascadeUpdate\<close>; it moves to the next entry each time, so the number
  of bytes bounds the rounds.\<close>

fun cascade_loop :: "nat \<Rightarrow> bytes \<Rightarrow> nat \<Rightarrow> nat \<Rightarrow> bytes option" where
  "cascade_loop 0 zl p curlen = None"
| "cascade_loop (Suc f) zl p curlen = do {
     b \<leftarrow> mem_get zl p;
     if b = ZIP_END then Some zl
     else do {
       cur \<leftarrow> zipEntry zl p;
       let rawlen = e_headersize cur + e_len cur;
       let rawlensize = length (prev_length_buf rawlen);
       nb \<leftarrow> mem_get zl (p + rawlen);
       if nb = ZIP_END then Some zl
       else do {
         next \<leftarrow> zipEntry zl (p + rawlen);
         if prevrawlen next = rawlen then Some zl
         else if prevrawlensize next < rawlensize then do {
           let extra = rawlensize - prevrawlensize next;
           zl \<leftarrow> ziplistResize zl (curlen + extra);
           let np = p + rawlen;
           tail \<leftarrow> ZIPLIST_TAIL_OFFSET zl;
           zl \<leftarrow> (if tail \<noteq> np then wr32 zl 4 (int tail + int extra) else Some zl);
           zl \<leftarrow> mem_move zl (np + rawlensize) (np + prevrawlensize next)
                    (curlen - np - prevrawlensize next - 1);
           (zl, _) \<leftarrow> zipPrevEncodeLength zl np rawlen;
           cascade_loop f zl (p + rawlen) (curlen + extra)
         }
         else if prevrawlensize next > rawlensize then
           zipPrevEncodeLengthForceLarge zl (p + rawlen) rawlen
         else map_option fst (zipPrevEncodeLength zl (p + rawlen) rawlen)
       }
     }
   }"

definition ziplistCascadeUpdate :: "bytes \<Rightarrow> nat \<Rightarrow> bytes option" where
  "ziplistCascadeUpdate zl p = do {
     curlen \<leftarrow> ZIPLIST_BYTES zl;
     cascade_loop (length zl) zl p curlen
   }"

text \<open>The loop that walks over the entries to delete: the new pointer and how many there were.\<close>

fun delete_walk :: "bytes \<Rightarrow> nat \<Rightarrow> nat \<Rightarrow> nat \<Rightarrow> (nat \<times> nat) option" where
  "delete_walk zl p 0 deleted = do { b \<leftarrow> mem_get zl p; Some (p, deleted) }"
| "delete_walk zl p (Suc num) deleted = do {
     b \<leftarrow> mem_get zl p;
     if b \<noteq> ZIP_END then do {
       n \<leftarrow> zipRawEntryLength zl p;
       delete_walk zl (p + n) num (deleted + 1)
     } else Some (p, deleted)
   }"

definition ziplistDeleteAt :: "bytes \<Rightarrow> nat \<Rightarrow> nat \<Rightarrow> bytes option" where
  "ziplistDeleteAt zl p0 num = do {
     first \<leftarrow> zipEntry zl p0;
     (p, deleted) \<leftarrow> delete_walk zl p0 num 0;
     let totlen = p - p0;
     if totlen > 0 then do {
       b \<leftarrow> mem_get zl p;
       (zl, nextdiff) \<leftarrow> (if b \<noteq> ZIP_END then do {
           nextdiff \<leftarrow> zipPrevLenByteDiff zl p (prevrawlen first);
           let p = nat (int p - nextdiff);
           (zl, _) \<leftarrow> zipPrevEncodeLength zl p (prevrawlen first);
           t \<leftarrow> ZIPLIST_TAIL_OFFSET zl;
           zl \<leftarrow> wr32 zl 4 (int t - int totlen);
           tail \<leftarrow> zipEntry zl p;
           tb \<leftarrow> mem_get zl (p + e_headersize tail + e_len tail);
           zl \<leftarrow> (if tb \<noteq> ZIP_END then do {
                t \<leftarrow> ZIPLIST_TAIL_OFFSET zl; wr32 zl 4 (int t + nextdiff) } else Some zl);
           bytes \<leftarrow> ZIPLIST_BYTES zl;
           zl \<leftarrow> mem_move zl p0 p (bytes - p - 1);
           Some (zl, nextdiff)
         } else do {
           zl \<leftarrow> wr32 zl 4 (int p0 - int (prevrawlen first));
           Some (zl, 0)
         });
       bytes \<leftarrow> ZIPLIST_BYTES zl;
       zl \<leftarrow> ziplistResize zl (nat ((int bytes - int totlen + nextdiff) mod 2 ^ 32));
       zl \<leftarrow> ZIPLIST_INCR_LENGTH zl (- int deleted);
       if nextdiff \<noteq> 0 then ziplistCascadeUpdate zl p0 else Some zl
     } else Some zl
   }"

definition ziplistInsertAt :: "bytes \<Rightarrow> nat \<Rightarrow> bytes \<Rightarrow> bytes option" where
  "ziplistInsertAt zl p s = do {
     curlen \<leftarrow> ZIPLIST_BYTES zl;
     b \<leftarrow> mem_get zl p;
     prevlen \<leftarrow> (if b \<noteq> ZIP_END then map_option snd (ZIP_DECODE_PREVLEN zl p)
       else do {
         ptail \<leftarrow> ZIPLIST_TAIL_OFFSET zl;
         tb \<leftarrow> mem_get zl ptail;
         if tb \<noteq> ZIP_END then zipRawEntryLength zl ptail else Some 0
       });
     let (encoding, v, datalen) = (case zipTryEncoding s of
           Some (v, enc) \<Rightarrow> (enc, v, zipIntSize enc) | None \<Rightarrow> (0, 123456789, length s));
     let reqlen = datalen + length (prev_length_buf prevlen) + length (encode_length_buf encoding (length s));
     nextdiff0 \<leftarrow> (if b \<noteq> ZIP_END then zipPrevLenByteDiff zl p reqlen else Some 0);
     let forcelarge = (nextdiff0 = -4 \<and> reqlen < 4);
     let nextdiff = (if forcelarge then 0 else nextdiff0);
     zl \<leftarrow> ziplistResize zl (nat (int curlen + int reqlen + nextdiff));
     b \<leftarrow> mem_get zl p;
     zl \<leftarrow> (if b \<noteq> ZIP_END then do {
         zl \<leftarrow> mem_move zl (p + reqlen) (nat (int p - nextdiff)) (nat (int curlen - int p - 1 + nextdiff));
         zl \<leftarrow> (if forcelarge then zipPrevEncodeLengthForceLarge zl (p + reqlen) reqlen
               else map_option fst (zipPrevEncodeLength zl (p + reqlen) reqlen));
         t \<leftarrow> ZIPLIST_TAIL_OFFSET zl;
         zl \<leftarrow> wr32 zl 4 (int t + int reqlen);
         tail \<leftarrow> zipEntry zl (p + reqlen);
         tb \<leftarrow> mem_get zl (p + reqlen + e_headersize tail + e_len tail);
         if tb \<noteq> ZIP_END then do { t \<leftarrow> ZIPLIST_TAIL_OFFSET zl; wr32 zl 4 (int t + nextdiff) } else Some zl
       } else wr32 zl 4 (int p));
     zl \<leftarrow> (if nextdiff \<noteq> 0 then ziplistCascadeUpdate zl (p + reqlen) else Some zl);
     (zl, n) \<leftarrow> zipPrevEncodeLength zl p prevlen;
     (zl, m) \<leftarrow> zipEncodeLength zl (p + n) encoding (length s);
     zl \<leftarrow> (if ZIP_IS_STR encoding then mem_write zl (p + n + m) s
            else zipSaveInteger zl (p + n + m) v encoding);
     ZIPLIST_INCR_LENGTH zl 1
   }"

text \<open>\<open>ziplistMerge\<close> of two distinct ziplists: the merged block, which lives in the first or the
  second argument (the flag), the other one being freed.\<close>

definition ziplistMerge :: "bytes \<Rightarrow> bytes \<Rightarrow> (bytes \<times> bool) option" where
  "ziplistMerge first second = do {
     first_bytes \<leftarrow> ZIPLIST_BYTES first;
     first_len \<leftarrow> ZIPLIST_LENGTH first;
     second_bytes \<leftarrow> ZIPLIST_BYTES second;
     second_len \<leftarrow> ZIPLIST_LENGTH second;
     let append' = (first_len \<ge> second_len);
     let (target, target_bytes, source, source_bytes) =
       (if append' then (first, first_bytes, second, second_bytes)
        else (second, second_bytes, first, first_bytes));
     let zlbytes = first_bytes + second_bytes - ZIPLIST_HEADER_SIZE - ZIPLIST_END_SIZE;
     let zllength = first_len + second_len;
     let zllength = (if zllength < 65535 then zllength else 65535);
     first_offset \<leftarrow> ZIPLIST_TAIL_OFFSET first;
     second_offset \<leftarrow> ZIPLIST_TAIL_OFFSET second;
     let target = zrealloc target zlbytes;
     target \<leftarrow> (if append' then do {
         src \<leftarrow> mem_read source ZIPLIST_HEADER_SIZE (source_bytes - ZIPLIST_HEADER_SIZE);
         mem_write target (target_bytes - ZIPLIST_END_SIZE) src
       } else do {
         target \<leftarrow> mem_move target (source_bytes - ZIPLIST_END_SIZE) ZIPLIST_HEADER_SIZE
                     (target_bytes - ZIPLIST_HEADER_SIZE);
         src \<leftarrow> mem_read source 0 (source_bytes - ZIPLIST_END_SIZE);
         mem_write target 0 src
       });
     target \<leftarrow> wr32 target 0 (int zlbytes);
     target \<leftarrow> wr16 target 8 (int zllength);
     target \<leftarrow> wr32 target 4
       ((int first_bytes - int ZIPLIST_END_SIZE) + (int second_offset - int ZIPLIST_HEADER_SIZE));
     target \<leftarrow> ziplistCascadeUpdate target first_offset;
     Some (target, append')
   }"

section \<open>Access\<close>

definition ziplistPush :: "bytes \<Rightarrow> bytes \<Rightarrow> bool \<Rightarrow> bytes option" where
  "ziplistPush zl s head = do {
     p \<leftarrow> (if head then Some ZIPLIST_HEADER_SIZE
           else do { n \<leftarrow> ZIPLIST_BYTES zl; c_assert (0 < n); Some (n - 1) });
     ziplistInsertAt zl p s
   }"

text \<open>\<open>while (prevlen > 0 && index--)\<close> and \<open>while (p[0] != ZIP_END && index--)\<close> with the values of
  both variables behind the loop.\<close>

function index_back :: "bytes \<Rightarrow> nat \<Rightarrow> nat \<Rightarrow> int \<Rightarrow> (nat \<times> int) option" where
  "index_back zl p prevlen index =
     (if prevlen > 0 then
        (if index = 0 then Some (p, -1)
         else if prevlen \<le> p then
           Option.bind (ZIP_DECODE_PREVLEN zl (p - prevlen)) (\<lambda>(ps, pl).
             index_back zl (p - prevlen) pl (index - 1))
         else None)
      else Some (p, index))"
  by pat_completeness auto
termination
  by (relation "measure (\<lambda>(zl, p, prevlen, index). p)") auto

declare index_back.simps [simp del]

lemma mem_get_Some: "mem_get b i = Some x \<Longrightarrow> i < length b"
  by (auto simp: mem_get_def split: if_splits)

lemma zipRawEntryLength_pos:
  "zipRawEntryLength zl p = Some n \<Longrightarrow> 0 < n"
  by (auto simp: zipRawEntryLength_def ZIP_DECODE_PREVLENSIZE_def bind_eq_Some_conv split: if_splits)

function index_forward :: "bytes \<Rightarrow> nat \<Rightarrow> int \<Rightarrow> (nat \<times> int) option" where
  "index_forward zl p index =
     Option.bind (mem_get zl p) (\<lambda>b.
       if b \<noteq> ZIP_END then
         (if index = 0 then Some (p, -1)
          else Option.bind (zipRawEntryLength zl p) (\<lambda>n. index_forward zl (p + n) (index - 1)))
       else Some (p, index))"
  by pat_completeness auto
termination
  by (relation "measure (\<lambda>(zl, p, index). length zl - p)")
    (auto dest!: mem_get_Some zipRawEntryLength_pos)

declare index_forward.simps [simp del]

definition ziplistIndex :: "bytes \<Rightarrow> int \<Rightarrow> nat option option" where
  "ziplistIndex zl index = do {
     (p, index) \<leftarrow> (if index < 0 then do {
         p \<leftarrow> ZIPLIST_TAIL_OFFSET zl;
         b \<leftarrow> mem_get zl p;
         if b \<noteq> ZIP_END then do {
           (ps, pl) \<leftarrow> ZIP_DECODE_PREVLEN zl p;
           index_back zl p pl ((- index) - 1)
         } else Some (p, (- index) - 1)
       } else index_forward zl ZIPLIST_HEADER_SIZE index);
     b \<leftarrow> mem_get zl p;
     Some (if b = ZIP_END \<or> index > 0 then None else Some p)
   }"

definition ziplistNext :: "bytes \<Rightarrow> nat \<Rightarrow> nat option option" where
  "ziplistNext zl p = do {
     b \<leftarrow> mem_get zl p;
     if b = ZIP_END then Some None
     else do {
       n \<leftarrow> zipRawEntryLength zl p;
       b \<leftarrow> mem_get zl (p + n);
       Some (if b = ZIP_END then None else Some (p + n))
     }
   }"

definition ziplistPrev :: "bytes \<Rightarrow> nat \<Rightarrow> nat option option" where
  "ziplistPrev zl p = do {
     b \<leftarrow> mem_get zl p;
     if b = ZIP_END then do {
       p \<leftarrow> ZIPLIST_TAIL_OFFSET zl;
       b \<leftarrow> mem_get zl p;
       Some (if b = ZIP_END then None else Some p)
     } else if p = ZIPLIST_HEADER_SIZE then Some None
     else do {
       (ps, prevlen) \<leftarrow> ZIP_DECODE_PREVLEN zl p;
       c_assert (prevlen > 0);
       c_assert (prevlen \<le> p);
       Some (Some (p - prevlen))
     }
   }"

text \<open>\<open>ziplistGet\<close>: nothing at the end, else the string or the integer.\<close>

datatype zval = ZStr bytes | ZInt int

definition ziplistGet :: "bytes \<Rightarrow> nat \<Rightarrow> zval option option" where
  "ziplistGet zl p = do {
     b \<leftarrow> mem_get zl p;
     if b = ZIP_END then Some None
     else do {
       entry \<leftarrow> zipEntry zl p;
       if ZIP_IS_STR (e_encoding entry) then do {
         s \<leftarrow> mem_read zl (p + e_headersize entry) (e_len entry);
         Some (Some (ZStr s))
       } else do {
         v \<leftarrow> zipLoadInteger zl (p + e_headersize entry) (e_encoding entry);
         Some (Some (ZInt v))
       }
     }
   }"

definition ziplistInsert :: "bytes \<Rightarrow> nat \<Rightarrow> bytes \<Rightarrow> bytes option" where
  "ziplistInsert zl p s = ziplistInsertAt zl p s"

definition ziplistDelete :: "bytes \<Rightarrow> nat \<Rightarrow> (bytes \<times> nat) option" where
  "ziplistDelete zl p = do { zl \<leftarrow> ziplistDeleteAt zl p 1; Some (zl, p) }"

definition ziplistDeleteRange :: "bytes \<Rightarrow> int \<Rightarrow> nat \<Rightarrow> bytes option" where
  "ziplistDeleteRange zl index num = do {
     p \<leftarrow> ziplistIndex zl index;
     case p of None \<Rightarrow> Some zl | Some p \<Rightarrow> ziplistDeleteAt zl p num
   }"

definition ziplistCompare :: "bytes \<Rightarrow> nat \<Rightarrow> bytes \<Rightarrow> bool option" where
  "ziplistCompare zl p sstr = do {
     b \<leftarrow> mem_get zl p;
     if b = ZIP_END then Some False
     else do {
       entry \<leftarrow> zipEntry zl p;
       if ZIP_IS_STR (e_encoding entry) then
         (if e_len entry = length sstr then do {
            s \<leftarrow> mem_read zl (p + e_headersize entry) (length sstr);
            Some (s = sstr)
          } else Some False)
       else (case zipTryEncoding sstr of
           Some (sval, _) \<Rightarrow> do {
             zval \<leftarrow> zipLoadInteger zl (p + e_headersize entry) (e_encoding entry);
             Some (zval = sval)
           }
         | None \<Rightarrow> Some False)
     }
   }"

text \<open>\<open>ziplistFind\<close>: \<open>venc\<close> is \<open>vencoding\<close>, 0 before the value has been looked at and
  \<open>UCHAR_MAX\<close> if it is not an integer.\<close>

function find_loop ::
  "bytes \<Rightarrow> nat \<Rightarrow> bytes \<Rightarrow> nat \<Rightarrow> nat \<Rightarrow> byte \<Rightarrow> int \<Rightarrow> nat option option" where
  "find_loop zl p vstr skip skipcnt venc vll =
     Option.bind (mem_get zl p) (\<lambda>b.
       if b = ZIP_END then Some None
       else
         Option.bind (ZIP_DECODE_PREVLENSIZE zl p) (\<lambda>ps.
         Option.bind (ZIP_DECODE_LENGTH zl (p + ps)) (\<lambda>(enc, ls, l).
           let q = p + ps + ls in
           if skipcnt = 0 then
             (if ZIP_IS_STR enc then
                Option.bind (if l = length vstr then map_option (\<lambda>s. s = vstr) (mem_read zl q (length vstr)) else Some False)
                  (\<lambda>found. if found then Some (Some p)
                    else if q + l > p then find_loop zl (q + l) vstr skip skip venc vll else None)
              else
                (let (venc, vll) = (if venc = 0 then (case zipTryEncoding vstr of
                        Some (v, e) \<Rightarrow> (e, v) | None \<Rightarrow> (255, vll)) else (venc, vll)) in
                 if venc = 0 then None
                 else Option.bind (if venc \<noteq> 255 then map_option (\<lambda>ll. ll = vll) (zipLoadInteger zl q enc) else Some False)
                  (\<lambda>found. if found then Some (Some p)
                    else if q + l > p then find_loop zl (q + l) vstr skip skip venc vll else None)))
           else if q + l > p then find_loop zl (q + l) vstr skip (skipcnt - 1) venc vll else None)))"
  by pat_completeness auto
termination
  by (relation "measure (\<lambda>(zl, p, vstr, skip, skipcnt, venc, vll). length zl - p)")
    (auto dest!: mem_get_Some)

declare find_loop.simps [simp del]

definition ziplistFind :: "bytes \<Rightarrow> nat \<Rightarrow> bytes \<Rightarrow> nat \<Rightarrow> nat option option" where
  "ziplistFind zl p vstr skip = find_loop zl p vstr skip 0 0 0"

function count_loop :: "bytes \<Rightarrow> nat \<Rightarrow> nat \<Rightarrow> nat option" where
  "count_loop zl p n =
     Option.bind (mem_get zl p) (\<lambda>b.
       if b = ZIP_END then Some n
       else Option.bind (zipRawEntryLength zl p) (\<lambda>l. count_loop zl (p + l) (n + 1)))"
  by pat_completeness auto
termination
  by (relation "measure (\<lambda>(zl, p, n). length zl - p)")
    (auto dest!: mem_get_Some zipRawEntryLength_pos)

declare count_loop.simps [simp del]

definition ziplistLen :: "bytes \<Rightarrow> (bytes \<times> nat) option" where
  "ziplistLen zl = do {
     n \<leftarrow> ZIPLIST_LENGTH zl;
     if n < 65535 then Some (zl, n)
     else do {
       l \<leftarrow> count_loop zl ZIPLIST_HEADER_SIZE 0;
       zl \<leftarrow> (if l < 65535 then wr16 zl 8 (int l) else Some zl);
       Some (zl, l)
     }
   }"

definition ziplistBlobLen :: "bytes \<Rightarrow> nat option" where
  "ziplistBlobLen zl = ZIPLIST_BYTES zl"

end
