(* ===== verification/Ziplist_Rep.thy ===== *)
theory Ziplist_Rep
  imports Ziplist
begin

text \<open>
  The format of a ziplist, as byte strings: the length fields as self-delimiting codes
  (\<open>prefix_codec\<close>), the bytes of an entry, and the layout of a whole list, in which every entry
  stores the length of its predecessor in one or five bytes.
\<close>

declare le_bytes_numeral [simp del]

section \<open>Length fields\<close>

text \<open>The previous-length field: a flag says whether five bytes are used.\<close>

definition psz :: "bool \<Rightarrow> nat" where
  "psz big = (if big then 5 else 1)"

definition prev_buf :: "bool \<Rightarrow> nat \<Rightarrow> bytes" where
  "prev_buf big prev = (if big then prev_large_buf prev else [word_of_nat prev])"

definition prev_ok :: "bool \<Rightarrow> nat \<Rightarrow> bool" where
  "prev_ok big prev \<longleftrightarrow> prev < 2 ^ 32 \<and> (big \<or> prev < 254)"

lemma length_prev_buf [simp]: "length (prev_buf big prev) = psz big"
  by (simp add: prev_buf_def prev_large_buf_def psz_def)

lemma psz_simps [simp]: "psz True = 5" "psz False = 1"
  by (simp_all add: psz_def)

lemma psz_pos [simp]: "0 < psz big" "psz big \<noteq> 0"
  by (simp_all add: psz_def)

lemma prev_length_buf_eq: "prev_length_buf n = prev_buf (\<not> n < 254) n"
  by (simp add: prev_length_buf_def prev_buf_def ZIP_BIGLEN_def)

lemma length_prev_length_buf [simp]: "length (prev_length_buf n) = (if n < 254 then 1 else 5)"
  by (simp add: prev_length_buf_eq psz_def)

lemma unat_small_byte: "n < 256 \<Longrightarrow> unat (word_of_nat n :: byte) = n"
  by (simp add: unat_of_nat)

lemma prev_buf_first:
  assumes "prev_ok big prev"
  shows "\<exists>b rest. prev_buf big prev = b # rest \<and> b \<noteq> ZIP_END \<and> (unat b < 254 \<longleftrightarrow> \<not> big)"
proof (cases big)
  case True
  then show ?thesis by (auto simp: prev_buf_def prev_large_buf_def zip_consts)
next
  case False
  then have "unat (word_of_nat prev :: byte) = prev" using assms by (simp add: prev_ok_def unat_of_nat)
  moreover then have "(word_of_nat prev :: byte) \<noteq> 255" using False assms by (auto simp: prev_ok_def)
  ultimately show ?thesis using False assms by (auto simp: prev_buf_def prev_ok_def zip_consts)
qed

text \<open>Reading at the start of a segment of the block.\<close>

lemma mem_get_start: "mem_get (pre @ b # rest) (length pre) = Some b"
  by (simp add: mem_get_def)

lemma mem_get_at: "p = length pre \<Longrightarrow> mem_get (pre @ b # rest) p = Some b"
  by (simp add: mem_get_start)

lemma mem_read_at: "p = length pre \<Longrightarrow> n = length xs \<Longrightarrow> mem_read (pre @ xs @ rest) p n = Some xs"
  by (simp add: mem_read_mid)

lemma mem_write_at:
  "p = length pre \<Longrightarrow> length xs = length ys \<Longrightarrow> mem_write (pre @ xs @ rest) p ys = Some (pre @ ys @ rest)"
  by (simp add: mem_write_mid)

lemma decode_prevlensize:
  assumes "prev_ok big prev" "p = length pre"
  shows "ZIP_DECODE_PREVLENSIZE (pre @ prev_buf big prev @ rest) p = Some (psz big)"
proof -
  obtain b bs where b: "prev_buf big prev = b # bs" "unat b < 254 \<longleftrightarrow> \<not> big"
    using prev_buf_first [OF assms(1)] by blast
  then show ?thesis
    using assms(2) by (simp add: ZIP_DECODE_PREVLENSIZE_def mem_get_start psz_def ZIP_BIGLEN_def)
qed

lemma decode_prevlen:
  assumes "prev_ok big prev" "p = length pre"
  shows "ZIP_DECODE_PREVLEN (pre @ prev_buf big prev @ rest) p = Some (psz big, prev)"
proof (cases big)
  case True
  have "mem_read (pre @ prev_large_buf prev @ rest) (p + 1) 4 = Some (le_bytes 4 prev)"
    using mem_read_at [of "p + 1" "pre @ [word_of_nat ZIP_BIGLEN]" 4 "le_bytes 4 prev" rest] assms(2)
    by (simp add: prev_large_buf_def)
  then show ?thesis
    using True assms decode_prevlensize [OF assms, of rest]
    by (simp add: ZIP_DECODE_PREVLEN_def prev_buf_def le_val_le_bytes prev_ok_def)
next
  case False
  then show ?thesis
    using assms decode_prevlensize [OF assms, of rest]
    by (simp add: ZIP_DECODE_PREVLEN_def prev_buf_def mem_get_start prev_ok_def unat_of_nat)
qed

interpretation prevlen_codec: prefix_codec
  "\<lambda>(big, prev). prev_buf big prev"
  "\<lambda>b. map_option (\<lambda>(n, prev). ((n = 5, prev), n)) (ZIP_DECODE_PREVLEN b 0)"
  "\<lambda>(big, prev). prev_ok big prev"
proof unfold_locales
  fix x :: "bool \<times> nat" and rest
  assume "case x of (big, prev) \<Rightarrow> prev_ok big prev"
  then show "map_option (\<lambda>(n, prev). ((n = 5, prev), n))
      (ZIP_DECODE_PREVLEN ((case x of (big, prev) \<Rightarrow> prev_buf big prev) @ rest) 0) =
    Some (x, length (case x of (big, prev) \<Rightarrow> prev_buf big prev))"
    using decode_prevlen [of "fst x" "snd x" 0 "[]" rest] by (cases x) (auto simp: psz_def)
qed

text \<open>The string length field.\<close>

lemma is_str_0: "ZIP_IS_STR 0" "\<not> ZIP_IS_STR ZIP_INT_8B" "\<not> ZIP_IS_STR ZIP_INT_16B" "\<not> ZIP_IS_STR ZIP_INT_24B"
  "\<not> ZIP_IS_STR ZIP_INT_32B" "\<not> ZIP_IS_STR ZIP_INT_64B"
  by (simp_all add: ZIP_IS_STR_def zip_consts)

definition strlen_size :: "nat \<Rightarrow> nat" where
  "strlen_size n = (if n \<le> 0x3f then 1 else if n \<le> 0x3fff then 2 else 5)"

lemma length_encode_str [simp]: "length (encode_length_buf 0 n) = strlen_size n"
  by (simp add: encode_length_buf_def is_str_0 strlen_size_def)

text \<open>The two tag bits, for each of the 64 values of the other six.\<close>

lemma tag_bits_06: "list_all (\<lambda>k. (word_of_nat k :: byte) < 0xc0 \<and> (word_of_nat k :: byte) AND 0xc0 = 0 \<and>
    unat ((word_of_nat k :: byte) AND 0x3f) = k) [0..<64]"
  by (simp add: upt_conv_Cons)

lemma tag_bits_14: "list_all (\<lambda>k. (0x40 OR (word_of_nat k AND 0x3f) :: byte) < 0xc0 \<and>
    (0x40 OR (word_of_nat k AND 0x3f) :: byte) AND 0xc0 = 0x40 \<and>
    unat ((0x40 OR (word_of_nat k AND 0x3f) :: byte) AND 0x3f) = k) [0..<64]"
  by (simp add: upt_conv_Cons)

lemma tag_bits:
  assumes "k < 64"
  shows "(0 OR word_of_nat k :: byte) < 0xc0" "(0 OR word_of_nat k :: byte) AND 0xc0 = 0"
    "unat ((0 OR word_of_nat k :: byte) AND 0x3f) = k"
    "(0x40 OR (word_of_nat k AND 0x3f) :: byte) < 0xc0" "(0x40 OR (word_of_nat k AND 0x3f) :: byte) AND 0xc0 = 0x40"
    "unat ((0x40 OR (word_of_nat k AND 0x3f) :: byte) AND 0x3f) = k"
proof -
  have "k \<in> set [0..<64]" using assms by simp
  with tag_bits_06 tag_bits_14 show "(0 OR word_of_nat k :: byte) < 0xc0" "(0 OR word_of_nat k :: byte) AND 0xc0 = 0"
    "unat ((0 OR word_of_nat k :: byte) AND 0x3f) = k"
    "(0x40 OR (word_of_nat k AND 0x3f) :: byte) < 0xc0" "(0x40 OR (word_of_nat k AND 0x3f) :: byte) AND 0xc0 = 0x40"
    "unat ((0x40 OR (word_of_nat k AND 0x3f) :: byte) AND 0x3f) = k"
    unfolding list_all_iff or.left_neutral by blast+
qed

lemma push_bit_or_add: "b < 2 ^ k \<Longrightarrow> push_bit k a OR b = a * 2 ^ k + b" for a b :: nat
proof -
  assume "b < 2 ^ k"
  then have "take_bit k b = b" by (simp add: take_bit_nat_eq_self_iff)
  then have "\<not> bit b n" if "k \<le> n" for n using that by (metis bit_take_bit_iff not_le)
  then have "push_bit k a OR b = push_bit k a + b"
    by (intro disjunctive_add [symmetric]) (auto simp: bit_push_bit_iff)
  then show ?thesis by (simp add: push_bit_eq_mult)
qed

lemma big_endian_32:
  "push_bit 24 (unat b1) OR push_bit 16 (unat b2) OR push_bit 8 (unat b3) OR unat b4 =
     ((unat b1 * 256 + unat b2) * 256 + unat b3) * 256 + unat b4" for b1 b2 b3 b4 :: byte
proof -
  define x where "x = push_bit 8 (unat b1) OR unat b2"
  define y where "y = push_bit 8 x OR unat b3"
  have "push_bit 24 (unat b1) OR push_bit 16 (unat b2) OR push_bit 8 (unat b3) OR unat b4 = push_bit 8 y OR unat b4"
    by (simp add: x_def y_def or.assoc)
  moreover have "x = unat b1 * 256 + unat b2" using push_bit_or_add [of "unat b2" 8 "unat b1"] by (simp add: x_def)
  moreover have "y = x * 256 + unat b3" using push_bit_or_add [of "unat b3" 8 x] by (simp add: y_def)
  moreover have "push_bit 8 y OR unat b4 = y * 256 + unat b4" using push_bit_or_add [of "unat b4" 8 y] by simp
  ultimately show ?thesis by simp
qed

lemma big_endian_value:
  fixes n :: nat
  assumes "n < 2 ^ 32"
  shows "(((n div 2 ^ 24 mod 256) * 256 + n div 2 ^ 16 mod 256) * 256 + n div 2 ^ 8 mod 256) * 256 + n mod 256 = n"
proof -
  have a: "n div 2 ^ 24 mod 256 = n div 2 ^ 24" using assms by simp
  have "n div 2 ^ 16 div 256 = n div 2 ^ 24" "n div 2 ^ 8 div 256 = n div 2 ^ 16" "n div 256 = n div 2 ^ 8"
    by (simp_all add: div_mult2_eq [symmetric])
  then show ?thesis unfolding a by (metis div_mult_mod_eq)
qed

lemma decode_strlen:
  assumes "n < 2 ^ 32" "p = length pre"
  shows "\<exists>enc. ZIP_DECODE_LENGTH (pre @ encode_length_buf 0 n @ rest) p = Some (enc, strlen_size n, n) \<and> ZIP_IS_STR enc"
proof -
  consider "n \<le> 0x3f" | "0x3f < n" "n \<le> 0x3fff" | "0x3fff < n" by linarith
  then show ?thesis
  proof cases
    case 1
    then have k: "n < 64" by simp
    let ?b = "0 OR word_of_nat n :: byte"
    have "mem_get (pre @ encode_length_buf 0 n @ rest) p = Some ?b"
      using 1 assms(2) by (simp add: encode_length_buf_def is_str_0 ZIP_STR_06B_def mem_get_start)
    then show ?thesis
      using tag_bits(1-3) [OF k] 1
      by (simp add: ZIP_DECODE_LENGTH_def ZIP_ENTRY_ENCODING_def zip_consts strlen_size_def is_str_0)
  next
    case 2
    then have k: "drop_bit 8 n < 64" by (simp add: drop_bit_eq_div)
    let ?b = "0x40 OR (word_of_nat (drop_bit 8 n) AND 0x3f) :: byte"
    have buf: "encode_length_buf 0 n = [?b, word_of_nat n]"
      using 2 by (simp add: encode_length_buf_def is_str_0 ZIP_STR_14B_def)
    have g: "mem_get (pre @ encode_length_buf 0 n @ rest) p = Some ?b"
      "mem_get (pre @ encode_length_buf 0 n @ rest) (p + 1) = Some (word_of_nat n)"
      using assms(2) mem_get_at [of "p + 1" "pre @ [?b]"] by (simp_all add: buf mem_get_start)
    have "push_bit 8 (drop_bit 8 n) OR unat (word_of_nat n :: byte) = n"
      using push_bit_or_add [of "n mod 256" 8 "drop_bit 8 n"] by (simp add: unat_of_nat drop_bit_eq_div)
    then show ?thesis
      using g tag_bits(4-6) [OF k] 2
      by (simp add: ZIP_DECODE_LENGTH_def ZIP_ENTRY_ENCODING_def zip_consts strlen_size_def ZIP_IS_STR_def)
  next
    case 3
    let ?bs = "[word_of_nat (drop_bit 24 n), word_of_nat (drop_bit 16 n), word_of_nat (drop_bit 8 n), word_of_nat n] :: bytes"
    have buf: "encode_length_buf 0 n = 0x80 # ?bs"
      using 3 by (simp add: encode_length_buf_def is_str_0 ZIP_STR_32B_def)
    have g: "mem_get (pre @ encode_length_buf 0 n @ rest) (p + i) = Some ((0x80 # ?bs) ! i)" if "i < 5" for i
    proof -
      have "mem_get (pre @ encode_length_buf 0 n @ rest) (p + i) = Some (((0x80 # ?bs) @ rest) ! i)"
        using that assms(2) by (simp add: mem_get_def buf nth_append_length_plus)
      then show ?thesis using that by (simp only: nth_append) simp
    qed
    have v: "push_bit 24 (unat (?bs ! 0)) OR push_bit 16 (unat (?bs ! 1)) OR push_bit 8 (unat (?bs ! 2)) OR unat (?bs ! 3) = n"
      unfolding big_endian_32 using big_endian_value [OF assms(1)] assms(1)
      by (simp add: unat_of_nat drop_bit_eq_div)
    show ?thesis
      using g [of 0] g [of 1] g [of 2] g [of 3] g [of 4] v 3
      by (simp add: ZIP_DECODE_LENGTH_def ZIP_ENTRY_ENCODING_def zip_consts strlen_size_def ZIP_IS_STR_def)
  qed
qed

section \<open>Entries\<close>

text \<open>What the integer encodings store.\<close>

definition int_payload :: "int \<Rightarrow> byte \<Rightarrow> bytes" where
  "int_payload v enc =
     (if enc = ZIP_INT_8B then le_sbytes 1 v
      else if enc = ZIP_INT_16B then le_sbytes 2 v
      else if enc = ZIP_INT_24B then drop 1 (le_sbytes 4 (v * 2 ^ 8))
      else if enc = ZIP_INT_32B then le_sbytes 4 v
      else if enc = ZIP_INT_64B then le_sbytes 8 v
      else [])"

definition int_enc_ok :: "int \<Rightarrow> byte \<Rightarrow> bool" where
  "int_enc_ok v enc \<longleftrightarrow>
     (0 \<le> v \<and> v \<le> 12 \<and> enc = ZIP_INT_IMM_MIN + word_of_int v) \<or>
     (enc = ZIP_INT_8B \<and> fits_bytes 1 v) \<or> (enc = ZIP_INT_16B \<and> fits_bytes 2 v) \<or>
     (enc = ZIP_INT_24B \<and> fits_bytes 3 v) \<or> (enc = ZIP_INT_32B \<and> fits_bytes 4 v) \<or>
     (enc = ZIP_INT_64B \<and> fits_bytes 8 v)"

lemma zipTryEncoding_Some:
  assumes "zipTryEncoding s = Some (v, enc)"
  shows "int64_range v" "s = idec v" "int_enc_ok v enc" "0 < length s" "length s < 32"
proof -
  have s: "string2ll s = Some v" "0 < length s" "length s < 32"
    using assms by (auto simp: zipTryEncoding_def split: if_splits option.splits)
  then show "int64_range v" "s = idec v" "0 < length s" "length s < 32" by (simp_all add: string2ll_iff)
  then show "int_enc_ok v enc"
    using assms s by (auto simp: zipTryEncoding_def int_enc_ok_def fits_bytes_def int64_range_def split: if_splits)
qed

lemma zipTryEncoding_idec:
  assumes "int64_range v"
  shows "\<exists>enc. zipTryEncoding (idec v) = Some (v, enc)"
proof -
  have "string2ll (idec v) = Some v" using assms by (simp add: string2ll_iff)
  moreover have "idec v \<noteq> []" by (simp add: idec_def)
  ultimately show ?thesis using length_idec_le [OF assms] by (simp add: zipTryEncoding_def)
qed

lemma zipTryEncoding_None:
  "zipTryEncoding s = None \<Longrightarrow> int64_range v \<Longrightarrow> s \<noteq> idec v"
  using zipTryEncoding_idec by fastforce

lemma imm_range: "list_all (\<lambda>v. let enc = ZIP_INT_IMM_MIN + word_of_int v in
    \<not> enc < ZIP_STR_MASK \<and> \<not> ZIP_IS_STR enc \<and> ZIP_INT_IMM_MIN \<le> enc \<and> enc \<le> ZIP_INT_IMM_MAX \<and>
    uint (enc AND 0x0f) - 1 = v \<and> enc \<noteq> ZIP_INT_8B \<and> enc \<noteq> ZIP_INT_16B \<and> enc \<noteq> ZIP_INT_24B \<and>
    enc \<noteq> ZIP_INT_32B \<and> enc \<noteq> ZIP_INT_64B) [0..12]"
  by (simp add: upto_rec1 ZIP_IS_STR_def zip_consts)

lemma imm_enc:
  assumes "0 \<le> v" "v \<le> 12" "enc = ZIP_INT_IMM_MIN + word_of_int v"
  shows "\<not> enc < ZIP_STR_MASK \<and> \<not> ZIP_IS_STR enc \<and> ZIP_INT_IMM_MIN \<le> enc \<and> enc \<le> ZIP_INT_IMM_MAX \<and>
    uint (enc AND 0x0f) - 1 = v \<and> enc \<noteq> ZIP_INT_8B \<and> enc \<noteq> ZIP_INT_16B \<and> enc \<noteq> ZIP_INT_24B \<and>
    enc \<noteq> ZIP_INT_32B \<and> enc \<noteq> ZIP_INT_64B"
proof -
  have "v \<in> set [0..12]" using assms(1,2) by simp
  then show ?thesis unfolding assms(3) by (rule bspec [OF imm_range [unfolded list_all_iff Let_def]])
qed

lemma int_enc_facts:
  assumes "int_enc_ok v enc"
  shows "\<not> ZIP_IS_STR enc" "\<not> enc < ZIP_STR_MASK" "length (int_payload v enc) = zipIntSize enc"
proof -
  consider (imm) "0 \<le> v" "v \<le> 12" "enc = ZIP_INT_IMM_MIN + word_of_int v"
    | (num) "enc \<in> {ZIP_INT_8B, ZIP_INT_16B, ZIP_INT_24B, ZIP_INT_32B, ZIP_INT_64B}"
    using assms by (auto simp: int_enc_ok_def)
  then have "\<not> ZIP_IS_STR enc \<and> \<not> enc < ZIP_STR_MASK \<and> length (int_payload v enc) = zipIntSize enc"
  proof cases
    case imm
    from imm_enc [OF imm] show ?thesis by (simp add: int_payload_def zipIntSize_def)
  next
    case num
    then show ?thesis
      by (auto simp: int_payload_def zipIntSize_def ZIP_IS_STR_def zip_consts)
  qed
  then show "\<not> ZIP_IS_STR enc" "\<not> enc < ZIP_STR_MASK" "length (int_payload v enc) = zipIntSize enc" by auto
qed

lemma save_integer:
  assumes "int_enc_ok v enc" "p = length pre" "length old = zipIntSize enc"
  shows "zipSaveInteger (pre @ old @ rest) p v enc = Some (pre @ int_payload v enc @ rest)"
proof -
  have w: "mem_write (pre @ old @ rest) p (int_payload v enc) = Some (pre @ int_payload v enc @ rest)"
    using mem_write_at [OF assms(2)] assms(3) int_enc_facts(3) [OF assms(1)] by simp
  show ?thesis
  proof (cases "enc \<in> {ZIP_INT_8B, ZIP_INT_16B, ZIP_INT_24B, ZIP_INT_32B, ZIP_INT_64B}")
    case True
    with w show ?thesis by (auto simp: zipSaveInteger_def int_payload_def zip_consts)
  next
    case False
    then have "0 \<le> v" "v \<le> 12" "enc = ZIP_INT_IMM_MIN + word_of_int v"
      using assms(1) by (auto simp: int_enc_ok_def)
    then show ?thesis using imm_enc [of v enc] assms(3) False
      by (simp add: zipSaveInteger_def int_payload_def zipIntSize_def)
  qed
qed

text \<open>The low byte of \<open>v * 256\<close> is 0, so the three upper bytes determine \<open>v\<close>.\<close>

lemma le_sbytes_shift: "le_sbytes 4 (v * 256) = 0 # drop 1 (le_sbytes 4 (v * 256))"
proof -
  have "le_bytes 4 n = word_of_nat n # drop 1 (le_bytes 4 n)" for n
    by (simp add: le_bytes_numeral)
  moreover have "nat (v * 256 mod 256 ^ 4) mod 256 = 0"
  proof -
    have "(v * 256 mod 256 ^ 4) mod 256 = 0"
      by (simp add: mod_mod_cancel)
    moreover have "nat (z mod 256) = nat z mod 256" if "0 \<le> z" for z :: int using that by (simp add: nat_mod_distrib)
    ultimately show ?thesis by (metis nat_0 pos_mod_sign zero_less_numeral zero_less_power)
  qed
  then have "(word_of_nat (nat (v * 256 mod 256 ^ 4)) :: byte) = 0"
    unfolding word_unat_eq_iff unat_of_nat by simp
  ultimately show ?thesis unfolding le_sbytes_def by metis
qed

lemma load_integer:
  assumes "int_enc_ok v enc" "p = length pre"
  shows "zipLoadInteger (pre @ int_payload v enc @ rest) p enc = Some v"
proof -
  have r: "mem_read (pre @ int_payload v enc @ rest) p (zipIntSize enc) = Some (int_payload v enc)"
    using int_enc_facts(3) [OF assms(1)] assms(2) by (simp add: mem_read_at)
  consider (imm) "0 \<le> v" "v \<le> 12" "enc = ZIP_INT_IMM_MIN + word_of_int v"
    | (a) "enc = ZIP_INT_8B" "fits_bytes 1 v" | (b) "enc = ZIP_INT_16B" "fits_bytes 2 v"
    | (c) "enc = ZIP_INT_24B" "fits_bytes 3 v" | (d) "enc = ZIP_INT_32B" "fits_bytes 4 v"
    | (e) "enc = ZIP_INT_64B" "fits_bytes 8 v"
    using assms(1) by (auto simp: int_enc_ok_def)
  then show ?thesis
  proof cases
    case imm
    from imm_enc [OF imm] show ?thesis by (simp add: zipLoadInteger_def)
  next
    case a with r show ?thesis by (simp add: zipLoadInteger_def zipIntSize_def int_payload_def le_sval_le_sbytes)
  next
    case b with r show ?thesis
      by (simp add: zipLoadInteger_def zipIntSize_def int_payload_def le_sval_le_sbytes zip_consts)
  next
    case c
    have "fits_bytes 4 (v * 256)" using c(2) by (simp add: fits_bytes_def)
    then have "le_sval (0 # drop 1 (le_sbytes 4 (v * 256))) = v * 256"
      using le_sbytes_shift [of v] le_sval_le_sbytes by metis
    with c r show ?thesis
      by (simp add: zipLoadInteger_def zipIntSize_def int_payload_def zip_consts)
  next
    case d with r show ?thesis
      by (simp add: zipLoadInteger_def zipIntSize_def int_payload_def le_sval_le_sbytes zip_consts)
  next
    case e with r show ?thesis
      by (simp add: zipLoadInteger_def zipIntSize_def int_payload_def le_sval_le_sbytes zip_consts)
  qed
qed

text \<open>The bytes of an entry behind its previous-length field.\<close>

definition body :: "bytes \<Rightarrow> bytes" where
  "body s = (case zipTryEncoding s of None \<Rightarrow> encode_length_buf 0 (length s) @ s
     | Some (v, enc) \<Rightarrow> enc # int_payload v enc)"

definition esz :: "bool \<Rightarrow> bytes \<Rightarrow> nat" where
  "esz big s = psz big + length (body s)"

lemma esz_gt_1: "1 < esz big s" "esz big s \<noteq> 0" "0 < esz big s"
proof -
  have "0 < strlen_size (length s)" by (simp add: strlen_size_def)
  then have "0 < length (body s)"
    by (simp only: body_def length_append length_encode_str split: option.split) simp
  then show "1 < esz big s" by (simp add: esz_def psz_def)
  then show "esz big s \<noteq> 0" "0 < esz big s" by simp_all
qed

lemma length_body_le: "length s \<le> length (body s) \<or> zipTryEncoding s \<noteq> None" "length (body s) \<le> length s + 9"
proof -
  show "length s \<le> length (body s) \<or> zipTryEncoding s \<noteq> None"
    by (auto simp: body_def split: option.splits)
  show "length (body s) \<le> length s + 9"
    using int_enc_facts(3) zipTryEncoding_Some(3)
    by (auto simp: body_def strlen_size_def zipIntSize_def split: option.split)
qed

lemma string_bound: "length (body s) < 2 ^ 32 \<Longrightarrow> length s < 2 ^ 32"
  using length_body_le(1) [of s] zipTryEncoding_Some(5) [of s] by fastforce

lemma decode_body:
  assumes "length (body s) < 2 ^ 32" "p = length pre"
  shows "\<exists>enc ls l. ZIP_DECODE_LENGTH (pre @ body s @ rest) p = Some (enc, ls, l) \<and> ls + l = length (body s) \<and>
    (case zipTryEncoding s of None \<Rightarrow> ZIP_IS_STR enc \<and> ls = strlen_size (length s) \<and> l = length s
     | Some (v, e) \<Rightarrow> enc = e \<and> \<not> ZIP_IS_STR e \<and> ls = 1)"
proof (cases "zipTryEncoding s")
  case None
  then show ?thesis
    using decode_strlen [of "length s" p pre "s @ rest"] string_bound [OF assms(1)] assms(2) by (auto simp: body_def)
next
  case (Some ve)
  obtain v e where ve: "ve = (v, e)" by force
  then have ok: "int_enc_ok v e" using Some zipTryEncoding_Some by simp
  have "mem_get (pre @ body s @ rest) p = Some e"
    using assms(2) Some ve by (simp add: body_def mem_get_start)
  then show ?thesis
    using Some ve int_enc_facts [OF ok]
    by (simp add: ZIP_DECODE_LENGTH_def ZIP_ENTRY_ENCODING_def body_def)
qed

text \<open>What the code finds when it looks at an entry.\<close>

definition entry_at :: "bool \<Rightarrow> nat \<Rightarrow> bytes \<Rightarrow> nat \<Rightarrow> zlentry \<Rightarrow> bool" where
  "entry_at big prev s p e \<longleftrightarrow> prevrawlensize e = psz big \<and> prevrawlen e = prev \<and>
     e_headersize e + e_len e = esz big s \<and> entry_p e = p \<and> e_headersize e = psz big + e_lensize e \<and>
     (case zipTryEncoding s of None \<Rightarrow> ZIP_IS_STR (e_encoding e) \<and> e_lensize e = strlen_size (length s) \<and> e_len e = length s
      | Some (v, enc) \<Rightarrow> e_encoding e = enc \<and> \<not> ZIP_IS_STR enc \<and> e_lensize e = 1)"

lemma entry_atD:
  assumes "entry_at big prev s p e"
  shows "prevrawlensize e = psz big" "prevrawlen e = prev" "e_headersize e + e_len e = esz big s"
  using assms by (simp_all add: entry_at_def)

lemma zipEntry_at:
  assumes "prev_ok big prev" "length (body s) < 2 ^ 32" "p = length pre"
  shows "\<exists>e. zipEntry (pre @ prev_buf big prev @ body s @ rest) p = Some e \<and> entry_at big prev s p e"
proof -
  obtain enc ls l where d: "ZIP_DECODE_LENGTH ((pre @ prev_buf big prev) @ body s @ rest) (p + psz big) = Some (enc, ls, l)"
    "ls + l = length (body s)"
    "case zipTryEncoding s of None \<Rightarrow> ZIP_IS_STR enc \<and> ls = strlen_size (length s) \<and> l = length s
     | Some (v, e) \<Rightarrow> enc = e \<and> \<not> ZIP_IS_STR e \<and> ls = 1"
    using decode_body [OF assms(2), of "p + psz big" "pre @ prev_buf big prev" rest] assms(3) by auto
  then show ?thesis
    using decode_prevlen [OF assms(1,3), of "body s @ rest"]
    by (auto simp: zipEntry_def entry_at_def esz_def split: option.splits)
qed

lemma zipRawEntryLength_at:
  assumes "prev_ok big prev" "length (body s) < 2 ^ 32" "p = length pre"
  shows "zipRawEntryLength (pre @ prev_buf big prev @ body s @ rest) p = Some (esz big s)"
proof -
  obtain enc ls l where "ZIP_DECODE_LENGTH ((pre @ prev_buf big prev) @ body s @ rest) (p + psz big) = Some (enc, ls, l)"
    "ls + l = length (body s)"
    using decode_body [OF assms(2), of "p + psz big" "pre @ prev_buf big prev" rest] assms(3) by auto
  then show ?thesis
    using decode_prevlensize [OF assms(1,3), of "body s @ rest"] by (auto simp: zipRawEntryLength_def esz_def)
qed

lemma first_byte_at:
  assumes "prev_ok big prev" "p = length pre"
  shows "\<exists>b. mem_get (pre @ prev_buf big prev @ rest) p = Some b \<and> b \<noteq> ZIP_END"
  using prev_buf_first [OF assms(1)] assms(2) by (auto simp: mem_get_start)

section \<open>The layout of a list\<close>

type_synonym zentries = "(bool \<times> bytes) list"

fun layout :: "nat \<Rightarrow> zentries \<Rightarrow> bytes" where
  "layout prev [] = []"
| "layout prev ((big, s) # xs) = prev_buf big prev @ body s @ layout (esz big s) xs"

fun entries_ok :: "nat \<Rightarrow> zentries \<Rightarrow> bool" where
  "entries_ok prev [] \<longleftrightarrow> True"
| "entries_ok prev ((big, s) # xs) \<longleftrightarrow> prev_ok big prev \<and> length (body s) < 2 ^ 32 \<and> entries_ok (esz big s) xs"

text \<open>The raw length of the last entry, which the entry behind it stores.\<close>

definition last_sz :: "nat \<Rightarrow> zentries \<Rightarrow> nat" where
  "last_sz prev xs = (if xs = [] then prev else case last xs of (big, s) \<Rightarrow> esz big s)"

lemma last_sz_simps [simp]:
  "last_sz prev [] = prev" "last_sz prev ((big, s) # xs) = last_sz (esz big s) xs"
  "last_sz prev (xs @ ys) = last_sz (last_sz prev xs) ys"
  by (auto simp: last_sz_def)

lemma layout_append: "layout prev (xs @ ys) = layout prev xs @ layout (last_sz prev xs) ys"
  by (induction prev xs rule: layout.induct) simp_all

lemma entries_ok_append: "entries_ok prev (xs @ ys) \<longleftrightarrow> entries_ok prev xs \<and> entries_ok (last_sz prev xs) ys"
  by (induction prev xs rule: layout.induct) auto

text \<open>The size of the layout does not depend on the first stored length.\<close>

fun lsize :: "zentries \<Rightarrow> nat" where
  "lsize [] = 0"
| "lsize ((big, s) # xs) = esz big s + lsize xs"

lemma length_layout [simp]: "length (layout prev xs) = lsize xs"
  by (induction prev xs rule: layout.induct) (simp_all add: esz_def)

lemma lsize_append [simp]: "lsize (xs @ ys) = lsize xs + lsize ys"
  by (induction xs rule: lsize.induct) simp_all

lemma lsize_ge_length: "length xs \<le> lsize xs" "xs \<noteq> [] \<Longrightarrow> length xs < lsize xs"
proof -
  show "length xs \<le> lsize xs"
  proof (induction xs rule: lsize.induct)
    case (2 big s xs)
    then show ?case using esz_gt_1(1) [of big s] by simp
  qed simp
  show "length xs < lsize xs" if "xs \<noteq> []"
    using that
  proof (induction xs rule: lsize.induct)
    case (2 big s xs)
    then show ?case using esz_gt_1(1) [of big s] by (cases xs) simp_all
  qed simp
qed

lemma last_sz_le: "last_sz prev xs \<le> prev + lsize xs"
proof (induction prev xs rule: layout.induct)
  case (2 prev big s xs)
  then show ?case by simp
qed simp

end
