(* ===== verification/Ziplist_Ops.thy ===== *)
theory Ziplist_Ops
  imports Ziplist_Rep
begin

text \<open>
  Insertion, deletion and merging of ziplists keep the layout of \<open>Ziplist_Rep\<close>: the cascade of
  previous-length updates, and the block moves around it.
\<close>

section \<open>The header\<close>

definition zhdr :: "nat \<Rightarrow> nat \<Rightarrow> nat \<Rightarrow> bytes" where
  "zhdr b t n = le_bytes 4 b @ le_bytes 4 t @ le_bytes 2 n"

lemma length_zhdr [simp]: "length (zhdr b t n) = 10"
  by (simp add: zhdr_def)

lemma rd_zhdr [simp]:
  "b < 2 ^ 32 \<Longrightarrow> rd32 (zhdr b t n @ D) 0 = Some b"
  "t < 2 ^ 32 \<Longrightarrow> rd32 (zhdr b t n @ D) 4 = Some t"
  "n < 2 ^ 16 \<Longrightarrow> rd16 (zhdr b t n @ D) 8 = Some n"
  using mem_read_at [of 0 "[]" 4 "le_bytes 4 b" "le_bytes 4 t @ le_bytes 2 n @ D"]
    mem_read_at [of 4 "le_bytes 4 b" 4 "le_bytes 4 t" "le_bytes 2 n @ D"]
    mem_read_at [of 8 "le_bytes 4 b @ le_bytes 4 t" 2 "le_bytes 2 n" D]
  by (simp_all add: zhdr_def rd32_def rd16_def le_val_le_bytes)

lemma wr_zhdr [simp]:
  "wr32 (zhdr b t n @ D) 0 v = Some (zhdr (nat (v mod 2 ^ 32)) t n @ D)"
  "wr32 (zhdr b t n @ D) 4 v = Some (zhdr b (nat (v mod 2 ^ 32)) n @ D)"
  "wr16 (zhdr b t n @ D) 8 v = Some (zhdr b t (nat (v mod 2 ^ 16)) @ D)"
  using mem_write_at [of 0 "[]" "le_bytes 4 b" "le_bytes 4 (nat (v mod 2 ^ 32))" "le_bytes 4 t @ le_bytes 2 n @ D"]
    mem_write_at [of 4 "le_bytes 4 b" "le_bytes 4 t" "le_bytes 4 (nat (v mod 2 ^ 32))" "le_bytes 2 n @ D"]
    mem_write_at [of 8 "le_bytes 4 b @ le_bytes 4 t" "le_bytes 2 n" "le_bytes 2 (nat (v mod 2 ^ 16))" D]
  by (simp_all add: zhdr_def wr32_def wr16_def)

lemma nat_mod_small: "0 \<le> v \<Longrightarrow> v < m \<Longrightarrow> nat (v mod m) = nat v" for v m :: int
  by simp

lemma mem_set_last: "xs \<noteq> [] \<Longrightarrow> p = length pre + length xs - 1 \<Longrightarrow> mem_set (pre @ xs) p v = Some (pre @ butlast xs @ [v])"
proof -
  assume xs: "xs \<noteq> []" and p: "p = length pre + length xs - 1"
  then obtain ys y where "xs = ys @ [y]" by (metis append_butlast_last_id)
  with p show ?thesis using mem_set_mid [of p "pre @ ys" y "[]" v] by simp
qed

lemma resize_zhdr:
  assumes "11 + k < 2 ^ 32"
  shows "ziplistResize (zhdr b t n @ D) (11 + k) =
    Some (zhdr (11 + k) t n @ take k (D @ replicate (k - length D) 0) @ [ZIP_END])"
proof -
  let ?D = "take (Suc k) D @ replicate (Suc k - length D) 0"
  have z: "zrealloc (zhdr b t n @ D) (11 + k) = zhdr b t n @ ?D"
    by (simp add: zrealloc_def)
  have "butlast ?D = take k (D @ replicate (k - length D) 0)"
    by (simp add: butlast_conv_take butlast_append take_butlast min_def not_le le_Suc_eq
        flip: replicate_Suc split: if_splits)
      (auto simp: butlast_take Suc_diff_le)
  moreover have "mem_set (zhdr (11 + k) t n @ ?D) (11 + k - 1) ZIP_END = Some (zhdr (11 + k) t n @ butlast ?D @ [ZIP_END])"
    by (rule mem_set_last) auto
  moreover have "nat (int (11 + k) mod 2 ^ 32) = 11 + k" using assms by simp
  ultimately show ?thesis
    using assms unfolding ziplistResize_def Let_def by (simp add: z del: append_assoc)
qed

lemma mem_move_split:
  assumes "m = U @ Y @ V" "src = length U" "n = length Y" "dst + n \<le> length m"
  shows "mem_move m dst src n = Some (take dst m @ Y @ drop (dst + n) m)"
  using assms by (simp add: mem_move_def mem_read_mid mem_write_def)

section \<open>The cascade\<close>

lemma prev_encode_write:
  "map_option fst (zipPrevEncodeLength zl p r) = mem_write zl p (prev_length_buf r)"
  by (cases "mem_write zl p (prev_length_buf r)") (simp_all add: zipPrevEncodeLength_def)

lemma lsize_butlast: "lsize (butlast xs) \<le> lsize xs"
  by (induction xs rule: lsize.induct) auto

lemma layout_first_byte:
  assumes "entries_ok prev xs" "xs \<noteq> []" "p = length pre"
  shows "\<exists>b. mem_get (pre @ layout prev xs @ rest) p = Some b \<and> b \<noteq> ZIP_END"
proof -
  obtain big s ys where "xs = (big, s) # ys" using assms(2) by (cases xs) auto
  with assms show ?thesis using first_byte_at [of big prev p pre] by auto
qed

text \<open>Moving a block to the right by some bytes opens a gap in front of it.\<close>

lemma mem_move_gap:
  assumes "m = U @ Y @ V" "src = length U" "n = length Y" "dst = src + g" "length V = g + length W"
    "drop g V = W" "P = take a m" "a \<le> dst"
  shows "\<exists>X. mem_move m dst src n = Some (P @ X @ Y @ W) \<and> length X = dst - a"
proof -
  have "mem_move m dst src n = Some (take dst m @ Y @ drop (dst + n) m)"
    using assms by (intro mem_move_split) auto
  moreover have "drop (dst + n) m = W" using assms by simp
  moreover have "take dst m = P @ drop a (take dst m)"
  proof -
    have "take a (take dst m) = P" using assms(7,8) by (simp add: min_def)
    then show ?thesis by (metis append_take_drop_id)
  qed
  moreover have "length (drop a (take dst m)) = dst - a" using assms by simp
  ultimately show ?thesis by (metis append_assoc)
qed

text \<open>The step that widens the previous-length field of the entry at \<open>p\<close>.\<close>

lemma cascade_grow:
  assumes "p = 10 + length B" "15 + k < 2 ^ 32" "t < 2 ^ 32" "k = length B + esz False s + length L" "254 \<le> r"
  shows "do { zl \<leftarrow> ziplistResize (zhdr b t n @ B @ prev_buf False old @ body s @ L @ [ZIP_END]) (11 + k + 4);
      tail \<leftarrow> ZIPLIST_TAIL_OFFSET zl;
      zl \<leftarrow> (if tail \<noteq> p then wr32 zl 4 (int tail + int 4) else Some zl);
      zl \<leftarrow> mem_move zl (p + 5) (p + 1) (11 + k - p - 1 - 1);
      (zl, _) \<leftarrow> zipPrevEncodeLength zl p r;
      F zl } =
    F (zhdr (15 + k) (if t \<noteq> p then (t + 4) mod 2 ^ 32 else t) n @ B @ prev_buf True r @ body s @ L @ [ZIP_END])"
proof -
  let ?V = "[ZIP_END, 0, 0, 0, ZIP_END]"
  let ?t = "if t \<noteq> p then (t + 4) mod 2 ^ 32 else t"
  have "take (k + 4) (B @ prev_buf False old @ body s @ L @ [ZIP_END] @ replicate 3 0) @ [ZIP_END] =
      B @ prev_buf False old @ body s @ L @ ?V"
    using assms(4) by (simp add: esz_def numeral_eq_Suc)
  then have r: "ziplistResize (zhdr b t n @ B @ prev_buf False old @ body s @ L @ [ZIP_END]) (11 + k + 4) =
      Some (zhdr (15 + k) t n @ B @ prev_buf False old @ body s @ L @ ?V)"
    using resize_zhdr [of "k + 4" b t n "B @ prev_buf False old @ body s @ L @ [ZIP_END]"] assms(2,4)
    by (simp add: esz_def add_ac numeral_3_eq_3)
  have "(int t + 4) mod 2 ^ 32 = int ((t + 4) mod 2 ^ 32)" by (simp add: zmod_int)
  then have w: "(if t \<noteq> p then wr32 (zhdr (15 + k) t n @ D) 4 (int t + int 4) else Some (zhdr (15 + k) t n @ D)) =
      Some (zhdr (15 + k) ?t n @ D)" for D
    by simp
  obtain X where m: "mem_move (zhdr (15 + k) ?t n @ B @ prev_buf False old @ body s @ L @ ?V) (p + 5) (p + 1) (11 + k - p - 1 - 1) =
      Some ((zhdr (15 + k) ?t n @ B) @ X @ (body s @ L) @ [ZIP_END])" "length X = 5"
    using mem_move_gap [of _ "zhdr (15 + k) ?t n @ B @ prev_buf False old" "body s @ L" ?V "p + 1" _ "p + 5" 4 "[ZIP_END]"
        "zhdr (15 + k) ?t n @ B" p] assms by (auto simp: esz_def)
  have e: "zipPrevEncodeLength ((zhdr (15 + k) ?t n @ B) @ X @ (body s @ L) @ [ZIP_END]) p r =
      Some ((zhdr (15 + k) ?t n @ B) @ prev_buf True r @ (body s @ L) @ [ZIP_END], 5)"
    using mem_write_at [of p "zhdr (15 + k) ?t n @ B" X "prev_buf True r" "(body s @ L) @ [ZIP_END]"] assms m(2)
    by (simp add: zipPrevEncodeLength_def prev_length_buf_eq)
  show ?thesis
    unfolding r Option.bind.bind_lunit rd_zhdr(2) [OF assms(3)] w m(1) e by simp
qed

text \<open>The whole loop.  The entry at \<open>10 + length A\<close> has its final form; behind it the entries still
  store \<open>old\<close> as its length.  Every entry grows by at most four bytes.\<close>

lemma cascade_loop_layout:
  assumes "entries_ok old xs" "prev_ok bg pv" "length (body s) < 2 ^ 32" "length xs < f"
    "curlen = 11 + length A + esz bg s + lsize xs" "curlen + 4 * length xs < 2 ^ 32"
    "xs \<noteq> [] \<Longrightarrow> t = 10 + length A + esz bg s + lsize (butlast xs)"
  shows "\<exists>xs' t'. cascade_loop f (zhdr curlen t n @ A @ prev_buf bg pv @ body s @ layout old xs @ [ZIP_END]) (10 + length A) curlen =
      Some (zhdr (11 + length A + esz bg s + lsize xs') t' n @ A @ prev_buf bg pv @ body s @ layout (esz bg s) xs' @ [ZIP_END]) \<and>
    map snd xs' = map snd xs \<and> entries_ok (esz bg s) xs' \<and> lsize xs' \<le> lsize xs + 4 * length xs \<and>
    t' = (if xs = [] then t else 10 + length A + esz bg s + lsize (butlast xs'))"
  using assms
proof (induction xs arbitrary: old bg pv s f curlen A t)
  case Nil
  obtain f' where f: "f = Suc f'" using Nil.prems(4) by (cases f) auto
  let ?m = "zhdr curlen t n @ A @ prev_buf bg pv @ body s @ [ZIP_END]"
  obtain b where b: "mem_get ?m (10 + length A) = Some b" "b \<noteq> ZIP_END"
    using first_byte_at [OF Nil.prems(2), of "10 + length A" "zhdr curlen t n @ A"] by auto
  obtain e where e: "zipEntry ?m (10 + length A) = Some e" "entry_at bg pv s (10 + length A) e"
    using zipEntry_at [OF Nil.prems(2,3), of "10 + length A" "zhdr curlen t n @ A" "[ZIP_END]"] by auto
  have "mem_get ?m (10 + length A + esz bg s) = Some ZIP_END"
    using mem_get_at [of "10 + length A + esz bg s" "zhdr curlen t n @ A @ prev_buf bg pv @ body s" ZIP_END "[]"]
    by (simp add: esz_def)
  then have "cascade_loop f ?m (10 + length A) curlen = Some ?m"
    using b e entry_atD [OF e(2)] by (simp add: f)
  then show ?case using Nil.prems(5) by (intro exI [of _ "[]"] exI [of _ t]) simp
next
  case (Cons x ys)
  obtain wide s2 where x: "x = (wide, s2)" by force
  obtain f' where f: "f = Suc f'" using Cons.prems(4) by (cases f) auto
  define r where "r = esz bg s"
  define np where "np = 10 + length A + r"
  let ?B = "A @ prev_buf bg pv @ body s"
  let ?L = "layout (esz wide s2) ys"
  let ?m = "zhdr curlen t n @ A @ prev_buf bg pv @ body s @ prev_buf wide old @ body s2 @ ?L @ [ZIP_END]"
  have ok: "prev_ok wide old" "length (body s2) < 2 ^ 32" "entries_ok (esz wide s2) ys"
    using Cons.prems(1) by (simp_all add: x)
  have lB: "length ?B = length A + r" by (simp add: r_def esz_def)
  have r32: "r < 2 ^ 32" "t < 2 ^ 32" using Cons.prems(5,6,7) lsize_butlast [of ys] by (auto simp: r_def x)
  obtain b where b: "mem_get ?m (10 + length A) = Some b" "b \<noteq> ZIP_END"
    using first_byte_at [OF Cons.prems(2), of "10 + length A" "zhdr curlen t n @ A"] by auto
  obtain e where e: "zipEntry ?m (10 + length A) = Some e" "entry_at bg pv s (10 + length A) e"
    using zipEntry_at [OF Cons.prems(2,3), of "10 + length A" "zhdr curlen t n @ A"] by auto
  have pre: "np = length (zhdr curlen t n @ ?B)" by (simp add: np_def r_def esz_def)
  obtain nb where nb: "mem_get ?m np = Some nb" "nb \<noteq> ZIP_END"
    using first_byte_at [OF ok(1) pre] by auto
  obtain ne where ne: "zipEntry ?m np = Some ne" "entry_at wide old s2 np ne"
    using zipEntry_at [OF ok(1,2) pre] by auto
  note step = b nb e(1) ne(1) entry_atD [OF e(2)] entry_atD [OF ne(2)]
  have go: "cascade_loop f ?m (10 + length A) curlen =
      (if old = r then Some ?m
       else if \<not> wide \<and> 254 \<le> r then do {
           zl \<leftarrow> ziplistResize ?m (curlen + 4);
           tail \<leftarrow> ZIPLIST_TAIL_OFFSET zl;
           zl \<leftarrow> (if tail \<noteq> np then wr32 zl 4 (int tail + int 4) else Some zl);
           zl \<leftarrow> mem_move zl (np + 5) (np + 1) (curlen - np - 1 - 1);
           (zl, _) \<leftarrow> zipPrevEncodeLength zl np r;
           cascade_loop f' zl np (curlen + 4) }
       else if wide then mem_write ?m np (prev_buf True r)
       else mem_write ?m np (prev_buf False r))"
    unfolding f cascade_loop.simps(2) Let_def
    by (simp only: b e(1) Option.bind.bind_lunit entry_atD [OF e(2)] r_def [symmetric] np_def [symmetric] nb ne(1)
        entry_atD [OF ne(2)] prev_encode_write if_False simp_thms zipPrevEncodeLengthForceLarge_def)
      (simp add: prev_length_buf_eq prev_buf_def [of True, symmetric, simplified] psz_def add.commute [of curlen]
        cong: if_cong)
  consider (same) "old = r" | (grow) "old \<noteq> r" "\<not> wide" "254 \<le> r" | (rewrite) "old \<noteq> r" "wide \<or> r < 254"
    by linarith
  then show ?case
  proof cases
    case same
    then show ?thesis
      using go Cons.prems(1,5,7) by (intro exI [of _ "x # ys"] exI [of _ t]) (simp add: x r_def)
  next
    case rewrite
    then have "prev_ok wide r" using r32(1) by (simp add: prev_ok_def)
    moreover have "mem_write ?m np (prev_buf wide r) = Some (zhdr curlen t n @ ?B @ prev_buf wide r @ body s2 @ ?L @ [ZIP_END])"
      using mem_write_at [OF pre, of "prev_buf wide old" "prev_buf wide r"] by simp
    ultimately show ?thesis
      using go rewrite Cons.prems(1,5,7) ok
      by (intro exI [of _ "x # ys"] exI [of _ t]) (cases wide; simp add: x r_def)
  next
    case grow
    define k where "k = length ?B + esz False s2 + length ?L"
    have k: "curlen = 11 + k" "15 + k < 2 ^ 32"
      using Cons.prems(5,6) grow(2) lB by (simp_all add: k_def x r_def)
    have pk: "np = 10 + length ?B" using lB by (simp add: np_def)
    define t2 where "t2 = (if t \<noteq> np then (t + 4) mod 2 ^ 32 else t)"
    have t2: "t2 = (if ys = [] then np else t + 4)"
      using Cons.prems(5-7) lsize_butlast [of ys] grow(2) esz_gt_1(3) [of False s2]
      by (auto simp: t2_def np_def r_def x)
    have c4: "curlen + 4 = 15 + k" using k(1) by simp
    have run: "cascade_loop f ?m (10 + length A) curlen =
        cascade_loop f' (zhdr (15 + k) t2 n @ ?B @ prev_buf True r @ body s2 @ ?L @ [ZIP_END]) np (curlen + 4)"
      using go cascade_grow [OF pk k(2) r32(2) k_def grow(3), of curlen n old "\<lambda>zl. cascade_loop f' zl np (curlen + 4)"] grow
      unfolding k(1) t2_def by (simp only: simp_thms if_True if_False append_assoc)
    have "\<exists>xs' t'. cascade_loop f' (zhdr (15 + k) t2 n @ ?B @ prev_buf True r @ body s2 @ ?L @ [ZIP_END]) (10 + length ?B) (15 + k) =
        Some (zhdr (11 + length ?B + esz True s2 + lsize xs') t' n @ ?B @ prev_buf True r @ body s2 @ layout (esz True s2) xs' @ [ZIP_END]) \<and>
      map snd xs' = map snd ys \<and> entries_ok (esz True s2) xs' \<and> lsize xs' \<le> lsize ys + 4 * length ys \<and>
      t' = (if ys = [] then t2 else 10 + length ?B + esz True s2 + lsize (butlast xs'))"
    proof (rule Cons.IH [OF ok(3) _ ok(2)])
      show "prev_ok True r" using r32(1) by (simp add: prev_ok_def)
      show "length ys < f'" using Cons.prems(4) by (simp add: f)
      show "15 + k = 11 + length ?B + esz True s2 + lsize ys" by (simp add: k_def esz_def)
      show "15 + k + 4 * length ys < 2 ^ 32" using Cons.prems(6) k(1) by simp
      show "t2 = 10 + length ?B + esz True s2 + lsize (butlast ys)" if "ys \<noteq> []"
        using that Cons.prems(7) lB grow(2) by (simp add: t2 x r_def esz_def)
    qed
    then obtain xs' t' where *: "cascade_loop f' (zhdr (15 + k) t2 n @ ?B @ prev_buf True r @ body s2 @ ?L @ [ZIP_END]) (10 + length ?B) (15 + k) =
        Some (zhdr (11 + length ?B + esz True s2 + lsize xs') t' n @ ?B @ prev_buf True r @ body s2 @ layout (esz True s2) xs' @ [ZIP_END])"
      "map snd xs' = map snd ys" "entries_ok (esz True s2) xs'" "lsize xs' \<le> lsize ys + 4 * length ys"
      "t' = (if ys = [] then t2 else 10 + length ?B + esz True s2 + lsize (butlast xs'))"
      by blast
    have "cascade_loop f ?m (10 + length A) curlen =
        Some (zhdr (11 + (length A + r) + esz True s2 + lsize xs') t' n @ ?B @ prev_buf True r @ body s2 @ layout (esz True s2) xs' @ [ZIP_END])"
      using run *(1) unfolding pk c4 lB by (rule trans)
    moreover have "xs' = [] \<longleftrightarrow> ys = []" using *(2) by (metis map_is_Nil_conv)
    moreover have "esz True s2 = esz False s2 + 4" by (simp add: esz_def)
    ultimately show ?thesis
      using grow(2) r32(1) ok(2) *(2-4) *(5) [unfolded lB]
      by (intro exI [of _ "(True, s2) # xs'"] exI [of _ t'])
        (auto simp: x r_def [symmetric] t2 np_def prev_ok_def add_ac)
  qed
qed

text \<open>The update as the operations call it, on an entry whose own size has just changed from
  \<open>old\<close> to its present one (or not at all).\<close>

lemma cascade_update:
  assumes "entries_ok old xs" "prev_ok bg pv" "length (body s) < 2 ^ 32"
    "curlen = 11 + length A + esz bg s + lsize xs" "curlen + 4 * length xs < 2 ^ 32"
    "t = 10 + length A + lsize (butlast ((bg, s) # xs))" "\<not> c \<Longrightarrow> old = esz bg s" "p = 10 + length A"
  shows "\<exists>xs'. (if c then ziplistCascadeUpdate (zhdr curlen t n @ A @ prev_buf bg pv @ body s @ layout old xs @ [ZIP_END]) p
        else Some (zhdr curlen t n @ A @ prev_buf bg pv @ body s @ layout old xs @ [ZIP_END])) =
      Some (zhdr (11 + length A + lsize ((bg, s) # xs')) (10 + length A + lsize (butlast ((bg, s) # xs'))) n @
        A @ layout pv ((bg, s) # xs') @ [ZIP_END]) \<and>
    map snd xs' = map snd xs \<and> entries_ok pv ((bg, s) # xs') \<and> lsize xs' \<le> lsize xs + 4 * length xs"
proof (cases c)
  case False
  then show ?thesis using assms by (intro exI [of _ xs]) (simp add: add.assoc)
next
  case True
  let ?m = "zhdr curlen t n @ A @ prev_buf bg pv @ body s @ layout old xs @ [ZIP_END]"
  have fuel: "length xs < length ?m" using lsize_ge_length(1) [of xs] by simp
  have t: "t = 10 + length A + esz bg s + lsize (butlast xs)" if "xs \<noteq> []" using that assms(6) by simp
  have "ziplistCascadeUpdate ?m p = cascade_loop (length ?m) ?m (10 + length A) curlen"
    using assms(5,8) unfolding ziplistCascadeUpdate_def by simp
  moreover obtain xs' t' where *: "cascade_loop (length ?m) ?m (10 + length A) curlen =
      Some (zhdr (11 + length A + esz bg s + lsize xs') t' n @ A @ prev_buf bg pv @ body s @ layout (esz bg s) xs' @ [ZIP_END])"
    "map snd xs' = map snd xs" "entries_ok (esz bg s) xs'" "lsize xs' \<le> lsize xs + 4 * length xs"
    "t' = (if xs = [] then t else 10 + length A + esz bg s + lsize (butlast xs'))"
    using cascade_loop_layout [OF assms(1-3) fuel assms(4,5) t, of n] by blast
  moreover have "xs' = [] \<longleftrightarrow> xs = []" using *(2) by (metis map_is_Nil_conv)
  ultimately show ?thesis
    using True assms(2,3,6) by (intro exI [of _ xs']) (simp add: add.assoc split: if_splits)
qed

section \<open>Insertion\<close>

text \<open>The length of the entry to write, and the three writes that store it.\<close>

lemma reqlen_eq:
  assumes "(encoding, v, datalen) = (case zipTryEncoding s of
      Some (v, enc) \<Rightarrow> (enc, v, zipIntSize enc) | None \<Rightarrow> (0, 123456789, length s))"
  shows "datalen + length (prev_length_buf q) + length (encode_length_buf encoding (length s)) = esz (\<not> q < 254) s"
proof (cases "zipTryEncoding s")
  case None
  with assms show ?thesis by (simp add: esz_def body_def psz_def)
next
  case (Some ve)
  obtain v' e where ve: "ve = (v', e)" by force
  have ok: "int_enc_ok v' e" using Some ve zipTryEncoding_Some by simp
  then show ?thesis
    using assms Some ve int_enc_facts [OF ok] by (simp add: esz_def body_def psz_def encode_length_buf_def)
qed

lemma write_entry:
  assumes "(encoding, v, datalen) = (case zipTryEncoding s of
      Some (v, enc) \<Rightarrow> (enc, v, zipIntSize enc) | None \<Rightarrow> (0, 123456789, length s))"
    "length J = esz (\<not> q < 254) s" "p = length pre"
  shows "do { (zl, n) \<leftarrow> zipPrevEncodeLength (pre @ J @ rest) p q;
      (zl, m) \<leftarrow> zipEncodeLength zl (p + n) encoding (length s);
      zl \<leftarrow> (if ZIP_IS_STR encoding then mem_write zl (p + n + m) s else zipSaveInteger zl (p + n + m) v encoding);
      F zl } = F (pre @ prev_buf (\<not> q < 254) q @ body s @ rest)"
proof -
  let ?nb = "\<not> q < 254"
  let ?lb = "encode_length_buf encoding (length s)"
  have sz: "esz ?nb s = psz ?nb + length ?lb + datalen"
    using reqlen_eq [OF assms(1), of q] by (cases "q < 254") auto
  define J1 J2 J3 where "J1 = take (psz ?nb) J" and "J2 = take (length ?lb) (drop (psz ?nb) J)"
    and "J3 = drop (psz ?nb + length ?lb) J"
  have J: "J = J1 @ J2 @ J3"
    by (simp add: J1_def J2_def J3_def drop_drop [symmetric] add.commute del: drop_drop)
  have lJ: "length J1 = psz ?nb" "length J2 = length ?lb" "length J3 = datalen"
    using assms(2) sz by (simp_all add: J1_def J2_def J3_def)
  have 1: "zipPrevEncodeLength (pre @ J @ rest) p q = Some (pre @ prev_buf ?nb q @ J2 @ J3 @ rest, psz ?nb)"
    using mem_write_at [OF assms(3), of J1 "prev_buf ?nb q" "J2 @ J3 @ rest"] lJ(1)
    by (simp add: zipPrevEncodeLength_def prev_length_buf_eq J)
  have 2: "zipEncodeLength (pre @ prev_buf ?nb q @ J2 @ J3 @ rest) (p + psz ?nb) encoding (length s) =
      Some ((pre @ prev_buf ?nb q @ ?lb) @ J3 @ rest, length ?lb)"
    using mem_write_at [of "p + psz ?nb" "pre @ prev_buf ?nb q" J2 ?lb "J3 @ rest"] lJ(2) assms(3)
    by (simp add: zipEncodeLength_def Let_def)
  have pos: "p + psz ?nb + length ?lb = length (pre @ prev_buf ?nb q @ ?lb)" using assms(3) by simp
  show ?thesis
  proof (cases "zipTryEncoding s")
    case None
    then have "encoding = 0" "datalen = length s" using assms(1) by simp_all
    then show ?thesis
      using mem_write_at [OF pos, of J3 s rest] lJ(3) None unfolding 1 Option.bind.bind_lunit prod.case 2
      by (simp add: is_str_0 body_def add.assoc)
  next
    case (Some ve)
    obtain v' e where ve: "ve = (v', e)" by force
    have ok: "int_enc_ok v' e" using Some ve zipTryEncoding_Some by simp
    have "encoding = e" "v = v'" "datalen = zipIntSize e" using assms(1) Some ve by simp_all
    then show ?thesis
      using save_integer [OF ok pos, of J3 rest] lJ(3) Some ve int_enc_facts(1) [OF ok] unfolding 1 Option.bind.bind_lunit prod.case 2
      by (simp add: body_def add.assoc encode_length_buf_def)
  qed
qed

text \<open>Growing the block and moving the entry \<open>(w, s1)\<close> at \<open>p\<close> and all behind it up by \<open>reqlen\<close>;
  its previous-length field becomes the one of flag \<open>w'\<close>.\<close>

lemma make_room:
  assumes "p = 10 + length A" "nextdiff = int (psz w') - int (psz w)" "psz w \<le> reqlen + psz w'" "prev_ok w q"
    "k = length A + esz w s1 + length L" "11 + length A + reqlen + esz w' s1 + length L < 2 ^ 32" "curlen = 11 + k"
  shows "\<exists>J. length J = reqlen \<and> do {
      zl \<leftarrow> ziplistResize (zhdr curlen t n @ A @ prev_buf w q @ body s1 @ L @ [ZIP_END]) (nat (int curlen + int reqlen + nextdiff));
      b \<leftarrow> mem_get zl p;
      if b \<noteq> ZIP_END then do {
        zl \<leftarrow> mem_move zl (p + reqlen) (nat (int p - nextdiff)) (nat (int curlen - int p - 1 + nextdiff));
        zl \<leftarrow> mem_write zl (p + reqlen) (prev_buf w' reqlen);
        F zl } else G zl } =
    F (zhdr (11 + length A + reqlen + esz w' s1 + length L) t n @ (A @ J) @ prev_buf w' reqlen @ body s1 @ L @ [ZIP_END])"
proof -
  define d where "d = reqlen + psz w' - psz w"
  define V where "V = take d ([ZIP_END] @ replicate (d - 1) 0) @ [ZIP_END]"
  let ?H = "zhdr (11 + k + d) t n"
  define m where "m = ?H @ A @ prev_buf w q @ body s1 @ L @ V"
  define src where "src = p + psz w - psz w'"
  have src: "nat (int p - nextdiff) = src" "psz w' \<le> p + psz w" using assms(1,2) by (auto simp: src_def psz_def)
  have new: "nat (int curlen + int reqlen + nextdiff) = 11 + (k + d)" using assms(2,3,7) by (simp add: d_def)
  have bound: "11 + (k + d) < 2 ^ 32" using assms(3,5,6) by (simp add: d_def esz_def)
  have "take (k + d) ((A @ prev_buf w q @ body s1 @ L @ [ZIP_END]) @ replicate (k + d - (k + 1)) 0) @ [ZIP_END] =
      A @ prev_buf w q @ body s1 @ L @ V"
    using assms(5) by (simp add: V_def esz_def)
  then have r: "ziplistResize (zhdr curlen t n @ A @ prev_buf w q @ body s1 @ L @ [ZIP_END]) (nat (int curlen + int reqlen + nextdiff)) = Some m"
    unfolding new resize_zhdr [OF bound] m_def using assms(5) by (simp add: esz_def add_ac)
  obtain b where b: "mem_get m p = Some b" "b \<noteq> ZIP_END"
    using first_byte_at [OF assms(4), of p "?H @ A" "body s1 @ L @ V"] assms(1) by (auto simp: m_def)
  let ?Z = "?H @ A @ prev_buf w q"
  have lZ: "length ?Z = p + psz w" using assms(1) by simp
  have split: "m = take src ?Z @ (drop src ?Z @ body s1 @ L) @ V"
    unfolding m_def by (metis append_assoc append_take_drop_id)
  have lY: "length (drop src ?Z) = psz w'" using lZ src(2) by (simp add: src_def)
  obtain J where J: "mem_move m (p + reqlen) src (nat (int curlen - int p - 1 + nextdiff)) =
      Some ((?H @ A) @ J @ (drop src ?Z @ body s1 @ L) @ [ZIP_END])" "length J = reqlen"
  proof -
    have 1: "src = length (take src ?Z)" using lZ by (simp add: src_def psz_def)
    have 2: "nat (int curlen - int p - 1 + nextdiff) = length (drop src ?Z @ body s1 @ L)"
      using assms(1,2,5,7) unfolding length_append [of "drop src ?Z"] lY by (simp add: esz_def)
    have 3: "p + reqlen = src + d" using assms(3) src(2) by (simp add: src_def d_def)
    have 4: "length V = d + length [ZIP_END]" "drop d V = [ZIP_END]" by (auto simp: V_def)
    have 5: "?H @ A = take p m" using assms(1) by (simp add: m_def)
    show ?thesis using mem_move_gap [OF split 1 2 3 4 5] that by auto
  qed
  have wr: "mem_write ((?H @ A) @ J @ (drop src ?Z @ body s1 @ L) @ [ZIP_END]) (p + reqlen) (prev_buf w' reqlen) =
      Some (?H @ (A @ J) @ prev_buf w' reqlen @ body s1 @ L @ [ZIP_END])"
    using mem_write_at [of "p + reqlen" "?H @ A @ J" "drop src ?Z" "prev_buf w' reqlen" "body s1 @ L @ [ZIP_END]"]
      assms(1) J(2) lY by simp
  have tot: "11 + length A + reqlen + esz w' s1 + length L = 11 + k + d"
    using assms(3,5) by (simp add: d_def esz_def)
  show ?thesis
    using b(2) J(2) unfolding r src(1) Option.bind.bind_lunit b(1) J(1) wr tot by (intro exI [of _ J]) simp
qed

text \<open>The tail offset moves by \<open>reqlen\<close>, and by the change of the entry's own size if it is not the
  last one.\<close>

lemma tail_update:
  assumes "prev_ok w' q" "length (body s1) < 2 ^ 32" "entries_ok old ys" "p = 10 + length A"
    "t = 10 + base + lsize (butlast ((w, s1) # ys))" "nextdiff = int (psz w') - int (psz w)"
    "t < 2 ^ 32" "int base + d = int base'"
    "11 + base' + esz w' s1 + lsize ys < 2 ^ 32" "11 + base' + esz w s1 + lsize ys < 2 ^ 32"
  shows "do {
      t0 \<leftarrow> ZIPLIST_TAIL_OFFSET (zhdr b t n @ A @ prev_buf w' q @ body s1 @ layout old ys @ [ZIP_END]);
      zl \<leftarrow> wr32 (zhdr b t n @ A @ prev_buf w' q @ body s1 @ layout old ys @ [ZIP_END]) 4 (int t0 + d);
      tail \<leftarrow> zipEntry zl p;
      tb \<leftarrow> mem_get zl (p + e_headersize tail + e_len tail);
      if tb \<noteq> ZIP_END then do { t \<leftarrow> ZIPLIST_TAIL_OFFSET zl; wr32 zl 4 (int t + nextdiff) } else Some zl } =
    Some (zhdr b (10 + base' + lsize (butlast ((w', s1) # ys))) n @ A @ prev_buf w' q @ body s1 @ layout old ys @ [ZIP_END])"
proof -
  let ?D = "A @ prev_buf w' q @ body s1 @ layout old ys @ [ZIP_END]"
  define t1 where "t1 = nat ((int t + d) mod 2 ^ 32)"
  have bl: "lsize (butlast ys) \<le> lsize ys" by (rule lsize_butlast)
  have t1: "int t1 = (if ys = [] then 10 + int base' else 10 + int base' + int (esz w s1 + lsize (butlast ys)))"
  proof -
    have "int t + d = (if ys = [] then 10 + int base' else 10 + int base' + int (esz w s1 + lsize (butlast ys)))"
      using assms(5,8) by simp
    moreover have "0 \<le> int t + d" "int t + d < 2 ^ 32"
      using calculation assms(10) bl by (auto split: if_splits)
    ultimately show ?thesis by (simp add: t1_def)
  qed
  have t1b: "t1 < 2 ^ 32" unfolding t1_def by (simp add: nat_less_iff)
  obtain e where e: "zipEntry (zhdr b t1 n @ ?D) p = Some e" "entry_at w' q s1 p e"
    using zipEntry_at [OF assms(1,2), of p "zhdr b t1 n @ A"] assms(4) by auto
  have pos: "p + e_headersize e + e_len e = p + esz w' s1" using entry_atD(3) [OF e(2)] by simp
  have pre: "p + esz w' s1 = length (zhdr b t1 n @ A @ prev_buf w' q @ body s1)" using assms(4) by (simp add: esz_def)
  note run = rd_zhdr(2) [OF assms(7)] Option.bind.bind_lunit wr_zhdr t1_def [symmetric] e(1) pos
  show ?thesis
  proof (cases "ys = []")
    case True
    have "mem_get (zhdr b t1 n @ ?D) (p + esz w' s1) = Some ZIP_END"
      using mem_get_at [OF pre, of ZIP_END "[]"] True by simp
    moreover have "t1 = 10 + base'" using t1 True by simp
    ultimately show ?thesis using True unfolding run by simp
  next
    case False
    obtain tb where "mem_get (zhdr b t1 n @ ?D) (p + esz w' s1) = Some tb" "tb \<noteq> ZIP_END"
      using layout_first_byte [OF assms(3) False pre] by auto
    moreover have "nat ((int t1 + nextdiff) mod 2 ^ 32) = 10 + base' + lsize (butlast ((w', s1) # ys))"
      using t1 False assms(6,9) bl by (simp add: esz_def nat_mod_small)
    ultimately show ?thesis
      using t1b unfolding run by simp
  qed
qed

section \<open>Ziplists and their contents\<close>

definition tail_of :: "zentries \<Rightarrow> nat" where
  "tail_of xs = 10 + lsize (butlast xs)"

definition zl_rep :: "bytes \<Rightarrow> zentries \<Rightarrow> bool" where
  "zl_rep zl xs \<longleftrightarrow> entries_ok 0 xs \<and> 11 + lsize xs < 2 ^ 32 \<and>
     (\<exists>n. zl = zhdr (11 + lsize xs) (tail_of xs) n @ layout 0 xs @ [ZIP_END] \<and>
        (n = length xs \<or> n = 65535) \<and> n \<le> 65535)"

text \<open>The abstract value: the list of strings.\<close>

definition zl_list :: "bytes \<Rightarrow> bytes list \<Rightarrow> bool" where
  "zl_list zl ss \<longleftrightarrow> (\<exists>xs. zl_rep zl xs \<and> map snd xs = ss)"

lemma zl_repE:
  assumes "zl_rep zl xs"
  obtains n where "zl = zhdr (11 + lsize xs) (tail_of xs) n @ layout 0 xs @ [ZIP_END]"
    "n = length xs \<or> n = 65535" "n \<le> 65535" "entries_ok 0 xs" "11 + lsize xs < 2 ^ 32" "tail_of xs < 2 ^ 32"
  using assms lsize_butlast [of xs] by (auto simp: zl_rep_def tail_of_def)

lemma zl_repI:
  "entries_ok 0 xs \<Longrightarrow> 11 + lsize xs < 2 ^ 32 \<Longrightarrow> n = length xs \<or> n = 65535 \<Longrightarrow> n \<le> 65535 \<Longrightarrow>
   zl_rep (zhdr (11 + lsize xs) (tail_of xs) n @ layout 0 xs @ [ZIP_END]) xs"
  by (auto simp: zl_rep_def)

lemma length_zl_rep: "zl_rep zl xs \<Longrightarrow> length zl = 11 + lsize xs"
  by (auto simp: zl_rep_def)

lemma new_rep: "zl_rep ziplistNew []"
proof -
  have "ziplistNew = zhdr 11 10 0 @ [ZIP_END]" by (simp add: ziplistNew_def zhdr_def ZIPLIST_HEADER_SIZE_def)
  then show ?thesis by (auto simp: zl_rep_def tail_of_def)
qed

lemma incr_length:
  assumes "n \<le> 65535" "n < 65535 \<Longrightarrow> 0 \<le> int n + d \<and> int n + d < 65536"
  shows "ZIPLIST_INCR_LENGTH (zhdr b t n @ D) d = Some (zhdr b t (if n < 65535 then nat (int n + d) else n) @ D)"
  using assms by (simp add: ZIPLIST_INCR_LENGTH_def nat_mod_small)

text \<open>The length of the entry in front of an insertion point.\<close>

lemma tail_entry:
  assumes "entries_ok 0 xs" "xs \<noteq> []" "length H = 10"
  shows "\<exists>b. mem_get (H @ layout 0 xs @ [ZIP_END]) (tail_of xs) = Some b \<and> b \<noteq> ZIP_END"
    "zipRawEntryLength (H @ layout 0 xs @ [ZIP_END]) (tail_of xs) = Some (last_sz 0 xs)"
proof -
  obtain ys big s where xs: "xs = ys @ [(big, s)]" using assms(2) by (metis append_butlast_last_id surj_pair)
  then have ok: "prev_ok big (last_sz 0 ys)" "length (body s) < 2 ^ 32" using assms(1) by (simp_all add: entries_ok_append)
  have m: "H @ layout 0 xs @ [ZIP_END] = (H @ layout 0 ys) @ prev_buf big (last_sz 0 ys) @ body s @ [ZIP_END]"
    by (simp add: xs layout_append)
  have t: "tail_of xs = length (H @ layout 0 ys)" using assms(3) by (simp add: tail_of_def xs)
  show "\<exists>b. mem_get (H @ layout 0 xs @ [ZIP_END]) (tail_of xs) = Some b \<and> b \<noteq> ZIP_END"
    unfolding m by (rule first_byte_at [OF ok(1) t])
  show "zipRawEntryLength (H @ layout 0 xs @ [ZIP_END]) (tail_of xs) = Some (last_sz 0 xs)"
    unfolding m zipRawEntryLength_at [OF ok t] by (simp add: xs)
qed

lemma byte_at:
  assumes "entries_ok 0 (as @ bs)" "p = 10 + lsize as" "length H = 10"
  shows "\<exists>b. mem_get (H @ layout 0 (as @ bs) @ [ZIP_END]) p = Some b \<and> (b = ZIP_END \<longleftrightarrow> bs = [])"
proof (cases "bs = []")
  case True
  then show ?thesis using mem_get_at [of p "H @ layout 0 as" ZIP_END "[]"] assms(2,3) by simp
next
  case False
  have "entries_ok (last_sz 0 as) bs" using assms(1) by (simp add: entries_ok_append)
  from layout_first_byte [OF this False, of p "H @ layout 0 as" "[ZIP_END]"] show ?thesis
    using False assms(2,3) by (auto simp: layout_append)
qed

lemma insert_prevlen:
  assumes "entries_ok 0 (as @ bs)" "p = 10 + lsize as" "tail_of (as @ bs) < 2 ^ 32"
    "zl = zhdr b0 (tail_of (as @ bs)) n @ layout 0 (as @ bs) @ [ZIP_END]" "b = ZIP_END \<longleftrightarrow> bs = []"
  shows "(if b \<noteq> ZIP_END then map_option snd (ZIP_DECODE_PREVLEN zl p)
       else do {
         ptail \<leftarrow> ZIPLIST_TAIL_OFFSET zl;
         tb \<leftarrow> mem_get zl ptail;
         if tb \<noteq> ZIP_END then zipRawEntryLength zl ptail else Some 0
       }) = Some (last_sz 0 as)"
proof (cases bs)
  case Nil
  show ?thesis
  proof (cases "as = []")
    case True
    then have "mem_get zl (tail_of (as @ bs)) = Some ZIP_END"
      using mem_get_at [of 10 "zhdr b0 (tail_of (as @ bs)) n" ZIP_END "[]"] Nil assms(4) by (simp add: tail_of_def)
    then show ?thesis using Nil True assms(3-5) by simp
  next
    case False
    then show ?thesis
      using tail_entry [of as "zhdr b0 (tail_of as) n"] Nil assms(1,3-5) by auto
  qed
next
  case (Cons x ys)
  obtain w s1 where x: "x = (w, s1)" by force
  have "prev_ok w (last_sz 0 as)" using assms(1) Cons x by (simp add: entries_ok_append)
  from decode_prevlen [OF this, of p "zhdr b0 (tail_of (as @ bs)) n @ layout 0 as"] show ?thesis
    using assms(2,4,5) Cons x by (simp add: layout_append)
qed

lemma count_ok:
  assumes "n = length xs \<or> n = 65535" "n \<le> 65535"
  shows "(if n < 65535 then nat (int n + 1) else n) = Suc (length xs) \<or> (if n < 65535 then nat (int n + 1) else n) = 65535"
    "(if n < 65535 then nat (int n + 1) else n) \<le> 65535"
  using assms by auto

lemma insert_end:
  assumes "zl_rep zl as" "p = 10 + lsize as" "11 + lsize as + esz (\<not> last_sz 0 as < 254) s < 2 ^ 32"
  shows "\<exists>zl'. ziplistInsertAt zl p s = Some zl' \<and> zl_rep zl' (as @ [(\<not> last_sz 0 as < 254, s)])"
proof -
  define q nb where "q = last_sz 0 as" and "nb = (\<not> last_sz 0 as < 254)"
  define reqlen where "reqlen = esz nb s"
  obtain n where zl: "zl = zhdr (11 + lsize as) (tail_of as) n @ layout 0 as @ [ZIP_END]"
    and n: "n = length as \<or> n = 65535" "n \<le> 65535" and ok: "entries_ok 0 as" and b32: "11 + lsize as < 2 ^ 32" "tail_of as < 2 ^ 32"
    using assms(1) by (rule zl_repE)
  obtain enc v dl where tr: "(case zipTryEncoding s of Some (v, enc) \<Rightarrow> (enc, v, zipIntSize enc) | None \<Rightarrow> (0, 123456789, length s)) = (enc, v, dl)"
    using prod_cases3 by blast
  have rq: "dl + length (prev_length_buf q) + length (encode_length_buf enc (length s)) = reqlen"
    using reqlen_eq [OF tr [symmetric], of q] by (simp add: reqlen_def nb_def q_def)
  have get: "mem_get zl p = Some ZIP_END"
    using mem_get_at [of p "zhdr (11 + lsize as) (tail_of as) n @ layout 0 as" ZIP_END "[]"] assms(2) by (simp add: zl)
  have pl: "(do { ptail \<leftarrow> ZIPLIST_TAIL_OFFSET zl; tb \<leftarrow> mem_get zl ptail;
      if tb \<noteq> ZIP_END then zipRawEntryLength zl ptail else Some 0 }) = Some q"
    using insert_prevlen [of as "[]" p zl "11 + lsize as" n ZIP_END] ok assms(2) b32(2) zl by (simp add: q_def)
  define J where "J = take reqlen ([ZIP_END] @ replicate (reqlen - 1) 0)"
  have J: "length J = reqlen" "J = ZIP_END # tl J" using esz_gt_1(1) [of nb s] by (auto simp: J_def reqlen_def take_Cons')
  have nl: "nat (int (11 + lsize as) + int reqlen + 0) = 11 + (lsize as + reqlen)" by simp
  have bd: "11 + (lsize as + reqlen) < 2 ^ 32" using assms(3) by (simp add: reqlen_def nb_def)
  have rs: "ziplistResize zl (11 + (lsize as + reqlen)) =
      Some (zhdr (11 + (lsize as + reqlen)) (tail_of as) n @ layout 0 as @ J @ [ZIP_END])"
    unfolding zl resize_zhdr [OF bd] by (simp add: J_def)
  have get': "mem_get (zhdr (11 + (lsize as + reqlen)) (tail_of as) n @ layout 0 as @ J @ [ZIP_END]) p = Some ZIP_END"
    by (subst J(2)) (use mem_get_at [of p "zhdr (11 + (lsize as + reqlen)) (tail_of as) n @ layout 0 as"] assms(2) in simp)
  have pt: "nat (int p mod 2 ^ 32) = p" using assms(2) b32 by simp
  have no4: "((0 :: int) = - 4) = False" by simp
  let ?H = "zhdr (11 + (lsize as + reqlen)) p n"
  have "ziplistInsertAt zl p s = do {
      (zl, n) \<leftarrow> zipPrevEncodeLength ((?H @ layout 0 as) @ J @ [ZIP_END]) p q;
      (zl, m) \<leftarrow> zipEncodeLength zl (p + n) enc (length s);
      zl \<leftarrow> (if ZIP_IS_STR enc then mem_write zl (p + n + m) s else zipSaveInteger zl (p + n + m) v enc);
      ZIPLIST_INCR_LENGTH zl 1 }"
    unfolding ziplistInsertAt_def
    using b32 rd_zhdr(1) [OF b32(1), of "tail_of as" n "layout 0 as @ [ZIP_END]"]
    by (simp only: zl [symmetric] Option.bind.bind_lunit get pl simp_thms if_False Let_def tr prod.case rq if_True nl
        no4 rs get' wr_zhdr pt append_assoc)
  also have "\<dots> = ZIPLIST_INCR_LENGTH (?H @ layout 0 as @ prev_buf nb q @ body s @ [ZIP_END]) 1"
    using write_entry [OF tr [symmetric], of J q p "?H @ layout 0 as" "[ZIP_END]" "\<lambda>zl. ZIPLIST_INCR_LENGTH zl 1"] J(1) assms(2)
    unfolding reqlen_def nb_def q_def by simp
  finally have "ziplistInsertAt zl p s = Some (zhdr (11 + lsize (as @ [(nb, s)])) (tail_of (as @ [(nb, s)]))
      (if n < 65535 then nat (int n + 1) else n) @ layout 0 (as @ [(nb, s)]) @ [ZIP_END])"
    using incr_length [OF n(2), of 1] assms(2) by (simp add: tail_of_def reqlen_def q_def layout_append)
  moreover have "entries_ok 0 (as @ [(nb, s)])"
    using ok b32 bd last_sz_le [of 0 as] by (simp add: entries_ok_append prev_ok_def nb_def reqlen_def esz_def)
  ultimately show ?thesis
    using count_ok [OF n] bd by (auto simp: zl_rep_def nb_def reqlen_def)
qed

text \<open>Insertion in front of an entry.\<close>

lemma psz_le: "psz w' \<le> psz w + 4"
  by (simp add: psz_def)

lemma nextdiff_flag:
  assumes "nextdiff0 = int (length (prev_length_buf reqlen)) - int (psz w)"
    "forcelarge \<longleftrightarrow> nextdiff0 = - 4 \<and> reqlen < 4" "nextdiff = (if forcelarge then 0 else nextdiff0)"
    "w' \<longleftrightarrow> forcelarge \<or> \<not> reqlen < 254"
  shows "nextdiff = int (psz w') - int (psz w)" "psz w \<le> reqlen + psz w'" "w' \<or> reqlen < 254"
proof -
  show "nextdiff = int (psz w') - int (psz w)" using assms by (cases w) auto
  show "psz w \<le> reqlen + psz w'" using assms by (cases w; cases "reqlen < 4") auto
  show "w' \<or> reqlen < 254" using assms(4) by auto
qed

lemma prev_write_flag:
  assumes "w' \<longleftrightarrow> forcelarge \<or> \<not> reqlen < 254"
  shows "(if forcelarge then zipPrevEncodeLengthForceLarge zl p reqlen else map_option fst (zipPrevEncodeLength zl p reqlen)) =
      mem_write zl p (prev_buf w' reqlen)"
  using assms by (simp add: prev_encode_write zipPrevEncodeLengthForceLarge_def prev_length_buf_eq prev_buf_def)

lemma insert_mid:
  assumes "zl_rep zl (as @ (w, s1) # ys)" "p = 10 + lsize as"
    "11 + lsize (as @ (w, s1) # ys) + esz (\<not> last_sz 0 as < 254) s + 4 * Suc (length ys) < 2 ^ 32"
  shows "\<exists>zl' bs'. ziplistInsertAt zl p s = Some zl' \<and> zl_rep zl' (as @ (\<not> last_sz 0 as < 254, s) # bs') \<and>
    map snd bs' = s1 # map snd ys"
proof -
  define q nb where "q = last_sz 0 as" and "nb = (\<not> last_sz 0 as < 254)"
  define reqlen where "reqlen = esz nb s"
  let ?xs = "as @ (w, s1) # ys"
  let ?L = "layout (esz w s1) ys"
  obtain n where zl0: "zl = zhdr (11 + lsize ?xs) (tail_of ?xs) n @ layout 0 ?xs @ [ZIP_END]"
    and n: "n = length ?xs \<or> n = 65535" "n \<le> 65535" and ok: "entries_ok 0 ?xs" and b32: "11 + lsize ?xs < 2 ^ 32" "tail_of ?xs < 2 ^ 32"
    using assms(1) by (rule zl_repE)
  define curlen where "curlen = 11 + lsize ?xs"
  have zl: "zl = zhdr curlen (tail_of ?xs) n @ layout 0 as @ prev_buf w q @ body s1 @ ?L @ [ZIP_END]"
    by (simp add: zl0 layout_append q_def curlen_def)
  have ok': "prev_ok w q" "length (body s1) < 2 ^ 32" "entries_ok (esz w s1) ys" "entries_ok 0 as"
    using ok by (simp_all add: entries_ok_append q_def)
  obtain enc v dl where tr: "(case zipTryEncoding s of Some (v, enc) \<Rightarrow> (enc, v, zipIntSize enc) | None \<Rightarrow> (0, 123456789, length s)) = (enc, v, dl)"
    using prod_cases3 by blast
  have rq: "dl + length (prev_length_buf q) + length (encode_length_buf enc (length s)) = reqlen"
    using reqlen_eq [OF tr [symmetric], of q] by (simp add: reqlen_def nb_def q_def)
  have pre: "p = length (zhdr curlen (tail_of ?xs) n @ layout 0 as)" using assms(2) by simp
  obtain b where b: "mem_get zl p = Some b" "b \<noteq> ZIP_END"
    using first_byte_at [OF ok'(1) pre] by (auto simp: zl)
  have rc: "ZIPLIST_BYTES zl = Some curlen" using b32(1) by (simp add: zl curlen_def)
  have pl: "map_option snd (ZIP_DECODE_PREVLEN zl p) = Some q"
    using decode_prevlen [OF ok'(1) pre] by (simp add: zl)
  define nextdiff0 where "nextdiff0 = int (length (prev_length_buf reqlen)) - int (psz w)"
  have df: "zipPrevLenByteDiff zl p reqlen = Some nextdiff0"
    using decode_prevlensize [OF ok'(1) pre] by (simp add: zl zipPrevLenByteDiff_def nextdiff0_def)
  define forcelarge where "forcelarge \<longleftrightarrow> nextdiff0 = - 4 \<and> reqlen < 4"
  define nextdiff where "nextdiff = (if forcelarge then 0 else nextdiff0)"
  define w' where "w' \<longleftrightarrow> forcelarge \<or> \<not> reqlen < 254"
  note nd = nextdiff_flag [OF nextdiff0_def forcelarge_def nextdiff_def w'_def]
  have sz: "11 + lsize as + reqlen + esz w' s1 + lsize ys + 4 * length ys < 2 ^ 32"
    "11 + lsize as + reqlen + esz w s1 + lsize ys < 2 ^ 32"
    using assms(3) psz_le [of w' w] unfolding reqlen_def [symmetric] nb_def [symmetric] by (simp_all add: esz_def)
  have ok2: "prev_ok w' reqlen" using nd(3) sz(2) by (auto simp: prev_ok_def)
  define T where "T p' = (\<lambda>zl. do { t \<leftarrow> ZIPLIST_TAIL_OFFSET zl; zl \<leftarrow> wr32 zl 4 (int t + int reqlen);
         tail \<leftarrow> zipEntry zl p'; tb \<leftarrow> mem_get zl (p' + e_headersize tail + e_len tail);
         if tb \<noteq> ZIP_END then do { t \<leftarrow> ZIPLIST_TAIL_OFFSET zl; wr32 zl 4 (int t + nextdiff) } else Some zl })" for p'
  define K where "K = (\<lambda>zl. do {
      zl \<leftarrow> (if nextdiff \<noteq> 0 then ziplistCascadeUpdate zl (p + reqlen) else Some zl);
      (zl, n) \<leftarrow> zipPrevEncodeLength zl p q;
      (zl, m) \<leftarrow> zipEncodeLength zl (p + n) enc (length s);
      zl \<leftarrow> (if ZIP_IS_STR enc then mem_write zl (p + n + m) s else zipSaveInteger zl (p + n + m) v enc);
      ZIPLIST_INCR_LENGTH zl 1 })"
  define R where "R = do {
      zl \<leftarrow> ziplistResize zl (nat (int curlen + int reqlen + nextdiff));
      b \<leftarrow> mem_get zl p;
      if b \<noteq> ZIP_END then do {
        zl \<leftarrow> mem_move zl (p + reqlen) (nat (int p - nextdiff)) (nat (int curlen - int p - 1 + nextdiff));
        zl \<leftarrow> mem_write zl (p + reqlen) (prev_buf w' reqlen);
        T (p + reqlen) zl } else wr32 zl 4 (int p) }"
  have ins0: "ziplistInsertAt zl p s = R \<bind> K"
    unfolding ziplistInsertAt_def K_def T_def R_def
    using b(2)
    by (simp only: rc Option.bind.bind_lunit Option.bind_assoc b(1) pl simp_thms if_False
        Let_def tr prod.case rq if_True df forcelarge_def [symmetric] nextdiff_def [symmetric]
        prev_write_flag [OF w'_def])
  obtain J where J: "length J = reqlen" and R: "R = T (p + reqlen) (zhdr (11 + lsize as + reqlen + esz w' s1 + lsize ys) (tail_of ?xs) n @
      (layout 0 as @ J) @ prev_buf w' reqlen @ body s1 @ ?L @ [ZIP_END])"
  proof -
    have "\<exists>J. length J = reqlen \<and> R = T (p + reqlen) (zhdr (11 + length (layout 0 as) + reqlen + esz w' s1 + length ?L) (tail_of ?xs) n @
      (layout 0 as @ J) @ prev_buf w' reqlen @ body s1 @ ?L @ [ZIP_END])"
      unfolding R_def zl
    proof (rule make_room [OF _ nd(1,2) ok'(1) refl])
      show "p = 10 + length (layout 0 as)" using assms(2) by simp
      show "11 + length (layout 0 as) + reqlen + esz w' s1 + length ?L < 2 ^ 32" using sz(1) by simp
      show "curlen = 11 + (length (layout 0 as) + esz w s1 + length ?L)" by (simp add: curlen_def)
    qed
    then show ?thesis using that by auto
  qed
  let ?A = "layout 0 as @ J"
  let ?D = "?A @ prev_buf w' reqlen @ body s1 @ ?L @ [ZIP_END]"
  define b' where "b' = 11 + length ?A + esz w' s1 + lsize ys"
  define t' where "t' = 10 + length ?A + lsize (butlast ((w', s1) # ys))"
  have lA: "length ?A = lsize as + reqlen" using J by simp
  have T: "T (p + reqlen) (zhdr b' (tail_of ?xs) n @ ?D) = Some (zhdr b' t' n @ ?D)"
    unfolding T_def t'_def
    by (rule tail_update [OF ok2 ok'(2,3) _ _ nd(1) b32(2), where base = "lsize as"])
      (use lA sz assms(2) in \<open>simp_all add: tail_of_def butlast_append\<close>)
  have "11 + lsize as + reqlen + esz w' s1 + lsize ys = b'" using lA by (simp add: b'_def)
  then have ins: "ziplistInsertAt zl p s = K (zhdr b' t' n @ ?D)"
    using ins0 unfolding R by (simp only: T Option.bind.bind_lunit)
  have same: "esz w s1 = esz w' s1" if "\<not> nextdiff \<noteq> 0" using that nd(1) by (simp add: esz_def)
  have p2: "p + reqlen = 10 + length ?A" using lA assms(2) by simp
  have bd: "b' + 4 * length ys < 2 ^ 32" using sz(1) lA by (simp add: b'_def)
  obtain ys' where c: "(if nextdiff \<noteq> 0 then ziplistCascadeUpdate (zhdr b' t' n @ ?D) (p + reqlen) else Some (zhdr b' t' n @ ?D)) =
      Some (zhdr (11 + length ?A + lsize ((w', s1) # ys')) (10 + length ?A + lsize (butlast ((w', s1) # ys'))) n @
        ?A @ layout reqlen ((w', s1) # ys') @ [ZIP_END])"
    and ys': "map snd ys' = map snd ys" "entries_ok reqlen ((w', s1) # ys')" "lsize ys' \<le> lsize ys + 4 * length ys"
    using cascade_update [OF ok'(3) ok2 ok'(2) b'_def bd t'_def _ p2, where c = "nextdiff \<noteq> 0" and n = n] same by blast
  let ?H = "zhdr (11 + length ?A + lsize ((w', s1) # ys')) (10 + length ?A + lsize (butlast ((w', s1) # ys')))"
  have nbq: "nb = (\<not> q < 254)" by (simp add: nb_def q_def)
  have lJ: "length J = esz (\<not> q < 254) s" using J by (simp add: reqlen_def nbq)
  have "ziplistInsertAt zl p s = ZIPLIST_INCR_LENGTH ((?H n @ layout 0 as) @ prev_buf nb q @ body s @ layout reqlen ((w', s1) # ys') @ [ZIP_END]) 1"
    using write_entry [OF tr [symmetric] lJ, of p "?H n @ layout 0 as" "layout reqlen ((w', s1) # ys') @ [ZIP_END]" "\<lambda>zl. ZIPLIST_INCR_LENGTH zl 1"] assms(2)
    unfolding ins K_def c Option.bind.bind_lunit nbq by simp
  then have "ziplistInsertAt zl p s = Some (zhdr (11 + lsize (as @ (nb, s) # (w', s1) # ys')) (tail_of (as @ (nb, s) # (w', s1) # ys'))
      (if n < 65535 then nat (int n + 1) else n) @ layout 0 (as @ (nb, s) # (w', s1) # ys') @ [ZIP_END])"
    using incr_length [OF n(2), of 1] J by (simp add: tail_of_def reqlen_def q_def layout_append butlast_append add.assoc)
  moreover have "zl_rep (zhdr (11 + lsize (as @ (nb, s) # (w', s1) # ys')) (tail_of (as @ (nb, s) # (w', s1) # ys'))
      (if n < 65535 then nat (int n + 1) else n) @ layout 0 (as @ (nb, s) # (w', s1) # ys') @ [ZIP_END]) (as @ (nb, s) # (w', s1) # ys')"
  proof (rule zl_repI)
    show "entries_ok 0 (as @ (nb, s) # (w', s1) # ys')"
      using ok'(4) ys'(2) b32 sz last_sz_le [of 0 as] by (simp add: entries_ok_append prev_ok_def nb_def reqlen_def esz_def)
    show "11 + lsize (as @ (nb, s) # (w', s1) # ys') < 2 ^ 32" using sz(1) ys'(3) by (simp add: reqlen_def)
    have "length ys' = length ys" using ys'(1) by (metis length_map)
    then show "(if n < 65535 then nat (int n + 1) else n) = length (as @ (nb, s) # (w', s1) # ys') \<or>
        (if n < 65535 then nat (int n + 1) else n) = 65535"
      using count_ok(1) [OF n] by simp
    show "(if n < 65535 then nat (int n + 1) else n) \<le> 65535" by (rule count_ok(2) [OF n])
  qed
  ultimately have "ziplistInsertAt zl p s = Some (zhdr (11 + lsize (as @ (nb, s) # (w', s1) # ys')) (tail_of (as @ (nb, s) # (w', s1) # ys'))
      (if n < 65535 then nat (int n + 1) else n) @ layout 0 (as @ (nb, s) # (w', s1) # ys') @ [ZIP_END]) \<and>
    zl_rep (zhdr (11 + lsize (as @ (nb, s) # (w', s1) # ys')) (tail_of (as @ (nb, s) # (w', s1) # ys'))
      (if n < 65535 then nat (int n + 1) else n) @ layout 0 (as @ (nb, s) # (w', s1) # ys') @ [ZIP_END]) (as @ (nb, s) # (w', s1) # ys') \<and>
    map snd ((w', s1) # ys') = s1 # map snd ys"
    using ys'(1) by simp
  then show ?thesis unfolding nb_def by - (rule exI, rule exI, assumption)
qed

end
