(* ===== verification/Ziplist_Del.thy ===== *)
theory Ziplist_Del
  imports Ziplist_Ops
begin

text \<open>
  Deletion of a run of entries and merging of two ziplists.
\<close>

section \<open>Deletion\<close>

lemma delete_walk_layout:
  assumes "entries_ok q cs" "p = length pre"
  shows "delete_walk (pre @ layout q cs @ [ZIP_END]) p num d = Some (p + lsize (take num cs), d + length (take num cs))"
  using assms
proof (induction cs arbitrary: q p pre num d)
  case Nil
  then show ?case by (cases num) (simp_all add: mem_get_at)
next
  case (Cons x cs)
  obtain big s where x: "x = (big, s)" by force
  have ok: "prev_ok big q" "length (body s) < 2 ^ 32" "entries_ok (esz big s) cs" using Cons.prems(1) by (simp_all add: x)
  obtain b where b: "mem_get (pre @ layout q (x # cs) @ [ZIP_END]) p = Some b" "b \<noteq> ZIP_END"
    using layout_first_byte [OF Cons.prems(1) _ Cons.prems(2)] by auto
  show ?case
  proof (cases num)
    case 0
    then show ?thesis using b(1) by simp
  next
    case (Suc k)
    have "zipRawEntryLength (pre @ layout q (x # cs) @ [ZIP_END]) p = Some (esz big s)"
      using zipRawEntryLength_at [OF ok(1,2) Cons.prems(2)] by (simp add: x)
    moreover have "delete_walk (pre @ layout q (x # cs) @ [ZIP_END]) (p + esz big s) k (d + 1) =
        Some (p + esz big s + lsize (take k cs), d + 1 + length (take k cs))"
      using Cons.IH [OF ok(3), of "p + esz big s" "pre @ prev_buf big q @ body s" k "d + 1"] Cons.prems(2)
      by (simp add: x esz_def)
    ultimately show ?thesis using b Suc by (simp add: x)
  qed
qed

lemma tail_of_last: "10 + lsize xs - last_sz 0 xs = tail_of xs" "last_sz 0 xs \<le> lsize xs"
proof -
  have "xs \<noteq> [] \<Longrightarrow> xs = butlast xs @ [last xs]" by simp
  moreover obtain big s where "last xs = (big, s)" by force
  ultimately have "xs \<noteq> [] \<Longrightarrow> lsize xs = lsize (butlast xs) + esz big s \<and> last_sz 0 xs = esz big s"
    using lsize_append [of "butlast xs" "[last xs]"] by (simp add: last_sz_def)
  then show "10 + lsize xs - last_sz 0 xs = tail_of xs" "last_sz 0 xs \<le> lsize xs"
    by (cases "xs = []"; simp add: tail_of_def)+
qed

lemma delete_count:
  assumes "n = length (as @ del @ bs) \<or> n = 65535" "n \<le> 65535"
  shows "ZIPLIST_INCR_LENGTH (zhdr b t n @ D) (- int (length del)) =
      Some (zhdr b t (if n < 65535 then nat (int n - int (length del)) else n) @ D)"
    "(if n < 65535 then nat (int n - int (length del)) else n) = length (as @ bs) \<or>
     (if n < 65535 then nat (int n - int (length del)) else n) = 65535"
    "(if n < 65535 then nat (int n - int (length del)) else n) \<le> 65535"
proof -
  have "n < 65535 \<Longrightarrow> 0 \<le> int n + - int (length del) \<and> int n + - int (length del) < 65536"
    using assms(1) by auto
  from incr_length [OF assms(2) this]
  show "ZIPLIST_INCR_LENGTH (zhdr b t n @ D) (- int (length del)) =
      Some (zhdr b t (if n < 65535 then nat (int n - int (length del)) else n) @ D)" by simp
  show "(if n < 65535 then nat (int n - int (length del)) else n) = length (as @ bs) \<or>
     (if n < 65535 then nat (int n - int (length del)) else n) = 65535"
    "(if n < 65535 then nat (int n - int (length del)) else n) \<le> 65535"
    using assms by auto
qed

text \<open>What the code has found out before it starts to change anything.\<close>

lemma delete_prefix:
  assumes "entries_ok 0 (as @ cs)" "cs \<noteq> []" "p0 = 10 + lsize as" "length H = 10"
  shows "\<exists>e. zipEntry (H @ layout 0 (as @ cs) @ [ZIP_END]) p0 = Some e \<and> prevrawlen e = last_sz 0 as"
    "delete_walk (H @ layout 0 (as @ cs) @ [ZIP_END]) p0 num 0 = Some (p0 + lsize (take num cs), length (take num cs))"
proof -
  have pre: "p0 = length (H @ layout 0 as)" using assms(3,4) by simp
  have ok: "entries_ok (last_sz 0 as) cs" using assms(1) by (simp add: entries_ok_append)
  obtain big s ys where cs: "cs = (big, s) # ys" using assms(2) by (cases cs) auto
  have "\<exists>e. zipEntry ((H @ layout 0 as) @ prev_buf big (last_sz 0 as) @ body s @ layout (esz big s) ys @ [ZIP_END]) p0 = Some e \<and>
      entry_at big (last_sz 0 as) s p0 e"
    using ok cs by (intro zipEntry_at [OF _ _ pre]) simp_all
  then show "\<exists>e. zipEntry (H @ layout 0 (as @ cs) @ [ZIP_END]) p0 = Some e \<and> prevrawlen e = last_sz 0 as"
    using entry_atD(2) by (fastforce simp: layout_append cs)
  show "delete_walk (H @ layout 0 (as @ cs) @ [ZIP_END]) p0 num 0 = Some (p0 + lsize (take num cs), length (take num cs))"
    using delete_walk_layout [OF ok pre, of num 0] by (simp add: layout_append)
qed

lemma delete_to_end:
  assumes "zl_rep zl (as @ del)" "del \<noteq> []" "p0 = 10 + lsize as" "length del \<le> num"
  shows "\<exists>zl'. ziplistDeleteAt zl p0 num = Some zl' \<and> zl_rep zl' as"
proof -
  let ?xs = "as @ del"
  obtain n where zl: "zl = zhdr (11 + lsize ?xs) (tail_of ?xs) n @ layout 0 ?xs @ [ZIP_END]"
    and n: "n = length ?xs \<or> n = 65535" "n \<le> 65535" and ok: "entries_ok 0 ?xs" and b32: "11 + lsize ?xs < 2 ^ 32" "tail_of ?xs < 2 ^ 32"
    using assms(1) by (rule zl_repE)
  obtain e where e: "zipEntry zl p0 = Some e" "prevrawlen e = last_sz 0 as"
    using delete_prefix(1) [OF ok assms(2,3), of "zhdr (11 + lsize ?xs) (tail_of ?xs) n"] by (auto simp: zl)
  have w: "delete_walk zl p0 num 0 = Some (p0 + lsize del, length del)"
    using delete_prefix(2) [OF ok assms(2,3), of "zhdr (11 + lsize ?xs) (tail_of ?xs) n" num] assms(4) by (simp add: zl)
  have pos: "0 < p0 + lsize del - p0" using lsize_ge_length(2) [OF assms(2)] by simp
  have get: "mem_get zl (p0 + lsize del) = Some ZIP_END"
    using mem_get_at [of "p0 + lsize del" "zhdr (11 + lsize ?xs) (tail_of ?xs) n @ layout 0 ?xs" ZIP_END "[]"] assms(3) by (simp add: zl)
  have t: "nat ((int p0 - int (last_sz 0 as)) mod 2 ^ 32) = tail_of as"
    using tail_of_last [of as] b32(1) assms(3) by (simp add: nat_mod_small)
  have wr: "wr32 zl 4 (int p0 - int (last_sz 0 as)) = Some (zhdr (11 + lsize ?xs) (tail_of as) n @ layout 0 ?xs @ [ZIP_END])"
    by (simp only: zl wr_zhdr t)
  have k: "nat ((int (11 + lsize ?xs) - int (p0 + lsize del - p0) + 0) mod 2 ^ 32) = 11 + lsize as"
    using b32(1) by (simp add: nat_mod_small)
  have bd: "11 + lsize as < 2 ^ 32" using b32(1) by simp
  have rs: "ziplistResize (zhdr (11 + lsize ?xs) (tail_of as) n @ layout 0 ?xs @ [ZIP_END]) (11 + lsize as) =
      Some (zhdr (11 + lsize as) (tail_of as) n @ layout 0 as @ [ZIP_END])"
    unfolding resize_zhdr [OF bd] by (simp add: layout_append)
  have "ziplistDeleteAt zl p0 num = ZIPLIST_INCR_LENGTH (zhdr (11 + lsize as) (tail_of as) n @ layout 0 as @ [ZIP_END]) (- int (length del))"
    unfolding ziplistDeleteAt_def Let_def
    using pos by (simp only: e w Option.bind.bind_lunit prod.case if_True get simp_thms if_False wr rd_zhdr(1) [OF b32(1)] k rs)
      (simp add: bind_runit)
  then have "ziplistDeleteAt zl p0 num = Some (zhdr (11 + lsize as) (tail_of as)
      (if n < 65535 then nat (int n - int (length del)) else n) @ layout 0 as @ [ZIP_END])"
    using delete_count(1) [of n as del "[]"] n by simp
  moreover have "zl_rep (zhdr (11 + lsize as) (tail_of as) (if n < 65535 then nat (int n - int (length del)) else n) @ layout 0 as @ [ZIP_END]) as"
    using delete_count(2,3) [of n as del "[]"] n bd ok by (intro zl_repI) (simp_all add: entries_ok_append)
  ultimately show ?thesis by blast
qed

text \<open>The entry \<open>(w, s1)\<close> behind the deleted ones gets its new previous-length field right in front of
  its body, possibly reaching into the deleted bytes; then it moves down.\<close>

lemma close_gap:
  assumes "length Z + psz w' = totlen + psz w" "p0 = 10 + length A" "p' = p0 + length Z"
    "11 + length A + esz w' s1 + length L < 2 ^ 32" "bytes = 11 + length A + totlen + esz w s1 + length L"
    "bytes < 2 ^ 32"
  shows "\<exists>G. mem_move (zhdr bytes t n @ A @ Z @ prev_buf w' q @ body s1 @ L @ [ZIP_END]) p0 p' (bytes - p' - 1) =
      Some (zhdr bytes t n @ G) \<and>
    ziplistResize (zhdr bytes t n @ G) (11 + length A + esz w' s1 + length L) =
      Some (zhdr (11 + length A + esz w' s1 + length L) t n @ A @ prev_buf w' q @ body s1 @ L @ [ZIP_END])"
proof -
  let ?Y = "prev_buf w' q @ body s1 @ L"
  let ?m = "zhdr bytes t n @ A @ Z @ ?Y @ [ZIP_END]"
  have n: "bytes - p' - 1 = length ?Y" using assms(1-3,5) by (simp add: esz_def)
  have "mem_move ?m p0 p' (bytes - p' - 1) = Some (take p0 ?m @ ?Y @ drop (p0 + length ?Y) ?m)"
    unfolding n by (rule mem_move_split [of _ "zhdr bytes t n @ A @ Z" _ "[ZIP_END]"]) (use assms(2,3) in simp_all)
  moreover have "take p0 ?m = zhdr bytes t n @ A" using assms(2) by simp
  moreover define G where "G = drop (p0 + length ?Y) ?m"
  ultimately have m: "mem_move ?m p0 p' (bytes - p' - 1) = Some (zhdr bytes t n @ A @ ?Y @ G)" by simp
  have k: "11 + length A + esz w' s1 + length L = 11 + length (A @ ?Y)" by (simp add: esz_def)
  have "11 + length (A @ ?Y) < 2 ^ 32" using assms(4) by (simp add: esz_def)
  from resize_zhdr [OF this, of bytes t n "(A @ ?Y) @ G"]
  have "ziplistResize (zhdr bytes t n @ A @ ?Y @ G) (11 + length A + esz w' s1 + length L) =
      Some (zhdr (11 + length A + esz w' s1 + length L) t n @ A @ ?Y @ [ZIP_END])"
    unfolding k by simp
  with m show ?thesis by (intro exI [of _ "A @ ?Y @ G"]) simp
qed

lemma delete_mid:
  assumes "zl_rep zl (as @ del @ (w, s1) # ys)" "del \<noteq> []" "p0 = 10 + lsize as"
    "11 + lsize (as @ del @ (w, s1) # ys) + 4 * Suc (length ys) < 2 ^ 32"
  shows "\<exists>zl' bs'. ziplistDeleteAt zl p0 (length del) = Some zl' \<and> zl_rep zl' (as @ bs') \<and> map snd bs' = s1 # map snd ys"
proof -
  define q where "q = last_sz 0 as"
  define w' where "w' \<longleftrightarrow> \<not> q < 254"
  let ?xs = "as @ del @ (w, s1) # ys"
  let ?L = "layout (esz w s1) ys"
  let ?p = "p0 + lsize del"
  obtain n where zl0: "zl = zhdr (11 + lsize ?xs) (tail_of ?xs) n @ layout 0 ?xs @ [ZIP_END]"
    and n: "n = length ?xs \<or> n = 65535" "n \<le> 65535" and ok: "entries_ok 0 ?xs" and b32: "11 + lsize ?xs < 2 ^ 32" "tail_of ?xs < 2 ^ 32"
    using assms(1) by (rule zl_repE)
  define r where "r = last_sz q del"
  let ?H = "zhdr (11 + lsize ?xs) (tail_of ?xs) n"
  have zl: "zl = ((?H @ layout 0 as) @ layout q del) @ prev_buf w r @ body s1 @ ?L @ [ZIP_END]"
    by (simp add: zl0 layout_append q_def r_def)
  have ok': "entries_ok q del" "prev_ok w r" "length (body s1) < 2 ^ 32" "entries_ok (esz w s1) ys" "entries_ok 0 as"
    using ok by (simp_all add: entries_ok_append q_def r_def)
  have q32: "q < 2 ^ 32" using tail_of_last(2) [of as] b32(1) by (simp add: q_def)
  have ok2: "prev_ok w' q" using q32 by (auto simp: prev_ok_def w'_def)
  have wide: "psz w' \<le> lsize del + psz w"
    using ok'(1) assms(2) by (cases del; cases w) (auto simp: prev_ok_def w'_def esz_def psz_def)
  obtain e where e: "zipEntry zl p0 = Some e" "prevrawlen e = q"
    using delete_prefix(1) [of as "del @ (w, s1) # ys" p0 ?H] ok assms(3) by (auto simp: zl0 q_def)
  have wk: "delete_walk zl p0 (length del) 0 = Some (?p, length del)"
    using delete_prefix(2) [of as "del @ (w, s1) # ys" p0 ?H "length del"] ok assms(3) by (simp add: zl0)
  have tot: "?p - p0 = lsize del" "0 < lsize del" using lsize_ge_length(2) [OF assms(2)] by simp_all
  have pre: "?p = length ((?H @ layout 0 as) @ layout q del)" using assms(3) by simp
  obtain b where b: "mem_get zl ?p = Some b" "b \<noteq> ZIP_END" using first_byte_at [OF ok'(2) pre] by (auto simp: zl)
  define nextdiff where "nextdiff = int (psz w') - int (psz w)"
  have df: "zipPrevLenByteDiff zl ?p q = Some nextdiff"
    using decode_prevlensize [OF ok'(2) pre] by (simp add: zl zipPrevLenByteDiff_def nextdiff_def w'_def psz_def)
  define p' where "p' = p0 + (lsize del + psz w - psz w')"
  have p': "nat (int ?p - nextdiff) = p'" using wide by (simp add: nextdiff_def p'_def)
  define Z where "Z = take (lsize del + psz w - psz w') (layout q del @ prev_buf w r)"
  define X where "X = drop (lsize del + psz w - psz w') (layout q del @ prev_buf w r)"
  have ZX: "layout q del @ prev_buf w r = Z @ X" "length Z + psz w' = lsize del + psz w" "length X = psz w'"
    using wide by (simp_all only: Z_def X_def append_take_drop_id length_take length_drop, simp_all)
  have zlZ: "zl = (?H @ layout 0 as @ Z) @ X @ body s1 @ ?L @ [ZIP_END]"
    using ZX(1) by (simp add: zl)
  have pZ: "p' = length (?H @ layout 0 as @ Z)" using ZX(2) assms(3) by (simp add: p'_def)
  have pb: "prev_length_buf q = prev_buf w' q" by (simp add: prev_length_buf_eq w'_def)
  have wr: "zipPrevEncodeLength zl p' q = Some (?H @ (layout 0 as @ Z) @ prev_buf w' q @ body s1 @ ?L @ [ZIP_END], psz w')"
    using mem_write_at [OF pZ, of X "prev_buf w' q" "body s1 @ ?L @ [ZIP_END]"] ZX(3)
    unfolding zipPrevEncodeLength_def pb zlZ by simp
  let ?B = "11 + lsize ?xs"
  let ?D = "(layout 0 as @ Z) @ prev_buf w' q @ body s1 @ ?L @ [ZIP_END]"
  define t' where "t' = 10 + length (layout 0 as) + lsize (butlast ((w', s1) # ys))"
  define b' where "b' = 11 + length (layout 0 as) + esz w' s1 + length ?L"
  define T where "T = (\<lambda>zl. do { t \<leftarrow> ZIPLIST_TAIL_OFFSET zl; zl \<leftarrow> wr32 zl 4 (int t - int (lsize del));
         tail \<leftarrow> zipEntry zl p'; tb \<leftarrow> mem_get zl (p' + e_headersize tail + e_len tail);
         if tb \<noteq> ZIP_END then do { t \<leftarrow> ZIPLIST_TAIL_OFFSET zl; wr32 zl 4 (int t + nextdiff) } else Some zl })"
  define K where "K = (\<lambda>zl. do { bytes \<leftarrow> ZIPLIST_BYTES zl; zl \<leftarrow> mem_move zl p0 p' (bytes - p' - 1);
         bytes \<leftarrow> ZIPLIST_BYTES zl;
         zl \<leftarrow> ziplistResize zl (nat ((int bytes - int (lsize del) + nextdiff) mod 2 ^ 32));
         zl \<leftarrow> ZIPLIST_INCR_LENGTH zl (- int (length del));
         if nextdiff \<noteq> 0 then ziplistCascadeUpdate zl p0 else Some zl })"
  have del0: "ziplistDeleteAt zl p0 (length del) = T (?H @ ?D) \<bind> K"
    unfolding ziplistDeleteAt_def T_def K_def Let_def
    using b(2) tot(2) by (simp only: e wk Option.bind.bind_lunit Option.bind_assoc prod.case tot(1) if_True b(1) simp_thms
        if_False df p' wr)
  have T: "T (?H @ ?D) = Some (zhdr ?B t' n @ ?D)"
  proof -
    have T': "T = (\<lambda>zl. do { t \<leftarrow> ZIPLIST_TAIL_OFFSET zl; zl \<leftarrow> wr32 zl 4 (int t + - int (lsize del));
         tail \<leftarrow> zipEntry zl p'; tb \<leftarrow> mem_get zl (p' + e_headersize tail + e_len tail);
         if tb \<noteq> ZIP_END then do { t \<leftarrow> ZIPLIST_TAIL_OFFSET zl; wr32 zl 4 (int t + nextdiff) } else Some zl })"
      by (simp add: T_def)
    show ?thesis
      unfolding T' t'_def
      by (rule tail_update [OF ok2 ok'(3,4) _ _ nextdiff_def b32(2), where base = "lsize as + lsize del"])
        (use pZ b32 assms(4) psz_le [of w' w] in \<open>simp_all add: tail_of_def butlast_append esz_def\<close>)
  qed
  obtain G where mv: "mem_move (zhdr ?B t' n @ ?D) p0 p' (?B - p' - 1) = Some (zhdr ?B t' n @ G)"
    and rs: "ziplistResize (zhdr ?B t' n @ G) b' = Some (zhdr b' t' n @ layout 0 as @ prev_buf w' q @ body s1 @ ?L @ [ZIP_END])"
  proof -
    have 1: "p0 = 10 + length (layout 0 as)" "p' = p0 + length Z" using assms(3) ZX(2) by (simp_all add: p'_def)
    have 2: "11 + length (layout 0 as) + esz w' s1 + length ?L < 2 ^ 32"
      "?B = 11 + length (layout 0 as) + lsize del + esz w s1 + length ?L"
      using assms(4) psz_le [of w' w] by (simp_all add: esz_def)
    show ?thesis using close_gap [OF ZX(2) 1 2 b32(1), of t' n q] that unfolding b'_def append_assoc by blast
  qed
  let ?n = "if n < 65535 then nat (int n - int (length del)) else n"
  let ?E = "layout 0 as @ prev_buf w' q @ body s1 @ ?L @ [ZIP_END]"
  have nl: "nat ((int ?B - int (lsize del) + nextdiff) mod 2 ^ 32) = b'"
    using assms(4) psz_le [of w' w] by (simp add: nextdiff_def b'_def esz_def nat_mod_small)
  have "K (zhdr ?B t' n @ ?D) = (if nextdiff \<noteq> 0 then ziplistCascadeUpdate (zhdr b' t' ?n @ ?E) p0 else Some (zhdr b' t' ?n @ ?E))"
    unfolding K_def by (simp only: rd_zhdr(1) [OF b32(1)] Option.bind.bind_lunit mv nl rs delete_count(1) [OF n])
  then have run: "ziplistDeleteAt zl p0 (length del) =
      (if nextdiff \<noteq> 0 then ziplistCascadeUpdate (zhdr b' t' ?n @ ?E) p0 else Some (zhdr b' t' ?n @ ?E))"
    unfolding del0 T Option.bind.bind_lunit .
  have same: "esz w s1 = esz w' s1" if "\<not> nextdiff \<noteq> 0" using that by (simp add: nextdiff_def esz_def)
  have bd: "b' + 4 * length ys < 2 ^ 32" using assms(4) psz_le [of w' w] by (simp add: b'_def esz_def)
  have b'': "b' = 11 + length (layout 0 as) + esz w' s1 + lsize ys" by (simp add: b'_def)
  have p0': "p0 = 10 + length (layout 0 as)" using assms(3) by simp
  obtain ys' where c: "ziplistDeleteAt zl p0 (length del) =
      Some (zhdr (11 + length (layout 0 as) + lsize ((w', s1) # ys')) (10 + length (layout 0 as) + lsize (butlast ((w', s1) # ys'))) ?n @
        layout 0 as @ layout q ((w', s1) # ys') @ [ZIP_END])"
    and ys': "map snd ys' = map snd ys" "entries_ok q ((w', s1) # ys')" "lsize ys' \<le> lsize ys + 4 * length ys"
    using cascade_update [OF ok'(4) ok2 ok'(3) b'' bd t'_def _ p0', where c = "nextdiff \<noteq> 0" and n = ?n] same
    unfolding run by blast
  have "zl_rep (zhdr (11 + lsize (as @ (w', s1) # ys')) (tail_of (as @ (w', s1) # ys')) ?n @ layout 0 (as @ (w', s1) # ys') @ [ZIP_END]) (as @ (w', s1) # ys')"
  proof (rule zl_repI)
    show "entries_ok 0 (as @ (w', s1) # ys')" using ok'(5) ys'(2) by (simp add: entries_ok_append q_def)
    show "11 + lsize (as @ (w', s1) # ys') < 2 ^ 32" using bd ys'(3) by (simp add: b'_def)
    have "length ys' = length ys" using ys'(1) by (metis length_map)
    then show "?n = length (as @ (w', s1) # ys') \<or> ?n = 65535" using delete_count(2) [OF n] by simp
    show "?n \<le> 65535" by (rule delete_count(3) [OF n])
  qed
  moreover have "ziplistDeleteAt zl p0 (length del) = Some (zhdr (11 + lsize (as @ (w', s1) # ys')) (tail_of (as @ (w', s1) # ys')) ?n @
      layout 0 (as @ (w', s1) # ys') @ [ZIP_END])"
    unfolding c by (simp add: layout_append q_def tail_of_def butlast_append add.assoc)
  moreover have "map snd ((w', s1) # ys') = s1 # map snd ys" using ys'(1) by simp
  ultimately show ?thesis by (metis (no_types))
qed

section \<open>Merging\<close>

text \<open>Both ways of concatenating the two blocks give the same bytes.\<close>

lemma merge_append:
  assumes "first = H1 @ A @ [ZIP_END]" "second = H2 @ B @ [ZIP_END]" "length H1 = 10" "length H2 = 10"
  shows "do { src \<leftarrow> mem_read second 10 (11 + length B - 10);
      mem_write (zrealloc first (11 + length A + length B)) (11 + length A - 1) src } = Some (H1 @ A @ B @ [ZIP_END])"
proof -
  have "mem_read second 10 (11 + length B - 10) = Some (B @ [ZIP_END])"
    using mem_read_at [of 10 H2 "11 + length B - 10" "B @ [ZIP_END]" "[]"] assms(2,4) by simp
  moreover have "zrealloc first (11 + length A + length B) = (H1 @ A) @ ([ZIP_END] @ replicate (length B) 0) @ []"
    using assms(1,3) by (simp add: zrealloc_def)
  moreover have "mem_write ((H1 @ A) @ ([ZIP_END] @ replicate (length B) 0) @ []) (11 + length A - 1) (B @ [ZIP_END]) =
      Some ((H1 @ A) @ (B @ [ZIP_END]) @ [])"
    by (rule mem_write_at) (use assms(3) in simp_all)
  ultimately show ?thesis by simp
qed

lemma merge_prepend:
  assumes "first = H1 @ A @ [ZIP_END]" "second = H2 @ B @ [ZIP_END]" "length H1 = 10" "length H2 = 10"
  shows "do { target \<leftarrow> mem_move (zrealloc second (11 + length A + length B)) (11 + length A - 1) 10 (11 + length B - 10);
      src \<leftarrow> mem_read first 0 (11 + length A - 1);
      mem_write target 0 src } = Some (H1 @ A @ B @ [ZIP_END])"
proof -
  let ?t = "zrealloc second (11 + length A + length B)"
  have t: "?t = H2 @ (B @ [ZIP_END]) @ replicate (length A) 0" using assms(2,4) by (simp add: zrealloc_def)
  have "mem_move ?t (11 + length A - 1) 10 (11 + length B - 10) =
      Some (take (11 + length A - 1) ?t @ (B @ [ZIP_END]) @ drop (11 + length A - 1 + (11 + length B - 10)) ?t)"
    by (rule mem_move_split [OF t]) (use assms(4) in simp_all)
  moreover have "mem_read first 0 (11 + length A - 1) = Some (H1 @ A)"
    using mem_read_at [of 0 "[]" "11 + length A - 1" "H1 @ A" "[ZIP_END]"] assms(1,3) by simp
  moreover have "mem_write (take (11 + length A - 1) ?t @ (B @ [ZIP_END])) 0 (H1 @ A) = Some (H1 @ A @ B @ [ZIP_END])"
    using mem_write_at [of 0 "[]" "take (11 + length A - 1) ?t" "H1 @ A" "B @ [ZIP_END]"] assms(3) by simp
  ultimately show ?thesis by simp
qed

lemma merge_point:
  assumes "entries_ok 0 xs" "entries_ok 0 ys" "ys \<noteq> []"
  shows "\<exists>as w s1 cs old. layout 0 xs @ layout 0 ys = layout 0 as @ prev_buf w (last_sz 0 as) @ body s1 @ layout old cs \<and>
    xs @ ys = as @ (w, s1) # cs \<and> entries_ok 0 as \<and> prev_ok w (last_sz 0 as) \<and> length (body s1) < 2 ^ 32 \<and>
    entries_ok old cs \<and> tail_of xs = 10 + lsize as \<and> length cs \<le> length ys"
proof (cases "xs = []")
  case True
  obtain w s1 cs where "ys = (w, s1) # cs" using assms(3) by (cases ys) auto
  with True assms show ?thesis
    by (intro exI [of _ "[]"] exI [of _ w] exI [of _ s1] exI [of _ cs] exI [of _ "esz w s1"]) (simp add: tail_of_def)
next
  case False
  then obtain as w s1 where "xs = as @ [(w, s1)]" by (metis append_butlast_last_id surj_pair)
  with assms show ?thesis
    by (intro exI [of _ as] exI [of _ w] exI [of _ s1] exI [of _ ys] exI [of _ 0])
      (simp add: tail_of_def layout_append entries_ok_append)
qed

lemma merge_rep:
  assumes "zl_rep first xs" "zl_rep second ys" "ys \<noteq> []" "11 + lsize xs + lsize ys + 4 * length ys < 2 ^ 32"
  shows "\<exists>zl' b zs. ziplistMerge first second = Some (zl', b) \<and> zl_rep zl' zs \<and> map snd zs = map snd (xs @ ys)"
proof -
  obtain n1 where f: "first = zhdr (11 + lsize xs) (tail_of xs) n1 @ layout 0 xs @ [ZIP_END]"
    and n1: "n1 = length xs \<or> n1 = 65535" "n1 \<le> 65535" and ok1: "entries_ok 0 xs" and b1: "11 + lsize xs < 2 ^ 32" "tail_of xs < 2 ^ 32"
    using assms(1) by (rule zl_repE)
  obtain n2 where s: "second = zhdr (11 + lsize ys) (tail_of ys) n2 @ layout 0 ys @ [ZIP_END]"
    and n2: "n2 = length ys \<or> n2 = 65535" "n2 \<le> 65535" and ok2: "entries_ok 0 ys" and b2: "11 + lsize ys < 2 ^ 32" "tail_of ys < 2 ^ 32"
    using assms(2) by (rule zl_repE)
  have rd: "ZIPLIST_BYTES first = Some (11 + lsize xs)" "ZIPLIST_LENGTH first = Some n1" "ZIPLIST_TAIL_OFFSET first = Some (tail_of xs)"
    "ZIPLIST_BYTES second = Some (11 + lsize ys)" "ZIPLIST_LENGTH second = Some n2" "ZIPLIST_TAIL_OFFSET second = Some (tail_of ys)"
    using b1 b2 n1(2) n2(2) by (simp_all add: f s)
  define b where "b = 11 + lsize xs + lsize ys"
  define n where "n = (if n1 + n2 < 65535 then n1 + n2 else 65535)"
  define t where "t = 10 + lsize xs + lsize (butlast ys)"
  let ?D = "layout 0 xs @ layout 0 ys @ [ZIP_END]"
  have bytes: "11 + lsize xs + (11 + lsize ys) - 10 - 1 = b" by (simp add: b_def)
  have nn: "nat (int b mod 2 ^ 32) = b" "nat (int n mod 2 ^ 16) = n"
    "nat (((int (11 + lsize xs) - int 1) + (int (tail_of ys) - int 10)) mod 2 ^ 32) = t"
    using assms(4) lsize_butlast [of ys] by (simp_all add: b_def n_def t_def tail_of_def nat_mod_small)
  have ap: "do { src \<leftarrow> mem_read second 10 (11 + lsize ys - 10); mem_write (zrealloc first b) (11 + lsize xs - 1) src } =
      Some (zhdr (11 + lsize xs) (tail_of xs) n1 @ ?D)"
    using merge_append [OF f s] by (simp add: b_def)
  have pp: "do { target \<leftarrow> mem_move (zrealloc second b) (11 + lsize xs - 1) 10 (11 + lsize ys - 10);
      src \<leftarrow> mem_read first 0 (11 + lsize xs - 1); mem_write target 0 src } =
      Some (zhdr (11 + lsize xs) (tail_of xs) n1 @ ?D)"
    using merge_prepend [OF f s] by (simp add: b_def)
  have run: "ziplistMerge first second = do { target \<leftarrow> ziplistCascadeUpdate (zhdr b t n @ ?D) (tail_of xs); Some (target, n1 \<ge> n2) }"
  proof (cases "n1 \<ge> n2")
    case True
    then show ?thesis
      unfolding ziplistMerge_def Let_def
      by (simp only: rd Option.bind.bind_lunit if_True simp_thms prod.case bytes ZIPLIST_HEADER_SIZE_def ZIPLIST_END_SIZE_def ap
          wr_zhdr n_def [symmetric] nn)
  next
    case False
    then show ?thesis
      unfolding ziplistMerge_def Let_def
      by (simp only: rd Option.bind.bind_lunit if_False simp_thms prod.case bytes ZIPLIST_HEADER_SIZE_def ZIPLIST_END_SIZE_def pp
          wr_zhdr n_def [symmetric] nn)
  qed
  obtain as w s1 cs old where D: "layout 0 xs @ layout 0 ys = layout 0 as @ prev_buf w (last_sz 0 as) @ body s1 @ layout old cs"
    and xy: "xs @ ys = as @ (w, s1) # cs" and ok: "entries_ok 0 as" "prev_ok w (last_sz 0 as)" "length (body s1) < 2 ^ 32"
    "entries_ok old cs" and tl: "tail_of xs = 10 + length (layout 0 as)" and lc: "length cs \<le> length ys"
    using merge_point [OF ok1 ok2 assms(3)] by auto
  have D': "?D = layout 0 as @ prev_buf w (last_sz 0 as) @ body s1 @ layout old cs @ [ZIP_END]"
    using arg_cong [OF D, of "\<lambda>D. D @ [ZIP_END]"] by simp
  have sz: "lsize xs + lsize ys = lsize as + esz w s1 + lsize cs" using arg_cong [OF xy, of lsize] by simp
  have b: "b = 11 + length (layout 0 as) + esz w s1 + lsize cs" "b + 4 * length cs < 2 ^ 32"
    using sz assms(4) lc by (simp_all add: b_def)
  have t: "t = 10 + length (layout 0 as) + lsize (butlast ((w, s1) # cs))"
    using arg_cong [OF xy, of "\<lambda>zs. lsize (butlast zs)"] assms(3) by (simp add: t_def butlast_append del: butlast.simps)
  obtain cs' where c: "ziplistCascadeUpdate (zhdr b t n @ ?D) (tail_of xs) =
      Some (zhdr (11 + length (layout 0 as) + lsize ((w, s1) # cs')) (10 + length (layout 0 as) + lsize (butlast ((w, s1) # cs'))) n @
        layout 0 as @ layout (last_sz 0 as) ((w, s1) # cs') @ [ZIP_END])"
    and cs': "map snd cs' = map snd cs" "entries_ok (last_sz 0 as) ((w, s1) # cs')" "lsize cs' \<le> lsize cs + 4 * length cs"
    using cascade_update [OF ok(4,2,3) b t _ tl, where c = True and n = n] unfolding D' by auto
  have "zl_rep (zhdr (11 + lsize (as @ (w, s1) # cs')) (tail_of (as @ (w, s1) # cs')) n @ layout 0 (as @ (w, s1) # cs') @ [ZIP_END]) (as @ (w, s1) # cs')"
  proof (rule zl_repI)
    show "entries_ok 0 (as @ (w, s1) # cs')" using ok(1) cs'(2) by (simp add: entries_ok_append)
    show "11 + lsize (as @ (w, s1) # cs') < 2 ^ 32" using b cs'(3) by simp
    have "length (as @ (w, s1) # cs') = length xs + length ys"
      using arg_cong [OF xy, of length] cs'(1) by (metis length_append length_map list.size(4))
    then show "n = length (as @ (w, s1) # cs') \<or> n = 65535" using n1 n2 by (auto simp: n_def)
    show "n \<le> 65535" by (simp add: n_def)
  qed
  moreover have "ziplistMerge first second = Some (zhdr (11 + lsize (as @ (w, s1) # cs')) (tail_of (as @ (w, s1) # cs')) n @
      layout 0 (as @ (w, s1) # cs') @ [ZIP_END], n1 \<ge> n2)"
    unfolding run c by (simp add: layout_append tail_of_def butlast_append add.assoc)
  moreover have "map snd (as @ (w, s1) # cs') = map snd (xs @ ys)" using xy cs'(1) by simp
  ultimately show ?thesis by blast
qed

end
