(* ===== verification/Ziplist_Seq.thy ===== *)
theory Ziplist_Seq
  imports Ziplist_Del
begin

text \<open>
  Reading a ziplist: indexing from either end, stepping, fetching, comparing and searching;
  the ziplist as an implementation of the sequence interface.
\<close>

section \<open>Positions\<close>

definition zoff :: "zentries \<Rightarrow> nat \<Rightarrow> nat" where
  "zoff xs i = 10 + lsize (take i xs)"

lemma zoff_split: "zoff (as @ bs) (length as) = 10 + lsize as"
  by (simp add: zoff_def)

lemma nth_split:
  assumes "i < length xs"
  obtains as w s bs where "xs = as @ (w, s) # bs" "i = length as"
proof -
  obtain w s where "xs ! i = (w, s)" by force
  then have "xs = take i xs @ (w, s) # drop (Suc i) xs" using assms id_take_nth_drop by metis
  then show ?thesis using assms that [of "take i xs" w s "drop (Suc i) xs"] by simp
qed

text \<open>What is found at the position of an entry, and at the end.\<close>

lemma at_entry:
  assumes "zl_rep zl (as @ (w, s) # bs)" "p = 10 + lsize as"
  shows "\<exists>b. mem_get zl p = Some b \<and> b \<noteq> ZIP_END"
    "\<exists>e. zipEntry zl p = Some e \<and> entry_at w (last_sz 0 as) s p e"
    "zipRawEntryLength zl p = Some (esz w s)"
    "ZIP_DECODE_PREVLEN zl p = Some (psz w, last_sz 0 as)"
    "ZIP_DECODE_PREVLENSIZE zl p = Some (psz w)"
    "\<exists>pre rest. zl = pre @ prev_buf w (last_sz 0 as) @ body s @ rest \<and> p = length pre \<and> length (body s) < 2 ^ 32"
proof -
  obtain n where zl: "zl = zhdr (11 + lsize (as @ (w, s) # bs)) (tail_of (as @ (w, s) # bs)) n @ layout 0 (as @ (w, s) # bs) @ [ZIP_END]"
    and ok: "entries_ok 0 (as @ (w, s) # bs)"
    using assms(1) by (rule zl_repE)
  let ?pre = "zhdr (11 + lsize (as @ (w, s) # bs)) (tail_of (as @ (w, s) # bs)) n @ layout 0 as"
  have m: "zl = ?pre @ prev_buf w (last_sz 0 as) @ body s @ layout (esz w s) bs @ [ZIP_END]"
    by (simp add: zl layout_append)
  have ok': "prev_ok w (last_sz 0 as)" "length (body s) < 2 ^ 32" using ok by (simp_all add: entries_ok_append)
  have p: "p = length ?pre" using assms(2) by simp
  show "\<exists>b. mem_get zl p = Some b \<and> b \<noteq> ZIP_END" unfolding m by (rule first_byte_at [OF ok'(1) p])
  show "\<exists>e. zipEntry zl p = Some e \<and> entry_at w (last_sz 0 as) s p e" unfolding m by (rule zipEntry_at [OF ok' p])
  show "zipRawEntryLength zl p = Some (esz w s)" unfolding m by (rule zipRawEntryLength_at [OF ok' p])
  show "ZIP_DECODE_PREVLEN zl p = Some (psz w, last_sz 0 as)" unfolding m by (rule decode_prevlen [OF ok'(1) p])
  show "ZIP_DECODE_PREVLENSIZE zl p = Some (psz w)" unfolding m by (rule decode_prevlensize [OF ok'(1) p])
  show "\<exists>pre rest. zl = pre @ prev_buf w (last_sz 0 as) @ body s @ rest \<and> p = length pre \<and> length (body s) < 2 ^ 32"
    using m p ok'(2) by blast
qed

lemma at_end:
  assumes "zl_rep zl xs" "p = 10 + lsize xs"
  shows "mem_get zl p = Some ZIP_END"
  using assms by (elim zl_repE) (use mem_get_at [of p "zhdr (11 + lsize xs) (tail_of xs) _ @ layout 0 xs" ZIP_END "[]"] in auto)

lemma rep_reads:
  assumes "zl_rep zl xs"
  shows "ZIPLIST_BYTES zl = Some (11 + lsize xs)" "ZIPLIST_TAIL_OFFSET zl = Some (tail_of xs)"
  using assms by (auto elim!: zl_repE)

section \<open>Walking\<close>

lemma index_forward_rep:
  assumes "zl_rep zl (as @ bs)"
  shows "index_forward zl (10 + lsize as) (int i) =
    Some (if i < length bs then (10 + lsize (as @ take i bs), - 1) else (10 + lsize (as @ bs), int i - int (length bs)))"
  using assms
proof (induction bs arbitrary: as i)
  case Nil
  then show ?case using at_end [OF Nil, of "10 + lsize as"] by (subst index_forward.simps) simp
next
  case (Cons x bs)
  obtain w s where x: "x = (w, s)" by force
  note e = at_entry(1,3) [OF Cons.prems [unfolded x] refl]
  obtain b where b: "mem_get zl (10 + lsize as) = Some b" "b \<noteq> ZIP_END" using e(1) by blast
  show ?case
  proof (cases i)
    case 0
    then show ?thesis using b by (subst index_forward.simps) simp
  next
    case (Suc j)
    have "index_forward zl (10 + lsize (as @ [x])) (int j) =
      Some (if j < length bs then (10 + lsize ((as @ [x]) @ take j bs), - 1) else (10 + lsize ((as @ [x]) @ bs), int j - int (length bs)))"
      using Cons.prems by (intro Cons.IH) simp
    then show ?thesis using b e(2) Suc by (subst index_forward.simps) (simp add: x add.assoc)
  qed
qed

text \<open>\<open>last_sz 0 as\<close> is 0 only in front of the first entry.\<close>

lemma last_sz_zero: "last_sz 0 as = 0 \<longleftrightarrow> as = []"
  using esz_gt_1(3) by (auto simp: last_sz_def split: prod.splits)

lemma index_back_rep:
  assumes "zl_rep zl (as @ bs)" "bs \<noteq> []"
  shows "index_back zl (10 + lsize as) (last_sz 0 as) (int i) =
    Some (if i < length as then (10 + lsize (take (length as - i) as), - 1) else (10, int i - int (length as)))"
  using assms
proof (induction as arbitrary: bs i rule: rev_induct)
  case Nil
  then show ?case by (subst index_back.simps) simp
next
  case (snoc x as)
  obtain w s where x: "x = (w, s)" by force
  have sz: "last_sz 0 (as @ [x]) = esz w s" by (simp add: x)
  have rep: "zl_rep zl (as @ (w, s) # bs)" using snoc.prems(1) by (simp add: x)
  show ?case
  proof (cases i)
    case 0
    then show ?thesis using esz_gt_1(3) [of w s] by (subst index_back.simps) (simp add: x)
  next
    case (Suc j)
    have "index_back zl (10 + lsize as) (last_sz 0 as) (int j) =
      Some (if j < length as then (10 + lsize (take (length as - j) as), - 1) else (10, int j - int (length as)))"
      using snoc.prems by (intro snoc.IH [of "x # bs"]) simp_all
    then show ?thesis
      using at_entry(4) [OF rep refl] Suc esz_gt_1(3) [of w s] by (subst index_back.simps) (simp add: sz x)
  qed
qed

lemma ziplistIndex_rep:
  assumes "zl_rep zl xs"
  shows "ziplistIndex zl (int i) = Some (if i < length xs then Some (zoff xs i) else None)"
    "ziplistIndex zl (- int (Suc i)) = Some (if i < length xs then Some (zoff xs (length xs - Suc i)) else None)"
proof -
  show "ziplistIndex zl (int i) = Some (if i < length xs then Some (zoff xs i) else None)"
  proof (cases "i < length xs")
    case True
    then obtain as w s bs where xs: "xs = as @ (w, s) # bs" "i = length as" by (rule nth_split)
    have "index_forward zl ZIPLIST_HEADER_SIZE (int i) = Some (zoff xs i, - 1)"
      using index_forward_rep [of zl "[]" xs i] assms True by (simp add: zoff_def ZIPLIST_HEADER_SIZE_def)
    then show ?thesis
      using True at_entry(1) [of zl as w s bs "zoff xs i"] assms xs by (auto simp: ziplistIndex_def zoff_def)
  next
    case False
    have "index_forward zl ZIPLIST_HEADER_SIZE (int i) = Some (10 + lsize xs, int i - int (length xs))"
      using index_forward_rep [of zl "[]" xs i] assms False by (simp add: ZIPLIST_HEADER_SIZE_def)
    then show ?thesis using False at_end [OF assms refl] by (simp add: ziplistIndex_def)
  qed
  show "ziplistIndex zl (- int (Suc i)) = Some (if i < length xs then Some (zoff xs (length xs - Suc i)) else None)"
  proof (cases xs rule: rev_cases)
    case Nil
    then show ?thesis
      using at_end [OF assms, of 10] rep_reads(2) [OF assms] by (simp add: ziplistIndex_def tail_of_def)
  next
    case (snoc as x)
    obtain w s where x: "x = (w, s)" by force
    have rep: "zl_rep zl (as @ [(w, s)])" using assms snoc x by simp
    have t: "tail_of xs = 10 + lsize as" by (simp add: tail_of_def snoc)
    obtain b where b: "mem_get zl (10 + lsize as) = Some b" "b \<noteq> ZIP_END" using at_entry(1) [OF rep refl] by blast
    note ib = index_back_rep [OF rep, of i]
    show ?thesis
    proof (cases "i < length as")
      case True
      then have "length as - i < length xs" by (simp add: snoc)
      then obtain as' w' s' bs' where xs': "xs = as' @ (w', s') # bs'" "length as - i = length as'" by (rule nth_split)
      then have tk: "take (length as - i) as = as'"
        using snoc True by (metis append_eq_append_conv_if diff_le_self order.strict_implies_order take_append append_Nil2 diff_is_0_eq' take0)
      obtain b' where "mem_get zl (10 + lsize as') = Some b'" "b' \<noteq> ZIP_END"
        using at_entry(1) [of zl as' w' s' bs' "10 + lsize as'"] assms xs' by auto
      moreover have "zoff xs (length xs - Suc i) = 10 + lsize as'" using tk True by (simp add: zoff_def snoc)
      moreover have "i < length xs" using True by (simp add: snoc)
      ultimately show ?thesis
        using ib b True t rep_reads(2) [OF assms] at_entry(4) [OF rep refl] tk by (simp add: ziplistIndex_def)
    next
      case False
      have f: "\<exists>b. mem_get zl 10 = Some b \<and> b \<noteq> ZIP_END"
        using at_entry(1) [of zl "[]" "fst (hd xs)" "snd (hd xs)" "tl xs" 10] assms snoc by (cases xs) auto
      then show ?thesis
        using ib b False t rep_reads(2) [OF assms] at_entry(4) [OF rep refl]
        by (auto simp: ziplistIndex_def zoff_def snoc)
    qed
  qed
qed

lemma ziplistNext_rep:
  assumes "zl_rep zl xs" "i < length xs"
  shows "ziplistNext zl (zoff xs i) = Some (if Suc i < length xs then Some (zoff xs (Suc i)) else None)"
proof -
  obtain as w s bs where xs: "xs = as @ (w, s) # bs" "i = length as" using assms(2) by (rule nth_split)
  have rep: "zl_rep zl (as @ (w, s) # bs)" using assms(1) xs by simp
  have o: "zoff xs i = 10 + lsize as" "zoff xs (Suc i) = 10 + lsize as + esz w s" by (simp_all add: zoff_def xs)
  show ?thesis
  proof (cases bs)
    case Nil
    then show ?thesis
      using at_entry(1,3) [OF rep refl] at_end [OF rep refl] o xs by (auto simp: ziplistNext_def add.assoc)
  next
    case (Cons y cs)
    have "zl_rep zl ((as @ [(w, s)]) @ (fst y, snd y) # cs)" using rep Cons by simp
    from at_entry(1) [OF this refl] show ?thesis
      using at_entry(1,3) [OF rep refl] o xs Cons by (auto simp: ziplistNext_def add.assoc)
  qed
qed

lemma ziplistPrev_rep:
  assumes "zl_rep zl xs" "i \<le> length xs"
  shows "ziplistPrev zl (zoff xs i) = Some (if i = 0 then None else Some (zoff xs (i - 1)))"
proof (cases "i < length xs")
  case True
  then obtain as w s bs where xs: "xs = as @ (w, s) # bs" "i = length as" by (rule nth_split)
  have rep: "zl_rep zl (as @ (w, s) # bs)" using assms(1) xs by simp
  have o: "zoff xs i = 10 + lsize as" by (simp add: zoff_def xs)
  have "zoff xs (i - 1) = 10 + lsize as - last_sz 0 as"
    using tail_of_last(1) [of as] xs(2) by (simp add: zoff_def xs tail_of_def butlast_conv_take)
  moreover have "10 + lsize as = 10 \<longleftrightarrow> as = []" using lsize_ge_length(2) [of as] by fastforce
  ultimately show ?thesis
    using at_entry(1,4) [OF rep refl] o xs(2) last_sz_zero [of as] tail_of_last(2) [of as]
    by (auto simp: ziplistPrev_def ZIPLIST_HEADER_SIZE_def)
next
  case False
  then have i: "i = length xs" using assms(2) by simp
  have o: "zoff xs i = 10 + lsize xs" by (simp add: zoff_def i)
  show ?thesis
  proof (cases xs rule: rev_cases)
    case Nil
    then show ?thesis
      using at_end [OF assms(1), of 10] rep_reads(2) [OF assms(1)] by (simp add: ziplistPrev_def tail_of_def zoff_def i)
  next
    case (snoc as x)
    have rep: "zl_rep zl (as @ [(fst x, snd x)])" using assms(1) snoc by simp
    have "zoff xs (i - 1) = 10 + lsize as" "tail_of xs = 10 + lsize as" by (simp_all add: zoff_def i tail_of_def snoc)
    then show ?thesis
      using at_end [OF assms(1) refl] rep_reads(2) [OF assms(1)] at_entry(1) [OF rep refl] o i snoc
      by (auto simp: ziplistPrev_def)
  qed
qed

section \<open>Contents\<close>

definition zval_of :: "bytes \<Rightarrow> zval" where
  "zval_of s = (case zipTryEncoding s of None \<Rightarrow> ZStr s | Some (v, _) \<Rightarrow> ZInt v)"

fun zval_str :: "zval \<Rightarrow> bytes" where
  "zval_str (ZStr s) = s"
| "zval_str (ZInt v) = idec v"

lemma zval_str_of [simp]: "zval_str (zval_of s) = s"
  using zipTryEncoding_Some(2) by (auto simp: zval_of_def split: option.split)

text \<open>Reading the payload of an entry.\<close>

lemma payload:
  assumes "zl_rep zl (as @ (w, s) # bs)" "p = 10 + lsize as" "entry_at w (last_sz 0 as) s p e"
  shows "zipTryEncoding s = None \<Longrightarrow> mem_read zl (p + e_headersize e) (length s) = Some s"
    "zipTryEncoding s = Some (v, enc) \<Longrightarrow> zipLoadInteger zl (p + e_headersize e) enc = Some v"
proof -
  obtain pre rest where zl: "zl = pre @ prev_buf w (last_sz 0 as) @ body s @ rest" and p: "p = length pre"
    using at_entry(6) [OF assms(1,2)] by blast
  show "mem_read zl (p + e_headersize e) (length s) = Some s" if "zipTryEncoding s = None"
  proof -
    have "e_headersize e = psz w + strlen_size (length s)" using assms(3) that by (simp add: entry_at_def)
    then show ?thesis
      using mem_read_at [of _ "pre @ prev_buf w (last_sz 0 as) @ encode_length_buf 0 (length s)" "length s" s rest] that
      by (simp add: zl p body_def)
  qed
  show "zipLoadInteger zl (p + e_headersize e) enc = Some v" if s: "zipTryEncoding s = Some (v, enc)"
  proof -
    have "e_headersize e = psz w + 1" using assms(3) s by (simp add: entry_at_def)
    then show ?thesis
      using load_integer [OF zipTryEncoding_Some(3) [OF s], of _ "pre @ prev_buf w (last_sz 0 as) @ [enc]" rest] s
      by (simp add: zl p body_def)
  qed
qed

lemma ziplistGet_rep:
  assumes "zl_rep zl xs"
  shows "i < length xs \<Longrightarrow> ziplistGet zl (zoff xs i) = Some (Some (zval_of (snd (xs ! i))))"
    "ziplistGet zl (zoff xs (length xs)) = Some None"
proof -
  show "ziplistGet zl (zoff xs i) = Some (Some (zval_of (snd (xs ! i))))" if i: "i < length xs"
  proof -
    obtain as w s bs where xs: "xs = as @ (w, s) # bs" "i = length as" using i by (rule nth_split)
    have rep: "zl_rep zl (as @ (w, s) # bs)" using assms xs by simp
    obtain b e where *: "mem_get zl (10 + lsize as) = Some b" "b \<noteq> ZIP_END" "zipEntry zl (10 + lsize as) = Some e"
      "entry_at w (last_sz 0 as) s (10 + lsize as) e"
      using at_entry(1,2) [OF rep refl] by blast
    show ?thesis
      using * payload [OF rep refl *(4)] by (auto simp: ziplistGet_def zoff_def xs zval_of_def entry_at_def split: option.splits)
  qed
  show "ziplistGet zl (zoff xs (length xs)) = Some None"
    using at_end [OF assms refl] by (simp add: ziplistGet_def zoff_def)
qed

text \<open>Equal values have equal representations, so comparing the stored forms compares the strings.\<close>

lemma encoding_eq:
  "zipTryEncoding s = Some (v, enc) \<Longrightarrow> zipTryEncoding t = Some (v', enc') \<Longrightarrow> v = v' \<longleftrightarrow> s = t"
  by (metis option.inject prod.inject zipTryEncoding_Some(2))

lemma ziplistCompare_rep:
  assumes "zl_rep zl xs" "i < length xs"
  shows "ziplistCompare zl (zoff xs i) t = Some (snd (xs ! i) = t)"
proof -
  obtain as w s bs where xs: "xs = as @ (w, s) # bs" "i = length as" using assms(2) by (rule nth_split)
  have rep: "zl_rep zl (as @ (w, s) # bs)" using assms xs by simp
  obtain b e where *: "mem_get zl (10 + lsize as) = Some b" "b \<noteq> ZIP_END" "zipEntry zl (10 + lsize as) = Some e"
    "entry_at w (last_sz 0 as) s (10 + lsize as) e"
    using at_entry(1,2) [OF rep refl] by blast
  show ?thesis
  proof (cases "zipTryEncoding s")
    case None
    then show ?thesis
      using * payload(1) [OF rep refl *(4) None] by (auto simp: ziplistCompare_def zoff_def xs entry_at_def)
  next
    case (Some ve)
    obtain v enc where ve: "ve = (v, enc)" by force
    then show ?thesis
      using * Some payload(2) [OF rep refl *(4), of v enc] encoding_eq [of s v enc t]
      by (auto simp: ziplistCompare_def zoff_def xs entry_at_def split: option.splits)
  qed
qed

text \<open>The reference search: the first element equal to \<open>t\<close> among those that are looked at, which is
  one, then every one behind \<open>skip\<close> others.\<close>

fun zfind :: "bytes list \<Rightarrow> bytes \<Rightarrow> nat \<Rightarrow> nat \<Rightarrow> nat \<Rightarrow> nat option" where
  "zfind [] t skip skipcnt i = None"
| "zfind (s # ss) t skip skipcnt i =
     (if skipcnt = 0 then (if s = t then Some i else zfind ss t skip skip (Suc i))
      else zfind ss t skip (skipcnt - 1) (Suc i))"

definition venc_ok :: "bytes \<Rightarrow> byte \<Rightarrow> int \<Rightarrow> bool" where
  "venc_ok t venc vll \<longleftrightarrow> venc = 0 \<or> (venc = 255 \<and> zipTryEncoding t = None) \<or> zipTryEncoding t = Some (vll, venc)"

lemma int_enc_not_special: "int_enc_ok v enc \<Longrightarrow> enc \<noteq> 0 \<and> enc \<noteq> 255"
proof -
  assume "int_enc_ok v enc"
  then consider "0 \<le> v" "v \<le> 12" "enc = ZIP_INT_IMM_MIN + word_of_int v"
    | "enc \<in> {ZIP_INT_8B, ZIP_INT_16B, ZIP_INT_24B, ZIP_INT_32B, ZIP_INT_64B}"
    by (auto simp: int_enc_ok_def)
  then show ?thesis
  proof cases
    case 1
    from imm_enc [OF 1] have "ZIP_INT_IMM_MIN \<le> enc" "enc \<le> ZIP_INT_IMM_MAX" by auto
    then show ?thesis by (auto simp: zip_consts)
  qed (auto simp: zip_consts)
qed

lemma zipTryEncoding_enc: "zipTryEncoding t = Some (v, e) \<Longrightarrow> e \<noteq> 0 \<and> e \<noteq> 255"
  using int_enc_not_special zipTryEncoding_Some(3) by blast

lemma venc_update:
  assumes "venc_ok t venc vll" "zipTryEncoding s = Some (v, en)"
    "(if venc = 0 then (case zipTryEncoding t of Some (v, e) \<Rightarrow> (e, v) | None \<Rightarrow> (255, vll)) else (venc, vll)) = (venc', vll')"
  shows "venc_ok t venc' vll'" "venc' \<noteq> 0" "(venc' \<noteq> 255 \<and> v = vll') = (s = t)"
proof -
  show 1: "venc_ok t venc' vll'" using assms(1,3) by (auto simp: venc_ok_def split: if_splits option.splits)
  show "venc' \<noteq> 0"
    using assms(1,3) zipTryEncoding_enc by (auto split: if_splits option.splits)
  with 1 show "(venc' \<noteq> 255 \<and> v = vll') = (s = t)"
    using encoding_eq [OF assms(2), of t] zipTryEncoding_enc [OF assms(2)] assms(2) by (auto simp: venc_ok_def)
qed

lemma find_loop_step:
  assumes "mem_get zl p = Some b" "b \<noteq> ZIP_END" "ZIP_DECODE_PREVLENSIZE zl p = Some ps"
    "ZIP_DECODE_LENGTH zl (p + ps) = Some (enc, ls, l)" "q = p + ps + ls" "r = q + l" "p < r"
    "(if venc = 0 then (case zipTryEncoding t of Some (v, e) \<Rightarrow> (e, v) | None \<Rightarrow> (255, vll)) else (venc, vll)) = (venc', vll')"
    "venc' \<noteq> 0"
  shows "find_loop zl p t skip skipcnt venc vll =
    (if skipcnt \<noteq> 0 then find_loop zl r t skip (skipcnt - 1) venc vll
     else if ZIP_IS_STR enc then
       Option.bind (if l = length t then map_option (\<lambda>s. s = t) (mem_read zl q (length t)) else Some False)
         (\<lambda>found. if found then Some (Some p) else find_loop zl r t skip skip venc vll)
     else
       Option.bind (if venc' \<noteq> 255 then map_option (\<lambda>ll. ll = vll') (zipLoadInteger zl q enc) else Some False)
         (\<lambda>found. if found then Some (Some p) else find_loop zl r t skip skip venc' vll'))"
  using assms(2,7,9)
  by (subst find_loop.simps, simp only: assms(1,3,4) Option.bind.bind_lunit prod.case Let_def assms(5) [symmetric]
      assms(6) [symmetric] assms(8) if_False if_True simp_thms) simp

lemma find_loop_rep:
  assumes "zl_rep zl (as @ bs)" "venc_ok t venc vll"
  shows "find_loop zl (10 + lsize as) t skip skipcnt venc vll =
    Some (map_option (zoff (as @ bs)) (zfind (map snd bs) t skip skipcnt (length as)))"
  using assms
proof (induction bs arbitrary: as skipcnt venc vll)
  case Nil
  then show ?case using at_end [of zl as "10 + lsize as"] by (subst find_loop.simps) simp
next
  case (Cons x bs)
  obtain w s where x: "x = (w, s)" by force
  define p r where "p = 10 + lsize as" and "r = 10 + lsize (as @ [x])"
  have rep: "zl_rep zl (as @ (w, s) # bs)" using Cons.prems(1) by (simp add: x)
  obtain b e where b: "mem_get zl p = Some b" "b \<noteq> ZIP_END" and e: "zipEntry zl p = Some e" "entry_at w (last_sz 0 as) s p e"
    using at_entry(1,2) [OF rep p_def] by blast
  obtain enc ls l where d: "ZIP_DECODE_PREVLENSIZE zl p = Some (psz w)"
    "ZIP_DECODE_LENGTH zl (p + psz w) = Some (enc, ls, l)" "enc = e_encoding e" "l = e_len e" "psz w + ls = e_headersize e"
  proof (cases "ZIP_DECODE_LENGTH zl (p + psz w)")
    case None
    then show ?thesis using e(1) at_entry(4) [OF rep p_def] by (simp add: zipEntry_def)
  next
    case (Some a)
    obtain enc ls l where "a = (enc, ls, l)" using prod_cases3 by blast
    with Some show ?thesis
      using e(1) at_entry(4,5) [OF rep p_def] that [of enc ls l] unfolding zipEntry_def by fastforce
  qed
  define q where "q = p + psz w + ls"
  have nx: "r = q + l" "p < r" and q: "q = p + e_headersize e"
    using entry_atD(3) [OF e(2)] d(4,5) esz_gt_1(3) [of w s] by (simp_all add: x p_def r_def q_def)
  obtain venc' vll' where vp: "(if venc = 0 then (case zipTryEncoding t of
      Some (v, e) \<Rightarrow> (e, v) | None \<Rightarrow> (255, vll)) else (venc, vll)) = (venc', vll')" by force
  have v0: "venc' \<noteq> 0" using vp zipTryEncoding_enc by (auto split: if_splits option.splits)
  note step = find_loop_step [OF b d(1,2) q_def nx vp v0]
  have IH: "find_loop zl r t skip k e' v' =
      Some (map_option (zoff (as @ x # bs)) (zfind (map snd bs) t skip k (Suc (length as))))" if "venc_ok t e' v'" for k e' v'
    using Cons.IH [of "as @ [x]" e' v' k] Cons.prems(1) that by (simp add: r_def)
  have here: "zoff (as @ x # bs) (length as) = p" by (simp add: zoff_def p_def)
  show ?case unfolding p_def [symmetric]
  proof (cases "zipTryEncoding s")
    case None
    then have "ZIP_IS_STR enc" "l = length s" using e(2) d(3,4) by (simp_all add: entry_at_def)
    then show "find_loop zl p t skip skipcnt venc vll =
        Some (map_option (zoff (as @ x # bs)) (zfind (map snd (x # bs)) t skip skipcnt (length as)))"
      unfolding step using IH [OF Cons.prems(2)] payload(1) [OF rep p_def e(2) None] here q by (auto simp: x)
  next
    case (Some ve)
    obtain v en where ve: "ve = (v, en)" by force
    have i: "\<not> ZIP_IS_STR enc" "enc = en" using e(2) d(3) Some ve by (simp_all add: entry_at_def)
    have ld: "zipLoadInteger zl q enc = Some v"
      using payload(2) [OF rep p_def e(2), of v en] Some ve i(2) q by simp
    note up = venc_update [OF Cons.prems(2) Some [unfolded ve] vp]
    have bd: "Option.bind (if venc' \<noteq> 255 then map_option (\<lambda>ll. ll = vll') (zipLoadInteger zl q enc) else Some False) F = F (s = t)" for F
      using up(3) ld by auto
    show "find_loop zl p t skip skipcnt venc vll =
        Some (map_option (zoff (as @ x # bs)) (zfind (map snd (x # bs)) t skip skipcnt (length as)))"
      unfolding step bd using i(1) IH [OF up(1)] IH [OF Cons.prems(2)] here by (auto simp: x)
  qed
qed

lemma ziplistFind_rep:
  assumes "zl_rep zl xs" "i \<le> length xs"
  shows "ziplistFind zl (zoff xs i) t skip = Some (map_option (zoff xs) (zfind (drop i (map snd xs)) t skip 0 i))"
  using find_loop_rep [of zl "take i xs" "drop i xs" t 0 0 skip 0] assms
  by (simp add: ziplistFind_def venc_ok_def zoff_def drop_map min_def)

lemma count_loop_rep:
  assumes "zl_rep zl (as @ bs)"
  shows "count_loop zl (10 + lsize as) n = Some (n + length bs)"
  using assms
proof (induction bs arbitrary: as n)
  case Nil
  then show ?case using at_end [of zl as "10 + lsize as"] by (subst count_loop.simps) simp
next
  case (Cons x bs)
  have rep: "zl_rep zl (as @ (fst x, snd x) # bs)" using Cons.prems by simp
  have "count_loop zl (10 + lsize (as @ [x])) (n + 1) = Some (n + 1 + length bs)"
    using Cons.prems by (intro Cons.IH) simp
  then show ?case
    using at_entry(1,3) [OF rep refl] by (subst count_loop.simps) (cases x; auto simp: add.assoc)
qed

text \<open>\<open>ziplistLen\<close> returns the number of entries even when the header does not hold it, and stores it
  there when it fits again.\<close>

lemma ziplistLen_rep:
  assumes "zl_rep zl xs"
  shows "\<exists>zl'. ziplistLen zl = Some (zl', length xs) \<and> zl_rep zl' xs"
proof -
  obtain n where zl: "zl = zhdr (11 + lsize xs) (tail_of xs) n @ layout 0 xs @ [ZIP_END]"
    and n: "n = length xs \<or> n = 65535" "n \<le> 65535" and ok: "entries_ok 0 xs" "11 + lsize xs < 2 ^ 32"
    using assms by (rule zl_repE)
  have rn: "ZIPLIST_LENGTH zl = Some n" using n(2) by (simp add: zl)
  show ?thesis
  proof (cases "n < 65535")
    case True
    then show ?thesis using n rn assms by (auto simp: ziplistLen_def)
  next
    case False
    have c: "count_loop zl ZIPLIST_HEADER_SIZE 0 = Some (length xs)"
      using count_loop_rep [of zl "[]" xs 0] assms by (simp add: ZIPLIST_HEADER_SIZE_def)
    show ?thesis
    proof (cases "length xs < 65535")
      case True
      then have "wr16 zl 8 (int (length xs)) = Some (zhdr (11 + lsize xs) (tail_of xs) (length xs) @ layout 0 xs @ [ZIP_END])"
        by (simp add: zl nat_mod_small)
      then show ?thesis
        using rn False True c zl_repI [OF ok, of "length xs"] by (auto simp: ziplistLen_def)
    next
      case big: False
      then show ?thesis using rn False c assms by (auto simp: ziplistLen_def)
    qed
  qed
qed

section \<open>Updates by position\<close>

text \<open>A bound on the size of the block: a string of \<open>k\<close> bytes needs at most \<open>k + 14\<close> bytes, and a
  cascade adds at most four to every entry.\<close>

abbreviation zcost :: "bytes list \<Rightarrow> nat" where
  "zcost \<equiv> seq_cost (\<lambda>s. length s + 18)"

lemma zcost_bound: "lsize xs + 4 * length xs \<le> zcost (map snd xs)"
proof (induction xs rule: lsize.induct)
  case (2 big s xs)
  then show ?case using length_body_le(2) [of s] by (simp add: esz_def psz_def)
qed simp

lemma esz_bound: "esz big s \<le> length s + 14"
  using length_body_le(2) [of s] by (simp add: esz_def psz_def)

lemma insert_list:
  assumes "zl_rep zl xs" "i \<le> length xs" "11 + zcost (map snd xs) + length s + 18 < 2 ^ 32"
  shows "\<exists>zl' xs'. ziplistInsert zl (zoff xs i) s = Some zl' \<and> zl_rep zl' xs' \<and>
    map snd xs' = take i (map snd xs) @ s # drop i (map snd xs)"
proof -
  define as bs where "as = take i xs" and "bs = drop i xs"
  have xs: "xs = as @ bs" by (simp add: as_def bs_def)
  have p: "zoff xs i = 10 + lsize as" by (simp add: zoff_def as_def)
  have sn: "take i (map snd xs) = map snd as" "drop i (map snd xs) = map snd bs"
    by (simp_all add: as_def bs_def take_map drop_map)
  have bd: "11 + lsize xs + 4 * length xs + esz nb s + 4 < 2 ^ 32" for nb
    using zcost_bound [of xs] esz_bound [of nb s] assms(3) by linarith
  show ?thesis
  proof (cases bs)
    case Nil
    have "11 + lsize as + esz (\<not> last_sz 0 as < 254) s < 2 ^ 32" using bd [of "\<not> last_sz 0 as < 254"] Nil xs by simp
    then obtain zl' where "ziplistInsertAt zl (zoff xs i) s = Some zl'" "zl_rep zl' (as @ [(\<not> last_sz 0 as < 254, s)])"
      using insert_end [of zl as "zoff xs i" s] assms(1) p Nil xs by auto
    then show ?thesis
      using Nil by (intro exI [of _ zl'] exI [of _ "as @ [(\<not> last_sz 0 as < 254, s)]"]) (simp add: ziplistInsert_def sn)
  next
    case (Cons y ys)
    obtain w s1 where y: "y = (w, s1)" by force
    have "11 + lsize (as @ (w, s1) # ys) + esz (\<not> last_sz 0 as < 254) s + 4 * Suc (length ys) < 2 ^ 32"
      using bd [of "\<not> last_sz 0 as < 254"] Cons xs y by simp
    then obtain zl' bs' where *: "ziplistInsertAt zl (zoff xs i) s = Some zl'" "zl_rep zl' (as @ (\<not> last_sz 0 as < 254, s) # bs')"
      "map snd bs' = s1 # map snd ys"
      using insert_mid [of zl as w s1 ys "zoff xs i" s] assms(1) p Cons xs y by auto
    then show ?thesis
      using Cons y by (intro exI [of _ zl'] exI [of _ "as @ (\<not> last_sz 0 as < 254, s) # bs'"])
        (simp add: ziplistInsert_def sn)
  qed
qed

lemma delete_list:
  assumes "zl_rep zl xs" "i < length xs" "11 + zcost (map snd xs) < 2 ^ 32"
  shows "\<exists>zl' xs'. ziplistDeleteAt zl (zoff xs i) num = Some zl' \<and> zl_rep zl' xs' \<and>
    map snd xs' = take i (map snd xs) @ drop (i + num) (map snd xs)"
proof -
  define as del bs where "as = take i xs" and "del = take num (drop i xs)" and "bs = drop (i + num) xs"
  have xs: "xs = as @ del @ bs"
    unfolding as_def del_def bs_def by (metis add.commute append_take_drop_id drop_drop)
  have p: "zoff xs i = 10 + lsize as" by (simp add: zoff_def as_def)
  have sn: "take i (map snd xs) = map snd as" "drop (i + num) (map snd xs) = map snd bs"
    by (simp_all add: as_def bs_def take_map drop_map)
  consider "num = 0" | (to_end) "num \<noteq> 0" "bs = []" | (mid) "num \<noteq> 0" "bs \<noteq> []" by blast
  then show ?thesis
  proof cases
    case 1
    obtain as w s bs where xs': "xs = as @ (w, s) # bs" "i = length as" using assms(2) by (rule nth_split)
    then show ?thesis
      using at_entry(1,2) [of zl as w s bs "zoff xs i"] assms(1) 1
      by (intro exI [of _ zl] exI [of _ xs]) (auto simp: ziplistDeleteAt_def zoff_def)
  next
    case to_end
    have "del \<noteq> []" "length del \<le> num" using to_end(1) assms(2) by (simp_all add: del_def)
    then obtain zl' where "ziplistDeleteAt zl (zoff xs i) num = Some zl'" "zl_rep zl' as"
      using delete_to_end [of zl as del "zoff xs i" num] assms(1) xs p to_end(2) by auto
    then show ?thesis using to_end(2) by (intro exI [of _ zl'] exI [of _ as]) (simp add: sn)
  next
    case mid
    obtain y ys where y: "bs = y # ys" using mid(2) by (cases bs) auto
    obtain w s1 where w: "y = (w, s1)" by force
    have d: "del \<noteq> []" "length del = num" using mid assms(2) by (auto simp: del_def bs_def)
    have "11 + lsize xs + 4 * length bs < 2 ^ 32" using zcost_bound [of xs] assms(3) xs by simp
    then obtain zl' bs' where "ziplistDeleteAt zl (zoff xs i) num = Some zl'" "zl_rep zl' (as @ bs')" "map snd bs' = s1 # map snd ys"
      using delete_mid [of zl as del w s1 ys "zoff xs i"] assms(1) d p xs y w by auto
    then show ?thesis
      using y w by (intro exI [of _ zl'] exI [of _ "as @ bs'"]) (simp add: sn)
  qed
qed

section \<open>The sequence interface\<close>

text \<open>How the users of a ziplist combine its operations: find a position, then act on it.\<close>

fun zl_run :: "bytes \<Rightarrow> bytes seq_op \<Rightarrow> (bytes \<times> bytes seq_reply) option" where
  "zl_run zl (QPush s head) = do { zl \<leftarrow> ziplistPush zl s head; Some (zl, QDone) }"
| "zl_run zl (QInsert i s) = do {
     p \<leftarrow> ziplistIndex zl i;
     zl \<leftarrow> (case p of None \<Rightarrow> Some zl | Some p \<Rightarrow> ziplistInsert zl p s);
     Some (zl, QDone) }"
| "zl_run zl (QDelete i n) = do { zl \<leftarrow> ziplistDeleteRange zl i n; Some (zl, QDone) }"
| "zl_run zl (QNth i) = do {
     p \<leftarrow> ziplistIndex zl i;
     v \<leftarrow> (case p of None \<Rightarrow> Some None | Some p \<Rightarrow> ziplistGet zl p);
     Some (zl, QElem (map_option zval_str v)) }"
| "zl_run zl (QMem s) = do {
     p \<leftarrow> ziplistIndex zl 0;
     q \<leftarrow> (case p of None \<Rightarrow> Some None | Some p \<Rightarrow> ziplistFind zl p s 0);
     Some (zl, QBool (q \<noteq> None)) }"
| "zl_run zl QLen = do { (zl, n) \<leftarrow> ziplistLen zl; Some (zl, QCount n) }"

lemma index_any:
  assumes "zl_rep zl xs"
  shows "ziplistIndex zl i = Some (map_option (zoff xs) (seq_index (map snd xs) i))"
proof (cases "0 \<le> i")
  case True
  then show ?thesis using ziplistIndex_rep(1) [OF assms, of "nat i"] by (simp add: seq_index_def)
next
  case False
  then obtain j where "i = - int (Suc j)" by (metis int_cases not_less of_nat_0_le_iff zero_le_imp_eq_int)
  then show ?thesis using ziplistIndex_rep(2) [OF assms, of j] by (simp add: seq_index_def Suc_le_eq nat_add_distrib)
qed

lemma seq_index_less: "seq_index xs i = Some j \<Longrightarrow> j < length xs"
  by (auto simp: seq_index_def split: if_splits)

lemma push_list:
  assumes "zl_rep zl xs" "11 + zcost (map snd xs) + length s + 18 < 2 ^ 32"
  shows "\<exists>zl' xs'. ziplistPush zl s head = Some zl' \<and> zl_rep zl' xs' \<and>
    map snd xs' = (if head then s # map snd xs else map snd xs @ [s])"
proof -
  let ?i = "if head then 0 else length xs"
  have "ziplistPush zl s head = ziplistInsert zl (zoff xs ?i) s"
    using rep_reads(1) [OF assms(1)]
    by (simp add: ziplistPush_def ziplistInsert_def ZIPLIST_HEADER_SIZE_def zoff_def)
  then show ?thesis using insert_list [OF assms(1) _ assms(2), of ?i] by auto
qed

lemma zl_listI: "zl_rep zl xs \<Longrightarrow> map snd xs = ss \<Longrightarrow> zl_list zl ss"
  by (auto simp: zl_list_def)

lemma push_first:
  assumes "length s < 2 ^ 31"
  shows "\<exists>zl xs. ziplistPush ziplistNew s True = Some zl \<and> zl_rep zl xs \<and> map snd xs = [s]"
  using push_list [OF new_rep, of s True] assms by simp

lemma zfind_mem: "zfind ss t 0 0 i \<noteq> None \<longleftrightarrow> t \<in> set ss"
  by (induction ss arbitrary: i) auto

lemma map_snd_nth: "j < length xs \<Longrightarrow> map snd xs ! j = snd (xs ! j)"
  by simp

lemma zl_run_refines:
  assumes "zl_list zl ss" "zcost ss + seq_op_cost (\<lambda>s. length s + 18) x < 2 ^ 32 - 11"
  shows "\<exists>zl'. zl_run zl x = Some (zl', snd (spec_seq_op ss x)) \<and> zl_list zl' (fst (spec_seq_op ss x))"
proof -
  obtain xs where rep: "zl_rep zl xs" and ss: "ss = map snd xs" using assms(1) by (auto simp: zl_list_def)
  note idx = index_any [OF rep]
  show ?thesis
  proof (cases x)
    case (QPush s head)
    have "11 + zcost (map snd xs) + length s + 18 < 2 ^ 32" using assms(2) QPush by (simp add: ss)
    from push_list [OF rep this, of head] obtain zl' xs' where "ziplistPush zl s head = Some zl'" "zl_rep zl' xs'"
      "map snd xs' = (if head then s # ss else ss @ [s])" unfolding ss by blast
    then show ?thesis using QPush by (auto simp: zl_list_def simp del: map_eq_conv intro!: exI [of _ xs'])
  next
    case (QInsert i s)
    have "\<exists>zl' xs'. ziplistInsert zl (zoff xs j) s = Some zl' \<and> zl_rep zl' xs' \<and>
        map snd xs' = take j ss @ s # drop j ss" if "seq_index ss i = Some j" for j
      using insert_list [OF rep, of j s] seq_index_less [OF that] assms(2) QInsert by (simp add: ss)
    then show ?thesis
      using QInsert idx [of i] rep by (cases "seq_index ss i") (fastforce simp: zl_list_def ss)+
  next
    case (QDelete i n)
    have "\<exists>zl' xs'. ziplistDeleteAt zl (zoff xs j) n = Some zl' \<and> zl_rep zl' xs' \<and>
        map snd xs' = take j ss @ drop (j + n) ss" if "seq_index ss i = Some j" for j
      using delete_list [OF rep, of j n] seq_index_less [OF that] assms(2) QDelete by (simp add: ss)
    then show ?thesis
      using QDelete idx [of i] rep by (cases "seq_index ss i") (fastforce simp: zl_list_def ss ziplistDeleteRange_def)+
  next
    case (QNth i)
    show ?thesis
    proof (cases "seq_index ss i")
      case None
      then show ?thesis using QNth idx [of i] assms(1) by (simp add: ss)
    next
      case (Some j)
      have "j < length xs" using seq_index_less [OF Some] by (simp add: ss)
      then show ?thesis using QNth Some idx [of i] ziplistGet_rep(1) [OF rep, of j] assms(1) by (simp add: ss)
    qed
  next
    case (QMem s)
    have f: "ziplistFind zl (zoff xs 0) s 0 = Some (map_option (zoff xs) (zfind ss s 0 0 0))"
      using ziplistFind_rep [OF rep, of 0] by (simp add: ss)
    show ?thesis
      using QMem idx [of 0] f zfind_mem [of ss s 0] assms(1) by (cases "ss = []") (auto simp: ss seq_index_def)
  next
    case QLen
    then show ?thesis using ziplistLen_rep [OF rep] by (auto simp: zl_list_def ss)
  qed
qed

interpretation zl_seq: seq_store zl_list "\<lambda>s. length s + 18" "2 ^ 32 - 11" zl_run
  by unfold_locales (rule zl_run_refines)

lemma new_list: "zl_list ziplistNew []"
  using new_rep by (auto simp: zl_list_def)

section \<open>Merging with an empty list\<close>

lemma merge_empty:
  assumes "zl_rep first xs" "xs \<noteq> []"
  shows "\<exists>n f. ziplistMerge first ziplistNew = Some (zhdr (11 + lsize xs) (10 + lsize xs) n @ layout 0 xs @ [ZIP_END], f)"
proof -
  obtain n1 where f: "first = zhdr (11 + lsize xs) (tail_of xs) n1 @ layout 0 xs @ [ZIP_END]"
    and n1: "n1 = length xs \<or> n1 = 65535" "n1 \<le> 65535" and ok: "entries_ok 0 xs" and b1: "11 + lsize xs < 2 ^ 32" "tail_of xs < 2 ^ 32"
    using assms(1) by (rule zl_repE)
  have s: "ziplistNew = zhdr 11 10 0 @ [] @ [ZIP_END]"
    by (simp add: ziplistNew_def zhdr_def ZIPLIST_HEADER_SIZE_def)
  have rd: "ZIPLIST_BYTES first = Some (11 + lsize xs)" "ZIPLIST_LENGTH first = Some n1" "ZIPLIST_TAIL_OFFSET first = Some (tail_of xs)"
    "ZIPLIST_BYTES ziplistNew = Some 11" "ZIPLIST_LENGTH ziplistNew = Some 0" "ZIPLIST_TAIL_OFFSET ziplistNew = Some 10"
    using b1 n1(2) by (simp_all add: f s)
  define n where "n = (if n1 + 0 < 65535 then n1 + 0 else 65535)"
  have nn: "nat (int (11 + lsize xs) mod 2 ^ 32) = 11 + lsize xs" "nat (int n mod 2 ^ 16) = n"
    "nat (((int (11 + lsize xs) - int 1) + (int 10 - int 10)) mod 2 ^ 32) = 10 + lsize xs"
    using b1(1) by (simp_all add: n_def)
  have bytes: "11 + lsize xs + 11 - 10 - 1 = 11 + lsize xs" by simp
  have ap: "do { src \<leftarrow> mem_read ziplistNew 10 (11 - 10); mem_write (zrealloc first (11 + lsize xs)) (11 + lsize xs - 1) src } =
      Some (zhdr (11 + lsize xs) (tail_of xs) n1 @ layout 0 xs @ [ZIP_END])"
    using merge_append [OF f s] by simp
  obtain as w s1 where xs: "xs = as @ [(w, s1)]" using assms(2) by (metis append_butlast_last_id surj_pair)
  have ok': "prev_ok w (last_sz 0 as)" "length (body s1) < 2 ^ 32" using ok by (simp_all add: xs entries_ok_append)
  have "ziplistCascadeUpdate (zhdr (11 + lsize xs) (10 + lsize xs) n @ layout 0 xs @ [ZIP_END]) (tail_of xs) =
      Some (zhdr (11 + lsize xs) (10 + lsize xs) n @ layout 0 xs @ [ZIP_END])"
  proof -
    have fuel: "length ([] :: zentries) < length (zhdr (11 + lsize xs) (10 + lsize xs) n @ layout 0 xs @ [ZIP_END])" by simp
    show ?thesis
      using cascade_loop_layout [of 0 "[]" w "last_sz 0 as" s1, OF _ ok' fuel, of "11 + lsize xs" "layout 0 as" "10 + lsize xs" n] b1(1)
      by (auto simp: ziplistCascadeUpdate_def xs tail_of_def layout_append add.assoc)
  qed
  then have "ziplistMerge first ziplistNew = Some (zhdr (11 + lsize xs) (10 + lsize xs) n @ layout 0 xs @ [ZIP_END], True)"
    unfolding ziplistMerge_def Let_def
    by (simp only: rd Option.bind.bind_lunit if_True le0 simp_thms prod.case ZIPLIST_HEADER_SIZE_def ZIPLIST_END_SIZE_def bytes ap
        wr_zhdr n_def [symmetric] nn)
  then show ?thesis by blast
qed

lemma index_misplaced_tail:
  assumes "entries_ok 0 xs" "11 + lsize xs < 2 ^ 32" "xs \<noteq> []" "zl = zhdr (11 + lsize xs) (10 + lsize xs) n @ layout 0 xs @ [ZIP_END]"
  shows "ziplistIndex zl (- 1) = Some None" "\<exists>b. mem_get zl 10 = Some b \<and> b \<noteq> ZIP_END"
proof -
  have "mem_get zl (10 + lsize xs) = Some ZIP_END"
    using mem_get_at [of "10 + lsize xs" "zhdr (11 + lsize xs) (10 + lsize xs) n @ layout 0 xs" ZIP_END "[]"] by (simp add: assms(4))
  then show "ziplistIndex zl (- 1) = Some None" using assms(2,4) by (simp add: ziplistIndex_def)
  show "\<exists>b. mem_get zl 10 = Some b \<and> b \<noteq> ZIP_END"
    using layout_first_byte [OF assms(1,3), of 10 "zhdr (11 + lsize xs) (10 + lsize xs) n"] by (simp add: assms(4))
qed

section \<open>Properties\<close>

text \<open>
  C1: Any sequence of pushes at either end, insertions, range deletions, lookups by index, searches and
  length queries on a new ziplist runs without a fault, answers exactly like the same operations on a list
  of strings, and leaves a block whose bytes are the layout of that list (header fields included), as long as
  the inserted strings need fewer than 2 to the 32 bytes in total.
\<close>
theorem ziplist_trace_refines:
  assumes "(\<Sum>x\<leftarrow>ops. seq_op_cost (\<lambda>s. length s + 18) x) < 2 ^ 32 - 11"
  shows "\<exists>zl'. run_ops zl_run ziplistNew ops = Some (zl', snd (spec_seq_ops [] ops)) \<and> zl_list zl' (fst (spec_seq_ops [] ops))"
  using zl_seq.trace_refines [OF new_list] assms by simp

theorem ziplist_trace_refines_witness:
  "\<exists>zl'. run_ops zl_run ziplistNew [QPush (ascii ''ab'') True, QPush (ascii ''12'') False, QInsert 1 (ascii ''x''), QNth (- 1), QDelete 0 1, QLen] =
     Some (zl', [QDone, QDone, QDone, QElem (Some (ascii ''12'')), QDone, QCount (Suc (Suc 0))]) \<and> zl_list zl' [ascii ''x'', ascii ''12'']"
  using ziplist_trace_refines [of "[QPush (ascii ''ab'') True, QPush (ascii ''12'') False, QInsert 1 (ascii ''x''), QNth (- 1), QDelete 0 1, QLen]"]
  by (simp add: seq_index_def ascii_def del: run_ops.simps)

text \<open>
  C36: In a ziplist that holds the strings \<open>ss\<close>, the index of an entry from the head and from the tail leads to
  the same place; stepping forwards and backwards visits the entries in order and stops at the ends; the entry
  read there is the string, as an integer exactly if it is the canonical form of one; and comparison with a string
  is equality.
\<close>
theorem ziplist_walk:
  assumes "zl_list zl ss"
  shows "\<exists>pos. (\<forall>i. ziplistIndex zl i = Some (map_option pos (seq_index ss i))) \<and>
    (\<forall>i < length ss. ziplistGet zl (pos i) = Some (Some (zval_of (ss ! i))) \<and> zval_str (zval_of (ss ! i)) = ss ! i \<and>
       (\<forall>t. ziplistCompare zl (pos i) t = Some (ss ! i = t)) \<and>
       ziplistNext zl (pos i) = Some (if Suc i < length ss then Some (pos (Suc i)) else None) \<and>
       ziplistPrev zl (pos i) = Some (if i = 0 then None else Some (pos (i - 1))))"
proof -
  obtain xs where rep: "zl_rep zl xs" and ss: "ss = map snd xs" using assms by (auto simp: zl_list_def)
  show ?thesis
    using index_any [OF rep] ziplistGet_rep(1) [OF rep] ziplistCompare_rep [OF rep] ziplistNext_rep [OF rep] ziplistPrev_rep [OF rep]
    by (intro exI [of _ "zoff xs"]) (simp add: ss)
qed

theorem ziplist_walk_witness:
  "\<exists>zl pos. ziplistPush ziplistNew (ascii ''7'') True = Some zl \<and> ziplistIndex zl (- 1) = Some (Some (pos 0)) \<and>
     ziplistGet zl (pos 0) = Some (Some (zval_of (ascii ''7''))) \<and> ziplistNext zl (pos 0) = Some None"
proof -
  obtain zl' xs' where p: "ziplistPush ziplistNew (ascii ''7'') True = Some zl'" "zl_rep zl' xs'" "map snd xs' = [ascii ''7'']"
    using push_first [of "ascii ''7''"] by (auto simp: ascii_def simp del: map_eq_Cons_conv)
  have "zl_list zl' [ascii ''7'']" by (rule zl_listI [OF p(2,3)])
  from ziplist_walk [OF this] p(1) show ?thesis by (fastforce simp: seq_index_def)
qed

text \<open>
  C37: \<open>ziplistFind\<close>, started at an entry, returns the position of the first entry equal to the string among
  those it looks at (each time skipping \<open>skip\<close> entries), as the plain search over the strings does: the
  cached integer encoding of the searched string and the comparisons of encoded forms make no difference.
\<close>
theorem ziplistFind_search:
  assumes "zl_list zl ss" "ziplistIndex zl (int i) = Some (Some p)"
  shows "Some (ziplistFind zl p t skip) =
    (case zfind (drop i ss) t skip 0 i of None \<Rightarrow> Some (Some None) | Some j \<Rightarrow> Some (ziplistIndex zl (int j)))"
proof -
  obtain xs where rep: "zl_rep zl xs" and ss: "ss = map snd xs" using assms by (auto simp: zl_list_def)
  have i: "i < length xs" "p = zoff xs i" using assms(2) ziplistIndex_rep(1) [OF rep, of i] by (auto split: if_splits)
  have "zfind (drop i ss) t skip 0 i = Some j \<Longrightarrow> j < length ss" for j
  proof -
    have "zfind us t skip k m = Some j \<Longrightarrow> j < m + length us" for us k m
      by (induction us arbitrary: k m) (auto split: if_splits, fastforce+)
    from this [of "drop i ss" 0 i] show "zfind (drop i ss) t skip 0 i = Some j \<Longrightarrow> j < length ss" using i(1) by (simp add: ss)
  qed
  then show ?thesis
    using ziplistFind_rep [OF rep, of i t skip] ziplistIndex_rep(1) [OF rep] i by (auto simp: ss split: option.split)
qed

theorem ziplistFind_search_witness:
  "\<exists>zl p. ziplistPush ziplistNew (ascii ''7'') True = Some zl \<and> ziplistIndex zl 0 = Some (Some p) \<and>
     ziplistFind zl p (ascii ''7'') 1 = Some (Some p) \<and> ziplistFind zl p (ascii ''8'') 1 = Some None"
proof -
  obtain zl' xs' where p: "ziplistPush ziplistNew (ascii ''7'') True = Some zl'" "zl_rep zl' xs'" "map snd xs' = [ascii ''7'']"
    using push_first [of "ascii ''7''"] by (auto simp: ascii_def simp del: map_eq_Cons_conv)
  have l: "zl_list zl' [ascii ''7'']" by (rule zl_listI [OF p(2,3)])
  have i: "ziplistIndex zl' (int 0) = Some (Some (zoff xs' 0))" using index_any [OF p(2), of 0] p(3) by (simp add: seq_index_def)
  have "ziplistFind zl' (zoff xs' 0) (ascii ''7'') 1 = Some (Some (zoff xs' 0))"
    "ziplistFind zl' (zoff xs' 0) (ascii ''8'') 1 = Some None"
    using ziplistFind_search [OF l i, of "ascii ''7''" 1] ziplistFind_search [OF l i, of "ascii ''8''" 1] i by (simp_all add: ascii_def)
  with i p(1) show ?thesis by auto
qed

text \<open>
  C38: Merging two ziplists, the second of which is not empty, gives the concatenation of their contents,
  whichever of the two blocks is reused.
\<close>
theorem ziplistMerge_concat:
  assumes "zl_list first xs" "zl_list second ys" "ys \<noteq> []" "11 + zcost xs + zcost ys < 2 ^ 32"
  shows "\<exists>zl' f. ziplistMerge first second = Some (zl', f) \<and> zl_list zl' (xs @ ys)"
proof -
  obtain xs' ys' where rep: "zl_rep first xs'" "zl_rep second ys'" and eq: "xs = map snd xs'" "ys = map snd ys'"
    using assms(1,2) by (auto simp: zl_list_def)
  have "11 + lsize xs' + lsize ys' + 4 * length ys' < 2 ^ 32"
    using zcost_bound [of xs'] zcost_bound [of ys'] assms(4) eq by simp
  with merge_rep [OF rep] assms(3) eq obtain zl' f zs where m: "ziplistMerge first second = Some (zl', f)" "zl_rep zl' zs"
    "map snd zs = map snd (xs' @ ys')" by auto
  have "zl_list zl' (xs @ ys)" using zl_listI [OF m(2,3)] by (simp add: eq)
  with m(1) show ?thesis by blast
qed

theorem ziplistMerge_concat_witness:
  "\<exists>a b zl' f. ziplistPush ziplistNew (ascii ''x'') True = Some a \<and> ziplistPush ziplistNew (ascii ''12'') True = Some b \<and>
     ziplistMerge a b = Some (zl', f) \<and> zl_list zl' [ascii ''x'', ascii ''12'']"
proof -
  obtain a xs where a: "ziplistPush ziplistNew (ascii ''x'') True = Some a" "zl_rep a xs" "map snd xs = [ascii ''x'']"
    using push_first [of "ascii ''x''"] by (auto simp: ascii_def simp del: map_eq_Cons_conv)
  obtain b ys where b: "ziplistPush ziplistNew (ascii ''12'') True = Some b" "zl_rep b ys" "map snd ys = [ascii ''12'']"
    using push_first [of "ascii ''12''"] by (auto simp: ascii_def simp del: map_eq_Cons_conv)
  show ?thesis
    using ziplistMerge_concat [OF zl_listI [OF a(2,3)] zl_listI [OF b(2,3)]] a(1) b(1) by (auto simp: ascii_def)
qed

text \<open>
  C39: Merging an empty ziplist behind a non-empty one leaves the tail offset at the end marker instead of
  the last entry: the result has entries, but indexing from the tail finds none.
\<close>
theorem ziplistMerge_empty_second:
  assumes "zl_list first ss" "ss \<noteq> []"
  shows "\<exists>zl' f b. ziplistMerge first ziplistNew = Some (zl', f) \<and> ziplistIndex zl' (- 1) = Some None \<and>
    mem_get zl' ZIPLIST_HEADER_SIZE = Some b \<and> b \<noteq> ZIP_END"
proof -
  obtain xs where rep: "zl_rep first xs" and ss: "ss = map snd xs" using assms(1) by (auto simp: zl_list_def)
  have ne: "xs \<noteq> []" using assms(2) ss by simp
  obtain n f where m: "ziplistMerge first ziplistNew = Some (zhdr (11 + lsize xs) (10 + lsize xs) n @ layout 0 xs @ [ZIP_END], f)"
    using merge_empty [OF rep ne] by blast
  have "entries_ok 0 xs" "11 + lsize xs < 2 ^ 32" using rep by (simp_all add: zl_rep_def)
  from index_misplaced_tail [OF this ne refl, of n] m show ?thesis by (auto simp: ZIPLIST_HEADER_SIZE_def)
qed

theorem ziplistMerge_empty_second_witness:
  "\<exists>a zl' f. ziplistPush ziplistNew (ascii ''x'') True = Some a \<and> ziplistMerge a ziplistNew = Some (zl', f) \<and>
     ziplistIndex zl' (- 1) = Some None"
proof -
  obtain a xs where a: "ziplistPush ziplistNew (ascii ''x'') True = Some a" "zl_rep a xs" "map snd xs = [ascii ''x'']"
    using push_first [of "ascii ''x''"] by (auto simp: ascii_def simp del: map_eq_Cons_conv)
  show ?thesis using ziplistMerge_empty_second [OF zl_listI [OF a(2,3)]] a(1) by auto
qed

text \<open>
  C40: A string is stored as an integer exactly if it is the canonical decimal form of a 64-bit integer; saving
  the integer in the chosen encoding and loading it gives it back, for each of the six encodings, and the
  length field of a string of any length below 2 to the 32 decodes to that length.
\<close>
theorem zip_encoding_roundtrip:
  "(zipTryEncoding s = Some (v, enc) \<longrightarrow>
     int64_range v \<and> s = idec v \<and>
     (\<forall>pre old rest. length old = zipIntSize enc \<longrightarrow>
        (\<exists>zl. zipSaveInteger (pre @ old @ rest) (length pre) v enc = Some zl \<and> zipLoadInteger zl (length pre) enc = Some v))) \<and>
   (zipTryEncoding s = None \<longrightarrow> (\<forall>v. int64_range v \<longrightarrow> s \<noteq> idec v)) \<and>
   (n < 2 ^ 32 \<longrightarrow> (\<exists>enc. ZIP_DECODE_LENGTH (encode_length_buf 0 n) 0 = Some (enc, length (encode_length_buf 0 n), n) \<and> ZIP_IS_STR enc))"
proof (intro conjI impI allI)
  assume s: "zipTryEncoding s = Some (v, enc)"
  show "int64_range v" "s = idec v" using zipTryEncoding_Some(1,2) [OF s] .
  show "\<exists>zl. zipSaveInteger (pre @ old @ rest) (length pre) v enc = Some zl \<and> zipLoadInteger zl (length pre) enc = Some v"
    if "length old = zipIntSize enc" for pre old rest
    using save_integer [OF zipTryEncoding_Some(3) [OF s] refl that] load_integer [OF zipTryEncoding_Some(3) [OF s] refl] by simp
next
  show "s \<noteq> idec v" if "zipTryEncoding s = None" "int64_range v" for v
    using zipTryEncoding_None [OF that] .
next
  assume "n < 2 ^ 32"
  from decode_strlen [OF this, of 0 "[]" "[]"]
  show "\<exists>enc. ZIP_DECODE_LENGTH (encode_length_buf 0 n) 0 = Some (enc, length (encode_length_buf 0 n), n) \<and> ZIP_IS_STR enc" by simp
qed

theorem zip_encoding_roundtrip_witness:
  "zipTryEncoding (ascii ''300'') = Some (300, ZIP_INT_16B) \<and>
   (\<exists>zl. zipSaveInteger ([] @ [0, 0] @ [9]) (length ([] :: bytes)) 300 ZIP_INT_16B = Some zl \<and> zipLoadInteger zl (length ([] :: bytes)) ZIP_INT_16B = Some 300)"
proof -
  have "string2ll (ascii ''300'') = Some 300"
    unfolding string2ll_iff by (simp add: ascii_def idec_def dec.simps int64_range_def)
  then have s: "zipTryEncoding (ascii ''300'') = Some (300, ZIP_INT_16B)"
    by (simp add: zipTryEncoding_def ascii_def)
  have l: "length [0, 0 :: byte] = zipIntSize ZIP_INT_16B" by (simp add: zipIntSize_def zip_consts)
  from zip_encoding_roundtrip [of "ascii ''300''" 300 ZIP_INT_16B 0] s l show ?thesis by blast
qed

end
