(* ===== verification/Sds.thy ===== *)
theory Sds
  imports Util Interfaces
begin

unbundle bit_operations_syntax

text \<open>
  The dynamic strings of \<^verbatim>\<open>sds.c\<close> and \<^verbatim>\<open>sds.h\<close>.  An sds pointer stands for its header and its
  buffer: the flags byte in front of the buffer, the two length fields that the header types 8 to 64
  have (kept modulo their width), and the allocated bytes behind the header.  The type-5 header keeps the length in the flags
  byte and no allocation size.  Every access to the buffer is checked (\<open>None\<close> is an access outside it or a failed assert);
  the allocator does not fail, as \<^verbatim>\<open>zmalloc\<close> aborts instead.
\<close>

section \<open>Headers\<close>

record sds =
  sds_flags :: byte
  hdr_len :: nat
  hdr_alloc :: nat
  sds_buf :: bytes

definition SDS_MAX_PREALLOC :: nat where "SDS_MAX_PREALLOC = 1024 * 1024"
definition SDS_TYPE_5 :: nat where "SDS_TYPE_5 = 0"
definition SDS_TYPE_8 :: nat where "SDS_TYPE_8 = 1"
definition SDS_TYPE_16 :: nat where "SDS_TYPE_16 = 2"
definition SDS_TYPE_32 :: nat where "SDS_TYPE_32 = 3"
definition SDS_TYPE_64 :: nat where "SDS_TYPE_64 = 4"

lemmas sds_types = SDS_TYPE_5_def SDS_TYPE_8_def SDS_TYPE_16_def SDS_TYPE_32_def SDS_TYPE_64_def

text \<open>\<open>flags & SDS_TYPE_MASK\<close>, and the range of the length fields of a header type.\<close>

definition sds_type :: "sds \<Rightarrow> nat" where
  "sds_type s = unat (sds_flags s AND 7)"

definition hdr_lim :: "nat \<Rightarrow> nat" where
  "hdr_lim t = (if t = SDS_TYPE_8 then 2 ^ 8 else if t = SDS_TYPE_16 then 2 ^ 16
     else if t = SDS_TYPE_32 then 2 ^ 32 else 2 ^ 64)"

definition sdslen :: "sds \<Rightarrow> nat" where
  "sdslen s =
     (if sds_type s = SDS_TYPE_5 then unat (drop_bit 3 (sds_flags s))
      else if sds_type s \<le> SDS_TYPE_64 then hdr_len s else 0)"

definition sdsavail :: "sds \<Rightarrow> nat" where
  "sdsavail s =
     (if sds_type s = SDS_TYPE_5 then 0
      else if sds_type s \<le> SDS_TYPE_64 then hdr_alloc s - hdr_len s else 0)"

definition sdssetlen :: "sds \<Rightarrow> nat \<Rightarrow> sds" where
  "sdssetlen s newlen =
     (if sds_type s = SDS_TYPE_5 then s\<lparr>sds_flags := word_of_nat SDS_TYPE_5 OR push_bit 3 (word_of_nat newlen)\<rparr>
      else if sds_type s \<le> SDS_TYPE_64 then s\<lparr>hdr_len := newlen mod hdr_lim (sds_type s)\<rparr> else s)"

definition sdsinclen :: "sds \<Rightarrow> nat \<Rightarrow> sds" where
  "sdsinclen s inc =
     (if sds_type s = SDS_TYPE_5 then
        s\<lparr>sds_flags := word_of_nat SDS_TYPE_5 OR push_bit 3 (drop_bit 3 (sds_flags s) + word_of_nat inc)\<rparr>
      else if sds_type s \<le> SDS_TYPE_64 then s\<lparr>hdr_len := (hdr_len s + inc) mod hdr_lim (sds_type s)\<rparr> else s)"

definition sdsalloc :: "sds \<Rightarrow> nat" where
  "sdsalloc s =
     (if sds_type s = SDS_TYPE_5 then unat (drop_bit 3 (sds_flags s))
      else if sds_type s \<le> SDS_TYPE_64 then hdr_alloc s else 0)"

definition sdssetalloc :: "sds \<Rightarrow> nat \<Rightarrow> sds" where
  "sdssetalloc s newlen =
     (if sds_type s = SDS_TYPE_5 then s
      else if sds_type s \<le> SDS_TYPE_64 then s\<lparr>hdr_alloc := newlen mod hdr_lim (sds_type s)\<rparr> else s)"

definition sdsHdrSize :: "nat \<Rightarrow> nat" where
  "sdsHdrSize t = (if t = SDS_TYPE_5 then 1 else if t = SDS_TYPE_8 then 3 else if t = SDS_TYPE_16 then 5
     else if t = SDS_TYPE_32 then 9 else if t = SDS_TYPE_64 then 17 else 0)"

definition sdsReqType :: "nat \<Rightarrow> nat" where
  "sdsReqType string_size =
     (if string_size < 2 ^ 5 then SDS_TYPE_5
      else if string_size < 2 ^ 8 then SDS_TYPE_8
      else if string_size < 2 ^ 16 then SDS_TYPE_16
      else if string_size < 2 ^ 32 then SDS_TYPE_32
      else SDS_TYPE_64)"

text \<open>Writes into the buffer.\<close>

definition buf_write :: "sds \<Rightarrow> nat \<Rightarrow> bytes \<Rightarrow> sds option" where
  "buf_write s off xs = map_option (\<lambda>b. s\<lparr>sds_buf := b\<rparr>) (mem_write (sds_buf s) off xs)"

definition buf_set :: "sds \<Rightarrow> nat \<Rightarrow> byte \<Rightarrow> sds option" where
  "buf_set s i c = map_option (\<lambda>b. s\<lparr>sds_buf := b\<rparr>) (mem_set (sds_buf s) i c)"

section \<open>Creation\<close>

text \<open>\<open>init\<close> is \<open>NULL\<close> or the memory it points to.\<close>

definition sdsnewlen :: "bytes option \<Rightarrow> nat \<Rightarrow> sds option" where
  "sdsnewlen init initlen = do {
     let t = sdsReqType initlen;
     let t = (if t = SDS_TYPE_5 \<and> initlen = 0 then SDS_TYPE_8 else t);
     let s = \<lparr>sds_flags = 0, hdr_len = 0, hdr_alloc = 0, sds_buf = replicate (initlen + 1) 0\<rparr>;
     let s = (if t = SDS_TYPE_5 then s\<lparr>sds_flags := word_of_nat t OR push_bit 3 (word_of_nat initlen)\<rparr>
              else s\<lparr>sds_flags := word_of_nat t, hdr_len := initlen mod hdr_lim t, hdr_alloc := initlen mod hdr_lim t\<rparr>);
     s \<leftarrow> (case init of
            Some p \<Rightarrow> if initlen \<noteq> 0 then do { xs \<leftarrow> mem_read p 0 initlen; buf_write s 0 xs } else Some s
          | None \<Rightarrow> Some s);
     buf_set s initlen 0
   }"

definition sdsempty :: "sds option" where
  "sdsempty = sdsnewlen (Some []) 0"

text \<open>C strings are passed without their terminator; \<open>strlen\<close> stops at an embedded NUL.\<close>

definition c_strlen :: "bytes \<Rightarrow> nat" where
  "c_strlen p = length (takeWhile (\<lambda>c. c \<noteq> 0) p)"

definition sdsnew :: "bytes option \<Rightarrow> sds option" where
  "sdsnew init = sdsnewlen init (case init of None \<Rightarrow> 0 | Some p \<Rightarrow> c_strlen p)"

definition sdsdup :: "sds \<Rightarrow> sds option" where
  "sdsdup s = sdsnewlen (Some (sds_buf s)) (sdslen s)"

definition sdsupdatelen :: "sds \<Rightarrow> sds" where
  "sdsupdatelen s = sdssetlen s (c_strlen (sds_buf s))"

definition sdsclear :: "sds \<Rightarrow> sds option" where
  "sdsclear s = buf_set (sdssetlen s 0) 0 0"

section \<open>Allocation\<close>

text \<open>A new block with another header: the string and its terminator are copied.\<close>

definition sds_rehead :: "sds \<Rightarrow> nat \<Rightarrow> nat \<Rightarrow> nat \<Rightarrow> sds option" where
  "sds_rehead s t n size' = do {
     xs \<leftarrow> mem_read (sds_buf s) 0 (n + 1);
     s \<leftarrow> buf_write (s\<lparr>sds_buf := replicate (size' + 1) 0\<rparr>) 0 xs;
     Some (sdssetlen (s\<lparr>sds_flags := word_of_nat t\<rparr>) n)
   }"

definition sdsMakeRoomFor :: "sds \<Rightarrow> nat \<Rightarrow> sds option" where
  "sdsMakeRoomFor s addlen =
     (if sdsavail s \<ge> addlen then Some s
      else do {
        let n = sdslen s;
        let newlen = (n + addlen) mod 2 ^ 64;
        let newlen = (if newlen < SDS_MAX_PREALLOC then newlen * 2 else newlen + SDS_MAX_PREALLOC) mod 2 ^ 64;
        let t = sdsReqType newlen;
        let t = (if t = SDS_TYPE_5 then SDS_TYPE_8 else t);
        s \<leftarrow> (if sds_type s = t then Some (s\<lparr>sds_buf := zrealloc (sds_buf s) (newlen + 1)\<rparr>)
              else sds_rehead s t n newlen);
        Some (sdssetalloc s newlen)
      })"

definition sdsRemoveFreeSpace :: "sds \<Rightarrow> sds option" where
  "sdsRemoveFreeSpace s = do {
     let n = sdslen s;
     let t = sdsReqType n;
     s \<leftarrow> (if sds_type s = t then Some (s\<lparr>sds_buf := zrealloc (sds_buf s) (n + 1)\<rparr>)
           else sds_rehead s t n n);
     Some (sdssetalloc s n)
   }"

definition sdsAllocSize :: "sds \<Rightarrow> nat" where
  "sdsAllocSize s = sdsHdrSize (sds_type s) + sdsalloc s + 1"

definition sdsIncrLen :: "sds \<Rightarrow> int \<Rightarrow> sds option" where
  "sdsIncrLen s incr = do {
     let n = sdslen s;
     if sds_type s = SDS_TYPE_5 then do {
       c_assert ((incr > 0 \<and> int n + incr < 32) \<or> (incr < 0 \<and> int n \<ge> - incr));
       buf_set (s\<lparr>sds_flags := word_of_nat SDS_TYPE_5 OR push_bit 3 (word_of_int (int n + incr))\<rparr>) (nat (int n + incr)) 0
     } else if sds_type s \<le> SDS_TYPE_64 then do {
       c_assert ((incr \<ge> 0 \<and> int (hdr_alloc s) - int n \<ge> incr) \<or> (incr < 0 \<and> int n \<ge> - incr));
       let n' = nat ((int n + incr) mod int (hdr_lim (sds_type s)));
       buf_set (s\<lparr>hdr_len := n'\<rparr>) n' 0
     } else buf_set s 0 0
   }"

section \<open>Contents\<close>

definition sdsgrowzero :: "sds \<Rightarrow> nat \<Rightarrow> sds option" where
  "sdsgrowzero s n = do {
     let curlen = sdslen s;
     if n \<le> curlen then Some s
     else do {
       s \<leftarrow> sdsMakeRoomFor s (n - curlen);
       s \<leftarrow> buf_write s curlen (replicate (n - curlen + 1) 0);
       Some (sdssetlen s n)
     }
   }"

text \<open>\<open>t\<close> is the memory the source pointer points to.\<close>

definition sdscatlen :: "sds \<Rightarrow> bytes \<Rightarrow> nat \<Rightarrow> sds option" where
  "sdscatlen s t n = do {
     let curlen = sdslen s;
     s \<leftarrow> sdsMakeRoomFor s n;
     xs \<leftarrow> mem_read t 0 n;
     s \<leftarrow> buf_write s curlen xs;
     buf_set (sdssetlen s (curlen + n)) (curlen + n) 0
   }"

definition sdscat :: "sds \<Rightarrow> bytes \<Rightarrow> sds option" where
  "sdscat s t = sdscatlen s t (c_strlen t)"

definition sdscatsds :: "sds \<Rightarrow> sds \<Rightarrow> sds option" where
  "sdscatsds s t = sdscatlen s (sds_buf t) (sdslen t)"

definition sdscpylen :: "sds \<Rightarrow> bytes \<Rightarrow> nat \<Rightarrow> sds option" where
  "sdscpylen s t n = do {
     s \<leftarrow> (if sdsalloc s < n then sdsMakeRoomFor s (n - sdslen s) else Some s);
     xs \<leftarrow> mem_read t 0 n;
     s \<leftarrow> buf_write s 0 xs;
     s \<leftarrow> buf_set s n 0;
     Some (sdssetlen s n)
   }"

definition sdscpy :: "sds \<Rightarrow> bytes \<Rightarrow> sds option" where
  "sdscpy s t = sdscpylen s t (c_strlen t)"

text \<open>\<open>sdstrim\<close>: \<open>strchr\<close> finds every character of the set, and the terminating NUL as well.\<close>

definition in_cset :: "bytes \<Rightarrow> byte \<Rightarrow> bool" where
  "in_cset cset c \<longleftrightarrow> c = 0 \<or> c \<in> set (takeWhile (\<lambda>c. c \<noteq> 0) cset)"

function trim_left :: "bytes \<Rightarrow> bytes \<Rightarrow> nat \<Rightarrow> nat \<Rightarrow> nat option" where
  "trim_left cset b n sp =
     (if sp < n then Option.bind (mem_get b sp) (\<lambda>c. if in_cset cset c then trim_left cset b n (sp + 1) else Some sp)
      else Some sp)"
  by pat_completeness auto
termination
  by (relation "measure (\<lambda>(cset, b, n, sp). n - sp)") auto

declare trim_left.simps [simp del]

text \<open>\<open>ep1\<close> is \<open>ep + 1\<close>, so that it does not leave the natural numbers for the empty string.\<close>

fun trim_right :: "bytes \<Rightarrow> bytes \<Rightarrow> nat \<Rightarrow> nat \<Rightarrow> nat option" where
  "trim_right cset b sp 0 = Some 0"
| "trim_right cset b sp (Suc ep) =
     (if ep > sp then do { c \<leftarrow> mem_get b ep; if in_cset cset c then trim_right cset b sp ep else Some (Suc ep) }
      else Some (Suc ep))"

definition sdstrim :: "sds \<Rightarrow> bytes \<Rightarrow> sds option" where
  "sdstrim s cset = do {
     let n = sdslen s;
     sp \<leftarrow> trim_left cset (sds_buf s) n 0;
     ep1 \<leftarrow> trim_right cset (sds_buf s) sp n;
     let n' = (if sp + 1 > ep1 then 0 else ep1 - sp);
     s \<leftarrow> (if sp \<noteq> 0 then map_option (\<lambda>b. s\<lparr>sds_buf := b\<rparr>) (mem_move (sds_buf s) 0 sp n') else Some s);
     s \<leftarrow> buf_set s n' 0;
     Some (sdssetlen s n')
   }"

text \<open>\<open>sdsrange\<close> computes with \<open>int\<close>s and the \<open>size_t\<close> length; a conversion to \<open>int\<close> keeps 32 bits.\<close>

definition to_int32 :: "int \<Rightarrow> int" where
  "to_int32 v = sint (word_of_int v :: 32 word)"

definition sdsrange :: "sds \<Rightarrow> int \<Rightarrow> int \<Rightarrow> sds option" where
  "sdsrange s start end' = do {
     let n = int (sdslen s);
     if n = 0 then Some s
     else do {
       let start = (if start < 0 then (let start = to_int32 (n + start) in if start < 0 then 0 else start) else start);
       let end' = (if end' < 0 then (let end' = to_int32 (n + end') in if end' < 0 then 0 else end') else end');
       let newlen = (if start > end' then 0 else end' - start + 1);
       let (start, newlen) =
         (if newlen \<noteq> 0 then
            (if start \<ge> to_int32 n then (start, 0)
             else if end' \<ge> to_int32 n then
               (let end' = to_int32 (n - 1) in (start, if start > end' then 0 else end' - start + 1))
             else (start, newlen))
          else (0, newlen));
       s \<leftarrow> (if start \<noteq> 0 \<and> newlen \<noteq> 0
             then map_option (\<lambda>b. s\<lparr>sds_buf := b\<rparr>) (mem_move (sds_buf s) 0 (nat start) (nat newlen)) else Some s);
       s \<leftarrow> buf_set s (nat newlen) 0;
       Some (sdssetlen s (nat newlen))
     }
   }"

text \<open>\<open>memcmp\<close> compares unsigned bytes.  The C library specifies only the sign of its result; the model takes the difference of the first
  bytes that differ, as common implementations do, and the properties use the sign only.\<close>

fun c_memcmp :: "bytes \<Rightarrow> bytes \<Rightarrow> int" where
  "c_memcmp (a # as) (b # bs) = (if a = b then c_memcmp as bs else uint a - uint b)"
| "c_memcmp _ _ = 0"

definition sdscmp :: "sds \<Rightarrow> sds \<Rightarrow> int option" where
  "sdscmp s1 s2 = do {
     let l1 = sdslen s1;
     let l2 = sdslen s2;
     let minlen = (if l1 < l2 then l1 else l2);
     b1 \<leftarrow> mem_read (sds_buf s1) 0 minlen;
     b2 \<leftarrow> mem_read (sds_buf s2) 0 minlen;
     let cmp = c_memcmp b1 b2;
     Some (if cmp = 0 then to_int32 (int l1 - int l2) else cmp)
   }"

section \<open>The invariant\<close>

text \<open>The string is terminated inside the buffer, the buffer holds the allocation the header speaks of, and the
  header type is wide enough for it.\<close>

definition sds_ok :: "sds \<Rightarrow> bool" where
  "sds_ok s \<longleftrightarrow> sds_type s \<le> 4 \<and> sdslen s \<le> sdsalloc s \<and> sdsalloc s < length (sds_buf s) \<and>
     sds_buf s ! sdslen s = 0 \<and> (sds_type s \<noteq> 0 \<longrightarrow> hdr_alloc s < hdr_lim (sds_type s))"

text \<open>The same without the terminator: what holds while a string is being built.\<close>

definition sds_fit :: "sds \<Rightarrow> bool" where
  "sds_fit s \<longleftrightarrow> sds_type s \<le> 4 \<and> sdslen s \<le> sdsalloc s \<and> sdsalloc s < length (sds_buf s) \<and>
     (sds_type s \<noteq> 0 \<longrightarrow> hdr_alloc s < hdr_lim (sds_type s))"

lemma sds_ok_fit: "sds_ok s \<longleftrightarrow> sds_fit s \<and> sds_buf s ! sdslen s = 0"
  by (auto simp: sds_ok_def sds_fit_def)

definition sds_str :: "sds \<Rightarrow> bytes" where
  "sds_str s = take (sdslen s) (sds_buf s)"

lemma length_sds_str: "sds_ok s \<Longrightarrow> length (sds_str s) = sdslen s"
  by (simp add: sds_ok_def sds_str_def)

lemma sds_flags_upd_simps [simp]:
  "sds_type (s\<lparr>hdr_len := n\<rparr>) = sds_type s" "sds_type (s\<lparr>hdr_alloc := n\<rparr>) = sds_type s" "sds_type (s\<lparr>sds_buf := b\<rparr>) = sds_type s"
  by (simp_all add: sds_type_def)

text \<open>The flags byte of a type-5 header, for each of the 32 lengths, and of the other types.\<close>

lemma type5_all: "list_all (\<lambda>n. (0 OR push_bit 3 (word_of_nat n) :: byte) AND 7 = 0 \<and>
    unat (drop_bit 3 (0 OR push_bit 3 (word_of_nat n) :: byte)) = n) [0..<32]"
  by (simp add: upt_conv_Cons)

lemma type5_flags:
  assumes "n < 32"
  shows "(0 OR push_bit 3 (word_of_nat n) :: byte) AND 7 = 0" "unat (drop_bit 3 (0 OR push_bit 3 (word_of_nat n) :: byte)) = n"
  using type5_all assms unfolding list_all_iff by simp_all

lemma type_flags: "t \<le> 4 \<Longrightarrow> unat (word_of_nat t AND 7 :: byte) = t"
proof -
  assume "t \<le> 4"
  then have "t \<in> {0, 1, 2, 3, 4}" by auto
  then show ?thesis by auto
qed

lemma hdr_lim_ge: "256 \<le> hdr_lim t"
  by (simp add: hdr_lim_def)

text \<open>Lengths that fit the header are stored exactly.\<close>

definition fits_type :: "sds \<Rightarrow> nat \<Rightarrow> bool" where
  "fits_type s n \<longleftrightarrow> sds_type s \<le> 4 \<and> (if sds_type s = 0 then n < 32 else n < hdr_lim (sds_type s))"

lemma setlen_fits:
  assumes "fits_type s n"
  shows "sdslen (sdssetlen s n) = n" "sds_type (sdssetlen s n) = sds_type s" "sds_buf (sdssetlen s n) = sds_buf s"
    "sds_type s \<noteq> 0 \<Longrightarrow> hdr_alloc (sdssetlen s n) = hdr_alloc s"
    "sdsalloc (sdssetlen s n) = (if sds_type s = 0 then n else hdr_alloc s)"
proof -
  have z: "(word_of_nat 0 :: byte) = 0" by simp
  show "sdslen (sdssetlen s n) = n" "sds_type (sdssetlen s n) = sds_type s" "sds_buf (sdssetlen s n) = sds_buf s"
    "sds_type s \<noteq> 0 \<Longrightarrow> hdr_alloc (sdssetlen s n) = hdr_alloc s"
    "sdsalloc (sdssetlen s n) = (if sds_type s = 0 then n else hdr_alloc s)"
    using assms type5_flags [of n]
    by (auto simp: fits_type_def sdssetlen_def sdslen_def sdsalloc_def sds_type_def sds_types z)
qed

lemma setalloc_fits:
  assumes "sds_type s \<le> 4" "sds_type s \<noteq> 0 \<Longrightarrow> n < hdr_lim (sds_type s)"
  shows "sdslen (sdssetalloc s n) = sdslen s" "sds_type (sdssetalloc s n) = sds_type s" "sds_buf (sdssetalloc s n) = sds_buf s"
    "sds_type s \<noteq> 0 \<Longrightarrow> hdr_alloc (sdssetalloc s n) = n"
    "sdsalloc (sdssetalloc s n) = (if sds_type s = 0 then sdslen s else n)"
  using assms by (auto simp: sdssetalloc_def sdslen_def sdsalloc_def sds_types)

lemma reqtype_fits: "n < 2 ^ 64 \<Longrightarrow> sdsReqType n \<le> 4 \<and> (if sdsReqType n = 0 then n < 32 else n < hdr_lim (sdsReqType n))"
  by (simp add: sdsReqType_def sds_types hdr_lim_def)

lemma sdsalloc_fits: "sds_fit s \<Longrightarrow> n \<le> sdsalloc s \<Longrightarrow> fits_type s n"
proof -
  assume ok: "sds_fit s" and n: "n \<le> sdsalloc s"
  have "unat (drop_bit 3 (sds_flags s)) < 32"
    unfolding unat_drop_bit_eq unfolding drop_bit_eq_div
    by (intro less_mult_imp_div_less) (use unat_byte_less [of "sds_flags s"] in simp)
  with ok n show ?thesis by (auto simp: fits_type_def sds_fit_def sdsalloc_def sds_types)
qed

text \<open>Overwriting part of the buffer and setting the new end and length: the shape of all in-place operations.\<close>

lemma finish_fit:
  assumes "sds_fit s" "n \<le> sdsalloc s" "length b = length (sds_buf s)"
  shows "\<exists>s'. buf_set (sdssetlen (s\<lparr>sds_buf := b\<rparr>) n) n 0 = Some s' \<and>
      map_option (\<lambda>s. sdssetlen s n) (buf_set (s\<lparr>sds_buf := b\<rparr>) n 0) = Some s' \<and> sds_ok s' \<and> sds_str s' = take n b \<and>
      sds_type s' = sds_type s \<and> sdsalloc s' = (if sds_type s = 0 then n else sdsalloc s)"
proof -
  have f: "fits_type (s\<lparr>sds_buf := b'\<rparr>) n" for b' using sdsalloc_fits [OF assms(1,2)] by (simp add: fits_type_def)
  have n: "n < length b" using assms by (simp add: sds_fit_def)
  let ?s = "sdssetlen (s\<lparr>sds_buf := b[n := 0]\<rparr>) n"
  have upd: "(sdssetlen (s\<lparr>sds_buf := b\<rparr>) n)\<lparr>sds_buf := b[n := 0]\<rparr> = ?s"
    by (simp add: sdssetlen_def)
  have "sds_ok ?s" "sds_str ?s = take n b" "sds_type ?s = sds_type s" "sdsalloc ?s = (if sds_type s = 0 then n else sdsalloc s)"
    using setlen_fits [OF f [of "b[n := 0]"]] assms n by (auto simp: sds_ok_def sds_fit_def sds_str_def sdsalloc_def sds_types)
  moreover have "buf_set (sdssetlen (s\<lparr>sds_buf := b\<rparr>) n) n 0 = Some ?s"
    using n setlen_fits(3) [OF f [of b]] upd by (simp add: buf_set_def mem_set_def)
  moreover have "map_option (\<lambda>s. sdssetlen s n) (buf_set (s\<lparr>sds_buf := b\<rparr>) n 0) = Some ?s"
    using n by (simp add: buf_set_def mem_set_def)
  ultimately show ?thesis by blast
qed

lemma finish_string:
  assumes "sds_ok s" "n \<le> sdsalloc s" "length b = length (sds_buf s)"
  shows "\<exists>s'. buf_set (sdssetlen (s\<lparr>sds_buf := b\<rparr>) n) n 0 = Some s' \<and>
      map_option (\<lambda>s. sdssetlen s n) (buf_set (s\<lparr>sds_buf := b\<rparr>) n 0) = Some s' \<and> sds_ok s' \<and> sds_str s' = take n b \<and>
      sds_type s' = sds_type s \<and> sdsalloc s' = (if sds_type s = 0 then n else sdsalloc s)"
  using finish_fit assms sds_ok_fit by blast

section \<open>Creation and allocation\<close>

lemma sdsnewlen_exact:
  assumes "n < 2 ^ 64" "case init of None \<Rightarrow> True | Some p \<Rightarrow> n \<le> length p"
  shows "\<exists>s. sdsnewlen init n = Some s \<and> sds_ok s \<and>
    sds_str s = (case init of None \<Rightarrow> replicate n 0 | Some p \<Rightarrow> take n p) \<and> sdsalloc s = n"
proof -
  define t where "t = (if sdsReqType n = 0 \<and> n = 0 then 1 else sdsReqType n)"
  define s0 where "s0 = (if t = 0 then \<lparr>sds_flags = word_of_nat t OR push_bit 3 (word_of_nat n), hdr_len = 0, hdr_alloc = 0, sds_buf = replicate (n + 1) 0\<rparr>
      else \<lparr>sds_flags = word_of_nat t, hdr_len = n mod hdr_lim t, hdr_alloc = n mod hdr_lim t, sds_buf = replicate (n + 1) 0\<rparr>)"
  have t: "t \<le> 4" "if t = 0 then n < 32 else n < hdr_lim t"
    using reqtype_fits [OF assms(1)] hdr_lim_ge [of 1] by (auto simp: t_def)
  have z: "(word_of_nat 0 :: byte) = 0" by simp
  have s0: "sds_ok s0" "sdslen s0 = n" "sdsalloc s0 = n" "sds_type s0 = t" "sds_buf s0 = replicate (n + 1) 0"
    using t type5_flags [of n] type_flags [OF t(1)]
    by (auto simp: s0_def sds_ok_def sdslen_def sdsalloc_def sds_type_def sds_types z nth_Cons')
  define b where "b = (case init of None \<Rightarrow> replicate (n + 1) 0 | Some p \<Rightarrow> take n p @ [0])"
  have lb: "length b = length (sds_buf s0)" using assms(2) s0(5) by (auto simp: b_def split: option.splits)
  have copy: "(case init of
            Some p \<Rightarrow> if n \<noteq> 0 then do { xs \<leftarrow> mem_read p 0 n; buf_write s0 0 xs } else Some s0
          | None \<Rightarrow> Some s0) = Some (s0\<lparr>sds_buf := b\<rparr>)"
    using assms(2) s0(5)
    by (cases init) (auto simp: b_def mem_read_def buf_write_def mem_write_def s0_def drop_Cons')
  have tt: "(if sdsReqType n = SDS_TYPE_5 \<and> n = 0 then SDS_TYPE_8 else sdsReqType n) = t"
    unfolding t_def sds_types by (rule refl)
  have s0': "(if t = SDS_TYPE_5 then \<lparr>sds_flags = 0, hdr_len = 0, hdr_alloc = 0, sds_buf = replicate (n + 1) 0\<rparr>
        \<lparr>sds_flags := word_of_nat t OR push_bit 3 (word_of_nat n)\<rparr>
      else \<lparr>sds_flags = 0, hdr_len = 0, hdr_alloc = 0, sds_buf = replicate (n + 1) 0\<rparr>
        \<lparr>sds_flags := word_of_nat t, hdr_len := n mod hdr_lim t, hdr_alloc := n mod hdr_lim t\<rparr>) = s0"
    by (simp add: s0_def sds_types)
  obtain s' where s': "buf_set (sdssetlen (s0\<lparr>sds_buf := b\<rparr>) n) n 0 = Some s'" "sds_ok s'" "sds_str s' = take n b"
    "sdsalloc s' = (if sds_type s0 = 0 then n else sdsalloc s0)"
    using finish_string [OF s0(1) _ lb, of n] s0(3) by auto
  have "sdssetlen (s0\<lparr>sds_buf := b\<rparr>) n = s0\<lparr>sds_buf := b\<rparr>"
  proof -
    have ty: "sds_type (s0\<lparr>sds_buf := b\<rparr>) = t" by (simp add: s0(4))
    show ?thesis unfolding sdssetlen_def ty using t by (simp add: s0_def sds_types)
  qed
  moreover have "sdsnewlen init n = buf_set (s0\<lparr>sds_buf := b\<rparr>) n 0"
    unfolding sdsnewlen_def Let_def tt s0' copy by simp
  moreover have "take n b = (case init of None \<Rightarrow> replicate n 0 | Some p \<Rightarrow> take n p)"
  proof (cases init)
    case None
    have "take n (replicate (n + 1) (0 :: byte)) = replicate n 0" unfolding take_replicate by simp
    then show ?thesis by (simp only: b_def None option.case)
  next
    case (Some p)
    then show ?thesis using assms(2) by (simp add: b_def)
  qed
  ultimately show ?thesis using s' s0(3) by auto
qed

lemma rehead_exact:
  assumes "sds_fit s" "t \<le> 4" "if t = 0 then sdslen s < 32 \<and> m = sdslen s else m < hdr_lim t" "sdslen s \<le> m"
  shows "\<exists>s'. sds_rehead s t (sdslen s) m = Some s' \<and> sds_type s' = t \<and> sdslen s' = sdslen s \<and>
    length (sds_buf s') = m + 1 \<and> take (sdslen s + 1) (sds_buf s') = take (sdslen s + 1) (sds_buf s)"
proof -
  have l: "sdslen s + 1 \<le> length (sds_buf s)" using assms(1) by (simp add: sds_fit_def)
  let ?b = "take (sdslen s + 1) (sds_buf s) @ replicate (m - sdslen s) 0"
  let ?s = "s\<lparr>sds_buf := ?b, sds_flags := word_of_nat t\<rparr>"
  have f: "fits_type ?s (sdslen s)" "sds_type ?s = t"
    using assms(2-4) type_flags [OF assms(2)] by (auto simp: fits_type_def sds_type_def)
  have "sds_rehead s t (sdslen s) m = Some (sdssetlen ?s (sdslen s))"
    using l assms(4) by (simp add: sds_rehead_def mem_read_def buf_write_def mem_write_def drop_replicate)
  then show ?thesis
    using setlen_fits [OF f(1)] f(2) l assms(4) by simp
qed

lemma same_prefix:
  assumes "take (n + 1) xs = take (n + 1) ys"
  shows "take n xs = take n ys" "xs ! n = ys ! n"
proof -
  have "take n (take (n + 1) xs) = take n (take (n + 1) ys)" "take (n + 1) xs ! n = take (n + 1) ys ! n" using assms by simp_all
  then show "take n xs = take n ys" "xs ! n = ys ! n" by (simp_all add: min_def)
qed

lemma ok_intro:
  assumes "sds_type s \<le> 4" "sds_type s \<noteq> 0 \<Longrightarrow> hdr_alloc s = a \<and> a < hdr_lim (sds_type s)" "sds_type s = 0 \<Longrightarrow> a = sdslen s"
    "sdslen s \<le> a" "a < length (sds_buf s)" "take (sdslen s + 1) (sds_buf s) = take (sdslen s + 1) b" "sdslen s < length b" "b ! sdslen s = 0"
  shows "sds_ok s" "sds_str s = take (sdslen s) b" "sdsalloc s = a"
proof -
  have a: "sdsalloc s = a" using assms(1-3) by (auto simp: sdsalloc_def sdslen_def sds_types)
  then show "sds_ok s" "sdsalloc s = a" using assms same_prefix(2) [OF assms(6)] by (auto simp: sds_ok_def)
  show "sds_str s = take (sdslen s) b" using same_prefix(1) [OF assms(6)] by (simp add: sds_str_def)
qed

lemma sdsMakeRoomFor_fit:
  assumes "sds_fit s" "sdslen s + addlen < 2 ^ 62"
  shows "\<exists>s'. sdsMakeRoomFor s addlen = Some s' \<and> sds_fit s' \<and> sds_str s' = sds_str s \<and> sdslen s' = sdslen s \<and>
    sdslen s + addlen \<le> sdsalloc s' \<and> sds_buf s' ! sdslen s = sds_buf s ! sdslen s \<and> addlen \<le> sdsavail s'"
proof (cases "sdsavail s \<ge> addlen")
  case True
  moreover have "sdslen s + addlen \<le> sdsalloc s"
    using True assms(1) by (auto simp: sds_fit_def sdsavail_def sdsalloc_def sdslen_def sds_types split: if_splits)
  ultimately show ?thesis using assms(1) by (simp add: sdsMakeRoomFor_def)
next
  case False
  define m where "m = (if sdslen s + addlen < SDS_MAX_PREALLOC then (sdslen s + addlen) * 2 else sdslen s + addlen + SDS_MAX_PREALLOC)"
  define t where "t = (if sdsReqType m = 0 then 1 else sdsReqType m)"
  have m: "m < 2 ^ 64" "sdslen s + addlen \<le> m" using assms(2) by (auto simp: m_def SDS_MAX_PREALLOC_def)
  have t: "t \<le> 4" "t \<noteq> 0" "m < hdr_lim t" using reqtype_fits [OF m(1)] hdr_lim_ge [of 1] by (auto simp: t_def split: if_splits)
  define s1 where "s1 = s\<lparr>sds_buf := zrealloc (sds_buf s) (m + 1)\<rparr>"
  have run: "sdsMakeRoomFor s addlen =
      (do { s \<leftarrow> (if sds_type s = t then Some s1 else sds_rehead s t (sdslen s) m); Some (sdssetalloc s m) })"
  proof -
    have "(sdslen s + addlen) mod 2 ^ 64 = sdslen s + addlen" "m mod 2 ^ 64 = m" using assms(2) m(1) by simp_all
    then show ?thesis using False unfolding sdsMakeRoomFor_def Let_def s1_def t_def m_def
      by (simp add: sds_types cong: if_cong)
  qed
  obtain s2 where s2: "(if sds_type s = t then Some s1 else sds_rehead s t (sdslen s) m) = Some s2"
    "sds_type s2 = t" "sdslen s2 = sdslen s" "length (sds_buf s2) = m + 1" "take (sdslen s + 1) (sds_buf s2) = take (sdslen s + 1) (sds_buf s)"
  proof (cases "sds_type s = t")
    case True
    have "take (sdslen s + 1) (zrealloc (sds_buf s) (m + 1)) = take (sdslen s + 1) (sds_buf s)"
      using m(2) assms(1) by (simp add: zrealloc_def sds_fit_def min_def)
    then show ?thesis using True that [of s1] by (simp add: s1_def sdslen_def sds_type_def)
  next
    case False
    then show ?thesis using rehead_exact [OF assms(1) t(1), of m] t m(2) that by auto
  qed
  have a: "sdslen (sdssetalloc s2 m) = sdslen s" "sds_type (sdssetalloc s2 m) = t" "sds_buf (sdssetalloc s2 m) = sds_buf s2"
    "hdr_alloc (sdssetalloc s2 m) = m"
    using setalloc_fits [of s2 m] s2 t by simp_all
  have "sds_fit (sdssetalloc s2 m)" "sdsavail (sdssetalloc s2 m) = m - sdslen s" "sdsalloc (sdssetalloc s2 m) = m"
    using a s2 t m(2) by (auto simp: sds_fit_def sdsalloc_def sdsavail_def sdslen_def sds_types)
  moreover have "sds_str (sdssetalloc s2 m) = sds_str s" "sds_buf (sdssetalloc s2 m) ! sdslen s = sds_buf s ! sdslen s"
    using same_prefix [OF s2(5)] a(1,3) by (simp_all add: sds_str_def)
  ultimately show ?thesis using run s2(1) a(1) m(2) by simp
qed

lemma sdsMakeRoomFor_exact:
  assumes "sds_ok s" "sdslen s + addlen < 2 ^ 62"
  shows "\<exists>s'. sdsMakeRoomFor s addlen = Some s' \<and> sds_ok s' \<and> sds_str s' = sds_str s \<and> sdslen s' = sdslen s \<and>
    sdslen s + addlen \<le> sdsalloc s'"
  using sdsMakeRoomFor_fit [of s addlen] assms by (auto simp: sds_ok_fit)

lemma sdsRemoveFreeSpace_exact:
  assumes "sds_ok s" "sdslen s < 2 ^ 63"
  shows "\<exists>s'. sdsRemoveFreeSpace s = Some s' \<and> sds_ok s' \<and> sds_str s' = sds_str s \<and> sdsalloc s' = sdslen s \<and>
    length (sds_buf s') = sdslen s + 1"
proof -
  define t where "t = sdsReqType (sdslen s)"
  have t: "t \<le> 4" "if t = 0 then sdslen s < 32 else sdslen s < hdr_lim t"
    using reqtype_fits [of "sdslen s"] assms(2) by (simp_all add: t_def)
  define s1 where "s1 = s\<lparr>sds_buf := zrealloc (sds_buf s) (sdslen s + 1)\<rparr>"
  obtain s2 where s2: "(if sds_type s = t then Some s1 else sds_rehead s t (sdslen s) (sdslen s)) = Some s2"
    "sds_type s2 = t" "sdslen s2 = sdslen s" "length (sds_buf s2) = sdslen s + 1"
    "take (sdslen s + 1) (sds_buf s2) = take (sdslen s + 1) (sds_buf s)"
  proof (cases "sds_type s = t")
    case True
    have "take (sdslen s + 1) (zrealloc (sds_buf s) (sdslen s + 1)) = take (sdslen s + 1) (sds_buf s)"
      using assms(1) by (simp add: zrealloc_def sds_ok_def min_def)
    then show ?thesis using True that [of s1] by (simp add: s1_def sdslen_def sds_type_def)
  next
    case False
    then show ?thesis using rehead_exact [of s, OF _ t(1), of "sdslen s"] assms(1) [unfolded sds_ok_fit] t that by (auto split: if_splits)
  qed
  have a: "sdslen (sdssetalloc s2 (sdslen s)) = sdslen s" "sds_type (sdssetalloc s2 (sdslen s)) = t"
    "sds_buf (sdssetalloc s2 (sdslen s)) = sds_buf s2" "t \<noteq> 0 \<Longrightarrow> hdr_alloc (sdssetalloc s2 (sdslen s)) = sdslen s"
    using setalloc_fits [of s2 "sdslen s"] s2 t by (auto split: if_splits)
  have "sds_ok (sdssetalloc s2 (sdslen s))" "sds_str (sdssetalloc s2 (sdslen s)) = take (sdslen s) (sds_buf s)"
    "sdsalloc (sdssetalloc s2 (sdslen s)) = sdslen s"
    using ok_intro [of "sdssetalloc s2 (sdslen s)" "sdslen s" "sds_buf s"] a s2 t assms(1) by (auto simp: sds_ok_def split: if_splits)
  then show ?thesis using s2 a(3) unfolding sdsRemoveFreeSpace_def Let_def t_def s1_def by (simp add: sds_str_def)
qed

section \<open>In-place operations\<close>

lemma sdscatlen_exact:
  assumes "sds_ok s" "n \<le> length t" "sdslen s + n < 2 ^ 62"
  shows "\<exists>s'. sdscatlen s t n = Some s' \<and> sds_ok s' \<and> sds_str s' = sds_str s @ take n t"
proof -
  obtain s1 where s1: "sdsMakeRoomFor s n = Some s1" "sds_ok s1" "sds_str s1 = sds_str s" "sdslen s1 = sdslen s" "sdslen s + n \<le> sdsalloc s1"
    using sdsMakeRoomFor_exact [OF assms(1,3)] by blast
  let ?b = "take (sdslen s) (sds_buf s1) @ take n t @ drop (sdslen s + n) (sds_buf s1)"
  have l: "sdslen s + n < length (sds_buf s1)" using s1(2,5) by (simp add: sds_ok_def)
  have w: "buf_write s1 (sdslen s) (take n t) = Some (s1\<lparr>sds_buf := ?b\<rparr>)"
    using l assms(2) by (simp add: buf_write_def mem_write_def min_def)
  obtain s' where "buf_set (sdssetlen (s1\<lparr>sds_buf := ?b\<rparr>) (sdslen s + n)) (sdslen s + n) 0 = Some s'" "sds_ok s'"
    "sds_str s' = take (sdslen s + n) ?b"
    using finish_string [OF s1(2,5), of ?b] l assms(2) by auto
  moreover have "take (sdslen s + n) ?b = sds_str s @ take n t"
    using s1(3,4) l assms(1,2) by (simp add: sds_str_def sds_ok_def)
  ultimately show ?thesis
    using s1(1) w assms(2) by (simp add: sdscatlen_def mem_read_def)
qed

lemma sdsgrowzero_exact:
  assumes "sds_ok s" "n < 2 ^ 62"
  shows "\<exists>s'. sdsgrowzero s n = Some s' \<and> sds_ok s' \<and> sds_str s' = sds_str s @ replicate (n - sdslen s) 0"
proof (cases "n \<le> sdslen s")
  case True
  then show ?thesis using assms(1) by (simp add: sdsgrowzero_def)
next
  case False
  define k where "k = n - sdslen s"
  have k: "sdslen s + k = n" using False by (simp add: k_def)
  obtain s1 where s1: "sdsMakeRoomFor s k = Some s1" "sds_ok s1" "sds_str s1 = sds_str s" "sdslen s1 = sdslen s" "n \<le> sdsalloc s1"
    using sdsMakeRoomFor_exact [OF assms(1), of k] k assms(2) by auto
  let ?b = "take (sdslen s) (sds_buf s1) @ (replicate k 0 @ [0]) @ drop (n + 1) (sds_buf s1)"
  have rep: "replicate (k + 1) (0 :: byte) = replicate k 0 @ [0]" by (simp add: replicate_append_same)
  have l: "n < length (sds_buf s1)" "sdslen s < length (sds_buf s)" using s1(2,5) assms(1) by (simp_all add: sds_ok_def)
  have lb: "length ?b = length (sds_buf s1)" using l k by simp
  have w: "buf_write s1 (sdslen s) (replicate (k + 1) 0) = Some (s1\<lparr>sds_buf := ?b\<rparr>)"
    unfolding rep using l k by (simp add: buf_write_def mem_write_def)
  have "?b ! n = 0" using l k by (simp add: nth_append min_def)
  then have "?b[n := 0] = ?b" by (metis list_update_id)
  then have "buf_set (s1\<lparr>sds_buf := ?b\<rparr>) n 0 = Some (s1\<lparr>sds_buf := ?b\<rparr>)"
    using l(1) lb by (simp add: buf_set_def mem_set_def)
  then obtain s' where s': "s' = sdssetlen (s1\<lparr>sds_buf := ?b\<rparr>) n" "sds_ok s'" "sds_str s' = take n ?b"
    using finish_string [OF s1(2,5) lb] by auto
  have "take n ?b = sds_str s @ replicate k 0"
    using s1(3,4) l k False by (simp add: sds_str_def min_def) linarith
  then show ?thesis
    using s1(1) w s' False unfolding sdsgrowzero_def k_def by (simp add: Let_def)
qed

lemma sdscpylen_exact:
  assumes "sds_ok s" "n \<le> length t" "sdslen s < 2 ^ 62" "n < 2 ^ 62"
  shows "\<exists>s'. sdscpylen s t n = Some s' \<and> sds_ok s' \<and> sds_str s' = take n t"
proof -
  obtain s1 where s1: "(if sdsalloc s < n then sdsMakeRoomFor s (n - sdslen s) else Some s) = Some s1" "sds_ok s1" "n \<le> sdsalloc s1"
  proof (cases "sdsalloc s < n")
    case True
    have "sdslen s \<le> n" using True assms(1) by (simp add: sds_ok_def)
    then show ?thesis using sdsMakeRoomFor_exact [OF assms(1), of "n - sdslen s"] assms(4) True that by auto
  qed (use assms(1) that in auto)
  let ?b = "take n t @ drop n (sds_buf s1)"
  have l: "n < length (sds_buf s1)" using s1(2,3) by (simp add: sds_ok_def)
  have w: "buf_write s1 0 (take n t) = Some (s1\<lparr>sds_buf := ?b\<rparr>)"
    using l assms(2) by (simp add: buf_write_def mem_write_def min_def)
  obtain s' where "map_option (\<lambda>s. sdssetlen s n) (buf_set (s1\<lparr>sds_buf := ?b\<rparr>) n 0) = Some s'" "sds_ok s'" "sds_str s' = take n ?b"
    using finish_string [OF s1(2,3), of ?b] l assms(2) by auto
  then show ?thesis
    using s1(1) w assms(2) by (auto simp: sdscpylen_def mem_read_def)
qed

lemma sdsIncrLen_exact:
  assumes "sds_fit s" "0 \<le> int (sdslen s) + incr" "int (sdslen s) + incr \<le> int (sdsalloc s)" "incr \<noteq> 0"
  shows "\<exists>s'. sdsIncrLen s incr = Some s' \<and> sds_ok s' \<and> sds_str s' = take (nat (int (sdslen s) + incr)) (sds_buf s)"
proof -
  define n where "n = nat (int (sdslen s) + incr)"
  have n: "int n = int (sdslen s) + incr" "n \<le> sdsalloc s" using assms(2,3) by (simp_all add: n_def)
  obtain s' where s': "buf_set (sdssetlen (s\<lparr>sds_buf := sds_buf s\<rparr>) n) n 0 = Some s'" "sds_ok s'" "sds_str s' = take n (sds_buf s)"
    using finish_fit [OF assms(1) n(2) refl] by blast
  have f: "fits_type s n" using sdsalloc_fits [OF assms(1) n(2)] .
  have "sdsIncrLen s incr = buf_set (sdssetlen s n) n 0"
  proof (cases "sds_type s = 0")
    case True
    then have "sdslen s = sdsalloc s" by (simp add: sdslen_def sdsalloc_def sds_types)
    then have "(incr < 0 \<and> int (sdslen s) \<ge> - incr) = True" using assms(2-4) by simp
    moreover have "(word_of_int (int (sdslen s) + incr) :: byte) = word_of_nat n" unfolding n(1) [symmetric] by simp
    ultimately show ?thesis
      unfolding sdsIncrLen_def Let_def n_def [symmetric] sdssetlen_def using True by (simp only: sds_types if_True simp_thms c_assert_simps Option.bind.bind_lunit)
  next
    case False
    have h: "hdr_alloc s = sdsalloc s" "sds_type s \<le> SDS_TYPE_64" "sds_type s \<noteq> SDS_TYPE_5"
      using False assms(1) by (simp_all add: sdsalloc_def sds_types sds_fit_def)
    have m: "n mod hdr_lim (sds_type s) = n" using f False by (simp add: fits_type_def)
    have "nat (int n mod int (hdr_lim (sds_type s))) = n" using m by (metis nat_int zmod_int)
    moreover have "((incr \<ge> 0 \<and> int (hdr_alloc s) - int (sdslen s) \<ge> incr) \<or> (incr < 0 \<and> int (sdslen s) \<ge> - incr)) = True"
      using assms(2,3) h(1) by auto
    ultimately show ?thesis
      unfolding sdsIncrLen_def Let_def n(1) [symmetric] sdssetlen_def
      using h(2,3) by (simp only: simp_thms if_True if_False c_assert_simps Option.bind.bind_lunit m)
  qed
  then show ?thesis using s' by (auto simp: n_def)
qed

text \<open>Trimming.\<close>

lemma trim_left_eq:
  assumes "n \<le> length b" "sp \<le> n"
  shows "trim_left cset b n sp = Some (sp + length (takeWhile (in_cset cset) (drop sp (take n b))))"
  using assms
proof (induction cset b n sp rule: trim_left.induct)
  case (1 cset b n sp)
  show ?case
  proof (cases "sp < n")
    case True
    then have "drop sp (take n b) = b ! sp # drop (sp + 1) (take n b)"
      using 1(2) by (simp add: Cons_nth_drop_Suc [symmetric])
    then show ?thesis
      using True 1 by (subst trim_left.simps) (simp add: mem_get_def)
  next
    case False
    then show ?thesis using 1(3) by (subst trim_left.simps) simp
  qed
qed

lemma trim_right_eq:
  assumes "n \<le> length b" "sp < n" "\<not> in_cset cset (b ! sp)"
  shows "trim_right cset b sp n = Some (n - length (takeWhile (in_cset cset) (rev (take n b))))"
  using assms
proof (induction n)
  case (Suc n)
  have r: "rev (take (Suc n) b) = b ! n # rev (take n b)" using Suc.prems(1) by (simp add: take_Suc_conv_app_nth)
  show ?case
  proof (cases "n > sp")
    case True
    then show ?thesis using Suc r by (simp add: mem_get_def)
  next
    case False
    then have "n = sp" using Suc.prems(2) by simp
    then show ?thesis using Suc.prems(3) r by simp
  qed
qed simp

definition trimmed :: "bytes \<Rightarrow> bytes \<Rightarrow> bytes" where
  "trimmed cset xs = rev (dropWhile (in_cset cset) (rev (dropWhile (in_cset cset) xs)))"

lemma sdstrim_exact:
  assumes "sds_ok s"
  shows "\<exists>s'. sdstrim s cset = Some s' \<and> sds_ok s' \<and> sds_str s' = trimmed cset (sds_str s)"
proof -
  let ?P = "in_cset cset"
  let ?n = "sdslen s"
  have l: "?n < length (sds_buf s)" "?n \<le> sdsalloc s" using assms by (simp_all add: sds_ok_def)
  define sp where "sp = length (takeWhile ?P (sds_str s))"
  have sp: "trim_left cset (sds_buf s) ?n 0 = Some sp" "sp \<le> ?n"
    using trim_left_eq [of ?n "sds_buf s" 0 cset] l(1) length_takeWhile_le [of ?P "sds_str s"] length_sds_str [OF assms]
    by (simp_all add: sp_def sds_str_def)
  obtain ep where ep: "trim_right cset (sds_buf s) sp ?n = Some ep" "ep \<le> ?n"
    "(if sp + 1 > ep then 0 else ep - sp) = length (trimmed cset (sds_str s))"
    "take (if sp + 1 > ep then 0 else ep - sp) (drop sp (sds_buf s)) = trimmed cset (sds_str s)"
  proof (cases "sp < ?n")
    case True
    have dr: "dropWhile ?P (sds_str s) = drop sp (sds_str s)" by (simp add: dropWhile_eq_drop sp_def)
    have ns: "\<not> ?P (sds_buf s ! sp)"
      using nth_length_takeWhile [of ?P "sds_str s"] True length_sds_str [OF assms] by (simp add: sp_def [symmetric]) (simp add: sds_str_def)
    define k where "k = length (takeWhile ?P (rev (sds_str s)))"
    have ep: "trim_right cset (sds_buf s) sp ?n = Some (?n - k)"
      using trim_right_eq [OF _ True ns] l(1) by (simp add: k_def sds_str_def)
    have rv: "rev (sds_str s) = rev (drop sp (sds_str s)) @ rev (take sp (sds_str s))"
      by (metis append_take_drop_id rev_append)
    have "\<exists>x \<in> set (rev (drop sp (sds_str s))). \<not> ?P x"
      using ns True l(1) length_sds_str [OF assms] by (auto simp: sds_str_def in_set_conv_nth intro!: bexI [of _ "sds_buf s ! sp"] exI [of _ 0])
    then have k: "k = length (takeWhile ?P (rev (drop sp (sds_str s))))"
      unfolding k_def rv by (auto simp: takeWhile_append)
    then have kl: "k < ?n - sp"
    proof -
      have "takeWhile ?P (rev (drop sp (sds_str s))) \<noteq> rev (drop sp (sds_str s))"
        using \<open>\<exists>x \<in> set (rev (drop sp (sds_str s))). \<not> ?P x\<close> by (metis takeWhile_eq_all_conv)
      then show ?thesis
        using k length_takeWhile_le [of ?P "rev (drop sp (sds_str s))"] length_sds_str [OF assms]
        by (metis le_neq_implies_less length_drop length_rev takeWhile_eq_take take_all_iff order_refl)
    qed
    have tr: "trimmed cset (sds_str s) = take (?n - k - sp) (drop sp (sds_str s))"
    proof -
      let ?ys = "drop sp (sds_str s)"
      have "dropWhile ?P (rev ?ys) = drop k (rev ?ys)" by (simp add: dropWhile_eq_drop k)
      then have "trimmed cset (sds_str s) = rev (drop k (rev ?ys))" by (simp add: trimmed_def dr)
      also have "\<dots> = take (length ?ys - k) ?ys" using rev_drop [of k "rev ?ys"] by (simp only: rev_rev_ident length_rev)
      finally show ?thesis using length_sds_str [OF assms] by (simp add: add.commute)
    qed
    have "take (?n - k - sp) (drop sp (sds_buf s)) = take (?n - k - sp) (drop sp (sds_str s))"
      using kl by (simp add: sds_str_def drop_take min_def)
    then show ?thesis
      using that [OF ep] kl tr length_sds_str [OF assms] by simp
  next
    case False
    then have all: "dropWhile ?P (sds_str s) = []"
      using sp(2) length_sds_str [OF assms] by (simp add: sp_def) (metis takeWhile_eq_take take_all_iff order_refl takeWhile_eq_all_conv)
    have "trim_right cset (sds_buf s) sp m = Some m" if "m \<le> sp" for m using that by (cases m) auto
    then have "trim_right cset (sds_buf s) sp ?n = Some ?n" using False by simp
    then show ?thesis using that [of ?n] False sp(2) all by (simp add: trimmed_def)
  qed
  define n' where "n' = (if sp + 1 > ep then 0 else ep - sp)"
  have n': "sp + n' \<le> ?n" "n' \<le> ?n" using ep(2) sp(2) by (auto simp: n'_def)
  define b where "b = (if sp \<noteq> 0 then take n' (drop sp (sds_buf s)) @ drop n' (sds_buf s) else sds_buf s)"
  have mv: "(if sp \<noteq> 0 then map_option (\<lambda>b. s\<lparr>sds_buf := b\<rparr>) (mem_move (sds_buf s) 0 sp n') else Some s) = Some (s\<lparr>sds_buf := b\<rparr>)"
    using n' l(1) by (simp add: b_def mem_move_def mem_read_def mem_write_def)
  obtain s' where s': "map_option (\<lambda>s. sdssetlen s n') (buf_set (s\<lparr>sds_buf := b\<rparr>) n' 0) = Some s'" "sds_ok s'" "sds_str s' = take n' b"
  proof -
    have 1: "n' \<le> sdsalloc s" using n'(2) l(2) by simp
    have 2: "length b = length (sds_buf s)" using n' l(1) by (simp add: b_def)
    show ?thesis using finish_string [OF assms 1 2] that by blast
  qed
  have "take n' b = trimmed cset (sds_str s)"
  proof (cases "sp = 0")
    case True
    then show ?thesis using ep(4) unfolding n'_def [symmetric] by (simp add: b_def)
  next
    case False
    then have "take n' b = take n' (drop sp (sds_buf s))" using n' l(1) by (simp add: b_def)
    then show ?thesis using ep(4) unfolding n'_def [symmetric] by simp
  qed
  then show ?thesis
    using s' mv unfolding sdstrim_def Let_def sp(1) ep(1) Option.bind.bind_lunit n'_def [symmetric] by (auto simp: map_option_bind bind_eq_Some_conv)
qed

text \<open>Ranges.\<close>

lemma to_int32_id: "- (2 ^ 31) \<le> v \<Longrightarrow> v < 2 ^ 31 \<Longrightarrow> to_int32 v = v"
  unfolding to_int32_def by (simp add: sint_sbintrunc' signed_take_bit_int_eq_self)

definition range_lo :: "int \<Rightarrow> int \<Rightarrow> int" where
  "range_lo n start = (if start < 0 then max 0 (n + start) else start)"

definition range_hi :: "int \<Rightarrow> int \<Rightarrow> int" where
  "range_hi n end' = min (n - 1) (if end' < 0 then max 0 (n + end') else end')"

definition sub_range :: "bytes \<Rightarrow> int \<Rightarrow> int \<Rightarrow> bytes" where
  "sub_range xs start end' =
     (let lo = range_lo (int (length xs)) start; hi = range_hi (int (length xs)) end'
      in take (nat (hi - lo + 1)) (drop (nat lo) xs))"

lemma move_down:
  assumes "sds_ok s" "sp + n' \<le> sdslen s"
  shows "\<exists>s'. do { s \<leftarrow> (if c then map_option (\<lambda>b. s\<lparr>sds_buf := b\<rparr>) (mem_move (sds_buf s) 0 sp n') else Some s);
        s \<leftarrow> buf_set s n' 0; Some (sdssetlen s n') } = Some s' \<and> sds_ok s' \<and>
      sds_str s' = take n' (if c then drop sp (sds_buf s) else sds_buf s)"
proof -
  have l: "sdslen s < length (sds_buf s)" "n' \<le> sdsalloc s" using assms by (simp_all add: sds_ok_def)
  define b where "b = (if c then take n' (drop sp (sds_buf s)) @ drop n' (sds_buf s) else sds_buf s)"
  have lb: "length b = length (sds_buf s)" using assms(2) l(1) by (simp add: b_def)
  have "(if c then map_option (\<lambda>b. s\<lparr>sds_buf := b\<rparr>) (mem_move (sds_buf s) 0 sp n') else Some s) = Some (s\<lparr>sds_buf := b\<rparr>)"
    using assms(2) l(1) by (simp add: b_def mem_move_def mem_read_def mem_write_def)
  moreover obtain s' where "map_option (\<lambda>s. sdssetlen s n') (buf_set (s\<lparr>sds_buf := b\<rparr>) n' 0) = Some s'" "sds_ok s'" "sds_str s' = take n' b"
    using finish_string [OF assms(1) l(2) lb] by blast
  moreover have "take n' b = take n' (if c then drop sp (sds_buf s) else sds_buf s)" using assms(2) l(1) by (simp add: b_def)
  ultimately show ?thesis by (auto simp: map_option_bind bind_eq_Some_conv)
qed

lemma sdsrange_exact:
  assumes "sds_ok s" "sdslen s < 2 ^ 31" "- (2 ^ 31) \<le> start" "start < 2 ^ 31" "- (2 ^ 31) \<le> end'" "end' < 2 ^ 31"
  shows "\<exists>s'. sdsrange s start end' = Some s' \<and> sds_ok s' \<and> sds_str s' = sub_range (sds_str s) start end'"
proof (cases "sdslen s = 0")
  case True
  then show ?thesis using assms(1) by (simp add: sdsrange_def sub_range_def sds_str_def)
next
  case False
  define n where "n = int (sdslen s)"
  have n: "0 < n" "n < 2 ^ 31" using False assms(2) by (simp_all add: n_def)
  define lo where "lo = range_lo n start"
  define e where "e = (if end' < 0 then max 0 (n + end') else end')"
  have c: "(if start < 0 then (let start = to_int32 (n + start) in if start < 0 then 0 else start) else start) = lo"
    "(if end' < 0 then (let end' = to_int32 (n + end') in if end' < 0 then 0 else end') else end') = e"
    "to_int32 n = n" "to_int32 (n - 1) = n - 1"
    using assms(3-6) n by (simp_all add: lo_def range_lo_def e_def to_int32_id Let_def max_def)
  have lo: "0 \<le> lo" "0 \<le> e" using assms(3-6) by (simp_all add: lo_def range_lo_def e_def)
  define m where "m = (if lo > e \<or> lo \<ge> n then 0 else min e (n - 1) - lo + 1)"
  define st where "st = (if lo > e then 0 else lo)"
  have sel: "(if (if lo > e then 0 else e - lo + 1) \<noteq> 0 then
            (if lo \<ge> n then (lo, 0)
             else if e \<ge> n then (lo, if lo > n - 1 then 0 else (n - 1) - lo + 1)
             else (lo, (if lo > e then 0 else e - lo + 1)))
          else (0, (if lo > e then 0 else e - lo + 1))) = (st, m)"
    by (auto simp: m_def st_def min_def)
  have m: "0 \<le> m" "m \<noteq> 0 \<Longrightarrow> st + m \<le> n" "m \<noteq> 0 \<Longrightarrow> st = lo" using lo by (auto simp: m_def st_def min_def)
  have run: "sdsrange s start end' = do { s \<leftarrow> (if st \<noteq> 0 \<and> m \<noteq> 0 then map_option (\<lambda>b. s\<lparr>sds_buf := b\<rparr>) (mem_move (sds_buf s) 0 (nat st) (nat m)) else Some s);
      s \<leftarrow> buf_set s (nat m) 0; Some (sdssetlen s (nat m)) }"
    using n(1) unfolding sdsrange_def n_def [symmetric] Let_def
    by (simp only: c [unfolded Let_def] sel prod.case) simp
  have p: "(if st \<noteq> 0 \<and> m \<noteq> 0 then nat st else 0) + nat m \<le> sdslen s"
    using m lo(1) n by (cases "m = 0") (auto simp: n_def)
  have "(if st \<noteq> 0 \<and> m \<noteq> 0 then map_option (\<lambda>b. s\<lparr>sds_buf := b\<rparr>) (mem_move (sds_buf s) 0 (nat st) (nat m)) else Some s) =
    (if st \<noteq> 0 \<and> m \<noteq> 0 then map_option (\<lambda>b. s\<lparr>sds_buf := b\<rparr>) (mem_move (sds_buf s) 0 (if st \<noteq> 0 \<and> m \<noteq> 0 then nat st else 0) (nat m)) else Some s)"
    by simp
  with move_down [OF assms(1) p, of "st \<noteq> 0 \<and> m \<noteq> 0"] run obtain s' where s': "sdsrange s start end' = Some s'" "sds_ok s'"
    "sds_str s' = take (nat m) (if st \<noteq> 0 \<and> m \<noteq> 0 then drop (nat st) (sds_buf s) else sds_buf s)" by auto
  have "sub_range (sds_str s) start end' = take (nat m) (drop (nat lo) (sds_str s))"
  proof -
    have "nat (range_hi n end' - lo + 1) = nat m \<or> drop (nat lo) (sds_str s) = []"
      using length_sds_str [OF assms(1)] lo by (auto simp: m_def range_hi_def e_def n_def [symmetric] min_def)
    then show ?thesis
      unfolding sub_range_def Let_def length_sds_str [OF assms(1)] n_def [symmetric] lo_def [symmetric] by auto
  qed
  also have "\<dots> = sds_str s'"
  proof (cases "m = 0")
    case False
    then have "nat m \<le> sdslen s - nat lo" "st = lo" using m lo(1) by (auto simp: n_def)
    then show ?thesis using False s'(3) by (auto simp: sds_str_def drop_take min_def)
  qed (use s'(3) in simp)
  finally show ?thesis using s' by auto
qed

text \<open>Comparison is the lexicographic order on the strings.\<close>

fun byte_less :: "bytes \<Rightarrow> bytes \<Rightarrow> bool" where
  "byte_less xs [] = False"
| "byte_less [] (y # ys) = True"
| "byte_less (x # xs) (y # ys) = (x < y \<or> (x = y \<and> byte_less xs ys))"

lemma memcmp_sign:
  "(let m = min (length xs) (length ys); c = c_memcmp (take m xs) (take m ys)
    in if c = 0 then int (length xs) - int (length ys) else c) < 0 \<longleftrightarrow> byte_less xs ys"
  "(let m = min (length xs) (length ys); c = c_memcmp (take m xs) (take m ys)
    in if c = 0 then int (length xs) - int (length ys) else c) = 0 \<longleftrightarrow> xs = ys"
proof (induction xs ys rule: byte_less.induct)
  case (3 x xs y ys)
  {
    case 1
    then show ?case using 3(1) by (auto simp: Let_def word_less_def dest: iffD2 [OF word_uint_eq_iff])
  next
    case 2
    then show ?case using 3(2) by (auto simp: Let_def dest: iffD2 [OF word_uint_eq_iff])
  }
qed (auto simp: Let_def)

lemma sdscmp_exact:
  assumes "sds_ok s1" "sds_ok s2" "sdslen s1 < 2 ^ 31" "sdslen s2 < 2 ^ 31"
  shows "\<exists>c. sdscmp s1 s2 = Some c \<and> (c < 0 \<longleftrightarrow> byte_less (sds_str s1) (sds_str s2)) \<and> (c = 0 \<longleftrightarrow> sds_str s1 = sds_str s2)"
proof -
  have l: "length (sds_str s1) = sdslen s1" "length (sds_str s2) = sdslen s2" using assms(1,2) by (simp_all add: length_sds_str)
  let ?m = "min (sdslen s1) (sdslen s2)"
  have "mem_read (sds_buf s1) 0 ?m = Some (take ?m (sds_str s1))" "mem_read (sds_buf s2) 0 ?m = Some (take ?m (sds_str s2))"
    using assms(1,2) by (auto simp: mem_read_def sds_str_def sds_ok_def)
  moreover have "(if sdslen s1 < sdslen s2 then sdslen s1 else sdslen s2) = ?m" by (simp add: min_def)
  moreover have "to_int32 (int (sdslen s1) - int (sdslen s2)) = int (sdslen s1) - int (sdslen s2)"
    using assms(3,4) by (intro to_int32_id; simp)
  ultimately show ?thesis
    using memcmp_sign [of "sds_str s1" "sds_str s2"] unfolding sdscmp_def l by (auto simp: Let_def split: if_splits)
qed

section \<open>Strings as builders\<close>

definition sds_rep :: "sds \<Rightarrow> bytes \<Rightarrow> bool" where
  "sds_rep s xs \<longleftrightarrow> sds_ok s \<and> sds_str s = xs"

definition sds_append :: "sds \<Rightarrow> bytes \<Rightarrow> sds option" where
  "sds_append s ys = sdscatlen s ys (length ys)"

lemma sds_rep_len: "sds_rep s xs \<Longrightarrow> sdslen s = length xs"
  by (auto simp: sds_rep_def length_sds_str)

lemma sdscatlen_rep:
  assumes "sds_rep s xs" "n \<le> length t" "length xs + n < 2 ^ 62"
  shows "\<exists>s'. sdscatlen s t n = Some s' \<and> sds_rep s' (xs @ take n t)"
  using sdscatlen_exact [of s n t] assms sds_rep_len [OF assms(1)] by (auto simp: sds_rep_def)

interpretation sds_builder: byte_builder sds_rep "2 ^ 62" sds_append
proof unfold_locales
  show "\<exists>s'. sds_append s ys = Some s' \<and> sds_rep s' (xs @ ys)" if "sds_rep s xs" "length xs + length ys < 2 ^ 62" for s xs ys
    using sdscatlen_rep [OF that(1) order_refl that(2)] by (simp add: sds_append_def)
qed

lemma sdsempty_rep: "\<exists>s. sdsempty = Some s \<and> sds_rep s []"
proof -
  obtain s where "sdsnewlen (Some []) 0 = Some s" "sds_ok s" "sds_str s = []"
    using sdsnewlen_exact [of 0 "Some []"] by (auto simp del: length_0_conv)
  then show ?thesis by (simp add: sdsempty_def sds_rep_def)
qed

lemma sdscat_rep:
  assumes "sds_rep s xs" "length xs + c_strlen t < 2 ^ 62"
  shows "\<exists>s'. sdscat s t = Some s' \<and> sds_rep s' (xs @ takeWhile (\<lambda>c. c \<noteq> 0) t)"
proof -
  have "take (c_strlen t) t = takeWhile (\<lambda>c. c \<noteq> 0) t" by (metis c_strlen_def takeWhile_eq_take)
  then show ?thesis
    using sdscatlen_rep [OF assms(1) _ assms(2), of t] by (simp add: sdscat_def c_strlen_def length_takeWhile_le)
qed

lemma sdscatsds_rep:
  assumes "sds_rep s xs" "sds_rep t ys" "length xs + length ys < 2 ^ 62"
  shows "\<exists>s'. sdscatsds s t = Some s' \<and> sds_rep s' (xs @ ys)"
  using sdscatlen_rep [of s xs "sdslen t" "sds_buf t"] assms sds_rep_len [OF assms(2)]
  by (auto simp: sdscatsds_def sds_rep_def sds_str_def sds_ok_def)

end
