(* ===== verification/Sds_Text.thy ===== *)
theory Sds_Text
  imports Sds Glob
begin

text \<open>
  The text functions of \<^verbatim>\<open>sds.c\<close>: integers to strings, formatting, quoting, splitting and joining.
  A pointer into a C string is the rest of the memory block it points into, with the terminator; reading
  past the block is a fault (\<open>None\<close>).  The \<open>ctype.h\<close> predicates are those of the C locale, which the server
  keeps for characters.
\<close>

section \<open>The code\<close>

subsection \<open>Integers\<close>

definition SDS_LLSTR_SIZE :: nat where "SDS_LLSTR_SIZE = 21"

function str_digits :: "bytes \<Rightarrow> nat \<Rightarrow> nat \<Rightarrow> (bytes \<times> nat) option" where
  "str_digits b p v =
     Option.bind (mem_set b p (48 + of_nat (v mod 10))) (\<lambda>b.
       if v div 10 \<noteq> 0 then str_digits b (p + 1) (v div 10) else Some (b, p + 1))"
  by pat_completeness auto
termination
  by (relation "measure (\<lambda>(b, p, v). v)") auto

declare str_digits.simps [simp del]

function str_reverse :: "bytes \<Rightarrow> nat \<Rightarrow> nat \<Rightarrow> bytes option" where
  "str_reverse b s p =
     (if s < p then
        Option.bind (mem_get b s) (\<lambda>aux.
        Option.bind (mem_get b p) (\<lambda>c.
        Option.bind (mem_set b s c) (\<lambda>b.
        Option.bind (mem_set b p aux) (\<lambda>b. str_reverse b (s + 1) (p - 1)))))
      else Some b)"
  by pat_completeness auto
termination
  by (relation "measure (\<lambda>(b, s, p). p)") auto

declare str_reverse.simps [simp del]

definition sdsll2str :: "bytes \<Rightarrow> int \<Rightarrow> (bytes \<times> nat) option" where
  "sdsll2str s val = do {
     let v = nat ((if val < 0 then - val else val) mod 2 ^ 64);
     (s, p) \<leftarrow> str_digits s 0 v;
     (s, p) \<leftarrow> (if val < 0 then do { s \<leftarrow> mem_set s p 45; Some (s, p + 1) } else Some (s, p));
     let l = p;
     s \<leftarrow> mem_set s p 0;
     s \<leftarrow> str_reverse s 0 (p - 1);
     Some (s, l)
   }"

definition sdsull2str :: "bytes \<Rightarrow> nat \<Rightarrow> (bytes \<times> nat) option" where
  "sdsull2str s v = do {
     (s, p) \<leftarrow> str_digits s 0 v;
     let l = p;
     s \<leftarrow> mem_set s p 0;
     s \<leftarrow> str_reverse s 0 (p - 1);
     Some (s, l)
   }"

definition sdsfromlonglong :: "int \<Rightarrow> sds option" where
  "sdsfromlonglong val = do {
     (buf, n) \<leftarrow> sdsll2str (replicate SDS_LLSTR_SIZE 0) val;
     sdsnewlen (Some buf) n
   }"

subsection \<open>Formatting\<close>

text \<open>The libc renders the arguments: \<open>text\<close> is the full output of \<open>vsnprintf\<close>, of which a buffer of \<open>buflen\<close> bytes
  receives a prefix and a terminator; the bytes behind the terminator keep what they were, in particular the
  marker that the loop puts into the last byte but one.  (Fresh buffers are zero.)\<close>

definition c_snprintf :: "bytes \<Rightarrow> bytes \<Rightarrow> bytes" where
  "c_snprintf buf text =
     (let out = take (length buf - 1) text @ [0] in out @ drop (length out) buf)"

lemma length_snprintf: "buf \<noteq> [] \<Longrightarrow> length (c_snprintf buf outp) = length buf"
  by (cases buf) (auto simp: c_snprintf_def Let_def)

lemma snprintf_behind:
  assumes "length outp < i" "i < length buf"
  shows "c_snprintf buf outp ! i = buf ! i"
proof -
  let ?out = "take (length buf - 1) outp @ [0]"
  have "length ?out \<le> i" using assms by simp
  then show ?thesis unfolding c_snprintf_def Let_def using assms(2) by (simp only: nth_append nth_drop le_add_diff_inverse) auto
qed

function vprintf_loop :: "bytes \<Rightarrow> bytes \<Rightarrow> bytes option" where
  "vprintf_loop buf text =
     (if length buf < 2 then None
      else let buf = c_snprintf (buf[length buf - 2 := 0]) text in
        if buf ! (length buf - 2) \<noteq> 0 then vprintf_loop (replicate (length buf * 2) 0) text
        else Some buf)"
  by pat_completeness auto
termination
proof (relation "measure (\<lambda>(buf, outp). length outp + 3 - length buf)", goal_cases)
  case (2 buf outp x)
  have n: "buf \<noteq> []" "2 \<le> length buf" using 2(1) by auto
  then have lx: "length x = length buf" using 2(2) by (simp add: length_snprintf)
  have "\<not> length outp < length buf - 2"
  proof
    assume "length outp < length buf - 2"
    then have "x ! (length buf - 2) = buf[length buf - 2 := 0] ! (length buf - 2)"
      unfolding 2(2) using n(2) by (intro snprintf_behind) auto
    then show False using 2(3) n(2) lx by simp
  qed
  then show ?case using n(2) lx by auto
qed simp

declare vprintf_loop.simps [simp del]

definition sdscatvprintf :: "sds \<Rightarrow> bytes \<Rightarrow> bytes \<Rightarrow> sds option" where
  "sdscatvprintf s fmt text = do {
     let buflen = c_strlen fmt * 2;
     let buf = replicate (if buflen > 1024 then buflen else 1024) 0;
     buf \<leftarrow> vprintf_loop buf text;
     sdscat s buf
   }"

definition sdscatprintf :: "sds \<Rightarrow> bytes \<Rightarrow> bytes \<Rightarrow> sds option" where
  "sdscatprintf s fmt text = sdscatvprintf s fmt text"

text \<open>\<open>sdscatfmt\<close>: the variadic arguments are a list; taking an argument of another type than the one passed
  is undefined, hence a fault.  \<open>i\<close> is an \<open>int\<close>.\<close>

datatype va_arg = VaStr bytes | VaSds sds | VaInt int | VaLong int | VaUInt nat | VaULong nat

definition fmt_room :: "sds \<Rightarrow> nat \<Rightarrow> sds option" where
  "fmt_room s l = (if sdsavail s < l then sdsMakeRoomFor s l else Some s)"

definition fmt_put :: "sds \<Rightarrow> int \<Rightarrow> bytes \<Rightarrow> sds option" where
  "fmt_put s i xs = (if i < 0 then None else map_option (\<lambda>s. sdsinclen s (length xs)) (buf_write s (nat i) xs))"

definition fmt_arg :: "sds \<Rightarrow> int \<Rightarrow> bytes \<Rightarrow> nat \<Rightarrow> (sds \<times> int) option" where
  "fmt_arg s i str l = do {
     s \<leftarrow> fmt_room s l;
     xs \<leftarrow> mem_read str 0 l;
     s \<leftarrow> fmt_put s i xs;
     Some (s, to_int32 (i + int l))
   }"

definition fmt_char :: "sds \<Rightarrow> int \<Rightarrow> byte \<Rightarrow> (sds \<times> int) option" where
  "fmt_char s i c = do { s \<leftarrow> fmt_put s i [c]; Some (s, to_int32 (i + 1)) }"

definition fmt_spec :: "sds \<Rightarrow> int \<Rightarrow> byte \<Rightarrow> va_arg list \<Rightarrow> (sds \<times> int \<times> va_arg list) option" where
  "fmt_spec s i nxt ap =
     (if nxt = 115 then
        (case ap of VaStr str # ap \<Rightarrow> map_option (\<lambda>(s, i). (s, i, ap)) (fmt_arg s i str (c_strlen str)) | _ \<Rightarrow> None)
      else if nxt = 83 then
        (case ap of VaSds str # ap \<Rightarrow> map_option (\<lambda>(s, i). (s, i, ap)) (fmt_arg s i (sds_buf str) (sdslen str)) | _ \<Rightarrow> None)
      else if nxt = 105 \<or> nxt = 73 then
        (case (nxt = 105, ap) of
           (True, VaInt num # ap) \<Rightarrow>
             do { (buf, l) \<leftarrow> sdsll2str (replicate SDS_LLSTR_SIZE 0) num; map_option (\<lambda>(s, i). (s, i, ap)) (fmt_arg s i buf l) }
         | (False, VaLong num # ap) \<Rightarrow>
             do { (buf, l) \<leftarrow> sdsll2str (replicate SDS_LLSTR_SIZE 0) num; map_option (\<lambda>(s, i). (s, i, ap)) (fmt_arg s i buf l) }
         | _ \<Rightarrow> None)
      else if nxt = 117 \<or> nxt = 85 then
        (case (nxt = 117, ap) of
           (True, VaUInt unum # ap) \<Rightarrow>
             do { (buf, l) \<leftarrow> sdsull2str (replicate SDS_LLSTR_SIZE 0) unum; map_option (\<lambda>(s, i). (s, i, ap)) (fmt_arg s i buf l) }
         | (False, VaULong unum # ap) \<Rightarrow>
             do { (buf, l) \<leftarrow> sdsull2str (replicate SDS_LLSTR_SIZE 0) unum; map_option (\<lambda>(s, i). (s, i, ap)) (fmt_arg s i buf l) }
         | _ \<Rightarrow> None)
      else map_option (\<lambda>(s, i). (s, i, ap)) (fmt_char s i nxt))"

fun fmt_loop :: "sds \<Rightarrow> int \<Rightarrow> va_arg list \<Rightarrow> bytes \<Rightarrow> (sds \<times> int) option" where
  "fmt_loop s i ap [] = None"
| "fmt_loop s i ap (c # f) =
     (if c = 0 then Some (s, i)
      else Option.bind (if sdsavail s = 0 then sdsMakeRoomFor s 1 else Some s) (\<lambda>s.
        if c = 37 then
          (case f of [] \<Rightarrow> None
           | nxt # f' \<Rightarrow> Option.bind (fmt_spec s i nxt ap) (\<lambda>(s, i, ap). fmt_loop s i ap f'))
        else Option.bind (fmt_char s i c) (\<lambda>(s, i). fmt_loop s i ap f)))"

definition sdscatfmt :: "sds \<Rightarrow> bytes \<Rightarrow> va_arg list \<Rightarrow> sds option" where
  "sdscatfmt s fmt ap = do {
     (s, i) \<leftarrow> fmt_loop s (to_int32 (int (sdslen s))) ap fmt;
     if i < 0 then None else buf_set s (nat i) 0
   }"

subsection \<open>Characters\<close>

fun each_char :: "(byte \<Rightarrow> byte option) \<Rightarrow> bytes \<Rightarrow> nat \<Rightarrow> nat \<Rightarrow> bytes option" where
  "each_char f b j 0 = Some b"
| "each_char f b j (Suc k) = do {
     c \<leftarrow> mem_get b j;
     c \<leftarrow> f c;
     b \<leftarrow> mem_set b j c;
     each_char f b (j + 1) k
   }"

definition toupper :: "int \<Rightarrow> int" where
  "toupper c = (if 97 \<le> c \<and> c \<le> 122 then c - 32 else c)"

definition sdstolower :: "sds \<Rightarrow> sds option" where
  "sdstolower s = map_option (\<lambda>b. s\<lparr>sds_buf := b\<rparr>)
     (each_char (\<lambda>c. Some (word_of_int (tolower (sint c)))) (sds_buf s) 0 (nat (to_int32 (int (sdslen s)))))"

definition sdstoupper :: "sds \<Rightarrow> sds option" where
  "sdstoupper s = map_option (\<lambda>b. s\<lparr>sds_buf := b\<rparr>)
     (each_char (\<lambda>c. Some (word_of_int (toupper (sint c)))) (sds_buf s) 0 (nat (to_int32 (int (sdslen s)))))"

fun map_char :: "bytes \<Rightarrow> bytes \<Rightarrow> nat \<Rightarrow> byte \<Rightarrow> byte option" where
  "map_char from to 0 c = Some c"
| "map_char from to (Suc k) c = do {
     f \<leftarrow> mem_get from 0;
     if c = f then mem_get to 0 else map_char (drop 1 from) (drop 1 to) k c
   }"

definition sdsmapchars :: "sds \<Rightarrow> bytes \<Rightarrow> bytes \<Rightarrow> nat \<Rightarrow> sds option" where
  "sdsmapchars s from to setlen = map_option (\<lambda>b. s\<lparr>sds_buf := b\<rparr>)
     (each_char (map_char from to setlen) (sds_buf s) 0 (sdslen s))"

subsection \<open>Splitting and joining\<close>

text \<open>\<open>tokens\<close> is the filled part of an array of \<open>slots\<close> elements; a store behind it is a fault.  The outer \<open>None\<close> is a fault,
  the inner one a \<open>NULL\<close> result.\<close>

definition push_token :: "nat \<Rightarrow> sds list \<Rightarrow> bytes \<Rightarrow> nat \<Rightarrow> nat \<Rightarrow> sds list option" where
  "push_token slots tokens s start n = do {
     c_assert (length tokens < slots);
     tok \<leftarrow> sdsnewlen (Some (drop start s)) n;
     Some (tokens @ [tok])
   }"

definition sep_at :: "bytes \<Rightarrow> bytes \<Rightarrow> nat \<Rightarrow> nat \<Rightarrow> bool option" where
  "sep_at s sep seplen j = do {
     w \<leftarrow> mem_read s j seplen;
     x \<leftarrow> mem_read sep 0 seplen;
     Some ((seplen = 1 \<and> w ! 0 = x ! 0) \<or> c_memcmp w x = 0)
   }"

function splitlen_loop :: "bytes \<Rightarrow> nat \<Rightarrow> bytes \<Rightarrow> nat \<Rightarrow> nat \<Rightarrow> sds list \<Rightarrow> nat \<Rightarrow> nat \<Rightarrow> (nat \<times> sds list \<times> nat) option" where
  "splitlen_loop s n sep seplen slots tokens start j =
     (if j < n - (seplen - 1) then
        let slots = (if slots < length tokens + 2 then slots * 2 else slots) in
        Option.bind (sep_at s sep seplen j) (\<lambda>hit.
          if hit then Option.bind (push_token slots tokens s start (j - start)) (\<lambda>tokens.
            splitlen_loop s n sep seplen slots tokens (j + seplen) (j + (seplen - 1) + 1))
          else splitlen_loop s n sep seplen slots tokens start (j + 1))
      else Some (slots, tokens, start))"
  by pat_completeness auto
termination
  by (relation "measure (\<lambda>(s, n, sep, seplen, slots, tokens, start, j). n - j)") auto

declare splitlen_loop.simps [simp del]

definition sdssplitlen :: "bytes \<Rightarrow> int \<Rightarrow> bytes \<Rightarrow> int \<Rightarrow> sds list option option" where
  "sdssplitlen s n sep seplen =
     (if seplen < 1 \<or> n < 0 then Some None
      else if n = 0 then Some (Some [])
      else do {
        (slots, tokens, start) \<leftarrow> splitlen_loop s (nat n) sep (nat seplen) 5 [] 0 0;
        tokens \<leftarrow> push_token slots tokens s start (nat n - start);
        Some (Some tokens)
      })"

fun join_loop :: "sds \<Rightarrow> bytes list \<Rightarrow> bytes \<Rightarrow> sds option" where
  "join_loop join [] sep = Some join"
| "join_loop join (a # argv) sep = do {
     join \<leftarrow> sdscat join a;
     join \<leftarrow> (if argv \<noteq> [] then sdscat join sep else Some join);
     join_loop join argv sep
   }"

definition sdsjoin :: "bytes list \<Rightarrow> bytes \<Rightarrow> sds option" where
  "sdsjoin argv sep = do { join \<leftarrow> sdsempty; join_loop join argv sep }"

fun joinsds_loop :: "sds \<Rightarrow> sds list \<Rightarrow> bytes \<Rightarrow> nat \<Rightarrow> sds option" where
  "joinsds_loop join [] sep seplen = Some join"
| "joinsds_loop join (a # argv) sep seplen = do {
     join \<leftarrow> sdscatsds join a;
     join \<leftarrow> (if argv \<noteq> [] then sdscatlen join sep seplen else Some join);
     joinsds_loop join argv sep seplen
   }"

definition sdsjoinsds :: "sds list \<Rightarrow> bytes \<Rightarrow> nat \<Rightarrow> sds option" where
  "sdsjoinsds argv sep seplen = do { join \<leftarrow> sdsempty; joinsds_loop join argv sep seplen }"

subsection \<open>Quoting\<close>

definition c_isprint :: "byte \<Rightarrow> bool" where
  "c_isprint c \<longleftrightarrow> 32 \<le> c \<and> c \<le> 126"

definition c_isspace :: "byte \<Rightarrow> bool" where
  "c_isspace c \<longleftrightarrow> c = 32 \<or> (9 \<le> c \<and> c \<le> 13)"

text \<open>One digit of \<open>%02x\<close>.\<close>

definition hex_char :: "nat \<Rightarrow> byte" where
  "hex_char d = (if d < 10 then 48 + of_nat d else 87 + of_nat d)"

definition repr_char :: "sds \<Rightarrow> byte \<Rightarrow> sds option" where
  "repr_char s c =
     (if c = 92 \<or> c = 34 then sdscatprintf s [92, 37, 99] [92, c]
      else if c = 10 then sdscatlen s [92, 110] 2
      else if c = 13 then sdscatlen s [92, 114] 2
      else if c = 9 then sdscatlen s [92, 116] 2
      else if c = 7 then sdscatlen s [92, 97] 2
      else if c = 8 then sdscatlen s [92, 98] 2
      else if c_isprint c then sdscatprintf s [37, 99] [c]
      else sdscatprintf s [92, 120, 37, 48, 50, 120] [92, 120, hex_char (unat c div 16), hex_char (unat c mod 16)])"

fun repr_loop :: "sds \<Rightarrow> bytes \<Rightarrow> nat \<Rightarrow> sds option" where
  "repr_loop s p 0 = Some s"
| "repr_loop s [] (Suc n) = None"
| "repr_loop s (c # p) (Suc n) = do { s \<leftarrow> repr_char s c; repr_loop s p n }"

definition sdscatrepr :: "sds \<Rightarrow> bytes \<Rightarrow> nat \<Rightarrow> sds option" where
  "sdscatrepr s p n = do {
     s \<leftarrow> sdscatlen s [34] 1;
     s \<leftarrow> repr_loop s p n;
     sdscatlen s [34] 1
   }"

definition is_hex_digit :: "byte \<Rightarrow> bool" where
  "is_hex_digit c \<longleftrightarrow> (48 \<le> c \<and> c \<le> 57) \<or> (97 \<le> c \<and> c \<le> 102) \<or> (65 \<le> c \<and> c \<le> 70)"

definition hex_digit_to_int :: "byte \<Rightarrow> nat" where
  "hex_digit_to_int c =
     (if 48 \<le> c \<and> c \<le> 57 then unat c - 48
      else if 97 \<le> c \<and> c \<le> 102 then unat c - 87
      else if 65 \<le> c \<and> c \<le> 70 then unat c - 55
      else 0)"

text \<open>The first condition of the quoted mode, with the reads in the order of its conjuncts: \<open>p\<close> is at \<open>c\<close>, \<open>q\<close> is the rest.\<close>

definition hex_escape :: "byte \<Rightarrow> bytes \<Rightarrow> bool option" where
  "hex_escape c q =
     (if c \<noteq> 92 then Some False
      else do {
        x \<leftarrow> mem_get q 0;
        if x \<noteq> 120 then Some False
        else do {
          h \<leftarrow> mem_get q 1;
          if \<not> is_hex_digit h then Some False
          else do { l \<leftarrow> mem_get q 2; Some (is_hex_digit l) }
        }
      })"

definition unescape :: "byte \<Rightarrow> byte" where
  "unescape c = (if c = 110 then 10 else if c = 114 then 13 else if c = 116 then 9 else if c = 98 then 8
     else if c = 97 then 7 else c)"

text \<open>\<open>*(p+1) && !isspace(*(p+1))\<close>: a closing quote in the middle of a word.\<close>

definition bad_close :: "bytes \<Rightarrow> bool option" where
  "bad_close q = do { x \<leftarrow> mem_get q 0; Some (x \<noteq> 0 \<and> \<not> c_isspace x) }"

text \<open>\<open>*p == c && *(p+1) ...\<close> where the second read only happens after the first test.\<close>

definition next_is :: "bool \<Rightarrow> (byte \<Rightarrow> bool) \<Rightarrow> bytes \<Rightarrow> bool option" where
  "next_is b P q = (if b then map_option P (mem_get q 0) else Some False)"

fun split_token :: "sds \<Rightarrow> bool \<Rightarrow> bool \<Rightarrow> bytes \<Rightarrow> (sds \<times> bytes) option option" where
  "split_token cur inq insq [] = None"
| "split_token cur inq insq (c # q) =
     (if inq then
        Option.bind (hex_escape c q) (\<lambda>hex.
        Option.bind (next_is (c = 92) (\<lambda>x. x \<noteq> 0) q) (\<lambda>esc.
          if hex then
            Option.bind (mem_get q 1) (\<lambda>h.
            Option.bind (mem_get q 2) (\<lambda>l.
            Option.bind (sdscatlen cur [of_nat (hex_digit_to_int h * 16 + hex_digit_to_int l)] 1) (\<lambda>cur.
              split_token cur inq insq (drop 3 q))))
          else if esc then
            Option.bind (mem_get q 0) (\<lambda>x.
            Option.bind (sdscatlen cur [unescape x] 1) (\<lambda>cur. split_token cur inq insq (drop 1 q)))
          else if c = 34 then
            Option.bind (bad_close q) (\<lambda>bad. if bad then Some None else Some (Some (cur, q)))
          else if c = 0 then Some None
          else Option.bind (sdscatlen cur (c # q) 1) (\<lambda>cur. split_token cur inq insq q)))
      else if insq then
        Option.bind (next_is (c = 92) (\<lambda>x. x = 39) q) (\<lambda>esc.
          if esc then Option.bind (sdscatlen cur [39] 1) (\<lambda>cur. split_token cur inq insq (drop 1 q))
          else if c = 39 then
            Option.bind (bad_close q) (\<lambda>bad. if bad then Some None else Some (Some (cur, q)))
          else if c = 0 then Some None
          else Option.bind (sdscatlen cur (c # q) 1) (\<lambda>cur. split_token cur inq insq q))
      else if c = 32 \<or> c = 10 \<or> c = 13 \<or> c = 9 then Some (Some (cur, q))
      else if c = 0 then Some (Some (cur, c # q))
      else if c = 34 then split_token cur True insq q
      else if c = 39 then split_token cur inq True q
      else Option.bind (sdscatlen cur (c # q) 1) (\<lambda>cur. split_token cur inq insq q))"

fun skip_blanks :: "bytes \<Rightarrow> bytes" where
  "skip_blanks (c # p) = (if c \<noteq> 0 \<and> c_isspace c then skip_blanks p else c # p)"
| "skip_blanks [] = []"

lemma split_token_shrinks:
  "split_token cur inq insq p = Some (Some (cur', r)) \<Longrightarrow>
   length r \<le> length p \<and> (inq \<or> insq \<or> (p \<noteq> [] \<and> hd p \<noteq> 0) \<longrightarrow> length r < length p)"
proof (induction "length p" arbitrary: cur inq insq p rule: less_induct)
  case less
  show ?case
  proof (cases p)
    case (Cons c q)
    have ih: "length r \<le> length q" if "split_token a b d p' = Some (Some (cur', r))" "length p' \<le> length q" for a b d p'
      using less(1) [OF _ that(1)] that(2) Cons by fastforce
    have dr: "length r \<le> length q" if "split_token a b d (drop k q) = Some (Some (cur', r))" for a b d k
      using ih [OF that] by simp
    consider "inq" | "\<not> inq" "insq" | "\<not> inq" "\<not> insq" by blast
    then show ?thesis
    proof cases
      case 1
      show ?thesis using less(2) unfolding Cons split_token.simps bind_eq_Some_conv if_P [OF 1]
        by (elim exE conjE) (auto simp: bind_eq_Some_conv split: if_splits dest!: dr ih)
    next
      case 2
      then show ?thesis using less(2) Cons by (auto simp: bind_eq_Some_conv split: if_splits dest!: dr ih)
    next
      case 3
      then show ?thesis using less(2) Cons by (auto simp: bind_eq_Some_conv split: if_splits dest!: dr ih)
    qed
  qed (use less(2) in simp)
qed

lemma skip_blanks_shrinks: "length (skip_blanks p) \<le> length p"
  by (induction p rule: skip_blanks.induct) auto

function splitargs_loop :: "sds list \<Rightarrow> bytes \<Rightarrow> sds list option option" where
  "splitargs_loop vec p =
     (case skip_blanks p of [] \<Rightarrow> None
      | c # q \<Rightarrow>
        if c \<noteq> 0 then
          Option.bind sdsempty (\<lambda>cur.
          Option.bind (split_token cur False False (c # q)) (\<lambda>r.
            case r of None \<Rightarrow> Some None | Some (cur, p) \<Rightarrow> splitargs_loop (vec @ [cur]) p))
        else Some (Some vec))"
  by pat_completeness auto
termination
proof (relation "measure (\<lambda>(vec, p). length p)", goal_cases)
  case (2 vec p c q cur r rr cur' p')
  then show ?case
    using split_token_shrinks [of cur False False "c # q" cur' p'] skip_blanks_shrinks [of p] by auto
qed simp

declare splitargs_loop.simps [simp del]

definition sdssplitargs :: "bytes \<Rightarrow> sds list option option" where
  "sdssplitargs line = splitargs_loop [] line"

section \<open>Integers\<close>

lemma str_digits_exact:
  "length (dec v) \<le> length post \<Longrightarrow>
   str_digits (pre @ post) (length pre) v = Some (pre @ rev (dec v) @ drop (length (dec v)) post, length pre + length (dec v))"
proof (induction v arbitrary: pre post rule: less_induct)
  case (less v)
  have "post \<noteq> []" using less.prems length_dec_pos [of v] by auto
  then obtain x ys where post: "post = x # ys" by (cases post) auto
  let ?d = "48 + of_nat (v mod 10) :: byte"
  have w: "mem_set (pre @ post) (length pre) ?d = Some ((pre @ [?d]) @ ys)" by (simp add: post mem_simps)
  show ?case
  proof (cases "v < 10")
    case True
    then show ?thesis using w by (subst str_digits.simps) (simp add: dec_small post)
  next
    case False
    then have v: "v div 10 \<noteq> 0" "v div 10 < v" "dec v = dec (v div 10) @ [?d]" by (auto simp: dec_step)
    have ih: "str_digits ((pre @ [?d]) @ ys) (length (pre @ [?d])) (v div 10) =
        Some ((pre @ [?d]) @ rev (dec (v div 10)) @ drop (length (dec (v div 10))) ys, length (pre @ [?d]) + length (dec (v div 10)))"
      by (rule less.IH [OF v(2)]) (use less.prems v(3) post in simp)
    have "str_digits (pre @ post) (length pre) v = str_digits ((pre @ [?d]) @ ys) (length (pre @ [?d])) (v div 10)"
      by (subst str_digits.simps) (simp only: w Option.bind.bind_lunit if_P [OF v(1)], simp)
    then show ?thesis unfolding ih v(3) by (simp add: post)
  qed
qed

lemma str_reverse_exact:
  "str_reverse (pre @ xs @ post) (length pre) (length pre + length xs - 1) = Some (pre @ rev xs @ post)"
proof (induction "length xs" arbitrary: pre xs post rule: less_induct)
  case less
  show ?case
  proof (cases "length xs \<le> 1")
    case True
    then have "rev xs = xs" by (cases xs) auto
    moreover have "\<not> length pre < length pre + length xs - 1" using True by simp
    ultimately show ?thesis by (subst str_reverse.simps) (simp only: if_False)
  next
    case False
    then obtain x zs where "xs = x # zs" "zs \<noteq> []" by (cases xs) auto
    then obtain y ys where xs: "xs = x # ys @ [y]" by (metis rev_exhaust)
    let ?p = "length pre + length xs - 1"
    have p: "?p = length (pre @ x # ys)" by (simp add: xs)
    have r1: "mem_get (pre @ xs @ post) (length pre) = Some x" "mem_get (pre @ xs @ post) ?p = Some y"
      unfolding p by (simp_all add: xs mem_get_def nth_append)
    have w1: "mem_set (pre @ xs @ post) (length pre) y = Some (pre @ (y # ys @ [y]) @ post)"
      by (simp add: xs mem_set_def list_update_append)
    have w2: "mem_set (pre @ (y # ys @ [y]) @ post) ?p x = Some ((pre @ [y]) @ ys @ x # post)"
      unfolding p by (simp add: mem_set_def list_update_append)
    have lt: "length pre < ?p" "?p - 1 = length (pre @ [y]) + length ys - 1" "length pre + 1 = length (pre @ [y])" by (simp_all add: xs)
    have ih: "str_reverse ((pre @ [y]) @ ys @ x # post) (length (pre @ [y])) (length (pre @ [y]) + length ys - 1) =
        Some ((pre @ [y]) @ rev ys @ x # post)"
      by (rule less) (simp add: xs)
    have "str_reverse (pre @ xs @ post) (length pre) ?p =
        str_reverse ((pre @ [y]) @ ys @ x # post) (length (pre @ [y])) (length (pre @ [y]) + length ys - 1)"
      by (subst str_reverse.simps) (simp only: if_P [OF lt(1)] r1 w1 w2 Option.bind.bind_lunit lt(2,3))
    then show ?thesis unfolding ih by (simp add: xs)
  qed
qed

lemma reverse_front:
  "length xs > 0 \<Longrightarrow> str_reverse (xs @ post) 0 (length xs - 1) = Some (rev xs @ post)"
  using str_reverse_exact [of "[]" xs post] by simp

lemma put_behind:
  "length xs < length b \<Longrightarrow> mem_set (xs @ drop (length xs) b) (length xs) c = Some (xs @ c # drop (length xs + 1) b)"
  by (simp add: mem_set_def list_update_append Cons_nth_drop_Suc [symmetric])

lemma sdsull2str_exact:
  assumes "length (dec v) < length b"
  shows "sdsull2str b v = Some (dec v @ 0 # drop (length (dec v) + 1) b, length (dec v))"
proof -
  have "str_digits b 0 v = Some (rev (dec v) @ drop (length (rev (dec v))) b, length (rev (dec v)))"
    using str_digits_exact [of v b "[]"] assms by simp
  then show ?thesis
    using put_behind [of "rev (dec v)" b] reverse_front [of "rev (dec v)" "0 # drop (length (dec v) + 1) b"] assms
    unfolding sdsull2str_def by simp
qed

lemma sdsll2str_exact:
  assumes "int64_range val" "length (idec val) < length b"
  shows "sdsll2str b val = Some (idec val @ 0 # drop (length (idec val) + 1) b, length (idec val))"
proof -
  define v where "v = abs64 val"
  have v: "nat ((if val < 0 then - val else val) mod 2 ^ 64) = v"
    using assms(1) by (auto simp: v_def abs64_def int64_range_def)
  have i: "idec val = (if val < 0 then [45] else []) @ dec v" by (simp add: idec_abs64 v_def)
  have d: "str_digits b 0 v = Some (rev (dec v) @ drop (length (dec v)) b, length (dec v))"
    using str_digits_exact [of v b "[]"] assms(2) i by simp
  have m: "(if val < 0 then do { s \<leftarrow> mem_set (rev (dec v) @ drop (length (dec v)) b) (length (dec v)) 45; Some (s, length (dec v) + 1) }
      else Some (rev (dec v) @ drop (length (dec v)) b, length (dec v))) =
    Some (rev (idec val) @ drop (length (rev (idec val))) b, length (rev (idec val)))"
    using put_behind [of "rev (dec v)" b 45] assms(2) by (simp add: i)
  have nz: "0 < length (rev (idec val))" by (simp add: i)
  show ?thesis
    unfolding sdsll2str_def v Let_def d Option.bind.bind_lunit prod.case m
    using put_behind [of "rev (idec val)" b] reverse_front [OF nz, of "0 # drop (length (idec val) + 1) b"] assms(2)
    by simp
qed

lemma length_dec_64: "v < 2 ^ 64 \<Longrightarrow> length (dec v) \<le> 20"
  by (rule length_dec_le) auto

lemma sdsfromlonglong_exact:
  assumes "int64_range val"
  shows "\<exists>s. sdsfromlonglong val = Some s \<and> sds_ok s \<and> sds_str s = idec val"
proof -
  have l: "length (idec val) \<le> 20" using length_idec_le [OF assms] .
  let ?b = "idec val @ 0 # drop (length (idec val) + 1) (replicate SDS_LLSTR_SIZE 0)"
  have "sdsll2str (replicate SDS_LLSTR_SIZE 0) val = Some (?b, length (idec val))"
    using sdsll2str_exact [OF assms, of "replicate SDS_LLSTR_SIZE 0"] l by (simp add: SDS_LLSTR_SIZE_def)
  moreover obtain s where "sdsnewlen (Some ?b) (length (idec val)) = Some s" "sds_ok s" "sds_str s = take (length (idec val)) ?b"
    using sdsnewlen_exact [of "length (idec val)" "Some ?b"] l by auto
  ultimately show ?thesis by (simp add: sdsfromlonglong_def)
qed

section \<open>Formatting\<close>

lemma vprintf_loop_exact:
  assumes "0 \<notin> set outp" "2 \<le> length buf"
  shows "\<exists>buf'. vprintf_loop buf outp = Some buf' \<and> takeWhile (\<lambda>c. c \<noteq> 0) buf' = outp"
  using assms
proof (induction buf outp rule: vprintf_loop.induct)
  case (1 buf outp)
  define x where "x = c_snprintf (buf[length buf - 2 := 0]) outp"
  have lx: "length x = length buf" using 1(3) length_snprintf [of "buf[length buf - 2 := 0]" outp] by (fastforce simp: x_def)
  show ?case
  proof (cases "x ! (length x - 2) \<noteq> 0")
    case True
    have "vprintf_loop buf outp = vprintf_loop (replicate (length x * 2) 0) outp"
      using True 1(3) by (subst vprintf_loop.simps) (simp add: Let_def x_def)
    then show ?thesis using 1(1) [OF _ x_def True 1(2)] 1(3) lx by simp
  next
    case False
    have short: "length outp \<le> length buf - 2"
    proof (rule ccontr)
      assume c: "\<not> length outp \<le> length buf - 2"
      have lt: "length buf - 2 < length buf - Suc 0" using 1(3) by simp
      have "x ! (length buf - 2) = take (length buf - 1) outp ! (length buf - 2)"
        using c lt unfolding x_def c_snprintf_def Let_def by (simp add: nth_append)
      then have "x ! (length x - 2) = outp ! (length x - 2)" using 1(3) lx by simp
      moreover have "outp ! (length x - 2) \<in> set outp" using c lx by simp
      ultimately show False using False 1(2) by auto
    qed
    have "\<forall>c \<in> set outp. c \<noteq> 0" using 1(2) by metis
    then have "takeWhile (\<lambda>c. c \<noteq> 0) x = outp"
      using short 1(3) by (simp add: x_def c_snprintf_def Let_def takeWhile_append2)
    then show ?thesis using False 1(3) by (subst vprintf_loop.simps) (simp add: Let_def x_def)
  qed
qed

lemma sdscatprintf_rep:
  assumes "sds_rep s xs" "0 \<notin> set outp" "length xs + length outp < 2 ^ 62"
  shows "\<exists>s'. sdscatprintf s fmt outp = Some s' \<and> sds_rep s' (xs @ outp)"
proof -
  obtain buf where buf: "vprintf_loop (replicate (if c_strlen fmt * 2 > 1024 then c_strlen fmt * 2 else 1024) 0) outp = Some buf"
    "takeWhile (\<lambda>c. c \<noteq> 0) buf = outp"
  proof -
    have "2 \<le> length (replicate (if c_strlen fmt * 2 > 1024 then c_strlen fmt * 2 else 1024) (0 :: byte))" by simp
    from vprintf_loop_exact [OF assms(2) this] that show ?thesis by blast
  qed
  then show ?thesis
    using sdscat_rep [OF assms(1), of buf] assms(3)
    unfolding sdscatprintf_def sdscatvprintf_def Let_def buf(1) by (simp add: c_strlen_def [of buf])
qed

text \<open>The reference rendering of a format: what each directive contributes, \<open>None\<close> where the arguments do not fit
  or the format ends in a single percent sign.\<close>

fun render_arg :: "byte \<Rightarrow> va_arg list \<Rightarrow> (bytes \<times> va_arg list) option" where
  "render_arg nxt ap =
     (if nxt \<notin> {115, 83, 105, 73, 117, 85} then Some ([nxt], ap)
      else case ap of
        [] \<Rightarrow> None
      | a # ap \<Rightarrow>
        (case a of
           VaStr str \<Rightarrow> if nxt = 115 then Some (takeWhile (\<lambda>c. c \<noteq> 0) str, ap) else None
         | VaSds str \<Rightarrow> if nxt = 83 then Some (sds_str str, ap) else None
         | VaInt num \<Rightarrow> if nxt = 105 then Some (idec num, ap) else None
         | VaLong num \<Rightarrow> if nxt = 73 then Some (idec num, ap) else None
         | VaUInt num \<Rightarrow> if nxt = 117 then Some (dec num, ap) else None
         | VaULong num \<Rightarrow> if nxt = 85 then Some (dec num, ap) else None))"

fun render :: "bytes \<Rightarrow> va_arg list \<Rightarrow> bytes option" where
  "render [] ap = None"
| "render (c # f) ap =
     (if c = 0 then Some []
      else if c = 37 then
        (case f of [] \<Rightarrow> None
         | nxt # f' \<Rightarrow> Option.bind (render_arg nxt ap) (\<lambda>(xs, ap). map_option (append xs) (render f' ap)))
      else map_option (Cons c) (render f ap))"

text \<open>Arguments of their C types.\<close>

fun va_ok :: "va_arg \<Rightarrow> bool" where
  "va_ok (VaStr str) = True"
| "va_ok (VaSds str) = sds_ok str"
| "va_ok (VaInt num) = (- (2 ^ 31) \<le> num \<and> num < 2 ^ 31)"
| "va_ok (VaLong num) = int64_range num"
| "va_ok (VaUInt num) = (num < 2 ^ 32)"
| "va_ok (VaULong num) = (num < 2 ^ 64)"

lemma sds_str_length: "sds_fit s \<Longrightarrow> length (sds_str s) = sdslen s"
  by (simp add: sds_fit_def sds_str_def)

lemma fmt_put_fit:
  assumes "sds_fit s" "1 \<le> sdsavail s" "length xs \<le> sdsavail s"
  shows "\<exists>s'. fmt_put s (int (sdslen s)) xs = Some s' \<and> sds_fit s' \<and> sds_str s' = sds_str s @ xs \<and> sdslen s' = sdslen s + length xs"
proof -
  define n where "n = sdslen s"
  have t: "sds_type s \<noteq> 0" "sds_type s \<le> 4" using assms(1,2) by (auto simp: sdsavail_def sds_fit_def sds_types split: if_splits)
  have n: "hdr_len s = n" "n + length xs \<le> hdr_alloc s" "hdr_alloc s < hdr_lim (sds_type s)" "hdr_alloc s < length (sds_buf s)"
    using assms t by (auto simp: n_def sdsavail_def sds_fit_def sdslen_def sdsalloc_def sds_types)
  let ?b = "take n (sds_buf s) @ xs @ drop (n + length xs) (sds_buf s)"
  let ?s = "sdsinclen (s\<lparr>sds_buf := ?b\<rparr>) (length xs)"
  have w: "fmt_put s (int n) xs = Some ?s"
    using n by (simp add: fmt_put_def buf_write_def mem_write_def)
  have s: "?s = s\<lparr>sds_buf := ?b, hdr_len := n + length xs\<rparr>"
    using t n by (simp add: sdsinclen_def sds_types)
  have l: "sdslen ?s = n + length xs" using t by (simp add: s sdslen_def sds_types)
  moreover have "sds_fit ?s" using n t by (simp add: s sds_fit_def sdslen_def sdsalloc_def sds_types)
  moreover have "sds_str ?s = sds_str s @ xs" using n l by (simp add: sds_str_def n_def [symmetric]) (simp add: s)
  ultimately show ?thesis using w by (simp add: n_def)
qed

lemma fmt_arg_fit:
  assumes "sds_fit s" "1 \<le> sdsavail s" "l \<le> length str" "sdslen s + l < 2 ^ 31"
  shows "\<exists>s'. fmt_arg s (int (sdslen s)) str l = Some (s', int (sdslen s + l)) \<and> sds_fit s' \<and>
    sds_str s' = sds_str s @ take l str \<and> sdslen s' = sdslen s + l"
proof -
  obtain s1 where s1: "fmt_room s l = Some s1" "sds_fit s1" "sds_str s1 = sds_str s" "sdslen s1 = sdslen s" "l \<le> sdsavail s1" "1 \<le> sdsavail s1"
  proof (cases "sdsavail s < l")
    case True
    then show ?thesis
      using sdsMakeRoomFor_fit [OF assms(1), of l] assms(2,4) that by (fastforce simp: fmt_room_def)
  qed (use assms that in \<open>auto simp: fmt_room_def\<close>)
  obtain s2 where "fmt_put s1 (int (sdslen s)) (take l str) = Some s2" "sds_fit s2" "sds_str s2 = sds_str s @ take l str" "sdslen s2 = sdslen s + l"
    using fmt_put_fit [OF s1(2,6), of "take l str"] s1 assms(3) by auto
  moreover have "to_int32 (int (sdslen s) + int l) = int (sdslen s + l)"
    using assms(4) by (subst to_int32_id) auto
  ultimately show ?thesis using s1(1) assms(3) by (simp add: fmt_arg_def mem_read_def)
qed

lemma fmt_char_fit:
  assumes "sds_fit s" "1 \<le> sdsavail s" "sdslen s + 1 < 2 ^ 31"
  shows "\<exists>s'. fmt_char s (int (sdslen s)) c = Some (s', int (sdslen s + 1)) \<and> sds_fit s' \<and>
    sds_str s' = sds_str s @ [c] \<and> sdslen s' = sdslen s + 1"
proof -
  have "to_int32 (int (sdslen s) + 1) = int (sdslen s + 1)" using assms(3) by (subst to_int32_id) auto
  then show ?thesis using fmt_put_fit [OF assms(1,2), of "[c]"] assms(2) by (auto simp: fmt_char_def)
qed

lemma llstr_num:
  assumes "int64_range num"
  shows "\<exists>buf. sdsll2str (replicate SDS_LLSTR_SIZE 0) num = Some (buf, length (idec num)) \<and>
    length (idec num) \<le> length buf \<and> take (length (idec num)) buf = idec num"
  using sdsll2str_exact [OF assms, of "replicate SDS_LLSTR_SIZE 0"] length_idec_le [OF assms] by (simp add: SDS_LLSTR_SIZE_def)

lemma ullstr_num:
  assumes "num < 2 ^ 64"
  shows "\<exists>buf. sdsull2str (replicate SDS_LLSTR_SIZE 0) num = Some (buf, length (dec num)) \<and>
    length (dec num) \<le> length buf \<and> take (length (dec num)) buf = dec num"
  using sdsull2str_exact [of num "replicate SDS_LLSTR_SIZE 0"] length_dec_64 [OF assms] by (simp add: SDS_LLSTR_SIZE_def)

lemma takeWhile_strlen: "take (c_strlen str) str = takeWhile (\<lambda>c. c \<noteq> 0) str" "c_strlen str \<le> length str"
  "length (takeWhile (\<lambda>c. c \<noteq> 0) str) = c_strlen str"
  by (metis c_strlen_def takeWhile_eq_take) (simp_all add: c_strlen_def length_takeWhile_le)

lemma fmt_spec_fit:
  assumes "sds_fit s" "1 \<le> sdsavail s" "render_arg nxt ap = Some (ys, ap')" "list_all va_ok ap" "sdslen s + length ys < 2 ^ 31"
  shows "\<exists>s'. fmt_spec s (int (sdslen s)) nxt ap = Some (s', int (sdslen s + length ys), ap') \<and> sds_fit s' \<and>
    sds_str s' = sds_str s @ ys \<and> sdslen s' = sdslen s + length ys \<and> list_all va_ok ap'"
proof (cases "nxt \<in> {115, 83, 105, 73, 117, 85}")
  case False
  then show ?thesis using fmt_char_fit [OF assms(1,2), of nxt] assms(3,4,5) by (auto simp: fmt_spec_def)
next
  case True
  then obtain a as where ap: "ap = a # as" using assms(3) by (cases ap) auto
  have arg: "\<exists>s'. fmt_arg s (int (sdslen s)) str l = Some (s', int (sdslen s + l)) \<and> sds_fit s' \<and>
      sds_str s' = sds_str s @ ys \<and> sdslen s' = sdslen s + l"
    if "l \<le> length str" "take l str = ys" "l = length ys" for str l
    using fmt_arg_fit [OF assms(1,2) that(1)] assms(5) that(2,3) by auto
  have i64: "int64_range num" if "- (2 ^ 31) \<le> num" "num < 2 ^ 31" for num
    using that by (auto simp: int64_range_def)
  show ?thesis
  proof (cases a)
    case (VaStr str)
    have "nxt = 115" "ys = takeWhile (\<lambda>c. c \<noteq> 0) str" "ap' = as" using assms(3) True VaStr ap by (auto split: if_splits)
    moreover have "\<exists>s'. fmt_arg s (int (sdslen s)) str (c_strlen str) = Some (s', int (sdslen s + length ys)) \<and> sds_fit s' \<and>
        sds_str s' = sds_str s @ ys \<and> sdslen s' = sdslen s + length ys"
      using arg [OF takeWhile_strlen(2)] takeWhile_strlen(1,3) [of str] \<open>ys = _\<close> by metis
    ultimately show ?thesis using VaStr ap assms(4) by (auto simp: fmt_spec_def)
  next
    case (VaSds str)
    have "sds_ok str" using VaSds assms(4) ap by simp
    then have l: "sdslen str \<le> length (sds_buf str)" "take (sdslen str) (sds_buf str) = sds_str str" "sdslen str = length (sds_str str)"
      by (simp_all add: length_sds_str) (simp_all add: sds_ok_def sds_str_def)
    have "nxt = 83" "ys = sds_str str" "ap' = as" using assms(3) True VaSds ap by (auto split: if_splits)
    then show ?thesis using arg [OF l(1)] l(2,3) VaSds ap assms(4) by (auto simp: fmt_spec_def)
  next
    case (VaInt num)
    then show ?thesis
      using True assms(3,4) ap arg [of "length (idec num)"] llstr_num [OF i64, of num] by (auto simp: fmt_spec_def split: if_splits)
  next
    case (VaLong num)
    then show ?thesis
      using True assms(3,4) ap arg [of "length (idec num)"] llstr_num [of num] by (auto simp: fmt_spec_def split: if_splits)
  next
    case (VaUInt num)
    then show ?thesis
      using True assms(3,4) ap arg [of "length (dec num)"] ullstr_num [of num] by (auto simp: fmt_spec_def split: if_splits)
  next
    case (VaULong num)
    then show ?thesis
      using True assms(3,4) ap arg [of "length (dec num)"] ullstr_num [of num] by (auto simp: fmt_spec_def split: if_splits)
  qed
qed

lemma fmt_loop_fit:
  "sds_fit s \<Longrightarrow> render f ap = Some ys \<Longrightarrow> list_all va_ok ap \<Longrightarrow> sdslen s + length ys < 2 ^ 31 \<Longrightarrow>
   \<exists>s'. fmt_loop s (int (sdslen s)) ap f = Some (s', int (sdslen s + length ys)) \<and> sds_fit s' \<and> sds_str s' = sds_str s @ ys"
proof (induction f ap arbitrary: s ys rule: render.induct)
  case (2 c f ap)
  show ?case
  proof (cases "c = 0")
    case False
    obtain s1 where s1: "(if sdsavail s = 0 then sdsMakeRoomFor s 1 else Some s) = Some s1" "sds_fit s1" "sds_str s1 = sds_str s"
      "sdslen s1 = sdslen s" "1 \<le> sdsavail s1"
    proof (cases "sdsavail s = 0")
      case True
      then show ?thesis using sdsMakeRoomFor_fit [OF 2(3), of 1] 2(6) that by auto
    qed (use 2(3) that in auto)
    show ?thesis
    proof (cases "c = 37")
      case True
      then obtain nxt f' xs ap' zs where r: "f = nxt # f'" "render_arg nxt ap = Some (xs, ap')" "render f' ap' = Some zs" "ys = xs @ zs"
        using 2(4) by (auto simp: bind_eq_Some_conv simp del: render_arg.simps split: list.splits)
      obtain s2 where s2: "fmt_spec s1 (int (sdslen s)) nxt ap = Some (s2, int (sdslen s + length xs), ap')" "sds_fit s2"
        "sds_str s2 = sds_str s @ xs" "sdslen s2 = sdslen s + length xs" "list_all va_ok ap'"
        using fmt_spec_fit [OF s1(2,5) r(2) 2(5)] s1(3,4) 2(6) r(4) by auto
      have "\<exists>s'. fmt_loop s2 (int (sdslen s2)) ap' f' = Some (s', int (sdslen s2 + length zs)) \<and> sds_fit s' \<and> sds_str s' = sds_str s2 @ zs"
        using 2(1) [OF False True r(1) r(2) refl s2(2) r(3) s2(5)] s2(4) 2(6) r(4) by simp
      then show ?thesis using s1(1) s2 r True by (auto simp: add.assoc)
    next
      case no: False
      then obtain zs where r: "render f ap = Some zs" "ys = c # zs" using 2(4) False by auto
      obtain s2 where s2: "fmt_char s1 (int (sdslen s)) c = Some (s2, int (sdslen s + 1))" "sds_fit s2"
        "sds_str s2 = sds_str s @ [c]" "sdslen s2 = sdslen s + 1"
        using fmt_char_fit [OF s1(2,5), of c] s1(3,4) 2(6) r(2) by auto
      have "\<exists>s'. fmt_loop s2 (int (sdslen s2)) ap f = Some (s', int (sdslen s2 + length zs)) \<and> sds_fit s' \<and> sds_str s' = sds_str s2 @ zs"
        using 2(2) [OF False no s2(2) r(1) 2(5)] s2(4) 2(6) r(2) by simp
      then show ?thesis using s1(1) s2 r no False by (auto simp: add_ac)
    qed
  qed (use 2(3-6) in auto)
qed simp

lemma sdscatfmt_rep:
  assumes "sds_rep s xs" "render fmt ap = Some ys" "list_all va_ok ap" "length xs + length ys < 2 ^ 31"
  shows "\<exists>s'. sdscatfmt s fmt ap = Some s' \<and> sds_rep s' (xs @ ys)"
proof -
  have n: "sdslen s = length xs" "sds_fit s" "sds_str s = xs" using assms(1) sds_rep_len by (auto simp: sds_rep_def sds_ok_fit)
  obtain s1 where s1: "fmt_loop s (int (sdslen s)) ap fmt = Some (s1, int (sdslen s + length ys))" "sds_fit s1" "sds_str s1 = xs @ ys"
    using fmt_loop_fit [OF n(2) assms(2,3)] assms(4) n by auto
  have l: "sdslen s1 = sdslen s + length ys" using sds_str_length [OF s1(2)] s1(3) n(1) by simp
  let ?s = "s1\<lparr>sds_buf := (sds_buf s1)[sdslen s1 := 0]\<rparr>"
  have "buf_set s1 (sdslen s1) 0 = Some ?s" using s1(2) by (simp add: buf_set_def mem_set_def sds_fit_def)
  moreover have "sds_rep ?s (xs @ ys)"
    using s1(2,3) by (auto simp: sds_rep_def sds_ok_def sds_fit_def sds_str_def sdslen_def sdsalloc_def sds_types)
  moreover have "to_int32 (int (sdslen s)) = int (sdslen s)" using assms(4) n(1) by (subst to_int32_id) auto
  ultimately show ?thesis using s1(1) l by (simp add: sdscatfmt_def nat_int_add)
qed

section \<open>Characters\<close>

lemma each_char_exact:
  assumes "\<forall>c \<in> set b. f c = Some (g c)" "j + k \<le> length b"
  shows "each_char f b j k = Some (take j b @ map g (take k (drop j b)) @ drop (j + k) b)"
proof -
  have "each_char f (pre @ mid @ post) (length pre) (length mid) = Some (pre @ map g mid @ post)"
    if "\<forall>c \<in> set mid. f c = Some (g c)" for pre mid post
    using that
  proof (induction mid arbitrary: pre)
    case (Cons c mid)
    then show ?case using Cons.IH [of "pre @ [g c]"] by (simp add: mem_simps)
  qed simp
  moreover have "\<forall>c \<in> set (take k (drop j b)). f c = Some (g c)" using assms(1) by (meson in_set_dropD in_set_takeD)
  moreover have "take j b @ take k (drop j b) @ drop (j + k) b = b" by (metis add.commute append_take_drop_id drop_drop)
  moreover have "length (take j b) = j" "length (take k (drop j b)) = k" using assms(2) by simp_all
  ultimately show ?thesis by metis
qed

lemma each_char_rep:
  assumes "sds_rep s xs" "\<And>c. f c = Some (g c)"
  shows "\<exists>s'. map_option (\<lambda>b. s\<lparr>sds_buf := b\<rparr>) (each_char f (sds_buf s) 0 (sdslen s)) = Some s' \<and> sds_rep s' (map g xs)"
proof -
  have l: "sdslen s < length (sds_buf s)" using assms(1) by (simp add: sds_rep_def sds_ok_def)
  let ?b = "map g (take (sdslen s) (sds_buf s)) @ drop (sdslen s) (sds_buf s)"
  have "each_char f (sds_buf s) 0 (sdslen s) = Some ?b"
    using each_char_exact [of "sds_buf s" f g 0 "sdslen s"] l assms(2) by simp
  moreover have "sds_rep (s\<lparr>sds_buf := ?b\<rparr>) (map g xs)"
  proof -
    have "sdslen (s\<lparr>sds_buf := ?b\<rparr>) = sdslen s" "sdsalloc (s\<lparr>sds_buf := ?b\<rparr>) = sdsalloc s" by (simp_all add: sdslen_def sdsalloc_def)
    moreover have "?b ! sdslen s = sds_buf s ! sdslen s" "take (sdslen s) ?b = map g (take (sdslen s) (sds_buf s))"
      using l by (simp_all add: nth_append)
    ultimately show ?thesis using assms(1) l by (auto simp: sds_rep_def sds_ok_def sds_str_def)
  qed
  ultimately show ?thesis by simp
qed

lemma case_rep:
  assumes "sds_rep s xs" "length xs < 2 ^ 31"
  shows "\<exists>s'. sdstolower s = Some s' \<and> sds_rep s' (map (\<lambda>c. word_of_int (tolower (sint c))) xs)"
    "\<exists>s'. sdstoupper s = Some s' \<and> sds_rep s' (map (\<lambda>c. word_of_int (toupper (sint c))) xs)"
proof -
  have "nat (to_int32 (int (sdslen s))) = sdslen s" using assms sds_rep_len [OF assms(1)] by (subst to_int32_id) auto
  then show "\<exists>s'. sdstolower s = Some s' \<and> sds_rep s' (map (\<lambda>c. word_of_int (tolower (sint c))) xs)"
    "\<exists>s'. sdstoupper s = Some s' \<and> sds_rep s' (map (\<lambda>c. word_of_int (toupper (sint c))) xs)"
    using each_char_rep [OF assms(1)] by (simp_all add: sdstolower_def sdstoupper_def)
qed

definition subst_char :: "bytes \<Rightarrow> bytes \<Rightarrow> byte \<Rightarrow> byte" where
  "subst_char from to c = (case map_of (zip from to) c of None \<Rightarrow> c | Some x \<Rightarrow> x)"

lemma map_char_exact:
  "length frm = k \<Longrightarrow> length to = k \<Longrightarrow> map_char frm to k c = Some (subst_char frm to c)"
proof (induction k arbitrary: frm to)
  case (Suc k)
  then obtain f fs t ts where "frm = f # fs" "to = t # ts" by (metis length_Suc_conv)
  then show ?case using Suc by (simp add: subst_char_def mem_get_def)
qed (simp add: subst_char_def)

lemma sdsmapchars_rep:
  assumes "sds_rep s xs" "length from = k" "length to = k"
  shows "\<exists>s'. sdsmapchars s from to k = Some s' \<and> sds_rep s' (map (subst_char from to) xs)"
  using each_char_rep [OF assms(1), of "map_char from to k" "subst_char from to"] map_char_exact [OF assms(2,3)]
  by (simp add: sdsmapchars_def)

section \<open>Sequences of operations\<close>

text \<open>The operations a client can apply to a string, and what they do to its contents.\<close>

datatype sds_op = OCat bytes | OCatInt int | OCpy bytes | OTrim bytes | ORange int int | OGrowZero nat | OClear
  | OMakeRoom nat | ORemoveFree | OLower | OUpper | OMapChars bytes bytes | OCatFmt bytes "va_arg list" | ODup

definition run_sds_op :: "sds \<Rightarrow> sds_op \<Rightarrow> sds option" where
  "run_sds_op s x = (case x of
     OCat t \<Rightarrow> sdscatlen s t (length t)
   | OCatInt v \<Rightarrow> do { t \<leftarrow> sdsfromlonglong v; sdscatsds s t }
   | OCpy t \<Rightarrow> sdscpylen s t (length t)
   | OTrim cs \<Rightarrow> sdstrim s cs
   | ORange a b \<Rightarrow> sdsrange s a b
   | OGrowZero n \<Rightarrow> sdsgrowzero s n
   | OClear \<Rightarrow> sdsclear s
   | OMakeRoom n \<Rightarrow> sdsMakeRoomFor s n
   | ORemoveFree \<Rightarrow> sdsRemoveFreeSpace s
   | OLower \<Rightarrow> sdstolower s
   | OUpper \<Rightarrow> sdstoupper s
   | OMapChars from to \<Rightarrow> sdsmapchars s from to (length from)
   | OCatFmt fmt ap \<Rightarrow> sdscatfmt s fmt ap
   | ODup \<Rightarrow> sdsdup s)"

definition spec_sds_op :: "bytes \<Rightarrow> sds_op \<Rightarrow> bytes" where
  "spec_sds_op xs x = (case x of
     OCat t \<Rightarrow> xs @ t
   | OCatInt v \<Rightarrow> xs @ idec v
   | OCpy t \<Rightarrow> t
   | OTrim cs \<Rightarrow> trimmed cs xs
   | ORange a b \<Rightarrow> sub_range xs a b
   | OGrowZero n \<Rightarrow> xs @ replicate (n - length xs) 0
   | OClear \<Rightarrow> []
   | OMakeRoom n \<Rightarrow> xs
   | ORemoveFree \<Rightarrow> xs
   | OLower \<Rightarrow> map (\<lambda>c. word_of_int (tolower (sint c))) xs
   | OUpper \<Rightarrow> map (\<lambda>c. word_of_int (toupper (sint c))) xs
   | OMapChars from to \<Rightarrow> map (subst_char from to) xs
   | OCatFmt fmt ap \<Rightarrow> (case render fmt ap of None \<Rightarrow> [] | Some ys \<Rightarrow> xs @ ys)
   | ODup \<Rightarrow> xs)"

text \<open>Arguments in the range of their C types, and results that stay below 2 GB.\<close>

definition sds_op_ok :: "bytes \<Rightarrow> sds_op \<Rightarrow> bool" where
  "sds_op_ok xs x \<longleftrightarrow> length (spec_sds_op xs x) < 2 ^ 31 \<and> (case x of
     OCatInt v \<Rightarrow> int64_range v
   | ORange a b \<Rightarrow> - (2 ^ 31) \<le> a \<and> a < 2 ^ 31 \<and> - (2 ^ 31) \<le> b \<and> b < 2 ^ 31
   | OGrowZero n \<Rightarrow> n < 2 ^ 31
   | OMakeRoom n \<Rightarrow> n < 2 ^ 31
   | OMapChars from to \<Rightarrow> length to = length from
   | OCatFmt fmt ap \<Rightarrow> render fmt ap \<noteq> None \<and> list_all va_ok ap
   | _ \<Rightarrow> True)"

lemma run_sds_op_rep:
  assumes "sds_rep s xs" "length xs < 2 ^ 31" "sds_op_ok xs x"
  shows "\<exists>s'. run_sds_op s x = Some s' \<and> sds_rep s' (spec_sds_op xs x)"
proof -
  have ok: "sds_ok s" "sds_str s = xs" and l: "sdslen s = length xs" "sdslen s < 2 ^ 31" "sdslen s < 2 ^ 62" "sdslen s < 2 ^ 63"
    using assms(1,2) sds_rep_len [OF assms(1)] by (auto simp: sds_rep_def)
  note d = run_sds_op_def spec_sds_op_def sds_op_ok_def sds_rep_def
  show ?thesis
  proof (cases x)
    case (OCat t)
    then show ?thesis using sdscatlen_rep [OF assms(1) order_refl, of t] assms(3) by (simp add: run_sds_op_def spec_sds_op_def sds_op_ok_def)
  next
    case (OCatInt v)
    then have v: "int64_range v" "length xs + length (idec v) < 2 ^ 31" using assms(3) by (simp_all add: spec_sds_op_def sds_op_ok_def)
    obtain t where t: "sdsfromlonglong v = Some t" "sds_rep t (idec v)" using sdsfromlonglong_exact [OF v(1)] by (auto simp: sds_rep_def)
    then show ?thesis using sdscatsds_rep [OF assms(1) t(2)] v(2) OCatInt by (simp add: run_sds_op_def spec_sds_op_def)
  next
    case (OCpy t)
    then show ?thesis using sdscpylen_exact [OF ok(1) order_refl l(3), of t] assms(3) by (simp add: d)
  next
    case (OTrim cs)
    then show ?thesis using sdstrim_exact [OF ok(1), of cs] ok(2) by (simp add: d)
  next
    case (ORange a b)
    then show ?thesis using sdsrange_exact [OF ok(1) l(2), of a b] assms(3) ok(2) by (simp add: d)
  next
    case (OGrowZero n)
    then show ?thesis using sdsgrowzero_exact [OF ok(1), of n] assms(3) ok(2) l(1) by (simp add: d)
  next
    case OClear
    then show ?thesis using finish_string [OF ok(1) le0 refl] by (auto simp: d sdsclear_def)
  next
    case (OMakeRoom n)
    then show ?thesis using sdsMakeRoomFor_exact [OF ok(1), of n] assms(3) ok(2) l(2) by (auto simp: d)
  next
    case ORemoveFree
    then show ?thesis using sdsRemoveFreeSpace_exact [OF ok(1) l(4)] ok(2) by (auto simp: d)
  next
    case OLower
    then show ?thesis using case_rep(1) [OF assms(1,2)] by (simp add: run_sds_op_def spec_sds_op_def)
  next
    case OUpper
    then show ?thesis using case_rep(2) [OF assms(1,2)] by (simp add: run_sds_op_def spec_sds_op_def)
  next
    case (OMapChars frm to)
    then show ?thesis using sdsmapchars_rep [OF assms(1) refl, of to frm] assms(3) by (simp add: run_sds_op_def spec_sds_op_def sds_op_ok_def)
  next
    case (OCatFmt fmt ap)
    then obtain ys where "render fmt ap = Some ys" using assms(3) by (auto simp: sds_op_ok_def)
    then show ?thesis using sdscatfmt_rep [OF assms(1), of fmt ap ys] OCatFmt assms(3) by (simp add: run_sds_op_def spec_sds_op_def sds_op_ok_def)
  next
    case ODup
    have "sdslen s \<le> length (sds_buf s)" using ok(1) by (simp add: sds_ok_def)
    then show ?thesis using sdsnewlen_exact [of "sdslen s" "Some (sds_buf s)"] l(2) ok(2) ODup by (auto simp: d sdsdup_def sds_str_def)
  qed
qed

fun run_sds_ops :: "sds \<Rightarrow> sds_op list \<Rightarrow> sds option" where
  "run_sds_ops s [] = Some s"
| "run_sds_ops s (x # xs) = Option.bind (run_sds_op s x) (\<lambda>s. run_sds_ops s xs)"

fun sds_ops_ok :: "bytes \<Rightarrow> sds_op list \<Rightarrow> bool" where
  "sds_ops_ok xs [] = True"
| "sds_ops_ok xs (x # ops) = (sds_op_ok xs x \<and> sds_ops_ok (spec_sds_op xs x) ops)"

lemma run_sds_ops_rep:
  "sds_rep s xs \<Longrightarrow> length xs < 2 ^ 31 \<Longrightarrow> sds_ops_ok xs ops \<Longrightarrow>
   \<exists>s'. run_sds_ops s ops = Some s' \<and> sds_rep s' (foldl spec_sds_op xs ops)"
proof (induction ops arbitrary: s xs)
  case (Cons x ops)
  obtain s1 where "run_sds_op s x = Some s1" "sds_rep s1 (spec_sds_op xs x)"
    using run_sds_op_rep [OF Cons.prems(1,2)] Cons.prems(3) by auto
  then show ?case using Cons.IH [of s1 "spec_sds_op xs x"] Cons.prems(3) by (simp add: sds_op_ok_def)
qed simp

section \<open>Properties\<close>

text \<open>
  C12: Any sequence of string operations (appending, formatting, copying, trimming, cutting, growing, changing case, reallocating) on a new
  string keeps the header type wide enough, the allocation inside the buffer and the terminator in place, never touches memory outside the
  buffer, and leaves exactly the contents that the operations have on plain byte strings, as long as the contents stay below 2 GB.
\<close>
theorem sds_ops_well_typed:
  assumes "length xs < 2 ^ 31" "sds_ops_ok xs ops"
  shows "\<exists>s s'. sdsnewlen (Some xs) (length xs) = Some s \<and> run_sds_ops s ops = Some s' \<and>
    sds_ok s' \<and> sds_str s' = foldl spec_sds_op xs ops"
proof -
  obtain s where "sdsnewlen (Some xs) (length xs) = Some s" "sds_rep s xs"
    using sdsnewlen_exact [of "length xs" "Some xs"] assms(1) by (auto simp: sds_rep_def)
  then show ?thesis using run_sds_ops_rep [of s xs ops] assms by (auto simp: sds_rep_def)
qed

theorem sds_ops_well_typed_witness:
  "\<exists>s s'. sdsnewlen (Some [32, 65, 66, 32]) 4 = Some s \<and>
     run_sds_ops s [OTrim [32], OLower, OCatInt (-7), ORange (-3) (-1), OCatFmt [37, 115, 58, 37, 73, 0] [VaStr [120], VaLong 5], ORemoveFree, OGrowZero 40] = Some s' \<and>
     sds_ok s' \<and> sds_str s' = [98, 45, 55, 120, 58, 53] @ replicate 34 0"
proof -
  have d: "dec 7 = [55]" "dec 5 = [53]" by (simp_all add: dec_small)
  have ok: "sds_ops_ok [32, 65, 66, 32] [OTrim [32], OLower, OCatInt (-7), ORange (-3) (-1), OCatFmt [37, 115, 58, 37, 73, 0] [VaStr [120], VaLong 5], ORemoveFree, OGrowZero 40]"
    by (simp add: sds_op_ok_def spec_sds_op_def trimmed_def in_cset_def tolower_def sub_range_def range_lo_def range_hi_def idec_def d int64_range_def)
  have res: "foldl spec_sds_op [32, 65, 66, 32] [OTrim [32], OLower, OCatInt (-7), ORange (-3) (-1), OCatFmt [37, 115, 58, 37, 73, 0] [VaStr [120], VaLong 5], ORemoveFree, OGrowZero 40] =
      [98, 45, 55, 120, 58, 53] @ replicate 34 0"
    by (simp add: spec_sds_op_def trimmed_def in_cset_def tolower_def sub_range_def range_lo_def range_hi_def idec_def d)
  have len: "length [32, 65, 66, 32 :: byte] = 4" "(4 :: nat) < 2 ^ 31" by simp_all
  show ?thesis using sds_ops_well_typed [OF _ ok, unfolded res len(1), OF len(2)] .
qed

lemma fmt_loop_lone_percent: "0 \<notin> set xs \<Longrightarrow> 37 \<notin> set xs \<Longrightarrow> fmt_loop s i ap (xs @ [37, 0]) = None"
proof (induction xs arbitrary: s i)
  case Nil
  show ?case by (auto split: bind_split)
next
  case (Cons c xs)
  then show ?case by (auto split: bind_split)
qed

text \<open>
  C17: A format string that ends in a single percent sign, and has no other one, makes \<open>sdscatfmt\<close> step over the terminator and read
  behind the format, for any string and any arguments.
\<close>
theorem sdscatfmt_lone_percent:
  assumes "0 \<notin> set xs" "37 \<notin> set xs"
  shows "sdscatfmt s (xs @ [37, 0]) ap = None"
  using fmt_loop_lone_percent [OF assms] by (simp add: sdscatfmt_def)

theorem sdscatfmt_lone_percent_witness:
  "\<exists>s. sdsnewlen (Some []) 0 = Some s \<and> sdscatfmt s [53, 48, 37, 0] [] = None \<and> sdscatfmt s [53, 48, 37, 37, 0] [] \<noteq> None"
proof -
  obtain s where s: "sdsnewlen (Some []) 0 = Some s" "sds_rep s []"
    using sdsempty_rep by (auto simp: sdsempty_def)
  moreover have "render [53, 48, 37, 37, 0] [] = Some [53, 48, 37]" by simp
  ultimately have "sdscatfmt s [53, 48, 37, 37, 0] [] \<noteq> None" using sdscatfmt_rep [of s "[]" "[53, 48, 37, 37, 0]" "[]"] by auto
  then show ?thesis using s(1) sdscatfmt_lone_percent [of "[53, 48]" s "[]"] by simp
qed

text \<open>
  C18: \<open>sdscmp\<close> orders strings below 2 GB lexicographically by unsigned bytes, a proper prefix first, and is zero exactly for equal contents.
\<close>
theorem sdscmp_lexicographic:
  assumes "sds_ok s1" "sds_ok s2" "sdslen s1 < 2 ^ 31" "sdslen s2 < 2 ^ 31"
  shows "\<exists>c. sdscmp s1 s2 = Some c \<and> (c < 0 \<longleftrightarrow> byte_less (sds_str s1) (sds_str s2)) \<and> (c = 0 \<longleftrightarrow> sds_str s1 = sds_str s2)"
  by (rule sdscmp_exact [OF assms])

theorem sdscmp_lexicographic_witness:
  "\<exists>s1 s2 c. sdsnewlen (Some [97, 200]) 2 = Some s1 \<and> sdsnewlen (Some [97, 100, 1]) 3 = Some s2 \<and> sdscmp s1 s2 = Some c \<and> \<not> c < 0 \<and> c \<noteq> 0"
proof -
  obtain s1 s2 where s: "sdsnewlen (Some [97, 200]) 2 = Some s1" "sds_ok s1" "sds_str s1 = [97, 200]"
    "sdsnewlen (Some [97, 100, 1]) 3 = Some s2" "sds_ok s2" "sds_str s2 = [97, 100, 1]"
    using sdsnewlen_exact [of 2 "Some [97, 200]"] sdsnewlen_exact [of 3 "Some [97, 100, 1]"] by auto
  have l: "sdslen s1 < 2 ^ 31" "sdslen s2 < 2 ^ 31" using length_sds_str [OF s(2)] length_sds_str [OF s(5)] s(3,6) by simp_all
  show ?thesis using sdscmp_lexicographic [OF s(2,5) l] s by auto
qed

end
