(* ===== verification/Sds_Split.thy ===== *)
theory Sds_Split
  imports Sds_Text "HOL-Library.Sublist"
begin

text \<open>
  What the splitting, joining and quoting functions of \<^verbatim>\<open>sds.c\<close> compute.  \<open>sdssplitlen\<close> is compared with a split of byte lists
  and undone by \<open>sdsjoinsds\<close>; \<open>sdssplitargs\<close> undoes \<open>sdscatrepr\<close>, also for the argument list that
  \<^verbatim>\<open>replication.c\<close> sends to monitors.
\<close>

section \<open>Splitting at a separator\<close>

function split_ref :: "bytes \<Rightarrow> bytes \<Rightarrow> bytes \<Rightarrow> bytes list" where
  "split_ref sep acc [] = [acc]"
| "split_ref sep acc (x # xs) =
     (if prefix sep (x # xs) then acc # split_ref sep [] (drop (length sep - 1) xs)
      else split_ref sep (acc @ [x]) xs)"
  by pat_completeness auto
termination
  by (relation "measure (\<lambda>(sep, acc, xs). length xs)") auto

fun join_ref :: "bytes \<Rightarrow> bytes list \<Rightarrow> bytes" where
  "join_ref sep [] = []"
| "join_ref sep [x] = x"
| "join_ref sep (x # y # xs) = x @ sep @ join_ref sep (y # xs)"

lemma split_ref_nonempty [simp]: "split_ref sep acc xs \<noteq> []"
  by (induction sep acc xs rule: split_ref.induct) auto

lemma join_ref_Cons: "xs \<noteq> [] \<Longrightarrow> join_ref sep (x # xs) = x @ sep @ join_ref sep xs"
  by (cases xs) auto

lemma join_split: "sep \<noteq> [] \<Longrightarrow> join_ref sep (split_ref sep acc xs) = acc @ xs"
proof (induction sep acc xs rule: split_ref.induct)
  case (2 sep acc x xs)
  show ?case
  proof (cases "prefix sep (x # xs)")
    case True
    then obtain zs where "x # xs = sep @ zs" by (auto elim: prefixE)
    moreover from this 2(3) have "drop (length sep - 1) xs = zs" by (cases sep) auto
    moreover have "split_ref sep acc (x # xs) = acc # split_ref sep [] (drop (length sep - 1) xs)" using True by simp
    ultimately show ?thesis using 2(1) [OF True 2(3)] by (simp only: join_ref_Cons split_ref_nonempty not_False_eq_True append_Nil)
  qed (use 2 in simp)
qed simp

lemma not_sublist_acc:
  assumes "sep \<noteq> []" "\<And>i. i < length acc \<Longrightarrow> \<not> prefix sep (drop i (acc @ xs))"
  shows "\<not> sublist sep acc"
proof
  assume "sublist sep acc"
  then obtain ps ss where ps: "acc = ps @ sep @ ss" by (auto simp: sublist_def)
  then have "length ps < length acc" using assms(1) by simp
  moreover have "prefix sep (drop (length ps) (acc @ xs))" by (simp add: ps)
  ultimately show False using assms(2) by blast
qed

lemma split_ref_no_sep:
  assumes "sep \<noteq> []" "\<And>i. i < length acc \<Longrightarrow> \<not> prefix sep (drop i (acc @ xs))" "tok \<in> set (split_ref sep acc xs)"
  shows "\<not> sublist sep tok"
  using assms
proof (induction sep acc xs rule: split_ref.induct)
  case (1 sep acc)
  then show ?case using not_sublist_acc [of sep acc "[]"] by simp
next
  case (2 sep acc x xs)
  show ?case
  proof (cases "prefix sep (x # xs)")
    case True
    have "\<not> sublist sep acc" by (rule not_sublist_acc [OF 2(3,4)])
    then show ?thesis using 2(1) [OF True 2(3)] 2(5) True by auto
  next
    case False
    have "\<not> prefix sep (drop i ((acc @ [x]) @ xs))" if "i < length (acc @ [x])" for i
      using that 2(4) [of i] False by (cases "i = length acc") auto
    then show ?thesis using 2(2) [OF False 2(3)] 2(5) False by simp
  qed
qed

text \<open>One round of the loop of \<open>sdssplitlen\<close>: it looks at the separator, and makes room for two more tokens.\<close>

lemma memcmp_zero: "length xs = length ys \<Longrightarrow> c_memcmp xs ys = 0 \<longleftrightarrow> xs = ys"
  by (induction xs ys rule: list_induct2) (auto dest: iffD2 [OF word_uint_eq_iff])

lemma sep_at_exact:
  assumes "j + length sep \<le> length s"
  shows "sep_at s sep (length sep) j = Some (prefix sep (drop j s))"
proof -
  let ?w = "take (length sep) (drop j s)"
  have l: "length ?w = length sep" using assms by simp
  have "ws = sep" if "length ws = length sep" "length sep = 1" "ws ! 0 = sep ! 0" for ws :: bytes
    using that by (auto simp: length_Suc_conv)
  with l have "(length sep = 1 \<and> ?w ! 0 = sep ! 0) \<longrightarrow> ?w = sep" by blast
  then have "((length sep = 1 \<and> ?w ! 0 = sep ! 0) \<or> c_memcmp ?w sep = 0) = (?w = sep)" using memcmp_zero [OF l] by blast
  moreover have "(?w = sep) = prefix sep (drop j s)" by (metis append_eq_conv_conj prefix_def)
  ultimately show ?thesis using assms by (simp add: sep_at_def mem_read_def)
qed

lemma push_token_exact:
  assumes "length tokens < slots" "start + n \<le> length s" "n < 2 ^ 31"
  shows "\<exists>tok. push_token slots tokens s start n = Some (tokens @ [tok]) \<and> sds_rep tok (take n (drop start s))"
proof -
  have "n < 2 ^ 64" "n \<le> length (drop start s)" using assms(2,3) by simp_all
  then obtain tok where "sdsnewlen (Some (drop start s)) n = Some tok" "sds_ok tok" "sds_str tok = take n (drop start s)"
    using sdsnewlen_exact [of n "Some (drop start s)"] by auto
  then show ?thesis using assms(1) by (simp add: push_token_def sds_rep_def)
qed

text \<open>The tokens so far, and the rest of the input from the current position.\<close>

definition tokens_rep :: "sds list \<Rightarrow> bytes list \<Rightarrow> bool" where
  "tokens_rep tokens xss \<longleftrightarrow> list_all2 sds_rep tokens xss"

lemma tokens_rep_snoc: "tokens_rep tokens xss \<Longrightarrow> sds_rep tok xs \<Longrightarrow> tokens_rep (tokens @ [tok]) (xss @ [xs])"
  by (simp add: tokens_rep_def list_all2_appendI)

lemma splitlen_loop_exact:
  assumes "sep \<noteq> []" "length s < 2 ^ 31" "start \<le> j" "j \<le> length s" "length tokens < slots" "tokens_rep tokens xss"
  shows "\<exists>slots' tokens' start' yss. splitlen_loop s (length s) sep (length sep) slots tokens start j = Some (slots', tokens', start') \<and>
    length tokens' < slots' \<and> start' \<le> length s \<and> tokens_rep tokens' yss \<and>
    yss @ [drop start' s] = xss @ split_ref sep (take (j - start) (drop start s)) (drop j s)"
  using assms(3-6)
proof (induction "length s - j" arbitrary: slots tokens start j xss rule: less_induct)
  case less
  note [simp] = split_ref.simps(2) [simp del]
  show ?case
  proof (cases "j < length s - (length sep - 1)")
    case True
    have js: "j + length sep \<le> length s" using True assms(1) by (cases sep) auto
    define sl where "sl = (if slots < length tokens + 2 then slots * 2 else slots)"
    have sl: "length tokens + 1 < sl" using less(4) by (auto simp: sl_def)
    obtain x xs where d: "drop j s = x # xs" proof (cases "drop j s")
      case Nil
      moreover have "0 < length sep" using assms(1) by simp
      ultimately show ?thesis using js by simp
    qed
    have sp: "split_ref sep acc (drop j s) = (if prefix sep (drop j s) then acc # split_ref sep [] (drop (j + length sep) s)
        else split_ref sep (acc @ [s ! j]) (drop (j + 1) s))" for acc
    proof -
      have "xs = drop (j + 1) s" "x = s ! j" using d by (metis drop_drop drop_Suc_Cons drop0 plus_1_eq_Suc add.commute, metis d nth_via_drop)
      moreover have "drop (length sep - 1) xs = drop (j + length sep) s" if "xs = drop (j + 1) s"
        using assms(1) that by (cases sep) (auto simp: add_ac)
      ultimately show ?thesis unfolding d split_ref.simps(2) by simp
    qed
    have run: "splitlen_loop s (length s) sep (length sep) slots tokens start j =
        (if prefix sep (drop j s) then Option.bind (push_token sl tokens s start (j - start)) (\<lambda>tokens.
            splitlen_loop s (length s) sep (length sep) sl tokens (j + length sep) (j + length sep))
          else splitlen_loop s (length s) sep (length sep) sl tokens start (j + 1))"
    proof -
      have "j + (length sep - 1) + 1 = j + length sep" using assms(1) by (cases sep) auto
      then show ?thesis
        by (subst splitlen_loop.simps) (simp only: if_P [OF True] Let_def sl_def [symmetric] sep_at_exact [OF js] Option.bind.bind_lunit)
    qed
    show ?thesis
    proof (cases "prefix sep (drop j s)")
      case hit: True
      obtain tok where tok: "push_token sl tokens s start (j - start) = Some (tokens @ [tok])" "sds_rep tok (take (j - start) (drop start s))"
      proof -
        have "length tokens < sl" "start + (j - start) \<le> length s" "j - start < 2 ^ 31" using sl less(2,3) assms(2) by simp_all
        from push_token_exact [OF this] that show ?thesis by blast
      qed
      have "length s - (j + length sep) < length s - j" using js assms(1) by (cases sep) auto
      from less(1) [OF this order_refl js _ tokens_rep_snoc [OF less(5) tok(2)], of sl] sl
      show ?thesis unfolding run if_P [OF hit] tok(1) Option.bind.bind_lunit sp by simp
    next
      case no: False
      have "take (j - start) (drop start s) @ [s ! j] = take (j + 1 - start) (drop start s)"
      proof -
        have "0 < length sep" using assms(1) by simp
        then have "j < length s" using js by linarith
        then have "j - start < length (drop start s)" "drop start s ! (j - start) = s ! j" "j + 1 - start = Suc (j - start)"
          using less(2) by (auto simp: diff_less_mono)
        then show ?thesis by (simp only: take_Suc_conv_app_nth)
      qed
      moreover have "length s - (j + 1) < length s - j" "j + 1 \<le> length s" using js assms(1) by (cases sep; simp)+
      ultimately show ?thesis
        using less(1) [of "j + 1" start tokens sl xss] less(2,5) sl unfolding run if_not_P [OF no] sp by simp
    qed
  next
    case False
    have tail: "split_ref sep acc zs = [acc @ zs]" if "length zs < length sep" for acc zs
      using that by (induction sep acc zs rule: split_ref.induct) (auto simp: split_ref.simps(2) dest: prefix_length_le)
    have "length (drop j s) < length sep" using False assms(1) by (cases sep) auto
    moreover have "take (j - start) (drop start s) @ drop j s = drop start s"
      using less(2) by (metis append_take_drop_id drop_drop le_add_diff_inverse2)
    ultimately have "split_ref sep (take (j - start) (drop start s)) (drop j s) = [drop start s]" using tail by simp
    moreover have "splitlen_loop s (length s) sep (length sep) slots tokens start j = Some (slots, tokens, start)"
      using False by (subst splitlen_loop.simps) (simp only: if_False)
    ultimately show ?thesis using less(2-5) by auto
  qed
qed

lemma sdssplitlen_exact:
  assumes "sep \<noteq> []" "length s < 2 ^ 31"
  shows "\<exists>tokens. sdssplitlen s (int (length s)) sep (int (length sep)) = Some (Some tokens) \<and>
    tokens_rep tokens (if s = [] then [] else split_ref sep [] s)"
proof (cases "s = []")
  case True
  moreover have "\<not> int (length sep) < 1" using assms(1) by (cases sep) auto
  ultimately show ?thesis by (simp add: sdssplitlen_def tokens_rep_def)
next
  case False
  have t0: "tokens_rep [] []" by (simp add: tokens_rep_def)
  obtain slots tokens start yss where r: "splitlen_loop s (length s) sep (length sep) 5 [] 0 0 = Some (slots, tokens, start)"
    "length tokens < slots" "start \<le> length s" "tokens_rep tokens yss" "yss @ [drop start s] = split_ref sep [] s"
    using splitlen_loop_exact [OF assms, of 0 0 "[]" 5 "[]", OF _ _ _ t0] by auto
  have "start + (length s - start) \<le> length s" "length s - start < 2 ^ 31" using r(3) assms(2) by simp_all
  then obtain tok where "push_token slots tokens s start (length s - start) = Some (tokens @ [tok])" "sds_rep tok (drop start s)"
    using push_token_exact [OF r(2), of start "length s - start" s] by auto
  moreover have "\<not> int (length sep) < 1" using assms(1) by (cases sep) auto
  ultimately show ?thesis
    using r(1) tokens_rep_snoc [OF r(4), of tok "drop start s"] r(5) False by (auto simp: sdssplitlen_def)
qed

lemma joinsds_loop_exact:
  "sds_rep join xs \<Longrightarrow> tokens_rep argv yss \<Longrightarrow> length xs + length (join_ref sep yss) < 2 ^ 62 \<Longrightarrow>
   \<exists>s. joinsds_loop join argv sep (length sep) = Some s \<and> sds_rep s (xs @ join_ref sep yss)"
proof (induction argv arbitrary: join xs yss)
  case Nil
  then show ?case by (simp add: tokens_rep_def)
next
  case (Cons a argv)
  then obtain y ys where y: "yss = y # ys" "sds_rep a y" "tokens_rep argv ys" by (auto simp: tokens_rep_def list_all2_Cons1)
  have e: "argv = [] \<longleftrightarrow> ys = []" using y(3) by (auto simp: tokens_rep_def)
  have l: "length xs + length y < 2 ^ 62" using Cons.prems(3) y(1) by (cases ys) auto
  obtain j1 where j1: "sdscatsds join a = Some j1" "sds_rep j1 (xs @ y)" using sdscatsds_rep [OF Cons.prems(1) y(2) l] by blast
  show ?case
  proof (cases "ys = []")
    case True
    then show ?thesis using j1 y e by simp
  next
    case False
    have b: "length (xs @ y @ sep) + length (join_ref sep ys) < 2 ^ 62" using Cons.prems(3) False y(1) by (simp add: join_ref_Cons)
    obtain j2 where j2: "sdscatlen j1 sep (length sep) = Some j2" "sds_rep j2 ((xs @ y) @ sep)"
      using sdscatlen_rep [OF j1(2) order_refl, of sep] b by auto
    show ?thesis using Cons.IH [OF j2(2) y(3)] b j1(1) j2(1) False y(1) e by (simp add: join_ref_Cons)
  qed
qed

lemma sdsjoinsds_exact:
  assumes "tokens_rep argv yss" "length (join_ref sep yss) < 2 ^ 62"
  shows "\<exists>s. sdsjoinsds argv sep (length sep) = Some s \<and> sds_rep s (join_ref sep yss)"
proof -
  obtain e where e: "sdsempty = Some e" "sds_rep e []" using sdsempty_rep by blast
  then show ?thesis
    using joinsds_loop_exact [OF e(2) assms(1)] assms(2) unfolding sdsjoinsds_def e(1) Option.bind.bind_lunit by simp
qed

lemma join_loop_exact:
  "sds_rep join xs \<Longrightarrow> list_all (\<lambda>a. 0 \<notin> set a) (sep # argv) \<Longrightarrow> length xs + length (join_ref sep argv) < 2 ^ 62 \<Longrightarrow>
   \<exists>s. join_loop join argv sep = Some s \<and> sds_rep s (xs @ join_ref sep argv)"
proof (induction argv arbitrary: join xs)
  case (Cons a argv)
  have nz: "takeWhile (\<lambda>c. c \<noteq> 0) t = t" "c_strlen t = length t" if "0 \<notin> set t" for t :: bytes
  proof -
    show nz: "takeWhile (\<lambda>c. c \<noteq> 0) t = t" using that unfolding takeWhile_eq_all_conv by metis
    show "c_strlen t = length t" unfolding c_strlen_def nz ..
  qed
  have a: "0 \<notin> set a" "0 \<notin> set sep" using Cons.prems(2) by auto
  have "length xs + length a < 2 ^ 62" using Cons.prems(3) by (cases argv) auto
  then obtain j1 where j1: "sdscat join a = Some j1" "sds_rep j1 (xs @ a)"
    using sdscat_rep [OF Cons.prems(1), of a] nz [OF a(1)] by auto
  show ?case
  proof (cases "argv = []")
    case False
    have b: "length (xs @ a @ sep) + length (join_ref sep argv) < 2 ^ 62" using Cons.prems(3) False by (simp add: join_ref_Cons)
    obtain j2 where j2: "sdscat j1 sep = Some j2" "sds_rep j2 ((xs @ a) @ sep)"
      using sdscat_rep [OF j1(2), of sep] nz [OF a(2)] b by auto
    show ?thesis using Cons.IH [OF j2(2)] Cons.prems(2) b j1(1) j2(1) False by (simp add: join_ref_Cons)
  qed (use j1 in simp)
qed simp

section \<open>Quoting and its inverse\<close>

definition repr_byte :: "byte \<Rightarrow> bytes" where
  "repr_byte c =
     (if c = 92 \<or> c = 34 then [92, c] else if c = 10 then [92, 110] else if c = 13 then [92, 114]
      else if c = 9 then [92, 116] else if c = 7 then [92, 97] else if c = 8 then [92, 98]
      else if c_isprint c then [c] else [92, 120, hex_char (unat c div 16), hex_char (unat c mod 16)])"

definition quoted :: "bytes \<Rightarrow> bytes" where
  "quoted xs = 34 # concat (map repr_byte xs) @ [34]"

lemma length_repr_byte: "length (repr_byte c) \<le> 4"
  by (simp add: repr_byte_def)

lemma hex_char_props_all: "list_all (\<lambda>d. hex_char d \<noteq> 0 \<and> is_hex_digit (hex_char d) \<and> hex_digit_to_int (hex_char d) = d) [0..<16]"
  by (simp add: upt_conv_Cons hex_char_def is_hex_digit_def hex_digit_to_int_def)

lemma hex_char_props: "d < 16 \<Longrightarrow> hex_char d \<noteq> 0 \<and> is_hex_digit (hex_char d) \<and> hex_digit_to_int (hex_char d) = d"
  using hex_char_props_all unfolding list_all_iff by simp

lemma repr_char_rep:
  assumes "sds_rep s xs" "length xs + 4 < 2 ^ 62"
  shows "\<exists>s'. repr_char s c = Some s' \<and> sds_rep s' (xs @ repr_byte c)"
proof -
  have lit: "\<exists>s'. sdscatlen s [a, b] 2 = Some s' \<and> sds_rep s' (xs @ [a, b])" for a b
    using sdscatlen_rep [OF assms(1), of 2 "[a, b]"] assms(2) by simp
  have p: "\<exists>s'. sdscatprintf s f outp = Some s' \<and> sds_rep s' (xs @ outp)" if "0 \<notin> set outp" "length outp \<le> 4" for f outp
    using sdscatprintf_rep [OF assms(1) that(1)] assms(2) that(2) by simp
  have "unat c div 16 < 16" using unat_byte_less [of c] by (simp add: less_mult_imp_div_less)
  then have h: "0 \<notin> set [92, 120, hex_char (unat c div 16), hex_char (unat c mod 16)]"
    using hex_char_props [of "unat c div 16"] hex_char_props [of "unat c mod 16"] by auto
  consider "c = 92 \<or> c = 34" | "c \<in> {10, 13, 9, 7, 8}" | "c_isprint c" "c \<notin> {92, 34, 10, 13, 9, 7, 8}"
    | "\<not> c_isprint c" "c \<notin> {92, 34, 10, 13, 9, 7, 8}" by blast
  then show ?thesis
  proof cases
    case 1
    then have "0 \<notin> set [92, c]" by auto
    from p [OF this] 1 show ?thesis by (auto simp: repr_char_def repr_byte_def)
  next
    case 2
    then show ?thesis using lit by (auto simp: repr_char_def repr_byte_def)
  next
    case 3
    then have "0 \<notin> set [c]" by (auto simp: c_isprint_def)
    from p [OF this] 3 show ?thesis by (auto simp: repr_char_def repr_byte_def)
  next
    case 4
    then show ?thesis using p [OF h] by (auto simp: repr_char_def repr_byte_def)
  qed
qed

lemma repr_loop_rep:
  "sds_rep s xs \<Longrightarrow> n \<le> length p \<Longrightarrow> length xs + 4 * n + 4 < 2 ^ 62 \<Longrightarrow>
   \<exists>s'. repr_loop s p n = Some s' \<and> sds_rep s' (xs @ concat (map repr_byte (take n p)))"
proof (induction s p n arbitrary: xs rule: repr_loop.induct)
  case (3 s c p n)
  obtain s1 where s1: "repr_char s c = Some s1" "sds_rep s1 (xs @ repr_byte c)"
    using repr_char_rep [OF 3(2), of c] 3(4) by auto
  then show ?case using 3(1) [OF s1(1) s1(2)] 3(3,4) length_repr_byte [of c] by simp
qed auto

lemma sdscatrepr_rep:
  assumes "sds_rep s xs" "n \<le> length p" "length xs + 4 * n + 8 < 2 ^ 62"
  shows "\<exists>s'. sdscatrepr s p n = Some s' \<and> sds_rep s' (xs @ quoted (take n p))"
proof -
  obtain s1 where s1: "sdscatlen s [34] 1 = Some s1" "sds_rep s1 (xs @ [34])"
    using sdscatlen_rep [OF assms(1), of 1 "[34]"] assms(3) by auto
  obtain s2 where s2: "repr_loop s1 p n = Some s2" "sds_rep s2 ((xs @ [34]) @ concat (map repr_byte (take n p)))"
    using repr_loop_rep [OF s1(2) assms(2)] assms(3) by auto
  have "length (concat (map repr_byte ys)) \<le> 4 * length ys" for ys
  proof (induction ys)
    case (Cons y ys)
    then show ?case using length_repr_byte [of y] by simp
  qed simp
  from this [of "take n p"] have "length ((xs @ [34]) @ concat (map repr_byte (take n p))) + 1 < 2 ^ 62" using assms(2,3) by simp
  then show ?thesis
    using sdscatlen_rep [OF s2(2), of 1 "[34]"] s1(1) s2(1) by (auto simp: sdscatrepr_def quoted_def)
qed

lemma hex_pair: "of_nat (unat c div 16) * 16 + of_nat (unat c mod 16) = (c :: byte)"
proof -
  have "of_nat (unat c div 16 * 16 + unat c mod 16) = c" by (simp only: div_mult_mod_eq) simp
  then show ?thesis by (simp only: of_nat_add of_nat_mult of_nat_numeral)
qed

text \<open>Reading back one quoted byte.\<close>

lemma split_token_byte:
  "\<exists>zs. zs \<noteq> [] \<and> take 1 zs = [y] \<and>
     split_token cur True False (repr_byte y @ q) = Option.bind (sdscatlen cur zs 1) (\<lambda>cur. split_token cur True False q)"
proof -
  note step = split_token.simps(2) [of cur True False 92]
  consider "y = 92 \<or> y = 34" | "y \<in> {10, 13, 9, 7, 8}" | "c_isprint y" "y \<notin> {92, 34, 10, 13, 9, 7, 8}"
    | "\<not> c_isprint y" "y \<notin> {92, 34, 10, 13, 9, 7, 8}" by blast
  then show ?thesis
  proof cases
    case 1
    then have "split_token cur True False (repr_byte y @ q) = Option.bind (sdscatlen cur [y] 1) (\<lambda>cur. split_token cur True False q)"
      by (auto simp: repr_byte_def step hex_escape_def next_is_def mem_get_def unescape_def simp del: split_token.simps)
    then show ?thesis by (intro exI [of _ "[y]"]) auto
  next
    case 2
    then have "split_token cur True False (repr_byte y @ q) = Option.bind (sdscatlen cur [y] 1) (\<lambda>cur. split_token cur True False q)"
      by (auto simp: repr_byte_def step hex_escape_def next_is_def mem_get_def unescape_def simp del: split_token.simps)
    then show ?thesis by (intro exI [of _ "[y]"]) auto
  next
    case 3
    then show ?thesis
      by (intro exI [of _ "y # q"]) (auto simp: repr_byte_def hex_escape_def next_is_def c_isprint_def)
  next
    case 4
    let ?h = "hex_char (unat y div 16)" and ?l = "hex_char (unat y mod 16)"
    have "unat y div 16 < 16" using unat_byte_less [of y] by (simp add: less_mult_imp_div_less)
    then have h: "is_hex_digit ?h" "is_hex_digit ?l" "hex_digit_to_int ?h = unat y div 16" "hex_digit_to_int ?l = unat y mod 16"
      using hex_char_props [of "unat y div 16"] hex_char_props [of "unat y mod 16"] by auto
    have r: "repr_byte y = [92, 120, ?h, ?l]" using 4 by (auto simp: repr_byte_def)
    have "split_token cur True False (repr_byte y @ q) = Option.bind (sdscatlen cur [y] 1) (\<lambda>cur. split_token cur True False q)"
      unfolding r using h hex_pair [of y] by (simp add: step hex_escape_def next_is_def mem_get_def del: split_token.simps)
    then show ?thesis by (intro exI [of _ "[y]"]) auto
  qed
qed

lemma split_token_quoted:
  assumes "rest = r # rs" "r = 0 \<or> c_isspace r"
  shows "sds_rep cur xs \<Longrightarrow> length xs + length ys < 2 ^ 62 \<Longrightarrow>
    \<exists>cur'. split_token cur True False (concat (map repr_byte ys) @ 34 # rest) = Some (Some (cur', rest)) \<and> sds_rep cur' (xs @ ys)"
proof (induction ys arbitrary: cur xs)
  case Nil
  then show ?case using assms by (auto simp: hex_escape_def next_is_def bad_close_def mem_get_def)
next
  case (Cons y ys)
  obtain zs where zs: "zs \<noteq> []" "take 1 zs = [y]"
    "split_token cur True False (repr_byte y @ concat (map repr_byte ys) @ 34 # rest) =
      Option.bind (sdscatlen cur zs 1) (\<lambda>cur. split_token cur True False (concat (map repr_byte ys) @ 34 # rest))"
    using split_token_byte by blast
  obtain c1 where "sdscatlen cur zs 1 = Some c1" "sds_rep c1 (xs @ [y])"
    using sdscatlen_rep [OF Cons.prems(1), of 1 zs] zs(1,2) Cons.prems(2) by (cases zs) auto
  then show ?case using Cons.IH [of c1 "xs @ [y]"] Cons.prems(2) zs(3) by simp
qed

lemma splitargs_token:
  assumes "rest = r # rs" "r = 0 \<or> c_isspace r" "length ys < 2 ^ 62" "\<forall>c \<in> set blanks. c \<noteq> 0 \<and> c_isspace c"
  shows "\<exists>tok. splitargs_loop vec (blanks @ quoted ys @ rest) = splitargs_loop (vec @ [tok]) rest \<and> sds_rep tok ys"
proof -
  have skip: "skip_blanks (blanks @ quoted ys @ rest) = 34 # concat (map repr_byte ys) @ 34 # rest"
    using assms(4) by (induction blanks) (auto simp: quoted_def c_isspace_def)
  obtain e where e: "sdsempty = Some e" "sds_rep e []" using sdsempty_rep by blast
  obtain tok where tok: "split_token e True False (concat (map repr_byte ys) @ 34 # rest) = Some (Some (tok, rest))" "sds_rep tok ys"
    using split_token_quoted [OF assms(1,2) e(2), of ys] assms(3) by auto
  have "split_token e False False (34 # concat (map repr_byte ys) @ 34 # rest) = Some (Some (tok, rest))" using tok(1) by simp
  then have "splitargs_loop vec (blanks @ quoted ys @ rest) = splitargs_loop (vec @ [tok]) rest"
    by (subst splitargs_loop.simps) (simp add: skip e(1) del: split_token.simps)
  then show ?thesis using tok(2) by blast
qed

lemma splitargs_line:
  assumes "\<forall>ys \<in> set yss. length ys < 2 ^ 62" "\<forall>c \<in> set blanks. c \<noteq> 0 \<and> c_isspace c" "blanks \<noteq> []"
  shows "\<exists>toks. splitargs_loop vec (join_ref [32] (map quoted yss) @ blanks @ 0 # junk) = Some (Some (vec @ toks)) \<and> tokens_rep toks yss"
proof -
  obtain b bs where b: "blanks = b # bs" "c_isspace b" using assms(2,3) by (cases blanks) auto
  have fin: "splitargs_loop vec (bl @ 0 # junk) = Some (Some vec)" if "\<forall>c \<in> set bl. c \<noteq> 0 \<and> c_isspace c" for vec bl
  proof -
    have "skip_blanks (bl @ 0 # junk) = 0 # junk" using that by (induction bl) auto
    then show ?thesis by (subst splitargs_loop.simps) simp
  qed
  have "\<exists>toks. splitargs_loop vec (pre @ join_ref [32] (map quoted yss) @ blanks @ 0 # junk) = Some (Some (vec @ toks)) \<and> tokens_rep toks yss"
    if "\<forall>c \<in> set pre. c \<noteq> 0 \<and> c_isspace c" for pre
    using assms(1) that
  proof (induction yss arbitrary: vec pre)
    case Nil
    then show ?case using fin [of "pre @ blanks" vec] assms(2) by (auto simp: tokens_rep_def)
  next
    case (Cons ys yss)
    define rest where "rest = (if yss = [] then blanks @ 0 # junk else 32 # join_ref [32] (map quoted yss) @ blanks @ 0 # junk)"
    have line: "join_ref [32] (map quoted (ys # yss)) @ blanks @ 0 # junk = quoted ys @ rest"
      by (simp add: rest_def join_ref_Cons)
    have r: "\<exists>r rs. rest = r # rs \<and> (r = 0 \<or> c_isspace r)" using b by (simp add: rest_def c_isspace_def)
    then obtain tok where tok: "splitargs_loop vec (pre @ quoted ys @ rest) = splitargs_loop (vec @ [tok]) rest" "sds_rep tok ys"
      using splitargs_token [of rest _ _ ys pre vec] Cons.prems by auto
    obtain toks where "splitargs_loop (vec @ [tok]) rest = Some (Some ((vec @ [tok]) @ toks))" "tokens_rep toks yss"
    proof (cases "yss = []")
      case True
      then show ?thesis using fin [of blanks "vec @ [tok]"] assms(2) that [of "[]"] by (simp add: rest_def tokens_rep_def)
    next
      case False
      then show ?thesis using Cons.IH [of "[32]" "vec @ [tok]"] Cons.prems(1) that by (auto simp: rest_def c_isspace_def)
    qed
    then show ?case using tok unfolding line by (auto simp: tokens_rep_def)
  qed
  from this [of "[]"] show ?thesis by simp
qed

section \<open>The argument list sent to monitors\<close>

text \<open>The loop of \<open>replicationFeedMonitors\<close> over the command's arguments, after the time stamp and the client's address.  An argument
  is an integer-encoded object or a string object; the text of \<open>"%ld"\<close> is the decimal form.\<close>

datatype monitor_arg = MInt int | MStr sds

fun monitor_args :: "sds \<Rightarrow> monitor_arg list \<Rightarrow> sds option" where
  "monitor_args cmdrepr [] = sdscatlen cmdrepr [13, 10] 2"
| "monitor_args cmdrepr (a # argv) = do {
     cmdrepr \<leftarrow> (case a of
         MInt v \<Rightarrow> sdscatprintf cmdrepr [34, 37, 108, 100, 34] (34 # idec v @ [34])
       | MStr ob \<Rightarrow> sdscatrepr cmdrepr (sds_buf ob) (sdslen ob));
     cmdrepr \<leftarrow> (if argv \<noteq> [] then sdscatlen cmdrepr [32] 1 else Some cmdrepr);
     monitor_args cmdrepr argv
   }"

fun marg_str :: "monitor_arg \<Rightarrow> bytes" where
  "marg_str (MInt v) = idec v"
| "marg_str (MStr ob) = sds_str ob"

fun marg_ok :: "monitor_arg \<Rightarrow> bool" where
  "marg_ok (MInt v) = int64_range v"
| "marg_ok (MStr ob) = sds_ok ob"

lemma idec_chars: "c \<in> set (idec v) \<Longrightarrow> is_digit c \<or> c = 45"
  by (auto simp: idec_def dest: dec_digits split: if_splits)

lemma plain_chars: "is_digit c \<or> c = 45 \<Longrightarrow> repr_byte c = [c] \<and> c \<noteq> 0"
  by (auto simp: is_digit_def repr_byte_def c_isprint_def word_le_nat_alt)

lemma quoted_idec: "quoted (idec v) = 34 # idec v @ [34]" "0 \<notin> set (34 # idec v @ [34])"
proof -
  have p: "repr_byte c = [c] \<and> c \<noteq> 0" if "c \<in> set (idec v)" for c using plain_chars idec_chars that by blast
  then have m: "map repr_byte (idec v) = map (\<lambda>c. [c]) (idec v)" by simp
  show "quoted (idec v) = 34 # idec v @ [34]" unfolding quoted_def m by simp
  show "0 \<notin> set (34 # idec v @ [34])" using p by auto
qed

definition margs_size :: "monitor_arg list \<Rightarrow> nat" where
  "margs_size args = (\<Sum>a\<leftarrow>args. 4 * length (marg_str a) + 3)"

lemma length_quoted: "length (quoted ys) \<le> 4 * length ys + 2"
proof -
  have "length (concat (map repr_byte ys)) \<le> 4 * length ys"
  proof (induction ys)
    case (Cons y ys)
    then show ?case using length_repr_byte [of y] by simp
  qed simp
  then show ?thesis by (simp add: quoted_def)
qed

lemma monitor_arg_rep:
  assumes "sds_rep s xs" "marg_ok a" "length xs + 4 * length (marg_str a) + 8 < 2 ^ 62"
  shows "\<exists>s'. (case a of MInt v \<Rightarrow> sdscatprintf s [34, 37, 108, 100, 34] (34 # idec v @ [34])
      | MStr ob \<Rightarrow> sdscatrepr s (sds_buf ob) (sdslen ob)) = Some s' \<and> sds_rep s' (xs @ quoted (marg_str a))"
proof (cases a)
  case (MInt v)
  then show ?thesis using sdscatprintf_rep [OF assms(1) quoted_idec(2)] quoted_idec(1) assms(3) by simp
next
  case (MStr ob)
  have "sdslen ob \<le> length (sds_buf ob)" using assms(2) MStr by (simp add: sds_ok_def)
  then show ?thesis
    using sdscatrepr_rep [OF assms(1), of "sdslen ob" "sds_buf ob"] assms(2,3) MStr length_sds_str [of ob] by (simp add: sds_str_def)
qed

lemma monitor_args_rep:
  "sds_rep s xs \<Longrightarrow> list_all marg_ok args \<Longrightarrow> length xs + margs_size args + 8 < 2 ^ 62 \<Longrightarrow>
   \<exists>s'. monitor_args s args = Some s' \<and> sds_rep s' (xs @ join_ref [32] (map (\<lambda>a. quoted (marg_str a)) args) @ [13, 10])"
proof (induction args arbitrary: s xs)
  case Nil
  then show ?case using sdscatlen_rep [OF Nil(1), of 2 "[13, 10]"] by simp
next
  case (Cons a args)
  have sz: "length xs + 4 * length (marg_str a) + 8 < 2 ^ 62" using Cons.prems(3) by (simp add: margs_size_def)
  obtain s1 where s1: "(case a of MInt v \<Rightarrow> sdscatprintf s [34, 37, 108, 100, 34] (34 # idec v @ [34])
      | MStr ob \<Rightarrow> sdscatrepr s (sds_buf ob) (sdslen ob)) = Some s1" "sds_rep s1 (xs @ quoted (marg_str a))"
    using monitor_arg_rep [OF Cons.prems(1) _ sz] Cons.prems(2) by auto
  have b: "length (xs @ quoted (marg_str a)) + 1 + margs_size args + 8 < 2 ^ 62"
    using Cons.prems(3) length_quoted [of "marg_str a"] by (simp add: margs_size_def)
  show ?case
  proof (cases "args = []")
    case True
    then show ?thesis using sdscatlen_rep [OF s1(2), of 2 "[13, 10]"] s1(1) b by (simp add: margs_size_def)
  next
    case False
    obtain s2 where s2: "sdscatlen s1 [32] 1 = Some s2" "sds_rep s2 ((xs @ quoted (marg_str a)) @ [32])"
      using sdscatlen_rep [OF s1(2), of 1 "[32]"] b by auto
    show ?thesis
      using Cons.IH [OF s2(2)] Cons.prems(2) b s1(1) s2(1) False by (simp add: join_ref_Cons)
  qed
qed

section \<open>Properties\<close>

text \<open>
  C14: Splitting a string at a non-empty separator and joining the tokens with the same separator gives the string back, and
  no token contains the separator; the token array is never overrun while it grows.  The empty string gives an array without tokens
  and not \<open>NULL\<close>, which the comment in front of the function announces.
\<close>
theorem sdssplitlen_join:
  assumes "sep \<noteq> []" "length s < 2 ^ 31"
  shows "\<exists>tokens r. sdssplitlen s (int (length s)) sep (int (length sep)) = Some (Some tokens) \<and> (s = [] \<longrightarrow> tokens = []) \<and>
    list_all (\<lambda>t. sds_ok t \<and> \<not> sublist sep (sds_str t)) tokens \<and>
    sdsjoinsds tokens sep (length sep) = Some r \<and> sds_ok r \<and> sds_str r = s"
proof -
  let ?parts = "if s = [] then [] else split_ref sep [] s"
  obtain tokens where t: "sdssplitlen s (int (length s)) sep (int (length sep)) = Some (Some tokens)" "tokens_rep tokens ?parts"
    using sdssplitlen_exact [OF assms] by blast
  have j: "join_ref sep ?parts = s" using join_split [OF assms(1), of "[]" s] by simp
  obtain r where "sdsjoinsds tokens sep (length sep) = Some r" "sds_rep r s"
    using sdsjoinsds_exact [OF t(2), of sep] assms(2) unfolding j by auto
  moreover have "list_all (\<lambda>t. sds_ok t \<and> \<not> sublist sep (sds_str t)) tokens"
    unfolding list_all_length
  proof (intro allI impI)
    fix i assume i: "i < length tokens"
    have "sds_rep (tokens ! i) (?parts ! i)" "?parts ! i \<in> set ?parts"
      using t(2) i unfolding tokens_rep_def by (auto simp: list_all2_conv_all_nth)
    then show "sds_ok (tokens ! i) \<and> \<not> sublist sep (sds_str (tokens ! i))"
      using split_ref_no_sep [OF assms(1), of "[]" s "?parts ! i"] by (auto simp: sds_rep_def split: if_splits)
  qed
  moreover have "s = [] \<longrightarrow> tokens = []" using t(2) by (auto simp: tokens_rep_def)
  ultimately show ?thesis using t(1) by (auto simp: sds_rep_def)
qed

theorem sdssplitlen_join_witness:
  "\<exists>tokens r. sdssplitlen [1, 58, 58, 2, 58, 58] 6 [58, 58] 2 = Some (Some tokens) \<and>
    list_all (\<lambda>t. sds_ok t \<and> \<not> sublist [58, 58] (sds_str t)) tokens \<and>
    sdsjoinsds tokens [58, 58] 2 = Some r \<and> sds_ok r \<and> sds_str r = [1, 58, 58, 2, 58, 58]"
proof -
  have len: "length [58, 58 :: byte] = 2" "length [1, 58, 58, 2, 58, 58 :: byte] = 6" "int 2 = 2" "int 6 = 6" "(6 :: nat) < 2 ^ 31" by simp_all
  show ?thesis
    using sdssplitlen_join [of "[58, 58]" "[1, 58, 58, 2, 58, 58]", unfolded len(1-4), OF _ len(5)] by blast
qed

text \<open>
  C13: The arguments a server prints for a monitor, integers as decimals and strings quoted with escapes, can be read back: \<open>sdssplitargs\<close> on the text that
  \<open>replicationFeedMonitors\<close> appends returns one string per argument, with exactly the bytes of the argument, NUL and non-ASCII bytes included.
\<close>
theorem monitor_splitargs_roundtrip:
  assumes "sds_ok s" "list_all marg_ok args" "sdslen s + margs_size args + 8 < 2 ^ 62"
  shows "\<exists>s' tokens. monitor_args s args = Some s' \<and> sds_ok s' \<and>
    sdssplitargs (drop (sdslen s) (sds_buf s')) = Some (Some tokens) \<and> list_all sds_ok tokens \<and>
    map sds_str tokens = map marg_str args"
proof -
  let ?line = "join_ref [32] (map quoted (map marg_str args)) @ [13, 10]"
  have "sds_rep s (sds_str s)" "length (sds_str s) = sdslen s" using assms(1) by (simp_all add: sds_rep_def length_sds_str)
  then obtain s' where s': "monitor_args s args = Some s'" "sds_rep s' (sds_str s @ ?line)"
    using monitor_args_rep [of s "sds_str s" args] assms(2,3) by (auto simp: comp_def)
  have ok: "sds_ok s'" "sds_str s' = sds_str s @ ?line" using s'(2) by (simp_all add: sds_rep_def)
  have "sds_buf s' = sds_str s' @ 0 # drop (sdslen s' + 1) (sds_buf s')"
    using ok(1) unfolding sds_str_def sds_ok_def by (metis (no_types) Suc_eq_plus1 id_take_nth_drop le_less_trans)
  then obtain junk where "sds_buf s' = sds_str s @ ?line @ 0 # junk" unfolding ok(2) by auto
  then have mem: "drop (sdslen s) (sds_buf s') = join_ref [32] (map quoted (map marg_str args)) @ [13, 10] @ 0 # junk"
    using \<open>length (sds_str s) = sdslen s\<close> by simp
  have "length (marg_str a) < 2 ^ 62" if "a \<in> set args" for a
    using assms(3) member_le_sum_list [of "4 * length (marg_str a) + 3" "map (\<lambda>a. 4 * length (marg_str a) + 3) args"] that
    by (auto simp: margs_size_def)
  then obtain toks where t: "sdssplitargs (drop (sdslen s) (sds_buf s')) = Some (Some toks)" "tokens_rep toks (map marg_str args)"
    using splitargs_line [of "map marg_str args" "[13, 10]" "[]" junk] unfolding sdssplitargs_def mem by (auto simp: c_isspace_def)
  have "list_all sds_ok ts \<and> map sds_str ts = yss" if "tokens_rep ts yss" for ts yss
    using that unfolding tokens_rep_def by (induction rule: list_all2_induct) (auto simp: sds_rep_def)
  with t s'(1) ok(1) show ?thesis by blast
qed

theorem monitor_splitargs_roundtrip_witness:
  "\<exists>s ob s' tokens. sdsnewlen (Some [43]) 1 = Some s \<and> sdsnewlen (Some [0, 34, 10, 200]) 4 = Some ob \<and>
    monitor_args s [MStr ob, MInt (-12)] = Some s' \<and>
    sdssplitargs (drop 1 (sds_buf s')) = Some (Some tokens) \<and> map sds_str tokens = [[0, 34, 10, 200], idec (-12)]"
proof -
  obtain s ob where s: "sdsnewlen (Some [43]) 1 = Some s" "sds_ok s" "sds_str s = [43]"
    "sdsnewlen (Some [0, 34, 10, 200]) 4 = Some ob" "sds_ok ob" "sds_str ob = [0, 34, 10, 200]"
    using sdsnewlen_exact [of 1 "Some [43]"] sdsnewlen_exact [of 4 "Some [0, 34, 10, 200]"] by auto
  have l: "sdslen s = 1" using length_sds_str [OF s(2)] s(3) by simp
  have v: "int64_range (-12)" by (simp add: int64_range_def)
  have "list_all marg_ok [MStr ob, MInt (-12)]" using s(5) v by simp
  moreover have "sdslen s + margs_size [MStr ob, MInt (-12)] + 8 < 2 ^ 62" using length_idec_le [OF v] by (simp add: margs_size_def l s(6))
  ultimately show ?thesis using monitor_splitargs_roundtrip [OF s(2)] s l by fastforce
qed

end
