(* ===== verification/Protocol.thy ===== *)
theory Protocol
  imports Sds_Split
begin

text \<open>
  The request parser of \<^verbatim>\<open>networking.c\<close> and the command encoder of \<^verbatim>\<open>aof.c\<close>.  A client keeps its query
  buffer as a dynamic string, the arguments parsed so far, and the counters of the multi bulk request it is in the middle of.
  Argument objects are their contents.  \<open>None\<close> is a memory fault or a failed assertion.
  The execution of a command is a parameter: a function from the state of the server and the arguments
  to the new state and what the caller observes.
\<close>

section \<open>Data\<close>

record client =
  querybuf :: sds
  reqtype :: nat
  argv :: "bytes list"
  multibulklen :: int
  bulklen :: int
  close_after_reply :: bool
  close_asap :: bool
  blocked :: bool
  is_slave :: bool
  error_replies :: "string list"

definition PROTO_REQ_INLINE :: nat where "PROTO_REQ_INLINE = 1"
definition PROTO_REQ_MULTIBULK :: nat where "PROTO_REQ_MULTIBULK = 2"
definition PROTO_IOBUF_LEN :: nat where "PROTO_IOBUF_LEN = 1024 * 16"
definition PROTO_INLINE_MAX_SIZE :: nat where "PROTO_INLINE_MAX_SIZE = 1024 * 64"
definition PROTO_MBULK_BIG_ARG :: int where "PROTO_MBULK_BIG_ARG = 1024 * 32"

lemmas proto_consts = PROTO_REQ_INLINE_def PROTO_REQ_MULTIBULK_def PROTO_IOBUF_LEN_def PROTO_INLINE_MAX_SIZE_def PROTO_MBULK_BIG_ARG_def

text \<open>\<open>strchr\<close> from the start of a block: \<open>Some None\<close> when the terminator comes first, a fault when the block has none.\<close>

fun c_strchr :: "byte \<Rightarrow> bytes \<Rightarrow> nat option option" where
  "c_strchr c [] = None"
| "c_strchr c (x # xs) = (if x = c then Some (Some 0) else if x = 0 then Some None
     else map_option (map_option Suc) (c_strchr c xs))"

definition reply_error :: "client \<Rightarrow> string \<Rightarrow> client" where
  "reply_error c msg = c\<lparr>error_replies := error_replies c @ [msg]\<rparr>"

definition setProtocolError :: "client \<Rightarrow> nat \<Rightarrow> client option" where
  "setProtocolError c pos = do {
     q \<leftarrow> sdsrange (querybuf c) (int pos) (- 1);
     Some (c\<lparr>close_after_reply := True, querybuf := q\<rparr>)
   }"

definition resetClient :: "client \<Rightarrow> client" where
  "resetClient c = c\<lparr>argv := [], reqtype := 0, multibulklen := 0, bulklen := - 1\<rparr>"

text \<open>A new connection.\<close>

definition createClient :: "client option" where
  "createClient = do {
     q \<leftarrow> sdsempty;
     Some \<lparr>querybuf = q, reqtype = 0, argv = [], multibulklen = 0, bulklen = - 1, close_after_reply = False, close_asap = False,
       blocked = False, is_slave = False, error_replies = []\<rparr>
   }"

section \<open>Inline requests\<close>

definition processInlineBuffer :: "client \<Rightarrow> (client \<times> bool) option" where
  "processInlineBuffer c = do {
     newline \<leftarrow> c_strchr 10 (sds_buf (querybuf c));
     case newline of
       None \<Rightarrow>
         if sdslen (querybuf c) > PROTO_INLINE_MAX_SIZE then do {
           c \<leftarrow> setProtocolError (reply_error c ''Protocol error: too big inline request'') 0;
           Some (c, False)
         } else Some (c, False)
     | Some nl \<Rightarrow> do {
         nl \<leftarrow> (if nl \<noteq> 0 then do { x \<leftarrow> mem_get (sds_buf (querybuf c)) (nl - 1); Some (if x = 13 then nl - 1 else nl) } else Some nl);
         let querylen = nl;
         aux \<leftarrow> sdsnewlen (Some (sds_buf (querybuf c))) querylen;
         args \<leftarrow> sdssplitargs (sds_buf aux);
         case args of
           None \<Rightarrow> do {
             c \<leftarrow> setProtocolError (reply_error c ''Protocol error: unbalanced quotes in request'') 0;
             Some (c, False)
           }
         | Some args \<Rightarrow> do {
             q \<leftarrow> sdsrange (querybuf c) (int (querylen + 2)) (- 1);
             Some (c\<lparr>querybuf := q, argv := filter (\<lambda>a. a \<noteq> []) (map sds_str args)\<rparr>, True)
           }
       }
   }"

section \<open>Multi bulk requests\<close>

text \<open>Each part of \<open>processMultibulkBuffer\<close> says how it goes on: stop with an error, leave the loop or the function, or continue at a position.\<close>

datatype mb_next = MErr | MBreak nat | MDone | MGo nat

definition mb_too_big :: "client \<Rightarrow> string \<Rightarrow> mb_next \<Rightarrow> (client \<times> mb_next) option" where
  "mb_too_big c msg otherwise =
     (if sdslen (querybuf c) > PROTO_INLINE_MAX_SIZE then do {
        c \<leftarrow> setProtocolError (reply_error c msg) 0;
        Some (c, MErr)
      } else Some (c, otherwise))"

definition mb_fail :: "client \<Rightarrow> string \<Rightarrow> nat \<Rightarrow> (client \<times> mb_next) option" where
  "mb_fail c msg pos = do { c \<leftarrow> setProtocolError (reply_error c msg) pos; Some (c, MErr) }"

definition mb_count :: "client \<Rightarrow> (client \<times> mb_next) option" where
  "mb_count c = do {
     c_assert (argv c = []);
     newline \<leftarrow> c_strchr 13 (sds_buf (querybuf c));
     case newline of
       None \<Rightarrow> mb_too_big c ''Protocol error: too big mbulk count string'' MErr
     | Some nl \<Rightarrow>
         if int nl > to_int32 (int (sdslen (querybuf c))) - 2 then Some (c, MErr)
         else do {
           x \<leftarrow> mem_get (sds_buf (querybuf c)) 0;
           c_assert (x = 42);
           digits \<leftarrow> mem_read (sds_buf (querybuf c)) 1 (nl - 1);
           case string2ll digits of
             None \<Rightarrow> mb_fail c ''Protocol error: invalid multibulk length'' 0
           | Some ll \<Rightarrow>
               if ll > 1024 * 1024 then mb_fail c ''Protocol error: invalid multibulk length'' 0
               else do {
                 let pos = nl + 2;
                 if ll \<le> 0 then do {
                   q \<leftarrow> sdsrange (querybuf c) (int pos) (- 1);
                   Some (c\<lparr>querybuf := q\<rparr>, MDone)
                 } else Some (c\<lparr>multibulklen := ll\<rparr>, MGo pos)
               }
         }
   }"

definition bulk_accept :: "client \<Rightarrow> nat \<Rightarrow> int \<Rightarrow> (client \<times> mb_next) option" where
  "bulk_accept c pos ll =
     (if ll \<ge> PROTO_MBULK_BIG_ARG then do {
        q \<leftarrow> sdsrange (querybuf c) (int pos) (- 1);
        let qblen = sdslen q;
        q \<leftarrow> (if int qblen < ll + 2 then sdsMakeRoomFor q (nat (ll + 2 - int qblen)) else Some q);
        Some (c\<lparr>querybuf := q, bulklen := ll\<rparr>, MGo 0)
      } else Some (c\<lparr>bulklen := ll\<rparr>, MGo pos))"

definition bulk_length :: "client \<Rightarrow> nat \<Rightarrow> (client \<times> mb_next) option" where
  "bulk_length c pos = do {
     newline \<leftarrow> c_strchr 13 (drop pos (sds_buf (querybuf c)));
     case newline of
       None \<Rightarrow> mb_too_big c ''Protocol error: too big bulk count string'' (MBreak pos)
     | Some off \<Rightarrow>
         if int (pos + off) > to_int32 (int (sdslen (querybuf c))) - 2 then Some (c, MBreak pos)
         else do {
           x \<leftarrow> mem_get (sds_buf (querybuf c)) pos;
           if x \<noteq> 36 then mb_fail c ''Protocol error: expected $'' pos
           else do {
             digits \<leftarrow> mem_read (sds_buf (querybuf c)) (pos + 1) (off - 1);
             case string2ll digits of
               None \<Rightarrow> mb_fail c ''Protocol error: invalid bulk length'' pos
             | Some ll \<Rightarrow>
                 if ll < 0 \<or> ll > 512 * 1024 * 1024 then mb_fail c ''Protocol error: invalid bulk length'' pos
                 else bulk_accept c (pos + off + 2) ll
           }
         }
   }"

definition bulk_argument :: "client \<Rightarrow> nat \<Rightarrow> (client \<times> mb_next) option" where
  "bulk_argument c pos =
     (if (int (sdslen (querybuf c)) - int pos) mod 2 ^ 64 < (bulklen c + 2) mod 2 ^ 32 then Some (c, MBreak pos)
      else if pos = 0 \<and> bulklen c \<ge> PROTO_MBULK_BIG_ARG \<and> to_int32 (int (sdslen (querybuf c))) = bulklen c + 2 then do {
        ob \<leftarrow> sdsIncrLen (querybuf c) (- 2);
        q \<leftarrow> sdsnewlen None (nat (bulklen c + 2));
        q \<leftarrow> sdsclear q;
        Some (c\<lparr>argv := argv c @ [sds_str ob], querybuf := q, bulklen := - 1, multibulklen := multibulklen c - 1\<rparr>, MGo 0)
      } else do {
        arg \<leftarrow> mem_read (sds_buf (querybuf c)) pos (nat (bulklen c));
        Some (c\<lparr>argv := argv c @ [arg], bulklen := - 1, multibulklen := multibulklen c - 1\<rparr>, MGo (pos + nat (bulklen c + 2)))
      })"

definition bulk_step :: "client \<Rightarrow> nat \<Rightarrow> (client \<times> mb_next) option" where
  "bulk_step c pos = do {
     (c, r) \<leftarrow> (if bulklen c = - 1 then bulk_length c pos else Some (c, MGo pos));
     case r of MGo pos \<Rightarrow> bulk_argument c pos | _ \<Rightarrow> Some (c, r)
   }"

lemma bulk_step_count:
  assumes "bulk_step c pos = Some (c', MGo pos')"
  shows "multibulklen c' = multibulklen c - 1"
proof -
  have len: "multibulklen c1 = multibulklen c" if "bulk_length c pos = Some (c1, MGo p1)" for c1 p1
    using that unfolding bulk_length_def mb_too_big_def mb_fail_def bulk_accept_def Let_def
    by (auto split: option.split_asm if_split_asm bind_split_asm)
  have arg: "multibulklen c2 = multibulklen c1 - 1" if "bulk_argument c1 p1 = Some (c2, MGo p2)" for c1 c2 p1 p2
    using that unfolding bulk_argument_def by (auto split: if_split_asm bind_split_asm)
  obtain c1 p1 where "(if bulklen c = - 1 then bulk_length c pos else Some (c, MGo pos)) = Some (c1, MGo p1)"
    "bulk_argument c1 p1 = Some (c', MGo pos')"
    using assms unfolding bulk_step_def bind_eq_Some_conv by (auto simp only: prod.case split: mb_next.split_asm)
  then show ?thesis using arg len by (auto split: if_split_asm)
qed

text \<open>The loop returns the position it stopped at; leaving it by an error is \<open>MErr\<close>.\<close>

function bulk_loop :: "client \<Rightarrow> nat \<Rightarrow> (client \<times> mb_next) option" where
  "bulk_loop c pos =
     (if multibulklen c \<le> 0 then Some (c, MGo pos)
      else (case bulk_step c pos of
         None \<Rightarrow> None
       | Some (c', r) \<Rightarrow>
           (case r of MGo pos' \<Rightarrow> bulk_loop c' pos'
            | MBreak pos' \<Rightarrow> Some (c', MGo pos')
            | _ \<Rightarrow> Some (c', r))))"
  by pat_completeness auto
termination
  by (relation "measure (\<lambda>(c, pos). nat (multibulklen c))") (auto dest: bulk_step_count)

declare bulk_loop.simps [simp del]

text \<open>The loop, and the query buffer cut to what was not read.\<close>

definition bulk_args :: "client \<Rightarrow> nat \<Rightarrow> (client \<times> bool) option" where
  "bulk_args c pos = do {
     (c, r) \<leftarrow> bulk_loop c pos;
     case r of
       MGo pos \<Rightarrow> do {
         q \<leftarrow> (if pos \<noteq> 0 then sdsrange (querybuf c) (int pos) (- 1) else Some (querybuf c));
         let c = c\<lparr>querybuf := q\<rparr>;
         Some (c, multibulklen c = 0)
       }
     | _ \<Rightarrow> Some (c, False)
   }"

definition processMultibulkBuffer :: "client \<Rightarrow> (client \<times> bool) option" where
  "processMultibulkBuffer c = do {
     (c, r) \<leftarrow> (if multibulklen c = 0 then mb_count c else Some (c, MGo 0));
     case r of
       MGo pos \<Rightarrow> do {
         c_assert (multibulklen c > 0);
         bulk_args c pos
       }
     | MDone \<Rightarrow> Some (c, True)
     | _ \<Rightarrow> Some (c, False)
   }"

section \<open>The input loop\<close>

text \<open>What \<open>processCommand\<close> does to the client and tells its caller.\<close>

record cmd_outcome =
  out_ok :: bool
  out_close :: bool
  out_asap :: bool
  out_blocked :: bool
  out_freed :: bool

partial_function (option) processInputBuffer ::
  "('w \<Rightarrow> bytes list \<Rightarrow> 'w \<times> cmd_outcome) \<Rightarrow> ('w \<Rightarrow> bool) \<Rightarrow> client \<Rightarrow> 'w \<Rightarrow> (client \<times> 'w) option" where
  "processInputBuffer processCommand clientsArePaused c w =
     (if sdslen (querybuf c) = 0 then Some (c, w)
      else if \<not> is_slave c \<and> clientsArePaused w then Some (c, w)
      else if blocked c then Some (c, w)
      else if close_after_reply c \<or> close_asap c then Some (c, w)
      else Option.bind
        (if reqtype c = 0 then map_option (\<lambda>x. c\<lparr>reqtype := (if x = 42 then PROTO_REQ_MULTIBULK else PROTO_REQ_INLINE)\<rparr>) (mem_get (sds_buf (querybuf c)) 0)
         else Some c) (\<lambda>c.
      Option.bind
        (if reqtype c = PROTO_REQ_INLINE then processInlineBuffer c
         else if reqtype c = PROTO_REQ_MULTIBULK then processMultibulkBuffer c
         else None) (\<lambda>(c, ok).
      if \<not> ok then Some (c, w)
      else if argv c = [] then processInputBuffer processCommand clientsArePaused (resetClient c) w
      else let (w, r) = processCommand w (argv c);
               c = c\<lparr>close_after_reply := close_after_reply c \<or> out_close r, close_asap := close_asap c \<or> out_asap r,
                     blocked := out_blocked r\<rparr>;
               c = (if out_ok r then resetClient c else c)
           in if out_freed r then Some (c, w)
              else processInputBuffer processCommand clientsArePaused c w)))"

text \<open>How many bytes \<open>readQueryFromClient\<close> asks \<open>read\<close> for, and what it does with the bytes it gets.  A fault is \<open>None\<close>;
  a client that exceeds the limit of the query buffer is freed (\<open>Some None\<close>).\<close>

definition read_len :: "client \<Rightarrow> int" where
  "read_len c =
     (let readlen = int PROTO_IOBUF_LEN in
      if reqtype c = PROTO_REQ_MULTIBULK \<and> multibulklen c \<noteq> 0 \<and> bulklen c \<noteq> - 1 \<and> bulklen c \<ge> PROTO_MBULK_BIG_ARG then
        (let remaining = to_int32 ((bulklen c + 2) mod 2 ^ 32 - int (sdslen (querybuf c))) in
         if remaining < readlen then remaining else readlen)
      else readlen)"

text \<open>\<open>readlen\<close> is positive whenever the parser left the client: a negative value, which the code would pass to \<open>read\<close> as a huge
  \<open>size_t\<close>, does not occur, and \<open>nat\<close> is the conversion of a positive number.\<close>

definition readQueryFromClient ::
  "('w \<Rightarrow> bytes list \<Rightarrow> 'w \<times> cmd_outcome) \<Rightarrow> ('w \<Rightarrow> bool) \<Rightarrow> nat \<Rightarrow> bytes \<Rightarrow> client \<Rightarrow> 'w \<Rightarrow> (client \<times> 'w) option option" where
  "readQueryFromClient processCommand clientsArePaused client_max_querybuf_len data c w = do {
     let qblen = sdslen (querybuf c);
     q \<leftarrow> sdsMakeRoomFor (querybuf c) (nat (read_len c));
     q \<leftarrow> buf_write q qblen data;
     q \<leftarrow> sdsIncrLen q (int (length data));
     let c = c\<lparr>querybuf := q\<rparr>;
     if sdslen q > client_max_querybuf_len then Some None
     else map_option Some (processInputBuffer processCommand clientsArePaused c w)
   }"

section \<open>The encoder\<close>

text \<open>\<open>buf\<close> with a type byte, a decimal number and the line end, appended to the output.\<close>

definition cat_header :: "sds \<Rightarrow> byte \<Rightarrow> nat \<Rightarrow> sds option" where
  "cat_header dst kind n = do {
     (digits, l) \<leftarrow> ll2string (replicate 31 0) 31 (int n);
     let buf = kind # digits;
     buf \<leftarrow> mem_set buf (1 + l) 13;
     buf \<leftarrow> mem_set buf (2 + l) 10;
     sdscatlen dst buf (3 + l)
   }"

fun cat_arguments :: "sds \<Rightarrow> sds list \<Rightarrow> sds option" where
  "cat_arguments dst [] = Some dst"
| "cat_arguments dst (ob # args) = do {
     dst \<leftarrow> cat_header dst 36 (sdslen ob);
     dst \<leftarrow> sdscatlen dst (sds_buf ob) (sdslen ob);
     dst \<leftarrow> sdscatlen dst [13, 10] 2;
     cat_arguments dst args
   }"

definition catAppendOnlyGenericCommand :: "sds \<Rightarrow> sds list \<Rightarrow> sds option" where
  "catAppendOnlyGenericCommand dst args = do {
     dst \<leftarrow> cat_header dst 42 (length args);
     cat_arguments dst args
   }"

section \<open>The wire format\<close>

definition enc_line :: "byte \<Rightarrow> nat \<Rightarrow> bytes" where
  "enc_line k n = k # dec n @ [13, 10]"

definition enc_arg :: "bytes \<Rightarrow> bytes" where
  "enc_arg a = enc_line 36 (length a) @ a @ [13, 10]"

definition enc_cmd :: "bytes list \<Rightarrow> bytes" where
  "enc_cmd args = enc_line 42 (length args) @ concat (map enc_arg args)"

definition cmd_ok :: "bytes list \<Rightarrow> bool" where
  "cmd_ok args \<longleftrightarrow> args \<noteq> [] \<and> length args \<le> 1048576 \<and> list_all (\<lambda>a. length a \<le> 536870912) args"

lemma dec_plain: "13 \<notin> set (dec n)" "0 \<notin> set (dec n)"
  using dec_digits [of 13 n] dec_digits [of 0 n] by (auto simp: is_digit_def)

lemma string2ll_dec: "n < 2 ^ 63 \<Longrightarrow> string2ll (dec n) = Some (int n)"
  by (simp add: string2ll_iff int64_range_def idec_def)

lemma length_dec_31: "n < 2 ^ 31 \<Longrightarrow> length (dec n) \<le> 20"
  by (rule length_dec_64) simp

lemma strchr_found: "c \<notin> set xs \<Longrightarrow> 0 \<notin> set xs \<Longrightarrow> c_strchr c (xs @ c # r) = Some (Some (length xs))"
  by (induction xs) auto

lemma strchr_none: "c \<noteq> 0 \<Longrightarrow> c \<notin> set xs \<Longrightarrow> 0 \<notin> set xs \<Longrightarrow> c_strchr c (xs @ 0 # r) = Some None"
  by (induction xs) auto

text \<open>A query buffer is its contents, the terminator and unused space.\<close>

lemma sds_rep_buf:
  assumes "sds_rep q xs"
  obtains junk where "sds_buf q = xs @ 0 # junk"
proof -
  have "sds_buf q = sds_str q @ 0 # drop (sdslen q + 1) (sds_buf q)"
    using assms unfolding sds_rep_def sds_str_def sds_ok_def by (metis (no_types) Suc_eq_plus1 id_take_nth_drop le_less_trans)
  then show ?thesis using that assms by (auto simp: sds_rep_def)
qed

lemma sdsrange_drop:
  assumes "sds_rep q xs" "length xs < 2 ^ 31" "pos \<le> length xs"
  shows "\<exists>q'. sdsrange q (int pos) (- 1) = Some q' \<and> sds_rep q' (drop pos xs)"
proof -
  have r: "sub_range xs (int pos) (- 1) = drop pos xs"
  proof (cases "xs = []")
    case False
    then have "range_hi (int (length xs)) (- 1) = int (length xs) - 1" by (cases xs) (auto simp: range_hi_def)
    then show ?thesis by (simp add: sub_range_def range_lo_def nat_diff_distrib' nat_int_add)
  qed (simp add: sub_range_def)
  have "sds_ok q" "sds_str q = xs" "sdslen q < 2 ^ 31" using assms(1,2) sds_rep_len [OF assms(1)] by (simp_all add: sds_rep_def)
  moreover have "int pos < 2 ^ 31" using assms(2,3) by simp
  ultimately show ?thesis using sdsrange_exact [of q "int pos" "- 1"] r by (auto simp: sds_rep_def)
qed

text \<open>How much of a count line has arrived.\<close>

lemma line_cases:
  assumes "buf @ fut = enc_line k n @ tail" "k \<noteq> 0" "k \<noteq> 13"
  obtains (full) buf' where "buf = enc_line k n @ buf'" "buf' @ fut = tail"
  | (no_lf) "buf = (k # dec n) @ [13]" "fut \<noteq> []"
  | (no_cr) "13 \<notin> set buf" "0 \<notin> set buf" "length buf \<le> length (dec n) + 1" "fut \<noteq> []"
proof (cases "length (enc_line k n) \<le> length buf")
  case True
  let ?l = "length (enc_line k n)"
  have "take ?l buf = enc_line k n" "drop ?l buf @ fut = tail"
    using arg_cong [OF assms(1), of "take ?l"] arg_cong [OF assms(1), of "drop ?l"] True by simp_all
  then show ?thesis using full [of "drop ?l buf"] by (metis append_take_drop_id)
next
  case False
  then have b: "buf = take (length buf) (enc_line k n)" and f: "fut \<noteq> []"
    using assms(1) by (metis append_eq_append_conv_if less_le_not_le nat_le_linear, auto)
  show ?thesis
  proof (cases "length buf = length (dec n) + 2")
    case True
    then have "buf = (k # dec n) @ [13]" using b by (simp add: enc_line_def)
    then show ?thesis using no_lf f by blast
  next
    case no: False
    have l: "length buf \<le> length (dec n) + 1" using False no by (simp add: enc_line_def)
    have "take (length buf) (enc_line k n) = take (length buf) ((k # dec n) @ [13, 10])" by (simp add: enc_line_def)
    also have "\<dots> = take (length buf) (k # dec n)" unfolding take_append using l by simp
    finally have "buf = take (length buf) (k # dec n)" using b by simp
    then have "set buf \<subseteq> insert k (set (dec n))" by (metis list.simps(15) set_take_subset)
    then show ?thesis using no_cr l f dec_plain [of n] assms(2,3) by blast
  qed
qed

section \<open>One argument\<close>

text \<open>The part of the current command that is still to come, given the length field.\<close>

fun todo_text :: "int \<Rightarrow> bytes list \<Rightarrow> bytes" where
  "todo_text b [] = []"
| "todo_text b (a # as) = (if b = - 1 then enc_arg a else a @ [13, 10]) @ concat (map enc_arg as)"

definition todo_ok :: "client \<Rightarrow> bytes list \<Rightarrow> bool" where
  "todo_ok c todo \<longleftrightarrow> multibulklen c = int (length todo) \<and> list_all (\<lambda>a. length a \<le> 536870912) todo \<and>
     (bulklen c = - 1 \<or> (todo \<noteq> [] \<and> bulklen c = int (length (hd todo))))"

text \<open>What a step leaves alone.\<close>

definition same_flags :: "client \<Rightarrow> client \<Rightarrow> bool" where
  "same_flags c c' \<longleftrightarrow> reqtype c' = reqtype c \<and> close_after_reply c' = close_after_reply c \<and> close_asap c' = close_asap c \<and>
     blocked c' = blocked c \<and> is_slave c' = is_slave c \<and> error_replies c' = error_replies c"

lemma same_flags_refl [simp]: "same_flags c c"
  by (simp add: same_flags_def)

lemma same_flags_trans: "same_flags c c' \<Longrightarrow> same_flags c' c'' \<Longrightarrow> same_flags c c''"
  by (simp add: same_flags_def)

definition small :: "client \<Rightarrow> nat \<Rightarrow> bool" where
  "small c n \<longleftrightarrow> n \<le> 65536 \<or> (multibulklen c \<noteq> 0 \<and> bulklen c \<ge> 32768 \<and> int n \<le> bulklen c + 2)"

lemma mem_get_mid2: "mem_get (xs @ y # ys) (length xs) = Some y"
  by (simp add: mem_get_def)

lemma bulk_accept_rep:
  assumes "sds_rep (querybuf c) (pre @ buf)" "pos = length pre" "length (pre @ buf) < 2 ^ 30" "0 \<le> ll" "ll \<le> 536870912"
  shows "\<exists>c' pre'. bulk_accept c pos ll = Some (c', MGo (length pre')) \<and> sds_rep (querybuf c') (pre' @ buf) \<and>
    bulklen c' = ll \<and> multibulklen c' = multibulklen c \<and> argv c' = argv c \<and> same_flags c c' \<and>
    length pre' \<le> length pre \<and> (32768 \<le> ll \<longrightarrow> pre' = [])"
proof (cases "ll \<ge> PROTO_MBULK_BIG_ARG")
  case True
  obtain q where q: "sdsrange (querybuf c) (int pos) (- 1) = Some q" "sds_rep q buf"
    using sdsrange_drop [OF assms(1), of pos] assms(2,3) by auto
  have l: "sdslen q = length buf" using sds_rep_len [OF q(2)] .
  obtain q' where q': "(if int (sdslen q) < ll + 2 then sdsMakeRoomFor q (nat (ll + 2 - int (sdslen q))) else Some q) = Some q'" "sds_rep q' buf"
  proof (cases "int (sdslen q) < ll + 2")
    case True
    have "sds_ok q" "sds_str q = buf" "sdslen q + nat (ll + 2 - int (sdslen q)) < 2 ^ 62" using q(2) assms(3-5) l True by (simp_all add: sds_rep_def)
    then show ?thesis using sdsMakeRoomFor_exact [of q] that True by (auto simp: sds_rep_def)
  qed (use q(2) that in auto)
  show ?thesis
    using q(1) q' True unfolding bulk_accept_def Let_def by (intro exI [of _ "c\<lparr>querybuf := q', bulklen := ll\<rparr>"] exI [of _ "[]"]) (simp add: same_flags_def)
next
  case False
  then show ?thesis
    using assms by (intro exI [of _ "c\<lparr>bulklen := ll\<rparr>"] exI [of _ pre]) (simp add: bulk_accept_def same_flags_def proto_consts)
qed

lemma bulk_length_cases:
  assumes "sds_rep (querybuf c) (pre @ buf)" "length (pre @ buf) \<le> 65536" "buf @ fut = enc_line 36 n @ tail" "n \<le> 536870912"
  shows "(\<exists>c' pre' buf'. bulk_length c (length pre) = Some (c', MGo (length pre')) \<and> sds_rep (querybuf c') (pre' @ buf') \<and> buf' @ fut = tail \<and>
      bulklen c' = int n \<and> multibulklen c' = multibulklen c \<and> argv c' = argv c \<and> same_flags c c' \<and>
      length (pre' @ buf') \<le> 65536 \<and> (32768 \<le> n \<longrightarrow> pre' = [])) \<or>
    (bulk_length c (length pre) = Some (c, MBreak (length pre)) \<and> length buf \<le> 40 \<and> fut \<noteq> [])"
proof -
  obtain junk where junk: "sds_buf (querybuf c) = (pre @ buf) @ 0 # junk" using sds_rep_buf [OF assms(1)] .
  have len: "sdslen (querybuf c) = length (pre @ buf)" using sds_rep_len [OF assms(1)] .
  have i32: "to_int32 (int (length (pre @ buf))) = int (length (pre @ buf))" using assms(2) by (subst to_int32_id) auto
  have dl: "length (dec n) \<le> 20" using assms(4) by (intro length_dec_31) simp
  have k: "(36 :: byte) \<noteq> 0" "(36 :: byte) \<noteq> 13" by simp_all
  from assms(3) k show ?thesis
  proof (cases rule: line_cases)
    case (full buf')
    have chr: "c_strchr 13 (drop (length pre) (sds_buf (querybuf c))) = Some (Some (length (36 # dec n)))"
      using strchr_found [of 13 "36 # dec n" "10 # buf' @ 0 # junk"] dec_plain [of n] by (simp add: junk full enc_line_def)
    have g: "mem_get (sds_buf (querybuf c)) (length pre) = Some 36" by (simp add: junk full enc_line_def mem_get_def nth_append)
    have rd: "mem_read (sds_buf (querybuf c)) (length pre + 1) (length (36 # dec n) - 1) = Some (dec n)"
      by (simp add: junk full enc_line_def mem_read_def)
    let ?pre = "pre @ enc_line 36 n"
    have rep: "sds_rep (querybuf c) (?pre @ buf')" "length (?pre @ buf') < 2 ^ 30" "length (?pre @ buf') \<le> 65536"
      using assms(1,2) full(1) by simp_all
    obtain c' pre' where acc: "bulk_accept c (length ?pre) (int n) = Some (c', MGo (length pre'))" "sds_rep (querybuf c') (pre' @ buf')"
      "bulklen c' = int n" "multibulklen c' = multibulklen c" "argv c' = argv c" "same_flags c c'" "length pre' \<le> length ?pre" "32768 \<le> int n \<longrightarrow> pre' = []"
      using bulk_accept_rep [OF rep(1) refl rep(2), of "int n"] assms(4) by auto
    have run: "bulk_length c (length pre) = bulk_accept c (length ?pre) (int n)"
    proof -
      have "\<not> int (length pre + length (36 # dec n)) > int (length (pre @ buf)) - 2" using full(1) by (simp add: enc_line_def)
      moreover have "length pre + length (36 # dec n) + 2 = length ?pre" by (simp add: enc_line_def)
      ultimately show ?thesis
        using assms(4) unfolding bulk_length_def chr len i32 Option.bind.bind_lunit option.case g rd
        by (simp add: string2ll_dec enc_line_def)
    qed
    have "length (pre' @ buf') \<le> 65536" using acc(7) rep(3) by simp
    then show ?thesis using run acc full(2) by auto
  next
    case no_lf
    have chr: "c_strchr 13 (drop (length pre) (sds_buf (querybuf c))) = Some (Some (length (36 # dec n)))"
      using strchr_found [of 13 "36 # dec n" "0 # junk"] dec_plain [of n] by (simp add: junk no_lf)
    have "int (length pre + length (36 # dec n)) > int (length (pre @ buf)) - 2" using no_lf(1) by simp
    then have "bulk_length c (length pre) = Some (c, MBreak (length pre))"
      unfolding bulk_length_def chr len i32 Option.bind.bind_lunit option.case by simp
    then show ?thesis using no_lf dl by simp
  next
    case no_cr
    have chr: "c_strchr 13 (drop (length pre) (sds_buf (querybuf c))) = Some None"
      using strchr_none [of 13 buf junk] no_cr by (simp add: junk)
    have "bulk_length c (length pre) = Some (c, MBreak (length pre))"
      unfolding bulk_length_def chr Option.bind.bind_lunit option.case mb_too_big_def len using assms(2) by (simp add: proto_consts)
    then show ?thesis using no_cr dl by simp
  qed
qed

lemma bulk_argument_cases:
  assumes "sds_rep (querybuf c) (pre @ buf)" "buf @ fut = a @ [13, 10] @ tail" "bulklen c = int (length a)" "length a \<le> 536870912"
    "length (pre @ buf) \<le> 65536 \<or> (pre = [] \<and> 32768 \<le> length a \<and> length buf \<le> length a + 2)"
  shows "(\<exists>c' pre' buf'. bulk_argument c (length pre) = Some (c', MGo (length pre')) \<and> sds_rep (querybuf c') (pre' @ buf') \<and> buf' @ fut = tail \<and>
      argv c' = argv c @ [a] \<and> bulklen c' = - 1 \<and> multibulklen c' = multibulklen c - 1 \<and> same_flags c c' \<and> length (pre' @ buf') \<le> 65536) \<or>
    (bulk_argument c (length pre) = Some (c, MBreak (length pre)) \<and> length buf < length a + 2 \<and> fut \<noteq> [])"
proof -
  obtain junk where junk: "sds_buf (querybuf c) = (pre @ buf) @ 0 # junk" using sds_rep_buf [OF assms(1)] .
  have len: "sdslen (querybuf c) = length pre + length buf" using sds_rep_len [OF assms(1)] by simp
  have lt: "length pre + length buf < 2 ^ 30" using assms(4,5) by auto
  have cond: "(int (length pre + length buf) - int (length pre)) mod 2 ^ 64 < (int (length a) + 2) mod 2 ^ 32 \<longleftrightarrow> length buf < length a + 2"
    using lt assms(4) by simp linarith
  show ?thesis
  proof (cases "length buf < length a + 2")
    case True
    then have "bulk_argument c (length pre) = Some (c, MBreak (length pre))"
      unfolding bulk_argument_def len assms(3) cond by simp
    moreover have "fut \<noteq> []" using arg_cong [OF assms(2), of length] True by auto
    ultimately show ?thesis using True by simp
  next
    case False
    define buf' where "buf' = drop (length a + 2) buf"
    have "take (length a + 2) buf = a @ [13, 10]" "buf' @ fut = tail"
      using arg_cong [OF assms(2), of "take (length a + 2)"] arg_cong [OF assms(2), of "drop (length a + 2)"] False by (simp_all add: buf'_def)
    then have buf: "buf = a @ [13, 10] @ buf'" "buf' @ fut = tail" unfolding buf'_def by (metis append_take_drop_id append.assoc, simp)
    have i32: "to_int32 (int (length pre + length buf)) = int (length pre + length buf)" using lt by (subst to_int32_id) auto
    show ?thesis
    proof (cases "pre = [] \<and> 32768 \<le> length a \<and> buf' = []")
      case True
      have ok: "sds_ok (querybuf c)" "sds_str (querybuf c) = a @ [13, 10]" using assms(1) buf(1) True by (simp_all add: sds_rep_def)
      have n: "int (sdslen (querybuf c)) + - 2 = int (length a)" using len buf(1) True by simp
      have al: "int (length a) \<le> int (sdsalloc (querybuf c))" using ok(1) n by (simp add: sds_ok_def)
      obtain ob where ob: "sdsIncrLen (querybuf c) (- 2) = Some ob" "sds_str ob = take (length a) (sds_buf (querybuf c))"
        using sdsIncrLen_exact [of "querybuf c" "- 2"] ok(1) n al by (auto simp: sds_ok_fit)
      have obs: "sds_str ob = a" using ob(2) junk buf(1) True by simp
      obtain q0 where q0: "sdsnewlen None (length a + 2) = Some q0" "sds_ok q0" using sdsnewlen_exact [of "length a + 2" None] assms(4) by auto
      obtain q where q: "sdsclear q0 = Some q" "sds_rep q []"
        using finish_string [OF q0(2) le0 refl] by (auto simp: sdsclear_def sds_rep_def)
      let ?c = "c\<lparr>argv := argv c @ [a], querybuf := q, bulklen := - 1, multibulklen := multibulklen c - 1\<rparr>"
      have "nat (int (length a) + 2) = length a + 2" by simp
      moreover have "int (length pre + length buf) = int (length a) + 2" "PROTO_MBULK_BIG_ARG \<le> int (length a)" using True buf(1) by (simp_all add: proto_consts)
      ultimately have "bulk_argument c (length pre) = Some (?c, MGo 0)"
        using False True ob(1) obs q0(1) q(1) unfolding bulk_argument_def len assms(3) cond i32 by simp
      then show ?thesis
        using q(2) buf(2) True by (intro disjI1 exI [of _ ?c] exI [of _ "[]"]) (simp add: same_flags_def)
    next
      case no: False
      let ?c = "c\<lparr>argv := argv c @ [a], bulklen := - 1, multibulklen := multibulklen c - 1\<rparr>"
      have "\<not> (length pre = 0 \<and> PROTO_MBULK_BIG_ARG \<le> int (length a) \<and> int (length pre + length buf) = int (length a) + 2)"
        using no buf(1) by (auto simp: proto_consts)
      moreover have "mem_read (sds_buf (querybuf c)) (length pre) (nat (int (length a))) = Some a" by (simp add: junk buf(1) mem_read_def)
      ultimately have "bulk_argument c (length pre) = Some (?c, MGo (length (pre @ a @ [13, 10])))"
        using False unfolding bulk_argument_def len assms(3) cond i32 by (auto simp: nat_add_distrib)
      moreover have "length ((pre @ a @ [13, 10]) @ buf') \<le> 65536" using assms(5) no buf(1) by auto
      ultimately show ?thesis
        using assms(1) buf by (intro disjI1 exI [of _ ?c] exI [of _ "pre @ a @ [13, 10]"] exI [of _ buf']) (simp add: same_flags_def)
    qed
  qed
qed

lemma bulk_step_cases:
  assumes "sds_rep (querybuf c) (pre @ buf)" "todo_ok c (a # as)" "buf @ fut = todo_text (bulklen c) (a # as) @ tail"
    "length (pre @ buf) \<le> 65536 \<or> (pre = [] \<and> bulklen c = int (length a) \<and> 32768 \<le> length a \<and> length buf \<le> length a + 2)"
  shows "(\<exists>c' pre' buf'. bulk_step c (length pre) = Some (c', MGo (length pre')) \<and> sds_rep (querybuf c') (pre' @ buf') \<and>
      buf' @ fut = todo_text (- 1) as @ tail \<and> argv c' = argv c @ [a] \<and> bulklen c' = - 1 \<and> todo_ok c' as \<and> same_flags c c' \<and> length (pre' @ buf') \<le> 65536) \<or>
    (\<exists>c' pre' buf'. bulk_step c (length pre) = Some (c', MBreak (length pre')) \<and> sds_rep (querybuf c') (pre' @ buf') \<and>
      buf' @ fut = todo_text (bulklen c') (a # as) @ tail \<and> argv c' = argv c \<and> todo_ok c' (a # as) \<and> same_flags c c' \<and> fut \<noteq> [] \<and>
      (if bulklen c' = - 1 then length buf' \<le> 40 else int (length buf') < bulklen c' + 2) \<and> length (pre' @ buf') < 2 ^ 30)"
proof -
  have ok: "multibulklen c = int (length as) + 1" "length a \<le> 536870912" "list_all (\<lambda>a. length a \<le> 536870912) as"
    using assms(2) by (simp_all add: todo_ok_def)
  have tt: "todo_text (- 1) as = concat (map enc_arg as)" by (cases as) auto
  have arg: ?thesis
    if r: "bulk_step c (length pre) = bulk_argument c1 (length pre1)" and
      c1: "sds_rep (querybuf c1) (pre1 @ buf1)" "buf1 @ fut = a @ [13, 10] @ todo_text (- 1) as @ tail" "bulklen c1 = int (length a)"
        "multibulklen c1 = multibulklen c" "argv c1 = argv c" "same_flags c c1"
        "length (pre1 @ buf1) \<le> 65536 \<or> (pre1 = [] \<and> 32768 \<le> length a \<and> length buf1 \<le> length a + 2)" for c1 pre1 buf1
  proof -
    have lt: "length (pre1 @ buf1) < 2 ^ 30" using c1(7) ok(2) by auto
    show ?thesis
      using bulk_argument_cases [OF c1(1,2,3) ok(2) c1(7)]
    proof (elim disjE exE conjE)
      fix c' pre' buf'
      assume "bulk_argument c1 (length pre1) = Some (c', MGo (length pre'))" "sds_rep (querybuf c') (pre' @ buf')"
        "buf' @ fut = todo_text (- 1) as @ tail" "argv c' = argv c1 @ [a]" "bulklen c' = - 1" "multibulklen c' = multibulklen c1 - 1"
        "same_flags c1 c'" "length (pre' @ buf') \<le> 65536"
      then show ?thesis
        using r c1(4-6) ok same_flags_trans [of c c1 c'] by (intro disjI1 exI [of _ c'] exI [of _ pre'] exI [of _ buf']) (simp add: todo_ok_def)
    next
      assume "bulk_argument c1 (length pre1) = Some (c1, MBreak (length pre1))" "length buf1 < length a + 2" "fut \<noteq> []"
      then show ?thesis
        using r c1 ok lt by (intro disjI2 exI [of _ c1] exI [of _ pre1] exI [of _ buf1]) (simp add: todo_ok_def tt)
    qed
  qed
  show ?thesis
  proof (cases "bulklen c = - 1")
    case True
    then have l: "length (pre @ buf) \<le> 65536" and text': "buf @ fut = enc_line 36 (length a) @ a @ [13, 10] @ todo_text (- 1) as @ tail"
      using assms(3,4) by (auto simp: enc_arg_def tt)
    from bulk_length_cases [OF assms(1) l text' ok(2)] show ?thesis
    proof (elim disjE exE conjE)
      fix c1 pre1 buf1
      assume "bulk_length c (length pre) = Some (c1, MGo (length pre1))" "sds_rep (querybuf c1) (pre1 @ buf1)"
        "buf1 @ fut = a @ [13, 10] @ todo_text (- 1) as @ tail" "bulklen c1 = int (length a)" "multibulklen c1 = multibulklen c" "argv c1 = argv c"
        "same_flags c c1" "length (pre1 @ buf1) \<le> 65536"
      then show ?thesis by (intro arg [of c1 pre1 buf1]) (simp_all add: bulk_step_def True)
    next
      assume "bulk_length c (length pre) = Some (c, MBreak (length pre))" "length buf \<le> 40" "fut \<noteq> []"
      then show ?thesis
        using assms(1-3) True l by (intro disjI2 exI [of _ c] exI [of _ pre] exI [of _ buf]) (simp add: bulk_step_def)
    qed
  next
    case False
    then have "bulklen c = int (length a)" using assms(2) by (simp add: todo_ok_def)
    then show ?thesis using assms(1,3,4) False by (intro arg [of c pre buf]) (auto simp: bulk_step_def tt)
  qed
qed

text \<open>The states between two reads: at the start of a command, or inside of one.\<close>

definition big_pending :: "client \<Rightarrow> bytes list \<Rightarrow> nat \<Rightarrow> bool" where
  "big_pending c todo n \<longleftrightarrow> todo \<noteq> [] \<and> bulklen c = int (length (hd todo)) \<and> 32768 \<le> length (hd todo) \<and> n \<le> length (hd todo) + 2"

definition waiting :: "client \<Rightarrow> nat \<Rightarrow> bool" where
  "waiting c n \<longleftrightarrow> (if bulklen c = - 1 then n \<le> 40 else int n < bulklen c + 2)"

lemma bulk_loop_cases:
  assumes "sds_rep (querybuf c) (pre @ buf)" "todo_ok c todo" "buf @ fut = todo_text (bulklen c) todo @ tail"
    "length (pre @ buf) \<le> 65536 \<or> (pre = [] \<and> big_pending c todo (length buf))"
  shows "\<exists>c' pre' buf'. bulk_loop c (length pre) = Some (c', MGo (length pre')) \<and> sds_rep (querybuf c') (pre' @ buf') \<and> same_flags c c' \<and>
    length (pre' @ buf') < 2 ^ 30 \<and>
    ((multibulklen c' = 0 \<and> bulklen c' = - 1 \<and> argv c' = argv c @ todo \<and> buf' @ fut = tail \<and> length buf' \<le> 65536) \<or>
     (\<exists>done' todo'. todo = done' @ todo' \<and> todo' \<noteq> [] \<and> argv c' = argv c @ done' \<and> todo_ok c' todo' \<and>
        buf' @ fut = todo_text (bulklen c') todo' @ tail \<and> fut \<noteq> [] \<and> waiting c' (length buf')))"
  using assms
proof (induction todo arbitrary: c pre buf)
  case Nil
  then have "multibulklen c = 0" "bulklen c = - 1" by (auto simp: todo_ok_def)
  then have "bulk_loop c (length pre) = Some (c, MGo (length pre))" by (subst bulk_loop.simps) simp
  then show ?case using Nil \<open>bulklen c = - 1\<close> \<open>multibulklen c = 0\<close> by (intro exI [of _ c] exI [of _ pre] exI [of _ buf]) (auto simp: big_pending_def)
next
  case (Cons a as)
  have m: "\<not> multibulklen c \<le> 0" using Cons.prems(2) by (simp add: todo_ok_def)
  have h: "length (pre @ buf) \<le> 65536 \<or> (pre = [] \<and> bulklen c = int (length a) \<and> 32768 \<le> length a \<and> length buf \<le> length a + 2)"
    using Cons.prems(4) by (auto simp: big_pending_def)
  from bulk_step_cases [OF Cons.prems(1-3) h] show ?case
  proof (elim disjE exE conjE)
    fix c1 pre1 buf1
    assume s: "bulk_step c (length pre) = Some (c1, MGo (length pre1))" "sds_rep (querybuf c1) (pre1 @ buf1)" "buf1 @ fut = todo_text (- 1) as @ tail"
      "argv c1 = argv c @ [a]" "bulklen c1 = - 1" "todo_ok c1 as" "same_flags c c1" "length (pre1 @ buf1) \<le> 65536"
    have run: "bulk_loop c (length pre) = bulk_loop c1 (length pre1)" using m s(1) by (subst bulk_loop.simps) simp
    have t: "buf1 @ fut = todo_text (bulklen c1) as @ tail" using s(3,5) by simp
    obtain c' pre' buf' where ih: "bulk_loop c1 (length pre1) = Some (c', MGo (length pre'))" "sds_rep (querybuf c') (pre' @ buf')" "same_flags c1 c'"
      "length (pre' @ buf') < 2 ^ 30"
      "(multibulklen c' = 0 \<and> bulklen c' = - 1 \<and> argv c' = argv c1 @ as \<and> buf' @ fut = tail \<and> length buf' \<le> 65536) \<or>
       (\<exists>done' todo'. as = done' @ todo' \<and> todo' \<noteq> [] \<and> argv c' = argv c1 @ done' \<and> todo_ok c' todo' \<and>
        buf' @ fut = todo_text (bulklen c') todo' @ tail \<and> fut \<noteq> [] \<and> waiting c' (length buf'))"
      using Cons.IH [OF s(2,6) t disjI1 [OF s(8)]] by blast
    have "same_flags c c'" using same_flags_trans [OF s(7) ih(3)] .
    moreover have "(multibulklen c' = 0 \<and> bulklen c' = - 1 \<and> argv c' = argv c @ a # as \<and> buf' @ fut = tail \<and> length buf' \<le> 65536) \<or>
       (\<exists>done' todo'. a # as = done' @ todo' \<and> todo' \<noteq> [] \<and> argv c' = argv c @ done' \<and> todo_ok c' todo' \<and>
        buf' @ fut = todo_text (bulklen c') todo' @ tail \<and> fut \<noteq> [] \<and> waiting c' (length buf'))"
      using ih(5) s(4) by (elim disjE exE conjE) (simp, metis append_Cons append.assoc append_Nil)
    ultimately show ?thesis unfolding run using ih(1,2,4) by blast
  next
    fix c' pre' buf'
    assume s: "bulk_step c (length pre) = Some (c', MBreak (length pre'))" "sds_rep (querybuf c') (pre' @ buf')"
      "buf' @ fut = todo_text (bulklen c') (a # as) @ tail" "argv c' = argv c" "todo_ok c' (a # as)" "same_flags c c'" "fut \<noteq> []"
      "if bulklen c' = - 1 then length buf' \<le> 40 else int (length buf') < bulklen c' + 2" "length (pre' @ buf') < 2 ^ 30"
    have run: "bulk_loop c (length pre) = Some (c', MGo (length pre'))" using m s(1) by (subst bulk_loop.simps) simp
    have w: "waiting c' (length buf')" using s(8) by (simp add: waiting_def)
    show ?thesis unfolding run
      using s(2-7,9) w by (intro exI [of _ c'] exI [of _ pre'] exI [of _ buf']) (fastforce intro: exI [of _ "[]"] exI [of _ "a # as"])
  qed
qed

section \<open>One call of the parser\<close>

lemma mb_count_cases:
  assumes "sds_rep (querybuf c) buf" "length buf \<le> 65536" "argv c = []" "buf @ fut = enc_line 42 n @ tail" "0 < n" "n \<le> 1048576"
  shows "(\<exists>buf'. buf = enc_line 42 n @ buf' \<and> buf' @ fut = tail \<and> mb_count c = Some (c\<lparr>multibulklen := int n\<rparr>, MGo (length (enc_line 42 n)))) \<or>
    (mb_count c = Some (c, MErr) \<and> length buf \<le> 40 \<and> fut \<noteq> [])"
proof -
  obtain junk where junk: "sds_buf (querybuf c) = buf @ 0 # junk" using sds_rep_buf [OF assms(1)] .
  have len: "sdslen (querybuf c) = length buf" using sds_rep_len [OF assms(1)] .
  have i32: "to_int32 (int (length buf)) = int (length buf)" using assms(2) by (subst to_int32_id) auto
  have dl: "length (dec n) \<le> 20" using assms(6) by (intro length_dec_31) simp
  have k: "(42 :: byte) \<noteq> 0" "(42 :: byte) \<noteq> 13" by simp_all
  from assms(4) k show ?thesis
  proof (cases rule: line_cases)
    case (full buf')
    have chr: "c_strchr 13 (sds_buf (querybuf c)) = Some (Some (length (42 # dec n)))"
      using strchr_found [of 13 "42 # dec n" "10 # buf' @ 0 # junk"] dec_plain [of n] by (simp add: junk full enc_line_def)
    have g: "mem_get (sds_buf (querybuf c)) 0 = Some 42" by (simp add: junk full enc_line_def mem_get_def)
    have rd: "mem_read (sds_buf (querybuf c)) (Suc 0) (length (dec n)) = Some (dec n)"
      by (simp add: junk full enc_line_def mem_read_def)
    have "\<not> int (length (42 # dec n)) > int (length buf) - 2" using full(1) by (simp add: enc_line_def)
    moreover have "length (42 # dec n) + 2 = length (enc_line 42 n)" by (simp add: enc_line_def)
    ultimately have "mb_count c = Some (c\<lparr>multibulklen := int n\<rparr>, MGo (length (enc_line 42 n)))"
      using assms(3,5,6) unfolding mb_count_def chr len i32 g by (simp add: rd string2ll_dec enc_line_def)
    then show ?thesis using full by blast
  next
    case no_lf
    have chr: "c_strchr 13 (sds_buf (querybuf c)) = Some (Some (length (42 # dec n)))"
      using strchr_found [of 13 "42 # dec n" "0 # junk"] dec_plain [of n] by (simp add: junk no_lf)
    have "mb_count c = Some (c, MErr)"
      using no_lf(1) assms(3) unfolding mb_count_def chr len i32 by simp
    then show ?thesis using no_lf dl by simp
  next
    case no_cr
    have chr: "c_strchr 13 (sds_buf (querybuf c)) = Some None" using strchr_none [of 13 buf junk] no_cr by (simp add: junk)
    have "mb_count c = Some (c, MErr)"
      unfolding mb_count_def chr mb_too_big_def len using assms(2,3) by (simp add: proto_consts)
    then show ?thesis using no_cr dl by simp
  qed
qed

text \<open>The client before a call, with the commands that are not executed yet and the text from the start of the query buffer on.\<close>

definition parser_state :: "client \<Rightarrow> bytes list list \<Rightarrow> bytes \<Rightarrow> bool" where
  "parser_state c cmds txt \<longleftrightarrow>
     (multibulklen c = 0 \<and> bulklen c = - 1 \<and> argv c = [] \<and> (reqtype c = 0 \<or> reqtype c = PROTO_REQ_MULTIBULK) \<and> txt = concat (map enc_cmd cmds)) \<or>
     (\<exists>todo rest. todo \<noteq> [] \<and> cmds = (argv c @ todo) # rest \<and> reqtype c = PROTO_REQ_MULTIBULK \<and> todo_ok c todo \<and>
        txt = todo_text (bulklen c) todo @ concat (map enc_cmd rest))"

definition buffer_small :: "client \<Rightarrow> nat \<Rightarrow> bool" where
  "buffer_small c n \<longleftrightarrow> n \<le> 65536 \<or> (multibulklen c \<noteq> 0 \<and> bulklen c \<ge> 32768 \<and> int n \<le> bulklen c + 2)"

definition can_run :: "client \<Rightarrow> bool" where
  "can_run c \<longleftrightarrow> \<not> blocked c \<and> \<not> close_after_reply c \<and> \<not> close_asap c \<and> error_replies c = []"

lemma can_run_same: "same_flags c c' \<Longrightarrow> can_run c \<Longrightarrow> can_run c'"
  by (simp add: same_flags_def can_run_def)

lemma after_loop:
  assumes "bulk_loop c (length pre) = Some (c', MGo (length pre'))" "sds_rep (querybuf c') (pre' @ buf')" "length (pre' @ buf') < 2 ^ 30"
  shows "\<exists>q. bulk_args c (length pre) = Some (c'\<lparr>querybuf := q\<rparr>, multibulklen c' = 0) \<and> sds_rep q buf'"
proof -
  obtain q where q: "(if length pre' \<noteq> 0 then sdsrange (querybuf c') (int (length pre')) (- 1) else Some (querybuf c')) = Some q" "sds_rep q buf'"
    using sdsrange_drop [OF assms(2), of "length pre'"] assms(2,3) by (cases "length pre' = 0") auto
  then show ?thesis
    unfolding bulk_args_def assms(1) Option.bind.bind_lunit prod.case mb_next.case q(1) Let_def by auto
qed

lemma processMultibulkBuffer_cases:
  assumes "parser_state c cmds (buf @ fut)" "reqtype c = PROTO_REQ_MULTIBULK" "sds_rep (querybuf c) buf" "buf \<noteq> []"
    "buffer_small c (length buf)" "list_all cmd_ok cmds"
  shows "(\<exists>c' args rest buf'. processMultibulkBuffer c = Some (c', True) \<and> cmds = args # rest \<and> argv c' = args \<and> same_flags c c' \<and>
      sds_rep (querybuf c') buf' \<and> buf' @ fut = concat (map enc_cmd rest) \<and> length buf' \<le> 65536) \<or>
    (\<exists>c' buf'. processMultibulkBuffer c = Some (c', False) \<and> parser_state c' cmds (buf' @ fut) \<and> same_flags c c' \<and>
      sds_rep (querybuf c') buf' \<and> waiting c' (length buf') \<and> fut \<noteq> [])"
proof -
  have loop: ?thesis
    if r: "(if multibulklen c = 0 then mb_count c else Some (c, MGo 0)) = Some (c1, MGo (length pre))" "multibulklen c1 > 0"
      and c1: "sds_rep (querybuf c1) (pre @ buf1)" "todo_ok c1 todo" "buf1 @ fut = todo_text (bulklen c1) todo @ concat (map enc_cmd rest)"
        "length (pre @ buf1) \<le> 65536 \<or> (pre = [] \<and> big_pending c1 todo (length buf1))" "same_flags c c1" "cmds = (argv c1 @ todo) # rest"
    for c1 pre buf1 todo rest
  proof -
    obtain c' pre' buf' where l: "bulk_loop c1 (length pre) = Some (c', MGo (length pre'))" "sds_rep (querybuf c') (pre' @ buf')" "same_flags c1 c'"
      "length (pre' @ buf') < 2 ^ 30"
      "(multibulklen c' = 0 \<and> bulklen c' = - 1 \<and> argv c' = argv c1 @ todo \<and> buf' @ fut = concat (map enc_cmd rest) \<and> length buf' \<le> 65536) \<or>
       (\<exists>done' todo'. todo = done' @ todo' \<and> todo' \<noteq> [] \<and> argv c' = argv c1 @ done' \<and> todo_ok c' todo' \<and>
          buf' @ fut = todo_text (bulklen c') todo' @ concat (map enc_cmd rest) \<and> fut \<noteq> [] \<and> waiting c' (length buf'))"
      using bulk_loop_cases [OF c1(1-4)] by blast
    obtain q where q: "processMultibulkBuffer c = Some (c'\<lparr>querybuf := q\<rparr>, multibulklen c' = 0)" "sds_rep q buf'"
      using after_loop [OF l(1,2,4)] r(2) unfolding processMultibulkBuffer_def r(1) Option.bind.bind_lunit prod.case mb_next.case by auto
    have fl: "same_flags c (c'\<lparr>querybuf := q\<rparr>)" using c1(5) l(3) by (simp add: same_flags_def)
    from l(5) show ?thesis
    proof (elim disjE exE conjE)
      assume "multibulklen c' = 0" "argv c' = argv c1 @ todo" "buf' @ fut = concat (map enc_cmd rest)" "length buf' \<le> 65536"
      then show ?thesis using q fl c1(6) by auto
    next
      fix done' todo'
      assume t: "todo = done' @ todo'" "todo' \<noteq> []" "argv c' = argv c1 @ done'" "todo_ok c' todo'"
        "buf' @ fut = todo_text (bulklen c') todo' @ concat (map enc_cmd rest)" "fut \<noteq> []" "waiting c' (length buf')"
      have "multibulklen c' \<noteq> 0" using t(2,4) by (simp add: todo_ok_def)
      moreover have "parser_state (c'\<lparr>querybuf := q\<rparr>) cmds (buf' @ fut)"
        using t c1(6) fl assms(2) unfolding parser_state_def by (intro disjI2 exI [of _ todo'] exI [of _ rest]) (simp add: todo_ok_def same_flags_def)
      ultimately show ?thesis
        using q fl t(6,7) by (intro disjI2 exI [of _ "c'\<lparr>querybuf := q\<rparr>"] exI [of _ buf']) (simp add: waiting_def)
    qed
  qed
  show ?thesis
  proof (cases "multibulklen c = 0")
    case True
    then have st: "bulklen c = - 1" "argv c = []" "buf @ fut = concat (map enc_cmd cmds)"
      using assms(1) by (auto simp: parser_state_def todo_ok_def)
    obtain args rest where cm: "cmds = args # rest" using st(3) assms(4) by (cases cmds) auto
    have ok: "args \<noteq> []" "length args \<le> 1048576" "list_all (\<lambda>a. length a \<le> 536870912) args" using assms(6) cm by (simp_all add: cmd_ok_def)
    have l: "length buf \<le> 65536" using assms(5) True by (simp add: buffer_small_def)
    have tx: "buf @ fut = enc_line 42 (length args) @ concat (map enc_arg args) @ concat (map enc_cmd rest)" using st(3) cm by (simp add: enc_cmd_def)
    have "0 < length args" using ok(1) by simp
    from mb_count_cases [OF assms(3) l st(2) tx this ok(2)] show ?thesis
    proof (elim disjE exE conjE)
      fix buf1
      assume b1: "buf = enc_line 42 (length args) @ buf1" "buf1 @ fut = concat (map enc_arg args) @ concat (map enc_cmd rest)"
        "mb_count c = Some (c\<lparr>multibulklen := int (length args)\<rparr>, MGo (length (enc_line 42 (length args))))"
      have tt: "concat (map enc_arg args) = todo_text (- 1) args" by (cases args) auto
      show ?thesis
        by (rule loop [of "c\<lparr>multibulklen := int (length args)\<rparr>" "enc_line 42 (length args)" buf1 args rest])
          (use b1 tt assms(3) st l ok cm True in \<open>auto simp: todo_ok_def same_flags_def\<close>)
    next
      assume e: "mb_count c = Some (c, MErr)" "length buf \<le> 40" "fut \<noteq> []"
      have "processMultibulkBuffer c = Some (c, False)" unfolding processMultibulkBuffer_def using e(1) True by simp
      then show ?thesis
        using e(2,3) assms(1,3) st(1) by (intro disjI2 exI [of _ c] exI [of _ buf]) (simp add: waiting_def)
    qed
  next
    case False
    then obtain todo rest where t: "todo \<noteq> []" "cmds = (argv c @ todo) # rest" "todo_ok c todo"
      "buf @ fut = todo_text (bulklen c) todo @ concat (map enc_cmd rest)" using assms(1) by (auto simp: parser_state_def)
    have "multibulklen c > 0" using t(1,3) by (simp add: todo_ok_def)
    moreover have "length buf \<le> 65536 \<or> big_pending c todo (length buf)"
      using assms(5) t(1,3) by (auto simp: buffer_small_def big_pending_def todo_ok_def)
    ultimately show ?thesis using False t assms(3) by (intro loop [of c "[]" buf todo rest]) auto
  qed
qed

section \<open>The input loop\<close>

text \<open>Commands that run to completion: \<open>processCommand\<close> returns \<open>C_OK\<close> and does not block, close or free the client, and nobody pauses the clients.\<close>

definition runs_all :: "('w \<Rightarrow> bytes list \<Rightarrow> 'w \<times> cmd_outcome) \<Rightarrow> ('w \<Rightarrow> bool) \<Rightarrow> bool" where
  "runs_all pc paused \<longleftrightarrow> (\<forall>w args. snd (pc w args) = \<lparr>out_ok = True, out_close = False, out_asap = False, out_blocked = False, out_freed = False\<rparr>) \<and>
     (\<forall>w. \<not> paused w)"

definition exec_all :: "('w \<Rightarrow> bytes list \<Rightarrow> 'w \<times> cmd_outcome) \<Rightarrow> 'w \<Rightarrow> bytes list list \<Rightarrow> 'w" where
  "exec_all pc w cmds = foldl (\<lambda>w args. fst (pc w args)) w cmds"

lemma waiting_empty: "parser_state c cmds txt \<Longrightarrow> waiting c 0"
  by (auto simp: parser_state_def waiting_def todo_ok_def)

lemma enc_cmd_hd: "concat (map enc_cmd cmds) = x # xs \<Longrightarrow> x = 42"
  by (cases cmds) (auto simp: enc_cmd_def enc_line_def)

lemma processInputBuffer_step:
  assumes "runs_all pc paused" "sds_rep (querybuf c) buf" "buf \<noteq> []" "can_run c" "parser_state c cmds (buf @ fut)"
  shows "\<exists>c1. parser_state c1 cmds (buf @ fut) \<and> reqtype c1 = PROTO_REQ_MULTIBULK \<and> querybuf c1 = querybuf c \<and> can_run c1 \<and>
    multibulklen c1 = multibulklen c \<and> bulklen c1 = bulklen c \<and>
    processInputBuffer pc paused c w = Option.bind (processMultibulkBuffer c1) (\<lambda>(c, ok).
      if \<not> ok then Some (c, w)
      else if argv c = [] then processInputBuffer pc paused (resetClient c) w
      else processInputBuffer pc paused (resetClient (c\<lparr>blocked := False\<rparr>)) (fst (pc w (argv c))))"
proof -
  obtain junk where junk: "sds_buf (querybuf c) = buf @ 0 # junk" using sds_rep_buf [OF assms(2)] .
  have n: "sdslen (querybuf c) \<noteq> 0" using sds_rep_len [OF assms(2)] assms(3) by simp
  have fl: "\<not> blocked c" "\<not> close_after_reply c" "\<not> close_asap c" "error_replies c = []" using assms(4) by (simp_all add: can_run_def)
  have rt: "reqtype c = 0 \<or> reqtype c = PROTO_REQ_MULTIBULK" using assms(5) by (auto simp: parser_state_def)
  let ?c = "c\<lparr>reqtype := PROTO_REQ_MULTIBULK\<rparr>"
  have "(if reqtype c = 0 then map_option (\<lambda>x. c\<lparr>reqtype := (if x = 42 then PROTO_REQ_MULTIBULK else PROTO_REQ_INLINE)\<rparr>) (mem_get (sds_buf (querybuf c)) 0)
         else Some c) = Some ?c"
  proof (cases "reqtype c = 0")
    case True
    then have "concat (map enc_cmd cmds) = buf @ fut" using assms(5) by (auto simp: parser_state_def proto_consts)
    then have "hd buf = 42" using enc_cmd_hd [of cmds "hd buf" "tl buf @ fut"] assms(3) by simp
    then have "mem_get (sds_buf (querybuf c)) 0 = Some 42" using assms(3) by (cases buf) (auto simp: junk mem_get_def)
    then show ?thesis using True by simp
  qed (use rt in auto)
  moreover have "parser_state ?c cmds (buf @ fut)" using assms(5) rt by (auto simp: parser_state_def todo_ok_def)
  moreover have "processInputBuffer pc paused c w = Option.bind (processMultibulkBuffer ?c) (\<lambda>(c, ok).
      if \<not> ok then Some (c, w)
      else if argv c = [] then processInputBuffer pc paused (resetClient c) w
      else processInputBuffer pc paused (resetClient (c\<lparr>blocked := False\<rparr>)) (fst (pc w (argv c))))"
  proof -
    have r: "\<not> paused w" "snd (pc w a) = \<lparr>out_ok = True, out_close = False, out_asap = False, out_blocked = False, out_freed = False\<rparr>" for w a
      using assms(1) by (simp_all add: runs_all_def)
    have rt': "reqtype ?c = PROTO_REQ_MULTIBULK" "PROTO_REQ_MULTIBULK \<noteq> PROTO_REQ_INLINE" by (simp_all add: proto_consts)
    have same: "c'\<lparr>close_after_reply := close_after_reply c', close_asap := close_asap c', blocked := b\<rparr> = c'\<lparr>blocked := b\<rparr>" for c' b
      by (cases c') simp
    show ?thesis
      by (subst processInputBuffer.simps)
        (simp only: n r fl rt' simp_thms if_False if_True calculation(1) Option.bind.bind_lunit Let_def split_beta cmd_outcome.simps same)
  qed
  ultimately show ?thesis using assms(4) by (intro exI [of _ ?c]) (auto simp: can_run_def)
qed

lemma processInputBuffer_runs:
  assumes "runs_all pc paused"
  shows "parser_state c cmds (buf @ fut) \<Longrightarrow> sds_rep (querybuf c) buf \<Longrightarrow> buffer_small c (length buf) \<Longrightarrow> can_run c \<Longrightarrow> list_all cmd_ok cmds \<Longrightarrow>
    \<exists>c' n buf'. processInputBuffer pc paused c w = Some (c', exec_all pc w (take n cmds)) \<and> parser_state c' (drop n cmds) (buf' @ fut) \<and>
      sds_rep (querybuf c') buf' \<and> can_run c' \<and> waiting c' (length buf') \<and> (fut = [] \<longrightarrow> buf' = [])"
proof (induction cmds arbitrary: c buf w rule: measure_induct_rule [of length])
  case (less cmds)
  show ?case
  proof (cases "buf = []")
    case True
    then have "sdslen (querybuf c) = 0" using sds_rep_len [OF less(3)] by simp
    then have "processInputBuffer pc paused c w = Some (c, exec_all pc w (take 0 cmds))"
      by (subst processInputBuffer.simps) (simp add: exec_all_def)
    then show ?thesis using less(2,3,5) True waiting_empty [OF less(2)] by (intro exI [of _ c] exI [of _ 0] exI [of _ buf]) simp
  next
    case False
    obtain c1 where c1: "parser_state c1 cmds (buf @ fut)" "reqtype c1 = PROTO_REQ_MULTIBULK" "querybuf c1 = querybuf c" "can_run c1"
      "multibulklen c1 = multibulklen c" "bulklen c1 = bulklen c"
      "processInputBuffer pc paused c w = Option.bind (processMultibulkBuffer c1) (\<lambda>(c, ok).
        if \<not> ok then Some (c, w)
        else if argv c = [] then processInputBuffer pc paused (resetClient c) w
        else processInputBuffer pc paused (resetClient (c\<lparr>blocked := False\<rparr>)) (fst (pc w (argv c))))"
      using processInputBuffer_step [OF assms less(3) False less(5,2)] by blast
    have b: "sds_rep (querybuf c1) buf" "buffer_small c1 (length buf)" using less(3,4) c1(3,5,6) by (simp_all add: buffer_small_def)
    from processMultibulkBuffer_cases [OF c1(1,2) b(1) False b(2) less(6)] show ?thesis
    proof (elim disjE exE conjE)
      fix c2 args rest buf2
      assume d: "processMultibulkBuffer c1 = Some (c2, True)" "cmds = args # rest" "argv c2 = args" "same_flags c1 c2" "sds_rep (querybuf c2) buf2"
        "buf2 @ fut = concat (map enc_cmd rest)" "length buf2 \<le> 65536"
      let ?c = "resetClient (c2\<lparr>blocked := False\<rparr>)"
      have ne: "args \<noteq> []" using less(6) d(2) by (simp add: cmd_ok_def)
      have "parser_state ?c rest (buf2 @ fut)" using d(6) by (simp add: parser_state_def resetClient_def)
      moreover have "sds_rep (querybuf ?c) buf2" "buffer_small ?c (length buf2)" using d(5,7) by (simp_all add: resetClient_def buffer_small_def)
      moreover have "can_run ?c" using c1(4) d(4) by (simp add: can_run_def same_flags_def resetClient_def)
      ultimately obtain c' n buf' where ih: "processInputBuffer pc paused ?c (fst (pc w args)) = Some (c', exec_all pc (fst (pc w args)) (take n rest))"
        "parser_state c' (drop n rest) (buf' @ fut)" "sds_rep (querybuf c') buf'" "can_run c'" "waiting c' (length buf')" "fut = [] \<longrightarrow> buf' = []"
        using less(1) [of rest ?c buf2 "fst (pc w args)"] less(6) d(2) by (auto simp: cmd_ok_def)
      have "processInputBuffer pc paused c w = Some (c', exec_all pc w (take (Suc n) cmds))"
        using ih(1) ne unfolding c1(7) d(1) by (simp add: d(2,3) exec_all_def)
      then show ?thesis using ih(2-6) d(2) by (intro exI [of _ c'] exI [of _ "Suc n"] exI [of _ buf']) simp
    next
      fix c' buf'
      assume d: "processMultibulkBuffer c1 = Some (c', False)" "parser_state c' cmds (buf' @ fut)" "same_flags c1 c'" "sds_rep (querybuf c') buf'"
        "waiting c' (length buf')" "fut \<noteq> []"
      have "processInputBuffer pc paused c w = Some (c', exec_all pc w (take 0 cmds))" unfolding c1(7) d(1) by (simp add: exec_all_def)
      then show ?thesis
        using d can_run_same [OF d(3) c1(4)] by (intro exI [of _ c'] exI [of _ 0] exI [of _ buf']) simp
    qed
  qed
qed

section \<open>Reading\<close>

lemma parser_state_bulk:
  assumes "parser_state c cmds txt" "list_all cmd_ok cmds" "bulklen c \<noteq> - 1"
  shows "0 \<le> bulklen c" "bulklen c \<le> 536870912" "multibulklen c \<noteq> 0" "reqtype c = PROTO_REQ_MULTIBULK"
proof -
  obtain todo rest where t: "todo \<noteq> []" "cmds = (argv c @ todo) # rest" "reqtype c = PROTO_REQ_MULTIBULK" "todo_ok c todo"
    using assms(1,3) by (auto simp: parser_state_def)
  then show "0 \<le> bulklen c" "bulklen c \<le> 536870912" "multibulklen c \<noteq> 0" "reqtype c = PROTO_REQ_MULTIBULK"
    using assms(3) by (cases todo; auto simp: todo_ok_def)+
qed

lemma read_len_bounds:
  assumes "parser_state c cmds txt" "list_all cmd_ok cmds" "sds_rep (querybuf c) buf" "waiting c (length buf)"
  shows "1 \<le> read_len c" "read_len c \<le> 16384" "int n \<le> read_len c \<Longrightarrow> buffer_small c (length buf + n)" "length buf < 536870920"
proof -
  have len: "sdslen (querybuf c) = length buf" using sds_rep_len [OF assms(3)] .
  have "1 \<le> read_len c \<and> read_len c \<le> 16384 \<and> (int n \<le> read_len c \<longrightarrow> buffer_small c (length buf + n)) \<and> length buf < 536870920" for n
  proof (cases "bulklen c = - 1")
    case True
    then show ?thesis using assms(4) by (simp add: read_len_def proto_consts waiting_def buffer_small_def)
  next
    case False
    note b = parser_state_bulk [OF assms(1,2) False]
    have w: "int (length buf) < bulklen c + 2" using assms(4) False by (simp add: waiting_def)
    have "(bulklen c + 2) mod 2 ^ 32 = bulklen c + 2" using b by simp
    moreover have "to_int32 (bulklen c + 2 - int (length buf)) = bulklen c + 2 - int (length buf)" using b w by (subst to_int32_id) auto
    ultimately have "read_len c = (if bulklen c \<ge> 32768 then min (bulklen c + 2 - int (length buf)) 16384 else 16384)"
      using b(3,4) False by (simp add: read_len_def Let_def len proto_consts min_def)
    then show ?thesis using w b by (auto simp: buffer_small_def split: if_splits)
  qed
  then show "1 \<le> read_len c" "read_len c \<le> 16384" "int n \<le> read_len c \<Longrightarrow> buffer_small c (length buf + n)" "length buf < 536870920" by blast+
qed

lemma append_read:
  assumes "sds_rep q buf" "data \<noteq> []" "length data \<le> n" "length buf + n < 2 ^ 62"
  shows "\<exists>q1 q2 q'. sdsMakeRoomFor q n = Some q1 \<and> buf_write q1 (length buf) data = Some q2 \<and> sdsIncrLen q2 (int (length data)) = Some q' \<and>
    sds_rep q' (buf @ data)"
proof -
  have ok: "sds_ok q" "sds_str q = buf" "sdslen q = length buf" using assms(1) sds_rep_len [OF assms(1)] by (simp_all add: sds_rep_def)
  obtain q1 where q1: "sdsMakeRoomFor q n = Some q1" "sds_ok q1" "sds_str q1 = buf" "sdslen q1 = length buf" "length buf + n \<le> sdsalloc q1"
    using sdsMakeRoomFor_exact [OF ok(1), of n] assms(4) ok(2,3) by auto
  let ?b = "take (length buf) (sds_buf q1) @ data @ drop (length buf + length data) (sds_buf q1)"
  let ?q2 = "q1\<lparr>sds_buf := ?b\<rparr>"
  have l: "length buf + n < length (sds_buf q1)" using q1(2,5) by (simp add: sds_ok_def)
  have w: "buf_write q1 (length buf) data = Some ?q2" using l assms(3) by (simp add: buf_write_def mem_write_def)
  have f: "sds_fit ?q2" "sdslen ?q2 = length buf" "sdsalloc ?q2 = sdsalloc q1"
  proof -
    have "sdslen ?q2 = sdslen q1" by (simp add: sdslen_def)
    then show s: "sdslen ?q2 = length buf" "sdsalloc ?q2 = sdsalloc q1" using q1(4) by (simp_all add: sdsalloc_def)
    have "length ?b = length (sds_buf q1)" using l assms(3) by simp
    then show "sds_fit ?q2" using q1(2) q1(4) s by (simp add: sds_ok_def sds_fit_def)
  qed
  obtain q' where q': "sdsIncrLen ?q2 (int (length data)) = Some q'" "sds_ok q'" "sds_str q' = take (length buf + length data) ?b"
    using sdsIncrLen_exact [OF f(1), of "int (length data)"] f(2,3) q1(5) assms(2,3) by (auto simp: nat_int_add)
  have "take (length buf) (sds_buf q1) = buf" using q1(3,4) by (simp add: sds_str_def)
  then have "sds_str q' = buf @ data" using q'(3) by simp
  then show ?thesis using q1(1) w q'(1,2) by (auto simp: sds_rep_def)
qed

lemma readQueryFromClient_runs:
  assumes "runs_all pc paused" "parser_state c cmds (buf @ data @ fut)" "sds_rep (querybuf c) buf" "waiting c (length buf)" "can_run c"
    "list_all cmd_ok cmds" "data \<noteq> []" "int (length data) \<le> read_len c" "536870914 \<le> maxlen"
  shows "\<exists>c' n buf'. readQueryFromClient pc paused maxlen data c w = Some (Some (c', exec_all pc w (take n cmds))) \<and>
      parser_state c' (drop n cmds) (buf' @ fut) \<and> sds_rep (querybuf c') buf' \<and> can_run c' \<and> waiting c' (length buf') \<and> (fut = [] \<longrightarrow> buf' = [])"
proof -
  note rl = read_len_bounds [OF assms(2,6,3,4)]
  have len: "sdslen (querybuf c) = length buf" using sds_rep_len [OF assms(3)] .
  obtain q1 q2 q' where q: "sdsMakeRoomFor (querybuf c) (nat (read_len c)) = Some q1" "buf_write q1 (length buf) data = Some q2"
    "sdsIncrLen q2 (int (length data)) = Some q'" "sds_rep q' (buf @ data)"
  proof -
    have "length data \<le> nat (read_len c)" "length buf + nat (read_len c) < 2 ^ 62" using assms(8) rl(2,4) by simp_all
    from append_read [OF assms(3,7) this] that show ?thesis by blast
  qed
  let ?c = "c\<lparr>querybuf := q'\<rparr>"
  have bs: "buffer_small c (length buf + length data)" using rl(3) assms(8) by blast
  have "sdslen q' \<le> 536870914"
  proof -
    have "bulklen c \<le> 536870912" using parser_state_bulk(2) [OF assms(2,6)] by (cases "bulklen c = - 1") auto
    then show ?thesis using sds_rep_len [OF q(4)] bs by (auto simp: buffer_small_def)
  qed
  then have run: "readQueryFromClient pc paused maxlen data c w = map_option Some (processInputBuffer pc paused ?c w)"
    using q(1-3) len assms(9) by (simp add: readQueryFromClient_def Let_def)
  have "parser_state ?c cmds ((buf @ data) @ fut)" using assms(2) by (simp add: parser_state_def todo_ok_def)
  moreover have "buffer_small ?c (length (buf @ data))" using bs by (simp add: buffer_small_def)
  moreover have "can_run ?c" using assms(5) by (simp add: can_run_def)
  ultimately show ?thesis
    using processInputBuffer_runs [OF assms(1), of ?c cmds "buf @ data" fut w] q(4) assms(6) unfolding run by auto
qed

text \<open>A connection: the stream arrives in pieces.  Each read returns at least one byte and at most what was asked for and what is there; the numbers
  say how much above one.\<close>

fun feed :: "('w \<Rightarrow> bytes list \<Rightarrow> 'w \<times> cmd_outcome) \<Rightarrow> ('w \<Rightarrow> bool) \<Rightarrow> nat \<Rightarrow> nat list \<Rightarrow> bytes \<Rightarrow> client \<Rightarrow> 'w \<Rightarrow> (client \<times> 'w \<times> bytes) option option" where
  "feed pc paused maxlen [] stream c w = Some (Some (c, w, stream))"
| "feed pc paused maxlen (n # ns) stream c w =
     (if stream = [] then Some (Some (c, w, stream))
      else let k = min (Suc n) (min (nat (read_len c)) (length stream)) in
        Option.bind (readQueryFromClient pc paused maxlen (take k stream) c w) (\<lambda>r.
          case r of None \<Rightarrow> Some None | Some (c, w) \<Rightarrow> feed pc paused maxlen ns (drop k stream) c w))"

lemma feed_runs:
  assumes "runs_all pc paused" "536870914 \<le> maxlen"
  shows "parser_state c cmds (buf @ stream) \<Longrightarrow> sds_rep (querybuf c) buf \<Longrightarrow> waiting c (length buf) \<Longrightarrow> can_run c \<Longrightarrow> list_all cmd_ok cmds \<Longrightarrow>
    (stream = [] \<longrightarrow> buf = []) \<Longrightarrow> length stream \<le> length ns \<Longrightarrow>
    \<exists>c' n. feed pc paused maxlen ns stream c w = Some (Some (c', exec_all pc w (take n cmds), [])) \<and> parser_state c' (drop n cmds) [] \<and>
      sds_rep (querybuf c') [] \<and> can_run c'"
proof (induction ns arbitrary: c cmds buf stream w)
  case Nil
  then show ?case by (intro exI [of _ c] exI [of _ 0]) (simp add: exec_all_def)
next
  case (Cons m ns)
  show ?case
  proof (cases "stream = []")
    case True
    then show ?thesis using Cons.prems by (intro exI [of _ c] exI [of _ 0]) (simp add: exec_all_def)
  next
    case False
    define k where "k = min (Suc m) (min (nat (read_len c)) (length stream))"
    have "1 \<le> read_len c" using read_len_bounds(1) [OF Cons.prems(1,5,2,3)] .
    then have k: "1 \<le> k" "k \<le> length stream" "int k \<le> read_len c" using False by (cases stream; auto simp: k_def min_def)+
    have st: "parser_state c cmds (buf @ take k stream @ drop k stream)" using Cons.prems(1) by simp
    obtain c1 n buf1 where r: "readQueryFromClient pc paused maxlen (take k stream) c w = Some (Some (c1, exec_all pc w (take n cmds)))"
      "parser_state c1 (drop n cmds) (buf1 @ drop k stream)" "sds_rep (querybuf c1) buf1" "can_run c1" "waiting c1 (length buf1)"
      "drop k stream = [] \<longrightarrow> buf1 = []"
      using readQueryFromClient_runs [OF assms(1) st Cons.prems(2,3,4,5) _ _ assms(2), of w] k False by auto
    have "list_all cmd_ok (drop n cmds)" using Cons.prems(5) by (meson in_set_dropD list_all_iff)
    then obtain c' n' where ih: "feed pc paused maxlen ns (drop k stream) c1 (exec_all pc w (take n cmds)) =
        Some (Some (c', exec_all pc (exec_all pc w (take n cmds)) (take n' (drop n cmds)), []))" "parser_state c' (drop n' (drop n cmds)) []"
      "sds_rep (querybuf c') []" "can_run c'"
    proof -
      have l: "length (drop k stream) \<le> length ns" using Cons.prems(7) k(1,2) by simp
      from Cons.IH [OF r(2,3,5,4) _ r(6) l] \<open>list_all cmd_ok (drop n cmds)\<close> that show ?thesis by blast
    qed
    have "exec_all pc (exec_all pc w (take n cmds)) (take n' (drop n cmds)) = exec_all pc w (take (n + n') cmds)"
      by (simp add: exec_all_def take_add)
    then show ?thesis
      using ih r(1) False by (intro exI [of _ c'] exI [of _ "n + n'"]) (simp add: k_def [symmetric] Let_def add.commute)
  qed
qed

section \<open>The encoder\<close>

lemma cat_header_rep:
  assumes "sds_rep dst xs" "n < 2 ^ 63" "length xs + 40 < 2 ^ 62"
  shows "\<exists>s. cat_header dst k n = Some s \<and> sds_rep s (xs @ enc_line k n)"
proof -
  have r: "int64_range (int n)" "idec (int n) = dec n" using assms(2) by (simp_all add: int64_range_def idec_def)
  have l: "length (dec n) \<le> 20" using assms(2) by (intro length_dec_64) simp
  define z :: bytes where "z = replicate (29 - length (dec n)) 0"
  have z: "drop (Suc (length (dec n))) (replicate 31 (0 :: byte)) = 0 # z"
    using l by (simp add: z_def drop_replicate flip: replicate_Suc)
  have w: "ll2string (replicate 31 0) 31 (int n) = Some (dec n @ 0 # 0 # z, length (dec n))"
    using ll2string_writes [OF r(1), of 31 "replicate 31 0"] l z by (simp add: r(2))
  have "mem_set (k # dec n @ 0 # 0 # z) (1 + length (dec n)) 13 = Some (k # dec n @ 13 # 0 # z)"
    "mem_set (k # dec n @ 13 # 0 # z) (2 + length (dec n)) 10 = Some (k # dec n @ 13 # 10 # z)"
    using mem_set_mid [of "1 + length (dec n)" "k # dec n" 0 "0 # z" 13] mem_set_mid [of "2 + length (dec n)" "k # dec n @ [13]" 0 z 10] by simp_all
  then have "cat_header dst k n = sdscatlen dst (k # dec n @ 13 # 10 # z) (3 + length (dec n))"
    unfolding cat_header_def w by (simp add: Let_def)
  moreover have "take (3 + length (dec n)) (k # dec n @ 13 # 10 # z) = enc_line k n"
  proof -
    have "k # dec n @ 13 # 10 # z = enc_line k n @ z" "3 + length (dec n) = length (enc_line k n)" by (simp_all add: enc_line_def)
    then show ?thesis by (metis append_eq_conv_conj)
  qed
  ultimately show ?thesis
    using sdscatlen_rep [OF assms(1), of "3 + length (dec n)" "k # dec n @ 13 # 10 # z"] l assms(3) by simp
qed

definition wire_size :: "bytes list \<Rightarrow> nat" where
  "wire_size args = (\<Sum>a\<leftarrow>args. length a + 40) + 40"

lemma cat_arguments_rep:
  "sds_rep dst xs \<Longrightarrow> tokens_rep obs args \<Longrightarrow> length xs + wire_size args < 2 ^ 62 \<Longrightarrow>
   \<exists>s. cat_arguments dst obs = Some s \<and> sds_rep s (xs @ concat (map enc_arg args))"
proof (induction obs arbitrary: dst xs args)
  case Nil
  then show ?case by (simp add: tokens_rep_def)
next
  case (Cons ob obs)
  then obtain a as where a: "args = a # as" "sds_rep ob a" "tokens_rep obs as" by (auto simp: tokens_rep_def list_all2_Cons1)
  have len: "sdslen ob = length a" and buf: "take (length a) (sds_buf ob) = a" "length a \<le> length (sds_buf ob)"
    using sds_rep_len [OF a(2)] a(2) by (auto simp: sds_rep_def sds_str_def sds_ok_def)
  have sz: "length xs + length a + 40 + wire_size as < 2 ^ 62" using Cons.prems(3) a(1) by (simp add: wire_size_def)
  have dl: "length (dec (length a)) \<le> 20" using sz by (intro length_dec_64) simp
  have hd: "length a < 2 ^ 63" "length xs + 40 < 2 ^ 62" using sz by simp_all
  obtain s1 where s1: "cat_header dst 36 (length a) = Some s1" "sds_rep s1 (xs @ enc_line 36 (length a))"
    using cat_header_rep [OF Cons.prems(1) hd] by blast
  have b2: "length (xs @ enc_line 36 (length a)) + length a < 2 ^ 62" using sz dl by (simp add: enc_line_def)
  obtain s2 where s2: "sdscatlen s1 (sds_buf ob) (length a) = Some s2" "sds_rep s2 ((xs @ enc_line 36 (length a)) @ a)"
    using sdscatlen_rep [OF s1(2) buf(2) b2] buf(1) by auto
  have b3: "length ((xs @ enc_line 36 (length a)) @ a) + 2 < 2 ^ 62" using sz dl by (simp add: enc_line_def)
  obtain s3 where s3: "sdscatlen s2 [13, 10] 2 = Some s3" "sds_rep s3 (xs @ enc_arg a)"
    using sdscatlen_rep [OF s2(2) _ b3, of "[13, 10]"] by (auto simp: enc_arg_def)
  have "length (xs @ enc_arg a) + wire_size as < 2 ^ 62" using sz dl by (simp add: enc_arg_def enc_line_def)
  from Cons.IH [OF s3(2) a(3) this] show ?case
    using s1(1) s2(1) s3(1) len a(1) by simp
qed

lemma catAppendOnlyGenericCommand_rep:
  assumes "sds_rep dst xs" "tokens_rep obs args" "length xs + wire_size args + 40 < 2 ^ 62"
  shows "\<exists>s. catAppendOnlyGenericCommand dst obs = Some s \<and> sds_rep s (xs @ enc_cmd args)"
proof -
  have len: "length obs = length args" using assms(2) by (auto simp: tokens_rep_def dest: list_all2_lengthD)
  have "40 * length args \<le> wire_size args"
  proof -
    have "40 * length ys \<le> (\<Sum>a\<leftarrow>ys. length a + 40)" for ys :: "bytes list" by (induction ys) auto
    then show ?thesis by (simp add: wire_size_def trans_le_add1)
  qed
  then have n: "length args < 2 ^ 63" "length xs + 40 < 2 ^ 62" "length (dec (length args)) \<le> 20" using assms(3) by (auto intro: length_dec_64)
  obtain s1 where s1: "cat_header dst 42 (length args) = Some s1" "sds_rep s1 (xs @ enc_line 42 (length args))"
    using cat_header_rep [OF assms(1) n(1,2)] by blast
  have "length (xs @ enc_line 42 (length args)) + wire_size args < 2 ^ 62" using assms(3) n(3) by (simp add: enc_line_def)
  from cat_arguments_rep [OF s1(2) assms(2) this] show ?thesis
    using s1(1) len by (simp add: catAppendOnlyGenericCommand_def enc_cmd_def)
qed

text \<open>The log of a sequence of commands, as the append only file receives it.\<close>

fun append_log :: "sds \<Rightarrow> sds list list \<Rightarrow> sds option" where
  "append_log s [] = Some s"
| "append_log s (args # cmds) = Option.bind (catAppendOnlyGenericCommand s args) (\<lambda>s. append_log s cmds)"

lemma length_enc_cmd: "list_all (\<lambda>a. length a < 2 ^ 60) args \<Longrightarrow> length args < 2 ^ 60 \<Longrightarrow> length (enc_cmd args) \<le> wire_size args"
proof -
  assume a: "list_all (\<lambda>a. length a < 2 ^ 60) args" and n: "length args < 2 ^ 60"
  have "length (enc_arg a) \<le> length a + 40" if "length a < 2 ^ 60" for a
    using length_dec_64 [of "length a"] that by (simp add: enc_arg_def enc_line_def)
  then have "length (concat (map enc_arg args)) \<le> (\<Sum>a\<leftarrow>args. length a + 40)" using a
    by (induction args) (auto intro: add_mono)
  moreover have "length (enc_line 42 (length args)) \<le> 40" using length_dec_64 [of "length args"] n by (simp add: enc_line_def)
  ultimately show ?thesis by (simp add: enc_cmd_def wire_size_def)
qed

lemma append_log_rep:
  "sds_rep s xs \<Longrightarrow> list_all2 tokens_rep obs cmds \<Longrightarrow> list_all cmd_ok cmds \<Longrightarrow> length xs + (\<Sum>args\<leftarrow>cmds. wire_size args + 40) < 2 ^ 62 \<Longrightarrow>
   \<exists>s'. append_log s obs = Some s' \<and> sds_rep s' (xs @ concat (map enc_cmd cmds))"
proof (induction obs arbitrary: s xs cmds)
  case (Cons ob obs)
  then obtain args rest where a: "cmds = args # rest" "tokens_rep ob args" "list_all2 tokens_rep obs rest" by (auto simp: list_all2_Cons1)
  have sz: "length xs + wire_size args + 40 < 2 ^ 62" using Cons.prems(4) a(1) by simp
  obtain s1 where s1: "catAppendOnlyGenericCommand s ob = Some s1" "sds_rep s1 (xs @ enc_cmd args)"
    using catAppendOnlyGenericCommand_rep [OF Cons.prems(1) a(2) sz] by blast
  have "list_all (\<lambda>a. length a < 2 ^ 60) args" "length args < 2 ^ 60" using Cons.prems(3) a(1) by (auto simp: cmd_ok_def list_all_iff)
  then have "length (xs @ enc_cmd args) + (\<Sum>args\<leftarrow>rest. wire_size args + 40) < 2 ^ 62" using length_enc_cmd [of args] Cons.prems(4) a(1) by simp
  from Cons.IH [OF s1(2) a(3) _ this] Cons.prems(3) a(1) s1(1) show ?case by simp
qed simp

section \<open>Inline requests\<close>

lemma sdsnewlen_buf:
  assumes "sdsnewlen (Some p) n = Some s" "n \<le> length p" "n < 2 ^ 64"
  shows "sds_buf s = take n p @ [0]"
proof -
  have l: "length (sds_buf s) = n + 1"
    using assms(1) by (auto simp: sdsnewlen_def Let_def buf_set_def buf_write_def bind_eq_Some_conv mem_set_def mem_write_def split: if_splits)
  obtain s' where "sdsnewlen (Some p) n = Some s'" "sds_rep s' (take n p)"
    using sdsnewlen_exact [of n "Some p"] assms(2,3) by (auto simp: sds_rep_def)
  then have "sds_rep s (take n p)" using assms(1) by simp
  then obtain junk where "sds_buf s = take n p @ 0 # junk" using sds_rep_buf by blast
  then show ?thesis using l assms(2) by simp
qed

lemma processInlineBuffer_exact:
  assumes "sds_rep (querybuf c) (line @ eol @ rest)" "eol = [13, 10] \<or> eol = [10]" "10 \<notin> set line" "0 \<notin> set line"
    "line = [] \<or> last line \<noteq> 13" "sdssplitargs (line @ [0]) = Some (Some args)" "length (line @ eol @ rest) < 2 ^ 30"
  shows "\<exists>c'. processInlineBuffer c = Some (c', True) \<and> argv c' = filter (\<lambda>a. a \<noteq> []) (map sds_str args) \<and>
    sds_rep (querybuf c') (if eol = [10] then drop 1 rest else rest) \<and> same_flags c c'"
proof -
  obtain junk where junk: "sds_buf (querybuf c) = (line @ eol @ rest) @ 0 # junk" using sds_rep_buf [OF assms(1)] .
  define nl where "nl = length line + length eol - 1"
  have chr: "c_strchr 10 (sds_buf (querybuf c)) = Some (Some nl)"
    using strchr_found [of 10 "line @ butlast eol" "rest @ 0 # junk"] assms(2,3,4) by (auto simp: junk nl_def)
  have cr: "(if nl \<noteq> 0 then do { x \<leftarrow> mem_get (sds_buf (querybuf c)) (nl - 1); Some (if x = 13 then nl - 1 else nl) } else Some nl) = Some (length line)"
  proof (cases "eol = [13, 10]")
    case True
    then have "nl = length line + 1" "mem_get (sds_buf (querybuf c)) (length line) = Some 13"
      by (simp_all add: nl_def junk mem_get_def nth_append)
    then show ?thesis by simp
  next
    case False
    then have e: "eol = [10]" "nl = length line" using assms(2) by (auto simp: nl_def)
    show ?thesis
    proof (cases "line = []")
      case False
      then have "mem_get (sds_buf (querybuf c)) (nl - 1) = Some (last line)"
        using e(2) by (cases line rule: rev_cases) (auto simp: junk mem_get_def nth_append)
      then show ?thesis using e(2) False assms(5) by simp
    qed (use e in simp)
  qed
  obtain aux where aux: "sdsnewlen (Some (sds_buf (querybuf c))) (length line) = Some aux"
    using sdsnewlen_exact [of "length line" "Some (sds_buf (querybuf c))"] assms(7) by (auto simp: junk)
  have ab: "sds_buf aux = line @ [0]" using sdsnewlen_buf [OF aux] assms(7) by (simp add: junk)
  have "\<exists>q. sdsrange (querybuf c) (int (length line + 2)) (- 1) = Some q \<and> sds_rep q (if eol = [10] then drop 1 rest else rest)"
  proof (cases "length line + 2 \<le> length (line @ eol @ rest)")
    case True
    then show ?thesis using sdsrange_drop [OF assms(1) _ True] assms(2,7) by (auto split: if_splits)
  next
    case False
    then have e: "eol = [10]" "rest = []" using assms(2) by (auto simp: Suc_le_eq)
    have ok: "sds_ok (querybuf c)" "sdslen (querybuf c) < 2 ^ 31" "sds_str (querybuf c) = line @ [10]" "int (length line + 2) < 2 ^ 31"
      using assms(1,7) sds_rep_len [OF assms(1)] e by (simp_all add: sds_rep_def)
    have "sub_range (line @ [10]) (int (length line + 2)) (- 1) = []" by (simp add: sub_range_def range_lo_def)
    then show ?thesis using sdsrange_exact [OF ok(1,2) _ ok(4), of "- 1"] e unfolding ok(3) by (auto simp: sds_rep_def)
  qed
  then obtain q where q: "sdsrange (querybuf c) (int (length line + 2)) (- 1) = Some q" "sds_rep q (if eol = [10] then drop 1 rest else rest)" by blast
  have "processInlineBuffer c = Some (c\<lparr>querybuf := q, argv := filter (\<lambda>a. a \<noteq> []) (map sds_str args)\<rparr>, True)"
    unfolding processInlineBuffer_def chr Option.bind.bind_lunit option.case cr Let_def aux ab assms(6) q(1) ..
  then show ?thesis using q(2) by (simp add: same_flags_def)
qed

section \<open>Properties\<close>

lemma parser_state_done: "parser_state c cmds [] \<Longrightarrow> cmds = []"
proof -
  assume "parser_state c cmds []"
  moreover have "todo_text b todo \<noteq> []" if "todo \<noteq> []" for b todo
    using that by (cases todo) (auto simp: enc_arg_def enc_line_def)
  moreover have "concat (map enc_cmd cmds) \<noteq> []" if "cmds \<noteq> []" for cmds
    using that by (cases cmds) (auto simp: enc_cmd_def enc_line_def)
  ultimately show "cmds = []" by (auto simp: parser_state_def)
qed

text \<open>
  C6: Commands written by \<open>catAppendOnlyGenericCommand\<close> and sent over a connection are executed exactly once each, in order and with exactly their argument
  bytes, however the stream is cut into reads (each read returns between one byte and the number of bytes \<open>readQueryFromClient\<close> asks for): no protocol error is
  reported, the connection is not closed, no memory fault or assertion occurs, and the query buffer ends empty.  This covers
  the limits of 64 KB for count lines while the buffer holds already parsed arguments, and the large arguments that are taken over without copying.
\<close>
theorem protocol_stream_executes:
  assumes "runs_all processCommand clientsArePaused" "536870914 \<le> client_max_querybuf_len"
    "list_all (list_all sds_ok) cmds" "list_all (\<lambda>args. cmd_ok (map sds_str args)) cmds"
    "(\<Sum>args\<leftarrow>cmds. wire_size (map sds_str args) + 40) < 2 ^ 62" "(\<Sum>args\<leftarrow>cmds. wire_size (map sds_str args) + 40) \<le> length ns"
  shows "\<exists>e log c c'. sdsempty = Some e \<and> append_log e cmds = Some log \<and> createClient = Some c \<and>
    feed processCommand clientsArePaused client_max_querybuf_len ns (sds_str log) c w =
      Some (Some (c', exec_all processCommand w (map (map sds_str) cmds), [])) \<and>
    sds_str (querybuf c') = [] \<and> error_replies c' = [] \<and> \<not> close_after_reply c' \<and> \<not> close_asap c'"
proof -
  let ?cmds = "map (map sds_str) cmds"
  have ok: "list_all cmd_ok ?cmds" using assms(4) by (simp add: list_all_iff)
  obtain e where e: "sdsempty = Some e" "sds_rep e []" using sdsempty_rep by blast
  define c where "c = \<lparr>querybuf = e, reqtype = 0, argv = [], multibulklen = 0, bulklen = - 1, close_after_reply = False, close_asap = False,
       blocked = False, is_slave = False, error_replies = []\<rparr>"
  have c: "createClient = Some c" unfolding createClient_def e(1) c_def by simp
  have reps: "list_all2 tokens_rep cmds ?cmds"
  proof -
    have "list_all2 sds_rep args (map sds_str args)" if "list_all sds_ok args" for args
      using that by (induction args) (auto simp: sds_rep_def)
    then show ?thesis using assms(3) by (induction cmds) (auto simp: tokens_rep_def)
  qed
  have sz: "length ([] :: bytes) + (\<Sum>args\<leftarrow>?cmds. wire_size args + 40) < 2 ^ 62" using assms(5) by (simp add: comp_def)
  obtain log where log: "append_log e cmds = Some log" "sds_rep log (concat (map enc_cmd ?cmds))"
    using append_log_rep [OF e(2) reps ok sz] by auto
  have str: "sds_str log = concat (map enc_cmd ?cmds)" using log(2) by (simp add: sds_rep_def)
  have "length (concat (map enc_cmd xs)) \<le> (\<Sum>args\<leftarrow>xs. wire_size args + 40)" if "list_all cmd_ok xs" for xs
    using that
  proof (induction xs)
    case (Cons x xs)
    have "list_all (\<lambda>a. length a < 2 ^ 60) x" "length x < 2 ^ 60" using Cons.prems by (auto simp: cmd_ok_def list_all_iff)
    then show ?case using Cons length_enc_cmd [of x] by simp
  qed simp
  from this [OF ok] have ls: "length (sds_str log) \<le> length ns" using assms(6) by (simp add: str comp_def)
  have st: "parser_state c ?cmds ([] @ sds_str log)" "sds_rep (querybuf c) []" "waiting c (length ([] :: bytes))" "can_run c"
    using e(2) by (simp_all add: parser_state_def c_def str waiting_def can_run_def)
  obtain c' n where r: "feed processCommand clientsArePaused client_max_querybuf_len ns (sds_str log) c w =
      Some (Some (c', exec_all processCommand w (take n ?cmds), []))" "parser_state c' (drop n ?cmds) []" "sds_rep (querybuf c') []" "can_run c'"
    using feed_runs [OF assms(1,2) st ok _ ls] by blast
  have "drop n ?cmds = []" using parser_state_done [OF r(2)] .
  then have "take n ?cmds = ?cmds" by simp
  then show ?thesis using e(1) log(1) c r unfolding can_run_def sds_rep_def by metis
qed

theorem protocol_stream_executes_witness:
  "\<exists>set key e log c c'. sdsnewlen (Some [83, 69, 84]) 3 = Some set \<and> sdsnewlen (Some [107, 13, 10, 0]) 4 = Some key \<and>
    sdsempty = Some e \<and> append_log e [[set, key], [key]] = Some log \<and> createClient = Some c \<and>
    feed (\<lambda>w args. (w @ [args], \<lparr>out_ok = True, out_close = False, out_asap = False, out_blocked = False, out_freed = False\<rparr>)) (\<lambda>w. False) (2 ^ 30)
      (replicate 400 6) (sds_str log) c [] = Some (Some (c', [[[83, 69, 84], [107, 13, 10, 0]], [[107, 13, 10, 0]]], [])) \<and>
    error_replies c' = []"
proof -
  define pc :: "bytes list list \<Rightarrow> bytes list \<Rightarrow> bytes list list \<times> cmd_outcome" where
    "pc = (\<lambda>w args. (w @ [args], \<lparr>out_ok = True, out_close = False, out_asap = False, out_blocked = False, out_freed = False\<rparr>))"
  obtain set key where s: "sdsnewlen (Some [83, 69, 84]) 3 = Some set" "sds_ok set" "sds_str set = [83, 69, 84]"
    "sdsnewlen (Some [107, 13, 10, 0]) 4 = Some key" "sds_ok key" "sds_str key = [107, 13, 10, 0]"
    using sdsnewlen_exact [of 3 "Some [83, 69, 84]"] sdsnewlen_exact [of 4 "Some [107, 13, 10, 0]"] by auto
  have r: "runs_all pc (\<lambda>w. False)" by (simp add: runs_all_def pc_def)
  have sz: "(\<Sum>args\<leftarrow>[[set, key], [key]]. wire_size (map sds_str args) + 40) = 291" by (simp add: wire_size_def s(3,6))
  have "exec_all pc [] (map (map sds_str) [[set, key], [key]]) = [[[83, 69, 84], [107, 13, 10, 0]], [[107, 13, 10, 0]]]"
    by (simp add: exec_all_def pc_def s(3,6))
  moreover have "list_all (list_all sds_ok) [[set, key], [key]]" "list_all (\<lambda>args. cmd_ok (map sds_str args)) [[set, key], [key]]"
    using s by (simp_all add: cmd_ok_def)
  ultimately show ?thesis
    using protocol_stream_executes [OF r, of "2 ^ 30" "[[set, key], [key]]" "replicate 400 6" "[]"] s(1,4) unfolding sz pc_def [symmetric] by auto
qed

text \<open>
  C16: An inline request ended by a carriage return and a line feed leaves exactly the bytes after it in the query buffer, but one ended by a line feed alone,
  which the parser also accepts, loses the first byte of the request that follows it.
\<close>
theorem inline_line_feed_loses_byte:
  assumes "sds_rep (querybuf c) (line @ eol @ rest)" "eol = [13, 10] \<or> eol = [10]" "10 \<notin> set line" "0 \<notin> set line"
    "line = [] \<or> last line \<noteq> 13" "sdssplitargs (line @ [0]) = Some (Some args)" "length (line @ eol @ rest) < 2 ^ 30"
  shows "\<exists>c'. processInlineBuffer c = Some (c', True) \<and> argv c' = filter (\<lambda>a. a \<noteq> []) (map sds_str args) \<and>
    sds_str (querybuf c') = (if eol = [10] then drop 1 rest else rest)"
  using processInlineBuffer_exact [OF assms] by (auto simp: sds_rep_def)

theorem inline_line_feed_loses_byte_witness:
  "\<exists>q c c'. sdsnewlen (Some [10, 71, 69, 84, 10]) 5 = Some q \<and> createClient = Some c \<and>
    processInlineBuffer (c\<lparr>querybuf := q\<rparr>) = Some (c', True) \<and> sds_str (querybuf c') = [69, 84, 10]"
proof -
  obtain q where q: "sdsnewlen (Some [10, 71, 69, 84, 10]) 5 = Some q" "sds_rep q [10, 71, 69, 84, 10]"
    using sdsnewlen_exact [of 5 "Some [10, 71, 69, 84, 10]"] by (auto simp: sds_rep_def)
  obtain e where e: "sdsempty = Some e" using sdsempty_rep by blast
  obtain c where c: "createClient = Some c" unfolding createClient_def e by simp
  have sp: "sdssplitargs ([] @ [0]) = Some (Some [])" by (simp add: sdssplitargs_def splitargs_loop.simps)
  show ?thesis
    using inline_line_feed_loses_byte [of "c\<lparr>querybuf := q\<rparr>" "[]" "[10]" "[71, 69, 84, 10]", OF _ _ _ _ _ sp] q c by auto
qed

end
