(* ===== verification/Client_Output.thy ===== *)
theory Client_Output
  imports Protocol
begin

text \<open>
  The output of a client of \<^verbatim>\<open>networking.c\<close>: replies are appended to its buffers, and written to its socket before the event loop
  sleeps or when the socket is writable.  The fixed buffer and the list of reply objects are kept as one byte sequence, of which the
  first \<open>sentlen\<close> bytes are written; a buffer or object that is written completely is released.  Where the boundaries between the
  objects lie is left open: how much of the written bytes is released is an answer of the environment, as is the number of bytes a call
  of \<open>writeToClient\<close> can write, which also stands for its limit per event.  The record holds the fields of a client that replication uses.
\<close>

section \<open>State\<close>

datatype slave_state =
    REPL_STATE_NONE | SLAVE_STATE_WAIT_BGSAVE_START | SLAVE_STATE_WAIT_BGSAVE_END | SLAVE_STATE_SEND_BULK | SLAVE_STATE_ONLINE

text \<open>\<open>slave_reply\<close> is the content of the output buffers, \<open>slave_written\<close> what was written from them to the socket since the client asked
  to be synchronised, and \<open>slave_sent\<close> what the replication code wrote to the socket directly.  \<open>pending_write\<close> is
  \<open>CLIENT_PENDING_WRITE\<close>, and \<open>write_handler\<close> says that \<open>sendReplyToClient\<close> waits for the socket to be writable.  \<open>reply_off\<close> is
  \<open>CLIENT_REPLY_OFF\<close> or \<open>CLIENT_REPLY_SKIP\<close>.  Clients without a socket, masters, and clients that only wait to be closed do not occur here.\<close>

record slave =
  slave_id :: nat
  replstate :: slave_state
  slave_reply :: bytes
  sentlen :: nat
  slave_written :: bytes
  slave_sent :: bytes
  pending_write :: bool
  write_handler :: bool
  reply_off :: bool
  psync_initial_offset :: int
  slave_capa :: int
  pre_psync :: bool
  close_asap :: bool
  repl_put_online_on_ack :: bool

text \<open>The answers of the operating system: whether \<open>pipe\<close> and \<open>fork\<close> succeed; for each client whether a direct write is complete, whether
  the RDB file can be opened for it, whether a write event can be created, how many bytes \<open>writeToClient\<close> can write, how many of the
  written bytes belong to completely written objects, and whether a write fails.\<close>

record os =
  pipe_ok :: bool
  fork_ok :: bool
  write_ok :: "nat \<Rightarrow> bool"
  open_ok :: "nat \<Rightarrow> bool"
  event_ok :: "nat \<Rightarrow> bool"
  writable :: "nat \<Rightarrow> nat"
  released :: "nat \<Rightarrow> nat"
  write_fails :: "nat \<Rightarrow> bool"

section \<open>Appending\<close>

definition clientHasPendingReplies :: "slave \<Rightarrow> bool" where
  "clientHasPendingReplies c \<longleftrightarrow> slave_reply c \<noteq> []"

text \<open>\<open>None\<close> is \<open>C_ERR\<close>: nothing may be appended.\<close>

definition prepareClientToWrite :: "slave \<Rightarrow> slave option" where
  "prepareClientToWrite c =
     (if reply_off c then None
      else if \<not> clientHasPendingReplies c \<and> \<not> pending_write c \<and>
        (replstate c = REPL_STATE_NONE \<or> replstate c = SLAVE_STATE_ONLINE \<and> \<not> repl_put_online_on_ack c)
      then Some (c\<lparr>pending_write := True\<rparr>) else Some c)"

definition addReply :: "slave \<Rightarrow> bytes \<Rightarrow> slave" where
  "addReply c xs = (case prepareClientToWrite c of None \<Rightarrow> c | Some c \<Rightarrow> c\<lparr>slave_reply := slave_reply c @ xs\<rparr>)"

text \<open>The copy does not set the number of bytes already written.\<close>

definition copyClientOutputBuffer :: "slave \<Rightarrow> slave \<Rightarrow> slave" where
  "copyClientOutputBuffer dst src = dst\<lparr>slave_reply := slave_reply src\<rparr>"

section \<open>Writing\<close>

text \<open>\<open>None\<close> says that the client was freed after a failed write.\<close>

definition writeToClient :: "os \<Rightarrow> slave \<Rightarrow> bool \<Rightarrow> slave option" where
  "writeToClient sys c handler_installed =
     (let n = min (writable sys (slave_id c)) (length (slave_reply c) - sentlen c);
          total = sentlen c + n;
          rel = (if total = length (slave_reply c) then total else min (released sys (slave_id c)) total);
          c' = c\<lparr>slave_written := slave_written c @ take n (drop (sentlen c) (slave_reply c)), slave_reply := drop rel (slave_reply c),
            sentlen := total - rel\<rparr>
      in if clientHasPendingReplies c \<and> write_fails sys (slave_id c) then None
         else if \<not> clientHasPendingReplies c' \<and> handler_installed then Some (c'\<lparr>write_handler := False\<rparr>)
         else Some c')"

text \<open>One turn of the loop over the clients with pending writes.\<close>

definition handle_pending :: "os \<Rightarrow> slave \<Rightarrow> slave option" where
  "handle_pending sys c =
     (if pending_write c then
        (case writeToClient sys (c\<lparr>pending_write := False\<rparr>) False of
           None \<Rightarrow> None
         | Some c \<Rightarrow>
             if clientHasPendingReplies c then
               (if event_ok sys (slave_id c) then Some (c\<lparr>write_handler := True\<rparr>) else Some (c\<lparr>close_asap := True\<rparr>))
             else Some c)
      else Some c)"

definition handleClientsWithPendingWrites :: "os \<Rightarrow> slave list \<Rightarrow> slave list" where
  "handleClientsWithPendingWrites sys cs = List.map_filter (handle_pending sys) cs"

text \<open>The event loop calls \<open>sendReplyToClient\<close> for a client whose handler is installed.\<close>

definition sendReplyToClient :: "os \<Rightarrow> slave \<Rightarrow> slave option" where
  "sendReplyToClient sys c = (if write_handler c then writeToClient sys c True else Some c)"

section \<open>What a client has been given\<close>

text \<open>Everything appended since the client asked to be synchronised: what is written and what is still to be written.\<close>

definition given :: "slave \<Rightarrow> bytes" where
  "given c = slave_written c @ drop (sentlen c) (slave_reply c)"

definition held_back :: "slave \<Rightarrow> bool" where
  "held_back c \<longleftrightarrow> slave_written c = [] \<and> sentlen c = 0 \<and> \<not> pending_write c \<and> \<not> write_handler c"

lemma addReply_frame [simp]:
  "slave_id (addReply c xs) = slave_id c" "replstate (addReply c xs) = replstate c" "slave_sent (addReply c xs) = slave_sent c"
  "slave_written (addReply c xs) = slave_written c" "sentlen (addReply c xs) = sentlen c" "write_handler (addReply c xs) = write_handler c"
  "reply_off (addReply c xs) = reply_off c" "psync_initial_offset (addReply c xs) = psync_initial_offset c"
  "slave_capa (addReply c xs) = slave_capa c" "pre_psync (addReply c xs) = pre_psync c" "close_asap (addReply c xs) = close_asap c"
  "repl_put_online_on_ack (addReply c xs) = repl_put_online_on_ack c"
  by (auto simp: addReply_def prepareClientToWrite_def)

lemma addReply_reply: "slave_reply (addReply c xs) = (if reply_off c then slave_reply c else slave_reply c @ xs)"
  by (auto simp: addReply_def prepareClientToWrite_def)

lemma addReply_pending:
  "pending_write (addReply c xs) \<longleftrightarrow> pending_write c \<or> \<not> reply_off c \<and> slave_reply c = [] \<and>
     (replstate c = REPL_STATE_NONE \<or> replstate c = SLAVE_STATE_ONLINE \<and> \<not> repl_put_online_on_ack c)"
  by (auto simp: addReply_def prepareClientToWrite_def clientHasPendingReplies_def)

lemma addReply_addReply [simp]: "addReply (addReply c xs) ys = addReply c (xs @ ys)"
  by (auto simp: addReply_def prepareClientToWrite_def clientHasPendingReplies_def)

lemma given_addReply: "\<not> reply_off c \<Longrightarrow> sentlen c \<le> length (slave_reply c) \<Longrightarrow> given (addReply c xs) = given c @ xs"
  by (simp add: given_def addReply_reply)

text \<open>Writing moves bytes from the buffers to the socket: nothing is lost, doubled or reordered.\<close>

lemma writeToClient_exact:
  assumes "writeToClient sys c inst = Some c'" "sentlen c \<le> length (slave_reply c)"
  shows "given c' = given c" "sentlen c' \<le> length (slave_reply c')" "slave_id c' = slave_id c" "replstate c' = replstate c"
    "reply_off c' = reply_off c" "psync_initial_offset c' = psync_initial_offset c" "close_asap c' = close_asap c"
    "repl_put_online_on_ack c' = repl_put_online_on_ack c" "slave_sent c' = slave_sent c"
proof -
  define n where "n = min (writable sys (slave_id c)) (length (slave_reply c) - sentlen c)"
  define rel where "rel = (if sentlen c + n = length (slave_reply c) then sentlen c + n else min (released sys (slave_id c)) (sentlen c + n))"
  let ?c = "c\<lparr>slave_written := slave_written c @ take n (drop (sentlen c) (slave_reply c)), slave_reply := drop rel (slave_reply c),
    sentlen := sentlen c + n - rel\<rparr>"
  have c': "c' = ?c \<or> c' = ?c\<lparr>write_handler := False\<rparr>"
    using assms(1) unfolding writeToClient_def Let_def n_def [symmetric] rel_def [symmetric] by (auto split: if_splits)
  have rel: "rel \<le> sentlen c + n" "sentlen c + n \<le> length (slave_reply c)" using assms(2) by (auto simp: rel_def n_def)
  have "drop (sentlen c + n - rel) (drop rel (slave_reply c)) = drop n (drop (sentlen c) (slave_reply c))" using rel(1) by (simp add: add.commute)
  then have "drop (sentlen ?c) (slave_reply ?c) = drop n (drop (sentlen c) (slave_reply c))" by simp
  then have "given ?c = given c" unfolding given_def by simp (metis add.commute append_take_drop_id drop_drop)
  then show "given c' = given c" using c' by (auto simp: given_def)
  show "sentlen c' \<le> length (slave_reply c')" using c' rel by auto
  show "slave_id c' = slave_id c" "replstate c' = replstate c" "reply_off c' = reply_off c" "psync_initial_offset c' = psync_initial_offset c"
    "close_asap c' = close_asap c" "repl_put_online_on_ack c' = repl_put_online_on_ack c" "slave_sent c' = slave_sent c"
    using c' by auto
qed

text \<open>When the socket takes everything, the buffers are empty afterwards.\<close>

lemma writeToClient_all:
  assumes "length (slave_reply c) \<le> writable sys (slave_id c)" "\<not> write_fails sys (slave_id c)" "sentlen c \<le> length (slave_reply c)"
  shows "\<exists>c'. writeToClient sys c inst = Some c' \<and> slave_reply c' = [] \<and> slave_written c' = given c \<and> slave_id c' = slave_id c \<and> replstate c' = replstate c"
  using assms by (simp add: writeToClient_def given_def clientHasPendingReplies_def Let_def)

end
