(* ===== verification/Backlog.thy ===== *)
theory Backlog
  imports Client_Output
begin

text \<open>
  The replication stream of \<^verbatim>\<open>replication.c\<close>: commands are written to the circular backlog and to every attached slave, and a slave that
  reconnects asks for the stream from an offset on.  The server's replication fields are a record; slaves are the clients of
  \<open>Client_Output\<close>.  String objects are those of the monitor feed: integer encoded or a dynamic string.
\<close>

section \<open>State\<close>

datatype rdb_child_type = RDB_CHILD_TYPE_NONE | RDB_CHILD_TYPE_DISK | RDB_CHILD_TYPE_SOCKET

abbreviation wait_bgsave :: "slave \<Rightarrow> bool" where
  "wait_bgsave sl \<equiv> replstate sl = SLAVE_STATE_WAIT_BGSAVE_START"

text \<open>The fields of the server that replication uses; \<open>rdb_child\<close> is \<open>rdb_child_type\<close>, and no child runs when it is the first value, as
  \<open>rdb_child_pid\<close> says; \<open>master_link_down\<close> says that the server is itself a slave whose link is not up.\<close>

record repl =
  repl_backlog :: "bytes option"
  repl_backlog_size :: int
  repl_backlog_histlen :: int
  repl_backlog_idx :: int
  repl_backlog_off :: int
  master_repl_offset :: int
  slaveseldb :: int
  slaves :: "slave list"
  closing :: "slave list"
  rdb_child :: rdb_child_type
  aof_child :: bool
  repl_diskless_sync :: bool
  runid :: bytes
  master_link_down :: bool

definition CONFIG_REPL_BACKLOG_MIN_SIZE :: int where "CONFIG_REPL_BACKLOG_MIN_SIZE = 1024 * 16"
definition LONG_STR_SIZE :: nat where "LONG_STR_SIZE = 21"
definition PROTO_SHARED_SELECT_CMDS :: int where "PROTO_SHARED_SELECT_CMDS = 10"
definition OBJ_SHARED_BULKHDR_LEN :: int where "OBJ_SHARED_BULKHDR_LEN = 32"

section \<open>The circular buffer\<close>

definition createReplicationBacklog :: "repl \<Rightarrow> repl option" where
  "createReplicationBacklog r = do {
     c_assert (repl_backlog r = None);
     let off = master_repl_offset r + 1;
     Some (r\<lparr>repl_backlog := Some (replicate (nat (repl_backlog_size r)) 0), repl_backlog_histlen := 0, repl_backlog_idx := 0,
       master_repl_offset := off, repl_backlog_off := off + 1\<rparr>)
   }"

definition resizeReplicationBacklog :: "repl \<Rightarrow> int \<Rightarrow> repl" where
  "resizeReplicationBacklog r newsize =
     (let newsize = (if newsize < CONFIG_REPL_BACKLOG_MIN_SIZE then CONFIG_REPL_BACKLOG_MIN_SIZE else newsize) in
      if repl_backlog_size r = newsize then r
      else let r = r\<lparr>repl_backlog_size := newsize\<rparr> in
        if repl_backlog r \<noteq> None then
          r\<lparr>repl_backlog := Some (replicate (nat newsize) 0), repl_backlog_histlen := 0, repl_backlog_idx := 0,
            repl_backlog_off := master_repl_offset r + 1\<rparr>
        else r)"

definition freeReplicationBacklog :: "repl \<Rightarrow> repl option" where
  "freeReplicationBacklog r = do { c_assert (slaves r = []); Some (r\<lparr>repl_backlog := None\<rparr>) }"

text \<open>The copying loop on the buffer, the index and the history length; it does not end when the buffer has no room at all.\<close>

partial_function (option) backlog_loop :: "int \<Rightarrow> bytes \<Rightarrow> int \<Rightarrow> int \<Rightarrow> bytes \<Rightarrow> (bytes \<times> int \<times> int) option" where
  "backlog_loop sz b idx hist p =
     (if p = [] then Some (b, idx, hist)
      else let thislen = sz - idx;
               thislen = (if thislen > int (length p) then int (length p) else thislen)
           in Option.bind (mem_write b (nat idx) (take (nat thislen) p)) (\<lambda>b.
             let idx = idx + thislen;
                 idx = (if idx = sz then 0 else idx)
             in backlog_loop sz b idx (hist + thislen) (drop (nat thislen) p)))"

definition feedReplicationBacklog :: "repl \<Rightarrow> bytes \<Rightarrow> repl option" where
  "feedReplicationBacklog r p = do {
     let r = r\<lparr>master_repl_offset := master_repl_offset r + int (length p)\<rparr>;
     b \<leftarrow> repl_backlog r;
     (b, idx, hist) \<leftarrow> backlog_loop (repl_backlog_size r) b (repl_backlog_idx r) (repl_backlog_histlen r) p;
     let hist = (if hist > repl_backlog_size r then repl_backlog_size r else hist);
     Some (r\<lparr>repl_backlog := Some b, repl_backlog_idx := idx, repl_backlog_histlen := hist,
       repl_backlog_off := master_repl_offset r - hist + 1\<rparr>)
   }"

definition feedReplicationBacklogWithObject :: "repl \<Rightarrow> monitor_arg \<Rightarrow> repl option" where
  "feedReplicationBacklogWithObject r ob =
     (case ob of
        MInt v \<Rightarrow> do {
          (llstr, n) \<leftarrow> ll2string (replicate LONG_STR_SIZE 0) LONG_STR_SIZE v;
          p \<leftarrow> mem_read llstr 0 n;
          feedReplicationBacklog r p
        }
      | MStr s \<Rightarrow> do { p \<leftarrow> mem_read (sds_buf s) 0 (sdslen s); feedReplicationBacklog r p })"

text \<open>\<open>addReplyReplicationBacklog\<close> returns the bytes it appends to the slave's output and the number of bytes it reports.\<close>

partial_function (option) backlog_read :: "int \<Rightarrow> bytes \<Rightarrow> int \<Rightarrow> int \<Rightarrow> bytes \<Rightarrow> bytes option" where
  "backlog_read sz b j n out =
     (if n = 0 then Some out
      else let thislen = (if sz - j < n then sz - j else n) in
        Option.bind (mem_read b (nat j) (nat thislen)) (\<lambda>xs. backlog_read sz b 0 (n - thislen) (out @ xs)))"

definition addReplyReplicationBacklog :: "repl \<Rightarrow> int \<Rightarrow> (bytes \<times> int) option" where
  "addReplyReplicationBacklog r offset =
     (if repl_backlog_histlen r = 0 then Some ([], 0)
      else do {
        b \<leftarrow> repl_backlog r;
        let skip = offset - repl_backlog_off r;
        let j = (repl_backlog_idx r + (repl_backlog_size r - repl_backlog_histlen r)) mod repl_backlog_size r;
        let j = (j + skip) mod repl_backlog_size r;
        let n = repl_backlog_histlen r - skip;
        out \<leftarrow> backlog_read (repl_backlog_size r) b j n [];
        Some (out, repl_backlog_histlen r - skip)
      })"

section \<open>Feeding\<close>

text \<open>A type byte, a decimal and the line end, built in a buffer of the given size; also what \<open>addReplyLongLongWithPrefix\<close> sends.\<close>

definition header_text :: "nat \<Rightarrow> byte \<Rightarrow> int \<Rightarrow> bytes option" where
  "header_text size' kind v = do {
     (digits, n) \<leftarrow> ll2string (replicate (size' - 1) 0) (size' - 1) v;
     let aux = kind # digits;
     aux \<leftarrow> mem_set aux (n + 1) 13;
     aux \<leftarrow> mem_set aux (n + 2) 10;
     mem_read aux 0 (n + 3)
   }"

definition stringObjectLen :: "monitor_arg \<Rightarrow> nat" where
  "stringObjectLen ob = (case ob of MInt v \<Rightarrow> sdigits10 v | MStr s \<Rightarrow> sdslen s)"

fun feed_arguments :: "repl \<Rightarrow> monitor_arg list \<Rightarrow> repl option" where
  "feed_arguments r [] = Some r"
| "feed_arguments r (ob # args) = do {
     aux \<leftarrow> header_text (LONG_STR_SIZE + 3) 36 (int (stringObjectLen ob));
     r \<leftarrow> feedReplicationBacklog r aux;
     r \<leftarrow> feedReplicationBacklogWithObject r ob;
     r \<leftarrow> feedReplicationBacklog r [13, 10];
     feed_arguments r args
   }"

text \<open>Replies.  The shared headers below 32 hold the same text.\<close>

definition shared_hdr :: "byte \<Rightarrow> int \<Rightarrow> bytes" where
  "shared_hdr kind v = kind # idec v @ [13, 10]"

definition addReplyLongLongWithPrefix :: "slave \<Rightarrow> int \<Rightarrow> byte \<Rightarrow> slave option" where
  "addReplyLongLongWithPrefix sl ll prefix' =
     (if prefix' = 42 \<and> ll < OBJ_SHARED_BULKHDR_LEN \<and> ll \<ge> 0 then Some (addReply sl (shared_hdr 42 ll))
      else if prefix' = 36 \<and> ll < OBJ_SHARED_BULKHDR_LEN \<and> ll \<ge> 0 then Some (addReply sl (shared_hdr 36 ll))
      else map_option (addReply sl) (header_text 128 prefix' ll))"

definition addReplyMultiBulkLen :: "slave \<Rightarrow> int \<Rightarrow> slave option" where
  "addReplyMultiBulkLen sl n =
     (if n < OBJ_SHARED_BULKHDR_LEN then Some (addReply sl (shared_hdr 42 n))
      else addReplyLongLongWithPrefix sl n 42)"

text \<open>The digits of an integer object; the division truncates, so the loop also counts the most negative number, whose negation is itself.\<close>

function int_digits :: "nat \<Rightarrow> nat \<Rightarrow> nat" where
  "int_digits n len' = (if n div 10 \<noteq> 0 then int_digits (n div 10) (len' + 1) else len')"
  by pat_completeness auto
termination
  by (relation "measure fst") auto

declare int_digits.simps [simp del]

definition addReplyBulkLen :: "slave \<Rightarrow> monitor_arg \<Rightarrow> slave option" where
  "addReplyBulkLen sl ob =
     (let n = int (case ob of
            MStr s \<Rightarrow> sdslen s
          | MInt v \<Rightarrow> int_digits (nat \<bar>v\<bar>) (if v < 0 then 2 else 1)) in
      if n < OBJ_SHARED_BULKHDR_LEN then Some (addReply sl (shared_hdr 36 n))
      else addReplyLongLongWithPrefix sl n 36)"

definition object_text :: "monitor_arg \<Rightarrow> bytes option" where
  "object_text ob = (case ob of
     MStr s \<Rightarrow> mem_read (sds_buf s) 0 (sdslen s)
   | MInt v \<Rightarrow> do { (buf, n) \<leftarrow> ll2string (replicate 32 0) 32 v; mem_read buf 0 n })"

definition addReplyBulk :: "slave \<Rightarrow> monitor_arg \<Rightarrow> slave option" where
  "addReplyBulk sl ob = do {
     sl \<leftarrow> addReplyBulkLen sl ob;
     xs \<leftarrow> object_text ob;
     Some (addReply (addReply sl xs) [13, 10])
   }"

fun reply_arguments :: "slave \<Rightarrow> monitor_arg list \<Rightarrow> slave option" where
  "reply_arguments sl [] = Some sl"
| "reply_arguments sl (ob # args) = do { sl \<leftarrow> addReplyBulk sl ob; reply_arguments sl args }"

definition feed_slave :: "monitor_arg list \<Rightarrow> slave \<Rightarrow> slave option" where
  "feed_slave args sl =
     (if wait_bgsave sl then Some sl
      else do { sl \<leftarrow> addReplyMultiBulkLen sl (int (length args)); reply_arguments sl args })"

fun each_slave :: "(slave \<Rightarrow> slave option) \<Rightarrow> slave list \<Rightarrow> slave list option" where
  "each_slave f [] = Some []"
| "each_slave f (x # xs) = do { y \<leftarrow> f x; ys \<leftarrow> each_slave f xs; Some (y # ys) }"

text \<open>The SELECT command, shared for the first ten databases and printed otherwise: the same text in both cases.\<close>

definition select_cmd :: "int \<Rightarrow> bytes option" where
  "select_cmd dictid = do {
     (llstr, n) \<leftarrow> (if 0 \<le> dictid \<and> dictid < PROTO_SHARED_SELECT_CMDS then ll2string (replicate 64 0) 64 dictid
                    else ll2string (replicate LONG_STR_SIZE 0) LONG_STR_SIZE dictid);
     e \<leftarrow> sdsempty;
     s \<leftarrow> sdscatprintf e [42, 50, 13, 10, 36, 54, 13, 10, 83, 69, 76, 69, 67, 84, 13, 10, 36, 37, 100, 13, 10, 37, 115, 13, 10]
       ([42, 50, 13, 10, 36, 54, 13, 10, 83, 69, 76, 69, 67, 84, 13, 10, 36] @ dec n @ [13, 10] @ takeWhile (\<lambda>c. c \<noteq> 0) llstr @ [13, 10]);
     Some (sds_str s)
   }"

definition feed_select :: "repl \<Rightarrow> int \<Rightarrow> repl option" where
  "feed_select r dictid =
     (if slaveseldb r \<noteq> dictid then do {
        cmd \<leftarrow> select_cmd dictid;
        r \<leftarrow> (if repl_backlog r \<noteq> None then feedReplicationBacklog r cmd else Some r);
        Some (r\<lparr>slaves := map (\<lambda>sl. if wait_bgsave sl then sl else addReply sl cmd) (slaves r)\<rparr>)
      } else Some r)"

definition replicationFeedSlaves :: "repl \<Rightarrow> int \<Rightarrow> monitor_arg list \<Rightarrow> repl option" where
  "replicationFeedSlaves r dictid args =
     (if repl_backlog r = None \<and> slaves r = [] then Some r
      else do {
        c_assert (\<not> (slaves r \<noteq> [] \<and> repl_backlog r = None));
        r \<leftarrow> feed_select r dictid;
        let r = r\<lparr>slaveseldb := dictid\<rparr>;
        r \<leftarrow> (if repl_backlog r \<noteq> None then do {
                aux \<leftarrow> header_text (LONG_STR_SIZE + 3) 42 (int (length args));
                r \<leftarrow> feedReplicationBacklog r aux;
                feed_arguments r args
              } else Some r);
        sls \<leftarrow> each_slave (feed_slave args) (slaves r);
        Some (r\<lparr>slaves := sls\<rparr>)
      })"

section \<open>The buffer as the end of the stream\<close>

definition lastn :: "nat \<Rightarrow> 'a list \<Rightarrow> 'a list" where
  "lastn n xs = drop (length xs - n) xs"

lemma length_lastn [simp]: "length (lastn n xs) = min n (length xs)"
  by (simp add: lastn_def)

lemma lastn_append1: "n \<le> length ys \<Longrightarrow> lastn n (xs @ ys) = lastn n ys"
  by (simp add: lastn_def)

lemma lastn_append2:
  assumes "k \<le> h + length p" "h \<le> length xs"
  shows "lastn k (xs @ p) = lastn k (lastn h xs @ p)"
proof -
  have "xs @ p = take (length xs - h) xs @ lastn h xs @ p" by (simp add: lastn_def)
  then have "lastn k (xs @ p) = lastn k (take (length xs - h) xs @ lastn h xs @ p)" by (rule arg_cong)
  also have "\<dots> = lastn k (lastn h xs @ p)" by (rule lastn_append1) (use assms in simp)
  finally show ?thesis .
qed

lemma lastn_drop: "n + k \<le> length xs \<Longrightarrow> lastn n (drop k xs) = lastn n xs"
  by (simp add: lastn_def)

lemma lastn_lastn: "n \<le> m \<Longrightarrow> m \<le> length xs \<Longrightarrow> lastn n (lastn m xs) = lastn n xs"
  by (simp add: lastn_def)

text \<open>Read from the write index on, the buffer is in the order of the stream.\<close>

lemma rotate_split: "i \<le> length b \<Longrightarrow> rotate i b = drop i b @ take i b"
  by (cases "i = length b") (auto simp: rotate_drop_take)

lemma backlog_loop_exact:
  "int (length b) = sz \<Longrightarrow> 0 \<le> idx \<Longrightarrow> idx < sz \<Longrightarrow>
   \<exists>b' idx'. backlog_loop sz b idx hist p = Some (b', idx', hist + int (length p)) \<and> int (length b') = sz \<and> 0 \<le> idx' \<and> idx' < sz \<and>
     rotate (nat idx') b' = drop (length p) (rotate (nat idx) b @ p)"
proof (induction "length p" arbitrary: b idx hist p rule: less_induct)
  case less
  show ?case
  proof (cases "p = []")
    case True
    then show ?thesis using less(2-4) by (subst backlog_loop.simps) auto
  next
    case False
    define i where "i = nat idx"
    define n where "n = min (length b - i) (length p)"
    have i: "idx = int i" "i < length b" using less(2-4) by (auto simp: i_def)
    have n: "0 < n" "n \<le> length p" "i + n \<le> length b" using False i(2) by (auto simp: n_def)
    have tl: "(if sz - idx > int (length p) then int (length p) else sz - idx) = int n" using i less(2) by (auto simp: n_def)
    define b1 where "b1 = take i b @ take n p @ drop (i + n) b"
    have w: "mem_write b (nat idx) (take n p) = Some b1" using n i by (simp add: mem_write_def b1_def)
    define i1 where "i1 = (if i + n = length b then 0 else i + n)"
    have i1: "(if idx + int n = sz then 0 else idx + int n) = int i1" "i1 < length b" using i less(2) n by (auto simp: i1_def)
    have l1: "length b1 = length b" using n by (simp add: b1_def)
    have r1: "rotate i1 b1 = drop n (rotate i b) @ take n p"
    proof -
      have "drop n (rotate i b) = drop (i + n) b @ take i b"
        using n(3) i(2) by (simp add: rotate_split add.commute)
      moreover have "rotate i1 b1 = drop (i + n) b @ take i b @ take n p"
        using n l1 by (cases "i + n = length b") (auto simp: i1_def rotate_split b1_def)
      ultimately show ?thesis by simp
    qed
    have run: "backlog_loop sz b idx hist p = backlog_loop sz b1 (int i1) (hist + int n) (drop n p)"
      using False by (subst backlog_loop.simps) (simp only: Let_def tl w i1(1) nat_int Option.bind.bind_lunit if_False)
    have "length (drop n p) < length p" using n by simp
    moreover have "int (length b1) = sz" "0 \<le> int i1" "int i1 < sz" using l1 less(2) i1(2) by simp_all
    ultimately obtain b' idx' where ih: "backlog_loop sz b1 (int i1) (hist + int n) (drop n p) = Some (b', idx', hist + int n + int (length (drop n p)))"
      "int (length b') = sz" "0 \<le> idx'" "idx' < sz" "rotate (nat idx') b' = drop (length (drop n p)) (rotate (nat (int i1)) b1 @ drop n p)"
      using less(1) [of "drop n p" b1 "int i1" "hist + int n"] by blast
    have "drop (length (drop n p)) (rotate (nat (int i1)) b1 @ drop n p) = drop (length p) (rotate i b @ p)"
    proof -
      have "rotate (nat (int i1)) b1 @ drop n p = drop n (rotate i b @ p)" using r1 n(3) by simp
      then show ?thesis using n(2) by (simp only: drop_drop length_drop le_add_diff_inverse2)
    qed
    then show ?thesis using run ih n(2) by (simp add: i_def)
  qed
qed

lemma backlog_read_exact:
  assumes "int (length b) = sz" "0 \<le> j" "j < sz" "0 \<le> n" "n \<le> sz"
  shows "backlog_read sz b j n out = Some (out @ take (nat n) (rotate (nat j) b))"
proof -
  define i where "i = nat j"
  define m where "m = nat n"
  have i: "j = int i" "n = int m" "i < length b" "m \<le> length b" using assms by (auto simp: i_def m_def)
  have z: "backlog_read sz b 0 (int k) xs = Some (xs @ take k b)" if "k \<le> length b" for k xs
  proof (cases "k = 0")
    case True
    then show ?thesis by (subst backlog_read.simps) simp
  next
    case False
    have "(if sz - 0 < int k then sz - 0 else int k) = int k" using that assms(1) by simp
    moreover have "backlog_read sz b 0 0 ys = Some ys" for ys by (subst backlog_read.simps) simp
    ultimately show ?thesis using False that by (subst backlog_read.simps) (simp add: Let_def mem_read_def)
  qed
  have rot: "take m (rotate i b) = take (min m (length b - i)) (drop i b) @ take (m - min m (length b - i)) b"
    using i(3,4) by (simp add: rotate_split min_def)
  show ?thesis
  proof (cases "m = 0")
    case True
    then show ?thesis using i by (subst backlog_read.simps) simp
  next
    case False
    define k where "k = min m (length b - i)"
    have k: "(if sz - j < n then sz - j else n) = int k" "i + k \<le> length b" "k \<le> m" using assms(1) i by (auto simp: k_def)
    have "backlog_read sz b j n out = backlog_read sz b 0 (int (m - k)) (out @ take k (drop i b))"
      using False k i by (subst backlog_read.simps) (simp add: Let_def mem_read_def of_nat_diff)
    also have "\<dots> = Some ((out @ take k (drop i b)) @ take (m - k) b)" using z [of "m - k" "out @ take k (drop i b)"] i(4) by simp
    finally show ?thesis using rot by (simp add: i_def [symmetric] m_def [symmetric] k_def [symmetric])
  qed
qed

text \<open>\<open>S\<close> is everything that was fed since the backlog exists, \<open>base\<close> the offset before its first byte.\<close>

definition backlog_inv :: "repl \<Rightarrow> bytes \<Rightarrow> int \<Rightarrow> bool" where
  "backlog_inv r S base \<longleftrightarrow> (\<exists>b h. repl_backlog r = Some b \<and> 0 < repl_backlog_size r \<and> int (length b) = repl_backlog_size r \<and>
     0 \<le> repl_backlog_idx r \<and> repl_backlog_idx r < repl_backlog_size r \<and> repl_backlog_histlen r = int h \<and> h \<le> length b \<and> h \<le> length S \<and>
     master_repl_offset r = base + int (length S) \<and> repl_backlog_off r = master_repl_offset r - int h + 1 \<and>
     lastn h (rotate (nat (repl_backlog_idx r)) b) = lastn h S)"

definition repl_frame :: "repl \<Rightarrow> repl \<Rightarrow> bool" where
  "repl_frame r r' \<longleftrightarrow> repl_backlog_size r' = repl_backlog_size r \<and> closing r' = closing r \<and> rdb_child r' = rdb_child r \<and>
     aof_child r' = aof_child r \<and> repl_diskless_sync r' = repl_diskless_sync r \<and> runid r' = runid r \<and> master_link_down r' = master_link_down r"

definition same_repl :: "repl \<Rightarrow> repl \<Rightarrow> bool" where
  "same_repl r r' \<longleftrightarrow> repl_frame r r' \<and> slaveseldb r' = slaveseldb r \<and> slaves r' = slaves r"

lemma same_repl_trans: "same_repl r r' \<Longrightarrow> same_repl r' r'' \<Longrightarrow> same_repl r r''"
  by (simp add: same_repl_def repl_frame_def)

lemma feed_inv:
  assumes "backlog_inv r S base"
  shows "\<exists>r'. feedReplicationBacklog r p = Some r' \<and> backlog_inv r' (S @ p) base \<and> same_repl r r' \<and>
    repl_backlog_histlen r' = min (repl_backlog_size r) (repl_backlog_histlen r + int (length p))"
proof -
  let ?sz = "repl_backlog_size r"
  obtain b h where b: "repl_backlog r = Some b" "0 < ?sz" "int (length b) = ?sz" "0 \<le> repl_backlog_idx r" "repl_backlog_idx r < ?sz"
    "repl_backlog_histlen r = int h" "h \<le> length b" "h \<le> length S" "master_repl_offset r = base + int (length S)"
    "lastn h (rotate (nat (repl_backlog_idx r)) b) = lastn h S"
    using assms by (auto simp: backlog_inv_def)
  obtain b' idx' where l: "backlog_loop ?sz b (repl_backlog_idx r) (int h) p = Some (b', idx', int h + int (length p))" "int (length b') = ?sz"
    "0 \<le> idx'" "idx' < ?sz" "rotate (nat idx') b' = drop (length p) (rotate (nat (repl_backlog_idx r)) b @ p)"
    using backlog_loop_exact [OF b(3-5)] by blast
  define R where "R = rotate (nat (repl_backlog_idx r)) b"
  define h' where "h' = min (h + length p) (length b)"
  have lb: "length b' = length b" using l(2) b(3) by simp
  have hist: "(if int h + int (length p) > ?sz then ?sz else int h + int (length p)) = int h'" using b(3) by (auto simp: h'_def)
  have "lastn h' (drop (length p) (R @ p)) = lastn h' (R @ p)" by (rule lastn_drop) (simp add: h'_def R_def)
  also have "\<dots> = lastn h' (lastn h R @ p)" by (rule lastn_append2) (use b(7) in \<open>simp_all add: h'_def R_def\<close>)
  also have "\<dots> = lastn h' (lastn h S @ p)" using b(10) by (simp add: R_def)
  also have "\<dots> = lastn h' (S @ p)" by (rule lastn_append2 [symmetric]) (use b(8) in \<open>simp_all add: h'_def\<close>)
  finally have last: "lastn h' (rotate (nat idx') b') = lastn h' (S @ p)" using l(5) by (simp add: R_def)
  let ?r = "r\<lparr>master_repl_offset := master_repl_offset r + int (length p), repl_backlog := Some b', repl_backlog_idx := idx',
    repl_backlog_histlen := int h', repl_backlog_off := master_repl_offset r + int (length p) - int h' + 1\<rparr>"
  have run: "feedReplicationBacklog r p = Some ?r"
    unfolding feedReplicationBacklog_def Let_def using b(1,6) l(1) by (simp add: hist cong: if_cong)
  have "backlog_inv ?r (S @ p) base"
    unfolding backlog_inv_def using b(2,3,8,9) l(2-4) lb last by (intro exI [of _ b'] exI [of _ h']) (simp add: h'_def)
  moreover have "int h' = min ?sz (repl_backlog_histlen r + int (length p))" using b(3,6) by (auto simp: h'_def)
  ultimately show ?thesis using run by (intro exI [of _ ?r]) (simp add: same_repl_def repl_frame_def)
qed

lemma read_inv:
  assumes "backlog_inv r S base" "repl_backlog_off r \<le> off" "off \<le> repl_backlog_off r + repl_backlog_histlen r"
  shows "addReplyReplicationBacklog r off = Some (drop (nat (off - base - 1)) S, repl_backlog_histlen r - (off - repl_backlog_off r))"
    "0 \<le> off - base - 1" "off - base - 1 \<le> int (length S)"
proof -
  let ?sz = "repl_backlog_size r"
  obtain b h where b: "repl_backlog r = Some b" "0 < ?sz" "int (length b) = ?sz" "0 \<le> repl_backlog_idx r" "repl_backlog_idx r < ?sz"
    "repl_backlog_histlen r = int h" "h \<le> length b" "h \<le> length S" "master_repl_offset r = base + int (length S)"
    "repl_backlog_off r = master_repl_offset r - int h + 1" "lastn h (rotate (nat (repl_backlog_idx r)) b) = lastn h S"
    using assms by (auto simp: backlog_inv_def)
  define skip where "skip = nat (off - repl_backlog_off r)"
  have sk: "off - repl_backlog_off r = int skip" "skip \<le> h" using assms(2,3) b(6) by (auto simp: skip_def)
  have k: "off - base - 1 = int (length S - (h - skip))" using sk b(8-10) by (simp add: of_nat_diff)
  show "0 \<le> off - base - 1" "off - base - 1 \<le> int (length S)" using k by simp_all
  have want: "drop (nat (off - base - 1)) S = lastn (h - skip) S" unfolding k by (simp add: lastn_def)
  show "addReplyReplicationBacklog r off = Some (drop (nat (off - base - 1)) S, repl_backlog_histlen r - (off - repl_backlog_off r))"
  proof (cases "h = 0")
    case True
    then show ?thesis using want b(6) sk by (simp add: addReplyReplicationBacklog_def lastn_def)
  next
    case False
    define R where "R = rotate (nat (repl_backlog_idx r)) b"
    define j where "j = ((repl_backlog_idx r + (?sz - int h)) mod ?sz + int skip) mod ?sz"
    have j: "0 \<le> j" "j < ?sz" using b(2) by (simp_all add: j_def)
    have lenR: "length R = length b" by (simp add: R_def)
    let ?m = "length b - h + skip"
    have "rotate (nat j) b = rotate (nat (repl_backlog_idx r) + ?m) b"
    proof -
      have "j = int (nat (repl_backlog_idx r) + ?m) mod int (length b)"
      proof -
        have "int (nat (repl_backlog_idx r) + ?m) = repl_backlog_idx r + (?sz - int h) + int skip" using b(3,4,7) by (simp add: of_nat_diff)
        then show ?thesis unfolding j_def mod_add_left_eq b(3) by (simp only:)
      qed
      then have "nat j = (nat (repl_backlog_idx r) + ?m) mod length b" by (simp add: zmod_int [symmetric] del: of_nat_add)
      then show ?thesis by (metis rotate_conv_mod)
    qed
    also have "\<dots> = rotate ?m R" by (simp add: R_def rotate_rotate add.commute)
    finally have "take (h - skip) (rotate (nat j) b) = take (h - skip) (rotate ?m R)" by simp
    also have "\<dots> = drop ?m R" using lenR b(7) sk(2) by (subst rotate_split) auto
    also have "\<dots> = lastn (h - skip) R" using lenR b(7) sk(2) by (simp add: lastn_def)
    also have "\<dots> = lastn (h - skip) (lastn h R)" using lenR b(7) by (simp add: lastn_lastn)
    also have "\<dots> = lastn (h - skip) S" using b(8,11) by (simp add: R_def lastn_lastn)
    finally have data: "take (h - skip) (rotate (nat j) b) = lastn (h - skip) S" .
    have "backlog_read ?sz b j (int (h - skip)) [] = Some (lastn (h - skip) S)"
      using backlog_read_exact [OF b(3) j, of "int (h - skip)" "[]"] data b(3,7) by (simp del: of_nat_diff)
    then have "backlog_read ?sz b j (int h - int skip) [] = Some (lastn (h - skip) S)"
      using sk(2) by (simp add: of_nat_diff)
    then show ?thesis
      using False b(1,6) sk(1) want by (simp add: addReplyReplicationBacklog_def Let_def j_def)
  qed
qed

section \<open>The text of a command\<close>

lemma header_text_exact:
  assumes "int64_range v" "24 \<le> size'"
  shows "header_text size' k v = Some (k # idec v @ [13, 10])"
proof -
  have l: "length (idec v) \<le> 20" using length_idec_le [OF assms(1)] .
  define z :: bytes where "z = replicate (size' - 3 - length (idec v)) 0"
  have z: "drop (Suc (length (idec v))) (replicate (size' - 1) (0 :: byte)) = 0 # z"
    using l assms(2) by (simp add: z_def flip: replicate_Suc)
  have w: "ll2string (replicate (size' - 1) 0) (size' - 1) v = Some (idec v @ 0 # 0 # z, length (idec v))"
    using ll2string_writes [OF assms(1), of "size' - 1" "replicate (size' - 1) 0"] l assms(2) z by simp
  have "mem_set (k # idec v @ 0 # 0 # z) (length (idec v) + 1) 13 = Some (k # idec v @ 13 # 0 # z)"
    "mem_set (k # idec v @ 13 # 0 # z) (length (idec v) + 2) 10 = Some (k # idec v @ 13 # 10 # z)"
    using mem_set_mid [of "length (idec v) + 1" "k # idec v" 0 "0 # z" 13] mem_set_mid [of "length (idec v) + 2" "k # idec v @ [13]" 0 z 10] by simp_all
  moreover have "mem_read (k # idec v @ 13 # 10 # z) 0 (length (idec v) + 3) = Some (k # idec v @ [13, 10])"
    using mem_read_mid [of 0 "[]" "length (idec v) + 3" "k # idec v @ [13, 10]" z] by simp
  ultimately show ?thesis unfolding header_text_def w by (simp add: Let_def)
qed

lemma idec_int [simp]: "idec (int n) = dec n"
  by (simp add: idec_def)

lemma header_nat: "n < 2 ^ 63 \<Longrightarrow> 24 \<le> size' \<Longrightarrow> header_text size' k (int n) = Some (enc_line k n)"
  by (simp add: header_text_exact int64_range_def enc_line_def)

lemma stringObjectLen_exact: "marg_ok ob \<Longrightarrow> stringObjectLen ob = length (marg_str ob)"
  by (cases ob) (simp_all add: stringObjectLen_def sdigits10_length length_sds_str)

lemma mem_read_str: "sds_ok s \<Longrightarrow> mem_read (sds_buf s) 0 (sdslen s) = Some (sds_str s)"
  by (simp add: mem_read_def sds_str_def sds_ok_def)

lemma llstr_read:
  assumes "int64_range v" "21 \<le> n"
  shows "\<exists>buf. ll2string (replicate n 0) n v = Some (buf, length (idec v)) \<and> mem_read buf 0 (length (idec v)) = Some (idec v) \<and>
    takeWhile (\<lambda>c. c \<noteq> 0) buf = idec v"
proof -
  have l: "length (idec v) \<le> 20" using length_idec_le [OF assms(1)] .
  have "ll2string (replicate n 0) n v = Some (idec v @ 0 # drop (Suc (length (idec v))) (replicate n 0), length (idec v))"
    using ll2string_writes [OF assms(1), of n "replicate n 0"] l assms(2) by simp
  moreover have "takeWhile (\<lambda>c. c \<noteq> 0) (idec v @ 0 # ys) = idec v" for ys
  proof -
    have "\<forall>c \<in> set (idec v). c \<noteq> 0" using plain_chars idec_chars by metis
    then show ?thesis by (simp add: takeWhile_append2)
  qed
  ultimately show ?thesis by (simp add: mem_read_def)
qed

lemma feed_object_inv:
  assumes "backlog_inv r S base" "marg_ok ob"
  shows "\<exists>r'. feedReplicationBacklogWithObject r ob = Some r' \<and> backlog_inv r' (S @ marg_str ob) base \<and> same_repl r r' \<and>
    repl_backlog_histlen r' = min (repl_backlog_size r) (repl_backlog_histlen r + int (length (marg_str ob)))"
proof (cases ob)
  case (MInt v)
  then obtain buf where "ll2string (replicate LONG_STR_SIZE 0) LONG_STR_SIZE v = Some (buf, length (idec v))" "mem_read buf 0 (length (idec v)) = Some (idec v)"
    using llstr_read [of v LONG_STR_SIZE] assms(2) by (auto simp: LONG_STR_SIZE_def)
  then show ?thesis using feed_inv [OF assms(1), of "idec v"] MInt by (simp add: feedReplicationBacklogWithObject_def)
next
  case (MStr s)
  then show ?thesis using feed_inv [OF assms(1), of "sds_str s"] mem_read_str [of s] assms(2) by (simp add: feedReplicationBacklogWithObject_def)
qed

text \<open>Feeding pieces one after the other feeds their concatenation.\<close>

definition fed :: "repl \<Rightarrow> bytes \<Rightarrow> bytes \<Rightarrow> int \<Rightarrow> repl option \<Rightarrow> bool" where
  "fed r S p base res \<longleftrightarrow> (\<exists>r'. res = Some r' \<and> backlog_inv r' (S @ p) base \<and> same_repl r r' \<and>
     repl_backlog_histlen r' = min (repl_backlog_size r) (repl_backlog_histlen r + int (length p)))"

lemma fed_bind:
  assumes "fed r S p base res" "\<And>r1. backlog_inv r1 (S @ p) base \<Longrightarrow> fed r1 (S @ p) q base (f r1)"
  shows "fed r S (p @ q) base (Option.bind res f)"
proof -
  obtain r1 where r1: "res = Some r1" "backlog_inv r1 (S @ p) base" "same_repl r r1"
    "repl_backlog_histlen r1 = min (repl_backlog_size r) (repl_backlog_histlen r + int (length p))"
    using assms(1) by (auto simp: fed_def)
  obtain r2 where r2: "f r1 = Some r2" "backlog_inv r2 ((S @ p) @ q) base" "same_repl r1 r2"
    "repl_backlog_histlen r2 = min (repl_backlog_size r1) (repl_backlog_histlen r1 + int (length q))"
    using assms(2) [OF r1(2)] by (auto simp: fed_def)
  have "repl_backlog_histlen r2 = min (repl_backlog_size r) (repl_backlog_histlen r + int (length (p @ q)))"
    using r1(3,4) r2(4) by (auto simp: same_repl_def repl_frame_def min_def)
  then show ?thesis using r1(1) r2 same_repl_trans [OF r1(3) r2(3)] by (auto simp: fed_def)
qed

lemma fed_feed: "backlog_inv r S base \<Longrightarrow> fed r S p base (feedReplicationBacklog r p)"
  using feed_inv [of r S base p] by (auto simp: fed_def)

lemma fed_refl: "backlog_inv r S base \<Longrightarrow> fed r S [] base (Some r)"
proof -
  assume inv: "backlog_inv r S base"
  then have "repl_backlog_histlen r \<le> repl_backlog_size r" unfolding backlog_inv_def
    by (metis of_nat_le_iff)
  then show ?thesis using inv by (simp add: fed_def same_repl_def repl_frame_def)
qed

lemma fed_arguments:
  "backlog_inv r S base \<Longrightarrow> list_all marg_ok args \<Longrightarrow> list_all (\<lambda>ob. length (marg_str ob) < 2 ^ 63) args \<Longrightarrow>
   fed r S (concat (map enc_arg (map marg_str args))) base (feed_arguments r args)"
proof (induction args arbitrary: r S)
  case Nil
  then show ?case by (simp add: fed_refl)
next
  case (Cons ob args)
  have ok: "marg_ok ob" "length (marg_str ob) < 2 ^ 63" using Cons.prems(2,3) by simp_all
  have h: "header_text (LONG_STR_SIZE + 3) 36 (int (stringObjectLen ob)) = Some (enc_line 36 (length (marg_str ob)))"
    using header_nat [OF ok(2), of "LONG_STR_SIZE + 3" 36] by (simp add: LONG_STR_SIZE_def stringObjectLen_exact [OF ok(1)])
  have ob: "fed r1 S1 (marg_str ob) base (feedReplicationBacklogWithObject r1 ob)" if "backlog_inv r1 S1 base" for r1 S1
    using feed_object_inv [OF that ok(1)] by (auto simp: fed_def)
  have "fed r S (enc_line 36 (length (marg_str ob)) @ marg_str ob @ [13, 10] @ concat (map enc_arg (map marg_str args))) base
      (Option.bind (feedReplicationBacklog r (enc_line 36 (length (marg_str ob)))) (\<lambda>r.
       Option.bind (feedReplicationBacklogWithObject r ob) (\<lambda>r.
       Option.bind (feedReplicationBacklog r [13, 10]) (\<lambda>r. feed_arguments r args))))"
    by (intro fed_bind fed_feed ob Cons.IH Cons.prems(1)) (use Cons.prems in simp_all)
  then show ?case unfolding feed_arguments.simps h by (simp add: enc_arg_def [of "marg_str ob"])
qed

section \<open>The output of the slaves\<close>

lemma int_digits_exact: "int_digits n k = k + length (dec n) - 1"
proof (induction n k rule: int_digits.induct)
  case (1 n k)
  show ?case
  proof (cases "n < 10")
    case True
    then show ?thesis by (subst int_digits.simps) (simp add: dec_small)
  next
    case False
    then have d: "n div 10 \<noteq> 0" by auto
    have "int_digits n k = k + 1 + length (dec (n div 10)) - 1" using 1 [OF d] d by (subst int_digits.simps) simp
    then show ?thesis using length_dec_step [of n] False by simp
  qed
qed

lemma bulk_digits: "int64_range v \<Longrightarrow> int_digits (nat \<bar>v\<bar>) (if v < 0 then 2 else 1) = length (idec v)"
  using length_dec_pos [of "nat \<bar>v\<bar>"] by (auto simp: int_digits_exact idec_def simp del: length_dec_pos length_greater_0_conv)

lemma prefix_reply:
  assumes "n < 2 ^ 63" "k = 42 \<or> k = 36"
  shows "addReplyLongLongWithPrefix sl (int n) k = Some (addReply sl (enc_line k n))"
  using assms header_nat [OF assms(1), of 128 k] by (auto simp: addReplyLongLongWithPrefix_def shared_hdr_def enc_line_def)

lemma multi_bulk_reply: "n < 2 ^ 63 \<Longrightarrow> addReplyMultiBulkLen sl (int n) = Some (addReply sl (enc_line 42 n))"
  using prefix_reply [of n 42 sl] by (auto simp: addReplyMultiBulkLen_def shared_hdr_def enc_line_def)

lemma bulk_reply:
  assumes "marg_ok ob" "length (marg_str ob) < 2 ^ 63"
  shows "addReplyBulk sl ob = Some (addReply sl (enc_arg (marg_str ob)))"
proof -
  have n: "(case ob of MStr s \<Rightarrow> sdslen s | MInt v \<Rightarrow> int_digits (nat \<bar>v\<bar>) (if v < 0 then 2 else 1)) = length (marg_str ob)"
    using assms(1) by (cases ob) (simp_all only: monitor_arg.case marg_str.simps marg_ok.simps bulk_digits length_sds_str)
  have "addReplyBulkLen sl ob = Some (addReply sl (enc_line 36 (length (marg_str ob))))"
    unfolding addReplyBulkLen_def n Let_def using prefix_reply [OF assms(2), of 36 sl] by (auto simp: shared_hdr_def enc_line_def)
  moreover have "object_text ob = Some (marg_str ob)"
    using assms(1) llstr_read [of _ 32] mem_read_str by (cases ob) (fastforce simp: object_text_def)+
  ultimately show ?thesis by (simp add: addReplyBulk_def enc_arg_def)
qed

lemma reply_arguments_exact:
  "list_all marg_ok args \<Longrightarrow> list_all (\<lambda>ob. length (marg_str ob) < 2 ^ 63) args \<Longrightarrow>
   reply_arguments (addReply sl xs) args = Some (addReply sl (xs @ concat (map enc_arg (map marg_str args))))"
proof (induction args arbitrary: xs)
  case (Cons ob args)
  then show ?case using bulk_reply [of ob "addReply sl xs"] by simp
qed simp

lemma feed_slave_exact:
  assumes "list_all marg_ok args" "list_all (\<lambda>ob. length (marg_str ob) < 2 ^ 63) args" "length args < 2 ^ 63" "\<not> wait_bgsave sl"
  shows "feed_slave args sl = Some (addReply sl (enc_cmd (map marg_str args)))"
  using multi_bulk_reply [OF assms(3), of sl] reply_arguments_exact [OF assms(1,2)] assms(4) by (simp add: feed_slave_def enc_cmd_def)

lemma each_slave_exact: "(\<And>x. x \<in> set xs \<Longrightarrow> f x = Some (g x)) \<Longrightarrow> each_slave f xs = Some (map g xs)"
  by (induction xs) auto

text \<open>The bytes that a command adds to the stream.\<close>

definition args_ok :: "monitor_arg list \<Rightarrow> bool" where
  "args_ok args \<longleftrightarrow> list_all marg_ok args \<and> list_all (\<lambda>ob. length (marg_str ob) < 2 ^ 63) args \<and> length args < 2 ^ 63"

definition SELECT :: bytes where "SELECT = [83, 69, 76, 69, 67, 84]"

lemma fed_command:
  assumes "backlog_inv r S base" "args_ok args"
  shows "fed r S (enc_cmd (map marg_str args)) base (do {
     aux \<leftarrow> header_text (LONG_STR_SIZE + 3) 42 (int (length args));
     r \<leftarrow> feedReplicationBacklog r aux;
     feed_arguments r args })"
proof -
  have a: "list_all marg_ok args" "list_all (\<lambda>ob. length (marg_str ob) < 2 ^ 63) args" "length args < 2 ^ 63"
    using assms(2) by (auto simp: args_ok_def)
  have h: "header_text (LONG_STR_SIZE + 3) 42 (int (length args)) = Some (enc_line 42 (length args))"
    using header_nat [OF a(3), of "LONG_STR_SIZE + 3" 42] by (simp add: LONG_STR_SIZE_def)
  have "fed r S (enc_line 42 (length args) @ concat (map enc_arg (map marg_str args))) base
      (Option.bind (feedReplicationBacklog r (enc_line 42 (length args))) (\<lambda>r. feed_arguments r args))"
    by (intro fed_bind fed_feed fed_arguments assms(1) a)
  then show ?thesis by (simp add: h enc_cmd_def)
qed

lemma select_cmd_exact:
  assumes "int64_range d"
  shows "select_cmd d = Some (enc_cmd [SELECT, idec d])"
proof -
  obtain buf where buf: "(if 0 \<le> d \<and> d < PROTO_SHARED_SELECT_CMDS then ll2string (replicate 64 0) 64 d
      else ll2string (replicate LONG_STR_SIZE 0) LONG_STR_SIZE d) = Some (buf, length (idec d))" "takeWhile (\<lambda>c. c \<noteq> 0) buf = idec d"
    using llstr_read [OF assms, of 64] llstr_read [OF assms, of LONG_STR_SIZE] that
    by (cases "0 \<le> d \<and> d < PROTO_SHARED_SELECT_CMDS") (auto simp: LONG_STR_SIZE_def)
  obtain e where e: "sdsempty = Some e" "sds_rep e []" using sdsempty_rep by blast
  let ?out = "[42, 50, 13, 10, 36, 54, 13, 10, 83, 69, 76, 69, 67, 84, 13, 10, 36] @ dec (length (idec d)) @ [13, 10] @ idec d @ [13, 10]"
  have z: "0 \<notin> set ?out"
    using plain_chars idec_chars [of 0 d] idec_chars [of 0 "int (length (idec d))"] by auto
  have "length (dec (length (idec d))) \<le> 20"
    using length_idec_le [of "int (length (idec d))"] length_idec_le [OF assms] by (simp add: int64_range_def)
  then have "length ([] :: bytes) + length ?out < 2 ^ 62" using length_idec_le [OF assms] by simp
  from sdscatprintf_rep [OF e(2) z this] obtain s where s:
    "sdscatprintf e [42, 50, 13, 10, 36, 54, 13, 10, 83, 69, 76, 69, 67, 84, 13, 10, 36, 37, 100, 13, 10, 37, 115, 13, 10] ?out = Some s"
    "sds_rep s ([] @ ?out)" by blast
  have "dec (Suc (Suc (Suc (Suc (Suc (Suc 0)))))) = [54]" "dec (Suc (Suc 0)) = [50]" by (simp_all add: dec_small)
  moreover have "sds_str s = ?out" using s(2) by (simp add: sds_rep_def)
  ultimately show ?thesis
    unfolding select_cmd_def buf(1) e(1) by (simp add: buf(2) s(1) [simplified] enc_cmd_def enc_arg_def enc_line_def SELECT_def)
qed

text \<open>What a command adds to the stream, and what feeding it does to the backlog and to the slaves.\<close>

definition fed_text :: "repl \<Rightarrow> int \<Rightarrow> monitor_arg list \<Rightarrow> bytes" where
  "fed_text r d args = (if slaveseldb r \<noteq> d then enc_cmd [SELECT, idec d] else []) @ enc_cmd (map marg_str args)"

definition add_stream :: "bytes \<Rightarrow> slave \<Rightarrow> slave" where
  "add_stream T sl = (if wait_bgsave sl then sl else addReply sl T)"

lemma add_stream_frame [simp]:
  "replstate (add_stream T sl) = replstate sl" "psync_initial_offset (add_stream T sl) = psync_initial_offset sl"
  "slave_id (add_stream T sl) = slave_id sl" "slave_written (add_stream T sl) = slave_written sl" "sentlen (add_stream T sl) = sentlen sl"
  "write_handler (add_stream T sl) = write_handler sl" "reply_off (add_stream T sl) = reply_off sl" "close_asap (add_stream T sl) = close_asap sl"
  "repl_put_online_on_ack (add_stream T sl) = repl_put_online_on_ack sl"
  by (simp_all add: add_stream_def)

lemma add_stream_append: "add_stream U (add_stream T sl) = add_stream (T @ U) sl"
  by (simp add: add_stream_def)

lemma feed_select_exact:
  assumes "backlog_inv r S base" "int64_range d"
  shows "\<exists>r'. feed_select r d = Some r' \<and> backlog_inv r' (S @ (if slaveseldb r \<noteq> d then enc_cmd [SELECT, idec d] else [])) base \<and> repl_frame r r' \<and>
    slaves r' = (if slaveseldb r \<noteq> d then map (add_stream (enc_cmd [SELECT, idec d])) (slaves r) else slaves r) \<and>
    repl_backlog_histlen r' = min (repl_backlog_size r) (repl_backlog_histlen r + int (length (if slaveseldb r \<noteq> d then enc_cmd [SELECT, idec d] else [])))"
proof (cases "slaveseldb r \<noteq> d")
  case True
  obtain r1 where r1: "feedReplicationBacklog r (enc_cmd [SELECT, idec d]) = Some r1" "backlog_inv r1 (S @ enc_cmd [SELECT, idec d]) base" "same_repl r r1"
    "repl_backlog_histlen r1 = min (repl_backlog_size r) (repl_backlog_histlen r + int (length (enc_cmd [SELECT, idec d])))"
    using feed_inv [OF assms(1)] by blast
  have b: "repl_backlog r \<noteq> None" using assms(1) by (auto simp: backlog_inv_def)
  let ?r = "r1\<lparr>slaves := map (\<lambda>sl. if wait_bgsave sl then sl else addReply sl (enc_cmd [SELECT, idec d])) (slaves r1)\<rparr>"
  have "feed_select r d = Some ?r" using True b r1(1) by (simp add: feed_select_def select_cmd_exact [OF assms(2)])
  moreover have "backlog_inv ?r (S @ enc_cmd [SELECT, idec d]) base" using r1(2) by (simp add: backlog_inv_def)
  ultimately show ?thesis using True r1(3,4) by (auto simp: same_repl_def repl_frame_def add_stream_def)
next
  case False
  have "repl_backlog_histlen r \<le> repl_backlog_size r" using fed_refl [OF assms(1)] by (simp add: fed_def min_def split: if_splits)
  then show ?thesis using False assms(1) by (simp add: feed_select_def repl_frame_def)
qed

lemma replicationFeedSlaves_exact:
  assumes "backlog_inv r S base" "int64_range d" "args_ok args"
  shows "\<exists>r'. replicationFeedSlaves r d args = Some r' \<and> backlog_inv r' (S @ fed_text r d args) base \<and> repl_frame r r' \<and> slaveseldb r' = d \<and>
    slaves r' = map (add_stream (fed_text r d args)) (slaves r) \<and>
    repl_backlog_histlen r' = min (repl_backlog_size r) (repl_backlog_histlen r + int (length (fed_text r d args)))"
proof -
  define T where "T = (if slaveseldb r \<noteq> d then enc_cmd [SELECT, idec d] else [])"
  define C where "C = enc_cmd (map marg_str args)"
  obtain r1 where r1: "feed_select r d = Some r1" "backlog_inv r1 (S @ T) base" "repl_frame r r1" "slaves r1 = (if slaveseldb r \<noteq> d then map (add_stream T) (slaves r) else slaves r)"
    "repl_backlog_histlen r1 = min (repl_backlog_size r) (repl_backlog_histlen r + int (length T))"
    using feed_select_exact [OF assms(1,2)] by (auto simp: T_def split: if_splits)
  let ?r1 = "r1\<lparr>slaveseldb := d\<rparr>"
  have "backlog_inv ?r1 (S @ T) base" using r1(2) by (simp add: backlog_inv_def)
  from fed_command [OF this assms(3)] obtain r2 where r2: "do {
     aux \<leftarrow> header_text (LONG_STR_SIZE + 3) 42 (int (length args));
     r \<leftarrow> feedReplicationBacklog ?r1 aux;
     feed_arguments r args } = Some r2" "backlog_inv r2 ((S @ T) @ C) base" "same_repl ?r1 r2"
    "repl_backlog_histlen r2 = min (repl_backlog_size ?r1) (repl_backlog_histlen ?r1 + int (length C))"
    unfolding fed_def C_def by blast
  have b: "repl_backlog r \<noteq> None" "repl_backlog ?r1 \<noteq> None" using assms(1) r1(2) by (auto simp: backlog_inv_def)
  have "each_slave (feed_slave args) (slaves r2) = Some (map (add_stream C) (slaves r2))"
  proof (rule each_slave_exact)
    show "feed_slave args sl = Some (add_stream C sl)" for sl
      using assms(3) feed_slave_exact [of args sl] by (cases "wait_bgsave sl") (auto simp: args_ok_def add_stream_def C_def feed_slave_def)
  qed
  then have run: "replicationFeedSlaves r d args = Some (r2\<lparr>slaves := map (add_stream C) (slaves r2)\<rparr>)"
    unfolding replicationFeedSlaves_def using b r1(1) r2(1) by (auto simp: Let_def c_assert_def)
  have f: "fed_text r d args = T @ C" by (simp add: fed_text_def T_def C_def)
  have "slaves r2 = slaves r1" using r2(3) by (simp add: same_repl_def)
  then have "map (add_stream C) (slaves r2) = map (add_stream (T @ C)) (slaves r)" using r1(4) by (simp add: T_def add_stream_append)
  moreover have "repl_frame r r2" "slaveseldb r2 = d"
    using r2(3) r1(3) by (simp_all add: same_repl_def repl_frame_def)
  moreover have "backlog_inv (r2\<lparr>slaves := map (add_stream C) (slaves r2)\<rparr>) (S @ fed_text r d args) base" using r2(2) by (simp add: backlog_inv_def f)
  moreover have "repl_backlog_histlen r2 = min (repl_backlog_size r) (repl_backlog_histlen r + int (length (T @ C)))"
    using r1(3,5) r2(4) by (auto simp: repl_frame_def min_def)
  ultimately show ?thesis using run by (simp add: f repl_frame_def)
qed

end
