(* ===== verification/Replication.thy ===== *)
theory Replication
  imports Backlog Dict_Types
begin

text \<open>
  The master's side of the synchronisation protocol of \<^verbatim>\<open>replication.c\<close>: SYNC and PSYNC, the start and the end of the background save
  that serves them, the periodic work, and the commands that are propagated.  The answers of the operating system are a record.
  Freed clients leave the list of slaves; clients that only wait for their last reply to be sent are in \<open>closing\<close>.
\<close>

unbundle bit_operations_syntax

definition SLAVE_CAPA_EOF :: int where "SLAVE_CAPA_EOF = 1"

section \<open>Full resynchronisation\<close>

definition getPsyncInitialOffset :: "repl \<Rightarrow> int" where
  "getPsyncInitialOffset r =
     (let psync_offset = master_repl_offset r in if repl_backlog r = None then psync_offset + 1 else psync_offset)"

text \<open>\<open>"+FULLRESYNC %s %lld\r\n"\<close> fits in its 128 bytes: a run id has 40 characters.\<close>

definition fullresync_text :: "bytes \<Rightarrow> int \<Rightarrow> bytes" where
  "fullresync_text rid offset = [43, 70, 85, 76, 76, 82, 69, 83, 89, 78, 67, 32] @ rid @ [32] @ idec offset @ [13, 10]"

definition replicationSetupSlaveForFullResync :: "os \<Rightarrow> repl \<Rightarrow> slave \<Rightarrow> int \<Rightarrow> repl \<times> slave" where
  "replicationSetupSlaveForFullResync sys r sl offset =
     (let sl = sl\<lparr>psync_initial_offset := offset, replstate := SLAVE_STATE_WAIT_BGSAVE_END\<rparr>;
          r = r\<lparr>slaveseldb := -1\<rparr>
      in if \<not> pre_psync sl then
           (if \<not> write_ok sys (slave_id sl) then (r, sl\<lparr>close_asap := True\<rparr>)
            else (r, sl\<lparr>slave_sent := slave_sent sl @ fullresync_text (runid r) offset\<rparr>))
         else (r, sl))"

fun setup_waiting :: "os \<Rightarrow> repl \<Rightarrow> slave list \<Rightarrow> repl \<times> slave list" where
  "setup_waiting sys r [] = (r, [])"
| "setup_waiting sys r (sl # sls) =
     (let (r, sl) = (if wait_bgsave sl then replicationSetupSlaveForFullResync sys r sl (getPsyncInitialOffset r) else (r, sl));
          (r, sls) = setup_waiting sys r sls
      in (r, sl # sls))"

text \<open>The child process does not change the parent; \<open>True\<close> is \<open>C_OK\<close>.\<close>

definition rdbSaveBackground :: "os \<Rightarrow> repl \<Rightarrow> repl \<times> bool" where
  "rdbSaveBackground sys r =
     (if aof_child r \<or> rdb_child r \<noteq> RDB_CHILD_TYPE_NONE then (r, False)
      else if \<not> fork_ok sys then (r, False)
      else (r\<lparr>rdb_child := RDB_CHILD_TYPE_DISK\<rparr>, True))"

text \<open>The slaves that were set up go back to waiting when no child process could be made.\<close>

definition undo_setup :: "nat list \<Rightarrow> slave list \<Rightarrow> slave list" where
  "undo_setup clientids sls = map (\<lambda>sl. if slave_id sl \<in> set clientids then sl\<lparr>replstate := SLAVE_STATE_WAIT_BGSAVE_START\<rparr> else sl) sls"

definition rdbSaveToSlavesSockets :: "os \<Rightarrow> repl \<Rightarrow> repl \<times> bool" where
  "rdbSaveToSlavesSockets sys r =
     (if aof_child r \<or> rdb_child r \<noteq> RDB_CHILD_TYPE_NONE then (r, False)
      else if \<not> pipe_ok sys then (r, False)
      else let clientids = map slave_id (filter (\<lambda>sl. wait_bgsave sl) (slaves r));
               (r, sls) = setup_waiting sys r (slaves r);
               r = r\<lparr>slaves := sls\<rparr>
        in if \<not> fork_ok sys then
             (r\<lparr>slaves := undo_setup clientids (slaves r)\<rparr>, False)
           else (r\<lparr>rdb_child := RDB_CHILD_TYPE_SOCKET\<rparr>, True))"

definition error_reply :: "bytes \<Rightarrow> bytes" where
  "error_reply err = [45, 69, 82, 82, 32] @ err @ [13, 10]"

text \<open>\<open>"BGSAVE failed, replication can't continue"\<close>.\<close>

definition bgsave_failed :: bytes where
  "bgsave_failed = [66, 71, 83, 65, 86, 69, 32, 102, 97, 105, 108, 101, 100, 44, 32, 114, 101, 112, 108, 105, 99, 97, 116, 105, 111, 110, 32,
     99, 97, 110, 39, 116, 32, 99, 111, 110, 116, 105, 110, 117, 101]"

definition startBgsaveForReplication :: "os \<Rightarrow> repl \<Rightarrow> int \<Rightarrow> repl" where
  "startBgsaveForReplication sys r mincapa =
     (let socket_target = repl_diskless_sync r \<and> mincapa AND SLAVE_CAPA_EOF \<noteq> 0;
          (r, retval) = (if socket_target then rdbSaveToSlavesSockets sys r else rdbSaveBackground sys r)
      in if \<not> retval then
           r\<lparr>slaves := filter (\<lambda>sl. \<not> wait_bgsave sl) (slaves r),
             closing := closing r @ map (\<lambda>sl. addReply sl (error_reply bgsave_failed)) (filter (\<lambda>sl. wait_bgsave sl) (slaves r))\<rparr>
         else if \<not> socket_target then (let (r, sls) = setup_waiting sys r (slaves r) in r\<lparr>slaves := sls\<rparr>)
         else r)"

section \<open>Partial resynchronisation\<close>

definition getLongLongFromObject :: "monitor_arg \<Rightarrow> int option" where
  "getLongLongFromObject ob = (case ob of MStr s \<Rightarrow> string2ll (sds_str s) | MInt v \<Rightarrow> Some v)"

text \<open>\<open>"value is not an integer or out of range"\<close>.\<close>

definition not_integer :: bytes where
  "not_integer = [118, 97, 108, 117, 101, 32, 105, 115, 32, 110, 111, 116, 32, 97, 110, 32, 105, 110, 116, 101, 103, 101, 114, 32, 111, 114, 32,
     111, 117, 116, 32, 111, 102, 32, 114, 97, 110, 103, 101]"

definition getLongLongFromObjectOrReply :: "slave \<Rightarrow> monitor_arg \<Rightarrow> slave \<times> int option" where
  "getLongLongFromObjectOrReply c ob =
     (case getLongLongFromObject ob of None \<Rightarrow> (addReply c (error_reply not_integer), None) | Some v \<Rightarrow> (c, Some v))"

text \<open>\<open>"+CONTINUE\r\n"\<close>.  \<open>Inl\<close> is \<open>C_OK\<close>, \<open>Inr\<close> asks for a full resynchronisation of the client.\<close>

definition continue_text :: bytes where
  "continue_text = [43, 67, 79, 78, 84, 73, 78, 85, 69, 13, 10]"

definition masterTryPartialResynchronization :: "os \<Rightarrow> repl \<Rightarrow> slave \<Rightarrow> bytes \<Rightarrow> monitor_arg \<Rightarrow> (repl + slave) option" where
  "masterTryPartialResynchronization sys r c master_runid ob =
     (if \<not> dictSdsKeyCaseCompare master_runid (runid r) then Some (Inr c)
      else case getLongLongFromObjectOrReply c ob of
        (c, None) \<Rightarrow> Some (Inr c)
      | (c, Some psync_offset) \<Rightarrow>
          if repl_backlog r = None \<or> psync_offset < repl_backlog_off r \<or> psync_offset > repl_backlog_off r + repl_backlog_histlen r
          then Some (Inr c)
          else let c = c\<lparr>replstate := SLAVE_STATE_ONLINE, repl_put_online_on_ack := False\<rparr> in
            if \<not> write_ok sys (slave_id c) then Some (Inl (r\<lparr>slaves := slaves r @ [c\<lparr>close_asap := True\<rparr>]\<rparr>))
            else do {
              let c = c\<lparr>slave_sent := slave_sent c @ continue_text\<rparr>;
              (out, psync_len) \<leftarrow> addReplyReplicationBacklog r psync_offset;
              Some (Inl (r\<lparr>slaves := slaves r @ [if psync_len = 0 then c else addReply c out]\<rparr>))
            })"

section \<open>SYNC and PSYNC\<close>

text \<open>\<open>"Can't SYNC while not connected with my master"\<close> and \<open>"SYNC and PSYNC are invalid with pending output"\<close>.\<close>

definition sync_no_master :: bytes where
  "sync_no_master = [67, 97, 110, 39, 116, 32, 83, 89, 78, 67, 32, 119, 104, 105, 108, 101, 32, 110, 111, 116, 32, 99, 111, 110, 110, 101, 99,
     116, 101, 100, 32, 119, 105, 116, 104, 32, 109, 121, 32, 109, 97, 115, 116, 101, 114]"

definition sync_pending :: bytes where
  "sync_pending = [83, 89, 78, 67, 32, 97, 110, 100, 32, 80, 83, 89, 78, 67, 32, 97, 114, 101, 32, 105, 110, 118, 97, 108, 105, 100, 32, 119,
     105, 116, 104, 32, 112, 101, 110, 100, 105, 110, 103, 32, 111, 117, 116, 112, 117, 116]"

text \<open>The client joins the background save that already serves another slave, by taking over that slave's output.\<close>

definition attach_slave :: "os \<Rightarrow> repl \<Rightarrow> slave \<Rightarrow> repl" where
  "attach_slave sys r c =
     (case find (\<lambda>sl. replstate sl = SLAVE_STATE_WAIT_BGSAVE_END) (slaves r) of
        None \<Rightarrow> r
      | Some sl \<Rightarrow>
          if slave_capa c AND slave_capa sl = slave_capa sl then
            (let (r, c) = replicationSetupSlaveForFullResync sys r (copyClientOutputBuffer c sl) (psync_initial_offset sl)
             in r\<lparr>slaves := butlast (slaves r) @ [c]\<rparr>)
          else r)"

definition full_resync :: "os \<Rightarrow> repl \<Rightarrow> slave \<Rightarrow> repl option" where
  "full_resync sys r c =
     (let c = c\<lparr>replstate := SLAVE_STATE_WAIT_BGSAVE_START\<rparr>;
          r = r\<lparr>slaves := slaves r @ [c]\<rparr>;
          r = (if rdb_child r = RDB_CHILD_TYPE_DISK then attach_slave sys r c
               else if rdb_child r = RDB_CHILD_TYPE_SOCKET then r
               else if repl_diskless_sync r \<and> slave_capa c AND SLAVE_CAPA_EOF \<noteq> 0 then r
               else if \<not> aof_child r then startBgsaveForReplication sys r (slave_capa c)
               else r)
      in if length (slaves r) = 1 \<and> repl_backlog r = None then createReplicationBacklog r else Some r)"

text \<open>\<open>psync\<close> holds the two arguments of PSYNC, and is \<open>None\<close> for SYNC; the bytes of the result are an error reply to the client.\<close>

definition syncCommand :: "os \<Rightarrow> repl \<Rightarrow> slave \<Rightarrow> (bytes \<times> monitor_arg) option \<Rightarrow> (repl \<times> bytes) option" where
  "syncCommand sys r c psync =
     (if slave_id c \<in> set (map slave_id (slaves r)) then Some (r, [])
      else if master_link_down r then Some (r, error_reply sync_no_master)
      else if clientHasPendingReplies c then Some (r, error_reply sync_pending)
      else do {
        partial \<leftarrow> (case psync of
            Some (master_runid, ob) \<Rightarrow> masterTryPartialResynchronization sys r c master_runid ob
          | None \<Rightarrow> Some (Inr (c\<lparr>pre_psync := True\<rparr>)));
        r \<leftarrow> (case partial of Inl r \<Rightarrow> Some r | Inr c \<Rightarrow> full_resync sys r c);
        Some (r, [])
      })"

section \<open>The end of a background save\<close>

definition putSlaveOnline :: "os \<Rightarrow> slave \<Rightarrow> slave option" where
  "putSlaveOnline sys sl =
     (let sl = sl\<lparr>replstate := SLAVE_STATE_ONLINE, repl_put_online_on_ack := False\<rparr> in
      if event_ok sys (slave_id sl) then Some (sl\<lparr>write_handler := True\<rparr>) else None)"

text \<open>A slave of diskless replication is put online by its first REPLCONF ACK; another one when the last part of the RDB file is sent, after
  \<open>sendBulkToSlave\<close> has removed its write event.\<close>

definition replconf_ack :: "os \<Rightarrow> slave \<Rightarrow> slave option" where
  "replconf_ack sys sl = (if repl_put_online_on_ack sl \<and> replstate sl = SLAVE_STATE_ONLINE then putSlaveOnline sys sl else Some sl)"

definition bulk_sent :: "os \<Rightarrow> slave \<Rightarrow> slave option" where
  "bulk_sent sys sl = (if replstate sl = SLAVE_STATE_SEND_BULK then putSlaveOnline sys (sl\<lparr>write_handler := False\<rparr>) else Some sl)"

fun update_slaves :: "os \<Rightarrow> bool \<Rightarrow> rdb_child_type \<Rightarrow> slave list \<Rightarrow> bool \<Rightarrow> int \<Rightarrow> slave list \<times> bool \<times> int" where
  "update_slaves sys ok type [] startbgsave mincapa = ([], startbgsave, mincapa)"
| "update_slaves sys ok type (sl # sls) startbgsave mincapa =
     (if wait_bgsave sl then
        (let (sls, res) = update_slaves sys ok type sls True (if mincapa = -1 then slave_capa sl else mincapa AND slave_capa sl) in (sl # sls, res))
      else if replstate sl = SLAVE_STATE_WAIT_BGSAVE_END then
        (if type = RDB_CHILD_TYPE_SOCKET then
           (let (sls, res) = update_slaves sys ok type sls startbgsave mincapa
            in (sl\<lparr>replstate := SLAVE_STATE_ONLINE, repl_put_online_on_ack := True\<rparr> # sls, res))
         else if \<not> ok then update_slaves sys ok type sls startbgsave mincapa
         else if \<not> open_ok sys (slave_id sl) then update_slaves sys ok type sls startbgsave mincapa
         else if \<not> event_ok sys (slave_id sl) then update_slaves sys ok type sls startbgsave mincapa
         else (let (sls, res) = update_slaves sys ok type sls startbgsave mincapa
            in (sl\<lparr>replstate := SLAVE_STATE_SEND_BULK, write_handler := False\<rparr> # sls, res)))
      else (let (sls, res) = update_slaves sys ok type sls startbgsave mincapa in (sl # sls, res)))"

definition updateSlavesWaitingBgsave :: "os \<Rightarrow> repl \<Rightarrow> bool \<Rightarrow> rdb_child_type \<Rightarrow> repl" where
  "updateSlavesWaitingBgsave sys r ok type =
     (let (sls, startbgsave, mincapa) = update_slaves sys ok type (slaves r) False (-1);
          r = r\<lparr>slaves := sls\<rparr>
      in if startbgsave then startBgsaveForReplication sys r mincapa else r)"

definition backgroundSaveDoneHandlerDisk :: "os \<Rightarrow> repl \<Rightarrow> bool \<Rightarrow> repl" where
  "backgroundSaveDoneHandlerDisk sys r ok = updateSlavesWaitingBgsave sys (r\<lparr>rdb_child := RDB_CHILD_TYPE_NONE\<rparr>) ok RDB_CHILD_TYPE_DISK"

text \<open>\<open>report\<close> is what the child wrote to the pipe, one client id and error code for each slave it served; it is read when the child ended well.\<close>

definition backgroundSaveDoneHandlerSocket :: "os \<Rightarrow> repl \<Rightarrow> bool \<Rightarrow> (nat \<times> nat) list \<Rightarrow> repl" where
  "backgroundSaveDoneHandlerSocket sys r ok report =
     (let r = r\<lparr>rdb_child := RDB_CHILD_TYPE_NONE\<rparr>;
          ok_slaves = (if ok then report else []);
          failed = (\<lambda>sl. replstate sl = SLAVE_STATE_WAIT_BGSAVE_END \<and>
            (case map_of ok_slaves (slave_id sl) of None \<Rightarrow> True | Some errorcode \<Rightarrow> errorcode \<noteq> 0));
          r = r\<lparr>slaves := filter (\<lambda>sl. \<not> failed sl) (slaves r)\<rparr>
      in updateSlavesWaitingBgsave sys r ok RDB_CHILD_TYPE_SOCKET)"

definition backgroundSaveDoneHandler :: "os \<Rightarrow> repl \<Rightarrow> bool \<Rightarrow> (nat \<times> nat) list \<Rightarrow> repl option" where
  "backgroundSaveDoneHandler sys r ok report =
     (case rdb_child r of
        RDB_CHILD_TYPE_DISK \<Rightarrow> Some (backgroundSaveDoneHandlerDisk sys r ok)
      | RDB_CHILD_TYPE_SOCKET \<Rightarrow> Some (backgroundSaveDoneHandlerSocket sys r ok report)
      | RDB_CHILD_TYPE_NONE \<Rightarrow> None)"

section \<open>The periodic work\<close>

text \<open>What the clock says: whether a PING is due, which slaves did not acknowledge for too long, whether the backlog is unused for too
  long, and whether a waiting slave has waited longer than the delay of diskless replication.\<close>

record clock =
  ping_due :: bool
  ack_timeout :: "nat \<Rightarrow> bool"
  backlog_idle :: bool
  delay_over :: bool

definition PING :: "sds option" where "PING = sdsnewlen (Some [80, 73, 78, 71]) 4"

definition newline_ping :: "os \<Rightarrow> repl \<Rightarrow> slave \<Rightarrow> slave" where
  "newline_ping sys r sl =
     (if (wait_bgsave sl \<or> replstate sl = SLAVE_STATE_WAIT_BGSAVE_END \<and> rdb_child r \<noteq> RDB_CHILD_TYPE_SOCKET) \<and> write_ok sys (slave_id sl)
      then sl\<lparr>slave_sent := slave_sent sl @ [10]\<rparr> else sl)"

fun waiting_capa :: "slave list \<Rightarrow> nat \<Rightarrow> int \<Rightarrow> nat \<times> int" where
  "waiting_capa [] slaves_waiting mincapa = (slaves_waiting, mincapa)"
| "waiting_capa (sl # sls) slaves_waiting mincapa =
     (if wait_bgsave sl then waiting_capa sls (slaves_waiting + 1) (if mincapa = -1 then slave_capa sl else mincapa AND slave_capa sl)
      else waiting_capa sls slaves_waiting mincapa)"

text \<open>The last part starts a save for the slaves that wait for one.  The cache of scripts, which the code flushes when no slave is left, is not modelled.\<close>

definition cron_bgsave :: "os \<Rightarrow> clock \<Rightarrow> repl \<Rightarrow> repl" where
  "cron_bgsave sys now r =
     (if rdb_child r = RDB_CHILD_TYPE_NONE \<and> \<not> aof_child r then
        (let (slaves_waiting, mincapa) = waiting_capa (slaves r) 0 (-1) in
         if slaves_waiting \<noteq> 0 \<and> (\<not> repl_diskless_sync r \<or> delay_over now) then startBgsaveForReplication sys r mincapa else r)
      else r)"

definition replicationCron :: "os \<Rightarrow> clock \<Rightarrow> repl \<Rightarrow> repl option" where
  "replicationCron sys now r = do {
     r \<leftarrow> (if ping_due now then do { p \<leftarrow> PING; replicationFeedSlaves r (slaveseldb r) [MStr p] } else Some r);
     let r = r\<lparr>slaves := map (newline_ping sys r) (slaves r)\<rparr>;
     let r = r\<lparr>slaves := filter (\<lambda>sl. \<not> (replstate sl = SLAVE_STATE_ONLINE \<and> \<not> pre_psync sl \<and> ack_timeout now (slave_id sl))) (slaves r)\<rparr>;
     r \<leftarrow> (if slaves r = [] \<and> repl_backlog r \<noteq> None \<and> backlog_idle now then freeReplicationBacklog r else Some r);
     Some (cron_bgsave sys now r)
   }"

end
