(* ===== verification/Repl_Inv.thy ===== *)
theory Repl_Inv
  imports Replication
begin

text \<open>
  The operations of the master as a transition system.  The stream is a list of entries: a command with the database it was executed on, a
  SELECT, or the offset that is skipped when a backlog is created.  Beside the state goes a history: the entries so far, the offsets that
  were announced to slaves set up for a full resynchronisation, and the offset each slave continued from after a PSYNC.  The invariant says what the
  backlog and the output of every slave hold in terms of the history; every operation keeps it.
\<close>

section \<open>The stream\<close>

datatype entry = EGap | ESelect int | ECmd int "bytes list"

fun entry_bytes :: "entry \<Rightarrow> bytes" where
  "entry_bytes EGap = [0]"
| "entry_bytes (ESelect d) = enc_cmd [SELECT, idec d]"
| "entry_bytes (ECmd d args) = enc_cmd args"

definition stream :: "entry list \<Rightarrow> bytes" where
  "stream es = concat (map entry_bytes es)"

lemma stream_append [simp]: "stream (es @ fs) = stream es @ stream fs"
  by (simp add: stream_def)

lemma stream_nil [simp]: "stream [] = []"
  by (simp add: stream_def)

lemma stream_take: "stream es = stream (take n es) @ stream (drop n es)"
  by (metis append_take_drop_id stream_append)

lemma entry_bytes_pos: "entry_bytes e \<noteq> []"
  by (cases e) (simp_all add: enc_cmd_def enc_line_def)

text \<open>An offset of the stream is the start of at most one entry.\<close>

lemma stream_take_less:
  assumes "m < n" "n \<le> length es"
  shows "length (stream (take m es)) < length (stream (take n es))"
proof -
  have "take n es = take m es @ (es ! m) # take (n - Suc m) (drop (Suc m) es)"
    using assms by (metis Cons_nth_drop_Suc add_diff_inverse_nat less_imp_not_less less_le_trans take_Suc_Cons take_add Suc_diff_Suc)
  then show ?thesis using entry_bytes_pos [of "es ! m"] by (simp add: stream_def)
qed

lemma stream_take_inj:
  assumes "m \<le> length es" "n \<le> length es" "length (stream (take m es)) = length (stream (take n es))"
  shows "m = n"
  using assms stream_take_less [of m n es] stream_take_less [of n m es] by (cases m n rule: linorder_cases) auto

text \<open>What the receiver of the stream does: it keeps the selected database, and a command must find its database selected.  The commands of the
  replication protocol itself are sent with no database, \<open>-1\<close>, when none is selected.\<close>

fun replay :: "int \<Rightarrow> entry list \<Rightarrow> int option" where
  "replay cur [] = Some cur"
| "replay cur (EGap # es) = replay cur es"
| "replay cur (ESelect d # es) = replay d es"
| "replay cur (ECmd d args # es) = (if d = -1 \<or> d = cur then replay cur es else None)"

lemma replay_append: "replay cur (es @ fs) = Option.bind (replay cur es) (\<lambda>c. replay c fs)"
  by (induction cur es rule: replay.induct) simp_all

definition feed_entries :: "int \<Rightarrow> int \<Rightarrow> bytes list \<Rightarrow> entry list" where
  "feed_entries seldb d args = (if seldb \<noteq> d then [ESelect d] else []) @ [ECmd d args]"

lemma stream_feed: "stream (feed_entries (slaveseldb r) d (map marg_str args)) = fed_text r d args"
  by (simp add: stream_def feed_entries_def fed_text_def)

section \<open>The operations\<close>

datatype repl_op =
    RCommand int "monitor_arg list"
  | RSync os slave "(bytes \<times> monitor_arg) option"
  | RSaveDone os bool "(nat \<times> nat) list"
  | RCron os clock
  | RAck os nat
  | RBulkSent os nat
  | RPendingWrites os
  | RWritable os nat
  | RBgsave os
  | RAof bool
  | RFree nat
  | RResize int

definition on_slave :: "nat \<Rightarrow> (slave \<Rightarrow> slave option) \<Rightarrow> slave list \<Rightarrow> slave list" where
  "on_slave i f sls = List.map_filter (\<lambda>sl. if slave_id sl = i then f sl else Some sl) sls"

fun repl_exec :: "repl \<Rightarrow> repl_op \<Rightarrow> repl option" where
  "repl_exec r (RCommand d args) = replicationFeedSlaves r d args"
| "repl_exec r (RSync sys c psync) = map_option fst (syncCommand sys r c psync)"
| "repl_exec r (RSaveDone sys ok report) = (if rdb_child r = RDB_CHILD_TYPE_NONE then Some r else backgroundSaveDoneHandler sys r ok report)"
| "repl_exec r (RCron sys now) = replicationCron sys now r"
| "repl_exec r (RAck sys i) = Some (r\<lparr>slaves := on_slave i (replconf_ack sys) (slaves r)\<rparr>)"
| "repl_exec r (RBulkSent sys i) = Some (r\<lparr>slaves := on_slave i (bulk_sent sys) (slaves r)\<rparr>)"
| "repl_exec r (RPendingWrites sys) = Some (r\<lparr>slaves := handleClientsWithPendingWrites sys (slaves r)\<rparr>)"
| "repl_exec r (RWritable sys i) = Some (r\<lparr>slaves := on_slave i (sendReplyToClient sys) (slaves r)\<rparr>)"
| "repl_exec r (RBgsave sys) = Some (fst (rdbSaveBackground sys r))"
| "repl_exec r (RAof b) = Some (r\<lparr>aof_child := b\<rparr>)"
| "repl_exec r (RFree i) = Some (r\<lparr>slaves := filter (\<lambda>sl. slave_id sl \<noteq> i) (slaves r)\<rparr>)"
| "repl_exec r (RResize n) = Some (resizeReplicationBacklog r n)"

text \<open>A client that asks to be synchronised is no slave yet, has not switched its replies off, and is not scheduled for a write when its
  buffers are empty; what was written to it before does not count.\<close>

definition client_ok :: "slave \<Rightarrow> bool" where
  "client_ok c \<longleftrightarrow> replstate c = REPL_STATE_NONE \<and> \<not> reply_off c \<and> (slave_reply c = [] \<longrightarrow> held_back c)"

text \<open>Commands come with a database number and objects of the server; the offset of a PSYNC that names the run id of the server is a number.\<close>

fun repl_op_ok :: "repl \<Rightarrow> repl_op \<Rightarrow> bool" where
  "repl_op_ok r (RCommand d args) \<longleftrightarrow> 0 \<le> d \<and> int64_range d \<and> args_ok args"
| "repl_op_ok r (RSync sys c None) \<longleftrightarrow> client_ok c"
| "repl_op_ok r (RSync sys c (Some (rid, ob))) \<longleftrightarrow> client_ok c \<and> (dictSdsKeyCaseCompare rid (runid r) \<longrightarrow> getLongLongFromObject ob \<noteq> None)"
| "repl_op_ok r _ \<longleftrightarrow> True"

definition active :: "repl \<Rightarrow> bool" where
  "active r \<longleftrightarrow> repl_backlog r \<noteq> None \<or> slaves r \<noteq> []"

text \<open>The entries that an operation adds.\<close>

fun repl_log :: "repl \<Rightarrow> repl_op \<Rightarrow> repl \<Rightarrow> entry list" where
  "repl_log r (RCommand d args) r' = (if active r then feed_entries (slaveseldb r) d (map marg_str args) else [])"
| "repl_log r (RSync sys c psync) r' = (if repl_backlog r = None \<and> repl_backlog r' \<noteq> None then [EGap] else [])"
| "repl_log r (RCron sys now) r' = (if ping_due now \<and> active r then [ECmd (slaveseldb r) [[80, 73, 78, 71]]] else [])"
| "repl_log r _ r' = []"

record history =
  entries :: "entry list"
  told :: "int set"
  resumed :: "nat \<Rightarrow> int option"

text \<open>The offsets of the slaves that wait for a save to end are those they were told; a client that is online at once after its PSYNC
  continued from the offset it asked for.\<close>

definition waiting_offsets :: "repl \<Rightarrow> int set" where
  "waiting_offsets r = psync_initial_offset ` {sl \<in> set (slaves r). replstate sl = SLAVE_STATE_WAIT_BGSAVE_END}"

definition online :: "slave list \<Rightarrow> nat set" where
  "online sls = slave_id ` {sl \<in> set sls. replstate sl = SLAVE_STATE_ONLINE}"

fun resumed_by :: "repl \<Rightarrow> repl_op \<Rightarrow> repl \<Rightarrow> (nat \<Rightarrow> int option) \<Rightarrow> nat \<Rightarrow> int option" where
  "resumed_by r (RSync sys c psync) r' G =
     (if slave_id c \<in> set (map slave_id (slaves r)) then G
      else G(slave_id c := (case psync of
          Some (rid, ob) \<Rightarrow> if slave_id c \<in> online (slaves r') then getLongLongFromObject ob else None
        | None \<Rightarrow> None)))"
| "resumed_by r _ r' G = G"

definition observe :: "repl \<Rightarrow> repl_op \<Rightarrow> repl \<Rightarrow> history \<Rightarrow> history" where
  "observe r op r' h = \<lparr>entries = entries h @ repl_log r op r', told = told h \<union> waiting_offsets r', resumed = resumed_by r op r' (resumed h)\<rparr>"

inductive repl_reach :: "int \<Rightarrow> repl \<Rightarrow> history \<Rightarrow> bool" for base :: int where
  start: "repl_backlog r = None \<Longrightarrow> slaves r = [] \<Longrightarrow> slaveseldb r = -1 \<Longrightarrow> 0 < repl_backlog_size r \<Longrightarrow> master_repl_offset r = base \<Longrightarrow>
    repl_reach base r \<lparr>entries = [], told = {}, resumed = (\<lambda>_. None)\<rparr>"
| step: "repl_reach base r h \<Longrightarrow> repl_op_ok r op \<Longrightarrow> repl_exec r op = Some r' \<Longrightarrow> repl_reach base r' (observe r op r' h)"

section \<open>The invariant\<close>

text \<open>An offset that was announced is the start of an entry, and a replay from there finds every command's database selected.\<close>

definition told_ok :: "int \<Rightarrow> entry list \<Rightarrow> int \<Rightarrow> int \<Rightarrow> bool" where
  "told_ok seldb es base t \<longleftrightarrow> (\<exists>n cur. n \<le> length es \<and> t = base + int (length (stream (take n es))) \<and> replay (-1) (drop n es) = Some cur \<and>
     (seldb = cur \<or> seldb = -1))"

definition from_offset :: "int \<Rightarrow> entry list \<Rightarrow> int \<Rightarrow> bytes \<Rightarrow> bool" where
  "from_offset base es t xs \<longleftrightarrow> base \<le> t \<and> t \<le> base + int (length (stream es)) \<and> xs = drop (nat (t - base)) (stream es)"

definition full_synced :: "int \<Rightarrow> entry list \<Rightarrow> int \<Rightarrow> slave \<Rightarrow> bool" where
  "full_synced seldb es base sl \<longleftrightarrow> told_ok seldb es base (psync_initial_offset sl) \<and> from_offset base es (psync_initial_offset sl) (given sl)"

definition slave_inv :: "(nat \<Rightarrow> int option) \<Rightarrow> int \<Rightarrow> entry list \<Rightarrow> int \<Rightarrow> slave \<Rightarrow> bool" where
  "slave_inv G seldb es base sl \<longleftrightarrow> \<not> reply_off sl \<and> sentlen sl \<le> length (slave_reply sl) \<and> (case replstate sl of
     REPL_STATE_NONE \<Rightarrow> False
   | SLAVE_STATE_WAIT_BGSAVE_START \<Rightarrow> G (slave_id sl) = None \<and> held_back sl \<and> slave_reply sl = []
   | SLAVE_STATE_ONLINE \<Rightarrow> (case G (slave_id sl) of
         None \<Rightarrow> full_synced seldb es base sl \<and> (repl_put_online_on_ack sl \<longrightarrow> held_back sl)
       | Some off \<Rightarrow> \<not> repl_put_online_on_ack sl \<and> (close_asap sl \<or> from_offset base es (off - 1) (given sl)))
   | _ \<Rightarrow> G (slave_id sl) = None \<and> held_back sl \<and> full_synced seldb es base sl)"

definition slaves_inv :: "int \<Rightarrow> int set \<Rightarrow> (nat \<Rightarrow> int option) \<Rightarrow> repl \<Rightarrow> entry list \<Rightarrow> bool" where
  "slaves_inv base T G r es \<longleftrightarrow> (\<forall>sl \<in> set (slaves r). slave_inv G (slaveseldb r) es base sl) \<and> distinct (map slave_id (slaves r)) \<and>
     int64_range (slaveseldb r) \<and> (\<forall>t \<in> T. told_ok (slaveseldb r) es base t)"

definition base_inv :: "int \<Rightarrow> repl \<Rightarrow> entry list \<Rightarrow> bool" where
  "base_inv base r es \<longleftrightarrow> 0 < repl_backlog_size r \<and>
     (if repl_backlog r = None then master_repl_offset r = base + int (length (stream es)) else backlog_inv r (stream es) base)"

definition repl_inv :: "int \<Rightarrow> int set \<Rightarrow> (nat \<Rightarrow> int option) \<Rightarrow> repl \<Rightarrow> entry list \<Rightarrow> bool" where
  "repl_inv base T G r es \<longleftrightarrow> base_inv base r es \<and> (repl_backlog r = None \<longrightarrow> slaves r = []) \<and> slaves_inv base T G r es"

text \<open>The part of a client that its output depends on.\<close>

definition buffers :: "slave \<Rightarrow> nat \<times> bytes \<times> nat \<times> bytes \<times> bool \<times> bool \<times> bool" where
  "buffers sl = (slave_id sl, slave_reply sl, sentlen sl, slave_written sl, pending_write sl, write_handler sl, reply_off sl)"

lemma buffersD:
  assumes "buffers sl' = buffers sl"
  shows "slave_id sl' = slave_id sl" "slave_reply sl' = slave_reply sl" "sentlen sl' = sentlen sl" "reply_off sl' = reply_off sl"
    "given sl' = given sl" "held_back sl' = held_back sl"
  using assms by (simp_all add: buffers_def given_def held_back_def)

lemma full_synced_cong:
  "given sl' = given sl \<Longrightarrow> psync_initial_offset sl' = psync_initial_offset sl \<Longrightarrow> full_synced seldb es base sl' = full_synced seldb es base sl"
  by (simp add: full_synced_def)

lemma slave_inv_cong:
  assumes "slave_inv G seldb es base sl" "buffers sl' = buffers sl" "replstate sl' = replstate sl" "psync_initial_offset sl' = psync_initial_offset sl"
    "close_asap sl' = close_asap sl" "repl_put_online_on_ack sl' = repl_put_online_on_ack sl"
  shows "slave_inv G seldb es base sl'"
  using assms(1,3-) buffersD [OF assms(2)] full_synced_cong [of sl' sl] by (simp add: slave_inv_def split: slave_state.splits option.splits)

text \<open>Announcing that no database is selected keeps the invariant.\<close>

lemma told_ok_reset: "told_ok seldb es base t \<Longrightarrow> told_ok (-1) es base t"
  by (auto simp: told_ok_def)

lemma slave_inv_reset: "slave_inv G seldb es base sl \<Longrightarrow> slave_inv G (-1) es base sl"
  using told_ok_reset by (auto simp: slave_inv_def full_synced_def split: slave_state.splits option.splits)

lemma replay_feed:
  assumes "seldb = cur \<or> seldb = -1" "seldb = d \<or> 0 \<le> d"
  shows "\<exists>cur'. replay cur (feed_entries seldb d args) = Some cur' \<and> (d = cur' \<or> d = -1)"
  using assms by (auto simp: feed_entries_def)

lemma told_ok_feed:
  assumes "told_ok seldb es base t" "seldb = d \<or> 0 \<le> d"
  shows "told_ok d (es @ feed_entries seldb d args) base t"
proof -
  obtain n cur where n: "n \<le> length es" "t = base + int (length (stream (take n es)))" "replay (-1) (drop n es) = Some cur" "seldb = cur \<or> seldb = -1"
    using assms(1) by (auto simp: told_ok_def)
  obtain cur' where "replay cur (feed_entries seldb d args) = Some cur'" "d = cur' \<or> d = -1" using replay_feed [OF n(4) assms(2)] by blast
  then show ?thesis using n unfolding told_ok_def by (intro exI [of _ n] exI [of _ cur']) (auto simp: replay_append)
qed

lemma told_ok_gap: "told_ok seldb es base t \<Longrightarrow> told_ok seldb (es @ [EGap]) base t"
  unfolding told_ok_def by (elim exE conjE, rule_tac x = n in exI, rule_tac x = cur in exI) (auto simp: replay_append)

lemma from_offset_append: "from_offset base es t xs \<Longrightarrow> from_offset base (es @ fs) t (xs @ stream fs)"
  by (auto simp: from_offset_def)

lemma held_back_add:
  assumes "held_back sl" "replstate sl = SLAVE_STATE_ONLINE \<longrightarrow> repl_put_online_on_ack sl" "replstate sl \<noteq> REPL_STATE_NONE"
  shows "held_back (add_stream T sl)"
  using assms by (auto simp: held_back_def add_stream_def addReply_pending)

lemma slave_inv_feed:
  assumes "slave_inv G seldb es base sl" "seldb = d \<or> 0 \<le> d"
  shows "slave_inv G d (es @ feed_entries seldb d args) base (add_stream (stream (feed_entries seldb d args)) sl)"
proof -
  let ?f = "feed_entries seldb d args"
  let ?sl = "add_stream (stream ?f) sl"
  have inv: "\<not> reply_off sl" "sentlen sl \<le> length (slave_reply sl)" using assms(1) by (simp_all add: slave_inv_def)
  have g: "\<not> wait_bgsave sl \<Longrightarrow> given ?sl = given sl @ stream ?f" using given_addReply [OF inv] by (simp add: add_stream_def)
  have full: "full_synced seldb es base sl \<Longrightarrow> \<not> wait_bgsave sl \<Longrightarrow> full_synced d (es @ ?f) base ?sl"
    using g told_ok_feed [OF _ assms(2)] from_offset_append [of base es] by (simp add: full_synced_def)
  have "sentlen sl \<le> length (slave_reply ?sl)" using inv by (simp add: add_stream_def addReply_reply)
  moreover have "wait_bgsave sl \<Longrightarrow> ?sl = sl" by (simp add: add_stream_def)
  ultimately show ?thesis using assms(1) full g held_back_add [of sl "stream ?f"] from_offset_append [of base es _ "given sl" ?f]
    by (cases "replstate sl"; cases "G (slave_id sl)") (auto simp: slave_inv_def)
qed

lemma slaves_inv_feed:
  assumes "slaves_inv base T G r es" "slaveseldb r = d \<or> 0 \<le> d" "int64_range d" "slaveseldb r' = d"
    "slaves r' = map (add_stream (stream (feed_entries (slaveseldb r) d args))) (slaves r)"
  shows "slaves_inv base T G r' (es @ feed_entries (slaveseldb r) d args)"
  using assms slave_inv_feed [OF _ assms(2)] told_ok_feed [OF _ assms(2)] by (auto simp: slaves_inv_def comp_def)

section \<open>Full resynchronisation\<close>

definition same_backlog :: "repl \<Rightarrow> repl \<Rightarrow> bool" where
  "same_backlog r r' \<longleftrightarrow> repl_backlog r' = repl_backlog r \<and> repl_backlog_size r' = repl_backlog_size r \<and> repl_backlog_histlen r' = repl_backlog_histlen r \<and>
     repl_backlog_idx r' = repl_backlog_idx r \<and> repl_backlog_off r' = repl_backlog_off r \<and> master_repl_offset r' = master_repl_offset r"

text \<open>Setting slaves up keeps the backlog, may reset the selected database, and puts no slave online.\<close>

definition resync_frame :: "repl \<Rightarrow> repl \<Rightarrow> bool" where
  "resync_frame r r' \<longleftrightarrow> same_backlog r r' \<and> (slaveseldb r' = slaveseldb r \<or> slaveseldb r' = -1) \<and> online (slaves r') \<subseteq> online (slaves r)"

lemma same_backlog_refl [simp]: "same_backlog r r"
  by (simp add: same_backlog_def)

lemma resync_frame_refl [simp]: "resync_frame r r"
  by (simp add: resync_frame_def)

lemma resync_frame_trans: "resync_frame r r' \<Longrightarrow> resync_frame r' r'' \<Longrightarrow> resync_frame r r''"
  by (auto simp: resync_frame_def same_backlog_def)

lemma resync_frameD: "resync_frame r r' \<Longrightarrow> same_backlog r r'"
  by (simp add: resync_frame_def)

lemma base_inv_cong: "same_backlog r r' \<Longrightarrow> base_inv base r' es = base_inv base r es"
  by (simp add: same_backlog_def base_inv_def backlog_inv_def)

lemma getPsync_cong: "same_backlog r r' \<Longrightarrow> getPsyncInitialOffset r' = getPsyncInitialOffset r"
  by (simp add: same_backlog_def getPsyncInitialOffset_def)

lemma setup_slave:
  "replicationSetupSlaveForFullResync sys r sl offset = (r', sl') \<Longrightarrow>
   r' = r\<lparr>slaveseldb := -1\<rparr> \<and> replstate sl' = SLAVE_STATE_WAIT_BGSAVE_END \<and> psync_initial_offset sl' = offset \<and> buffers sl' = buffers sl"
  by (auto simp: replicationSetupSlaveForFullResync_def buffers_def Let_def split: if_splits)

lemma full_synced_start:
  assumes "given sl = []" "psync_initial_offset sl = base + int (length (stream es))"
  shows "full_synced (-1) es base sl"
proof -
  have "told_ok (-1) es base (psync_initial_offset sl)"
    unfolding told_ok_def using assms(2) by (intro exI [of _ "length es"] exI [of _ "-1"]) simp
  then show ?thesis using assms by (simp add: full_synced_def from_offset_def)
qed

lemma setup_slave_inv:
  assumes "replicationSetupSlaveForFullResync sys r sl offset = (r', sl')" "slave_inv G seldb es base sl" "wait_bgsave sl"
    "offset = base + int (length (stream es))"
  shows "slave_inv G (-1) es base sl'"
proof -
  note s = setup_slave [OF assms(1)]
  have b: "buffers sl' = buffers sl" using s by simp
  have sl: "G (slave_id sl) = None" "held_back sl" "slave_reply sl = []" "\<not> reply_off sl" "sentlen sl = 0"
    using assms(2,3) by (auto simp: slave_inv_def held_back_def)
  have "given sl' = []" using sl buffersD(5) [OF b] by (simp add: given_def held_back_def)
  then show ?thesis using s sl buffersD [OF b] assms(4) full_synced_start [of sl' base es] by (simp add: slave_inv_def)
qed

text \<open>\<open>es\<close> is the stream up to the offset that \<open>getPsyncInitialOffset\<close> announces.\<close>

lemma setup_waiting_inv:
  "setup_waiting sys r sls = (r', sls') \<Longrightarrow> \<forall>sl \<in> set sls. slave_inv G (slaveseldb r) es base sl \<Longrightarrow>
   getPsyncInitialOffset r = base + int (length (stream es)) \<Longrightarrow>
   (r' = r \<or> r' = r\<lparr>slaveseldb := -1\<rparr>) \<and> (\<forall>sl \<in> set sls'. slave_inv G (slaveseldb r') es base sl) \<and> map buffers sls' = map buffers sls \<and>
   online sls' \<subseteq> online sls"
proof (induction sls arbitrary: r r' sls')
  case Nil
  then show ?case by simp
next
  case (Cons sl sls)
  obtain r1 sl1 where 1: "(if wait_bgsave sl then replicationSetupSlaveForFullResync sys r sl (getPsyncInitialOffset r) else (r, sl)) = (r1, sl1)"
    by fastforce
  obtain r2 sls2 where 2: "setup_waiting sys r1 sls = (r2, sls2)" by fastforce
  have res: "r' = r2" "sls' = sl1 # sls2" using Cons.prems(1) 1 2 by (auto simp: Let_def)
  have sl1: "(r1 = r \<or> r1 = r\<lparr>slaveseldb := -1\<rparr>) \<and> slave_inv G (slaveseldb r1) es base sl1 \<and> buffers sl1 = buffers sl \<and>
    (replstate sl1 = SLAVE_STATE_ONLINE \<longrightarrow> replstate sl = SLAVE_STATE_ONLINE)"
  proof (cases "wait_bgsave sl")
    case True
    then have e: "replicationSetupSlaveForFullResync sys r sl (getPsyncInitialOffset r) = (r1, sl1)" using 1 by simp
    show ?thesis using setup_slave [OF e] setup_slave_inv [OF e _ True] Cons.prems(2,3) by auto
  next
    case False
    then show ?thesis using 1 Cons.prems(2) by auto
  qed
  have "getPsyncInitialOffset r1 = base + int (length (stream es))" using sl1 Cons.prems(3) by (auto simp: getPsyncInitialOffset_def)
  moreover have "\<forall>sl \<in> set sls. slave_inv G (slaveseldb r1) es base sl" using sl1 Cons.prems(2) slave_inv_reset by auto
  ultimately have ih: "(r2 = r1 \<or> r2 = r1\<lparr>slaveseldb := -1\<rparr>) \<and> (\<forall>sl \<in> set sls2. slave_inv G (slaveseldb r2) es base sl) \<and> map buffers sls2 = map buffers sls \<and>
    online sls2 \<subseteq> online sls"
    using Cons.IH [OF 2] by blast
  have "slave_inv G (slaveseldb r2) es base sl1" using ih sl1 slave_inv_reset by auto
  moreover have "online sls' \<subseteq> online (sl # sls)" using ih sl1 buffersD(1) [of sl1 sl] by (auto simp: online_def res)
  ultimately show ?case using ih sl1 res by auto
qed

lemma int64_none [simp]: "int64_range (-1)"
  by (simp add: int64_range_def)

lemma map_buffers_id: "map buffers sls' = map buffers sls \<Longrightarrow> map slave_id sls' = map slave_id sls"
proof -
  assume "map buffers sls' = map buffers sls"
  then have "map fst (map buffers sls') = map fst (map buffers sls)" by (rule arg_cong)
  then show ?thesis by (simp add: buffers_def comp_def)
qed

lemma setup_all_inv:
  assumes "slaves_inv base T G r es" "getPsyncInitialOffset r = base + int (length (stream es))" "setup_waiting sys r (slaves r) = (r', sls)"
  shows "slaves_inv base T G (r'\<lparr>slaves := sls\<rparr>) es" "resync_frame r (r'\<lparr>slaves := sls\<rparr>)" "map buffers sls = map buffers (slaves r)"
proof -
  have "\<forall>sl \<in> set (slaves r). slave_inv G (slaveseldb r) es base sl" using assms(1) by (simp add: slaves_inv_def)
  note s = setup_waiting_inv [OF assms(3) this assms(2)]
  show "map buffers sls = map buffers (slaves r)" using s by simp
  then show "slaves_inv base T G (r'\<lparr>slaves := sls\<rparr>) es"
    using assms(1) s map_buffers_id [of sls "slaves r"] told_ok_reset by (auto simp: slaves_inv_def)
  show "resync_frame r (r'\<lparr>slaves := sls\<rparr>)" using s by (auto simp: resync_frame_def same_backlog_def)
qed

lemma online_filter: "online (filter P sls) \<subseteq> online sls"
  by (auto simp: online_def)

lemma slaves_inv_sub:
  assumes "slaves_inv base T G r es" "slaveseldb r' = slaveseldb r" "slaves r' = filter P (slaves r)"
  shows "slaves_inv base T G r' es"
  using assms by (auto simp: slaves_inv_def distinct_map_filter)

text \<open>The undo after a failed \<open>fork\<close> finds exactly the slaves that were waiting, because client ids are distinct.\<close>

lemma undo_inv:
  assumes "slaves_inv base T G r es" "map buffers sls = map buffers (slaves r)" "\<forall>sl \<in> set sls. slave_inv G seldb es base sl"
    "sl \<in> set (map (\<lambda>sl. if slave_id sl \<in> slave_id ` {x \<in> set (slaves r). wait_bgsave x} then sl\<lparr>replstate := SLAVE_STATE_WAIT_BGSAVE_START\<rparr> else sl) sls)"
  shows "slave_inv G seldb es base sl"
proof -
  obtain sl0 where sl0: "sl0 \<in> set sls" "sl = (if slave_id sl0 \<in> slave_id ` {x \<in> set (slaves r). wait_bgsave x} then sl0\<lparr>replstate := SLAVE_STATE_WAIT_BGSAVE_START\<rparr> else sl0)"
    using assms(4) by auto
  obtain i where i: "i < length sls" "sl0 = sls ! i" using sl0(1) by (auto simp: in_set_conv_nth)
  have len: "length sls = length (slaves r)" using assms(2) by (metis length_map)
  have b: "buffers sl0 = buffers (slaves r ! i)" using i len assms(2) by (metis nth_map)
  show ?thesis
  proof (cases "slave_id sl0 \<in> slave_id ` {x \<in> set (slaves r). wait_bgsave x}")
    case True
    then obtain x where x: "x \<in> set (slaves r)" "wait_bgsave x" "slave_id x = slave_id (slaves r ! i)" using buffersD(1) [OF b] by auto
    have "x = slaves r ! i"
      using assms(1) x(1,3) i(1) len by (auto simp: slaves_inv_def distinct_map inj_on_def)
    moreover have "slave_inv G (slaveseldb r) es base x" using assms(1) x(1) by (simp add: slaves_inv_def)
    ultimately show ?thesis using True sl0(2) x(2) buffersD [OF b] by (simp add: slave_inv_def held_back_def)
  next
    case False
    then show ?thesis using sl0 assms(3) by simp
  qed
qed

lemma rdbSaveToSlavesSockets_inv:
  assumes "slaves_inv base T G r es" "getPsyncInitialOffset r = base + int (length (stream es))" "rdbSaveToSlavesSockets sys r = (r', ok)"
  shows "slaves_inv base T G r' es \<and> resync_frame r r' \<and> length (slaves r') = length (slaves r)"
proof (cases "aof_child r \<or> rdb_child r \<noteq> RDB_CHILD_TYPE_NONE \<or> \<not> pipe_ok sys")
  case True
  then have "r' = r" using assms(3) unfolding rdbSaveToSlavesSockets_def by (metis prod.inject)
  then show ?thesis using assms(1) by simp
next
  case False
  obtain r1 sls where s: "setup_waiting sys r (slaves r) = (r1, sls)" by fastforce
  note all = setup_all_inv [OF assms(1,2) s]
  have len: "length sls = length (slaves r)" using all(3) by (metis length_map)
  have ids: "set (map slave_id (filter (\<lambda>sl. wait_bgsave sl) (slaves r))) = slave_id ` {x \<in> set (slaves r). wait_bgsave x}" by simp
  show ?thesis
  proof (cases "fork_ok sys")
    case True
    then have "r' = r1\<lparr>slaves := sls, rdb_child := RDB_CHILD_TYPE_SOCKET\<rparr>" using assms(3) s False by (simp add: rdbSaveToSlavesSockets_def Let_def)
    then show ?thesis using all(1,2) len by (auto simp: slaves_inv_def resync_frame_def same_backlog_def)
  next
    case nofork: False
    let ?u = "\<lambda>sl. if slave_id sl \<in> slave_id ` {x \<in> set (slaves r). wait_bgsave x} then sl\<lparr>replstate := SLAVE_STATE_WAIT_BGSAVE_START\<rparr> else sl"
    have r': "r' = r1\<lparr>slaves := map ?u sls\<rparr>" using nofork assms(3) s False unfolding rdbSaveToSlavesSockets_def Let_def undo_setup_def ids by simp
    have inv: "\<forall>sl \<in> set sls. slave_inv G (slaveseldb r1) es base sl" using all(1) by (simp add: slaves_inv_def)
    have "\<forall>sl \<in> set (map ?u sls). slave_inv G (slaveseldb r1) es base sl"
      using undo_inv [OF assms(1) all(3) inv] by blast
    moreover have "map slave_id (map ?u sls) = map slave_id sls" by simp
    ultimately have "slaves_inv base T G r' es" using all(1) unfolding r' slaves_inv_def by (simp del: map_map)
    moreover have "online (map ?u sls) \<subseteq> online sls" by (auto simp: online_def)
    then have "resync_frame r r'" using all(2) unfolding r' by (auto simp: resync_frame_def same_backlog_def)
    ultimately show ?thesis using len by (simp add: r')
  qed
qed

lemma startBgsave_inv:
  assumes "slaves_inv base T G r es" "getPsyncInitialOffset r = base + int (length (stream es))"
  shows "slaves_inv base T G (startBgsaveForReplication sys r mincapa) es \<and> resync_frame r (startBgsaveForReplication sys r mincapa) \<and>
    length (slaves (startBgsaveForReplication sys r mincapa)) \<le> length (slaves r)"
proof -
  define tgt where "tgt = (repl_diskless_sync r \<and> mincapa AND SLAVE_CAPA_EOF \<noteq> 0)"
  obtain r1 ok where r1: "(if tgt then rdbSaveToSlavesSockets sys r else rdbSaveBackground sys r) = (r1, ok)" by fastforce
  have s1: "slaves_inv base T G r1 es" "resync_frame r r1" "length (slaves r1) = length (slaves r)"
    using r1 assms rdbSaveToSlavesSockets_inv [OF assms, of sys r1 ok]
    by (auto simp: rdbSaveBackground_def slaves_inv_def resync_frame_def same_backlog_def split: if_splits)
  obtain r2 sls where s2: "setup_waiting sys r1 (slaves r1) = (r2, sls)" by fastforce
  have g1: "getPsyncInitialOffset r1 = base + int (length (stream es))" using s1(2) assms(2) getPsync_cong resync_frameD by metis
  note all = setup_all_inv [OF s1(1) g1 s2]
  have len: "length sls = length (slaves r)" using all(3) s1(3) by (metis length_map)
  have eq: "startBgsaveForReplication sys r mincapa =
      (if \<not> ok then r1\<lparr>slaves := filter (\<lambda>sl. \<not> wait_bgsave sl) (slaves r1),
             closing := closing r1 @ map (\<lambda>sl. addReply sl (error_reply bgsave_failed)) (filter (\<lambda>sl. wait_bgsave sl) (slaves r1))\<rparr>
       else if \<not> tgt then r2\<lparr>slaves := sls\<rparr> else r1)"
    unfolding startBgsaveForReplication_def Let_def tgt_def [symmetric] r1 prod.case s2 by simp
  consider "\<not> ok" | "ok" "\<not> tgt" | "ok" "tgt" by blast
  then show ?thesis
  proof cases
    case 1
    have "resync_frame r1 (startBgsaveForReplication sys r mincapa)"
      unfolding eq using 1 online_filter [of _ "slaves r1"] by (auto simp: resync_frame_def same_backlog_def)
    then have "resync_frame r (startBgsaveForReplication sys r mincapa)" using resync_frame_trans [OF s1(2)] by blast
    then show ?thesis using 1 s1 slaves_inv_sub [OF s1(1)] length_filter_le [of _ "slaves r1"] unfolding eq by simp
  next
    case 2
    then show ?thesis unfolding eq using all(1,2) s1(2) len resync_frame_trans by auto
  next
    case 3
    then show ?thesis unfolding eq using s1 by simp
  qed
qed

lemma attach_inv:
  assumes "slaves_inv base T G r es" "slaves r = sls @ [c]" "wait_bgsave c"
  shows "slaves_inv base T G (attach_slave sys r c) es \<and> resync_frame r (attach_slave sys r c) \<and> length (slaves (attach_slave sys r c)) = length (slaves r)"
proof (cases "find (\<lambda>sl. replstate sl = SLAVE_STATE_WAIT_BGSAVE_END) (slaves r)")
  case None
  then show ?thesis using assms(1) by (simp add: attach_slave_def)
next
  case (Some sl)
  then have sl: "sl \<in> set (slaves r)" "replstate sl = SLAVE_STATE_WAIT_BGSAVE_END" by (auto simp: find_Some_iff)
  obtain r1 c1 where s: "replicationSetupSlaveForFullResync sys r (copyClientOutputBuffer c sl) (psync_initial_offset sl) = (r1, c1)" by fastforce
  note c1 = setup_slave [OF s]
  have b: "buffers c1 = buffers (copyClientOutputBuffer c sl)" using c1 by simp
  have f: "full_synced (slaveseldb r) es base sl" "held_back sl" using assms(1) sl by (auto simp: slaves_inv_def slave_inv_def)
  have c: "G (slave_id c) = None" "held_back c" "\<not> reply_off c" using assms by (auto simp: slaves_inv_def slave_inv_def)
  have "given c1 = given sl" using buffersD(5) [OF b] c(2) f(2) by (simp add: given_def held_back_def copyClientOutputBuffer_def)
  then have "full_synced (-1) es base c1" using c1 f(1) told_ok_reset by (auto simp: full_synced_def)
  then have "slave_inv G (-1) es base c1" using c1 c buffersD [OF b] by (simp add: slave_inv_def held_back_def copyClientOutputBuffer_def)
  moreover have "online (sls @ [c1]) \<subseteq> online (sls @ [c])" using c1 by (auto simp: online_def)
  moreover have "slave_id c1 = slave_id c" using buffersD(1) [OF b] by (simp add: copyClientOutputBuffer_def)
  ultimately show ?thesis using Some s c1 assms slave_inv_reset told_ok_reset
    by (auto simp: attach_slave_def slaves_inv_def resync_frame_def same_backlog_def Let_def)
qed

lemma create_inv:
  assumes "repl_backlog r = None" "base_inv base r es"
  shows "\<exists>r'. createReplicationBacklog r = Some r' \<and> base_inv base r' (es @ [EGap]) \<and> repl_backlog r' \<noteq> None \<and> slaves r' = slaves r \<and> slaveseldb r' = slaveseldb r"
  using assms by (simp add: createReplicationBacklog_def base_inv_def backlog_inv_def Let_def stream_def lastn_def)

lemma initial_offset:
  "base_inv base r es \<Longrightarrow> getPsyncInitialOffset r = base + int (length (stream (if repl_backlog r = None then es @ [EGap] else es)))"
  by (auto simp: base_inv_def getPsyncInitialOffset_def backlog_inv_def stream_def Let_def)

lemma full_resync_inv:
  assumes "repl_inv base T G r es" "held_back c" "slave_reply c = []" "\<not> reply_off c" "slave_id c \<notin> set (map slave_id (slaves r))" "G (slave_id c) = None"
  shows "\<exists>r'. full_resync sys r c = Some r' \<and> repl_inv base T G r' (es @ (if repl_backlog r = None \<and> repl_backlog r' \<noteq> None then [EGap] else [])) \<and>
    slave_id c \<notin> online (slaves r')"
proof -
  have b: "base_inv base r es" "repl_backlog r = None \<Longrightarrow> slaves r = []" "slaves_inv base T G r es" using assms(1) by (auto simp: repl_inv_def)
  define es1 where "es1 = (if repl_backlog r = None then es @ [EGap] else es)"
  let ?c = "c\<lparr>replstate := SLAVE_STATE_WAIT_BGSAVE_START\<rparr>"
  define r1 where "r1 = r\<lparr>slaves := slaves r @ [?c]\<rparr>"
  have sb: "same_backlog r r1" by (simp add: r1_def same_backlog_def)
  have c: "slave_inv G (slaveseldb r) es1 base ?c" using assms(2-4,6) by (simp add: slave_inv_def held_back_def)
  have "slaves_inv base T G r es1" using b(2,3) told_ok_gap by (auto simp: slaves_inv_def es1_def)
  then have inv1: "slaves_inv base T G r1 es1" using c assms(5) by (auto simp: slaves_inv_def r1_def)
  have off: "getPsyncInitialOffset r1 = base + int (length (stream es1))"
    using initial_offset [OF b(1)] getPsync_cong [OF sb] by (simp add: es1_def)
  define r2 where "r2 = (if rdb_child r1 = RDB_CHILD_TYPE_DISK then attach_slave sys r1 ?c
               else if rdb_child r1 = RDB_CHILD_TYPE_SOCKET then r1
               else if repl_diskless_sync r1 \<and> slave_capa ?c AND SLAVE_CAPA_EOF \<noteq> 0 then r1
               else if \<not> aof_child r1 then startBgsaveForReplication sys r1 (slave_capa ?c)
               else r1)"
  have "slaves_inv base T G r2 es1 \<and> resync_frame r1 r2 \<and> length (slaves r2) \<le> length (slaves r1)"
    using inv1 attach_inv [OF inv1, of "slaves r" ?c sys] startBgsave_inv [OF inv1 off, of sys "slave_capa ?c"]
    by (simp add: r2_def r1_def)
  then have i2: "slaves_inv base T G r2 es1" "resync_frame r1 r2" "length (slaves r2) \<le> length (slaves r1)" by simp_all
  have run: "full_resync sys r c = (if length (slaves r2) = 1 \<and> repl_backlog r2 = None then createReplicationBacklog r2 else Some r2)"
    unfolding full_resync_def Let_def r2_def r1_def by (rule refl)
  have sb2: "same_backlog r r2" using sb i2(2) by (auto simp: resync_frame_def same_backlog_def)
  have base2: "base_inv base r2 es" using base_inv_cong [OF sb2] b(1) by blast
  have n2: "repl_backlog r2 = repl_backlog r" using sb2 by (simp add: same_backlog_def)
  have "online (slaves r1) \<subseteq> set (map slave_id (slaves r))" by (auto simp: online_def r1_def)
  then have on: "slave_id c \<notin> online (slaves r2)" using i2(2) assms(5) unfolding resync_frame_def by blast
  consider "repl_backlog r \<noteq> None" | "repl_backlog r = None" "length (slaves r2) = 1" | "repl_backlog r = None" "slaves r2 = []"
    using b(2) i2(3) by (cases "repl_backlog r"; cases "slaves r2") (auto simp: r1_def)
  then show ?thesis
  proof cases
    case 1
    then show ?thesis using run n2 base2 i2(1) on by (auto simp: repl_inv_def es1_def)
  next
    case 2
    then obtain r3 where "createReplicationBacklog r2 = Some r3" "base_inv base r3 (es @ [EGap])" "repl_backlog r3 \<noteq> None" "slaves r3 = slaves r2" "slaveseldb r3 = slaveseldb r2"
      using create_inv [OF _ base2] n2 by auto
    then show ?thesis using run 2 n2 i2(1) on by (auto simp: repl_inv_def slaves_inv_def es1_def)
  next
    case 3
    have "slaveseldb r2 = slaveseldb r \<or> slaveseldb r2 = -1" using i2(2) by (simp add: resync_frame_def r1_def)
    then have "slaves_inv base T G r2 es" using 3(2) b(3) told_ok_reset by (auto simp: slaves_inv_def)
    then show ?thesis using run n2 base2 3 on by (auto simp: repl_inv_def)
  qed
qed

lemma slaves_inv_upd:
  "i \<notin> set (map slave_id (slaves r)) \<Longrightarrow> slaves_inv base T (G(i := x)) r es = slaves_inv base T G r es"
  by (auto simp: slaves_inv_def slave_inv_def image_iff split: slave_state.splits)

text \<open>An accepted partial resynchronisation sends the stream from the requested offset on.\<close>

lemma partial_resync_inv:
  assumes "repl_inv base T G r es" "held_back c" "slave_reply c = []" "\<not> reply_off c" "slave_id c \<notin> set (map slave_id (slaves r))"
    "dictSdsKeyCaseCompare rid (runid r) \<longrightarrow> getLongLongFromObject ob \<noteq> None"
  shows "\<exists>res. masterTryPartialResynchronization sys r c rid ob = Some res \<and>
    (case res of Inl r' \<Rightarrow> repl_inv base T (G(slave_id c := getLongLongFromObject ob)) r' es \<and> repl_backlog r' \<noteq> None \<and> repl_backlog r \<noteq> None \<and>
       slave_id c \<in> online (slaves r') | Inr c' \<Rightarrow> c' = c)"
proof (cases "dictSdsKeyCaseCompare rid (runid r)")
  case False
  then show ?thesis by (simp add: masterTryPartialResynchronization_def)
next
  case True
  then obtain off where off: "getLongLongFromObject ob = Some off" using assms(6) by blast
  have g: "getLongLongFromObjectOrReply c ob = (c, Some off)" by (simp add: getLongLongFromObjectOrReply_def off)
  show ?thesis
  proof (cases "repl_backlog r = None \<or> off < repl_backlog_off r \<or> off > repl_backlog_off r + repl_backlog_histlen r")
    case out: True
    then show ?thesis using True g by (auto simp: masterTryPartialResynchronization_def)
  next
    case False
    then have bl: "backlog_inv r (stream es) base" "repl_backlog r \<noteq> None" using assms(1) by (auto simp: repl_inv_def base_inv_def)
    note rd = read_inv [OF bl(1), of off]
    let ?c = "c\<lparr>replstate := SLAVE_STATE_ONLINE, repl_put_online_on_ack := False\<rparr>"
    let ?G = "G(slave_id c := Some off)"
    have add: "repl_inv base T ?G (r\<lparr>slaves := slaves r @ [sl]\<rparr>) es \<and> slave_id c \<in> online (slaves r @ [sl])"
      if "slave_id sl = slave_id c" "replstate sl = SLAVE_STATE_ONLINE" "slave_inv ?G (slaveseldb r) es base sl" for sl
    proof -
      have "slaves_inv base T ?G r es" using assms(1,5) slaves_inv_upd [of "slave_id c" r] by (simp add: repl_inv_def)
      then have "slaves_inv base T ?G (r\<lparr>slaves := slaves r @ [sl]\<rparr>) es" using that assms(5) by (auto simp: slaves_inv_def)
      moreover have "base_inv base (r\<lparr>slaves := slaves r @ [sl]\<rparr>) es"
        using assms(1) base_inv_cong [of r "r\<lparr>slaves := slaves r @ [sl]\<rparr>"] by (simp add: repl_inv_def same_backlog_def)
      moreover have "slave_id c \<in> online (slaves r @ [sl])" using that(1,2) unfolding online_def by (intro image_eqI [of _ _ sl]) simp_all
      ultimately show ?thesis using bl(2) by (auto simp: repl_inv_def)
    qed
    show ?thesis
    proof (cases "write_ok sys (slave_id c)")
      case w: True
      define c1 where "c1 = ?c\<lparr>slave_sent := slave_sent c @ continue_text\<rparr>"
      define xs where "xs = drop (nat (off - base - 1)) (stream es)"
      define n where "n = repl_backlog_histlen r - (off - repl_backlog_off r)"
      let ?sl = "if n = 0 then c1 else addReply c1 xs"
      have c1: "given c1 = []" "\<not> reply_off c1" "sentlen c1 = 0" "slave_id c1 = slave_id c" "replstate c1 = SLAVE_STATE_ONLINE" "slave_reply c1 = []"
        "\<not> repl_put_online_on_ack c1"
        using assms(2-4) by (simp_all add: c1_def given_def held_back_def)
      have "n = 0 \<Longrightarrow> xs = []" using bl(1) by (auto simp: xs_def n_def backlog_inv_def)
      then have "given ?sl = xs" using given_addReply [of c1 xs] c1 by simp
      moreover have "from_offset base es (off - 1) xs" using rd(2,3) False by (auto simp: from_offset_def xs_def diff_diff_eq add.commute)
      ultimately have "slave_inv ?G (slaveseldb r) es base ?sl" using c1 by (auto simp: slave_inv_def)
      then have "repl_inv base T ?G (r\<lparr>slaves := slaves r @ [?sl]\<rparr>) es \<and> slave_id c \<in> online (slaves r @ [?sl])" using c1 by (intro add) simp_all
      moreover have "masterTryPartialResynchronization sys r c rid ob = Some (Inl (r\<lparr>slaves := slaves r @ [?sl]\<rparr>))"
        using True g w False rd(1) by (simp add: masterTryPartialResynchronization_def c1_def xs_def n_def Let_def)
      ultimately show ?thesis using bl(2) off by auto
    next
      case w: False
      have "repl_inv base T ?G (r\<lparr>slaves := slaves r @ [?c\<lparr>close_asap := True\<rparr>]\<rparr>) es \<and> slave_id c \<in> online (slaves r @ [?c\<lparr>close_asap := True\<rparr>])"
        using assms(2,4) by (intro add) (auto simp: slave_inv_def held_back_def)
      then show ?thesis using True g w False bl(2) off by (simp add: masterTryPartialResynchronization_def Let_def)
    qed
  qed
qed

lemma syncCommand_inv:
  assumes "repl_inv base T G r es" "repl_op_ok r (RSync sys c psync)"
  shows "\<exists>r' reply. syncCommand sys r c psync = Some (r', reply) \<and>
    repl_inv base T (resumed_by r (RSync sys c psync) r' G) r' (es @ repl_log r (RSync sys c psync) r')"
proof (cases "slave_id c \<in> set (map slave_id (slaves r)) \<or> master_link_down r \<or> clientHasPendingReplies c")
  case True
  have keep: "repl_inv base T (G(slave_id c := x)) r es" if "slave_id c \<notin> set (map slave_id (slaves r))" for x
    using slaves_inv_upd [OF that] assms(1) by (simp add: repl_inv_def)
  have "repl_inv base T (resumed_by r (RSync sys c psync) r G) r es"
    using keep assms(1) by (simp del: set_map)
  then show ?thesis using True by (auto simp: syncCommand_def)
next
  case False
  have ok: "client_ok c" using assms(2) by (cases psync) auto
  have c: "held_back c" "slave_reply c = []" "\<not> reply_off c" "slave_id c \<notin> set (map slave_id (slaves r))"
    using False ok by (auto simp: clientHasPendingReplies_def client_ok_def)
  define part where "part = (case psync of Some (master_runid, ob) \<Rightarrow> masterTryPartialResynchronization sys r c master_runid ob
      | None \<Rightarrow> Some (Inr (c\<lparr>pre_psync := True\<rparr>)))"
  define P where "P = (\<lambda>res. case res of Inl r' \<Rightarrow> (\<exists>rid ob. psync = Some (rid, ob) \<and> repl_inv base T (G(slave_id c := getLongLongFromObject ob)) r' es) \<and>
        repl_backlog r' \<noteq> None \<and> repl_backlog r \<noteq> None \<and> slave_id c \<in> online (slaves r')
      | Inr c' \<Rightarrow> buffers c' = buffers c)"
  have "\<exists>res. part = Some res \<and> P res"
  proof (cases psync)
    case (Some a)
    then obtain rid ob where a: "psync = Some (rid, ob)" by (cases a) auto
    have "dictSdsKeyCaseCompare rid (runid r) \<longrightarrow> getLongLongFromObject ob \<noteq> None" using assms(2) a by simp
    from partial_resync_inv [OF assms(1) c this, of sys] show ?thesis using a by (auto simp: part_def P_def split: sum.splits)
  qed (auto simp: part_def P_def buffers_def)
  then obtain res where res: "part = Some res" "P res" by blast
  have run: "syncCommand sys r c psync = do { r \<leftarrow> (case res of Inl r \<Rightarrow> Some r | Inr c \<Rightarrow> full_resync sys r c); Some (r, []) }"
    using False res(1) unfolding part_def syncCommand_def by (simp del: set_map)
  show ?thesis
  proof (cases res)
    case (Inl r')
    then show ?thesis using run res(2) c(4) by (auto simp: P_def)
  next
    case (Inr c')
    then have b: "buffers c' = buffers c" using res(2) by (simp add: P_def)
    have G: "repl_inv base T (G(slave_id c := None)) r es" using assms(1) slaves_inv_upd [OF c(4)] by (simp add: repl_inv_def)
    have "\<exists>r'. full_resync sys r c' = Some r' \<and> repl_inv base T (G(slave_id c := None)) r' (es @ (if repl_backlog r = None \<and> repl_backlog r' \<noteq> None then [EGap] else [])) \<and>
        slave_id c' \<notin> online (slaves r')"
      using c buffersD [OF b] by (intro full_resync_inv [OF G]) simp_all
    then obtain r' where "full_resync sys r c' = Some r'" "slave_id c \<notin> online (slaves r')"
      "repl_inv base T (G(slave_id c := None)) r' (es @ (if repl_backlog r = None \<and> repl_backlog r' \<noteq> None then [EGap] else []))"
      using buffersD(1) [OF b] by auto
    then show ?thesis using run Inr c(4) by (auto split: option.splits)
  qed
qed

section \<open>The other operations\<close>

lemma startBgsave_repl_inv:
  assumes "repl_inv base T G r es" "repl_backlog r \<noteq> None"
  shows "repl_inv base T G (startBgsaveForReplication sys r mincapa) es"
proof -
  have b: "base_inv base r es" "slaves_inv base T G r es" using assms(1) by (simp_all add: repl_inv_def)
  have "getPsyncInitialOffset r = base + int (length (stream es))" using initial_offset [OF b(1)] assms(2) by simp
  note s = startBgsave_inv [OF b(2) this, of sys mincapa]
  have "repl_backlog (startBgsaveForReplication sys r mincapa) \<noteq> None" using s assms(2) by (simp add: resync_frame_def same_backlog_def)
  then show ?thesis using s resync_frameD base_inv_cong [of r "startBgsaveForReplication sys r mincapa" base es] b(1) by (auto simp: repl_inv_def)
qed

lemma update_slaves_inv:
  "update_slaves sys ok type sls b m = (sls', res) \<Longrightarrow> \<forall>sl \<in> set sls. slave_inv G seldb es base sl \<Longrightarrow> distinct (map slave_id sls) \<Longrightarrow>
   (\<forall>sl \<in> set sls'. slave_inv G seldb es base sl) \<and> distinct (map slave_id sls') \<and> slave_id ` set sls' \<subseteq> slave_id ` set sls"
proof (induction sls arbitrary: sls' b m res)
  case Nil
  then show ?case by simp
next
  case (Cons sl sls)
  have online: "slave_inv G seldb es base (sl\<lparr>replstate := SLAVE_STATE_ONLINE, repl_put_online_on_ack := True\<rparr>)"
    and bulk: "slave_inv G seldb es base (sl\<lparr>replstate := SLAVE_STATE_SEND_BULK, write_handler := False\<rparr>)" if "replstate sl = SLAVE_STATE_WAIT_BGSAVE_END"
  proof -
    have "slave_inv G seldb es base sl" using Cons.prems(2) by simp
    then show "slave_inv G seldb es base (sl\<lparr>replstate := SLAVE_STATE_ONLINE, repl_put_online_on_ack := True\<rparr>)"
      "slave_inv G seldb es base (sl\<lparr>replstate := SLAVE_STATE_SEND_BULK, write_handler := False\<rparr>)"
      using that by (auto simp: slave_inv_def held_back_def full_synced_def given_def)
  qed
  have sub: "P \<and> distinct (map slave_id sls1) \<and> slave_id ` set sls1 \<subseteq> slave_id ` set sls \<Longrightarrow> slave_id sl1 = slave_id sl \<Longrightarrow>
      distinct (map slave_id (sl1 # sls1)) \<and> slave_id ` set (sl1 # sls1) \<subseteq> slave_id ` set (sl # sls)" for P sls1 sl1
    using Cons.prems(3) by auto
  have ih: "update_slaves sys ok type sls b1 m1 = (sls1, res1) \<Longrightarrow>
     (\<forall>sl \<in> set sls1. slave_inv G seldb es base sl) \<and> distinct (map slave_id sls1) \<and> slave_id ` set sls1 \<subseteq> slave_id ` set sls" for b1 m1 sls1 res1
    using Cons.IH [of b1 m1 sls1 res1] Cons.prems(2,3) by simp
  have hd: "slave_inv G seldb es base sl" using Cons.prems(2) by simp
  obtain b1 m1 sls1 res1 where u: "update_slaves sys ok type sls b1 m1 = (sls1, res1)"
    "sls' = sls1 \<or> sls' = sl # sls1 \<or> replstate sl = SLAVE_STATE_WAIT_BGSAVE_END \<and>
       (sls' = sl\<lparr>replstate := SLAVE_STATE_ONLINE, repl_put_online_on_ack := True\<rparr> # sls1 \<or> sls' = sl\<lparr>replstate := SLAVE_STATE_SEND_BULK, write_handler := False\<rparr> # sls1)"
  proof (cases "wait_bgsave sl")
    case True
    obtain sls1 res1 where "update_slaves sys ok type sls True (if m = -1 then slave_capa sl else m AND slave_capa sl) = (sls1, res1)" by (rule prod.exhaust)
    then show ?thesis using that Cons.prems(1) True by (auto simp: Let_def)
  next
    case False
    obtain sls1 res1 where "update_slaves sys ok type sls b m = (sls1, res1)" by (rule prod.exhaust)
    then show ?thesis using that [of b m sls1 res1] Cons.prems(1) False by (auto simp: Let_def split: if_splits)
  qed
  have "sls' = sls1 \<or> (\<exists>sl1. sls' = sl1 # sls1 \<and> slave_inv G seldb es base sl1 \<and> slave_id sl1 = slave_id sl)"
    using u(2) hd online bulk by auto
  then show ?case
  proof
    assume "sls' = sls1"
    then show ?thesis using ih [OF u(1)] by auto
  next
    assume "\<exists>sl1. sls' = sl1 # sls1 \<and> slave_inv G seldb es base sl1 \<and> slave_id sl1 = slave_id sl"
    then obtain sl1 where "sls' = sl1 # sls1" "slave_inv G seldb es base sl1" "slave_id sl1 = slave_id sl" by blast
    then show ?thesis using ih [OF u(1)] sub [OF ih [OF u(1)], of sl1] by simp
  qed
qed

lemma updateSlaves_inv:
  assumes "slaves_inv base T G r es" "base_inv base r es" "repl_backlog r = None \<longrightarrow> slaves r = []"
  shows "repl_inv base T G (updateSlavesWaitingBgsave sys r ok type) es"
proof -
  obtain sls b m where u: "update_slaves sys ok type (slaves r) False (-1) = (sls, b, m)" by (metis prod_cases3)
  let ?r = "r\<lparr>slaves := sls\<rparr>"
  have i: "slaves_inv base T G ?r es" using update_slaves_inv [OF u] assms(1) by (auto simp: slaves_inv_def)
  have n: "repl_backlog r = None \<Longrightarrow> sls = [] \<and> \<not> b" using u assms(3) by auto
  have "base_inv base ?r es" using assms(2) base_inv_cong [of r ?r] by (simp add: same_backlog_def)
  then have i': "repl_inv base T G ?r es" using i n by (auto simp: repl_inv_def)
  have eq: "updateSlavesWaitingBgsave sys r ok type = (if b then startBgsaveForReplication sys ?r m else ?r)"
    by (simp add: updateSlavesWaitingBgsave_def u Let_def)
  show ?thesis
  proof (cases b)
    case True
    then show ?thesis using eq startBgsave_repl_inv [OF i'] n by auto
  next
    case False
    then show ?thesis using eq i' by simp
  qed
qed

lemma save_done_inv:
  assumes "repl_inv base T G r es" "rdb_child r \<noteq> RDB_CHILD_TYPE_NONE"
  shows "\<exists>r'. backgroundSaveDoneHandler sys r ok report = Some r' \<and> repl_inv base T G r' es"
proof -
  have b: "base_inv base r es" "repl_backlog r = None \<longrightarrow> slaves r = []" "slaves_inv base T G r es" using assms(1) by (auto simp: repl_inv_def)
  have upd: "repl_inv base T G (updateSlavesWaitingBgsave sys (r\<lparr>rdb_child := RDB_CHILD_TYPE_NONE, slaves := filter P (slaves r)\<rparr>) ok type) es" for P type
    using b slaves_inv_sub [OF b(3), of _ P] by (intro updateSlaves_inv) (auto simp: base_inv_def backlog_inv_def)
  have d: "r\<lparr>rdb_child := RDB_CHILD_TYPE_NONE, slaves := filter (\<lambda>_. True) (slaves r)\<rparr> = r\<lparr>rdb_child := RDB_CHILD_TYPE_NONE\<rparr>" by simp
  show ?thesis
  proof (cases "rdb_child r")
    case RDB_CHILD_TYPE_DISK
    then show ?thesis using upd [of "\<lambda>_. True" RDB_CHILD_TYPE_DISK] unfolding d
      by (simp add: backgroundSaveDoneHandler_def backgroundSaveDoneHandlerDisk_def)
  next
    case RDB_CHILD_TYPE_SOCKET
    then show ?thesis using upd
      by (simp add: backgroundSaveDoneHandler_def backgroundSaveDoneHandlerSocket_def Let_def)
  qed (use assms(2) in simp)
qed

text \<open>Work on single slaves: the invariant of all follows from that of each.\<close>

lemma map_filter_inv:
  assumes "repl_inv base T G r es"
    "\<And>sl sl'. slave_inv G (slaveseldb r) es base sl \<Longrightarrow> f sl = Some sl' \<Longrightarrow> slave_inv G (slaveseldb r) es base sl' \<and> slave_id sl' = slave_id sl"
  shows "repl_inv base T G (r\<lparr>slaves := List.map_filter f (slaves r)\<rparr>) es"
proof -
  have "(\<forall>sl \<in> set (List.map_filter f sls). slave_inv G (slaveseldb r) es base sl) \<and> distinct (map slave_id (List.map_filter f sls)) \<and>
      slave_id ` set (List.map_filter f sls) \<subseteq> slave_id ` set sls"
    if "\<forall>sl \<in> set sls. slave_inv G (slaveseldb r) es base sl" "distinct (map slave_id sls)" for sls
    using that
  proof (induction sls)
    case (Cons sl sls)
    then have ih: "(\<forall>sl \<in> set (List.map_filter f sls). slave_inv G (slaveseldb r) es base sl) \<and> distinct (map slave_id (List.map_filter f sls)) \<and>
      slave_id ` set (List.map_filter f sls) \<subseteq> slave_id ` set sls" "slave_inv G (slaveseldb r) es base sl" "slave_id sl \<notin> slave_id ` set sls" by simp_all
    show ?case
    proof (cases "f sl")
      case (Some sl')
      then show ?thesis using ih assms(2) [OF ih(2) Some] by auto
    qed (use ih(1) in auto)
  qed simp
  from this [of "slaves r"] have "slaves_inv base T G (r\<lparr>slaves := List.map_filter f (slaves r)\<rparr>) es"
    using assms(1) by (simp add: repl_inv_def slaves_inv_def)
  moreover have "base_inv base (r\<lparr>slaves := List.map_filter f (slaves r)\<rparr>) es"
    using assms(1) base_inv_cong [of r "r\<lparr>slaves := List.map_filter f (slaves r)\<rparr>"] by (simp add: repl_inv_def same_backlog_def)
  ultimately show ?thesis using assms(1) by (auto simp: repl_inv_def map_filter_simps)
qed

lemma on_slave_inv:
  assumes "repl_inv base T G r es"
    "\<And>sl sl'. slave_inv G (slaveseldb r) es base sl \<Longrightarrow> f sl = Some sl' \<Longrightarrow> slave_inv G (slaveseldb r) es base sl' \<and> slave_id sl' = slave_id sl"
  shows "repl_inv base T G (r\<lparr>slaves := on_slave i f (slaves r)\<rparr>) es"
  unfolding on_slave_def
proof (rule map_filter_inv [OF assms(1)])
  fix sl sl'
  assume "slave_inv G (slaveseldb r) es base sl" "(if slave_id sl = i then f sl else Some sl) = Some sl'"
  then show "slave_inv G (slaveseldb r) es base sl' \<and> slave_id sl' = slave_id sl" using assms(2) [of sl sl'] by (cases "slave_id sl = i") simp_all
qed

text \<open>A slave that is put online keeps what was held back for it.\<close>

lemma put_online_inv:
  assumes "slave_inv G seldb es base sl" "replstate sl = SLAVE_STATE_SEND_BULK \<or> replstate sl = SLAVE_STATE_ONLINE" "putSlaveOnline sys sl = Some sl'"
  shows "slave_inv G seldb es base sl' \<and> slave_id sl' = slave_id sl"
proof -
  have "sl' = sl\<lparr>replstate := SLAVE_STATE_ONLINE, repl_put_online_on_ack := False, write_handler := True\<rparr>"
    using assms(3) by (auto simp: putSlaveOnline_def Let_def split: if_splits)
  then show ?thesis using assms(1,2) by (auto simp: slave_inv_def full_synced_def given_def split: option.splits)
qed

lemma replconf_ack_inv:
  "slave_inv G seldb es base sl \<Longrightarrow> replconf_ack sys sl = Some sl' \<Longrightarrow> slave_inv G seldb es base sl' \<and> slave_id sl' = slave_id sl"
  using put_online_inv [of G seldb es base sl sys sl'] by (auto simp: replconf_ack_def split: if_splits)

lemma bulk_sent_inv:
  assumes "slave_inv G seldb es base sl" "bulk_sent sys sl = Some sl'"
  shows "slave_inv G seldb es base sl' \<and> slave_id sl' = slave_id sl"
proof -
  have "slave_inv G seldb es base (sl\<lparr>write_handler := False\<rparr>)"
    using assms(1) by (auto simp: slave_inv_def full_synced_def given_def held_back_def split: slave_state.splits option.splits)
  from put_online_inv [OF this, of sys sl'] show ?thesis using assms by (auto simp: bulk_sent_def split: if_splits)
qed

text \<open>Writing to a slave moves output from the buffers to the socket; a slave whose output is held back is not scheduled for a write.\<close>

lemma write_inv:
  assumes "slave_inv G seldb es base sl" "\<not> held_back sl" "writeToClient sys sl inst = Some sl'"
  shows "slave_inv G seldb es base sl' \<and> slave_id sl' = slave_id sl"
proof -
  have "sentlen sl \<le> length (slave_reply sl)" using assms(1) by (simp add: slave_inv_def)
  note w = writeToClient_exact [OF assms(3) this]
  have "replstate sl = SLAVE_STATE_ONLINE" using assms(1,2) by (auto simp: slave_inv_def split: slave_state.splits)
  then show ?thesis using assms(1,2) w full_synced_cong [of sl' sl] by (auto simp: slave_inv_def split: option.splits)
qed

lemma handler_inv:
  assumes "slave_inv G seldb es base sl" "sendReplyToClient sys sl = Some sl'"
  shows "slave_inv G seldb es base sl' \<and> slave_id sl' = slave_id sl"
  using assms write_inv [OF assms(1), of sys True sl'] by (auto simp: sendReplyToClient_def held_back_def split: if_splits)

text \<open>The flag and the handler do not matter to a slave whose output is not held back.\<close>

lemma flags_inv:
  assumes "slave_inv G seldb es base sl" "replstate sl = SLAVE_STATE_ONLINE" "\<not> repl_put_online_on_ack sl"
  shows "slave_inv G seldb es base (sl\<lparr>pending_write := p\<rparr>)" "slave_inv G seldb es base (sl\<lparr>write_handler := p\<rparr>)"
    "slave_inv G seldb es base (sl\<lparr>close_asap := True\<rparr>)"
  using assms by (auto simp: slave_inv_def full_synced_def given_def split: option.splits)

lemma pending_inv:
  assumes "slave_inv G seldb es base sl" "handle_pending sys sl = Some sl'"
  shows "slave_inv G seldb es base sl' \<and> slave_id sl' = slave_id sl"
proof (cases "pending_write sl")
  case False
  then show ?thesis using assms by (simp add: handle_pending_def)
next
  case True
  then have on: "replstate sl = SLAVE_STATE_ONLINE" "\<not> repl_put_online_on_ack sl"
    using assms(1) by (auto simp: slave_inv_def held_back_def split: slave_state.splits option.splits)
  let ?sl = "sl\<lparr>pending_write := False\<rparr>"
  obtain c where c: "writeToClient sys ?sl False = Some c" "sl' = c \<or> sl' = c\<lparr>write_handler := True\<rparr> \<or> sl' = c\<lparr>close_asap := True\<rparr>"
    using assms(2) True by (auto simp: handle_pending_def split: option.splits if_splits)
  have "sentlen ?sl \<le> length (slave_reply ?sl)" using assms(1) by (simp add: slave_inv_def)
  note w = writeToClient_exact [OF c(1) this]
  have "slave_inv G seldb es base c" using flags_inv(1) [OF assms(1) on, of False] on w full_synced_cong [of c ?sl]
    by (auto simp: slave_inv_def split: option.splits)
  then show ?thesis using c(2) flags_inv(2,3) [of G seldb es base c] w on by auto
qed

lemma command_inv:
  assumes "repl_inv base T G r es" "slaveseldb r = d \<or> 0 \<le> d" "int64_range d" "args_ok args"
  shows "\<exists>r'. replicationFeedSlaves r d args = Some r' \<and>
    repl_inv base T G r' (es @ (if active r then feed_entries (slaveseldb r) d (map marg_str args) else []))"
proof (cases "repl_backlog r = None")
  case True
  then show ?thesis using assms(1) by (auto simp: replicationFeedSlaves_def active_def repl_inv_def)
next
  case False
  then have bl: "backlog_inv r (stream es) base" "slaves_inv base T G r es" using assms(1) by (auto simp: repl_inv_def base_inv_def)
  obtain r' where r': "replicationFeedSlaves r d args = Some r'" "backlog_inv r' (stream es @ fed_text r d args) base" "repl_frame r r'" "slaveseldb r' = d"
    "slaves r' = map (add_stream (fed_text r d args)) (slaves r)"
    using replicationFeedSlaves_exact [OF bl(1) assms(3,4)] by blast
  have "repl_backlog r' \<noteq> None" "0 < repl_backlog_size r'" using r'(2) by (auto simp: backlog_inv_def)
  then show ?thesis
    using r' False slaves_inv_feed [OF bl(2) assms(2,3) r'(4), of "map marg_str args"]
    by (auto simp: repl_inv_def base_inv_def active_def stream_feed)
qed

lemma PING_exact: "\<exists>p. PING = Some p \<and> args_ok [MStr p] \<and> marg_str (MStr p) = [80, 73, 78, 71]"
proof -
  obtain p where "PING = Some p" "sds_ok p" "sds_str p = [80, 73, 78, 71]"
    using sdsnewlen_exact [of 4 "Some [80, 73, 78, 71]"] by (auto simp: PING_def)
  then show ?thesis by (intro exI [of _ p]) (simp add: args_ok_def)
qed

lemma map_slaves_inv:
  assumes "repl_inv base T G r es" "\<And>sl. replstate (f sl) = replstate sl \<and> buffers (f sl) = buffers sl \<and> close_asap (f sl) = close_asap sl \<and>
    psync_initial_offset (f sl) = psync_initial_offset sl \<and> repl_put_online_on_ack (f sl) = repl_put_online_on_ack sl"
  shows "repl_inv base T G (r\<lparr>slaves := filter P (map f (slaves r))\<rparr>) es"
proof -
  let ?r = "r\<lparr>slaves := filter P (map f (slaves r))\<rparr>"
  have b: "base_inv base ?r es" using assms(1) base_inv_cong [of r ?r] by (simp add: same_backlog_def repl_inv_def)
  have "slaves_inv base T G (r\<lparr>slaves := map f (slaves r)\<rparr>) es"
    using assms slave_inv_cong buffersD(1) [of "f _" _] by (auto simp: repl_inv_def slaves_inv_def comp_def)
  then have "slaves_inv base T G ?r es" by (rule slaves_inv_sub) simp_all
  then show ?thesis using b assms(1) by (auto simp: repl_inv_def)
qed

lemma cron_inv:
  assumes "repl_inv base T G r es"
  shows "\<exists>r'. replicationCron sys now r = Some r' \<and> repl_inv base T G r' (es @ repl_log r (RCron sys now) r')"
proof -
  define es1 where "es1 = es @ (if ping_due now \<and> active r then [ECmd (slaveseldb r) [[80, 73, 78, 71]]] else [])"
  have "\<exists>r1. (if ping_due now then do { p \<leftarrow> PING; replicationFeedSlaves r (slaveseldb r) [MStr p] } else Some r) = Some r1 \<and> repl_inv base T G r1 es1"
  proof (cases "ping_due now")
    case True
    obtain p where p: "PING = Some p" "args_ok [MStr p]" "marg_str (MStr p) = [80, 73, 78, 71]" using PING_exact by blast
    have "int64_range (slaveseldb r)" using assms by (simp add: repl_inv_def slaves_inv_def)
    from command_inv [OF assms disjI1 [OF refl] this p(2)] show ?thesis using True p(3) unfolding p(1) by (auto simp: es1_def feed_entries_def)
  qed (use assms in \<open>simp add: es1_def\<close>)
  then obtain r1 where r1: "(if ping_due now then do { p \<leftarrow> PING; replicationFeedSlaves r (slaveseldb r) [MStr p] } else Some r) = Some r1" "repl_inv base T G r1 es1"
    by blast
  let ?P = "\<lambda>sl. \<not> (replstate sl = SLAVE_STATE_ONLINE \<and> \<not> pre_psync sl \<and> ack_timeout now (slave_id sl))"
  define r2 where "r2 = r1\<lparr>slaves := filter ?P (map (newline_ping sys r1) (slaves r1))\<rparr>"
  have r2: "repl_inv base T G r2 es1" unfolding r2_def by (rule map_slaves_inv [OF r1(2)]) (simp add: newline_ping_def buffers_def)
  obtain r3 where r3: "(if slaves r2 = [] \<and> repl_backlog r2 \<noteq> None \<and> backlog_idle now then freeReplicationBacklog r2 else Some r2) = Some r3" "repl_inv base T G r3 es1"
  proof (cases "slaves r2 = [] \<and> repl_backlog r2 \<noteq> None \<and> backlog_idle now")
    case True
    have "repl_inv base T G (r2\<lparr>repl_backlog := None\<rparr>) es1"
      using r2 True by (auto simp: repl_inv_def base_inv_def slaves_inv_def backlog_inv_def)
    then show ?thesis using that True by (simp add: freeReplicationBacklog_def)
  qed (use that r2 in auto)
  have r2': "r1\<lparr>slaves := map (newline_ping sys r1) (slaves r1)\<rparr>\<lparr>slaves := filter ?P (slaves (r1\<lparr>slaves := map (newline_ping sys r1) (slaves r1)\<rparr>))\<rparr> = r2"
    by (simp add: r2_def)
  obtain n m where w: "waiting_capa (slaves r3) 0 (-1) = (n, m)" by fastforce
  have run: "replicationCron sys now r = Some (if rdb_child r3 = RDB_CHILD_TYPE_NONE \<and> \<not> aof_child r3 then
       (if n \<noteq> 0 \<and> (\<not> repl_diskless_sync r3 \<or> delay_over now) then startBgsaveForReplication sys r3 m else r3) else r3)"
    unfolding replicationCron_def r1(1) Option.bind.bind_lunit Let_def r2' r3(1) cron_bgsave_def w prod.case by (rule refl)
  have start: "repl_inv base T G (startBgsaveForReplication sys r3 m) es1" if "n \<noteq> 0"
  proof (rule startBgsave_repl_inv [OF r3(2)])
    show "repl_backlog r3 \<noteq> None" using that w r3(2) by (auto simp: repl_inv_def)
  qed
  show ?thesis using run start r3(2) by (auto simp: es1_def)
qed

lemma resize_inv:
  assumes "repl_inv base T G r es"
  shows "repl_inv base T G (resizeReplicationBacklog r n) es"
proof (cases "repl_backlog_size r = (if n < CONFIG_REPL_BACKLOG_MIN_SIZE then CONFIG_REPL_BACKLOG_MIN_SIZE else n)")
  case True
  then show ?thesis using assms by (simp add: resizeReplicationBacklog_def Let_def)
next
  case False
  have "0 < (if n < CONFIG_REPL_BACKLOG_MIN_SIZE then CONFIG_REPL_BACKLOG_MIN_SIZE else n)" by (simp add: CONFIG_REPL_BACKLOG_MIN_SIZE_def)
  then show ?thesis using assms False unfolding resizeReplicationBacklog_def Let_def
    by (auto simp: repl_inv_def base_inv_def slaves_inv_def backlog_inv_def lastn_def)
qed

section \<open>Every operation keeps the invariant and is executed\<close>

lemma repl_op_inv:
  assumes "repl_inv base T G r es" "repl_op_ok r op"
  shows "\<exists>r'. repl_exec r op = Some r' \<and> repl_inv base T (resumed_by r op r' G) r' (es @ repl_log r op r')"
proof (cases op)
  case (RCommand d args)
  then show ?thesis using command_inv [OF assms(1), of d args] assms(2) by auto
next
  case (RSync sys c psync)
  then show ?thesis using syncCommand_inv [OF assms(1), of sys c psync] assms(2) by fastforce
next
  case (RSaveDone sys ok report)
  then show ?thesis using save_done_inv [OF assms(1), of sys ok report] assms(1) by auto
next
  case (RCron sys now)
  then show ?thesis using cron_inv [OF assms(1)] by simp
next
  case (RAck sys i)
  then show ?thesis using on_slave_inv [OF assms(1) replconf_ack_inv] by simp
next
  case (RBulkSent sys i)
  then show ?thesis using on_slave_inv [OF assms(1) bulk_sent_inv] by simp
next
  case (RPendingWrites sys)
  then show ?thesis using map_filter_inv [OF assms(1) pending_inv] by (simp add: handleClientsWithPendingWrites_def)
next
  case (RWritable sys i)
  then show ?thesis using on_slave_inv [OF assms(1) handler_inv] by simp
next
  case (RBgsave sys)
  have "repl_inv base T G (r\<lparr>rdb_child := x\<rparr>) es" for x
    using assms(1) base_inv_cong [of r "r\<lparr>rdb_child := x\<rparr>"] by (auto simp: repl_inv_def slaves_inv_def same_backlog_def)
  then show ?thesis using RBgsave assms(1) by (simp add: rdbSaveBackground_def)
next
  case (RAof b)
  then show ?thesis
    using assms(1) base_inv_cong [of r "r\<lparr>aof_child := b\<rparr>"] by (auto simp: repl_inv_def slaves_inv_def same_backlog_def)
next
  case (RFree i)
  then show ?thesis using map_slaves_inv [OF assms(1), of "\<lambda>x. x"] by simp
next
  case (RResize n)
  then show ?thesis using resize_inv [OF assms(1)] by simp
qed

lemma told_inv: "repl_inv base T G r es \<Longrightarrow> repl_inv base (T \<union> waiting_offsets r) G r es"
  by (auto simp: repl_inv_def slaves_inv_def waiting_offsets_def slave_inv_def full_synced_def)

lemma repl_exec_inv:
  assumes "repl_inv base (told h) (resumed h) r (entries h)" "repl_op_ok r op"
  shows "\<exists>r'. repl_exec r op = Some r' \<and> repl_inv base (told (observe r op r' h)) (resumed (observe r op r' h)) r' (entries (observe r op r' h))"
  using repl_op_inv [OF assms] told_inv by (fastforce simp: observe_def)

lemma repl_reach_inv: "repl_reach base r h \<Longrightarrow> repl_inv base (told h) (resumed h) r (entries h)"
proof (induction rule: repl_reach.induct)
  case (start r)
  then show ?case by (simp add: repl_inv_def base_inv_def slaves_inv_def)
next
  case (step r h op r')
  then show ?case using repl_exec_inv [OF step.IH step.hyps(2)] by fastforce
qed

end
