(* ===== verification/Repl_Stream.thy ===== *)
theory Repl_Stream
  imports Repl_Inv
begin

text \<open>
  The properties of the master's side of replication, over the reachable states of \<open>Repl_Inv\<close>.
\<close>

section \<open>What a slave has been given\<close>

text \<open>After a full resynchronisation: the whole entries from the offset it was told on, in which every command finds its database selected.\<close>

definition synced :: "int \<Rightarrow> history \<Rightarrow> slave \<Rightarrow> bool" where
  "synced base h sl \<longleftrightarrow> (\<exists>n \<le> length (entries h). psync_initial_offset sl = base + int (length (stream (take n (entries h)))) \<and>
     given sl = stream (drop n (entries h)) \<and> replay (-1) (drop n (entries h)) \<noteq> None)"

text \<open>After a partial one: the bytes from the offset it asked for on.  When it had read the entries up to that offset since an offset that was
  announced to it, and has \<open>cur\<close> selected, then every further command finds its database selected too.\<close>

definition continued :: "int \<Rightarrow> history \<Rightarrow> int \<Rightarrow> slave \<Rightarrow> bool" where
  "continued base h off sl \<longleftrightarrow> 0 < off - base \<and> off - base \<le> int (length (stream (entries h))) + 1 \<and>
     given sl = drop (nat (off - base) - 1) (stream (entries h)) \<and>
     (\<forall>m k cur. m \<le> k \<and> k \<le> length (entries h) \<and> base + int (length (stream (take m (entries h)))) \<in> told h \<and>
        off - 1 = base + int (length (stream (take k (entries h)))) \<and> replay (-1) (drop m (take k (entries h))) = Some cur \<longrightarrow>
        replay cur (drop k (entries h)) \<noteq> None)"

lemma full_synced_synced:
  assumes "full_synced seldb (entries h) base sl"
  shows "synced base h sl"
proof -
  obtain n cur where n: "n \<le> length (entries h)" "psync_initial_offset sl = base + int (length (stream (take n (entries h))))"
    "replay (-1) (drop n (entries h)) = Some cur" using assms by (auto simp: full_synced_def told_ok_def)
  have "given sl = drop (length (stream (take n (entries h)))) (stream (entries h))" using assms n(2) by (simp add: full_synced_def from_offset_def)
  then have "given sl = stream (drop n (entries h))" by (subst (asm) stream_take [of "entries h" n]) simp
  then show ?thesis using n unfolding synced_def by (intro exI [of _ n]) simp
qed

lemma from_offset_continued:
  assumes "from_offset base (entries h) (off - 1) (given sl)" "\<forall>t \<in> told h. told_ok seldb (entries h) base t"
  shows "continued base h off sl"
proof -
  have db: "replay cur (drop k (entries h)) \<noteq> None"
    if k: "m \<le> k" "k \<le> length (entries h)" "base + int (length (stream (take m (entries h)))) \<in> told h" "replay (-1) (drop m (take k (entries h))) = Some cur" for m k cur
  proof -
    obtain n cur' where n: "n \<le> length (entries h)" "length (stream (take m (entries h))) = length (stream (take n (entries h)))"
      "replay (-1) (drop n (entries h)) = Some cur'" using assms(2) k(3) by (auto simp: told_ok_def)
    have "m = n" using stream_take_inj [OF _ n(1,2)] k(1,2) by simp
    moreover have "drop m (entries h) = drop m (take k (entries h)) @ drop k (entries h)"
      using k(1,2) by (metis append_take_drop_id drop_append le_antisym length_take min.absorb2 diff_is_0_eq' drop_0)
    ultimately show ?thesis using n(3) k(4) by (auto simp: replay_append)
  qed
  have "nat (off - 1 - base) = nat (off - base) - 1" using assms(1) by (auto simp: from_offset_def)
  then show ?thesis using assms(1) db unfolding continued_def from_offset_def by auto
qed

section \<open>Properties\<close>

definition start_repl :: "int \<Rightarrow> repl" where
  "start_repl size' = \<lparr>repl_backlog = None, repl_backlog_size = size', repl_backlog_histlen = 0, repl_backlog_idx = 0, repl_backlog_off = 0,
     master_repl_offset = 0, slaveseldb = -1, slaves = [], closing = [], rdb_child = RDB_CHILD_TYPE_NONE, aof_child = False,
     repl_diskless_sync = False, runid = [97, 98], master_link_down = False\<rparr>"

definition new_client :: "nat \<Rightarrow> slave" where
  "new_client i = \<lparr>slave_id = i, replstate = REPL_STATE_NONE, slave_reply = [], sentlen = 0, slave_written = [], slave_sent = [], pending_write = False,
     write_handler = False, reply_off = False, psync_initial_offset = 0, slave_capa = 0, pre_psync = False, close_asap = False, repl_put_online_on_ack = False\<rparr>"

definition good_os :: os where
  "good_os = \<lparr>pipe_ok = True, fork_ok = True, write_ok = (\<lambda>_. True), open_ok = (\<lambda>_. True), event_ok = (\<lambda>_. True), writable = (\<lambda>_. 10000),
     released = (\<lambda>_. 0), write_fails = (\<lambda>_. False)\<rparr>"

definition start_history :: history where
  "start_history = \<lparr>entries = [], told = {}, resumed = (\<lambda>_. None)\<rparr>"

lemma reach_start: "0 < n \<Longrightarrow> repl_reach 0 (start_repl n) start_history"
  unfolding start_history_def by (rule repl_reach.start) (simp_all add: start_repl_def)

lemma new_client_ok [simp]: "client_ok (new_client i)"
  by (simp add: client_ok_def new_client_def held_back_def)

text \<open>
  C7: In every state that the operations of a master can reach (commands, SYNC and PSYNC, the end of a background save, acknowledgements, the
  end of an RDB transfer, writes to the sockets, the periodic work, disconnections, a resize of the backlog, with any answers of the operating
  system), the replication offset counts the bytes of the stream, the backlog holds exactly the last bytes of the stream, and no slave is
  attached without a backlog.  A slave that waits for a save to start has an empty output.  A slave that was set up for a full
  resynchronisation has been given exactly the stream from the offset it was told on, nothing more and nothing less, and every command in it
  finds its database selected; nothing of it is written to the socket before the slave is online, or before its acknowledgement after a diskless
  transfer.  A slave that continued after a PSYNC, and is not being closed, has been given exactly the stream from the offset it asked for
  on, and a slave that had read the stream up to there finds the databases of the commands selected.  The operations are those that
  \<open>repl_op_ok\<close> admits: a client that asks for synchronisation has not switched its replies off and is not scheduled for a write, and the offset of
  a PSYNC with the run id of the master is a number; the last section shows what happens when it is not.
\<close>

theorem replication_stream:
  assumes "repl_reach base r h"
  shows "master_repl_offset r = base + int (length (stream (entries h))) \<and> (repl_backlog r = None \<longrightarrow> slaves r = []) \<and>
    (\<forall>b. repl_backlog r = Some b \<longrightarrow> int (length b) = repl_backlog_size r \<and> repl_backlog_off r = master_repl_offset r - repl_backlog_histlen r + 1 \<and>
       0 \<le> repl_backlog_histlen r \<and> repl_backlog_histlen r \<le> repl_backlog_size r \<and> repl_backlog_histlen r \<le> int (length (stream (entries h))) \<and>
       lastn (nat (repl_backlog_histlen r)) (rotate (nat (repl_backlog_idx r)) b) = lastn (nat (repl_backlog_histlen r)) (stream (entries h))) \<and>
    (\<forall>sl \<in> set (slaves r). case replstate sl of
       REPL_STATE_NONE \<Rightarrow> False
     | SLAVE_STATE_WAIT_BGSAVE_START \<Rightarrow> slave_reply sl = [] \<and> held_back sl
     | SLAVE_STATE_ONLINE \<Rightarrow> (case resumed h (slave_id sl) of
           None \<Rightarrow> synced base h sl \<and> (repl_put_online_on_ack sl \<longrightarrow> held_back sl)
         | Some off \<Rightarrow> close_asap sl \<or> continued base h off sl)
     | _ \<Rightarrow> synced base h sl \<and> held_back sl)"
proof -
  note inv = repl_reach_inv [OF assms]
  have t: "\<forall>t \<in> told h. told_ok (slaveseldb r) (entries h) base t" using inv by (simp add: repl_inv_def slaves_inv_def)
  have "\<forall>sl \<in> set (slaves r). case replstate sl of
       REPL_STATE_NONE \<Rightarrow> False
     | SLAVE_STATE_WAIT_BGSAVE_START \<Rightarrow> slave_reply sl = [] \<and> held_back sl
     | SLAVE_STATE_ONLINE \<Rightarrow> (case resumed h (slave_id sl) of
           None \<Rightarrow> synced base h sl \<and> (repl_put_online_on_ack sl \<longrightarrow> held_back sl)
         | Some off \<Rightarrow> close_asap sl \<or> continued base h off sl)
     | _ \<Rightarrow> synced base h sl \<and> held_back sl"
  proof
    fix sl
    assume "sl \<in> set (slaves r)"
    then have "slave_inv (resumed h) (slaveseldb r) (entries h) base sl" using inv by (auto simp: repl_inv_def slaves_inv_def)
    then show "case replstate sl of
       REPL_STATE_NONE \<Rightarrow> False
     | SLAVE_STATE_WAIT_BGSAVE_START \<Rightarrow> slave_reply sl = [] \<and> held_back sl
     | SLAVE_STATE_ONLINE \<Rightarrow> (case resumed h (slave_id sl) of
           None \<Rightarrow> synced base h sl \<and> (repl_put_online_on_ack sl \<longrightarrow> held_back sl)
         | Some off \<Rightarrow> close_asap sl \<or> continued base h off sl)
     | _ \<Rightarrow> synced base h sl \<and> held_back sl"
      using full_synced_synced [of "slaveseldb r" h base sl] from_offset_continued [OF _ t]
      by (cases "replstate sl"; cases "resumed h (slave_id sl)") (auto simp: slave_inv_def)
  qed
  then show ?thesis using inv by (cases "repl_backlog r") (auto simp: repl_inv_def base_inv_def backlog_inv_def)
qed

lemma sync_command_reach:
  "\<exists>r h. repl_reach 0 r h \<and> entries h = [EGap, ESelect 0, ECmd 0 [[53]]] \<and> repl_backlog r \<noteq> None \<and> repl_backlog_size r = 4 \<and> repl_backlog_histlen r = 4 \<and>
     runid r = [97, 98] \<and> \<not> master_link_down r \<and> map slave_id (slaves r) = [7]"
proof -
  let ?sync = "RSync good_os (new_client 7) None"
  obtain r1 where r1: "repl_exec (start_repl 4) ?sync = Some r1" "slaveseldb r1 = -1" "repl_log (start_repl 4) ?sync r1 = [EGap]" "active r1"
    "repl_backlog r1 \<noteq> None" "repl_backlog_size r1 = 4" "repl_backlog_histlen r1 = 0" "runid r1 = [97, 98]" "\<not> master_link_down r1" "map slave_id (slaves r1) = [7]"
    by (simp add: syncCommand_def full_resync_def start_repl_def new_client_def good_os_def startBgsaveForReplication_def rdbSaveBackground_def
        replicationSetupSlaveForFullResync_def getPsyncInitialOffset_def createReplicationBacklog_def active_def clientHasPendingReplies_def Let_def)
  define h1 where "h1 = observe (start_repl 4) ?sync r1 start_history"
  have reach1: "repl_reach 0 r1 h1" using repl_reach.step [OF reach_start [of 4] _ r1(1)] by (simp add: h1_def)
  have h1: "entries h1 = [EGap]" using r1(3) by (simp add: h1_def observe_def start_history_def)
  have ok: "repl_op_ok r1 (RCommand 0 [MInt 5])" by (simp add: int64_range_def args_ok_def idec_def dec_small)
  have "backlog_inv r1 (stream [EGap]) 0" using repl_reach_inv [OF reach1] r1(5) h1 by (simp add: repl_inv_def base_inv_def)
  then obtain r2 where r2: "replicationFeedSlaves r1 0 [MInt 5] = Some r2" "backlog_inv r2 (stream [EGap] @ fed_text r1 0 [MInt 5]) 0" "repl_frame r1 r2"
    "slaves r2 = map (add_stream (fed_text r1 0 [MInt 5])) (slaves r1)"
    "repl_backlog_histlen r2 = min (repl_backlog_size r1) (repl_backlog_histlen r1 + int (length (fed_text r1 0 [MInt 5])))"
    using replicationFeedSlaves_exact [of r1 "stream [EGap]" 0 0 "[MInt 5]"] ok by auto
  have "repl_exec r1 (RCommand 0 [MInt 5]) = Some r2" using r2(1) by simp
  then have "repl_reach 0 r2 (observe r1 (RCommand 0 [MInt 5]) r2 h1)" by (rule repl_reach.step [OF reach1 ok])
  moreover have "entries (observe r1 (RCommand 0 [MInt 5]) r2 h1) = [EGap, ESelect 0, ECmd 0 [[53]]]"
    using r1(2,4) h1 by (simp add: observe_def feed_entries_def idec_def dec_small)
  moreover have "length (fed_text r1 0 [MInt 5]) = 34" using r1(2)
    by (simp add: fed_text_def enc_cmd_def enc_arg_def enc_line_def SELECT_def idec_def dec_small)
  moreover have "map slave_id (slaves r2) = [7]" using r2(4) r1(10) by (simp add: comp_def)
  ultimately show ?thesis using r2(2,3,5) r1(6-9) by (intro exI [of _ r2] exI [of _ "observe r1 (RCommand 0 [MInt 5]) r2 h1"]) (auto simp: repl_frame_def backlog_inv_def)
qed

theorem replication_stream_witness:
  "\<exists>r h. repl_reach 0 r h \<and> entries h = [EGap, ESelect 0, ECmd 0 [[53]]] \<and> master_repl_offset r = 35 \<and> map slave_id (slaves r) = [7]"
proof -
  obtain r h where r: "repl_reach 0 r h" "entries h = [EGap, ESelect 0, ECmd 0 [[53]]]" "map slave_id (slaves r) = [7]"
    using sync_command_reach by (elim exE conjE) (rule that)
  have "length (stream [EGap, ESelect 0, ECmd 0 [[53]]]) = 35"
    by (simp add: stream_def enc_cmd_def enc_arg_def enc_line_def SELECT_def idec_def dec_small)
  then have "master_repl_offset r = 35" using replication_stream [OF r(1)] unfolding r(2) by simp
  then show ?thesis using r by (intro exI [of _ r] exI [of _ h] conjI)
qed

text \<open>
  C9: No operation of a master that \<open>repl_op_ok\<close> admits fails in a reachable state: no assertion of the replication code fires, no access
  leaves the backlog, and the copying loops end.
\<close>

theorem replication_progress:
  assumes "repl_reach base r h" "repl_op_ok r op"
  shows "\<exists>r'. repl_exec r op = Some r' \<and> repl_reach base r' (observe r op r' h)"
proof -
  obtain r' where "repl_exec r op = Some r'" using repl_exec_inv [OF repl_reach_inv [OF assms(1)] assms(2)] by blast
  then show ?thesis using repl_reach.step [OF assms] by blast
qed

theorem replication_progress_witness:
  "\<exists>r r' h. repl_exec r (RResize 20000) = Some r' \<and> repl_reach 0 r' h \<and> entries h = [EGap, ESelect 0, ECmd 0 [[53]]]"
proof -
  obtain r h where r: "repl_reach 0 r h" "entries h = [EGap, ESelect 0, ECmd 0 [[53]]]" using sync_command_reach by blast
  obtain r' where "repl_exec r (RResize 20000) = Some r'" "repl_reach 0 r' (observe r (RResize 20000) r' h)"
    using replication_progress [OF r(1), of "RResize 20000"] by auto
  moreover have "entries (observe r (RResize 20000) r' h) = [EGap, ESelect 0, ECmd 0 [[53]]]" using r(2) by (simp add: observe_def)
  ultimately show ?thesis by blast
qed

text \<open>
  C8: A client that sends PSYNC with the run id of the master and an offset inside the backlog becomes an online slave whose output is the
  stream from that offset on, byte for byte, unless it switched its replies off; the other slaves and the backlog do not change.
\<close>

theorem psync_continues:
  assumes "repl_reach base r h" "dictSdsKeyCaseCompare rid (runid r)" "getLongLongFromObject ob = Some off" "repl_backlog r \<noteq> None"
    "repl_backlog_off r \<le> off" "off \<le> repl_backlog_off r + repl_backlog_histlen r"
    "slave_id c \<notin> set (map slave_id (slaves r))" "\<not> master_link_down r" "slave_reply c = []" "write_ok sys (slave_id c)"
  shows "\<exists>r' sl. syncCommand sys r c (Some (rid, ob)) = Some (r', []) \<and> r' = r\<lparr>slaves := slaves r @ [sl]\<rparr> \<and> slave_id sl = slave_id c \<and>
    replstate sl = SLAVE_STATE_ONLINE \<and> slave_sent sl = slave_sent c @ continue_text \<and>
    0 < off - base \<and> off - base \<le> int (length (stream (entries h))) + 1 \<and>
    slave_reply sl = (if reply_off c then [] else drop (nat (off - base) - 1) (stream (entries h)))"
proof -
  have bl: "backlog_inv r (stream (entries h)) base" using repl_reach_inv [OF assms(1)] assms(4) by (simp add: repl_inv_def base_inv_def)
  note rd = read_inv [OF bl assms(5,6)]
  define n where "n = repl_backlog_histlen r - (off - repl_backlog_off r)"
  define xs where "xs = drop (nat (off - base - 1)) (stream (entries h))"
  let ?c = "c\<lparr>replstate := SLAVE_STATE_ONLINE, repl_put_online_on_ack := False, slave_sent := slave_sent c @ continue_text\<rparr>"
  let ?sl = "if n = 0 then ?c else addReply ?c xs"
  have "masterTryPartialResynchronization sys r c rid ob = Some (Inl (r\<lparr>slaves := slaves r @ [?sl]\<rparr>))"
    using assms rd(1) by (simp add: masterTryPartialResynchronization_def getLongLongFromObjectOrReply_def n_def xs_def Let_def)
  then have "syncCommand sys r c (Some (rid, ob)) = Some (r\<lparr>slaves := slaves r @ [?sl]\<rparr>, [])"
    using assms(7-9) by (simp add: syncCommand_def clientHasPendingReplies_def)
  moreover have "n = 0 \<Longrightarrow> xs = []" using bl by (auto simp: xs_def n_def backlog_inv_def)
  then have "slave_reply ?sl = (if reply_off c then [] else xs)" using assms(9) by (simp add: addReply_reply)
  moreover have "xs = drop (nat (off - base) - 1) (stream (entries h))" using rd(2) by (simp add: xs_def nat_diff_distrib)
  ultimately show ?thesis
    using rd(2,3) by (intro exI [of _ "r\<lparr>slaves := slaves r @ [?sl]\<rparr>"] exI [of _ ?sl]) simp
qed

theorem psync_continues_witness:
  "\<exists>r r' sl. syncCommand good_os r (new_client 8) (Some ([97, 98], MInt 32)) = Some (r', []) \<and> slaves r' = slaves r @ [sl] \<and>
     slave_reply sl = [10, 53, 13, 10]"
proof -
  obtain r h where r: "repl_reach 0 r h" "entries h = [EGap, ESelect 0, ECmd 0 [[53]]]" "repl_backlog r \<noteq> None" "repl_backlog_size r = 4" "repl_backlog_histlen r = 4"
     "runid r = [97, 98]" "\<not> master_link_down r" "map slave_id (slaves r) = [7]" using sync_command_reach by (elim exE conjE) (rule that)
  have s: "stream [EGap, ESelect 0, ECmd 0 [[53]]] =
      [0, 42, 50, 13, 10, 36, 54, 13, 10, 83, 69, 76, 69, 67, 84, 13, 10, 36, 49, 13, 10, 48, 13, 10, 42, 49, 13, 10, 36, 49, 13, 10, 53, 13, 10]"
    by (simp add: stream_def enc_cmd_def enc_arg_def enc_line_def SELECT_def idec_def dec_small)
  have "backlog_inv r (stream [EGap, ESelect 0, ECmd 0 [[53]]]) 0" using repl_reach_inv [OF r(1)] r(2,3) by (simp add: repl_inv_def base_inv_def)
  then have "repl_backlog_off r = 32" using r(5) unfolding s by (auto simp: backlog_inv_def)
  then have "\<exists>r' sl. syncCommand good_os r (new_client 8) (Some ([97, 98], MInt 32)) = Some (r', []) \<and> r' = r\<lparr>slaves := slaves r @ [sl]\<rparr> \<and>
      slave_id sl = slave_id (new_client 8) \<and> replstate sl = SLAVE_STATE_ONLINE \<and> slave_sent sl = slave_sent (new_client 8) @ continue_text \<and>
      0 < 32 - (0 :: int) \<and> 32 - (0 :: int) \<le> int (length (stream (entries h))) + 1 \<and>
      slave_reply sl = (if reply_off (new_client 8) then [] else drop (nat (32 - 0) - 1) (stream (entries h)))"
    using r by (intro psync_continues)
      (simp_all add: dictSdsKeyCaseCompare_def getLongLongFromObject_def new_client_def good_os_def del: map_eq_Cons_conv set_map)
  moreover have "\<not> reply_off (new_client 8)" by (simp add: new_client_def)
  ultimately obtain sl where "syncCommand good_os r (new_client 8) (Some ([97, 98], MInt 32)) = Some (r\<lparr>slaves := slaves r @ [sl]\<rparr>, [])"
    "slave_reply sl = [10, 53, 13, 10]" unfolding r(2) s by auto
  then show ?thesis by (intro exI [of _ r] exI [of _ "r\<lparr>slaves := slaves r @ [sl]\<rparr>"] exI [of _ sl]) simp
qed

section \<open>Error replies\<close>

lemma setup_slave_exact:
  assumes "write_ok sys (slave_id c)" "\<not> pre_psync c"
  shows "replicationSetupSlaveForFullResync sys r c off = (r\<lparr>slaveseldb := -1\<rparr>,
    c\<lparr>psync_initial_offset := off, replstate := SLAVE_STATE_WAIT_BGSAVE_END, slave_sent := slave_sent c @ fullresync_text (runid r) off\<rparr>)"
  using assms by (simp add: replicationSetupSlaveForFullResync_def Let_def)

lemma getPsync_seldb [simp]: "getPsyncInitialOffset (r\<lparr>slaveseldb := x\<rparr>) = getPsyncInitialOffset r"
  by (simp add: getPsyncInitialOffset_def)

text \<open>The slave at the end of the list, when it waits for a save.\<close>

lemma setup_waiting_last:
  assumes "wait_bgsave c" "write_ok sys (slave_id c)" "\<not> pre_psync c"
  shows "\<exists>sls'. length sls' = length sls \<and> setup_waiting sys r (sls @ [c]) = (r\<lparr>slaveseldb := -1\<rparr>, sls' @ [c\<lparr>psync_initial_offset := getPsyncInitialOffset r,
     replstate := SLAVE_STATE_WAIT_BGSAVE_END, slave_sent := slave_sent c @ fullresync_text (runid r) (getPsyncInitialOffset r)\<rparr>])"
proof (induction sls arbitrary: r)
  case Nil
  show ?case using assms(1) by (simp add: setup_slave_exact [OF assms(2,3)])
next
  case (Cons sl sls)
  obtain r1 sl1 where 1: "(if wait_bgsave sl then replicationSetupSlaveForFullResync sys r sl (getPsyncInitialOffset r) else (r, sl)) = (r1, sl1)"
    by fastforce
  have "r1 = r \<or> r1 = r\<lparr>slaveseldb := -1\<rparr>" using 1 setup_slave [of sys r sl "getPsyncInitialOffset r" r1 sl1] by (auto split: if_splits)
  then have r1: "getPsyncInitialOffset r1 = getPsyncInitialOffset r" "runid r1 = runid r" "r1\<lparr>slaveseldb := -1\<rparr> = r\<lparr>slaveseldb := -1\<rparr>" by auto
  obtain sls' where "length sls' = length sls" "setup_waiting sys r1 (sls @ [c]) = (r1\<lparr>slaveseldb := -1\<rparr>, sls' @ [c\<lparr>psync_initial_offset := getPsyncInitialOffset r1,
     replstate := SLAVE_STATE_WAIT_BGSAVE_END, slave_sent := slave_sent c @ fullresync_text (runid r1) (getPsyncInitialOffset r1)\<rparr>])"
    using Cons.IH [of r1] by blast
  then show ?case using 1 by (intro exI [of _ "sl1 # sls'"]) (simp add: r1)
qed

text \<open>A full resynchronisation when a save to disk can be started.\<close>

lemma full_resync_disk:
  assumes "base_inv base r es" "repl_backlog r = None \<longrightarrow> slaves r = []" "rdb_child r = RDB_CHILD_TYPE_NONE" "\<not> aof_child r" "\<not> repl_diskless_sync r"
    "fork_ok sys" "write_ok sys (slave_id c)" "\<not> pre_psync c"
  shows "\<exists>r' es' sls. full_resync sys r c = Some r' \<and> backlog_inv r' (stream es') base \<and> slaveseldb r' = -1 \<and>
    slaves r' = sls @ [c\<lparr>replstate := SLAVE_STATE_WAIT_BGSAVE_END, psync_initial_offset := master_repl_offset r',
      slave_sent := slave_sent c @ fullresync_text (runid r) (master_repl_offset r')\<rparr>]"
proof -
  let ?c = "c\<lparr>replstate := SLAVE_STATE_WAIT_BGSAVE_START\<rparr>"
  let ?off = "getPsyncInitialOffset r"
  define r1 where "r1 = r\<lparr>slaves := slaves r @ [?c], rdb_child := RDB_CHILD_TYPE_DISK\<rparr>"
  have off: "getPsyncInitialOffset r1 = ?off" "runid r1 = runid r" by (simp_all add: r1_def getPsyncInitialOffset_def)
  obtain sls where sls: "length sls = length (slaves r)" "setup_waiting sys r1 (slaves r @ [?c]) = (r1\<lparr>slaveseldb := -1\<rparr>, sls @ [?c\<lparr>psync_initial_offset := ?off,
     replstate := SLAVE_STATE_WAIT_BGSAVE_END, slave_sent := slave_sent c @ fullresync_text (runid r) ?off\<rparr>])"
    using setup_waiting_last [of ?c sys "slaves r" r1] assms(7,8) off by auto
  define sl where "sl = c\<lparr>replstate := SLAVE_STATE_WAIT_BGSAVE_END, psync_initial_offset := ?off, slave_sent := slave_sent c @ fullresync_text (runid r) ?off\<rparr>"
  define r2 where "r2 = r1\<lparr>slaveseldb := -1, slaves := sls @ [sl]\<rparr>"
  have "startBgsaveForReplication sys (r\<lparr>slaves := slaves r @ [?c]\<rparr>) (slave_capa ?c) = r2"
    using assms(3-6) sls(2) by (simp add: startBgsaveForReplication_def rdbSaveBackground_def r1_def [symmetric] r2_def sl_def Let_def) (simp add: r1_def)
  then have run: "full_resync sys r c = (if length (slaves r2) = 1 \<and> repl_backlog r2 = None then createReplicationBacklog r2 else Some r2)"
    using assms(3-5) by (simp add: full_resync_def Let_def)
  have sb: "same_backlog r r2" by (simp add: r2_def r1_def same_backlog_def)
  then have base2: "base_inv base r2 es" using base_inv_cong assms(1) by blast
  show ?thesis
  proof (cases "repl_backlog r = None")
    case True
    then have n: "repl_backlog r2 = None" "length (slaves r2) = 1" using assms(2) sls(1) by (simp_all add: r2_def r1_def)
    obtain r3 where r3: "createReplicationBacklog r2 = Some r3" "base_inv base r3 (es @ [EGap])" "repl_backlog r3 \<noteq> None" "slaves r3 = slaves r2" "slaveseldb r3 = slaveseldb r2"
      using create_inv [OF n(1) base2] by blast
    have "master_repl_offset r3 = ?off" using r3(1) True n(1) by (simp add: createReplicationBacklog_def r2_def r1_def getPsyncInitialOffset_def Let_def) (auto simp: r2_def r1_def)
    then show ?thesis using run n r3 by (intro exI [of _ r3] exI [of _ "es @ [EGap]"] exI [of _ sls]) (auto simp: base_inv_def r2_def sl_def)
  next
    case False
    then have "?off = master_repl_offset r2" by (auto simp: getPsyncInitialOffset_def r2_def r1_def Let_def)
    moreover have "repl_backlog r2 \<noteq> None" using False by (simp add: r2_def r1_def)
    ultimately show ?thesis using run base2 by (intro exI [of _ r2] exI [of _ es] exI [of _ sls]) (auto simp: base_inv_def r2_def sl_def)
  qed
qed

text \<open>A client whose PSYNC offset is not a number is scheduled for a write, is made a slave, and is written to with everything that follows.\<close>

lemma bad_offset_sync:
  assumes "repl_reach base r h" "client_ok c" "slave_reply c = []" "\<not> pre_psync c" "slave_id c \<notin> set (map slave_id (slaves r))" "\<not> master_link_down r"
    "rdb_child r = RDB_CHILD_TYPE_NONE" "\<not> aof_child r" "\<not> repl_diskless_sync r" "dictSdsKeyCaseCompare rid (runid r)" "getLongLongFromObject ob = None"
    "fork_ok sys" "write_ok sys (slave_id c)"
  shows "\<exists>r1 es1 sls sl. syncCommand sys r c (Some (rid, ob)) = Some (r1, []) \<and> backlog_inv r1 (stream es1) base \<and> slaves r1 = sls @ [sl] \<and>
    slave_id sl = slave_id c \<and> replstate sl = SLAVE_STATE_WAIT_BGSAVE_END \<and> psync_initial_offset sl = master_repl_offset r1 \<and>
    slave_sent sl = slave_sent c @ fullresync_text (runid r) (master_repl_offset r1) \<and> slave_reply sl = error_reply not_integer \<and>
    slave_written sl = [] \<and> sentlen sl = 0 \<and> pending_write sl \<and> \<not> reply_off sl"
proof -
  let ?c = "addReply c (error_reply not_integer)"
  have c: "held_back c" "replstate c = REPL_STATE_NONE" "\<not> reply_off c" using assms(2,3) by (auto simp: client_ok_def)
  have inv: "base_inv base r (entries h)" "repl_backlog r = None \<longrightarrow> slaves r = []" using repl_reach_inv [OF assms(1)] by (auto simp: repl_inv_def)
  obtain r1 es1 sls where r1: "full_resync sys r ?c = Some r1" "backlog_inv r1 (stream es1) base"
    "slaves r1 = sls @ [?c\<lparr>replstate := SLAVE_STATE_WAIT_BGSAVE_END, psync_initial_offset := master_repl_offset r1,
      slave_sent := slave_sent ?c @ fullresync_text (runid r) (master_repl_offset r1)\<rparr>]"
    using full_resync_disk [OF inv assms(7-9,12), of ?c] assms(4,13) by auto
  have "syncCommand sys r c (Some (rid, ob)) = Some (r1, [])"
    using assms(3,5,6,10,11) r1(1)
    by (simp add: syncCommand_def clientHasPendingReplies_def masterTryPartialResynchronization_def getLongLongFromObjectOrReply_def)
  moreover define sl where "sl = ?c\<lparr>replstate := SLAVE_STATE_WAIT_BGSAVE_END, psync_initial_offset := master_repl_offset r1,
      slave_sent := slave_sent ?c @ fullresync_text (runid r) (master_repl_offset r1)\<rparr>"
  moreover have "slave_reply sl = error_reply not_integer" "pending_write sl" "slave_written sl = []" "sentlen sl = 0" "\<not> reply_off sl"
    using c assms(3) by (simp_all add: sl_def addReply_reply addReply_pending held_back_def)
  ultimately show ?thesis using r1(2,3)
    by (intro exI [of _ r1] exI [of _ es1] exI [of _ sls] exI [of _ sl]) simp
qed

lemma last_map_filter: "f x = Some y \<Longrightarrow> last (List.map_filter f (xs @ [x])) = y"
  by (induction xs) (auto simp: List.map_filter_def)

lemma bad_offset_written:
  assumes "slaves r2 = map (add_stream T) (sls @ [sl])" "replstate sl = SLAVE_STATE_WAIT_BGSAVE_END" "slave_reply sl = xs"
    "slave_written sl = []" "sentlen sl = 0" "pending_write sl" "\<not> reply_off sl" "length (xs @ T) \<le> writable sys (slave_id sl)" "\<not> write_fails sys (slave_id sl)"
  shows "\<exists>sl'. last (handleClientsWithPendingWrites sys (slaves r2)) = sl' \<and> slave_id sl' = slave_id sl \<and> replstate sl' = SLAVE_STATE_WAIT_BGSAVE_END \<and>
    slave_written sl' = xs @ T \<and> slave_reply sl' = []"
proof -
  let ?sl = "add_stream T sl"
  have p: "pending_write ?sl" "slave_reply ?sl = xs @ T" using assms by (simp_all add: add_stream_def addReply_pending addReply_reply)
  let ?q = "?sl\<lparr>pending_write := False\<rparr>"
  obtain sl' where sl': "writeToClient sys ?q False = Some sl'" "slave_reply sl' = []" "slave_written sl' = given ?q" "slave_id sl' = slave_id ?q"
    "replstate sl' = replstate ?q"
    using writeToClient_all [of ?q sys False] p(2) assms(5,8,9) by auto
  have "handle_pending sys ?sl = Some sl'" using p(1) sl' by (simp add: handle_pending_def clientHasPendingReplies_def)
  then have "last (handleClientsWithPendingWrites sys (slaves r2)) = sl'"
    using last_map_filter [of "handle_pending sys" ?sl sl'] by (simp add: handleClientsWithPendingWrites_def assms(1))
  moreover have "given ?q = xs @ T" using assms(4,5) p(2) by (simp add: given_def)
  ultimately show ?thesis using sl' assms(2) by simp
qed

lemma save_failed_stuck:
  assumes "repl_reach base r h" "client_ok c" "slave_reply c = []" "\<not> pre_psync c" "slave_id c \<notin> set (map slave_id (slaves r))" "\<not> master_link_down r"
    "rdb_child r = RDB_CHILD_TYPE_NONE" "\<not> aof_child r" "\<not> repl_diskless_sync r" "\<not> fork_ok sys"
  shows "\<exists>r1 sl. syncCommand sys r c None = Some (r1, []) \<and> slave_id c \<notin> set (map slave_id (slaves r1)) \<and> sl \<in> set (closing r1) \<and> slave_id sl = slave_id c \<and>
         slave_reply sl = error_reply bgsave_failed \<and> (\<forall>sys'. handle_pending sys' sl = Some sl \<and> sendReplyToClient sys' sl = Some sl)"
proof -
  let ?c = "c\<lparr>pre_psync := True, replstate := SLAVE_STATE_WAIT_BGSAVE_START\<rparr>"
  define r1 where "r1 = r\<lparr>slaves := filter (\<lambda>sl. \<not> wait_bgsave sl) (slaves r),
    closing := closing r @ map (\<lambda>sl. addReply sl (error_reply bgsave_failed)) (filter (\<lambda>sl. wait_bgsave sl) (slaves r @ [?c]))\<rparr>"
  have "repl_backlog r = None \<longrightarrow> slaves r = []" using repl_reach_inv [OF assms(1)] by (simp add: repl_inv_def)
  then have "full_resync sys r (c\<lparr>pre_psync := True\<rparr>) = Some r1"
    using assms(7-10) by (auto simp: full_resync_def startBgsaveForReplication_def rdbSaveBackground_def r1_def Let_def)
  then have "syncCommand sys r c None = Some (r1, [])" using assms(3,5,6) by (simp add: syncCommand_def clientHasPendingReplies_def)
  moreover have "slave_id c \<notin> set (map slave_id (slaves r1))" using assms(5) by (auto simp: r1_def)
  moreover define sl where "sl = addReply ?c (error_reply bgsave_failed)"
  moreover have "slave_reply sl = error_reply bgsave_failed" "\<not> pending_write sl" "\<not> write_handler sl"
    using assms(2,3) by (auto simp: sl_def addReply_reply addReply_pending client_ok_def held_back_def)
  ultimately show ?thesis
    by (intro exI [of _ r1] exI [of _ sl]) (simp add: r1_def handle_pending_def sendReplyToClient_def)
qed



end
