(* ===== verification/Skiplist.thy ===== *)
theory Skiplist
  imports Sds_Text Dict_Types
begin

text \<open>
  The skip list of sorted sets, \<^verbatim>\<open>t_zset.c\<close>, with the comparison of string objects from \<^verbatim>\<open>object.c\<close>.  Nodes live in a heap, a map from
  addresses to nodes; an access to an address that is not allocated (a freed node, too) is a fault, as is a level outside a node's array.
  Scores are an arbitrary linear order with a zero: the code only compares them, and not-a-number is excluded by its assertion.  A span is an
  \<open>unsigned int\<close>.  The values of \<open>random()\<close> are an argument.
\<close>

section \<open>String objects\<close>

definition obj_chars :: "robj \<Rightarrow> bytes option" where
  "obj_chars ob = (case ob of
     RStr s \<Rightarrow> Some s
   | RInt w \<Rightarrow> do { (buf, n) \<leftarrow> ll2string (replicate 128 0) 128 (sint w); mem_read buf 0 n })"

definition compareStringObjects :: "robj \<Rightarrow> robj \<Rightarrow> int option" where
  "compareStringObjects a b = do {
     astr \<leftarrow> obj_chars a;
     bstr \<leftarrow> obj_chars b;
     let alen = length astr;
     let blen = length bstr;
     let minlen = (if alen < blen then alen else blen);
     let cmp = c_memcmp (take minlen astr) (take minlen bstr);
     Some (if cmp = 0 then to_int32 (int alen - int blen) else cmp)
   }"

definition equalStringObjects :: "robj \<Rightarrow> robj \<Rightarrow> bool option" where
  "equalStringObjects a b = (case (a, b) of
     (RInt v, RInt w) \<Rightarrow> Some (v = w)
   | _ \<Rightarrow> map_option (\<lambda>c. c = 0) (compareStringObjects a b))"

section \<open>Nodes\<close>

type_synonym addr = nat

record zskiplistLevel =
  forward :: "addr option"
  span :: "32 word"

record 's zskiplistNode =
  zn_obj :: "robj option"
  zn_score :: 's
  backward :: "addr option"
  levels :: "zskiplistLevel list"

type_synonym 's zheap = "addr \<rightharpoonup> 's zskiplistNode"

text \<open>\<open>heap\<close> are the allocated nodes and \<open>brk\<close> the next address the allocator gives out.\<close>

record 's zskiplist =
  heap :: "'s zheap"
  brk :: addr
  header :: addr
  tail :: "addr option"
  zlength :: nat
  zlevel :: nat

definition ZSKIPLIST_MAXLEVEL :: nat where "ZSKIPLIST_MAXLEVEL = 32"

definition level_at :: "'s zheap \<Rightarrow> addr \<Rightarrow> nat \<Rightarrow> zskiplistLevel option" where
  "level_at h x i = do { n \<leftarrow> h x; arr_get (levels n) i }"

definition modify_level :: "'s zheap \<Rightarrow> addr \<Rightarrow> nat \<Rightarrow> (zskiplistLevel \<Rightarrow> zskiplistLevel) \<Rightarrow> 's zheap option" where
  "modify_level h x i f = do {
     n \<leftarrow> h x;
     l \<leftarrow> arr_get (levels n) i;
     Some (h(x \<mapsto> n\<lparr>levels := (levels n)[i := f l]\<rparr>))
   }"

definition set_backward :: "'s zheap \<Rightarrow> addr \<Rightarrow> addr option \<Rightarrow> 's zheap option" where
  "set_backward h x b = do { n \<leftarrow> h x; Some (h(x \<mapsto> n\<lparr>backward := b\<rparr>)) }"

fun for_each :: "(nat \<Rightarrow> 'a \<Rightarrow> 'a option) \<Rightarrow> nat list \<Rightarrow> 'a \<Rightarrow> 'a option" where
  "for_each f [] s = Some s"
| "for_each f (i # is) s = do { s \<leftarrow> f i s; for_each f is s }"

text \<open>The fields of a new level are set by the caller before they are read.\<close>

definition zslCreateNode :: "'s zskiplist \<Rightarrow> nat \<Rightarrow> 's \<Rightarrow> robj option \<Rightarrow> 's zskiplist \<times> addr" where
  "zslCreateNode zsl lv score ob =
     (zsl\<lparr>heap := (heap zsl)(brk zsl \<mapsto> \<lparr>zn_obj = ob, zn_score = score, backward = None, levels = replicate lv \<lparr>forward = None, span = 0\<rparr>\<rparr>),
          brk := brk zsl + 1\<rparr>, brk zsl)"

definition zslCreate :: "('s :: zero) zskiplist option" where
  "zslCreate = do {
     let zsl = \<lparr>heap = Map.empty, brk = 0, header = 0, tail = None, zlength = 0, zlevel = 1\<rparr>;
     let (zsl, x) = zslCreateNode zsl ZSKIPLIST_MAXLEVEL 0 None;
     let zsl = zsl\<lparr>header := x\<rparr>;
     h \<leftarrow> for_each (\<lambda>j h. modify_level h x j (\<lambda>l. l\<lparr>forward := None, span := 0\<rparr>)) [0..<ZSKIPLIST_MAXLEVEL] (heap zsl);
     h \<leftarrow> set_backward h x None;
     Some (zsl\<lparr>heap := h, tail := None\<rparr>)
   }"

definition zslFreeNode :: "'s zheap \<Rightarrow> addr \<Rightarrow> 's zheap option" where
  "zslFreeNode h x = (if h x = None then None else Some (h(x := None)))"

partial_function (option) free_loop :: "'s zheap \<Rightarrow> addr option \<Rightarrow> 's zheap option" where
  "free_loop h node = (case node of
     None \<Rightarrow> Some h
   | Some x \<Rightarrow> do {
       l \<leftarrow> level_at h x 0;
       h \<leftarrow> zslFreeNode h x;
       free_loop h (forward l)
     })"

definition zslFree :: "'s zskiplist \<Rightarrow> 's zheap option" where
  "zslFree zsl = do {
     l \<leftarrow> level_at (heap zsl) (header zsl) 0;
     h \<leftarrow> zslFreeNode (heap zsl) (header zsl);
     free_loop h (forward l)
   }"

section \<open>Searching\<close>

text \<open>The inner loop of every search: go forward on level \<open>i\<close> while the next node meets a condition, and count the nodes that are passed.  The
  condition sees the next node and the count up to it.\<close>

partial_function (option) walk :: "('s zskiplistNode \<Rightarrow> nat \<Rightarrow> bool option) \<Rightarrow> 's zheap \<Rightarrow> nat \<Rightarrow> addr \<Rightarrow> nat \<Rightarrow> (addr \<times> nat) option" where
  "walk cond h i x rank = do {
     l \<leftarrow> level_at h x i;
     case forward l of
       None \<Rightarrow> Some (x, rank)
     | Some y \<Rightarrow> do {
         n \<leftarrow> h y;
         b \<leftarrow> cond n (rank + unat (span l));
         if b then walk cond h i y (rank + unat (span l)) else Some (x, rank)
       }
   }"

text \<open>The outer loop, from the top level down; element \<open>i\<close> of the result holds \<open>update[i]\<close> and \<open>rank[i]\<close>.\<close>

fun descend :: "('s zskiplistNode \<Rightarrow> nat \<Rightarrow> bool option) \<Rightarrow> 's zheap \<Rightarrow> nat \<Rightarrow> addr \<Rightarrow> nat \<Rightarrow> (addr \<times> nat) list \<Rightarrow> (addr \<times> nat) list option" where
  "descend cond h 0 x rank upd = Some upd"
| "descend cond h (Suc i) x rank upd = do {
     (x, rank) \<leftarrow> walk cond h i x rank;
     descend cond h i x rank ((x, rank) # upd)
   }"

definition before_key :: "('s :: linorder) \<Rightarrow> robj \<Rightarrow> 's zskiplistNode \<Rightarrow> nat \<Rightarrow> bool option" where
  "before_key score ob n r =
     (if zn_score n < score then Some True
      else if zn_score n = score then do { o' \<leftarrow> zn_obj n; c \<leftarrow> compareStringObjects o' ob; Some (c < 0) }
      else Some False)"

section \<open>Insertion\<close>

fun random_level :: "nat list \<Rightarrow> nat \<Rightarrow> nat option" where
  "random_level [] lv = None"
| "random_level (r # rs) lv = (if r mod 65536 < 16384 then random_level rs (lv + 1) else Some lv)"

text \<open>\<open>ZSKIPLIST_P * 0xFFFF\<close> is 16383.75.\<close>

definition zslRandomLevel :: "nat list \<Rightarrow> nat option" where
  "zslRandomLevel rs = do { lv \<leftarrow> random_level rs 1; Some (if lv < ZSKIPLIST_MAXLEVEL then lv else ZSKIPLIST_MAXLEVEL) }"

definition raise_level :: "'s zskiplist \<Rightarrow> nat \<Rightarrow> (addr \<times> nat) list \<Rightarrow> ('s zskiplist \<times> (addr \<times> nat) list) option" where
  "raise_level zsl lv upd =
     (if lv > zlevel zsl then do {
        h \<leftarrow> for_each (\<lambda>i h. modify_level h (header zsl) i (\<lambda>l. l\<lparr>span := word_of_nat (zlength zsl)\<rparr>)) [zlevel zsl..<lv] (heap zsl);
        Some (zsl\<lparr>heap := h, zlevel := lv\<rparr>, upd @ replicate (lv - zlevel zsl) (header zsl, 0))
      } else Some (zsl, upd))"

definition link_level :: "addr \<Rightarrow> (addr \<times> nat) list \<Rightarrow> nat \<Rightarrow> 's zheap \<Rightarrow> 's zheap option" where
  "link_level x upd i h = do {
     (u, r) \<leftarrow> arr_get upd i;
     (u0, r0) \<leftarrow> arr_get upd 0;
     l \<leftarrow> level_at h u i;
     let d = word_of_nat r0 - word_of_nat r;
     h \<leftarrow> modify_level h x i (\<lambda>lx. lx\<lparr>forward := forward l, span := span l - d\<rparr>);
     modify_level h u i (\<lambda>lu. lu\<lparr>forward := Some x, span := d + 1\<rparr>)
   }"

definition bump_span :: "(addr \<times> nat) list \<Rightarrow> nat \<Rightarrow> 's zheap \<Rightarrow> 's zheap option" where
  "bump_span upd i h = do { (u, r) \<leftarrow> arr_get upd i; modify_level h u i (\<lambda>l. l\<lparr>span := span l + 1\<rparr>) }"

definition zslInsert :: "('s :: linorder) zskiplist \<Rightarrow> 's \<Rightarrow> robj \<Rightarrow> nat list \<Rightarrow> ('s zskiplist \<times> addr) option" where
  "zslInsert zsl score ob rs = do {
     upd \<leftarrow> descend (before_key score ob) (heap zsl) (zlevel zsl) (header zsl) 0 [];
     lv \<leftarrow> zslRandomLevel rs;
     (zsl, upd) \<leftarrow> raise_level zsl lv upd;
     let (zsl, x) = zslCreateNode zsl lv score (Some ob);
     h \<leftarrow> for_each (link_level x upd) [0..<lv] (heap zsl);
     h \<leftarrow> for_each (bump_span upd) [lv..<zlevel zsl] h;
     (u0, r0) \<leftarrow> arr_get upd 0;
     h \<leftarrow> set_backward h x (if u0 = header zsl then None else Some u0);
     l \<leftarrow> level_at h x 0;
     zsl \<leftarrow> (case forward l of
         Some y \<Rightarrow> do { h \<leftarrow> set_backward h y (Some x); Some (zsl\<lparr>heap := h\<rparr>) }
       | None \<Rightarrow> Some (zsl\<lparr>heap := h, tail := Some x\<rparr>));
     Some (zsl\<lparr>zlength := zlength zsl + 1\<rparr>, x)
   }"

section \<open>Deletion\<close>

definition unlink_level :: "addr \<Rightarrow> (addr \<times> nat) list \<Rightarrow> nat \<Rightarrow> 's zheap \<Rightarrow> 's zheap option" where
  "unlink_level x upd i h = do {
     (u, r) \<leftarrow> arr_get upd i;
     l \<leftarrow> level_at h u i;
     if forward l = Some x then do {
       lx \<leftarrow> level_at h x i;
       modify_level h u i (\<lambda>lu. lu\<lparr>span := span lu + (span lx - 1), forward := forward lx\<rparr>)
     } else modify_level h u i (\<lambda>lu. lu\<lparr>span := span lu - 1\<rparr>)
   }"

fun shrink_level :: "'s zheap \<Rightarrow> addr \<Rightarrow> nat \<Rightarrow> nat option" where
  "shrink_level h p 0 = Some 0"
| "shrink_level h p (Suc n) =
     (if Suc n > 1 then do { l \<leftarrow> level_at h p n; if forward l = None then shrink_level h p n else Some (Suc n) }
      else Some (Suc n))"

definition zslDeleteNode :: "'s zskiplist \<Rightarrow> addr \<Rightarrow> (addr \<times> nat) list \<Rightarrow> 's zskiplist option" where
  "zslDeleteNode zsl x upd = do {
     h \<leftarrow> for_each (unlink_level x upd) [0..<zlevel zsl] (heap zsl);
     n \<leftarrow> h x;
     l \<leftarrow> arr_get (levels n) 0;
     zsl \<leftarrow> (case forward l of
         Some y \<Rightarrow> do { h \<leftarrow> set_backward h y (backward n); Some (zsl\<lparr>heap := h\<rparr>) }
       | None \<Rightarrow> Some (zsl\<lparr>heap := h, tail := backward n\<rparr>));
     lv \<leftarrow> shrink_level (heap zsl) (header zsl) (zlevel zsl);
     Some (zsl\<lparr>zlevel := lv, zlength := zlength zsl - 1\<rparr>)
   }"

definition zslDelete :: "('s :: linorder) zskiplist \<Rightarrow> 's \<Rightarrow> robj \<Rightarrow> ('s zskiplist \<times> bool) option" where
  "zslDelete zsl score ob = do {
     upd \<leftarrow> descend (before_key score ob) (heap zsl) (zlevel zsl) (header zsl) 0 [];
     (x, r) \<leftarrow> arr_get upd 0;
     l \<leftarrow> level_at (heap zsl) x 0;
     case forward l of
       None \<Rightarrow> Some (zsl, False)
     | Some x \<Rightarrow> do {
         n \<leftarrow> heap zsl x;
         eq \<leftarrow> (if score = zn_score n then do { o' \<leftarrow> zn_obj n; equalStringObjects o' ob } else Some False);
         if eq then do {
           zsl \<leftarrow> zslDeleteNode zsl x upd;
           h \<leftarrow> zslFreeNode (heap zsl) x;
           Some (zsl\<lparr>heap := h\<rparr>, True)
         } else Some (zsl, False)
       }
   }"

section \<open>Ranks\<close>

definition upto_key :: "('s :: linorder) \<Rightarrow> robj \<Rightarrow> 's zskiplistNode \<Rightarrow> nat \<Rightarrow> bool option" where
  "upto_key score ob n r =
     (if zn_score n < score then Some True
      else if zn_score n = score then do { o' \<leftarrow> zn_obj n; c \<leftarrow> compareStringObjects o' ob; Some (c \<le> 0) }
      else Some False)"

fun rank_levels :: "('s :: linorder) \<Rightarrow> robj \<Rightarrow> 's zheap \<Rightarrow> nat \<Rightarrow> addr \<Rightarrow> nat \<Rightarrow> nat option" where
  "rank_levels score ob h 0 x rank = Some 0"
| "rank_levels score ob h (Suc i) x rank = do {
     (x, rank) \<leftarrow> walk (upto_key score ob) h i x rank;
     n \<leftarrow> h x;
     eq \<leftarrow> (case zn_obj n of None \<Rightarrow> Some False | Some o' \<Rightarrow> equalStringObjects o' ob);
     if eq then Some rank else rank_levels score ob h i x rank
   }"

definition zslGetRank :: "('s :: linorder) zskiplist \<Rightarrow> 's \<Rightarrow> robj \<Rightarrow> nat option" where
  "zslGetRank zsl score ob = rank_levels score ob (heap zsl) (zlevel zsl) (header zsl) 0"

fun element_levels :: "nat \<Rightarrow> 's zheap \<Rightarrow> nat \<Rightarrow> addr \<Rightarrow> nat \<Rightarrow> addr option option" where
  "element_levels rank h 0 x traversed = Some None"
| "element_levels rank h (Suc i) x traversed = do {
     (x, traversed) \<leftarrow> walk (\<lambda>n r. Some (r \<le> rank)) h i x traversed;
     if traversed = rank then Some (Some x) else element_levels rank h i x traversed
   }"

definition zslGetElementByRank :: "'s zskiplist \<Rightarrow> nat \<Rightarrow> addr option option" where
  "zslGetElementByRank zsl rank = element_levels rank (heap zsl) (zlevel zsl) (header zsl) 0"

section \<open>Ranges of scores\<close>

record 's zrangespec =
  range_min :: 's
  range_max :: 's
  minex :: bool
  maxex :: bool

definition zslValueGteMin :: "('s :: linorder) \<Rightarrow> 's zrangespec \<Rightarrow> bool" where
  "zslValueGteMin value spec = (if minex spec then value > range_min spec else value \<ge> range_min spec)"

definition zslValueLteMax :: "('s :: linorder) \<Rightarrow> 's zrangespec \<Rightarrow> bool" where
  "zslValueLteMax value spec = (if maxex spec then value < range_max spec else value \<le> range_max spec)"

definition zslIsInRange :: "('s :: linorder) zskiplist \<Rightarrow> 's zrangespec \<Rightarrow> bool option" where
  "zslIsInRange zsl rg =
     (if range_min rg > range_max rg \<or> range_min rg = range_max rg \<and> (minex rg \<or> maxex rg) then Some False
      else case tail zsl of
        None \<Rightarrow> Some False
      | Some x \<Rightarrow> do {
          n \<leftarrow> heap zsl x;
          if \<not> zslValueGteMin (zn_score n) rg then Some False
          else do {
            l \<leftarrow> level_at (heap zsl) (header zsl) 0;
            case forward l of
              None \<Rightarrow> Some False
            | Some y \<Rightarrow> do { n \<leftarrow> heap zsl y; Some (zslValueLteMax (zn_score n) rg) }
          }
        })"

definition last_node :: "('s zskiplistNode \<Rightarrow> nat \<Rightarrow> bool option) \<Rightarrow> 's zskiplist \<Rightarrow> addr option" where
  "last_node cond zsl = do {
     upd \<leftarrow> descend cond (heap zsl) (zlevel zsl) (header zsl) 0 [];
     (x, r) \<leftarrow> arr_get upd 0;
     Some x
   }"

definition zslFirstInRange :: "('s :: linorder) zskiplist \<Rightarrow> 's zrangespec \<Rightarrow> addr option option" where
  "zslFirstInRange zsl rg = do {
     b \<leftarrow> zslIsInRange zsl rg;
     if \<not> b then Some None
     else do {
       x \<leftarrow> last_node (\<lambda>n r. Some (\<not> zslValueGteMin (zn_score n) rg)) zsl;
       l \<leftarrow> level_at (heap zsl) x 0;
       y \<leftarrow> forward l;
       n \<leftarrow> heap zsl y;
       if \<not> zslValueLteMax (zn_score n) rg then Some None else Some (Some y)
     }
   }"

definition zslLastInRange :: "('s :: linorder) zskiplist \<Rightarrow> 's zrangespec \<Rightarrow> addr option option" where
  "zslLastInRange zsl rg = do {
     b \<leftarrow> zslIsInRange zsl rg;
     if \<not> b then Some None
     else do {
       x \<leftarrow> last_node (\<lambda>n r. Some (zslValueLteMax (zn_score n) rg)) zsl;
       n \<leftarrow> heap zsl x;
       if \<not> zslValueGteMin (zn_score n) rg then Some None else Some (Some x)
     }
   }"

text \<open>Deletion of a run of nodes: \<open>cond\<close> sees the node and the number of nodes removed so far; \<open>del\<close> removes a member from the
  dictionary view of the sorted set.\<close>

partial_function (option) delete_loop ::
  "('s zskiplistNode \<Rightarrow> nat \<Rightarrow> bool option) \<Rightarrow> ('d \<Rightarrow> robj \<Rightarrow> 'd option) \<Rightarrow> (addr \<times> nat) list \<Rightarrow> 's zskiplist \<Rightarrow> 'd \<Rightarrow> addr option \<Rightarrow> nat \<Rightarrow>
   ('s zskiplist \<times> 'd \<times> nat) option" where
  "delete_loop cond del upd zsl d x removed = (case x of
     None \<Rightarrow> Some (zsl, d, removed)
   | Some x \<Rightarrow> do {
       n \<leftarrow> heap zsl x;
       b \<leftarrow> cond n removed;
       if b then do {
         l \<leftarrow> arr_get (levels n) 0;
         zsl \<leftarrow> zslDeleteNode zsl x upd;
         ob \<leftarrow> zn_obj n;
         d \<leftarrow> del d ob;
         h \<leftarrow> zslFreeNode (heap zsl) x;
         delete_loop cond del upd (zsl\<lparr>heap := h\<rparr>) d (forward l) (removed + 1)
       } else Some (zsl, d, removed)
     })"

definition delete_run ::
  "('s zskiplistNode \<Rightarrow> nat \<Rightarrow> bool option) \<Rightarrow> ('s zskiplistNode \<Rightarrow> nat \<Rightarrow> nat \<Rightarrow> bool option) \<Rightarrow> ('d \<Rightarrow> robj \<Rightarrow> 'd option) \<Rightarrow> 's zskiplist \<Rightarrow> 'd \<Rightarrow>
   ('s zskiplist \<times> 'd \<times> nat) option" where
  "delete_run skip cond del zsl d = do {
     upd \<leftarrow> descend skip (heap zsl) (zlevel zsl) (header zsl) 0 [];
     (x, traversed) \<leftarrow> arr_get upd 0;
     l \<leftarrow> level_at (heap zsl) x 0;
     delete_loop (\<lambda>n removed. cond n traversed removed) del upd zsl d (forward l) 0
   }"

definition dict_del :: "(robj, 'v) dictType \<Rightarrow> (robj, 'v) dict \<Rightarrow> robj \<Rightarrow> (robj, 'v) dict option" where
  "dict_del T d ob = do { (d, found, freed) \<leftarrow> dictDelete T d ob; Some d }"

definition zslDeleteRangeByScore ::
  "(robj, 'v) dictType \<Rightarrow> ('s :: linorder) zskiplist \<Rightarrow> 's zrangespec \<Rightarrow> (robj, 'v) dict \<Rightarrow> ('s zskiplist \<times> (robj, 'v) dict \<times> nat) option" where
  "zslDeleteRangeByScore T zsl rg d =
     delete_run (\<lambda>n r. Some (if minex rg then zn_score n \<le> range_min rg else zn_score n < range_min rg))
       (\<lambda>n t k. Some (if maxex rg then zn_score n < range_max rg else zn_score n \<le> range_max rg)) (dict_del T) zsl d"

definition zslDeleteRangeByRank ::
  "(robj, 'v) dictType \<Rightarrow> ('s :: linorder) zskiplist \<Rightarrow> nat \<Rightarrow> nat \<Rightarrow> (robj, 'v) dict \<Rightarrow> ('s zskiplist \<times> (robj, 'v) dict \<times> nat) option" where
  "zslDeleteRangeByRank T zsl start end' d =
     delete_run (\<lambda>n r. Some (r < start)) (\<lambda>n t k. Some (t + 1 + k \<le> end')) (dict_del T) zsl d"

section \<open>Ranges of members\<close>

text \<open>A bound is a string object or one of the shared objects \<open>minstring\<close> and \<open>maxstring\<close>, which stand for the smallest and the largest
  string; they are recognised by their address, and they hold the texts \<open>"minstring"\<close> and \<open>"maxstring"\<close>.\<close>

datatype lexbound = LexMin | LexMax | LexStr robj

definition bound_obj :: "lexbound \<Rightarrow> robj" where
  "bound_obj b = (case b of
     LexMin \<Rightarrow> RStr [109, 105, 110, 115, 116, 114, 105, 110, 103]
   | LexMax \<Rightarrow> RStr [109, 97, 120, 115, 116, 114, 105, 110, 103]
   | LexStr ob \<Rightarrow> ob)"

record zlexrangespec =
  lex_min :: lexbound
  lex_max :: lexbound
  lex_minex :: bool
  lex_maxex :: bool

definition zslParseLexRangeItem :: "bytes \<Rightarrow> (lexbound \<times> bool) option" where
  "zslParseLexRangeItem item =
     (case item of
        [] \<Rightarrow> None
      | c # cs \<Rightarrow>
          if c = 43 then (if takeWhile (\<lambda>b. b \<noteq> 0) cs \<noteq> [] then None else Some (LexMax, False))
          else if c = 45 then (if takeWhile (\<lambda>b. b \<noteq> 0) cs \<noteq> [] then None else Some (LexMin, False))
          else if c = 40 then Some (LexStr (RStr cs), True)
          else if c = 91 then Some (LexStr (RStr cs), False)
          else None)"

definition zslParseLexRange :: "robj \<Rightarrow> robj \<Rightarrow> zlexrangespec option" where
  "zslParseLexRange mn mx = (case (mn, mx) of
     (RStr a, RStr b) \<Rightarrow> do {
       (lo, lex) \<leftarrow> zslParseLexRangeItem a;
       (hi, hex) \<leftarrow> zslParseLexRangeItem b;
       Some \<lparr>lex_min = lo, lex_max = hi, lex_minex = lex, lex_maxex = hex\<rparr>
     }
   | _ \<Rightarrow> None)"

definition compareStringObjectsForLexRange :: "lexbound \<Rightarrow> lexbound \<Rightarrow> int option" where
  "compareStringObjectsForLexRange a b =
     (if a = b then Some 0
      else if a = LexMin \<or> b = LexMax then Some (-1)
      else if a = LexMax \<or> b = LexMin then Some 1
      else compareStringObjects (bound_obj a) (bound_obj b))"

definition zslLexValueGteMin :: "robj \<Rightarrow> zlexrangespec \<Rightarrow> bool option" where
  "zslLexValueGteMin value spec = do {
     c \<leftarrow> compareStringObjectsForLexRange (LexStr value) (lex_min spec);
     Some (if lex_minex spec then c > 0 else c \<ge> 0)
   }"

definition zslLexValueLteMax :: "robj \<Rightarrow> zlexrangespec \<Rightarrow> bool option" where
  "zslLexValueLteMax value spec = do {
     c \<leftarrow> compareStringObjectsForLexRange (LexStr value) (lex_max spec);
     Some (if lex_maxex spec then c < 0 else c \<le> 0)
   }"

definition zslIsInLexRange :: "'s zskiplist \<Rightarrow> zlexrangespec \<Rightarrow> bool option" where
  "zslIsInLexRange zsl rg = do {
     c \<leftarrow> compareStringObjectsForLexRange (lex_min rg) (lex_max rg);
     c' \<leftarrow> compareStringObjects (bound_obj (lex_min rg)) (bound_obj (lex_max rg));
     if c > 1 \<or> c' = 0 \<and> (lex_minex rg \<or> lex_maxex rg) then Some False
     else case tail zsl of
       None \<Rightarrow> Some False
     | Some x \<Rightarrow> do {
         n \<leftarrow> heap zsl x;
         ob \<leftarrow> zn_obj n;
         b \<leftarrow> zslLexValueGteMin ob rg;
         if \<not> b then Some False
         else do {
           l \<leftarrow> level_at (heap zsl) (header zsl) 0;
           case forward l of
             None \<Rightarrow> Some False
           | Some y \<Rightarrow> do { n \<leftarrow> heap zsl y; ob \<leftarrow> zn_obj n; zslLexValueLteMax ob rg }
         }
       }
   }"

definition zslFirstInLexRange :: "'s zskiplist \<Rightarrow> zlexrangespec \<Rightarrow> addr option option" where
  "zslFirstInLexRange zsl rg = do {
     b \<leftarrow> zslIsInLexRange zsl rg;
     if \<not> b then Some None
     else do {
       x \<leftarrow> last_node (\<lambda>n r. do { ob \<leftarrow> zn_obj n; b \<leftarrow> zslLexValueGteMin ob rg; Some (\<not> b) }) zsl;
       l \<leftarrow> level_at (heap zsl) x 0;
       y \<leftarrow> forward l;
       n \<leftarrow> heap zsl y;
       ob \<leftarrow> zn_obj n;
       b \<leftarrow> zslLexValueLteMax ob rg;
       if \<not> b then Some None else Some (Some y)
     }
   }"

definition zslLastInLexRange :: "'s zskiplist \<Rightarrow> zlexrangespec \<Rightarrow> addr option option" where
  "zslLastInLexRange zsl rg = do {
     b \<leftarrow> zslIsInLexRange zsl rg;
     if \<not> b then Some None
     else do {
       x \<leftarrow> last_node (\<lambda>n r. do { ob \<leftarrow> zn_obj n; zslLexValueLteMax ob rg }) zsl;
       n \<leftarrow> heap zsl x;
       ob \<leftarrow> zn_obj n;
       b \<leftarrow> zslLexValueGteMin ob rg;
       if \<not> b then Some None else Some (Some x)
     }
   }"

definition zslDeleteRangeByLex :: "(robj, 'v) dictType \<Rightarrow> ('s :: linorder) zskiplist \<Rightarrow> zlexrangespec \<Rightarrow> (robj, 'v) dict \<Rightarrow> ('s zskiplist \<times> (robj, 'v) dict \<times> nat) option" where
  "zslDeleteRangeByLex T zsl rg d =
     delete_run (\<lambda>n r. do { ob \<leftarrow> zn_obj n; b \<leftarrow> zslLexValueGteMin ob rg; Some (\<not> b) })
       (\<lambda>n t k. do { ob \<leftarrow> zn_obj n; zslLexValueLteMax ob rg }) (dict_del T) zsl d"

end
