(* ===== verification/Skiplist_Inv.thy ===== *)
theory Skiplist_Inv
  imports Skiplist
begin

text \<open>
  The shape of a skip list.  The nodes in their order, the header first, are a list of entries: address, number of levels, score and member.  On
  level \<open>i\<close> a node points to the next entry with more than \<open>i\<close> levels, and its span is the distance to it, or to the end of the list.  The
  search loops end at the last node of a part of the list, on every level.
\<close>

record 's ent =
  ea :: addr
  eh :: nat
  es :: 's
  eo :: robj

section \<open>Pointers and spans of a list of entries\<close>

fun fwd :: "nat \<Rightarrow> 's ent list \<Rightarrow> addr option" where
  "fwd i [] = None"
| "fwd i (e # xs) = (if i < eh e then Some (ea e) else fwd i xs)"

fun spn :: "nat \<Rightarrow> 's ent list \<Rightarrow> nat" where
  "spn i [] = 0"
| "spn i (e # xs) = (if i < eh e then 1 else Suc (spn i xs))"

lemma fwd_skip: "\<forall>e \<in> set A. eh e \<le> i \<Longrightarrow> fwd i (A @ B) = fwd i B"
  by (induction A) auto

lemma spn_skip: "\<forall>e \<in> set A. eh e \<le> i \<Longrightarrow> spn i (A @ B) = length A + spn i B"
  by (induction A) auto

lemma fwd_hit: "\<exists>e \<in> set A. i < eh e \<Longrightarrow> fwd i (A @ B) = fwd i A"
  by (induction A) auto

lemma spn_hit: "\<exists>e \<in> set A. i < eh e \<Longrightarrow> spn i (A @ B) = spn i A"
  by (induction A) auto

lemma spn_le: "spn i xs \<le> length xs"
  by (induction xs) auto

lemma fwd_None: "\<forall>e \<in> set A. eh e \<le> i \<Longrightarrow> fwd i A = None" "\<forall>e \<in> set A. eh e \<le> i \<Longrightarrow> spn i A = length A"
  using fwd_skip [of A i "[]"] spn_skip [of A i "[]"] by simp_all

lemma split_level:
  obtains "\<forall>e \<in> set A. eh e \<le> i" | C w D where "A = C @ w # D" "i < eh w" "\<forall>e \<in> set C. eh e \<le> i"
  using split_list_first_prop [of A "\<lambda>e. i < eh e"] by (meson not_le)

section \<open>The invariant\<close>

definition node_ok :: "nat \<Rightarrow> 's zheap \<Rightarrow> 's ent list \<Rightarrow> 's ent \<Rightarrow> 's ent list \<Rightarrow> bool" where
  "node_ok lv h pre e suf \<longleftrightarrow> (\<exists>n. h (ea e) = Some n \<and> length (levels n) = eh e \<and> zn_score n = es e \<and>
     zn_obj n = (if pre = [] then None else Some (eo e)) \<and> backward n = (if length pre \<le> 1 then None else Some (ea (last pre))) \<and>
     (\<forall>i < eh e. if i < lv then levels n ! i = \<lparr>forward = fwd i suf, span = word_of_nat (spn i suf)\<rparr> else forward (levels n ! i) = None))"

definition list_ok :: "nat \<Rightarrow> 's zheap \<Rightarrow> 's ent list \<Rightarrow> bool" where
  "list_ok lv h ns \<longleftrightarrow> (\<forall>pre e suf. ns = pre @ e # suf \<longrightarrow> node_ok lv h pre e suf)"

definition zsl_ok :: "'s zskiplist \<Rightarrow> 's ent list \<Rightarrow> bool" where
  "zsl_ok zsl ns \<longleftrightarrow> ns \<noteq> [] \<and> ea (hd ns) = header zsl \<and> eh (hd ns) = ZSKIPLIST_MAXLEVEL \<and> 1 \<le> zlevel zsl \<and> zlevel zsl \<le> ZSKIPLIST_MAXLEVEL \<and>
     (\<forall>e \<in> set (tl ns). 1 \<le> eh e \<and> eh e \<le> zlevel zsl) \<and> distinct (map ea ns) \<and> dom (heap zsl) = ea ` set ns \<and> (\<forall>a \<in> dom (heap zsl). a < brk zsl) \<and>
     zlength zsl = length ns - 1 \<and> tail zsl = (if length ns = 1 then None else Some (ea (last ns))) \<and> list_ok (zlevel zsl) (heap zsl) ns"

lemma list_okD: "list_ok lv h (pre @ e # suf) \<Longrightarrow> node_ok lv h pre e suf"
  by (simp add: list_ok_def)

text \<open>The last entry of \<open>A\<close> that has level \<open>i\<close>, and its position.\<close>

definition last_at :: "nat \<Rightarrow> 's ent list \<Rightarrow> addr \<times> nat \<Rightarrow> bool" where
  "last_at i A v \<longleftrightarrow> (\<exists>A1 u A2. A = A1 @ u # A2 \<and> v = (ea u, length A1) \<and> i < eh u \<and> (\<forall>e \<in> set A2. eh e \<le> i))"

section \<open>The search loops\<close>

text \<open>The condition of the search holds exactly for the nodes of \<open>A\<close>.\<close>

definition cut_at :: "('s zskiplistNode \<Rightarrow> nat \<Rightarrow> bool option) \<Rightarrow> 's zheap \<Rightarrow> 's ent list \<Rightarrow> 's ent list \<Rightarrow> bool" where
  "cut_at cond h A B \<longleftrightarrow> (\<forall>pre e suf n. A @ B = pre @ e # suf \<longrightarrow> pre \<noteq> [] \<longrightarrow> h (ea e) = Some n \<longrightarrow> cond n (length pre) = Some (length pre < length A))"

lemma level_at_ok:
  assumes "list_ok lv h (pre @ e # suf)" "i < eh e" "i < lv"
  shows "level_at h (ea e) i = Some \<lparr>forward = fwd i suf, span = word_of_nat (spn i suf)\<rparr>"
  using list_okD [OF assms(1)] assms(2,3) by (auto simp: node_ok_def level_at_def)

lemma unat_spn: "length xs < 2 ^ 32 \<Longrightarrow> unat (word_of_nat (spn i xs) :: 32 word) = spn i xs"
  using spn_le [of i xs] by (simp add: unsigned_of_nat take_bit_nat_eq_self)

lemma walk_exact:
  assumes "list_ok lv h (A @ B)" "cut_at cond h A B" "length (A @ B) \<le> 2 ^ 32" "i < lv"
  shows "A = A1 @ u # A2 \<Longrightarrow> i < eh u \<Longrightarrow> \<exists>v. walk cond h i (ea u) (length A1) = Some v \<and> last_at i A v"
proof (induction "length A2" arbitrary: A1 u A2 rule: less_induct)
  case less
  have ab: "A @ B = A1 @ u # (A2 @ B)" using less(2) by simp
  have l: "level_at h (ea u) i = Some \<lparr>forward = fwd i (A2 @ B), span = word_of_nat (spn i (A2 @ B))\<rparr>"
    using level_at_ok [OF _ less(3) assms(4)] assms(1) ab by metis
  have un: "unat (word_of_nat (spn i (A2 @ B)) :: 32 word) = spn i (A2 @ B)" using assms(3) ab by (intro unat_spn) simp
  have stepw: "walk cond h i (ea u) (length A1) = (case fwd i (A2 @ B) of None \<Rightarrow> Some (ea u, length A1) | Some y \<Rightarrow> do {
         n \<leftarrow> h y; b \<leftarrow> cond n (length A1 + spn i (A2 @ B));
         if b then walk cond h i y (length A1 + spn i (A2 @ B)) else Some (ea u, length A1) })"
    by (subst walk.simps) (simp only: l un Option.bind.bind_lunit zskiplistLevel.simps)
  have node: "\<exists>n. h (ea w) = Some n \<and> cond n (length (A1 @ u # C)) = Some (length (A1 @ u # C) < length A)"
    if "A @ B = (A1 @ u # C) @ w # D" for C w D
  proof -
    have "node_ok lv h (A1 @ u # C) w D" using list_okD [of lv h "A1 @ u # C" w D] assms(1) unfolding that .
    then obtain n where "h (ea w) = Some n" by (auto simp: node_ok_def)
    then show ?thesis using assms(2) that unfolding cut_at_def by blast
  qed
  show ?case
  proof (rule split_level [of A2 i])
    assume none: "\<forall>e \<in> set A2. eh e \<le> i"
    then have last: "last_at i A (ea u, length A1)" using less(2,3) by (auto simp: last_at_def)
    show ?thesis
    proof (rule split_level [of B i])
      assume "\<forall>e \<in> set B. eh e \<le> i"
      then have "fwd i (A2 @ B) = None" using none fwd_None(1) [of "A2 @ B" i] by auto
      then show ?thesis using stepw last by simp
    next
      fix C w D
      assume B: "B = C @ w # D" "i < eh w" "\<forall>e \<in> set C. eh e \<le> i"
      have f: "fwd i (A2 @ B) = Some (ea w)" using fwd_skip [of "A2 @ C" i "w # D"] B none by auto
      have s: "length A1 + spn i (A2 @ B) = length (A1 @ u # A2 @ C)" using spn_skip [of "A2 @ C" i "w # D"] B none by auto
      obtain n where "h (ea w) = Some n" "cond n (length (A1 @ u # A2 @ C)) = Some (length (A1 @ u # A2 @ C) < length A)"
        using node [of "A2 @ C" w D] B(1) ab by auto
      moreover have "\<not> length (A1 @ u # A2 @ C) < length A" using less(2) by simp
      ultimately show ?thesis using stepw f s last by simp
    qed
  next
    fix C w D
    assume A2: "A2 = C @ w # D" "i < eh w" "\<forall>e \<in> set C. eh e \<le> i"
    have f: "fwd i (A2 @ B) = Some (ea w)" using fwd_skip [of C i "w # D @ B"] A2 by auto
    have s: "length A1 + spn i (A2 @ B) = length (A1 @ u # C)" using spn_skip [of C i "w # D @ B"] A2 by auto
    have A: "A = (A1 @ u # C) @ w # D" using less(2) A2(1) by simp
    obtain n where "h (ea w) = Some n" "cond n (length (A1 @ u # C)) = Some (length (A1 @ u # C) < length A)"
      using node [of C w "D @ B"] A by auto
    moreover have "length (A1 @ u # C) < length A" using A by simp
    moreover obtain v where "walk cond h i (ea w) (length (A1 @ u # C)) = Some v" "last_at i A v"
      using less(1) [of D "A1 @ u # C" w] A2(1,2) A by auto
    ultimately show ?thesis using stepw f s by simp
  qed
qed

lemma descend_exact:
  assumes "list_ok lv h (A @ B)" "cut_at cond h A B" "length (A @ B) \<le> 2 ^ 32"
  shows "k \<le> lv \<Longrightarrow> A = A1 @ u # A2 \<Longrightarrow> k \<le> eh u \<Longrightarrow>
    \<exists>upd. descend cond h k (ea u) (length A1) acc = Some (upd @ acc) \<and> length upd = k \<and> (\<forall>i < k. last_at i A (upd ! i))"
proof (induction k arbitrary: A1 u A2 acc)
  case (Suc k)
  obtain v where v: "walk cond h k (ea u) (length A1) = Some v" "last_at k A v"
    using walk_exact [OF assms, of k A1 u A2] Suc.prems by auto
  obtain B1 w B2 where w: "A = B1 @ w # B2" "v = (ea w, length B1)" "k < eh w" using v(2) by (auto simp: last_at_def)
  obtain upd where "descend cond h k (ea w) (length B1) (v # acc) = Some (upd @ v # acc)" "length upd = k" "\<forall>i < k. last_at i A (upd ! i)"
    using Suc.IH [of B1 w B2 "v # acc"] Suc.prems(1) w by auto
  then show ?case using v w(2) by (intro exI [of _ "upd @ [v]"]) (auto simp: nth_append less_Suc_eq)
qed simp

lemma last_at_0:
  assumes "last_at 0 A v" "\<forall>e \<in> set (tl A). 1 \<le> eh e"
  shows "v = (ea (last A), length A - 1)"
proof -
  obtain A1 u A2 where A: "A = A1 @ u # A2" "v = (ea u, length A1)" "\<forall>e \<in> set A2. eh e \<le> 0" using assms(1) by (auto simp: last_at_def)
  have "set A2 \<subseteq> set (tl A)" using A(1) by (cases A1) auto
  then have "A2 = []" using A(3) assms(2) by (cases A2) force+
  then show ?thesis using A by simp
qed

lemma search_exact:
  assumes "zsl_ok zsl (A @ B)" "A \<noteq> []" "cut_at cond (heap zsl) A B" "length (A @ B) \<le> 2 ^ 32"
  shows "\<exists>upd. descend cond (heap zsl) (zlevel zsl) (header zsl) 0 [] = Some upd \<and> length upd = zlevel zsl \<and> (\<forall>i < zlevel zsl. last_at i A (upd ! i)) \<and>
    arr_get upd 0 = Some (ea (last A), length A - 1)"
proof -
  have z: "list_ok (zlevel zsl) (heap zsl) (A @ B)" "ea (hd A) = header zsl" "zlevel zsl \<le> eh (hd A)" "1 \<le> zlevel zsl" "\<forall>e \<in> set (tl A). 1 \<le> eh e"
    using assms(1,2) by (auto simp: zsl_ok_def tl_append2)
  obtain upd where upd: "descend cond (heap zsl) (zlevel zsl) (header zsl) 0 [] = Some upd" "length upd = zlevel zsl" "\<forall>i < zlevel zsl. last_at i A (upd ! i)"
    using descend_exact [OF z(1) assms(3,4), of "zlevel zsl" "[]" "hd A" "tl A" "[]"] z assms(2) by auto
  have "last_at 0 A (upd ! 0)" "arr_get upd 0 = Some (upd ! 0)" using upd(2,3) z(4) by auto
  then show ?thesis using upd last_at_0 [OF _ z(5)] by auto
qed

end
