(* ===== verification/Skiplist_Ops.thy ===== *)
theory Skiplist_Ops
  imports Skiplist_Inv
begin

text \<open>
  Insertion and deletion keep the shape of the skip list.  The loops over the levels change one level of one or two nodes in each round, so
  their effect on the heap is a function of address and level, \<open>relevel\<close>.
\<close>

section \<open>Loops over the levels\<close>

definition relevel :: "nat \<Rightarrow> nat \<Rightarrow> (addr \<Rightarrow> nat \<Rightarrow> zskiplistLevel \<Rightarrow> zskiplistLevel) \<Rightarrow> 's zheap \<Rightarrow> 's zheap" where
  "relevel a b g h = (\<lambda>p. map_option (\<lambda>n. n\<lparr>levels := map (\<lambda>i. if a \<le> i \<and> i < b then g p i (levels n ! i) else levels n ! i) [0..<length (levels n)]\<rparr>) (h p))"

lemma relevel_same [simp]: "relevel a a g h = h"
proof
  fix p
  have "map (\<lambda>i. if a \<le> i \<and> i < a then g p i (xs ! i) else xs ! i) [0..<length xs] = xs" for xs
    by (rule nth_equalityI) auto
  then show "relevel a a g h p = h p" by (cases "h p") (simp_all add: relevel_def)
qed

lemma relevel_cong: "(\<And>p j l. a \<le> j \<Longrightarrow> j < b \<Longrightarrow> g p j l = g' p j l) \<Longrightarrow> relevel a b g h = relevel a b g' h"
proof
  fix p
  assume "\<And>p j l. a \<le> j \<Longrightarrow> j < b \<Longrightarrow> g p j l = g' p j l"
  then show "relevel a b g h p = relevel a b g' h p" by (cases "h p") (auto simp: relevel_def)
qed

lemma for_each_append: "for_each f (xs @ ys) s = Option.bind (for_each f xs s) (for_each f ys)"
  by (induction xs arbitrary: s) (auto split: bind_splits)

lemma for_each_relevel:
  "a \<le> b \<Longrightarrow> (\<And>i. a \<le> i \<Longrightarrow> i < b \<Longrightarrow> f i (relevel a i g h) = Some (relevel a (Suc i) g h)) \<Longrightarrow> for_each f [a..<b] h = Some (relevel a b g h)"
proof (induction b)
  case (Suc b)
  show ?case
  proof (cases "a = Suc b")
    case False
    then have "a \<le> b" using Suc.prems(1) by simp
    then show ?thesis using Suc.IH Suc.prems(2) by (simp add: for_each_append)
  qed simp
qed simp

lemma relevel_dom [simp]: "dom (relevel a b g h) = dom h"
  by (auto simp: relevel_def)

lemma level_at_relevel: "level_at (relevel a b g h) p i = map_option (\<lambda>l. if a \<le> i \<and> i < b then g p i l else l) (level_at h p i)"
  by (cases "h p") (auto simp: level_at_def relevel_def arr_get_def)

lemma modify_relevel:
  assumes "level_at h u i = Some l" "a \<le> i" "\<And>p l. p \<noteq> u \<Longrightarrow> level_at h p i = Some l \<Longrightarrow> g p i l = l" "f l = g u i l"
  shows "modify_level (relevel a i g h) u i f = Some (relevel a (Suc i) g h)"
proof -
  obtain n where n: "h u = Some n" "i < length (levels n)" "levels n ! i = l" using assms(1) by (auto simp: level_at_def arr_get_def split: bind_splits if_splits)
  have "((relevel a i g h)(u \<mapsto> the (relevel a i g h u)\<lparr>levels := (levels (the (relevel a i g h u)))[i := f l]\<rparr>)) p = relevel a (Suc i) g h p" for p
  proof (cases "p = u")
    case True
    have "(map (\<lambda>j. if a \<le> j \<and> j < i then g u j (levels n ! j) else levels n ! j) [0..<length (levels n)])[i := f l] =
        map (\<lambda>j. if a \<le> j \<and> j < Suc i then g u j (levels n ! j) else levels n ! j) [0..<length (levels n)]"
      using n(2,3) assms(2,4) by (intro nth_equalityI) (auto simp: nth_list_update less_Suc_eq)
    then show ?thesis using True n(1) by (simp add: relevel_def)
  next
    case False
    show ?thesis
    proof (cases "h p")
      case (Some m)
      have "i < length (levels m) \<Longrightarrow> g p i (levels m ! i) = levels m ! i" using assms(3) [OF False] Some by (simp add: level_at_def)
      then have "map (\<lambda>j. if a \<le> j \<and> j < i then g p j (levels m ! j) else levels m ! j) [0..<length (levels m)] =
          map (\<lambda>j. if a \<le> j \<and> j < Suc i then g p j (levels m ! j) else levels m ! j) [0..<length (levels m)]"
        by (intro map_cong refl) (auto simp: less_Suc_eq)
      then show ?thesis using False Some by (simp add: relevel_def)
    qed (use False in \<open>simp add: relevel_def\<close>)
  qed
  then have "((relevel a i g h)(u \<mapsto> the (relevel a i g h u)\<lparr>levels := (levels (the (relevel a i g h u)))[i := f l]\<rparr>)) = relevel a (Suc i) g h" by blast
  then show ?thesis using n by (simp add: modify_level_def relevel_def)
qed

text \<open>Two nodes are changed on the same level.\<close>

lemma modify_relevel2:
  assumes "level_at h x i = Some lx" "level_at h u i = Some lu" "x \<noteq> u" "a \<le> i"
    "\<And>p l. p \<noteq> x \<Longrightarrow> p \<noteq> u \<Longrightarrow> level_at h p i = Some l \<Longrightarrow> g p i l = l" "fx lx = g x i lx" "fu lu = g u i lu"
  shows "Option.bind (modify_level (relevel a i g h) x i fx) (\<lambda>h. modify_level h u i fu) = Some (relevel a (Suc i) g h)"
proof -
  let ?g1 = "\<lambda>p j l. if p = u \<and> j = i then l else g p j l"
  have 1: "relevel a i g h = relevel a i ?g1 h" by (rule relevel_cong) auto
  have m1: "modify_level (relevel a i ?g1 h) x i fx = Some (relevel a (Suc i) ?g1 h)"
    using assms(3,5,6) by (intro modify_relevel [OF assms(1,4)]) auto
  have 2: "relevel i i g (relevel a (Suc i) ?g1 h) = relevel a (Suc i) ?g1 h" by simp
  have lu: "level_at (relevel a (Suc i) ?g1 h) u i = Some lu" using assms(2) by (simp add: level_at_relevel)
  let ?g2 = "\<lambda>p j l. if p = u then g p j l else l"
  have m2: "modify_level (relevel i i ?g2 (relevel a (Suc i) ?g1 h)) u i fu = Some (relevel i (Suc i) ?g2 (relevel a (Suc i) ?g1 h))"
    using assms(7) by (intro modify_relevel [OF lu]) auto
  have "relevel i (Suc i) ?g2 (relevel a (Suc i) ?g1 h) = relevel a (Suc i) g h"
    using assms(4) by (auto simp: relevel_def fun_eq_iff option.map_comp comp_def less_Suc_eq intro!: option.map_cong)
  then show ?thesis using m1 m2 1 by simp
qed

section \<open>Values and levels of a node\<close>

definition node_lv :: "nat \<Rightarrow> 's zheap \<Rightarrow> 's ent \<Rightarrow> 's ent list \<Rightarrow> bool" where
  "node_lv lv h e suf \<longleftrightarrow> (\<exists>n. h (ea e) = Some n \<and> length (levels n) = eh e \<and>
     (\<forall>i < eh e. if i < lv then levels n ! i = \<lparr>forward = fwd i suf, span = word_of_nat (spn i suf)\<rparr> else forward (levels n ! i) = None))"

definition node_val :: "'s zheap \<Rightarrow> 's ent list \<Rightarrow> 's ent \<Rightarrow> bool" where
  "node_val h pre e \<longleftrightarrow> (\<exists>n. h (ea e) = Some n \<and> zn_score n = es e \<and> zn_obj n = (if pre = [] then None else Some (eo e)) \<and>
     backward n = (if length pre \<le> 1 then None else Some (ea (last pre))))"

lemma node_ok_split: "node_ok lv h pre e suf \<longleftrightarrow> node_lv lv h e suf \<and> node_val h pre e"
  by (auto simp: node_ok_def node_lv_def node_val_def)

lemma node_lv_relevel:
  assumes "node_lv lv h e suf" "\<And>i l. i < eh e \<Longrightarrow> (if i < lv then l = \<lparr>forward = fwd i suf, span = word_of_nat (spn i suf)\<rparr> else forward l = None) \<Longrightarrow>
     (if i < lv' then (if a \<le> i \<and> i < b then g (ea e) i l else l) = \<lparr>forward = fwd i suf', span = word_of_nat (spn i suf')\<rparr>
      else forward (if a \<le> i \<and> i < b then g (ea e) i l else l) = None)"
  shows "node_lv lv' (relevel a b g h) e suf'"
proof -
  obtain n where n: "h (ea e) = Some n" "length (levels n) = eh e"
    "\<forall>i < eh e. if i < lv then levels n ! i = \<lparr>forward = fwd i suf, span = word_of_nat (spn i suf)\<rparr> else forward (levels n ! i) = None"
    using assms(1) by (auto simp: node_lv_def)
  let ?m = "n\<lparr>levels := map (\<lambda>i. if a \<le> i \<and> i < b then g (ea e) i (levels n ! i) else levels n ! i) [0..<length (levels n)]\<rparr>"
  have "relevel a b g h (ea e) = Some ?m" using n(1) by (simp add: relevel_def)
  moreover have "\<forall>i < eh e. if i < lv' then levels ?m ! i = \<lparr>forward = fwd i suf', span = word_of_nat (spn i suf')\<rparr> else forward (levels ?m ! i) = None"
  proof (intro allI impI)
    fix i
    assume i: "i < eh e"
    have m: "levels ?m ! i = (if a \<le> i \<and> i < b then g (ea e) i (levels n ! i) else levels n ! i)" using i n(2) by simp
    show "if i < lv' then levels ?m ! i = \<lparr>forward = fwd i suf', span = word_of_nat (spn i suf')\<rparr> else forward (levels ?m ! i) = None"
      unfolding m by (rule assms(2) [OF i]) (use n(3) i in blast)
  qed
  ultimately show ?thesis unfolding node_lv_def using n(2) by (intro exI [of _ ?m]) simp
qed

lemma node_val_relevel [simp]: "node_val (relevel a b g h) pre e = node_val h pre e"
  by (auto simp: node_val_def relevel_def)

lemma node_lv_upd [simp]: "a \<noteq> ea e \<Longrightarrow> node_lv lv (h(a := v)) e suf = node_lv lv h e suf"
  by (simp add: node_lv_def)

lemma node_val_upd [simp]: "a \<noteq> ea e \<Longrightarrow> node_val (h(a := v)) pre e = node_val h pre e"
  by (simp add: node_val_def)

lemma set_backward_ok:
  assumes "h y = Some n"
  shows "\<exists>h'. set_backward h y b = Some h' \<and> dom h' = dom h \<and> (\<forall>lv e suf. node_lv lv h' e suf = node_lv lv h e suf) \<and>
    (\<forall>pre e. ea e \<noteq> y \<longrightarrow> node_val h' pre e = node_val h pre e) \<and>
    (\<forall>pre e pre'. ea e = y \<longrightarrow> node_val h pre e \<longrightarrow> (pre' = [] \<longleftrightarrow> pre = []) \<longrightarrow> b = (if length pre' \<le> 1 then None else Some (ea (last pre'))) \<longrightarrow> node_val h' pre' e) \<and>
    h' = h(y \<mapsto> n\<lparr>backward := b\<rparr>)"
  using assms by (auto simp: set_backward_def node_lv_def node_val_def)

lemma list_ok_split: "list_ok lv h ns \<longleftrightarrow> (\<forall>pre e suf. ns = pre @ e # suf \<longrightarrow> node_lv lv h e suf \<and> node_val h pre e)"
  by (simp add: list_ok_def node_ok_split)

section \<open>Insertion\<close>

lemma last_at_header:
  assumes "A \<noteq> []" "i < eh (hd A)" "\<forall>e \<in> set (tl A). eh e \<le> i"
  shows "last_at i A (ea (hd A), 0)"
  unfolding last_at_def using assms by (intro exI [of _ "[]"] exI [of _ "hd A"] exI [of _ "tl A"]) simp

lemma header_unique: "zsl_ok zsl ns \<Longrightarrow> e \<in> set (tl ns) \<Longrightarrow> ea e \<noteq> header zsl"
  by (cases ns) (force simp: zsl_ok_def)+

lemma hd_split: "xs \<noteq> [] \<Longrightarrow> xs = pre @ e # suf \<Longrightarrow> (pre = [] \<and> e = hd xs \<and> suf = tl xs) \<or> (pre \<noteq> [] \<and> e \<in> set (tl xs))"
  by (cases pre) auto

lemma raise_level_exact:
  assumes "zsl_ok zsl (A @ B)" "A \<noteq> []" "length upd = zlevel zsl" "\<forall>i < zlevel zsl. last_at i A (upd ! i)" "lv \<le> ZSKIPLIST_MAXLEVEL"
  shows "\<exists>zsl' upd'. raise_level zsl lv upd = Some (zsl', upd') \<and> zsl_ok zsl' (A @ B) \<and> zlevel zsl' = max lv (zlevel zsl) \<and> length upd' = zlevel zsl' \<and>
    (\<forall>i < zlevel zsl'. last_at i A (upd' ! i)) \<and> arr_get upd' 0 = arr_get upd 0"
proof (cases "lv > zlevel zsl")
  case False
  then show ?thesis using assms by (intro exI [of _ zsl] exI [of _ upd]) (simp add: raise_level_def max_def)
next
  case True
  let ?ns = "A @ B" and ?z = "zlevel zsl" and ?g = "\<lambda>p i l. if p = header zsl then l\<lparr>span := word_of_nat (zlength zsl)\<rparr> else l"
  have z: "?ns \<noteq> []" "ea (hd ?ns) = header zsl" "eh (hd ?ns) = ZSKIPLIST_MAXLEVEL" "1 \<le> ?z" "\<forall>e \<in> set (tl ?ns). 1 \<le> eh e \<and> eh e \<le> ?z" "distinct (map ea ?ns)"
    "zlength zsl = length ?ns - 1" "list_ok ?z (heap zsl) ?ns"
    using assms(1) unfolding zsl_ok_def by blast+
  obtain n where n: "heap zsl (header zsl) = Some n" "length (levels n) = ZSKIPLIST_MAXLEVEL"
    using list_okD [of ?z "heap zsl" "[]" "hd ?ns" "tl ?ns"] z(1-3,8) by (auto simp: node_ok_def)
  have loop: "for_each (\<lambda>i h. modify_level h (header zsl) i (\<lambda>l. l\<lparr>span := word_of_nat (zlength zsl)\<rparr>)) [?z..<lv] (heap zsl) = Some (relevel ?z lv ?g (heap zsl))"
  proof (rule for_each_relevel)
    fix i assume i: "?z \<le> i" "i < lv"
    then have "level_at (heap zsl) (header zsl) i = Some (levels n ! i)" using n assms(5) by (simp add: level_at_def)
    then show "modify_level (relevel ?z i ?g (heap zsl)) (header zsl) i (\<lambda>l. l\<lparr>span := word_of_nat (zlength zsl)\<rparr>) = Some (relevel ?z (Suc i) ?g (heap zsl))"
      by (rule modify_relevel) (use i in auto)
  qed (use True in simp)
  have ok: "list_ok lv (relevel ?z lv ?g (heap zsl)) ?ns"
    unfolding list_ok_split
  proof (intro allI impI conjI)
    fix pre e suf assume ns: "?ns = pre @ e # suf"
    have old: "node_lv ?z (heap zsl) e suf" "node_val (heap zsl) pre e" using z(8) ns unfolding list_ok_split by blast+
    show "node_val (relevel ?z lv ?g (heap zsl)) pre e" using old(2) by simp
    consider "pre = []" "e = hd ?ns" "suf = tl ?ns" | "pre \<noteq> []" "e \<in> set (tl ?ns)" using hd_split [OF z(1) ns] by blast
    then show "node_lv lv (relevel ?z lv ?g (heap zsl)) e suf"
    proof cases
      case 1
      have none: "?z \<le> i \<Longrightarrow> fwd i suf = None \<and> spn i suf = zlength zsl" for i
        using fwd_None [of suf i] z(5,7) 1(3) by fastforce
      show ?thesis by (rule node_lv_relevel [OF old(1)]) (use 1 z(2) none True in \<open>auto simp: not_less split: if_splits\<close>)
    next
      case 2
      then have "eh e \<le> ?z" "ea e \<noteq> header zsl" using z(5) header_unique [OF assms(1)] by auto
      then show ?thesis by (intro node_lv_relevel [OF old(1)]) (use True in auto)
    qed
  qed
  have new: "last_at i A (header zsl, 0)" if "?z \<le> i" "i < lv" for i
  proof -
    have "eh e \<le> zlevel zsl" if "e \<in> set (tl A)" for e using z(5) assms(2) that by (simp add: tl_append2)
    then have "\<forall>e \<in> set (tl A). eh e \<le> i" using \<open>zlevel zsl \<le> i\<close> le_trans by blast
    then show ?thesis using last_at_header [OF assms(2), of i] z(2,3) assms(2,5) that by simp
  qed
  let ?upd = "upd @ replicate (lv - ?z) (header zsl, 0)"
  have "\<forall>i < lv. last_at i A (?upd ! i)" using assms(3,4) new by (auto simp: nth_append)
  moreover have "arr_get ?upd 0 = arr_get upd 0" using assms(3) z(4) by (auto simp: arr_get_def nth_append)
  moreover have "zsl_ok (zsl\<lparr>heap := relevel ?z lv ?g (heap zsl), zlevel := lv\<rparr>) ?ns"
    using assms(1,5) True ok unfolding zsl_ok_def by auto
  ultimately show ?thesis
    using True assms(3) loop by (auto simp: raise_level_def max_def)
qed

text \<open>The levels below \<open>lv\<close> are linked, the others get a longer span.\<close>

definition linked :: "addr \<Rightarrow> nat \<Rightarrow> (addr \<times> nat) list \<Rightarrow> 's ent list \<Rightarrow> 's ent list \<Rightarrow> addr \<Rightarrow> nat \<Rightarrow> zskiplistLevel \<Rightarrow> zskiplistLevel" where
  "linked x lv upd A B p i l =
     (if p = x then \<lparr>forward = fwd i B, span = word_of_nat (spn i B)\<rparr>
      else if p = fst (upd ! i) then \<lparr>forward = Some x, span = word_of_nat (length A - 1 - snd (upd ! i)) + 1\<rparr>
      else l)"

definition bumped :: "(addr \<times> nat) list \<Rightarrow> addr \<Rightarrow> nat \<Rightarrow> zskiplistLevel \<Rightarrow> zskiplistLevel" where
  "bumped upd p i l = (if p = fst (upd ! i) then l\<lparr>span := span l + 1\<rparr> else l)"

lemma last_at_split:
  assumes "last_at i A v"
  obtains A1 u A2 where "A = A1 @ u # A2" "v = (ea u, length A1)" "i < eh u" "\<forall>e \<in> set A2. eh e \<le> i"
  using assms by (auto simp: last_at_def)

lemma link_levels:
  assumes "list_ok lv1 h (A @ B)" "h x = Some n" "length (levels n) = lv" "lv \<le> lv1" "length upd = lv1" "\<forall>i < lv1. last_at i A (upd ! i)"
    "arr_get upd 0 = Some (ea (last A), length A - 1)" "x \<notin> ea ` set (A @ B)"
  shows "for_each (link_level x upd) [0..<lv] h = Some (relevel 0 lv (linked x lv upd A B) h)"
proof (rule for_each_relevel)
  fix i assume i: "i < lv"
  have "last_at i A (upd ! i)" using assms(4,6) i by simp
  then obtain A1 u A2 where A: "A = A1 @ u # A2" "upd ! i = (ea u, length A1)" "i < eh u" "\<forall>e \<in> set A2. eh e \<le> i"
    by (rule last_at_split)
  have lu: "level_at h (ea u) i = Some \<lparr>forward = fwd i B, span = word_of_nat (length A2 + spn i B)\<rparr>"
    using level_at_ok [of lv1 h A1 u "A2 @ B" i] assms(1,4) i A fwd_skip [OF A(4)] spn_skip [OF A(4)] by simp
  have lx: "level_at h x i = Some (levels n ! i)" using assms(2,3) i by (simp add: level_at_def)
  have d: "word_of_nat (length A - 1) - word_of_nat (length A1) = (word_of_nat (length A2) :: 32 word)" using A(1) by simp
  have "x \<noteq> ea u" using assms(8) A(1) by auto
  then have "Option.bind (modify_level (relevel 0 i (linked x lv upd A B) h) x i (\<lambda>lx. lx\<lparr>forward := fwd i B, span := word_of_nat (length A2 + spn i B) - word_of_nat (length A2)\<rparr>))
      (\<lambda>h. modify_level h (ea u) i (\<lambda>lu. lu\<lparr>forward := Some x, span := word_of_nat (length A2) + 1\<rparr>)) = Some (relevel 0 (Suc i) (linked x lv upd A B) h)"
    using A(1,2) by (intro modify_relevel2 [OF lx lu]) (auto simp: linked_def)
  moreover have "level_at (relevel 0 i (linked x lv upd A B) h) (ea u) i = Some \<lparr>forward = fwd i B, span = word_of_nat (length A2 + spn i B)\<rparr>"
    using lu by (simp add: level_at_relevel)
  ultimately show "link_level x upd i (relevel 0 i (linked x lv upd A B) h) = Some (relevel 0 (Suc i) (linked x lv upd A B) h)"
    using assms(4,5,7) i A(2) unfolding link_level_def by (simp add: d [unfolded One_nat_def] Let_def)
qed simp

lemma bump_levels:
  assumes "lv \<le> lv1" "length upd = lv1" "\<And>i. lv \<le> i \<Longrightarrow> i < lv1 \<Longrightarrow> level_at h (fst (upd ! i)) i \<noteq> None"
  shows "for_each (bump_span upd) [lv..<lv1] h = Some (relevel lv lv1 (bumped upd) h)"
proof (rule for_each_relevel)
  fix i assume i: "lv \<le> i" "i < lv1"
  then obtain l where l: "level_at h (fst (upd ! i)) i = Some l" using assms(3) by blast
  have "modify_level (relevel lv i (bumped upd) h) (fst (upd ! i)) i (\<lambda>l. l\<lparr>span := span l + 1\<rparr>) = Some (relevel lv (Suc i) (bumped upd) h)"
    using i by (intro modify_relevel [OF l]) (auto simp: bumped_def)
  then show "bump_span upd i (relevel lv i (bumped upd) h) = Some (relevel lv (Suc i) (bumped upd) h)"
    using i assms(2) by (simp add: bump_span_def case_prod_beta)
qed (use assms in simp)

text \<open>An entry of \<open>A\<close> is the last one on level \<open>i\<close> exactly if no later entry of \<open>A\<close> has the level.\<close>

lemma last_at_iff:
  assumes "last_at i A v" "distinct (map ea A)" "A = A1 @ u # A2" "i < eh u"
  shows "fst v = ea u \<longleftrightarrow> (\<forall>e \<in> set A2. eh e \<le> i)" "fst v = ea u \<Longrightarrow> snd v = length A1"
proof -
  obtain B1 w B2 where w: "A = B1 @ w # B2" "v = (ea w, length B1)" "i < eh w" "\<forall>e \<in> set B2. eh e \<le> i" using assms(1) by (rule last_at_split)
  have eq: "B1 = A1 \<and> w = u \<and> B2 = A2" if "ea w = ea u"
  proof -
    have d: "distinct A" "inj_on ea (set A)" using assms(2) by (simp_all add: distinct_map)
    have "w \<in> set A" unfolding w(1) by simp
    moreover have "u \<in> set A" unfolding assms(3) by simp
    ultimately have "w = u" using inj_onD [OF d(2) that] by blast
    moreover have "B1 @ w # B2 = A1 @ u # A2" using w(1) assms(3) by simp
    moreover have "u \<notin> set A1" "u \<notin> set A2" using d(1) unfolding assms(3) by auto
    ultimately show ?thesis using append_Cons_eq_iff [of u A1 A2 B1 B2] by auto
  qed
  show "fst v = ea u \<Longrightarrow> snd v = length A1" using eq w(2) by auto
  show "fst v = ea u \<longleftrightarrow> (\<forall>e \<in> set A2. eh e \<le> i)"
  proof
    assume "fst v = ea u"
    then show "\<forall>e \<in> set A2. eh e \<le> i" using eq w by auto
  next
    assume none: "\<forall>e \<in> set A2. eh e \<le> i"
    have "B1 @ w # B2 = A1 @ u # A2" using w(1) assms(3) by simp
    then obtain us where "B1 = A1 @ us \<and> us @ w # B2 = u # A2 \<or> B1 @ us = A1 \<and> w # B2 = us @ u # A2" by (auto simp: append_eq_append_conv2)
    then have "w = u \<or> w \<in> set A2 \<or> u \<in> set B2" by (cases us) auto
    then show "fst v = ea u" using none w assms(4) by (auto simp: not_less)
  qed
qed

lemma linked_lv:
  fixes x :: "'s ent"
  assumes "list_ok lv1 h (A @ B)" "distinct (map ea (A @ x # B))" "h (ea x) = Some n" "length (levels n) = eh x" "eh x \<le> lv1"
    "\<forall>i < lv1. last_at i A (upd ! i)" "\<forall>e \<in> set (tl (A @ B)). eh e \<le> lv1" "A \<noteq> []" "A @ x # B = pre @ e # suf"
  shows "node_lv lv1 (relevel (eh x) lv1 (bumped upd) (relevel 0 (eh x) (linked (ea x) (eh x) upd A B) h)) e suf"
proof -
  let ?h1 = "relevel 0 (eh x) (linked (ea x) (eh x) upd A B) h"
  have dA: "distinct (map ea A)" using assms(2) by simp
  have up: "fst (upd ! i) \<in> ea ` set A" if "i < lv1" for i
    using assms(6) that by (fastforce elim: last_at_split)
  consider (A) A2 where "A = pre @ e # A2" "suf = A2 @ x # B" | (x) "pre = A" "e = x" "suf = B" | (B) B1 where "B = B1 @ e # suf" "pre = A @ x # B1"
    using assms(9) by (auto simp: append_eq_append_conv2 append_eq_Cons_conv Cons_eq_append_conv)
  then show ?thesis
  proof cases
    case A
    have old: "node_lv lv1 h e (A2 @ B)" using assms(1) A(1) unfolding list_ok_split by auto
    have ne: "ea e \<noteq> ea x" using assms(2) A(1) by auto
    define new where "new i l = (if i < eh x then linked (ea x) (eh x) upd A B (ea e) i l else if i < lv1 then bumped upd (ea e) i l else l)" for i l
    have lev: "i < lv1 \<Longrightarrow> i < eh e \<Longrightarrow> new i \<lparr>forward = fwd i (A2 @ B), span = word_of_nat (spn i (A2 @ B))\<rparr> = \<lparr>forward = fwd i suf, span = word_of_nat (spn i suf)\<rparr>" for i
    proof -
      assume i: "i < lv1" "i < eh e"
      note last = last_at_iff [OF assms(6) [rule_format, OF i(1)] dA A(1) i(2)]
      show ?thesis
      proof (cases "\<forall>e \<in> set A2. eh e \<le> i")
        case True
        then have "fst (upd ! i) = ea e" "snd (upd ! i) = length pre" using last by auto
        moreover have "length A - 1 - length pre = length A2" using A(1) by simp
        ultimately show ?thesis using ne i(1) fwd_skip [OF True] spn_skip [OF True] A(2)
          by (auto simp: new_def linked_def bumped_def)
      next
        case False
        then have hit: "\<exists>e \<in> set A2. i < eh e" by (auto simp: not_le)
        have "fst (upd ! i) \<noteq> ea e" using last(1) False by blast
        then show ?thesis using ne A(2) fwd_hit [OF hit] spn_hit [OF hit] by (simp add: new_def linked_def bumped_def)
      qed
    qed
    obtain m where m: "h (ea e) = Some m" "length (levels m) = eh e"
      "\<forall>i < eh e. if i < lv1 then levels m ! i = \<lparr>forward = fwd i (A2 @ B), span = word_of_nat (spn i (A2 @ B))\<rparr> else forward (levels m ! i) = None"
      using old by (auto simp: node_lv_def)
    let ?m = "m\<lparr>levels := map (\<lambda>i. new i (levels m ! i)) [0..<eh e]\<rparr>"
    have "relevel (eh x) lv1 (bumped upd) ?h1 (ea e) = Some ?m"
      using m(1,2) assms(5) by (auto simp: relevel_def new_def intro!: map_cong)
    moreover have "\<forall>i < eh e. if i < lv1 then levels ?m ! i = \<lparr>forward = fwd i suf, span = word_of_nat (spn i suf)\<rparr> else forward (levels ?m ! i) = None"
    proof (intro allI impI)
      fix i assume i: "i < eh e"
      then have "levels ?m ! i = new i (levels m ! i)" by simp
      moreover have "\<not> i < lv1 \<Longrightarrow> new i (levels m ! i) = levels m ! i" using assms(5) by (simp add: new_def)
      ultimately show "if i < lv1 then levels ?m ! i = \<lparr>forward = fwd i suf, span = word_of_nat (spn i suf)\<rparr> else forward (levels ?m ! i) = None"
        using m(3) lev [of i] i by simp
    qed
    ultimately show ?thesis unfolding node_lv_def by (intro exI [of _ ?m]) simp
  next
    case x
    have "ea x \<noteq> fst (upd ! i)" if "i < lv1" for i using up [OF that] assms(2) by auto
    then show ?thesis using assms(3-5) x(2,3) by (auto simp: node_lv_def relevel_def linked_def bumped_def)
  next
    case B
    have old: "node_lv lv1 h e suf" using assms(1) B(1) unfolding list_ok_split by (metis append_assoc)
    have "ea e \<noteq> fst (upd ! i)" if "i < lv1" for i using up [OF that] assms(2) B(1) by auto
    moreover have "ea e \<noteq> ea x" using assms(2) B(1) by auto
    ultimately have "node_lv lv1 ?h1 e suf" using assms(5) by (intro node_lv_relevel [OF old]) (auto simp: linked_def)
    then show ?thesis by (rule node_lv_relevel) (use \<open>\<And>i. i < lv1 \<Longrightarrow> ea e \<noteq> fst (upd ! i)\<close> in \<open>auto simp: bumped_def\<close>)
  qed
qed

lemma split3:
  assumes "A @ x # B = pre @ e # suf"
  obtains (A) A2 where "A = pre @ e # A2" "suf = A2 @ x # B" | (x) "pre = A" "e = x" "suf = B" | (B) B1 where "B = B1 @ e # suf" "pre = A @ x # B1"
  using assms by (auto simp: append_eq_append_conv2 append_eq_Cons_conv Cons_eq_append_conv)

lemma fwd0: "\<forall>e \<in> set B. 1 \<le> eh e \<Longrightarrow> fwd 0 B = (case B of [] \<Rightarrow> None | y # _ \<Rightarrow> Some (ea y))"
  by (cases B) auto

lemma node_val_pre: "node_val h pre e \<Longrightarrow> (pre' = [] \<longleftrightarrow> pre = []) \<Longrightarrow> (length pre' \<le> 1 \<longleftrightarrow> length pre \<le> 1) \<Longrightarrow> (1 < length pre \<Longrightarrow> ea (last pre') = ea (last pre)) \<Longrightarrow> node_val h pre' e"
  by (auto simp: node_val_def)

text \<open>The back pointers after an insertion: of the new node and of the node behind it.\<close>

lemma insert_backward:
  fixes x :: "'s ent"
  assumes "\<And>pre e suf. A @ B = pre @ e # suf \<Longrightarrow> node_val h pre e" "distinct (map ea (A @ x # B))" "A \<noteq> []"
    "h (ea x) = Some n" "zn_obj n = Some (eo x)" "zn_score n = es x" "\<And>e suf pre. A @ x # B = pre @ e # suf \<Longrightarrow> node_lv lv h e suf" "\<forall>e \<in> set B. 1 \<le> eh e"
  shows "\<exists>h'. do { h \<leftarrow> set_backward h (ea x) (if length A \<le> 1 then None else Some (ea (last A)));
      case fwd 0 B of None \<Rightarrow> Some h | Some y \<Rightarrow> set_backward h y (Some (ea x)) } = Some h' \<and> dom h' = dom h \<and> list_ok lv h' (A @ x # B)"
proof -
  obtain h1 where h1: "set_backward h (ea x) (if length A \<le> 1 then None else Some (ea (last A))) = Some h1" "dom h1 = dom h" "\<And>lv e suf. node_lv lv h1 e suf = node_lv lv h e suf"
    "\<And>pre e. ea e \<noteq> ea x \<Longrightarrow> node_val h1 pre e = node_val h pre e" "h1 = h(ea x \<mapsto> n\<lparr>backward := if length A \<le> 1 then None else Some (ea (last A))\<rparr>)"
    using set_backward_ok [of h "ea x" n "if length A \<le> 1 then None else Some (ea (last A))", OF assms(4)] by blast
  have vx: "node_val h1 A x" using assms(3,5,6) by (auto simp: h1(5) node_val_def)
  show ?thesis
  proof (cases B)
    case Nil
    have "list_ok lv h1 (A @ x # B)" unfolding list_ok_split
    proof (intro allI impI conjI)
      fix pre e suf assume s: "A @ x # B = pre @ e # suf"
      show "node_lv lv h1 e suf" using assms(7) [OF s] h1(3) by blast
      show "node_val h1 pre e" using s
      proof (cases rule: split3)
        case (A A2)
        then have "ea e \<noteq> ea x" using assms(2) by auto
        then show ?thesis using h1(4) assms(1) [of pre e "A2 @ B"] A(1) by simp
      qed (use vx Nil in auto)
    qed
    then show ?thesis using h1(1,2) Nil by simp
  next
    case (Cons y B')
    have yx: "ea y \<noteq> ea x" using assms(2) Cons by auto
    obtain m where m: "h1 (ea y) = Some m" using assms(1) [of A y B'] Cons h1(4) [OF yx] by (auto simp: node_val_def)
    obtain h2 where h2: "set_backward h1 (ea y) (Some (ea x)) = Some h2" "dom h2 = dom h1" "\<And>lv e suf. node_lv lv h2 e suf = node_lv lv h1 e suf"
      "\<And>pre e. ea e \<noteq> ea y \<Longrightarrow> node_val h2 pre e = node_val h1 pre e"
      "\<And>pre e pre'. ea e = ea y \<Longrightarrow> node_val h1 pre e \<Longrightarrow> (pre' = [] \<longleftrightarrow> pre = []) \<Longrightarrow> Some (ea x) = (if length pre' \<le> 1 then None else Some (ea (last pre'))) \<Longrightarrow> node_val h2 pre' e"
      using set_backward_ok [of h1 "ea y" m "Some (ea x)", OF m] by blast
    have "list_ok lv h2 (A @ x # B)" unfolding list_ok_split
    proof (intro allI impI conjI)
      fix pre e suf assume s: "A @ x # B = pre @ e # suf"
      show "node_lv lv h2 e suf" using assms(7) [OF s] h1(3) h2(3) by blast
      show "node_val h2 pre e" using s
      proof (cases rule: split3)
        case (A A2)
        then have "ea e \<noteq> ea x" "ea e \<noteq> ea y" using assms(2) Cons by auto
        then show ?thesis using h1(4) h2(4) assms(1) [of pre e "A2 @ B"] A(1) by simp
      next
        case x
        then show ?thesis using vx h2(4) [of x A] yx by simp
      next
        case (B B1)
        have ne: "ea e \<noteq> ea x" using assms(2) B(1) by auto
        have v: "node_val h1 (A @ B1) e" using h1(4) [OF ne] assms(1) [of "A @ B1" e suf] B(1) by simp
        show ?thesis
        proof (cases B1)
          case Nil
          then have "e = y" using B(1) Cons by simp
          then show ?thesis using h2(5) [of e "A @ B1" pre] v B(2) Nil assms(3) by simp
        next
          case c: (Cons b Bs)
          then have "ea e \<noteq> ea y" using assms(2) B(1) Cons by auto
          moreover have "node_val h1 pre e" using v by (rule node_val_pre) (use c B(2) assms(3) in \<open>auto simp: neq_Nil_conv\<close>)
          ultimately show ?thesis using h2(4) by simp
        qed
      qed
    qed
    then show ?thesis using h1(1,2) h2(1,2) Cons assms(8) by simp
  qed
qed

lemma random_level_ge: "random_level rs k = Some lv \<Longrightarrow> k \<le> lv"
  by (induction rs arbitrary: k) (fastforce split: if_splits)+

lemma zslRandomLevel_bounds: "zslRandomLevel rs = Some lv \<Longrightarrow> 1 \<le> lv \<and> lv \<le> ZSKIPLIST_MAXLEVEL"
  using random_level_ge [of rs 1] by (auto simp: zslRandomLevel_def ZSKIPLIST_MAXLEVEL_def split: bind_splits if_splits)

lemma node_lv_level_at: "node_lv lv h e suf \<Longrightarrow> i < eh e \<Longrightarrow> i < lv \<Longrightarrow> level_at h (ea e) i = Some \<lparr>forward = fwd i suf, span = word_of_nat (spn i suf)\<rparr>"
  by (auto simp: node_lv_def level_at_def)

lemma zslInsert_exact:
  assumes "zsl_ok zsl (A @ B)" "A \<noteq> []" "cut_at (before_key score ob) (heap zsl) A B" "length (A @ B) < 2 ^ 32" "zslRandomLevel rs = Some lv"
  shows "\<exists>zsl' x. zslInsert zsl score ob rs = Some (zsl', x) \<and> zsl_ok zsl' (A @ \<lparr>ea = x, eh = lv, es = score, eo = ob\<rparr> # B)"
proof -
  obtain upd0 where upd0: "descend (before_key score ob) (heap zsl) (zlevel zsl) (header zsl) 0 [] = Some upd0" "length upd0 = zlevel zsl"
    "\<forall>i < zlevel zsl. last_at i A (upd0 ! i)" "arr_get upd0 0 = Some (ea (last A), length A - 1)"
    using search_exact [OF assms(1-3)] assms(4) by auto
  note lv = zslRandomLevel_bounds [OF assms(5)]
  obtain z upd where z: "raise_level zsl lv upd0 = Some (z, upd)" "zsl_ok z (A @ B)" "zlevel z = max lv (zlevel zsl)" "length upd = zlevel z"
    "\<forall>i < zlevel z. last_at i A (upd ! i)" "arr_get upd 0 = Some (ea (last A), length A - 1)"
    using raise_level_exact [OF assms(1,2) upd0(2,3)] lv upd0(4) by metis
  have zo: "ea (hd (A @ B)) = header z" "eh (hd (A @ B)) = ZSKIPLIST_MAXLEVEL" "1 \<le> zlevel z" "zlevel z \<le> ZSKIPLIST_MAXLEVEL"
    "\<forall>e \<in> set (tl (A @ B)). 1 \<le> eh e \<and> eh e \<le> zlevel z" "distinct (map ea (A @ B))" "dom (heap z) = ea ` set (A @ B)" "\<forall>a \<in> dom (heap z). a < brk z"
    "zlength z = length (A @ B) - 1" "tail z = (if length (A @ B) = 1 then None else Some (ea (last (A @ B))))" "list_ok (zlevel z) (heap z) (A @ B)"
    using z(2) unfolding zsl_ok_def by blast+
  define x :: "'a ent" where "x = \<lparr>ea = brk z, eh = lv, es = score, eo = ob\<rparr>"
  define n where "n = \<lparr>zn_obj = Some ob, zn_score = score, backward = None, levels = replicate lv \<lparr>forward = None, span = 0\<rparr>\<rparr>"
  define h1 where "h1 = (heap z)(ea x \<mapsto> n)"
  have fresh: "ea x \<notin> ea ` set (A @ B)" using zo(7,8) by (auto simp: x_def)
  then have dist: "distinct (map ea (A @ x # B))" using zo(6) by auto
  have lvz: "eh x \<le> zlevel z" using z(3) by (simp add: x_def)
  have ok1: "list_ok (zlevel z) h1 (A @ B)" unfolding list_ok_split
  proof (intro allI impI)
    fix pre e suf assume s: "A @ B = pre @ e # suf"
    then have "e \<in> set (A @ B)" by simp
    then have "ea x \<noteq> ea e" using fresh by auto
    then show "node_lv (zlevel z) h1 e suf \<and> node_val h1 pre e" using zo(11) s unfolding list_ok_split h1_def by simp
  qed
  have x1: "h1 (ea x) = Some n" "length (levels n) = eh x" by (simp_all add: h1_def n_def x_def)
  define h2 where "h2 = relevel 0 (eh x) (linked (ea x) (eh x) upd A B) h1"
  define h3 where "h3 = relevel (eh x) (zlevel z) (bumped upd) h2"
  have link: "for_each (link_level (ea x) upd) [0..<eh x] h1 = Some h2"
    unfolding h2_def by (rule link_levels [OF ok1 x1 lvz z(4,5,6) fresh])
  have bump: "for_each (bump_span upd) [eh x..<zlevel z] h2 = Some h3" unfolding h3_def
  proof (rule bump_levels [OF lvz z(4)])
    fix i assume "eh x \<le> i" "i < zlevel z"
    then obtain A1 u A2 where "A = A1 @ u # A2" "upd ! i = (ea u, length A1)" "i < eh u" using z(5) by (metis last_at_split)
    then show "level_at h2 (fst (upd ! i)) i \<noteq> None" using level_at_ok [of "zlevel z" h1 A1 u "A2 @ B" i] ok1 \<open>i < zlevel z\<close> by (simp add: h2_def level_at_relevel)
  qed
  have lv3: "node_lv (zlevel z) h3 e suf" if "A @ x # B = pre @ e # suf" for pre e suf
    unfolding h3_def h2_def by (rule linked_lv [OF ok1 dist x1 lvz z(5) _ assms(2) that]) (use zo(5) in auto)
  have val3: "node_val h3 pre e" if "A @ B = pre @ e # suf" for pre e suf
    using ok1 that unfolding list_ok_split by (simp add: h3_def h2_def)
  obtain n3 where n3: "h3 (ea x) = Some n3" "zn_obj n3 = Some (eo x)" "zn_score n3 = es x"
    using x1(1) by (auto simp: h3_def h2_def relevel_def n_def x_def)
  have posB: "\<forall>e \<in> set B. 1 \<le> eh e" using zo(5) assms(2) by (auto simp: tl_append2)
  have "\<exists>h'. do { h \<leftarrow> set_backward h3 (ea x) (if length A \<le> 1 then None else Some (ea (last A)));
      case fwd 0 B of None \<Rightarrow> Some h | Some y \<Rightarrow> set_backward h y (Some (ea x)) } = Some h' \<and> dom h' = dom h3 \<and> list_ok (zlevel z) h' (A @ x # B)"
    using insert_backward [where A = A and B = B and h = h3 and x = x and n = n3 and lv = "zlevel z"] val3 dist assms(2) n3 lv3 posB by blast
  then obtain h3' h4 where h3': "set_backward h3 (ea x) (if length A \<le> 1 then None else Some (ea (last A))) = Some h3'"
    and h4: "(case fwd 0 B of None \<Rightarrow> Some h3' | Some y \<Rightarrow> set_backward h3' y (Some (ea x))) = Some h4" "dom h4 = dom h3" "list_ok (zlevel z) h4 (A @ x # B)"
    by (auto split: bind_splits)
  have l: "level_at h3' (ea x) 0 = Some \<lparr>forward = fwd 0 B, span = word_of_nat (spn 0 B)\<rparr>"
    using node_lv_level_at [OF lv3 [OF refl], of 0] lv zo(3) h3' n3(1) by (auto simp: set_backward_def level_at_def x_def)
  have hdr: "(ea (last A) = header z) \<longleftrightarrow> length A \<le> 1"
    using header_unique [OF z(2), of "last A"] zo(1) assms(2) by (cases A) (auto simp: le_Suc_eq)
  let ?z = "z\<lparr>heap := h4, brk := brk z + 1, tail := (if B = [] then Some (ea x) else tail z), zlength := zlength z + 1\<rparr>"
  have "zslInsert zsl score ob rs = Some (?z, ea x)"
  proof -
    have c: "zslCreateNode z lv score (Some ob) = (z\<lparr>heap := h1, brk := brk z + 1\<rparr>, ea x)" by (simp add: zslCreateNode_def h1_def n_def x_def)
    have ehx: "eh x = lv" by (simp add: x_def)
    have sel: "heap (z\<lparr>heap := h1, brk := brk z + 1\<rparr>) = h1" "zlevel (z\<lparr>heap := h1, brk := brk z + 1\<rparr>) = zlevel z" "header (z\<lparr>heap := h1, brk := brk z + 1\<rparr>) = header z"
      by simp_all
    have run: "zslInsert zsl score ob rs = Option.bind (case fwd 0 B of
         Some y \<Rightarrow> do { h \<leftarrow> set_backward h3' y (Some (ea x)); Some (z\<lparr>heap := h1, brk := brk z + 1, heap := h\<rparr>) }
       | None \<Rightarrow> Some (z\<lparr>heap := h1, brk := brk z + 1, heap := h3', tail := Some (ea x)\<rparr>)) (\<lambda>zsl. Some (zsl\<lparr>zlength := zlength zsl + 1\<rparr>, ea x))"
      unfolding zslInsert_def by (simp only: upd0(1) assms(5) z(1) Option.bind.bind_lunit prod.case Let_def c sel link [unfolded ehx] bump [unfolded ehx]
        z(6) hdr h3' l zskiplistLevel.simps)
    show ?thesis
    proof (cases B)
      case Nil
      then show ?thesis using h4(1) unfolding run by simp
    next
      case (Cons y ys)
      then have "fwd 0 B = Some (ea y)" using fwd0 [OF posB] by simp
      then show ?thesis using h4(1) Cons unfolding run by simp
    qed
  qed
  moreover have "zsl_ok ?z (A @ x # B)"
  proof -
    have dom4: "dom h4 = ea ` set (A @ x # B)" using h4(2) zo(7) by (simp add: h3_def h2_def h1_def)
    have "ea e < brk z" if "e \<in> set (A @ B)" for e using zo(7,8) that by blast
    then have brk4: "\<forall>a \<in> dom h4. a < brk z + 1" unfolding dom4 by (auto simp: x_def less_Suc_eq)
    have tl: "set (tl (A @ x # B)) = insert x (set (tl (A @ B)))" using assms(2) by (auto simp: tl_append2)
    have hts: "\<forall>e \<in> set (tl (A @ x # B)). 1 \<le> eh e \<and> eh e \<le> zlevel z" unfolding tl using zo(5) lv lvz by (auto simp: x_def)
    have tail4: "(if B = [] then Some (ea x) else tail z) = (if length (A @ x # B) = 1 then None else Some (ea (last (A @ x # B))))"
      using zo(10) assms(2) by (cases B) auto
    show ?thesis unfolding zsl_ok_def
      using zo(1-4,9) dist h4(3) assms(2) dom4 brk4 hts tail4 by simp
  qed
  ultimately show ?thesis by (auto simp: x_def)
qed

end
