(* ===== verification/Skiplist_Del.thy ===== *)
theory Skiplist_Del
  imports Skiplist_Ops
begin

text \<open>
  Unlinking and freeing nodes: one node by its key, or a run of nodes behind a position, and the release of the whole list.
\<close>

section \<open>Unlinking a node\<close>

definition unlinked :: "'s ent \<Rightarrow> (addr \<times> nat) list \<Rightarrow> 's ent list \<Rightarrow> 's ent list \<Rightarrow> addr \<Rightarrow> nat \<Rightarrow> zskiplistLevel \<Rightarrow> zskiplistLevel" where
  "unlinked x upd A B p i l =
     (if p = fst (upd ! i) then
        (if i < eh x then \<lparr>forward = fwd i B, span = word_of_nat (length A - 1 - snd (upd ! i) + spn i B)\<rparr> else l\<lparr>span := span l - 1\<rparr>)
      else l)"

lemma fwd_in: "fwd i B = Some a \<Longrightarrow> a \<in> ea ` set B"
  by (induction B) (auto split: if_splits)

lemma unlink_levels:
  assumes "list_ok lv h (A @ x # B)" "distinct (map ea (A @ x # B))" "lv \<le> length upd" "\<forall>i < lv. last_at i A (upd ! i)"
  shows "for_each (unlink_level (ea x) upd) [0..<lv] h = Some (relevel 0 lv (unlinked x upd A B) h)"
proof (rule for_each_relevel)
  fix i assume i: "i < lv"
  let ?h = "relevel 0 i (unlinked x upd A B) h"
  have "last_at i A (upd ! i)" using assms(4) i by simp
  then obtain A1 u A2 where A: "A = A1 @ u # A2" "upd ! i = (ea u, length A1)" "i < eh u" "\<forall>e \<in> set A2. eh e \<le> i"
    by (rule last_at_split)
  have lu: "level_at h (ea u) i = Some \<lparr>forward = fwd i (x # B), span = word_of_nat (length A2 + spn i (x # B))\<rparr>"
    using level_at_ok [of lv h A1 u "A2 @ x # B" i] assms(1) i A fwd_skip [OF A(4), of "x # B"] spn_skip [OF A(4), of "x # B"] by simp
  have lu': "level_at ?h (ea u) i = Some \<lparr>forward = fwd i (x # B), span = word_of_nat (length A2 + spn i (x # B))\<rparr>"
    using lu by (simp add: level_at_relevel)
  have ux: "ea u \<noteq> ea x" using assms(2) A(1) by auto
  have len: "length A - 1 - length A1 = length A2" using A(1) by simp
  show "unlink_level (ea x) upd i ?h = Some (relevel 0 (Suc i) (unlinked x upd A B) h)"
  proof (cases "i < eh x")
    case True
    have lx: "level_at ?h (ea x) i = Some \<lparr>forward = fwd i B, span = word_of_nat (spn i B)\<rparr>"
      using level_at_ok [OF assms(1) True i] by (simp add: level_at_relevel)
    have "modify_level ?h (ea u) i (\<lambda>lu. lu\<lparr>span := span lu + (word_of_nat (spn i B) - 1), forward := fwd i B\<rparr>) = Some (relevel 0 (Suc i) (unlinked x upd A B) h)"
      using True A(2) len by (intro modify_relevel [OF lu]) (auto simp: unlinked_def)
    then show ?thesis using True assms(3) i A(2) lu' lx by (simp add: unlink_level_def)
  next
    case False
    then have ne: "fwd i (x # B) \<noteq> Some (ea x)" using fwd_in [of i B "ea x"] assms(2) by auto
    have "modify_level ?h (ea u) i (\<lambda>lu. lu\<lparr>span := span lu - 1\<rparr>) = Some (relevel 0 (Suc i) (unlinked x upd A B) h)"
      using False A(2) by (intro modify_relevel [OF lu]) (auto simp: unlinked_def)
    then show ?thesis using ne assms(3) i A(2) lu' by (simp add: unlink_level_def)
  qed
qed simp

lemma split2:
  assumes "A @ B = pre @ e # suf"
  obtains (A) A2 where "A = pre @ e # A2" "suf = A2 @ B" | (B) B1 where "B = B1 @ e # suf" "pre = A @ B1"
  using assms by (auto simp: append_eq_append_conv2 append_eq_Cons_conv Cons_eq_append_conv)

lemma unlinked_lv:
  assumes "list_ok lv h (A @ x # B)" "distinct (map ea (A @ x # B))" "\<forall>i < lv. last_at i A (upd ! i)" "A @ B = pre @ e # suf"
  shows "node_lv lv (relevel 0 lv (unlinked x upd A B) h) e suf"
proof -
  have dA: "distinct (map ea A)" using assms(2) by simp
  have up: "fst (upd ! i) \<in> ea ` set A" if "i < lv" for i
    using assms(3) that by (fastforce elim: last_at_split)
  show ?thesis using assms(4)
  proof (cases rule: split2)
    case (A A2)
    have "A @ x # B = pre @ e # (A2 @ x # B)" using A(1) by simp
    then have old: "node_lv lv h e (A2 @ x # B)" using assms(1) unfolding list_ok_split by blast
    have lev: "unlinked x upd A B (ea e) i \<lparr>forward = fwd i (A2 @ x # B), span = word_of_nat (spn i (A2 @ x # B))\<rparr> = \<lparr>forward = fwd i suf, span = word_of_nat (spn i suf)\<rparr>"
      if i: "i < lv" "i < eh e" for i
    proof -
      note last = last_at_iff [OF assms(3) [rule_format, OF i(1)] dA A(1) i(2)]
      show ?thesis
      proof (cases "\<forall>e \<in> set A2. eh e \<le> i")
        case True
        then have "fst (upd ! i) = ea e" "snd (upd ! i) = length pre" using last by auto
        moreover have "length A - 1 - length pre = length A2" using A(1) by simp
        ultimately show ?thesis using fwd_skip [OF True] spn_skip [OF True] A(2) by (auto simp: unlinked_def)
      next
        case False
        then have hit: "\<exists>e \<in> set A2. i < eh e" by (auto simp: not_le)
        have "fst (upd ! i) \<noteq> ea e" using last(1) False by blast
        then show ?thesis using A(2) fwd_hit [OF hit] spn_hit [OF hit] by (simp add: unlinked_def)
      qed
    qed
    show ?thesis by (rule node_lv_relevel [OF old]) (use lev in \<open>auto split: if_splits\<close>)
  next
    case (B B1)
    have "A @ x # B = (A @ x # B1) @ e # suf" using B(1) by simp
    then have old: "node_lv lv h e suf" using assms(1) unfolding list_ok_split by blast
    have "ea e \<noteq> fst (upd ! i)" if "i < lv" for i using up [OF that] assms(2) B(1) by auto
    then show ?thesis by (intro node_lv_relevel [OF old]) (auto simp: unlinked_def)
  qed
qed

lemma shrink_level_exact:
  assumes "\<And>i. i < lv \<Longrightarrow> \<exists>l. level_at h p i = Some l \<and> forward l = fwd i T" "1 \<le> lv"
  shows "\<exists>lv'. shrink_level h p lv = Some lv' \<and> 1 \<le> lv' \<and> lv' \<le> lv \<and> (\<forall>i. lv' \<le> i \<longrightarrow> i < lv \<longrightarrow> fwd i T = None)"
  using assms
proof (induction lv)
  case (Suc lv)
  obtain l where l: "level_at h p lv = Some l" "forward l = fwd lv T" using Suc.prems(1) by blast
  show ?case
  proof (cases "1 \<le> lv \<and> fwd lv T = None")
    case True
    then obtain lv' where "shrink_level h p lv = Some lv'" "1 \<le> lv'" "lv' \<le> lv" "\<forall>i. lv' \<le> i \<longrightarrow> i < lv \<longrightarrow> fwd i T = None"
      using Suc.IH Suc.prems(1) by auto
    then show ?thesis using True l by (auto simp: less_Suc_eq)
  next
    case False
    then show ?thesis using l by (intro exI [of _ "Suc lv"]) auto
  qed
qed simp

lemma fwd_None_iff: "fwd i T = None \<longleftrightarrow> (\<forall>e \<in> set T. eh e \<le> i)"
  by (induction T) (auto simp: not_less)

lemma node_lv_lower:
  assumes "node_lv lv h e suf" "lv' \<le> lv" "\<And>i. i < eh e \<Longrightarrow> lv' \<le> i \<Longrightarrow> i < lv \<Longrightarrow> fwd i suf = None"
  shows "node_lv lv' h e suf"
proof -
  obtain n where n: "h (ea e) = Some n" "length (levels n) = eh e"
    "\<And>i. i < eh e \<Longrightarrow> if i < lv then levels n ! i = \<lparr>forward = fwd i suf, span = word_of_nat (spn i suf)\<rparr> else forward (levels n ! i) = None"
    using assms(1) by (auto simp: node_lv_def)
  have "if i < lv' then levels n ! i = \<lparr>forward = fwd i suf, span = word_of_nat (spn i suf)\<rparr> else forward (levels n ! i) = None" if "i < eh e" for i
    using n(3) [OF that] assms(2) assms(3) [OF that] by (cases "i < lv'"; cases "i < lv") simp_all
  then show ?thesis using n(1,2) unfolding node_lv_def by blast
qed

text \<open>Fewer levels: the header has nothing on the levels that are given up.\<close>

lemma list_ok_lower:
  assumes "list_ok lv h ns" "lv' \<le> lv" "\<forall>i. lv' \<le> i \<longrightarrow> i < lv \<longrightarrow> fwd i (tl ns) = None" "\<forall>e \<in> set (tl ns). eh e \<le> lv'"
  shows "list_ok lv' h ns"
  unfolding list_ok_split
proof (intro allI impI conjI)
  fix pre e suf assume ns: "ns = pre @ e # suf"
  have old: "node_lv lv h e suf" "node_val h pre e" using assms(1) ns unfolding list_ok_split by blast+
  show "node_val h pre e" by (rule old(2))
  consider "suf = tl ns" | "eh e \<le> lv'" using hd_split [of ns pre e suf] ns assms(4) by auto
  then have "fwd i suf = None" if "i < eh e" "lv' \<le> i" "i < lv" for i using assms(3) that by cases auto
  then show "node_lv lv' h e suf" by (rule node_lv_lower [OF old(1) assms(2)])
qed

text \<open>The back pointer of the node behind the removed one.\<close>

lemma delete_backward:
  fixes x :: "'s ent"
  assumes "list_ok lv h0 (A @ x # B)" "\<And>pre e. node_val h pre e = node_val h0 pre e" "distinct (map ea (A @ x # B))" "A \<noteq> []"
    "\<And>e suf pre. A @ B = pre @ e # suf \<Longrightarrow> node_lv lv h e suf"
  shows "\<exists>h' n. h (ea x) = Some n \<and> backward n = (if length A \<le> 1 then None else Some (ea (last A))) \<and>
     (case B of [] \<Rightarrow> Some h | y # _ \<Rightarrow> set_backward h (ea y) (backward n)) = Some h' \<and> dom h' = dom h \<and> list_ok lv h' (A @ B)"
proof -
  have val: "node_val h pre e" if "A @ x # B = pre @ e # suf" for pre e suf using assms(1,2) that unfolding list_ok_split by blast
  have "node_val h A x" by (rule val [OF refl])
  then obtain n where n: "h (ea x) = Some n" "backward n = (if length A \<le> 1 then None else Some (ea (last A)))" by (auto simp: node_val_def)
  have valA: "node_val h pre e" if "A = pre @ e # A2" for pre e A2 by (rule val [of pre e "A2 @ x # B"]) (simp add: that)
  show ?thesis
  proof (cases B)
    case Nil
    have "list_ok lv h (A @ B)" using assms(5) valA Nil unfolding list_ok_split by auto
    then show ?thesis using n Nil by auto
  next
    case (Cons y B')
    have vy: "node_val h (A @ [x]) y" by (rule val [of "A @ [x]" y B']) (simp add: Cons)
    then obtain m where m: "h (ea y) = Some m" by (auto simp: node_val_def)
    obtain h2 where h2: "set_backward h (ea y) (backward n) = Some h2" "dom h2 = dom h" "\<And>lv e suf. node_lv lv h2 e suf = node_lv lv h e suf"
      "\<And>pre e. ea e \<noteq> ea y \<Longrightarrow> node_val h2 pre e = node_val h pre e"
      "\<And>pre e pre'. ea e = ea y \<Longrightarrow> node_val h pre e \<Longrightarrow> (pre' = [] \<longleftrightarrow> pre = []) \<Longrightarrow> backward n = (if length pre' \<le> 1 then None else Some (ea (last pre'))) \<Longrightarrow> node_val h2 pre' e"
      using set_backward_ok [of h "ea y" m "backward n", OF m] by blast
    have "list_ok lv h2 (A @ B)" unfolding list_ok_split
    proof (intro allI impI conjI)
      fix pre e suf assume s: "A @ B = pre @ e # suf"
      show "node_lv lv h2 e suf" using assms(5) [OF s] h2(3) by blast
      show "node_val h2 pre e" using s
      proof (cases rule: split2)
        case (A A2)
        then have "ea e \<noteq> ea y" using assms(3) Cons by auto
        then show ?thesis using h2(4) valA [OF A(1)] by simp
      next
        case (B B1)
        have v: "node_val h (A @ x # B1) e" by (rule val [of "A @ x # B1" e suf]) (simp add: B(1))
        show ?thesis
        proof (cases B1)
          case Nil
          then have "e = y" using B(1) Cons by simp
          then show ?thesis using h2(5) [OF _ v, of pre] Nil B(2) n(2) assms(4) by simp
        next
          case c: (Cons b Bs)
          then have "ea e \<noteq> ea y" using assms(3) B(1) Cons by auto
          moreover have "node_val h pre e" using v by (rule node_val_pre) (use c B(2) assms(4) in \<open>auto simp: neq_Nil_conv\<close>)
          ultimately show ?thesis using h2(4) by simp
        qed
      qed
    qed
    then show ?thesis using n m h2(1,2) Cons by auto
  qed
qed

lemma zslDeleteNode_exact:
  assumes "zsl_ok zsl (A @ x # B)" "A \<noteq> []" "zlevel zsl \<le> length upd" "\<forall>i < zlevel zsl. last_at i A (upd ! i)"
  shows "\<exists>z. zslDeleteNode zsl (ea x) upd = Some z \<and> heap z (ea x) \<noteq> None \<and> zsl_ok (z\<lparr>heap := (heap z)(ea x := None)\<rparr>) (A @ B) \<and> zlevel z \<le> zlevel zsl"
proof -
  have zo: "ea (hd A) = header zsl" "eh (hd A) = ZSKIPLIST_MAXLEVEL" "1 \<le> zlevel zsl" "zlevel zsl \<le> ZSKIPLIST_MAXLEVEL"
    "\<forall>e \<in> set (tl (A @ x # B)). 1 \<le> eh e \<and> eh e \<le> zlevel zsl" "distinct (map ea (A @ x # B))" "dom (heap zsl) = ea ` set (A @ x # B)" "\<forall>a \<in> dom (heap zsl). a < brk zsl"
    "zlength zsl = length (A @ x # B) - 1" "tail zsl = (if length (A @ x # B) = 1 then None else Some (ea (last (A @ x # B))))" "list_ok (zlevel zsl) (heap zsl) (A @ x # B)"
    using assms(1,2) unfolding zsl_ok_def by auto
  let ?lv = "zlevel zsl"
  define h1 where "h1 = relevel 0 ?lv (unlinked x upd A B) (heap zsl)"
  have loop: "for_each (unlink_level (ea x) upd) [0..<?lv] (heap zsl) = Some h1"
    unfolding h1_def by (rule unlink_levels [OF zo(11,6) assms(3,4)])
  have lv1: "node_lv ?lv h1 e suf" if "A @ B = pre @ e # suf" for pre e suf
    unfolding h1_def by (rule unlinked_lv [OF zo(11,6) assms(4) that])
  have "\<exists>h' n. h1 (ea x) = Some n \<and> backward n = (if length A \<le> 1 then None else Some (ea (last A))) \<and>
     (case B of [] \<Rightarrow> Some h1 | y # _ \<Rightarrow> set_backward h1 (ea y) (backward n)) = Some h' \<and> dom h' = dom h1 \<and> list_ok ?lv h' (A @ B)"
    using delete_backward [where h = h1 and lv = ?lv, OF zo(11) _ zo(6) assms(2)] lv1 by (simp add: h1_def)
  then obtain h2 n where h2: "h1 (ea x) = Some n" "backward n = (if length A \<le> 1 then None else Some (ea (last A)))"
     "(case B of [] \<Rightarrow> Some h1 | y # _ \<Rightarrow> set_backward h1 (ea y) (backward n)) = Some h2" "dom h2 = dom h1" "list_ok ?lv h2 (A @ B)" by blast
  have x: "x \<in> set (tl (A @ x # B))" using assms(2) by (simp add: tl_append2)
  have pos: "1 \<le> eh x" "\<forall>e \<in> set B. 1 \<le> eh e" using zo(5) assms(2) by (auto simp: tl_append2)
  have l0: "arr_get (levels n) 0 = Some \<lparr>forward = fwd 0 B, span = word_of_nat (spn 0 B)\<rparr>"
  proof -
    have up: "fst (upd ! i) \<noteq> ea x" if "i < ?lv" for i
      using assms(4) that zo(6) by (fastforce elim: last_at_split)
    have "level_at h1 (ea x) 0 = level_at (heap zsl) (ea x) 0" using up [of 0] zo(3) by (cases "level_at (heap zsl) (ea x) 0") (auto simp: h1_def level_at_relevel unlinked_def)
    then show ?thesis using level_at_ok [OF zo(11), of 0] pos(1) zo(3) h2(1) by (simp add: level_at_def)
  qed
  have tlAB: "set (tl (A @ B)) \<subseteq> set (tl (A @ x # B))" using assms(2) by (auto simp: tl_append2)
  have "\<exists>l. level_at h2 (header zsl) i = Some l \<and> forward l = fwd i (tl (A @ B))" if "i < ?lv" for i
  proof -
    have "list_ok ?lv h2 ([] @ hd A # tl (A @ B))" using h2(5) assms(2) by (metis append_Nil hd_Cons_tl hd_append2 append_is_Nil_conv)
    from level_at_ok [OF this, of i] show ?thesis using that zo(1,2,4) by auto
  qed
  from shrink_level_exact [OF this zo(3)] obtain lv' where lv': "shrink_level h2 (header zsl) ?lv = Some lv'" "1 \<le> lv'" "lv' \<le> ?lv"
    "\<forall>i. lv' \<le> i \<longrightarrow> i < ?lv \<longrightarrow> fwd i (tl (A @ B)) = None" by blast
  have hts: "\<forall>e \<in> set (tl (A @ B)). 1 \<le> eh e \<and> eh e \<le> lv'"
    using lv'(3,4) zo(5) tlAB fwd_None_iff [of lv' "tl (A @ B)"] by (cases "lv' = ?lv") (auto dest!: le_neq_implies_less)
  have ok2: "list_ok lv' h2 (A @ B)" by (rule list_ok_lower [OF h2(5) lv'(3,4)]) (use hts in blast)
  let ?z = "zsl\<lparr>heap := h2, tail := (if B = [] then backward n else tail zsl), zlevel := lv', zlength := zlength zsl - 1\<rparr>"
  have run: "zslDeleteNode zsl (ea x) upd = Some ?z"
  proof (cases B)
    case Nil
    then show ?thesis using h2(1,3) lv'(1) l0 unfolding zslDeleteNode_def loop by simp
  next
    case (Cons y ys)
    then show ?thesis using h2(1,3) lv'(1) l0 fwd0 [OF pos(2)] unfolding zslDeleteNode_def loop by simp
  qed
  have ok3: "list_ok lv' (h2(ea x := None)) (A @ B)" unfolding list_ok_split
  proof (intro allI impI)
    fix pre e suf assume s: "A @ B = pre @ e # suf"
    then have "e \<in> set (A @ B)" by simp
    then have "ea x \<noteq> ea e" using zo(6) by auto
    then show "node_lv lv' (h2(ea x := None)) e suf \<and> node_val (h2(ea x := None)) pre e" using ok2 s unfolding list_ok_split by simp
  qed
  have dom: "dom h2 = ea ` set (A @ x # B)" using h2(4) zo(7) by (simp add: h1_def)
  have "zsl_ok (?z\<lparr>heap := (heap ?z)(ea x := None)\<rparr>) (A @ B)"
  proof -
    have nx: "ea x \<notin> ea ` set (A @ B)" using zo(6) by auto
    have "ea ` set (A @ x # B) = insert (ea x) (ea ` set (A @ B))" by auto
    then have d: "dom (h2(ea x := None)) = ea ` set (A @ B)" using dom nx by (simp add: Diff_insert_absorb)
    have t: "(if B = [] then backward n else tail zsl) = (if length (A @ B) = 1 then None else Some (ea (last (A @ B))))"
      using h2(2) zo(10) assms(2) by (cases B) (auto simp: le_Suc_eq)
    have b: "\<forall>a \<in> dom (h2(ea x := None)). a < brk zsl" using d zo(7,8) by auto
    show ?thesis unfolding zsl_ok_def using zo(1-4,6,9) assms(2) lv'(2,3) hts d t b ok3 by simp
  qed
  then show ?thesis using run lv'(3) dom by auto
qed

end
