(* ===== verification/Skiplist_Seq.thy ===== *)
theory Skiplist_Seq
  imports Skiplist_Del
begin

text \<open>
  What a skip list holds: the list of scores and members, in strictly increasing order of score and member bytes.  Every operation is
  described on that list: searches cut it where their condition ends.
\<close>

section \<open>The order of string objects\<close>

definition robj_ok :: "robj \<Rightarrow> bool" where
  "robj_ok ob \<longleftrightarrow> length (obj_bytes ob) < 2 ^ 31"

lemma obj_chars_bytes: "obj_chars ob = Some (obj_bytes ob)"
proof (cases ob)
  case (RInt w)
  have r: "int64_range (sint w)" by (rule sint_range)
  have l: "length (idec (sint w)) \<le> 20" using length_idec_le [OF r] .
  have "ll2string (replicate 128 0) 128 (sint w) = Some (idec (sint w) @ 0 # drop (Suc (length (idec (sint w)))) (replicate 128 0), length (idec (sint w)))"
    using ll2string_writes [OF r, of 128 "replicate 128 0"] l by simp
  then show ?thesis using RInt by (simp add: obj_chars_def obj_bytes_def mem_read_def)
qed (simp add: obj_chars_def obj_bytes_def)

lemma compareStringObjects_exact:
  assumes "robj_ok a" "robj_ok b"
  shows "\<exists>c. compareStringObjects a b = Some c \<and> (c < 0 \<longleftrightarrow> byte_less (obj_bytes a) (obj_bytes b)) \<and> (c = 0 \<longleftrightarrow> obj_bytes a = obj_bytes b)"
proof -
  let ?x = "obj_bytes a" and ?y = "obj_bytes b"
  have m: "(if length ?x < length ?y then length ?x else length ?y) = min (length ?x) (length ?y)" by simp
  have t: "to_int32 (int (length ?x) - int (length ?y)) = int (length ?x) - int (length ?y)"
    using assms by (intro to_int32_id; simp add: robj_ok_def)
  have "compareStringObjects a b = Some (let m = min (length ?x) (length ?y); c = c_memcmp (take m ?x) (take m ?y)
    in if c = 0 then int (length ?x) - int (length ?y) else c)"
    by (simp only: compareStringObjects_def obj_chars_bytes Option.bind.bind_lunit Let_def m t)
  then show ?thesis using memcmp_sign [of ?x ?y] by (metis (lifting))
qed

lemma equalStringObjects_exact: "robj_ok a \<Longrightarrow> robj_ok b \<Longrightarrow> equalStringObjects a b = Some (obj_bytes a = obj_bytes b)"
proof -
  assume ok: "robj_ok a" "robj_ok b"
  obtain c where c: "compareStringObjects a b = Some c" "c = 0 \<longleftrightarrow> obj_bytes a = obj_bytes b" using compareStringObjects_exact [OF ok] by blast
  have "obj_bytes (RInt v) = obj_bytes (RInt w) \<longleftrightarrow> v = w" for v w
    using idec_inj [OF sint_range sint_range, of v w] by (auto simp: obj_bytes_def signed_word_eqI)
  then show ?thesis using c by (cases a; cases b) (simp_all add: equalStringObjects_def)
qed

lemma byte_less_irrefl [simp]: "\<not> byte_less x x"
  by (induction x) auto

lemma byte_less_trans: "byte_less x y \<Longrightarrow> byte_less y z \<Longrightarrow> byte_less x z"
proof (induction x y arbitrary: z rule: byte_less.induct)
  case (2 y ys)
  then show ?case by (cases z) auto
next
  case (3 a x b y)
  then show ?case by (cases z) (auto intro: order_less_trans)
qed simp

lemma byte_less_total: "byte_less x y \<or> x = y \<or> byte_less y x"
  by (induction x y rule: byte_less.induct) (auto simp: neq_Nil_conv, metis byte_less.simps(2) neq_Nil_conv)

section \<open>The contents\<close>

type_synonym 's zel = "'s \<times> robj"

definition key_less :: "('s :: linorder) zel \<Rightarrow> 's zel \<Rightarrow> bool" where
  "key_less p q \<longleftrightarrow> fst p < fst q \<or> fst p = fst q \<and> byte_less (obj_bytes (snd p)) (obj_bytes (snd q))"

definition same_key :: "'s zel \<Rightarrow> 's zel \<Rightarrow> bool" where
  "same_key p q \<longleftrightarrow> fst p = fst q \<and> obj_bytes (snd p) = obj_bytes (snd q)"

lemma key_less_trans: "key_less p q \<Longrightarrow> key_less q r \<Longrightarrow> key_less p r"
  by (auto simp: key_less_def intro: byte_less_trans)

lemma key_less_irrefl [simp]: "\<not> key_less p p"
  by (simp add: key_less_def)

lemma key_less_total: "key_less p q \<or> same_key p q \<or> key_less q p"
  using byte_less_total by (auto simp: key_less_def same_key_def)

definition content :: "'s ent \<Rightarrow> 's zel" where
  "content e = (es e, eo e)"

definition member_bytes :: "'s zel list \<Rightarrow> bytes list" where
  "member_bytes xs = map (\<lambda>p. obj_bytes (snd p)) xs"

definition zset_sorted :: "('s :: linorder) zel list \<Rightarrow> bool" where
  "zset_sorted xs \<longleftrightarrow> sorted_wrt key_less xs \<and> (\<forall>p \<in> set xs. robj_ok (snd p))"

definition zsl_rep :: "('s :: linorder) zskiplist \<Rightarrow> 's ent list \<Rightarrow> 's zel list \<Rightarrow> bool" where
  "zsl_rep zsl ns xs \<longleftrightarrow> zsl_ok zsl ns \<and> map content (tl ns) = xs \<and> zset_sorted xs"

definition points :: "'s zskiplist \<Rightarrow> addr \<Rightarrow> 's zel \<Rightarrow> bool" where
  "points zsl a p \<longleftrightarrow> (\<exists>n. heap zsl a = Some n \<and> zn_score n = fst p \<and> zn_obj n = Some (snd p))"

lemma sorted_takeWhile:
  assumes "sorted_wrt R xs" "\<And>x y. R x y \<Longrightarrow> Q y \<Longrightarrow> Q x" "i < length xs"
  shows "Q (xs ! i) \<longleftrightarrow> i < length (takeWhile Q xs)"
proof
  assume q: "Q (xs ! i)"
  have "Q (xs ! j)" if "j \<le> i" for j
    using assms(2) [of "xs ! j" "xs ! i"] assms(1,3) q that by (cases "j = i") (simp_all add: sorted_wrt_iff_nth_less)
  then show "i < length (takeWhile Q xs)"
    using assms(3) by (metis le_less_linear nth_length_takeWhile order_le_less_trans)
next
  assume "i < length (takeWhile Q xs)"
  then show "Q (xs ! i)" using nth_mem takeWhile_nth set_takeWhileD by metis
qed

text \<open>A condition that holds for a first part of the contents cuts the nodes there.\<close>

lemma cut_content:
  assumes "zsl_ok zsl (e0 # ms)" "map content ms = xs" "k \<le> length xs"
    "\<And>n r. 1 \<le> r \<Longrightarrow> r \<le> length xs \<Longrightarrow> zn_score n = fst (xs ! (r - 1)) \<Longrightarrow> zn_obj n = Some (snd (xs ! (r - 1))) \<Longrightarrow> cond n r = Some (r \<le> k)"
  shows "cut_at cond (heap zsl) (e0 # take k ms) (drop k ms)"
  unfolding cut_at_def
proof (intro allI impI)
  fix pre e suf n
  assume s: "(e0 # take k ms) @ drop k ms = pre @ e # suf" "pre \<noteq> []" "heap zsl (ea e) = Some n"
  have ns: "e0 # ms = pre @ e # suf" using s(1) by simp
  then obtain pre' where pre: "pre = e0 # pre'" "ms = pre' @ e # suf" using s(2) by (cases pre) auto
  have "node_ok (zlevel zsl) (heap zsl) pre e suf" using assms(1) ns unfolding zsl_ok_def list_ok_def by blast
  then have n: "zn_score n = es e" "zn_obj n = Some (eo e)" using s(2,3) by (auto simp: node_ok_def)
  have ms: "length ms = length xs" using assms(2) by (metis length_map)
  have "length pre' < length ms" "ms ! length pre' = e" by (simp_all add: pre(2))
  then have x: "xs ! length pre' = content e" "length pre' < length xs" using assms(2) ms by (metis nth_map, simp)
  have "cond n (length pre) = Some (length pre \<le> k)" using n x by (intro assms(4)) (simp_all add: content_def pre(1))
  moreover have "length (e0 # take k ms) = Suc k" using ms assms(3) by simp
  ultimately show "cond n (length pre) = Some (length pre < length (e0 # take k ms))" by (simp only: less_Suc_eq_le)
qed

lemma zsl_repE:
  assumes "zsl_rep zsl ns xs"
  obtains e0 ms where "ns = e0 # ms" "zsl_ok zsl (e0 # ms)" "map content ms = xs" "zset_sorted xs" "length ms = length xs"
proof -
  have "ns \<noteq> []" using assms by (auto simp: zsl_rep_def zsl_ok_def)
  then have "ns = hd ns # tl ns" by simp
  then show ?thesis using assms that [of "hd ns" "tl ns"] unfolding zsl_rep_def by (metis length_map)
qed

text \<open>A search with a condition on the contents that is kept by smaller keys.\<close>

lemma search_content:
  assumes "zsl_rep zsl ns xs" "length xs < 2 ^ 32" "\<And>p q. p \<in> set xs \<Longrightarrow> q \<in> set xs \<Longrightarrow> key_less p q \<Longrightarrow> Q q \<Longrightarrow> Q p"
    "\<And>n r p. p \<in> set xs \<Longrightarrow> zn_score n = fst p \<Longrightarrow> zn_obj n = Some (snd p) \<Longrightarrow> cond n r = Some (Q p)"
  obtains e0 A' B where "ns = e0 # A' @ B" "zsl_ok zsl ((e0 # A') @ B)" "map content A' = takeWhile Q xs" "map content B = dropWhile Q xs"
    "cut_at cond (heap zsl) (e0 # A') B" "length ((e0 # A') @ B) \<le> 2 ^ 32"
proof -
  obtain e0 ms where ms: "ns = e0 # ms" "zsl_ok zsl (e0 # ms)" "map content ms = xs" "zset_sorted xs" "length ms = length xs" using assms(1) by (rule zsl_repE)
  let ?k = "length (takeWhile Q xs)"
  have "sorted_wrt (\<lambda>p q. key_less p q \<and> p \<in> set xs \<and> q \<in> set xs) xs"
    using ms(4) unfolding zset_sorted_def by (auto intro: sorted_wrt_mono_rel)
  then have tw: "Q (xs ! i) \<longleftrightarrow> i < ?k" if "i < length xs" for i
    by (rule sorted_takeWhile) (use assms(3) that in blast)+
  have "cut_at cond (heap zsl) (e0 # take ?k ms) (drop ?k ms)"
  proof (rule cut_content [OF ms(2,3)])
    show "?k \<le> length xs" by (rule length_takeWhile_le)
    fix n :: "'a zskiplistNode" and r
    assume r: "1 \<le> r" "r \<le> length xs" "zn_score n = fst (xs ! (r - 1))" "zn_obj n = Some (snd (xs ! (r - 1)))"
    then have "cond n r = Some (Q (xs ! (r - 1)))" by (intro assms(4)) auto
    then show "cond n r = Some (r \<le> ?k)" using tw [of "r - 1"] r(1,2) by auto
  qed
  moreover have "map content (take ?k ms) = takeWhile Q xs" "map content (drop ?k ms) = dropWhile Q xs"
    using ms(3) by (metis take_map takeWhile_eq_take, metis drop_map dropWhile_eq_drop)
  ultimately show ?thesis using that [of e0 "take ?k ms" "drop ?k ms"] ms assms(2) by simp
qed


section \<open>The search conditions\<close>

lemma before_key_exact:
  assumes "robj_ok (snd p)" "robj_ok ob" "zn_score n = fst p" "zn_obj n = Some (snd p)"
  shows "before_key score ob n r = Some (key_less p (score, ob))"
proof -
  obtain c where "compareStringObjects (snd p) ob = Some c" "c < 0 \<longleftrightarrow> byte_less (obj_bytes (snd p)) (obj_bytes ob)"
    using compareStringObjects_exact [OF assms(1,2)] by blast
  then show ?thesis using assms(3,4) by (auto simp: before_key_def key_less_def)
qed

lemma upto_key_exact:
  assumes "robj_ok (snd p)" "robj_ok ob" "zn_score n = fst p" "zn_obj n = Some (snd p)"
  shows "upto_key score ob n r = Some (key_less p (score, ob) \<or> same_key p (score, ob))"
proof -
  obtain c where "compareStringObjects (snd p) ob = Some c" "c < 0 \<longleftrightarrow> byte_less (obj_bytes (snd p)) (obj_bytes ob)"
    "c = 0 \<longleftrightarrow> obj_bytes (snd p) = obj_bytes ob"
    using compareStringObjects_exact [OF assms(1,2)] by blast
  then show ?thesis using assms(3,4) by (auto simp: upto_key_def key_less_def same_key_def)
qed

lemma key_less_same: "same_key p q \<Longrightarrow> key_less r p \<longleftrightarrow> key_less r q" "same_key p q \<Longrightarrow> key_less p r \<longleftrightarrow> key_less q r"
  by (auto simp: same_key_def key_less_def)

lemma zset_sortedD: "zset_sorted xs \<Longrightarrow> p \<in> set xs \<Longrightarrow> robj_ok (snd p)"
  by (simp add: zset_sorted_def)

lemma before_search:
  assumes "zsl_rep zsl ns xs" "length xs < 2 ^ 32" "robj_ok ob"
  obtains e0 A' B where "ns = e0 # A' @ B" "zsl_ok zsl ((e0 # A') @ B)" "map content A' = takeWhile (\<lambda>p. key_less p (score, ob)) xs"
    "map content B = dropWhile (\<lambda>p. key_less p (score, ob)) xs" "cut_at (before_key score ob) (heap zsl) (e0 # A') B" "length ((e0 # A') @ B) \<le> 2 ^ 32"
proof (rule search_content [OF assms(1,2), of "\<lambda>p. key_less p (score, ob)" "before_key score ob"])
  have "zset_sorted xs" using assms(1) by (simp add: zsl_rep_def)
  then show "\<And>n r p. p \<in> set xs \<Longrightarrow> zn_score n = fst p \<Longrightarrow> zn_obj n = Some (snd p) \<Longrightarrow> before_key score ob n r = Some (key_less p (score, ob))"
    by (intro before_key_exact assms(3)) (auto intro: zset_sortedD)
qed (auto intro: key_less_trans that)

section \<open>Insertion and deletion on the contents\<close>

definition zins :: "('s :: linorder) zel \<Rightarrow> 's zel list \<Rightarrow> 's zel list" where
  "zins p xs = takeWhile (\<lambda>q. key_less q p) xs @ p # dropWhile (\<lambda>q. key_less q p) xs"

definition zdel :: "'s zel \<Rightarrow> 's zel list \<Rightarrow> 's zel list" where
  "zdel p xs = filter (\<lambda>q. \<not> same_key q p) xs"

lemma set_zins [simp]: "set (zins p xs) = insert p (set xs)"
  unfolding zins_def by (metis Un_insert_right list.simps(15) set_append takeWhile_dropWhile_id)

lemma length_zins [simp]: "length (zins p xs) = Suc (length xs)"
  unfolding zins_def by (metis add_Suc_right length_Cons length_append takeWhile_dropWhile_id)

lemma sorted_dropWhile:
  assumes "sorted_wrt R xs" "\<And>x y. R x y \<Longrightarrow> Q y \<Longrightarrow> Q x" "y \<in> set (dropWhile Q xs)"
  shows "\<not> Q y"
  using assms(1,3)
proof (induction xs)
  case (Cons x xs)
  then show ?case using assms(2) [of x y] by (auto split: if_splits)
qed simp

lemma zset_sorted_zins:
  assumes "zset_sorted xs" "robj_ok (snd p)" "\<forall>q \<in> set xs. \<not> same_key q p"
  shows "zset_sorted (zins p xs)"
proof -
  let ?Q = "\<lambda>q. key_less q p"
  have s: "sorted_wrt key_less (takeWhile ?Q xs @ dropWhile ?Q xs)" using assms(1) by (simp add: zset_sorted_def)
  have "key_less p y" if "y \<in> set (dropWhile ?Q xs)" for y
  proof -
    have "\<not> ?Q y" using assms(1) that by (intro sorted_dropWhile [of key_less xs]) (auto simp: zset_sorted_def intro: key_less_trans)
    moreover have "\<not> same_key y p" using assms(3) that by (auto dest: set_dropWhileD)
    ultimately show ?thesis using key_less_total [of y p] by blast
  qed
  then have "sorted_wrt key_less (zins p xs)"
    using s [unfolded sorted_wrt_append] unfolding zins_def by (auto simp: sorted_wrt_append dest: set_takeWhileD)
  then show ?thesis using assms(1,2) by (auto simp: zset_sorted_def)
qed

lemma zslInsert_content:
  assumes "zsl_rep zsl ns xs" "Suc (length xs) < 2 ^ 32" "robj_ok ob" "\<forall>q \<in> set xs. \<not> same_key q (score, ob)" "zslRandomLevel rs = Some lv"
  shows "\<exists>zsl' x A B. zslInsert zsl score ob rs = Some (zsl', x) \<and> ns = A @ B \<and> A \<noteq> [] \<and>
    zsl_rep zsl' (A @ \<lparr>ea = x, eh = lv, es = score, eo = ob\<rparr> # B) (zins (score, ob) xs)"
proof -
  obtain e0 A' B where s: "ns = e0 # A' @ B" "zsl_ok zsl ((e0 # A') @ B)" "map content A' = takeWhile (\<lambda>p. key_less p (score, ob)) xs"
    "map content B = dropWhile (\<lambda>p. key_less p (score, ob)) xs" "cut_at (before_key score ob) (heap zsl) (e0 # A') B"
    "length ((e0 # A') @ B) \<le> 2 ^ 32"
    by (rule before_search [OF assms(1) Suc_lessD [OF assms(2)] assms(3)])
  have "length ns = Suc (length xs)" using assms(1) by (rule zsl_repE) simp
  then have l: "length ((e0 # A') @ B) < 2 ^ 32" using assms(2) s(1) by simp
  obtain zsl' x where "zslInsert zsl score ob rs = Some (zsl', x)" "zsl_ok zsl' ((e0 # A') @ \<lparr>ea = x, eh = lv, es = score, eo = ob\<rparr> # B)"
    using zslInsert_exact [OF s(2) _ s(5) l assms(5)] by auto
  moreover have "zset_sorted (zins (score, ob) xs)" using assms by (intro zset_sorted_zins) (auto simp: zsl_rep_def)
  ultimately show ?thesis using s(1,3,4)
    by (intro exI [of _ zsl'] exI [of _ x] exI [of _ "e0 # A'"] exI [of _ B]) (simp add: zsl_rep_def zins_def content_def)
qed

lemma zset_sorted_zdel: "zset_sorted xs \<Longrightarrow> zset_sorted (zdel p xs)"
  by (auto simp: zset_sorted_def zdel_def sorted_wrt_filter)

lemma zset_sorted_distinct:
  assumes "zset_sorted (as @ q # bs)" "p \<in> set as \<union> set bs"
  shows "\<not> same_key p q"
proof -
  have "key_less p q \<or> key_less q p" using assms by (auto simp: zset_sorted_def sorted_wrt_append)
  then show ?thesis by (auto simp: key_less_def same_key_def)
qed

lemma zdel_split:
  assumes "zset_sorted (as @ q # bs)" "same_key q p"
  shows "zdel p (as @ q # bs) = as @ bs"
proof -
  have "\<not> same_key r p" if "r \<in> set as \<union> set bs" for r
    using zset_sorted_distinct [OF assms(1) that] assms(2) by (simp add: same_key_def)
  then show ?thesis using assms(2) by (auto simp: zdel_def intro!: filter_True)
qed

lemma zdel_absent: "\<forall>q \<in> set xs. \<not> same_key q p \<Longrightarrow> zdel p xs = xs"
  by (auto simp: zdel_def intro!: filter_True)

lemma level0_ok:
  assumes "zsl_ok zsl (A @ B)" "A \<noteq> []"
  shows "level_at (heap zsl) (ea (last A)) 0 = Some \<lparr>forward = (case B of [] \<Rightarrow> None | y # _ \<Rightarrow> Some (ea y)), span = word_of_nat (spn 0 B)\<rparr>"
proof -
  have z: "list_ok (zlevel zsl) (heap zsl) (A @ B)" "1 \<le> zlevel zsl" "eh (hd A) = ZSKIPLIST_MAXLEVEL" "\<forall>e \<in> set (tl A). 1 \<le> eh e" "\<forall>e \<in> set B. 1 \<le> eh e"
    using assms by (auto simp: zsl_ok_def tl_append2)
  have "1 \<le> eh (last A)" using z(3,4) assms(2) by (cases A) (auto simp: ZSKIPLIST_MAXLEVEL_def)
  moreover have "list_ok (zlevel zsl) (heap zsl) (butlast A @ last A # B)"
    using z(1) assms(2) by (metis append_Cons append_assoc append_butlast_last_id append_Nil)
  ultimately show ?thesis using level_at_ok [of "zlevel zsl" "heap zsl" "butlast A" "last A" B 0] z(2) fwd0 [OF z(5)] by simp
qed

lemma node_at:
  assumes "zsl_ok zsl (A @ x # B)" "A \<noteq> []"
  shows "\<exists>n. heap zsl (ea x) = Some n \<and> zn_score n = fst (content x) \<and> zn_obj n = Some (snd (content x)) \<and> length (levels n) = eh x \<and>
    backward n = (if length A \<le> 1 then None else Some (ea (last A)))"
proof -
  have "node_ok (zlevel zsl) (heap zsl) A x B" using assms(1) by (auto simp: zsl_ok_def intro: list_okD)
  then show ?thesis using assms(2) by (auto simp: node_ok_def content_def)
qed

lemma zslDelete_content:
  assumes "zsl_rep zsl ns xs" "length xs < 2 ^ 32" "robj_ok ob"
  shows "\<exists>zsl'. zslDelete zsl score ob = Some (zsl', \<exists>q \<in> set xs. same_key q (score, ob)) \<and>
    (if \<exists>q \<in> set xs. same_key q (score, ob) then \<exists>A x B. ns = A @ x # B \<and> A \<noteq> [] \<and> same_key (content x) (score, ob) \<and> zsl_rep zsl' (A @ B) (zdel (score, ob) xs) \<and> heap zsl' (ea x) = None
     else zsl' = zsl)"
proof -
  let ?p = "(score, ob)"
  obtain e0 A' B where s: "ns = e0 # A' @ B" "zsl_ok zsl ((e0 # A') @ B)" "map content A' = takeWhile (\<lambda>p. key_less p ?p) xs"
    "map content B = dropWhile (\<lambda>p. key_less p ?p) xs" "cut_at (before_key score ob) (heap zsl) (e0 # A') B" "length ((e0 # A') @ B) \<le> 2 ^ 32"
    by (rule before_search [OF assms])
  let ?A = "e0 # A'"
  obtain upd where upd: "descend (before_key score ob) (heap zsl) (zlevel zsl) (header zsl) 0 [] = Some upd" "length upd = zlevel zsl"
    "\<forall>i < zlevel zsl. last_at i ?A (upd ! i)" "arr_get upd 0 = Some (ea (last ?A), length ?A - 1)"
    using search_exact [OF s(2) _ s(5,6)] by auto
  have srt: "zset_sorted xs" using assms(1) by (simp add: zsl_rep_def)
  have xs: "xs = map content A' @ map content B" using s(3,4) by simp
  have lessA: "\<not> same_key q ?p" if "q \<in> set (map content A')" for q
    using that s(3) by (metis key_less_irrefl key_less_same(1) set_takeWhileD)
  show ?thesis
  proof (cases B)
    case Nil
    then have none: "\<not> (\<exists>q \<in> set xs. same_key q ?p)" using lessA xs by simp
    then show ?thesis unfolding zslDelete_def upd(1,4) Option.bind.bind_lunit prod.case level0_ok [OF s(2) list.distinct(2)] using Nil by simp
  next
    case (Cons x B')
    obtain n where n: "heap zsl (ea x) = Some n" "zn_score n = fst (content x)" "zn_obj n = Some (snd (content x))"
      using node_at [of zsl ?A x B'] s(2) Cons by blast
    have nx: "\<not> key_less (content x) ?p" using s(4) Cons by (metis list.simps(9) dropWhile_eq_Cons_conv)
    have ex: "(\<exists>q \<in> set xs. same_key q ?p) \<longleftrightarrow> same_key (content x) ?p"
    proof
      assume "\<exists>q \<in> set xs. same_key q ?p"
      then obtain q where q: "q \<in> set xs" "same_key q ?p" by blast
      then have "q = content x \<or> q \<in> set (map content B')" using lessA [of q] xs Cons by auto
      moreover have "key_less (content x) q" if "q \<in> set (map content B')" using srt that xs Cons by (auto simp: zset_sorted_def sorted_wrt_append)
      ultimately show "same_key (content x) ?p" using q(2) nx key_less_same(1) by blast
    qed (use xs Cons in auto)
    have rx: "robj_ok (snd (content x))" using srt xs Cons by (auto intro!: zset_sortedD [of xs])
    have eq: "(if score = zn_score n then do { o' \<leftarrow> zn_obj n; equalStringObjects o' ob } else Some False) = Some (same_key (content x) ?p)"
      using n(2,3) equalStringObjects_exact [OF rx assms(3)] by (auto simp: same_key_def)
    have step: "zslDelete zsl score ob = (if same_key (content x) ?p then do { zsl \<leftarrow> zslDeleteNode zsl (ea x) upd; h \<leftarrow> zslFreeNode (heap zsl) (ea x);
       Some (zsl\<lparr>heap := h\<rparr>, True) } else Some (zsl, False))"
      unfolding zslDelete_def upd(1,4) Option.bind.bind_lunit prod.case level0_ok [OF s(2) list.distinct(2)] Cons list.case zskiplistLevel.simps option.case n(1) eq ..
    show ?thesis
    proof (cases "same_key (content x) ?p")
      case True
      obtain z where z: "zslDeleteNode zsl (ea x) upd = Some z" "heap z (ea x) \<noteq> None" "zsl_ok (z\<lparr>heap := (heap z)(ea x := None)\<rparr>) (?A @ B')"
        using zslDeleteNode_exact [of zsl ?A x B' upd] s(2) Cons upd(2,3) by auto
      let ?z = "z\<lparr>heap := (heap z)(ea x := None)\<rparr>"
      have del: "zslDelete zsl score ob = Some (?z, True)" using True z(1,2) by (simp add: step zslFreeNode_def)
      have "zdel ?p xs = map content A' @ map content B'" using zdel_split [OF _ True] srt xs Cons by simp
      then have "zsl_rep ?z (?A @ B') (zdel ?p xs)" using z(3) zset_sorted_zdel [OF srt, of ?p] by (simp add: zsl_rep_def)
      then show ?thesis using del ex True s(1) Cons
        by (intro exI [of _ ?z] conjI) (simp, simp, intro exI [of _ ?A] exI [of _ x] exI [of _ B'], simp)
    next
      case False
      then show ?thesis using step ex by simp
    qed
  qed
qed

section \<open>Creation and release\<close>

lemma for_each_same: "\<forall>i \<in> set is. f i s = Some s \<Longrightarrow> for_each f is s = Some s"
  by (induction "is") auto

lemma zslCreate_content: "\<exists>zsl e0. zslCreate = Some zsl \<and> zsl_rep (zsl :: ('s :: {linorder, zero}) zskiplist) [e0] []"
proof -
  let ?n = "\<lparr>zn_obj = None, zn_score = 0 :: 's, backward = None, levels = replicate ZSKIPLIST_MAXLEVEL \<lparr>forward = None, span = 0\<rparr>\<rparr>"
  let ?h = "[0 \<mapsto> ?n]" and ?e = "\<lparr>ea = 0, eh = ZSKIPLIST_MAXLEVEL, es = 0 :: 's, eo = RStr []\<rparr>"
  let ?z = "\<lparr>heap = ?h, brk = 1, header = 0, tail = None, zlength = 0, zlevel = 1\<rparr>"
  have m: "modify_level ?h 0 j (\<lambda>l. l\<lparr>forward := None, span := 0\<rparr>) = Some ?h" if "j < ZSKIPLIST_MAXLEVEL" for j
    using that list_update_id [of "replicate ZSKIPLIST_MAXLEVEL \<lparr>forward = None, span = 0 :: 32 word\<rparr>" j] by (simp add: modify_level_def)
  then have l: "for_each (\<lambda>j h. modify_level h 0 j (\<lambda>l. l\<lparr>forward := None, span := 0\<rparr>)) [0..<ZSKIPLIST_MAXLEVEL] ?h = Some ?h"
    by (intro for_each_same) simp
  have "zslCreate = Some ?z"
    by (simp add: zslCreate_def zslCreateNode_def l set_backward_def)
  moreover have "zsl_rep ?z [?e] []"
    by (auto simp: zsl_rep_def zsl_ok_def zset_sorted_def list_ok_def node_ok_def Cons_eq_append_conv ZSKIPLIST_MAXLEVEL_def)
  ultimately show ?thesis by blast
qed

lemma free_loop_exact:
  assumes "\<forall>e \<in> set B. 1 \<le> eh e" "distinct (map ea B)" "dom h = ea ` set B"
    "\<And>pre e suf. B = pre @ e # suf \<Longrightarrow> \<exists>l. level_at h (ea e) 0 = Some l \<and> forward l = fwd 0 suf"
  shows "free_loop h (fwd 0 B) = Some Map.empty"
  using assms
proof (induction B arbitrary: h)
  case Nil
  then show ?case by (simp add: free_loop.simps)
next
  case (Cons e B)
  obtain l where l: "level_at h (ea e) 0 = Some l" "forward l = fwd 0 B" using Cons.prems(4) [of "[]" e B] by auto
  have h: "h (ea e) \<noteq> None" using Cons.prems(3) by (metis domIff image_eqI list.set_intros(1))
  have "free_loop (h(ea e := None)) (fwd 0 B) = Some Map.empty"
  proof (rule Cons.IH)
    show "dom (h(ea e := None)) = ea ` set B" using Cons.prems(2,3) by auto
    fix pre x suf
    assume B: "B = pre @ x # suf"
    then have "ea x \<noteq> ea e" using Cons.prems(2) by auto
    then have "level_at (h(ea e := None)) (ea x) 0 = level_at h (ea x) 0" by (simp add: level_at_def)
    then show "\<exists>l. level_at (h(ea e := None)) (ea x) 0 = Some l \<and> forward l = fwd 0 suf" using Cons.prems(4) [of "e # pre" x suf] B by simp
  qed (use Cons.prems in auto)
  moreover have "fwd 0 (e # B) = Some (ea e)" using Cons.prems(1) by simp
  ultimately show ?case using l h by (subst free_loop.simps) (simp add: zslFreeNode_def)
qed

text \<open>Every node is released exactly once: no released node is read again, and none is left.\<close>

lemma zslFree_content:
  assumes "zsl_rep zsl ns xs"
  shows "zslFree zsl = Some Map.empty"
proof -
  obtain e0 ms where ms: "ns = e0 # ms" "zsl_ok zsl (e0 # ms)" using assms by (rule zsl_repE)
  have z: "ea e0 = header zsl" "eh e0 = ZSKIPLIST_MAXLEVEL" "1 \<le> zlevel zsl" "\<forall>e \<in> set ms. 1 \<le> eh e" "distinct (map ea (e0 # ms))"
    "dom (heap zsl) = ea ` set (e0 # ms)" "list_ok (zlevel zsl) (heap zsl) (e0 # ms)"
    using ms(2) by (auto simp: zsl_ok_def)
  have l: "level_at (heap zsl) (header zsl) 0 = Some \<lparr>forward = fwd 0 ms, span = word_of_nat (spn 0 ms)\<rparr>"
    using level_at_ok [of "zlevel zsl" "heap zsl" "[]" e0 ms 0] z by (simp add: ZSKIPLIST_MAXLEVEL_def)
  have h: "heap zsl (header zsl) \<noteq> None" using l by (cases "heap zsl (header zsl)") (simp_all add: level_at_def)
  have "free_loop ((heap zsl)(header zsl := None)) (fwd 0 ms) = Some Map.empty"
  proof (rule free_loop_exact [OF z(4)])
    show "distinct (map ea ms)" using z(5) by simp
    show "dom ((heap zsl)(header zsl := None)) = ea ` set ms" using z(1,5,6) by auto
    fix pre e suf
    assume B: "ms = pre @ e # suf"
    then have "ea e \<noteq> header zsl" using z(1,5) by auto
    then have "level_at ((heap zsl)(header zsl := None)) (ea e) 0 = level_at (heap zsl) (ea e) 0" by (simp add: level_at_def)
    then show "\<exists>l. level_at ((heap zsl)(header zsl := None)) (ea e) 0 = Some l \<and> forward l = fwd 0 suf"
      using level_at_ok [of "zlevel zsl" "heap zsl" "e0 # pre" e suf 0] z(3,4,7) B by simp
  qed
  then show ?thesis using l h by (simp add: zslFree_def zslFreeNode_def)
qed

section \<open>Ranks\<close>

lemma last_at_pos: "last_at i A v \<Longrightarrow> snd v < length A \<and> fst v = ea (A ! snd v) \<and> i < eh (A ! snd v)"
  by (auto simp: last_at_def)

lemma element_levels_exact:
  assumes "list_ok lv h (A @ B)" "cut_at (\<lambda>n r. Some (r \<le> rank)) h A B" "length (A @ B) \<le> 2 ^ 32" "\<forall>e \<in> set (tl A). 1 \<le> eh e" "A \<noteq> []"
    "length A \<le> Suc rank"
  shows "k \<le> lv \<Longrightarrow> 1 \<le> k \<Longrightarrow> A = A1 @ u # A2 \<Longrightarrow> k \<le> eh u \<Longrightarrow>
    element_levels rank h k (ea u) (length A1) = Some (if length A = Suc rank then Some (ea (last A)) else None)"
proof (induction k arbitrary: A1 u A2)
  case (Suc k)
  obtain v where v: "walk (\<lambda>n r. Some (r \<le> rank)) h k (ea u) (length A1) = Some v" "last_at k A v"
    using walk_exact [OF assms(1-3), of k A1 u A2] Suc.prems by auto
  obtain B1 w B2 where w: "A = B1 @ w # B2" "v = (ea w, length B1)" "k < eh w" using v(2) by (auto simp: last_at_def)
  show ?case
  proof (cases "length B1 = rank")
    case True
    then have "B2 = []" using w(1) assms(6) by simp
    then show ?thesis using True v w by simp
  next
    case False
    then show ?thesis
    proof (cases k)
      case 0
      then have "length B1 = length A - 1" using last_at_0 [OF _ assms(4)] v(2) w(2) by auto
      then have "length A \<noteq> Suc rank" using False by simp
      then show ?thesis using False 0 v w(2) by simp
    next
      case (Suc j)
      then show ?thesis using Suc.IH [of B1 w B2] Suc.prems(1) w False v by simp
    qed
  qed
qed simp

lemma zsl_okD:
  assumes "zsl_ok zsl (A @ B)" "A \<noteq> []"
  shows "list_ok (zlevel zsl) (heap zsl) (A @ B)" "ea (hd A) = header zsl" "zlevel zsl \<le> eh (hd A)" "1 \<le> zlevel zsl" "\<forall>e \<in> set (tl A). 1 \<le> eh e"
    "distinct (map ea (A @ B))"
  using assms by (auto simp: zsl_ok_def tl_append2)

lemma zslGetElementByRank_content:
  assumes "zsl_rep zsl ns xs" "length xs < 2 ^ 32"
  shows "zslGetElementByRank zsl rank = Some (if rank \<le> length xs then Some (ea (ns ! rank)) else None)"
proof -
  obtain e0 ms where ms: "ns = e0 # ms" "zsl_ok zsl (e0 # ms)" "map content ms = xs" "length ms = length xs" using assms(1) by (rule zsl_repE)
  let ?A = "e0 # take rank ms" and ?B = "drop rank ms"
  have AB: "?A @ ?B = e0 # ms" by simp
  have cut: "cut_at (\<lambda>n r. Some (r \<le> rank)) (heap zsl) ?A ?B"
    unfolding cut_at_def AB
  proof (intro allI impI)
    fix pre e suf
    assume "e0 # ms = pre @ e # suf"
    then have "Suc (length ms) = length pre + Suc (length suf)" by (metis length_Cons length_append)
    then show "Some (length pre \<le> rank) = Some (length pre < length ?A)" by auto
  qed
  note z = zsl_okD [of zsl ?A ?B, unfolded AB, OF ms(2)]
  have "zslGetElementByRank zsl rank = Some (if length ?A = Suc rank then Some (ea (last ?A)) else None)"
    using element_levels_exact [of "zlevel zsl" "heap zsl" ?A ?B rank "zlevel zsl" "[]" e0 "take rank ms"] cut z assms(2) ms(4)
    by (simp add: zslGetElementByRank_def)
  moreover have "last ?A = ns ! rank" if "rank \<le> length ms"
  proof -
    have "?A = take (Suc rank) ns" by (simp add: ms(1))
    then show ?thesis using that by (cases rank) (auto simp: ms(1) last_conv_nth)
  qed
  ultimately show ?thesis using ms(4) by auto
qed

end
