(* ===== verification/Skiplist_Range.thy ===== *)
theory Skiplist_Range
  imports Skiplist_Seq
begin

text \<open>
  Ranks and ranges of a skip list, on the list of scores and members it holds: the rank of a member, the first and the last member of a range of
  scores or of a range of members, and the deletion of a range.
\<close>

section \<open>The rank of a member\<close>

lemma rank_levels_exact:
  assumes "list_ok lv h (A @ B)" "cut_at (upto_key score ob) h A B" "length (A @ B) \<le> 2 ^ 32" "\<forall>e \<in> set (tl A). 1 \<le> eh e \<and> robj_ok (eo e)" "robj_ok ob"
    "\<And>A1 w A2. tl A = A1 @ w # A2 \<Longrightarrow> obj_bytes (eo w) = obj_bytes ob \<Longrightarrow> A2 = []"
  shows "k \<le> lv \<Longrightarrow> 1 \<le> k \<Longrightarrow> A = A1 @ u # A2 \<Longrightarrow> k \<le> eh u \<Longrightarrow>
    rank_levels score ob h k (ea u) (length A1) = Some (if tl A \<noteq> [] \<and> obj_bytes (eo (last A)) = obj_bytes ob then length A - 1 else 0)"
proof (induction k arbitrary: A1 u A2)
  case (Suc k)
  let ?hit = "tl A \<noteq> [] \<and> obj_bytes (eo (last A)) = obj_bytes ob"
  obtain v where v: "walk (upto_key score ob) h k (ea u) (length A1) = Some v" "last_at k A v"
    using walk_exact [OF assms(1-3), of k A1 u A2] Suc.prems by auto
  obtain B1 w B2 where w: "A = B1 @ w # B2" "v = (ea w, length B1)" "k < eh w" using v(2) by (auto simp: last_at_def)
  have "node_ok lv h B1 w (B2 @ B)" using list_okD [of lv h B1 w "B2 @ B"] assms(1) w(1) by simp
  then obtain n where n: "h (ea w) = Some n" "zn_obj n = (if B1 = [] then None else Some (eo w))" by (auto simp: node_ok_def)
  have tl: "tl A = tl B1 @ w # B2" if "B1 \<noteq> []" using w(1) that by (cases B1) auto
  let ?eq = "B1 \<noteq> [] \<and> obj_bytes (eo w) = obj_bytes ob"
  have "B1 \<noteq> [] \<Longrightarrow> robj_ok (eo w)" using tl assms(4) by simp
  then have eq: "(case zn_obj n of None \<Rightarrow> Some False | Some o' \<Rightarrow> equalStringObjects o' ob) = Some ?eq"
    using n(2) equalStringObjects_exact [OF _ assms(5)] by simp
  have step: "rank_levels score ob h (Suc k) (ea u) (length A1) = (if ?eq then Some (length B1) else rank_levels score ob h k (ea w) (length B1))"
    using v(1) w(2) n(1) eq by simp
  show ?case
  proof (cases ?eq)
    case True
    then have "B2 = []" using assms(6) tl by blast
    then show ?thesis using step True w(1) tl by simp
  next
    case False
    show ?thesis
    proof (cases k)
      case 0
      then have "length B1 = length A - 1" using last_at_0 [of A v] v(2) w(2) assms(4) by auto
      then have "B2 = []" using w(1) by simp
      then have "\<not> ?hit" using False w(1) by (cases B1) auto
      then show ?thesis using False 0 step by auto
    next
      case (Suc j)
      then show ?thesis using Suc.IH [of B1 w B2] Suc.prems(1) w False step by simp
    qed
  qed
qed simp

lemma member_bytes_append [simp]: "member_bytes (xs @ ys) = member_bytes xs @ member_bytes ys"
  by (simp add: member_bytes_def)

lemma member_bytes_Cons [simp]: "member_bytes (p # xs) = obj_bytes (snd p) # member_bytes xs"
  by (simp add: member_bytes_def)

lemma member_bytes_Nil [simp]: "member_bytes [] = []"
  by (simp add: member_bytes_def)

text \<open>The rank that is found: the position of the last member up to the given key, when it is the given member.\<close>

lemma rank_cut:
  assumes "zsl_rep zsl ns xs" "length xs < 2 ^ 32" "robj_ok ob" "distinct (member_bytes xs)"
    "xs = as @ bs" "\<forall>p \<in> set as. \<not> key_less (score, ob) p" "\<forall>p \<in> set bs. key_less (score, ob) p" "obj_bytes ob \<in> set (member_bytes as) \<Longrightarrow> obj_bytes (snd (last as)) = obj_bytes ob"
  shows "zslGetRank zsl score ob = Some (if obj_bytes ob \<in> set (member_bytes as) then length as else 0)"
proof -
  let ?Q = "\<lambda>p. key_less p (score, ob) \<or> same_key p (score, ob)"
  have srt: "zset_sorted xs" using assms(1) by (simp add: zsl_rep_def)
  have up: "\<And>n r p. p \<in> set xs \<Longrightarrow> zn_score n = fst p \<Longrightarrow> zn_obj n = Some (snd p) \<Longrightarrow> upto_key score ob n r = Some (?Q p)"
    using srt by (intro upto_key_exact assms(3)) (auto intro: zset_sortedD)
  have "?Q p" if "key_less p q" "?Q q" for p q using that key_less_trans key_less_same(1) by blast
  then obtain e0 A' B where s: "ns = e0 # A' @ B" "zsl_ok zsl ((e0 # A') @ B)" "map content A' = takeWhile ?Q xs"
    "map content B = dropWhile ?Q xs" "cut_at (upto_key score ob) (heap zsl) (e0 # A') B" "length ((e0 # A') @ B) \<le> 2 ^ 32"
    using up by (rule search_content [OF assms(1,2)])
  have Qa: "?Q p" if "p \<in> set as" for p using assms(6) that key_less_total [of p "(score, ob)"] by blast
  have Qb: "\<not> ?Q p" if "p \<in> set bs" for p using assms(7) that key_less_same(2) [of p "(score, ob)"] key_less_trans key_less_irrefl by metis
  have "takeWhile ?Q bs = []" using Qb by (cases bs) auto
  then have A: "map content A' = as" unfolding s(3) assms(5) using Qa by (subst takeWhile_append2) auto
  have mb: "member_bytes as = map (\<lambda>e. obj_bytes (eo e)) A'" unfolding A [symmetric] by (simp add: member_bytes_def content_def)
  have dA: "distinct (map (\<lambda>e. obj_bytes (eo e)) A')" using assms(4) unfolding assms(5) mb [symmetric] by simp
  have la: "obj_bytes (snd (last as)) = obj_bytes (eo (last A'))" if "A' \<noteq> []" using that A by (metis content_def last_map snd_conv)
  note z = zsl_okD [OF s(2), simplified]
  have "robj_ok (eo e)" if "e \<in> set A'" for e
    using zset_sortedD [OF srt, of "content e"] that A by (force simp: assms(5) content_def)
  then have okA: "\<forall>e \<in> set A'. 1 \<le> eh e \<and> robj_ok (eo e)" using z(5) by simp
  have uniq: "A2 = []" if "A' = A1 @ w # A2" "obj_bytes (eo w) = obj_bytes ob" for A1 w A2
  proof (rule ccontr)
    assume ne: "A2 \<noteq> []"
    have "obj_bytes ob \<in> set (member_bytes as)" using that by (simp add: mb)
    then have "obj_bytes (eo (last A')) = obj_bytes (eo w)" using assms(8) la that by simp
    moreover have "last A' \<in> set A2" using that(1) ne by simp
    moreover have "obj_bytes (eo w) \<notin> (\<lambda>e. obj_bytes (eo e)) ` set A2" using dA unfolding that(1) by simp
    ultimately show False by (metis image_eqI)
  qed
  have "zslGetRank zsl score ob = Some (if A' \<noteq> [] \<and> obj_bytes (eo (last A')) = obj_bytes ob then length A' else 0)"
    using rank_levels_exact [OF _ s(5,6) _ assms(3), of "zlevel zsl" "zlevel zsl" "[]" e0 A'] okA uniq z by (auto simp: zslGetRank_def)
  moreover have "A' \<noteq> [] \<and> obj_bytes (eo (last A')) = obj_bytes ob \<longleftrightarrow> obj_bytes ob \<in> set (member_bytes as)"
    using assms(8) la mb by (metis (mono_tags, lifting) last_in_set list.map_disc_iff list.set_cases list.set_map image_eqI list.distinct(1) set_empty empty_iff image_empty)
  moreover have "length A' = length as" using A by (metis length_map)
  ultimately show ?thesis by simp
qed

lemma sorted_split:
  assumes "zset_sorted (as @ q # bs)"
  shows "\<forall>p \<in> set as. key_less p q" "\<forall>p \<in> set bs. key_less q p"
  using assms by (auto simp: zset_sorted_def sorted_wrt_append)

lemma zslGetRank_member:
  assumes "zsl_rep zsl ns (as @ (score, ob') # bs)" "length (as @ (score, ob') # bs) < 2 ^ 32" "robj_ok ob" "distinct (member_bytes (as @ (score, ob') # bs))"
    "obj_bytes ob' = obj_bytes ob"
  shows "zslGetRank zsl score ob = Some (Suc (length as))"
proof -
  have srt: "zset_sorted (as @ (score, ob') # bs)" using assms(1) by (simp add: zsl_rep_def)
  have same: "same_key (score, ob') (score, ob)" using assms(5) by (simp add: same_key_def)
  note less = sorted_split [OF srt]
  have "\<not> key_less (score, ob) p" if "p \<in> set as" for p using less(1) that key_less_same(1) [OF same] key_less_trans key_less_irrefl by metis
  moreover have "key_less (score, ob) p" if "p \<in> set bs" for p using less(2) that key_less_same(2) [OF same] by blast
  moreover have "\<not> key_less (score, ob) (score, ob')" using key_less_same(1) [OF same] key_less_irrefl by metis
  ultimately show ?thesis using rank_cut [OF assms(1-4), of "as @ [(score, ob')]" bs] assms(5) by auto
qed

lemma zslGetRank_absent:
  assumes "zsl_rep zsl ns xs" "length xs < 2 ^ 32" "robj_ok ob" "distinct (member_bytes xs)" "obj_bytes ob \<notin> set (member_bytes xs)"
  shows "zslGetRank zsl score ob = Some 0"
proof -
  let ?Q = "\<lambda>p. \<not> key_less (score, ob) p"
  have srt: "sorted_wrt key_less xs" using assms(1) by (simp add: zsl_rep_def zset_sorted_def)
  have d: "\<not> ?Q p" if "p \<in> set (dropWhile ?Q xs)" for p
    by (rule sorted_dropWhile [OF srt _ that]) (auto intro: key_less_trans)
  have t: "?Q p" if "p \<in> set (takeWhile ?Q xs)" for p using that by (rule set_takeWhileD [THEN conjunct2])
  have no: "obj_bytes ob \<notin> set (member_bytes (takeWhile ?Q xs))" using assms(5) by (auto simp: member_bytes_def dest: set_takeWhileD)
  have "zslGetRank zsl score ob = Some (if obj_bytes ob \<in> set (member_bytes (takeWhile ?Q xs)) then length (takeWhile ?Q xs) else 0)"
    by (rule rank_cut [OF assms(1-4) takeWhile_dropWhile_id [symmetric]]) (use d t no in blast)+
  then show ?thesis using no by simp
qed

text \<open>A member is also found with a score it does not have, here the last member with any larger score.\<close>

lemma zslGetRank_larger_score:
  assumes "zsl_rep zsl ns (as @ [(s, ob)])" "length (as @ [(s, ob)]) < 2 ^ 32" "distinct (member_bytes (as @ [(s, ob)]))" "s < score"
  shows "zslGetRank zsl score ob = Some (Suc (length as))"
proof -
  have srt: "zset_sorted (as @ [(s, ob)])" using assms(1) by (simp add: zsl_rep_def)
  then have "robj_ok ob" using zset_sortedD [of _ "(s, ob)"] by force
  moreover have "fst p \<le> s" if "p \<in> set as" for p using sorted_split(1) [OF srt] that by (auto simp: key_less_def)
  then have "\<forall>p \<in> set (as @ [(s, ob)]). \<not> key_less (score, ob) p" using assms(4) by (fastforce simp: key_less_def)
  ultimately show ?thesis using rank_cut [OF assms(1,2) _ assms(3), of ob "as @ [(s, ob)]" "[]" score] by auto
qed

section \<open>Ranges\<close>

text \<open>A range is a lower and an upper condition; keys above a key that meets the lower one meet it, too, and keys below a key that meets the upper
  one.\<close>

lemma last_node_exact:
  assumes "zsl_ok zsl (A @ B)" "A \<noteq> []" "cut_at cond (heap zsl) A B" "length (A @ B) \<le> 2 ^ 32"
  shows "last_node cond zsl = Some (ea (last A))"
  using search_exact [OF assms] by (auto simp: last_node_def)

lemma find_dropWhile: "find (\<lambda>p. G p \<and> L p) xs = find (\<lambda>p. G p \<and> L p) (dropWhile (\<lambda>p. \<not> G p) xs)"
  by (induction xs) auto

lemma find_None: "\<forall>p \<in> set xs. \<not> P p \<Longrightarrow> find P xs = None"
  by (simp add: find_None_iff)

lemma first_in:
  assumes "zsl_rep zsl ns xs" "length xs < 2 ^ 32" "xs \<noteq> []" "G (last xs)"
    "\<And>p q. p \<in> set xs \<Longrightarrow> q \<in> set xs \<Longrightarrow> key_less p q \<Longrightarrow> G p \<Longrightarrow> G q" "\<And>p q. p \<in> set xs \<Longrightarrow> q \<in> set xs \<Longrightarrow> key_less p q \<Longrightarrow> L q \<Longrightarrow> L p"
    "\<And>n r p. p \<in> set xs \<Longrightarrow> zn_score n = fst p \<Longrightarrow> zn_obj n = Some (snd p) \<Longrightarrow> cond n r = Some (\<not> G p)"
  shows "\<exists>x l y n p. last_node cond zsl = Some x \<and> level_at (heap zsl) x 0 = Some l \<and> forward l = Some y \<and> heap zsl y = Some n \<and> p \<in> set xs \<and>
    zn_score n = fst p \<and> zn_obj n = Some (snd p) \<and> find (\<lambda>p. G p \<and> L p) xs = (if L p then Some p else None)"
proof -
  obtain e0 A' B where s: "ns = e0 # A' @ B" "zsl_ok zsl ((e0 # A') @ B)" "map content A' = takeWhile (\<lambda>p. \<not> G p) xs"
    "map content B = dropWhile (\<lambda>p. \<not> G p) xs" "cut_at cond (heap zsl) (e0 # A') B" "length ((e0 # A') @ B) \<le> 2 ^ 32"
    by (rule search_content [OF assms(1,2), of "\<lambda>p. \<not> G p" cond]) (use assms(5,7) in blast)+
  have "B \<noteq> []" using s(4) assms(3,4) by (metis dropWhile_eq_Nil_conv last_in_set list.simps(8))
  then obtain y B' where B: "B = y # B'" by (cases B) auto
  obtain n where n: "heap zsl (ea y) = Some n" "zn_score n = fst (content y)" "zn_obj n = Some (snd (content y))"
    using node_at [of zsl "e0 # A'" y B'] s(2) B by auto
  have d: "dropWhile (\<lambda>p. \<not> G p) xs = content y # map content B'" using s(4) B by simp
  then have G: "G (content y)" by (metis dropWhile_eq_Cons_conv)
  obtain T where xs: "xs = T @ content y # map content B'" using d by (metis takeWhile_dropWhile_id)
  have "zset_sorted xs" using assms(1) by (simp add: zsl_rep_def)
  then have "\<forall>p \<in> set (map content B'). key_less (content y) p" using xs sorted_split(2) by metis
  moreover have sub: "content y \<in> set xs" "set (map content B') \<subseteq> set xs" by (auto simp: xs)
  ultimately have "\<not> L p" if "\<not> L (content y)" "p \<in> set (map content B')" for p using assms(6) that by blast
  then have "find (\<lambda>p. G p \<and> L p) xs = (if L (content y) then Some (content y) else None)"
    unfolding find_dropWhile [of G L xs] d using G find_None [of "map content B'" "\<lambda>p. G p \<and> L p"] by auto
  then show ?thesis using last_node_exact [OF s(2) _ s(5,6)] level0_ok [OF s(2)] n sub(1) B by auto
qed

lemma find_rev_takeWhile:
  assumes "\<forall>p \<in> set (dropWhile L xs). \<not> L p"
  shows "find (\<lambda>p. G p \<and> L p) (rev xs) = find (\<lambda>p. G p \<and> L p) (rev (takeWhile L xs))"
proof -
  have f: "find P (us @ vs) = find P vs" if "\<forall>p \<in> set us. \<not> P p" for P :: "'a \<Rightarrow> bool" and us vs using that by (induction us) auto
  have "rev xs = rev (dropWhile L xs) @ rev (takeWhile L xs)" by (metis rev_append takeWhile_dropWhile_id)
  then show ?thesis using assms f [of "rev (dropWhile L xs)"] by auto
qed

lemma last_in:
  assumes "zsl_rep zsl ns xs" "length xs < 2 ^ 32" "xs \<noteq> []" "L (xs ! 0)"
    "\<And>p q. p \<in> set xs \<Longrightarrow> q \<in> set xs \<Longrightarrow> key_less p q \<Longrightarrow> G p \<Longrightarrow> G q" "\<And>p q. p \<in> set xs \<Longrightarrow> q \<in> set xs \<Longrightarrow> key_less p q \<Longrightarrow> L q \<Longrightarrow> L p"
    "\<And>n r p. p \<in> set xs \<Longrightarrow> zn_score n = fst p \<Longrightarrow> zn_obj n = Some (snd p) \<Longrightarrow> cond n r = Some (L p)"
  shows "\<exists>x n p. last_node cond zsl = Some x \<and> heap zsl x = Some n \<and> p \<in> set xs \<and>
    zn_score n = fst p \<and> zn_obj n = Some (snd p) \<and> find (\<lambda>p. G p \<and> L p) (rev xs) = (if G p then Some p else None)"
proof -
  obtain e0 A' B where s: "ns = e0 # A' @ B" "zsl_ok zsl ((e0 # A') @ B)" "map content A' = takeWhile L xs"
    "map content B = dropWhile L xs" "cut_at cond (heap zsl) (e0 # A') B" "length ((e0 # A') @ B) \<le> 2 ^ 32"
    by (rule search_content [OF assms(1,2), of L cond]) (use assms(6,7) in blast)+
  have "takeWhile L xs \<noteq> []" using assms(3,4) by (cases xs) auto
  then have "A' \<noteq> []" using s(3) by auto
  then obtain C x where A': "A' = C @ [x]" by (metis append_butlast_last_id)
  obtain n where n: "heap zsl (ea x) = Some n" "zn_score n = fst (content x)" "zn_obj n = Some (snd (content x))"
    using node_at [of zsl "e0 # C" x B] s(2) A' by auto
  have t: "takeWhile L xs = map content C @ [content x]" using s(3) A' by simp
  obtain D where xs: "xs = map content C @ content x # D" using t by (metis append_Cons append_Nil append_assoc takeWhile_dropWhile_id)
  have srt: "zset_sorted xs" using assms(1) by (simp add: zsl_rep_def)
  then have lx: "\<forall>p \<in> set (map content C). key_less p (content x)" using xs sorted_split(1) by metis
  have sub: "content x \<in> set xs" "set (map content C) \<subseteq> set xs" by (auto simp: xs)
  have L: "L (content x)" using t by (metis in_set_conv_decomp set_takeWhileD)
  have "\<not> L p" if "p \<in> set (dropWhile L xs)" for p
  proof (rule sorted_dropWhile [OF _ _ that])
    show "sorted_wrt (\<lambda>p q. key_less p q \<and> p \<in> set xs \<and> q \<in> set xs) xs"
      using srt unfolding zset_sorted_def by (auto intro: sorted_wrt_mono_rel)
  qed (use assms(6) in blast)
  then have "find (\<lambda>p. G p \<and> L p) (rev xs) = find (\<lambda>p. G p \<and> L p) (content x # rev (map content C))"
    using find_rev_takeWhile [of L xs G] t by (auto simp: rev_map)
  moreover have "\<not> G p" if "\<not> G (content x)" "p \<in> set (map content C)" for p using assms(5) [OF _ sub(1)] that sub(2) lx by blast
  ultimately have "find (\<lambda>p. G p \<and> L p) (rev xs) = (if G (content x) then Some (content x) else None)"
    using L find_None [of "rev (map content C)" "\<lambda>p. G p \<and> L p"] by auto
  then show ?thesis using last_node_exact [OF s(2) _ s(5,6)] n sub(1) A' by auto
qed

lemma list_ends:
  assumes "zsl_rep zsl ns xs" "xs \<noteq> []"
  shows "\<exists>x n. tail zsl = Some x \<and> heap zsl x = Some n \<and> zn_score n = fst (last xs) \<and> zn_obj n = Some (snd (last xs))"
    "\<exists>l y m. level_at (heap zsl) (header zsl) 0 = Some l \<and> forward l = Some y \<and> heap zsl y = Some m \<and> zn_score m = fst (xs ! 0) \<and> zn_obj m = Some (snd (xs ! 0))"
proof -
  obtain e0 ms where ms: "ns = e0 # ms" "zsl_ok zsl (e0 # ms)" "map content ms = xs" "length ms = length xs" using assms(1) by (rule zsl_repE)
  then have ne: "ms \<noteq> []" using assms(2) by auto
  have t: "tail zsl = Some (ea (last ms))" using ms(2) ne by (auto simp: zsl_ok_def)
  have "zsl_ok zsl ((e0 # butlast ms) @ last ms # [])" using ms(2) ne by simp
  from node_at [OF this] obtain n where "heap zsl (ea (last ms)) = Some n" "zn_score n = fst (content (last ms))" "zn_obj n = Some (snd (content (last ms)))" by auto
  moreover have "content (last ms) = last xs" using ms(3) ne by (metis last_map)
  ultimately show "\<exists>x n. tail zsl = Some x \<and> heap zsl x = Some n \<and> zn_score n = fst (last xs) \<and> zn_obj n = Some (snd (last xs))" using t by auto
  obtain y ms' where y: "ms = y # ms'" using ne by (cases ms) auto
  have "zsl_ok zsl ([e0] @ y # ms')" using ms(2) y by simp
  from node_at [OF this] level0_ok [OF this] obtain m l where "heap zsl (ea y) = Some m" "zn_score m = fst (content y)" "zn_obj m = Some (snd (content y))"
    "level_at (heap zsl) (ea e0) 0 = Some l" "forward l = Some (ea y)" by auto
  moreover have "content y = xs ! 0" using ms(3) y by auto
  moreover have "ea e0 = header zsl" using ms(2) by (simp add: zsl_ok_def)
  ultimately show "\<exists>l y m. level_at (heap zsl) (header zsl) 0 = Some l \<and> forward l = Some y \<and> heap zsl y = Some m \<and> zn_score m = fst (xs ! 0) \<and> zn_obj m = Some (snd (xs ! 0))"
    by auto
qed

lemma empty_tail: "zsl_rep zsl ns [] \<Longrightarrow> tail zsl = None"
  by (rule zsl_repE) (auto simp: zsl_ok_def)

lemma sorted_ends:
  assumes "zset_sorted xs" "p \<in> set xs"
  shows "p = last xs \<or> key_less p (last xs)" "p = xs ! 0 \<or> key_less (xs ! 0) p"
proof -
  show "p = last xs \<or> key_less p (last xs)"
    using assms by (cases xs rule: rev_cases) (auto simp: zset_sorted_def sorted_wrt_append)
  show "p = xs ! 0 \<or> key_less (xs ! 0) p"
    using assms by (cases xs) (auto simp: zset_sorted_def)
qed

lemma range_outside:
  assumes "zset_sorted xs" "\<And>p q. p \<in> set xs \<Longrightarrow> q \<in> set xs \<Longrightarrow> key_less p q \<Longrightarrow> G p \<Longrightarrow> G q" "\<And>p q. p \<in> set xs \<Longrightarrow> q \<in> set xs \<Longrightarrow> key_less p q \<Longrightarrow> L q \<Longrightarrow> L p"
    "xs = [] \<or> \<not> G (last xs) \<or> \<not> L (xs ! 0)"
  shows "\<forall>p \<in> set xs. \<not> (G p \<and> L p)"
proof (intro ballI notI)
  fix p
  assume p: "p \<in> set xs" "G p \<and> L p"
  then have "xs \<noteq> []" by auto
  then have "last xs \<in> set xs" "xs ! 0 \<in> set xs" by auto
  then have "G (last xs)" "L (xs ! 0)" using sorted_ends [OF assms(1) p(1)] assms(2,3) p by metis+
  then show False using assms(4) \<open>xs \<noteq> []\<close> by blast
qed

subsection \<open>Ranges of scores\<close>

definition in_range :: "('s :: linorder) zrangespec \<Rightarrow> 's zel \<Rightarrow> bool" where
  "in_range rg p \<longleftrightarrow> zslValueGteMin (fst p) rg \<and> zslValueLteMax (fst p) rg"

lemma score_bounds:
  assumes "key_less p q"
  shows "zslValueGteMin (fst p) rg \<Longrightarrow> zslValueGteMin (fst q) rg" "zslValueLteMax (fst q) rg \<Longrightarrow> zslValueLteMax (fst p) rg"
  using assms by (auto simp: key_less_def zslValueGteMin_def zslValueLteMax_def split: if_splits)

lemma zslIsInRange_exact:
  assumes "zsl_rep zsl ns xs"
  shows "\<exists>b. zslIsInRange zsl rg = Some b \<and>
    (if b then xs \<noteq> [] \<and> zslValueGteMin (fst (last xs)) rg \<and> zslValueLteMax (fst (xs ! 0)) rg else \<forall>p \<in> set xs. \<not> in_range rg p)"
proof (cases "range_min rg > range_max rg \<or> range_min rg = range_max rg \<and> (minex rg \<or> maxex rg)")
  case True
  then have "\<not> in_range rg p" for p :: "'a zel" by (auto simp: in_range_def zslValueGteMin_def zslValueLteMax_def split: if_splits)
  then show ?thesis using True by (auto simp: zslIsInRange_def)
next
  case False
  have srt: "zset_sorted xs" using assms by (simp add: zsl_rep_def)
  let ?G = "\<lambda>p. zslValueGteMin (fst p) rg" and ?L = "\<lambda>p. zslValueLteMax (fst p) rg"
  have out: "\<forall>p \<in> set xs. \<not> in_range rg p" if "xs = [] \<or> \<not> ?G (last xs) \<or> \<not> ?L (xs ! 0)"
    unfolding in_range_def by (rule range_outside [where G = ?G and L = ?L, OF srt _ _ that]) (blast dest: score_bounds)+
  show ?thesis
  proof (cases "xs = []")
    case True
    then have "tail zsl = None" using empty_tail assms by simp
    then have "zslIsInRange zsl rg = Some False" unfolding zslIsInRange_def if_not_P [OF False] by simp
    then show ?thesis using True by (intro exI [of _ False]) simp
  next
    case ne: False
    obtain x n l y m where e: "tail zsl = Some x" "heap zsl x = Some n" "zn_score n = fst (last xs)" "level_at (heap zsl) (header zsl) 0 = Some l"
      "forward l = Some y" "heap zsl y = Some m" "zn_score m = fst (xs ! 0)" using list_ends [OF assms ne] by auto
    then have "zslIsInRange zsl rg = Some (?G (last xs) \<and> ?L (xs ! 0))" unfolding zslIsInRange_def if_not_P [OF False] by simp
    then show ?thesis using out ne by auto
  qed
qed

lemma zslFirstInRange_content:
  assumes "zsl_rep zsl ns xs" "length xs < 2 ^ 32"
  shows "\<exists>r. zslFirstInRange zsl rg = Some r \<and> (case find (in_range rg) xs of None \<Rightarrow> r = None | Some p \<Rightarrow> \<exists>a. r = Some a \<and> points zsl a p)"
proof -
  obtain b where b: "zslIsInRange zsl rg = Some b"
    "if b then xs \<noteq> [] \<and> zslValueGteMin (fst (last xs)) rg \<and> zslValueLteMax (fst (xs ! 0)) rg else \<forall>p \<in> set xs. \<not> in_range rg p"
    using zslIsInRange_exact [OF assms(1)] by blast
  show ?thesis
  proof (cases b)
    case True
    let ?G = "\<lambda>p :: 'a zel. zslValueGteMin (fst p) rg" and ?L = "\<lambda>p :: 'a zel. zslValueLteMax (fst p) rg"
    have ne: "xs \<noteq> []" "?G (last xs)" using b(2) True by auto
    have "\<exists>x l y n p. last_node (\<lambda>n r. Some (\<not> zslValueGteMin (zn_score n) rg)) zsl = Some x \<and> level_at (heap zsl) x 0 = Some l \<and> forward l = Some y \<and>
      heap zsl y = Some n \<and> p \<in> set xs \<and> zn_score n = fst p \<and> zn_obj n = Some (snd p) \<and> find (\<lambda>p. ?G p \<and> ?L p) xs = (if ?L p then Some p else None)"
      by (rule first_in [where G = ?G and L = ?L, OF assms ne]) (auto dest: score_bounds)
    then obtain x l y n p where r: "last_node (\<lambda>n r. Some (\<not> zslValueGteMin (zn_score n) rg)) zsl = Some x" "level_at (heap zsl) x 0 = Some l"
      "forward l = Some y" "heap zsl y = Some n" "zn_score n = fst p" "zn_obj n = Some (snd p)" "find (\<lambda>p. ?G p \<and> ?L p) xs = (if ?L p then Some p else None)"
      by blast
    then have "zslFirstInRange zsl rg = Some (if ?L p then Some y else None)" using b(1) True by (simp add: zslFirstInRange_def)
    moreover have "find (in_range rg) xs = (if ?L p then Some p else None)" using r(7) by (simp add: in_range_def [abs_def])
    ultimately show ?thesis using r(4-6) by (auto simp: points_def)
  next
    case False
    then show ?thesis using b find_None [of xs "in_range rg"] by (simp add: zslFirstInRange_def)
  qed
qed

lemma zslLastInRange_content:
  assumes "zsl_rep zsl ns xs" "length xs < 2 ^ 32"
  shows "\<exists>r. zslLastInRange zsl rg = Some r \<and> (case find (in_range rg) (rev xs) of None \<Rightarrow> r = None | Some p \<Rightarrow> \<exists>a. r = Some a \<and> points zsl a p)"
proof -
  obtain b where b: "zslIsInRange zsl rg = Some b"
    "if b then xs \<noteq> [] \<and> zslValueGteMin (fst (last xs)) rg \<and> zslValueLteMax (fst (xs ! 0)) rg else \<forall>p \<in> set xs. \<not> in_range rg p"
    using zslIsInRange_exact [OF assms(1)] by blast
  show ?thesis
  proof (cases b)
    case True
    let ?G = "\<lambda>p :: 'a zel. zslValueGteMin (fst p) rg" and ?L = "\<lambda>p :: 'a zel. zslValueLteMax (fst p) rg"
    have ne: "xs \<noteq> []" "?L (xs ! 0)" using b(2) True by auto
    have "\<exists>x n p. last_node (\<lambda>n r. Some (zslValueLteMax (zn_score n) rg)) zsl = Some x \<and> heap zsl x = Some n \<and> p \<in> set xs \<and>
      zn_score n = fst p \<and> zn_obj n = Some (snd p) \<and> find (\<lambda>p. ?G p \<and> ?L p) (rev xs) = (if ?G p then Some p else None)"
      by (rule last_in [where G = ?G and L = ?L, OF assms ne]) (auto dest: score_bounds)
    then obtain x n p where r: "last_node (\<lambda>n r. Some (zslValueLteMax (zn_score n) rg)) zsl = Some x" "heap zsl x = Some n"
      "zn_score n = fst p" "zn_obj n = Some (snd p)" "find (\<lambda>p. ?G p \<and> ?L p) (rev xs) = (if ?G p then Some p else None)" by blast
    then have "zslLastInRange zsl rg = Some (if ?G p then Some x else None)" using b(1) True by (simp add: zslLastInRange_def)
    moreover have "find (in_range rg) (rev xs) = (if ?G p then Some p else None)" using r(5) by (simp add: in_range_def [abs_def])
    ultimately show ?thesis using r(2-4) by (auto simp: points_def)
  next
    case False
    then show ?thesis using b find_None [of "rev xs" "in_range rg"] by (simp add: zslLastInRange_def)
  qed
qed

section \<open>Deletion of ranges\<close>

text \<open>The members that are removed from the dictionary, one by one.\<close>

fun dels :: "('d \<Rightarrow> robj \<Rightarrow> 'd option) \<Rightarrow> robj list \<Rightarrow> 'd \<Rightarrow> 'd option" where
  "dels del [] d = Some d"
| "dels del (ob # obs) d = do { d \<leftarrow> del d ob; dels del obs d }"

lemma delete_loop_exact:
  assumes "zsl_ok zsl (A @ B)" "A \<noteq> []" "zlevel zsl \<le> length upd" "\<forall>i < zlevel zsl. last_at i A (upd ! i)" "m \<le> length B"
    "\<And>j n. j < length B \<Longrightarrow> j \<le> m \<Longrightarrow> zn_score n = es (B ! j) \<Longrightarrow> zn_obj n = Some (eo (B ! j)) \<Longrightarrow> cond n (k + j) = Some (j < m)"
    "dels del (map eo (take m B)) d = Some d'"
  shows "\<exists>z. delete_loop cond del upd zsl d (case B of [] \<Rightarrow> None | y # _ \<Rightarrow> Some (ea y)) k = Some (z, d', k + m) \<and> zsl_ok z (A @ drop m B)"
  using assms(1,3-)
proof (induction m arbitrary: zsl B k d)
  case 0
  then have d: "d' = d" by simp
  show ?case
  proof (cases B)
    case Nil
    then show ?thesis using 0 d by (simp add: delete_loop.simps)
  next
    case (Cons x B')
    obtain n where n: "heap zsl (ea x) = Some n" "zn_score n = fst (content x)" "zn_obj n = Some (snd (content x))"
      using node_at [of zsl A x B'] 0(1) assms(2) Cons by auto
    then have "cond n k = Some False" using 0(5) [of 0 n] Cons by (simp add: content_def)
    then have "delete_loop cond del upd zsl d (Some (ea x)) k = Some (zsl, d, k)" using n(1) by (subst delete_loop.simps) simp
    then show ?thesis using 0 d Cons by simp
  qed
next
  case (Suc m)
  then obtain x B' where B: "B = x # B'" by (cases B) auto
  have zx: "zsl_ok zsl (A @ x # B')" using Suc.prems(1) B by simp
  obtain n where n: "heap zsl (ea x) = Some n" "zn_score n = fst (content x)" "zn_obj n = Some (snd (content x))" "length (levels n) = eh x"
    using node_at [OF zx assms(2)] by auto
  have c: "cond n k = Some True" using Suc.prems(5) [of 0 n] n B by (simp add: content_def)
  have "level_at (heap zsl) (ea x) 0 = Some \<lparr>forward = (case B' of [] \<Rightarrow> None | y # _ \<Rightarrow> Some (ea y)), span = word_of_nat (spn 0 B')\<rparr>"
    using level0_ok [of zsl "A @ [x]" B'] zx by simp
  then have l: "arr_get (levels n) 0 = Some \<lparr>forward = (case B' of [] \<Rightarrow> None | y # _ \<Rightarrow> Some (ea y)), span = word_of_nat (spn 0 B')\<rparr>"
    using n(1) by (simp add: level_at_def)
  obtain z where z: "zslDeleteNode zsl (ea x) upd = Some z" "heap z (ea x) \<noteq> None" "zsl_ok (z\<lparr>heap := (heap z)(ea x := None)\<rparr>) (A @ B')" "zlevel z \<le> zlevel zsl"
    using zslDeleteNode_exact [OF zx assms(2) Suc.prems(2,3)] by blast
  let ?z = "z\<lparr>heap := (heap z)(ea x := None)\<rparr>"
  obtain d1 where d1: "del d (eo x) = Some d1" "dels del (map eo (take m B')) d1 = Some d'"
    using Suc.prems(6) B by (cases "del d (eo x)") auto
  have "\<exists>z'. delete_loop cond del upd ?z d1 (case B' of [] \<Rightarrow> None | y # _ \<Rightarrow> Some (ea y)) (k + 1) = Some (z', d', k + 1 + m) \<and> zsl_ok z' (A @ drop m B')"
  proof (rule Suc.IH [OF z(3)])
    show "zlevel ?z \<le> length upd" "\<forall>i < zlevel ?z. last_at i A (upd ! i)" "m \<le> length B'" using z(4) Suc.prems(2-4) B by auto
    fix j and n :: "'a zskiplistNode"
    assume "j < length B'" "j \<le> m" "zn_score n = es (B' ! j)" "zn_obj n = Some (eo (B' ! j))"
    then show "cond n (k + 1 + j) = Some (j < m)" using Suc.prems(5) [of "Suc j" n] B by simp
  qed (rule d1)
  then obtain z' where z': "delete_loop cond del upd ?z d1 (case B' of [] \<Rightarrow> None | y # _ \<Rightarrow> Some (ea y)) (k + 1) = Some (z', d', k + 1 + m)" "zsl_ok z' (A @ drop m B')" by blast
  have f: "zslFreeNode (heap z) (ea x) = Some ((heap z)(ea x := None))" using z(2) by (simp add: zslFreeNode_def)
  have "delete_loop cond del upd zsl d (Some (ea x)) k = Some (z', d', k + Suc m)"
    using z'(1) by (subst delete_loop.simps) (simp add: n(1,3) c l z(1) d1(1) f content_def)
  then show ?case using B z'(2) by simp
qed

lemma sorted_drop: "zset_sorted (as @ bs @ cs) \<Longrightarrow> zset_sorted (as @ cs)"
  by (auto simp: zset_sorted_def sorted_wrt_append)

text \<open>A run of nodes is deleted: the nodes before it do not meet \<open>skip\<close>, and the run is what meets \<open>cond\<close> after them.\<close>

lemma delete_run_exact:
  assumes "zsl_ok zsl ((e0 # A') @ B)" "cut_at skip (heap zsl) (e0 # A') B" "length ((e0 # A') @ B) \<le> 2 ^ 32" "m \<le> length B"
    "\<And>j n. j < length B \<Longrightarrow> j \<le> m \<Longrightarrow> zn_score n = es (B ! j) \<Longrightarrow> zn_obj n = Some (eo (B ! j)) \<Longrightarrow> cond n (length A') j = Some (j < m)"
    "dels del (map eo (take m B)) d = Some d'"
  shows "\<exists>z. delete_run skip cond del zsl d = Some (z, d', m) \<and> zsl_ok z ((e0 # A') @ drop m B)"
proof -
  let ?A = "e0 # A'"
  obtain upd where upd: "descend skip (heap zsl) (zlevel zsl) (header zsl) 0 [] = Some upd" "length upd = zlevel zsl"
    "\<forall>i < zlevel zsl. last_at i ?A (upd ! i)" "arr_get upd 0 = Some (ea (last ?A), length ?A - 1)"
    using search_exact [OF assms(1) _ assms(2,3)] by auto
  have "\<exists>z. delete_loop (\<lambda>n removed. cond n (length A') removed) del upd zsl d (case B of [] \<Rightarrow> None | y # _ \<Rightarrow> Some (ea y)) 0 = Some (z, d', 0 + m) \<and> zsl_ok z (?A @ drop m B)"
    by (rule delete_loop_exact [OF assms(1) _ _ upd(3) assms(4) _ assms(6)]) (use upd(2) assms(5) in auto)
  then show ?thesis unfolding delete_run_def upd(1,4) Option.bind.bind_lunit prod.case level0_ok [OF assms(1) list.distinct(2)] by simp
qed

lemma delete_split:
  assumes "zsl_rep zsl ns (as @ cs @ bs)" "length (as @ cs @ bs) < 2 ^ 32"
    "\<And>n r. 1 \<le> r \<Longrightarrow> r \<le> length (as @ cs @ bs) \<Longrightarrow> zn_score n = fst ((as @ cs @ bs) ! (r - 1)) \<Longrightarrow> zn_obj n = Some (snd ((as @ cs @ bs) ! (r - 1))) \<Longrightarrow> skip n r = Some (r \<le> length as)"
    "\<And>n j. j < length (cs @ bs) \<Longrightarrow> j \<le> length cs \<Longrightarrow> zn_score n = fst ((cs @ bs) ! j) \<Longrightarrow> zn_obj n = Some (snd ((cs @ bs) ! j)) \<Longrightarrow> cond n (length as) j = Some (j < length cs)"
    "dels del (map snd cs) d = Some d'"
  shows "\<exists>z A C B. delete_run skip cond del zsl d = Some (z, d', length cs) \<and> ns = A @ C @ B \<and> A \<noteq> [] \<and> map content C = cs \<and> zsl_rep z (A @ B) (as @ bs)"
proof -
  obtain e0 ms where ms: "ns = e0 # ms" "zsl_ok zsl (e0 # ms)" "map content ms = as @ cs @ bs" "zset_sorted (as @ cs @ bs)" "length ms = length (as @ cs @ bs)"
    using assms(1) by (rule zsl_repE)
  obtain A' V where v: "ms = A' @ V" "map content A' = as" "map content V = cs @ bs" using ms(3) by (metis map_eq_append_conv)
  obtain C B where "V = C @ B" "map content C = cs" "map content B = bs" using v(3) by (auto simp: map_eq_append_conv)
  then have m: "ms = A' @ C @ B" "map content A' = as" "map content C = cs" "map content B = bs" using v(1,2) by simp_all
  have la: "length A' = length as" "length C = length cs" using m(2,3) by (metis length_map)+
  have cut: "cut_at skip (heap zsl) (e0 # A') (C @ B)"
    using cut_content [OF ms(2,3), of "length as" skip] assms(3) la m(1) by simp
  have nth: "(cs @ bs) ! j = content ((C @ B) ! j)" if "j < length (C @ B)" for j
    using that by (metis m(3,4) map_append nth_map)
  have "\<exists>z. delete_run skip cond del zsl d = Some (z, d', length cs) \<and> zsl_ok z ((e0 # A') @ drop (length cs) (C @ B))"
  proof (rule delete_run_exact [OF _ cut])
    show "zsl_ok zsl ((e0 # A') @ C @ B)" using ms(2) m(1) by simp
    show "length ((e0 # A') @ C @ B) \<le> 2 ^ 32" using ms(5) m(1) assms(2) by simp
    show "length cs \<le> length (C @ B)" using la by simp
    have "map eo (take (length cs) (C @ B)) = map snd cs" using la m(3) by (auto simp: content_def)
    then show "dels del (map eo (take (length cs) (C @ B))) d = Some d'" using assms(5) by simp
    fix j and n :: "'a zskiplistNode"
    assume j: "j < length (C @ B)" "j \<le> length cs" "zn_score n = es ((C @ B) ! j)" "zn_obj n = Some (eo ((C @ B) ! j))"
    moreover have "length (C @ B) = length (cs @ bs)" by (metis m(3,4) map_append length_map)
    ultimately show "cond n (length A') j = Some (j < length cs)" using assms(4) [of j n] nth [OF j(1)] la(1) by (simp add: content_def)
  qed
  then obtain z where z: "delete_run skip cond del zsl d = Some (z, d', length cs)" "zsl_ok z ((e0 # A') @ B)" using la by auto
  have "zsl_rep z ((e0 # A') @ B) (as @ bs)" using z(2) sorted_drop [OF ms(4)] m(2,4) by (simp add: zsl_rep_def)
  then show ?thesis using z(1) ms(1) m(1,3) by (intro exI [of _ z] exI [of _ "e0 # A'"] exI [of _ C] exI [of _ B]) simp
qed

lemma range_parts:
  assumes "sorted_wrt R xs" "\<And>p q. R p q \<Longrightarrow> G p \<Longrightarrow> G q" "\<And>p q. R p q \<Longrightarrow> L q \<Longrightarrow> L p"
  obtains as cs bs where "xs = as @ cs @ bs" "\<forall>p \<in> set as. \<not> G p" "\<forall>p \<in> set (cs @ bs). G p" "\<forall>p \<in> set cs. L p" "\<forall>p \<in> set bs. \<not> L p"
proof -
  let ?a = "takeWhile (\<lambda>p. \<not> G p) xs" and ?y = "dropWhile (\<lambda>p. \<not> G p) xs"
  have "sorted_wrt R (?a @ ?y)" using assms(1) by simp
  then have sy: "sorted_wrt R ?y" by (simp only: sorted_wrt_append)
  have "G p" if "p \<in> set ?y" for p using sorted_dropWhile [OF assms(1) _ that] assms(2) by blast
  moreover have "\<not> L p" if "p \<in> set (dropWhile L ?y)" for p using sorted_dropWhile [OF sy _ that] assms(3) by blast
  moreover have "xs = ?a @ takeWhile L ?y @ dropWhile L ?y" by simp
  ultimately show ?thesis using that [of ?a "takeWhile L ?y" "dropWhile L ?y"] by (metis set_takeWhileD takeWhile_dropWhile_id)
qed

lemma nth_parts: "j < length (us @ vs) \<Longrightarrow> \<forall>p \<in> set us. P p \<Longrightarrow> \<forall>p \<in> set vs. \<not> P p \<Longrightarrow> P ((us @ vs) ! j) \<longleftrightarrow> j < length us"
  by (auto simp: nth_append)

lemma delete_range_content:
  assumes "zsl_rep zsl ns xs" "length xs < 2 ^ 32"
    "\<And>p q. p \<in> set xs \<Longrightarrow> q \<in> set xs \<Longrightarrow> key_less p q \<Longrightarrow> G p \<Longrightarrow> G q" "\<And>p q. p \<in> set xs \<Longrightarrow> q \<in> set xs \<Longrightarrow> key_less p q \<Longrightarrow> L q \<Longrightarrow> L p"
    "\<And>n r p. p \<in> set xs \<Longrightarrow> zn_score n = fst p \<Longrightarrow> zn_obj n = Some (snd p) \<Longrightarrow> skip n r = Some (\<not> G p)"
    "\<And>n t k p. p \<in> set xs \<Longrightarrow> zn_score n = fst p \<Longrightarrow> zn_obj n = Some (snd p) \<Longrightarrow> cond n t k = Some (L p)"
    "dels del (map snd (filter (\<lambda>p. G p \<and> L p) xs)) d = Some d'"
  shows "\<exists>z A C B. delete_run skip cond del zsl d = Some (z, d', length (filter (\<lambda>p. G p \<and> L p) xs)) \<and> ns = A @ C @ B \<and> A \<noteq> [] \<and>
    map content C = filter (\<lambda>p. G p \<and> L p) xs \<and> zsl_rep z (A @ B) (filter (\<lambda>p. \<not> (G p \<and> L p)) xs)"
proof -
  have srt: "zset_sorted xs" using assms(1) by (simp add: zsl_rep_def)
  then have rel: "sorted_wrt (\<lambda>p q. key_less p q \<and> p \<in> set xs \<and> q \<in> set xs) xs"
    unfolding zset_sorted_def by (auto intro: sorted_wrt_mono_rel)
  obtain as cs bs where p: "xs = as @ cs @ bs" "\<forall>p \<in> set as. \<not> G p" "\<forall>p \<in> set (cs @ bs). G p" "\<forall>p \<in> set cs. L p" "\<forall>p \<in> set bs. \<not> L p"
    by (rule range_parts [OF rel, of G L]) (use assms(3,4) in blast)+
  have f: "filter (\<lambda>p. G p \<and> L p) xs = cs" "filter (\<lambda>p. \<not> (G p \<and> L p)) xs = as @ bs"
    using p by (auto simp: filter_empty_conv filter_id_conv)
  show ?thesis unfolding f
  proof (rule delete_split)
    fix n :: "'a zskiplistNode" and r
    assume r: "1 \<le> r" "r \<le> length (as @ cs @ bs)" "zn_score n = fst ((as @ cs @ bs) ! (r - 1))" "zn_obj n = Some (snd ((as @ cs @ bs) ! (r - 1)))"
    then have "skip n r = Some (\<not> G ((as @ cs @ bs) ! (r - 1)))" using nth_mem [of "r - 1" "as @ cs @ bs"] by (intro assms(5)) (simp_all add: p(1))
    moreover have "\<not> G ((as @ cs @ bs) ! (r - 1)) \<longleftrightarrow> r - 1 < length as" using r(1,2) p(2,3) by (intro nth_parts) auto
    ultimately show "skip n r = Some (r \<le> length as)" using r(1) by auto
  next
    fix n :: "'a zskiplistNode" and j
    assume j: "j < length (cs @ bs)" "zn_score n = fst ((cs @ bs) ! j)" "zn_obj n = Some (snd ((cs @ bs) ! j))"
    then have "cond n (length as) j = Some (L ((cs @ bs) ! j))" using nth_mem [OF j(1)] by (intro assms(6)) (simp_all add: p(1))
    moreover have "L ((cs @ bs) ! j) \<longleftrightarrow> j < length cs" using j(1) p(4,5) by (rule nth_parts)
    ultimately show "cond n (length as) j = Some (j < length cs)" by simp
  qed (use assms(1,2) p(1) assms(7) [unfolded f] in simp_all)
qed

lemma zslDeleteRangeByScore_content:
  assumes "zsl_rep zsl ns xs" "length xs < 2 ^ 32" "dels (dict_del T) (map snd (filter (in_range rg) xs)) d = Some d'"
  shows "\<exists>z A C B. zslDeleteRangeByScore T zsl rg d = Some (z, d', length (filter (in_range rg) xs)) \<and> ns = A @ C @ B \<and> A \<noteq> [] \<and>
    map content C = filter (in_range rg) xs \<and> zsl_rep z (A @ B) (filter (\<lambda>p. \<not> in_range rg p) xs)"
  unfolding zslDeleteRangeByScore_def in_range_def
proof (rule delete_range_content [OF assms(1,2)])
  show "dels (dict_del T) (map snd (filter (\<lambda>p. zslValueGteMin (fst p) rg \<and> zslValueLteMax (fst p) rg) xs)) d = Some d'"
    using assms(3) by (simp add: in_range_def [abs_def])
qed (auto simp: zslValueGteMin_def zslValueLteMax_def dest: score_bounds)

lemma zslDeleteRangeByRank_content:
  assumes "zsl_rep zsl ns xs" "length xs < 2 ^ 32" "1 \<le> start" "dels (dict_del T) (map snd (take (end' + 1 - start) (drop (start - 1) xs))) d = Some d'"
  shows "\<exists>z A C B. zslDeleteRangeByRank T zsl start end' d = Some (z, d', min (end' + 1 - start) (length xs + 1 - start)) \<and> ns = A @ C @ B \<and> A \<noteq> [] \<and>
    map content C = take (end' + 1 - start) (drop (start - 1) xs) \<and> zsl_rep z (A @ B) (take (start - 1) xs @ drop (max (start - 1) end') xs)"
proof -
  let ?as = "take (start - 1) xs" and ?cs = "take (end' + 1 - start) (drop (start - 1) xs)" and ?bs = "drop (max (start - 1) end') xs"
  have d: "end' + 1 - start + (start - 1) = max (start - 1) end'" using assms(3) by simp
  have "drop (start - 1) xs = ?cs @ drop (end' + 1 - start) (drop (start - 1) xs)" by (rule append_take_drop_id [symmetric])
  then have xs: "xs = ?as @ ?cs @ ?bs" unfolding drop_drop d by (metis append_take_drop_id)
  have lc: "length ?cs = min (end' + 1 - start) (length xs + 1 - start)" using assms(3) by auto
  have "\<exists>z A C B. delete_run (\<lambda>n r. Some (r < start)) (\<lambda>n t k. Some (t + 1 + k \<le> end')) (dict_del T) zsl d = Some (z, d', length ?cs) \<and> ns = A @ C @ B \<and> A \<noteq> [] \<and>
    map content C = ?cs \<and> zsl_rep z (A @ B) (?as @ ?bs)"
  proof (rule delete_split)
    fix r :: nat
    assume "1 \<le> r" "r \<le> length (?as @ ?cs @ ?bs)"
    then show "Some (r < start) = Some (r \<le> length ?as)" unfolding xs [symmetric] using assms(3) by auto
  next
    fix j
    assume j: "j < length (?cs @ ?bs)" "j \<le> length ?cs"
    have "length xs = length ?as + length (?cs @ ?bs)" using arg_cong [OF xs, of length] by (simp only: length_append)
    then have lt: "length ?as + j < length xs" using j(1) by linarith
    then have la: "length ?as = start - 1" by simp
    then have "j < length xs + 1 - start" using lt assms(3) by linarith
    then have "j < length ?cs \<longleftrightarrow> j < end' + 1 - start" unfolding lc by simp
    then show "Some (length ?as + 1 + j \<le> end') = Some (j < length ?cs)" unfolding la using assms(3) by auto
  qed (simp_all only: xs [symmetric] assms)
  then show ?thesis unfolding lc zslDeleteRangeByRank_def .
qed

lemma dels_ok:
  assumes "dict_type_ok T" "dict_inv T d"
  shows "\<exists>d'. dels (dict_del T) obs d = Some d' \<and> dict_inv T d' \<and> dict_map T d' = (\<lambda>k. if \<exists>ob \<in> set obs. keyEq T ob k then None else dict_map T d k)"
  using assms(2)
proof (induction obs arbitrary: d)
  case (Cons ob obs)
  obtain d1 evs where d1: "dictGenericDelete T d ob False = Some (d1, dict_map T d ob \<noteq> None, evs)" "dict_inv T d1" "dict_map T d1 = map_del (keyEq T) (dict_map T d) ob"
    using dictGenericDelete_correct [OF assms(1) Cons.prems] by blast
  have "dict_del T d ob = Some d1" using d1(1) by (simp add: dict_del_def dictDelete_def)
  moreover obtain d' where "dels (dict_del T) obs d1 = Some d'" "dict_inv T d'" "dict_map T d' = (\<lambda>k. if \<exists>ob \<in> set obs. keyEq T ob k then None else dict_map T d1 k)"
    using Cons.IH [OF d1(2)] by blast
  ultimately show ?case using d1(3) by (auto simp: map_del_def fun_eq_iff)
qed simp

section \<open>Ranges of members\<close>

definition lex_gte :: "zlexrangespec \<Rightarrow> bytes \<Rightarrow> bool" where
  "lex_gte rg b = (case lex_min rg of LexMin \<Rightarrow> True | LexMax \<Rightarrow> False
     | LexStr ob \<Rightarrow> if lex_minex rg then byte_less (obj_bytes ob) b else \<not> byte_less b (obj_bytes ob))"

definition lex_lte :: "zlexrangespec \<Rightarrow> bytes \<Rightarrow> bool" where
  "lex_lte rg b = (case lex_max rg of LexMin \<Rightarrow> False | LexMax \<Rightarrow> True
     | LexStr ob \<Rightarrow> if lex_maxex rg then byte_less b (obj_bytes ob) else \<not> byte_less (obj_bytes ob) b)"

definition in_lex :: "zlexrangespec \<Rightarrow> 's zel \<Rightarrow> bool" where
  "in_lex rg p \<longleftrightarrow> lex_gte rg (obj_bytes (snd p)) \<and> lex_lte rg (obj_bytes (snd p))"

definition lex_ok :: "zlexrangespec \<Rightarrow> bool" where
  "lex_ok rg \<longleftrightarrow> robj_ok (bound_obj (lex_min rg)) \<and> robj_ok (bound_obj (lex_max rg))"

text \<open>One bound is a shared object and the other one a string with the same text, and one of them is exclusive.\<close>

definition lex_clash :: "zlexrangespec \<Rightarrow> bool" where
  "lex_clash rg \<longleftrightarrow> obj_bytes (bound_obj (lex_min rg)) = obj_bytes (bound_obj (lex_max rg)) \<and> (lex_minex rg \<or> lex_maxex rg) \<and>
     (lex_min rg \<in> {LexMin, LexMax} \<or> lex_max rg \<in> {LexMin, LexMax})"

lemma byte_less_asym: "byte_less x y \<Longrightarrow> \<not> byte_less y x"
  using byte_less_trans byte_less_irrefl by metis

lemma lexcompare_exact:
  assumes "robj_ok a" "robj_ok b"
  shows "\<exists>c. compareStringObjectsForLexRange (LexStr a) (LexStr b) = Some c \<and> (c < 0 \<longleftrightarrow> byte_less (obj_bytes a) (obj_bytes b)) \<and> (c = 0 \<longleftrightarrow> obj_bytes a = obj_bytes b)"
  using compareStringObjects_exact [OF assms] by (auto simp: compareStringObjectsForLexRange_def bound_obj_def)

lemma pos_iff_greater:
  assumes "c < 0 \<longleftrightarrow> byte_less x y" "c = 0 \<longleftrightarrow> x = y"
  shows "(0 :: int) < c \<longleftrightarrow> byte_less y x"
  using assms byte_less_total [of x y] byte_less_asym [of x y] byte_less_asym [of y x] byte_less_irrefl [of x]
  by (cases "c < 0"; cases "c = 0") auto

lemma zslLexValueGteMin_exact:
  assumes "robj_ok v" "robj_ok (bound_obj (lex_min rg))"
  shows "zslLexValueGteMin v rg = Some (lex_gte rg (obj_bytes v))"
proof (cases "lex_min rg")
  case (LexStr ob)
  then have "robj_ok ob" using assms(2) by (simp add: bound_obj_def)
  then obtain c where c: "compareStringObjectsForLexRange (LexStr v) (LexStr ob) = Some c" "c < 0 \<longleftrightarrow> byte_less (obj_bytes v) (obj_bytes ob)" "c = 0 \<longleftrightarrow> obj_bytes v = obj_bytes ob"
    using lexcompare_exact [OF assms(1)] by blast
  then have "0 < c \<longleftrightarrow> byte_less (obj_bytes ob) (obj_bytes v)" "0 \<le> c \<longleftrightarrow> \<not> byte_less (obj_bytes v) (obj_bytes ob)" using pos_iff_greater [OF c(2,3)] by (auto simp: not_le [symmetric])
  then show ?thesis using LexStr c(1) by (simp add: zslLexValueGteMin_def lex_gte_def)
qed (simp_all add: zslLexValueGteMin_def lex_gte_def compareStringObjectsForLexRange_def)

lemma zslLexValueLteMax_exact:
  assumes "robj_ok v" "robj_ok (bound_obj (lex_max rg))"
  shows "zslLexValueLteMax v rg = Some (lex_lte rg (obj_bytes v))"
proof (cases "lex_max rg")
  case (LexStr ob)
  then have "robj_ok ob" using assms(2) by (simp add: bound_obj_def)
  then obtain c where c: "compareStringObjectsForLexRange (LexStr v) (LexStr ob) = Some c" "c < 0 \<longleftrightarrow> byte_less (obj_bytes v) (obj_bytes ob)" "c = 0 \<longleftrightarrow> obj_bytes v = obj_bytes ob"
    using lexcompare_exact [OF assms(1)] by blast
  then have "c \<le> 0 \<longleftrightarrow> \<not> byte_less (obj_bytes ob) (obj_bytes v)" using pos_iff_greater [OF c(2,3)] by (simp add: not_less [symmetric])
  then show ?thesis using LexStr c(1,2) by (simp add: zslLexValueLteMax_def lex_lte_def)
qed (simp_all add: zslLexValueLteMax_def lex_lte_def compareStringObjectsForLexRange_def)

lemma lex_mono:
  assumes "byte_less x y"
  shows "lex_gte rg x \<Longrightarrow> lex_gte rg y" "lex_lte rg y \<Longrightarrow> lex_lte rg x"
  using assms by (auto simp: lex_gte_def lex_lte_def split: lexbound.splits if_splits intro: byte_less_trans)

lemma lex_bounds:
  assumes "\<forall>p \<in> set xs. fst p = s" "p \<in> set xs" "q \<in> set xs" "key_less p q"
  shows "lex_gte rg (obj_bytes (snd p)) \<Longrightarrow> lex_gte rg (obj_bytes (snd q))" "lex_lte rg (obj_bytes (snd q)) \<Longrightarrow> lex_lte rg (obj_bytes (snd p))"
  using assms by (auto simp: key_less_def intro: lex_mono)

text \<open>The test for ranges that are always empty is right for every range without such a clash.\<close>

lemma lex_empty:
  assumes "lex_ok rg"
  shows "\<exists>c c'. compareStringObjectsForLexRange (lex_min rg) (lex_max rg) = Some c \<and> compareStringObjects (bound_obj (lex_min rg)) (bound_obj (lex_max rg)) = Some c' \<and>
    (c' = 0 \<longleftrightarrow> obj_bytes (bound_obj (lex_min rg)) = obj_bytes (bound_obj (lex_max rg))) \<and>
    (\<not> lex_clash rg \<longrightarrow> c > 1 \<or> c' = 0 \<and> (lex_minex rg \<or> lex_maxex rg) \<longrightarrow> \<not> (lex_gte rg b \<and> lex_lte rg b))"
proof -
  obtain c' where c': "compareStringObjects (bound_obj (lex_min rg)) (bound_obj (lex_max rg)) = Some c'"
    "c' < 0 \<longleftrightarrow> byte_less (obj_bytes (bound_obj (lex_min rg))) (obj_bytes (bound_obj (lex_max rg)))"
    "c' = 0 \<longleftrightarrow> obj_bytes (bound_obj (lex_min rg)) = obj_bytes (bound_obj (lex_max rg))"
    using compareStringObjects_exact assms unfolding lex_ok_def by blast
  show ?thesis
  proof (cases "(\<exists>a. lex_min rg = LexStr a) \<and> (\<exists>b. lex_max rg = LexStr b)")
    case True
    then obtain x y where xy: "lex_min rg = LexStr x" "lex_max rg = LexStr y" by blast
    have c: "compareStringObjectsForLexRange (lex_min rg) (lex_max rg) = Some c'"
      using c' xy by (auto simp: compareStringObjectsForLexRange_def bound_obj_def)
    have bo: "c' = 0 \<longleftrightarrow> obj_bytes x = obj_bytes y" "0 < c' \<longleftrightarrow> byte_less (obj_bytes y) (obj_bytes x)"
      using c'(3) pos_iff_greater [OF c'(2,3)] xy by (simp_all add: bound_obj_def)
    have "\<not> byte_less b (obj_bytes x)" if "lex_gte rg b" using that xy by (auto simp: lex_gte_def byte_less_asym split: if_splits)
    moreover have "\<not> byte_less (obj_bytes y) b" if "lex_lte rg b" using that xy by (auto simp: lex_lte_def byte_less_asym split: if_splits)
    ultimately have "\<not> (lex_gte rg b \<and> lex_lte rg b)" if "byte_less (obj_bytes y) (obj_bytes x)"
      using that byte_less_total [of "obj_bytes y" b] byte_less_trans [of b "obj_bytes y" "obj_bytes x"] by blast
    moreover have "\<not> (lex_gte rg b \<and> lex_lte rg b)" if "obj_bytes x = obj_bytes y" "lex_minex rg \<or> lex_maxex rg"
      using that xy byte_less_asym by (auto simp: lex_gte_def lex_lte_def split: if_splits)
    ultimately show ?thesis using c c'(1,3) bo by auto
  next
    case False
    obtain c where c: "compareStringObjectsForLexRange (lex_min rg) (lex_max rg) = Some c" "c \<le> 1"
      using False by (cases "lex_min rg"; cases "lex_max rg") (auto simp: compareStringObjectsForLexRange_def)
    have "lex_min rg \<in> {LexMin, LexMax} \<or> lex_max rg \<in> {LexMin, LexMax}" using False by (cases "lex_min rg"; cases "lex_max rg") auto
    then show ?thesis using c c'(1,3) by (auto simp: lex_clash_def)
  qed
qed

lemma zslIsInLexRange_exact:
  assumes "zsl_rep zsl ns xs" "\<forall>p \<in> set xs. fst p = s" "lex_ok rg" "\<not> lex_clash rg"
  shows "\<exists>b. zslIsInLexRange zsl rg = Some b \<and>
    (if b then xs \<noteq> [] \<and> lex_gte rg (obj_bytes (snd (last xs))) \<and> lex_lte rg (obj_bytes (snd (xs ! 0))) else \<forall>p \<in> set xs. \<not> in_lex rg p)"
proof -
  obtain c c' where c: "compareStringObjectsForLexRange (lex_min rg) (lex_max rg) = Some c" "compareStringObjects (bound_obj (lex_min rg)) (bound_obj (lex_max rg)) = Some c'"
    "\<And>b. c > 1 \<or> c' = 0 \<and> (lex_minex rg \<or> lex_maxex rg) \<Longrightarrow> \<not> (lex_gte rg b \<and> lex_lte rg b)"
    using lex_empty [OF assms(3)] assms(4) by (metis option.inject)
  note start = zslIsInLexRange_def c(1,2) Option.bind.bind_lunit
  show ?thesis
  proof (cases "c > 1 \<or> c' = 0 \<and> (lex_minex rg \<or> lex_maxex rg)")
    case True
    then have "zslIsInLexRange zsl rg = Some False" unfolding start by simp
    then show ?thesis using c(3) [OF True] by (intro exI [of _ False]) (simp add: in_lex_def)
  next
    case False
    have srt: "zset_sorted xs" using assms(1) by (simp add: zsl_rep_def)
    let ?G = "\<lambda>p :: 'a zel. lex_gte rg (obj_bytes (snd p))" and ?L = "\<lambda>p :: 'a zel. lex_lte rg (obj_bytes (snd p))"
    have out: "\<forall>p \<in> set xs. \<not> in_lex rg p" if "xs = [] \<or> \<not> ?G (last xs) \<or> \<not> ?L (xs ! 0)"
      unfolding in_lex_def by (rule range_outside [where G = ?G and L = ?L, OF srt _ _ that]) (blast dest: lex_bounds [OF assms(2)])+
    show ?thesis
    proof (cases "xs = []")
      case True
      then have "tail zsl = None" using empty_tail assms(1) by simp
      then have "zslIsInLexRange zsl rg = Some False" unfolding start if_not_P [OF False] by simp
      then show ?thesis using True by (intro exI [of _ False]) simp
    next
      case ne: False
      obtain x n l y m where e: "tail zsl = Some x" "heap zsl x = Some n" "zn_obj n = Some (snd (last xs))" "level_at (heap zsl) (header zsl) 0 = Some l"
        "forward l = Some y" "heap zsl y = Some m" "zn_obj m = Some (snd (xs ! 0))" using list_ends [OF assms(1) ne] by auto
      have "robj_ok (snd (last xs))" "robj_ok (snd (xs ! 0))" using zset_sortedD [OF srt] ne by auto
      then have "zslLexValueGteMin (snd (last xs)) rg = Some (?G (last xs))" "zslLexValueLteMax (snd (xs ! 0)) rg = Some (?L (xs ! 0))"
        using zslLexValueGteMin_exact zslLexValueLteMax_exact assms(3) unfolding lex_ok_def by blast+
      then have "zslIsInLexRange zsl rg = Some (?G (last xs) \<and> ?L (xs ! 0))" unfolding start if_not_P [OF False] using e by simp
      then show ?thesis using out ne by auto
    qed
  qed
qed

lemma lex_conds:
  assumes "lex_ok rg" "zset_sorted xs" "p \<in> set xs" "zn_obj n = Some (snd p)"
  shows "do { ob \<leftarrow> zn_obj n; b \<leftarrow> zslLexValueGteMin ob rg; Some (\<not> b) } = Some (\<not> lex_gte rg (obj_bytes (snd p)))"
    "do { ob \<leftarrow> zn_obj n; zslLexValueLteMax ob rg } = Some (lex_lte rg (obj_bytes (snd p)))"
    "do { ob \<leftarrow> zn_obj n; zslLexValueGteMin ob rg } = Some (lex_gte rg (obj_bytes (snd p)))"
  using assms zslLexValueGteMin_exact [of "snd p" rg] zslLexValueLteMax_exact [of "snd p" rg] zset_sortedD [OF assms(2,3)] by (simp_all add: lex_ok_def)

lemma zslFirstInLexRange_content:
  assumes "zsl_rep zsl ns xs" "length xs < 2 ^ 32" "\<forall>p \<in> set xs. fst p = s" "lex_ok rg" "\<not> lex_clash rg"
  shows "\<exists>r. zslFirstInLexRange zsl rg = Some r \<and> (case find (in_lex rg) xs of None \<Rightarrow> r = None | Some p \<Rightarrow> \<exists>a. r = Some a \<and> points zsl a p)"
proof -
  let ?G = "\<lambda>p :: 'a zel. lex_gte rg (obj_bytes (snd p))" and ?L = "\<lambda>p :: 'a zel. lex_lte rg (obj_bytes (snd p))"
  let ?cond = "\<lambda>(n :: 'a zskiplistNode) (r :: nat). do { ob \<leftarrow> zn_obj n; b \<leftarrow> zslLexValueGteMin ob rg; Some (\<not> b) }"
  have srt: "zset_sorted xs" using assms(1) by (simp add: zsl_rep_def)
  obtain b where b: "zslIsInLexRange zsl rg = Some b" "if b then xs \<noteq> [] \<and> ?G (last xs) \<and> ?L (xs ! 0) else \<forall>p \<in> set xs. \<not> in_lex rg p"
    using zslIsInLexRange_exact [OF assms(1,3-5)] by blast
  show ?thesis
  proof (cases b)
    case True
    have ne: "xs \<noteq> []" "?G (last xs)" using b(2) True by auto
    have "\<exists>x l y n p. last_node ?cond zsl = Some x \<and> level_at (heap zsl) x 0 = Some l \<and> forward l = Some y \<and>
      heap zsl y = Some n \<and> p \<in> set xs \<and> zn_score n = fst p \<and> zn_obj n = Some (snd p) \<and> find (\<lambda>p. ?G p \<and> ?L p) xs = (if ?L p then Some p else None)"
      by (rule first_in [where G = ?G and L = ?L, OF assms(1,2) ne]) (blast dest: lex_bounds [OF assms(3)], blast dest: lex_bounds [OF assms(3)], rule lex_conds(1) [OF assms(4) srt])
    then obtain x l y n p where r: "last_node ?cond zsl = Some x" "level_at (heap zsl) x 0 = Some l"
      "forward l = Some y" "heap zsl y = Some n" "p \<in> set xs" "zn_score n = fst p" "zn_obj n = Some (snd p)" "find (\<lambda>p. ?G p \<and> ?L p) xs = (if ?L p then Some p else None)"
      by blast
    have "zslLexValueLteMax (snd p) rg = Some (?L p)" using lex_conds(2) [OF assms(4) srt r(5,7)] r(7) by simp
    then have "zslFirstInLexRange zsl rg = Some (if ?L p then Some y else None)"
      unfolding zslFirstInLexRange_def b(1) r(1) Option.bind.bind_lunit using True r(2-4,7) by simp
    moreover have "find (in_lex rg) xs = (if ?L p then Some p else None)" using r(8) by (simp add: in_lex_def [abs_def])
    ultimately show ?thesis using r(4-7) by (auto simp: points_def)
  next
    case False
    then show ?thesis using b find_None [of xs "in_lex rg"] by (simp add: zslFirstInLexRange_def)
  qed
qed

lemma zslLastInLexRange_content:
  assumes "zsl_rep zsl ns xs" "length xs < 2 ^ 32" "\<forall>p \<in> set xs. fst p = s" "lex_ok rg" "\<not> lex_clash rg"
  shows "\<exists>r. zslLastInLexRange zsl rg = Some r \<and> (case find (in_lex rg) (rev xs) of None \<Rightarrow> r = None | Some p \<Rightarrow> \<exists>a. r = Some a \<and> points zsl a p)"
proof -
  let ?G = "\<lambda>p :: 'a zel. lex_gte rg (obj_bytes (snd p))" and ?L = "\<lambda>p :: 'a zel. lex_lte rg (obj_bytes (snd p))"
  let ?cond = "\<lambda>(n :: 'a zskiplistNode) (r :: nat). do { ob \<leftarrow> zn_obj n; zslLexValueLteMax ob rg }"
  have srt: "zset_sorted xs" using assms(1) by (simp add: zsl_rep_def)
  obtain b where b: "zslIsInLexRange zsl rg = Some b" "if b then xs \<noteq> [] \<and> ?G (last xs) \<and> ?L (xs ! 0) else \<forall>p \<in> set xs. \<not> in_lex rg p"
    using zslIsInLexRange_exact [OF assms(1,3-5)] by blast
  show ?thesis
  proof (cases b)
    case True
    have ne: "xs \<noteq> []" "?L (xs ! 0)" using b(2) True by auto
    have "\<exists>x n p. last_node ?cond zsl = Some x \<and> heap zsl x = Some n \<and> p \<in> set xs \<and>
      zn_score n = fst p \<and> zn_obj n = Some (snd p) \<and> find (\<lambda>p. ?G p \<and> ?L p) (rev xs) = (if ?G p then Some p else None)"
      by (rule last_in [where G = ?G and L = ?L, OF assms(1,2) ne]) (blast dest: lex_bounds [OF assms(3)], blast dest: lex_bounds [OF assms(3)], rule lex_conds(2) [OF assms(4) srt])
    then obtain x n p where r: "last_node ?cond zsl = Some x" "heap zsl x = Some n" "p \<in> set xs"
      "zn_score n = fst p" "zn_obj n = Some (snd p)" "find (\<lambda>p. ?G p \<and> ?L p) (rev xs) = (if ?G p then Some p else None)" by blast
    have "zslLexValueGteMin (snd p) rg = Some (?G p)" using lex_conds(3) [OF assms(4) srt r(3,5)] r(5) by simp
    then have "zslLastInLexRange zsl rg = Some (if ?G p then Some x else None)"
      unfolding zslLastInLexRange_def b(1) r(1) Option.bind.bind_lunit using True r(2,5) by simp
    moreover have "find (in_lex rg) (rev xs) = (if ?G p then Some p else None)" using r(6) by (simp add: in_lex_def [abs_def])
    ultimately show ?thesis using r(2-5) by (auto simp: points_def)
  next
    case False
    then show ?thesis using b find_None [of "rev xs" "in_lex rg"] by (simp add: zslLastInLexRange_def)
  qed
qed

lemma zslDeleteRangeByLex_content:
  assumes "zsl_rep zsl ns xs" "length xs < 2 ^ 32" "\<forall>p \<in> set xs. fst p = s" "lex_ok rg" "dels (dict_del T) (map snd (filter (in_lex rg) xs)) d = Some d'"
  shows "\<exists>z A C B. zslDeleteRangeByLex T zsl rg d = Some (z, d', length (filter (in_lex rg) xs)) \<and> ns = A @ C @ B \<and> A \<noteq> [] \<and>
    map content C = filter (in_lex rg) xs \<and> zsl_rep z (A @ B) (filter (\<lambda>p. \<not> in_lex rg p) xs)"
  unfolding zslDeleteRangeByLex_def in_lex_def
proof (rule delete_range_content [OF assms(1,2)])
  have srt: "zset_sorted xs" using assms(1) by (simp add: zsl_rep_def)
  show "do { ob \<leftarrow> zn_obj n; b \<leftarrow> zslLexValueGteMin ob rg; Some (\<not> b) } = Some (\<not> lex_gte rg (obj_bytes (snd p)))"
    if "p \<in> set xs" "zn_obj n = Some (snd p)" for n :: "'a zskiplistNode" and p by (rule lex_conds(1) [OF assms(4) srt that])
  show "do { ob \<leftarrow> zn_obj n; zslLexValueLteMax ob rg } = Some (lex_lte rg (obj_bytes (snd p)))"
    if "p \<in> set xs" "zn_obj n = Some (snd p)" for n :: "'a zskiplistNode" and p by (rule lex_conds(2) [OF assms(4) srt that])
  show "dels (dict_del T) (map snd (filter (\<lambda>p. lex_gte rg (obj_bytes (snd p)) \<and> lex_lte rg (obj_bytes (snd p))) xs)) d = Some d'"
    using assms(5) by (simp add: in_lex_def [abs_def])
qed (blast dest: lex_bounds [OF assms(3)])+

text \<open>With a clash the list is reported to hold no part of the range, whatever it holds.\<close>

lemma lex_clash_empty:
  assumes "lex_clash rg" "lex_ok rg"
  shows "zslIsInLexRange zsl rg = Some False" "zslFirstInLexRange zsl rg = Some None" "zslLastInLexRange zsl rg = Some None"
proof -
  obtain c c' where c: "compareStringObjectsForLexRange (lex_min rg) (lex_max rg) = Some c" "compareStringObjects (bound_obj (lex_min rg)) (bound_obj (lex_max rg)) = Some c'"
    "c' = 0 \<longleftrightarrow> obj_bytes (bound_obj (lex_min rg)) = obj_bytes (bound_obj (lex_max rg))"
    using lex_empty [OF assms(2)] by blast
  have g: "c > 1 \<or> c' = 0 \<and> (lex_minex rg \<or> lex_maxex rg)" using assms(1) c(3) by (simp add: lex_clash_def)
  show "zslIsInLexRange zsl rg = Some False" unfolding zslIsInLexRange_def c(1,2) Option.bind.bind_lunit if_P [OF g] ..
  then show "zslFirstInLexRange zsl rg = Some None" "zslLastInLexRange zsl rg = Some None"
    by (simp_all add: zslFirstInLexRange_def zslLastInLexRange_def)
qed

end
