(* ===== verification/Zset.thy ===== *)
theory Zset
  imports Skiplist_Range
begin

text \<open>
  Sorted sets in their skip list encoding: a dictionary from members to the scores inside the nodes of a skip list, and the commands of
  \<^verbatim>\<open>t_zset.c\<close> on it.  A dictionary value is the address of a score; here it is the address of the node that holds it.  Arguments of a command are
  byte strings, as the request parser makes them; numbers among them are given parsed where the parser is \<open>strtod\<close> or \<open>strtoll\<close>.
\<close>

section \<open>The state\<close>

record 's zset =
  zs_dict :: "(robj, addr) dict"
  zs_zsl :: "'s zskiplist"

text \<open>What the commands take from their surroundings: the seed of the hash function, \<open>dict_can_resize\<close>, the content of a fresh dictionary
  entry, whether the argument objects are referenced elsewhere, the sum of two scores (none when it is not a number) and the conversion of an
  argument to a score.\<close>

record 's zenv =
  seed :: "32 word"
  can_resize :: bool
  uninit :: addr
  args_shared :: bool
  fadd :: "'s \<Rightarrow> 's \<Rightarrow> 's option"
  parse_score :: "bytes \<Rightarrow> 's option"

datatype 's zkey = NoKey | WrongType | ZKey "'s zset"

datatype zerror = SyntaxErr | XXandNXErr | IncrPairErr | NotFloatErr | NaNErr | WrongTypeErr

datatype 's zreply = RpErr zerror | RpNil | RpInt int | RpScore 's | RpList "(bytes \<times> 's option) list"

definition tryObjectEncoding :: "bool \<Rightarrow> robj \<Rightarrow> robj" where
  "tryObjectEncoding refs ob = (case ob of
     RInt w \<Rightarrow> ob
   | RStr s \<Rightarrow>
       if refs then ob
       else if length s \<le> 20 then (case string2l s of Some v \<Rightarrow> RInt (word_of_int v) | None \<Rightarrow> ob)
       else ob)"

definition createZsetObject :: "('s :: zero) zset option" where
  "createZsetObject = do { zsl \<leftarrow> zslCreate; Some \<lparr>zs_dict = dictCreate, zs_zsl = zsl\<rparr> }"

definition score_at :: "'s zset \<Rightarrow> addr \<Rightarrow> 's option" where
  "score_at zs a = map_option zn_score (heap (zs_zsl zs) a)"

definition zsetLength :: "'s zset \<Rightarrow> nat" where
  "zsetLength zs = zlength (zs_zsl zs)"

definition zsetScore :: "'s zenv \<Rightarrow> 's zset \<Rightarrow> robj \<Rightarrow> ('s zset \<times> 's option) option" where
  "zsetScore env zs member = do {
     (d, de) \<leftarrow> dictFind (zsetDictType (seed env)) (zs_dict zs) member;
     let zs = zs\<lparr>zs_dict := d\<rparr>;
     case de of
       None \<Rightarrow> Some (zs, None)
     | Some x \<Rightarrow> do { e \<leftarrow> entry_at d x; s \<leftarrow> score_at zs (snd e); Some (zs, Some s) }
   }"

section \<open>ZADD and ZINCRBY\<close>

record zadd_flags =
  f_incr :: bool
  f_nx :: bool
  f_xx :: bool
  f_ch :: bool

record 's zadd_counts =
  added :: nat
  updated :: nat
  processed :: nat
  last_score :: 's

fun zadd_options :: "zadd_flags \<Rightarrow> bytes list \<Rightarrow> zadd_flags \<times> bytes list" where
  "zadd_options f [] = (f, [])"
| "zadd_options f (opt # args) =
     (if dictSdsKeyCaseCompare opt [110, 120] then zadd_options (f\<lparr>f_nx := True\<rparr>) args
      else if dictSdsKeyCaseCompare opt [120, 120] then zadd_options (f\<lparr>f_xx := True\<rparr>) args
      else if dictSdsKeyCaseCompare opt [99, 104] then zadd_options (f\<lparr>f_ch := True\<rparr>) args
      else if dictSdsKeyCaseCompare opt [105, 110, 99, 114] then zadd_options (f\<lparr>f_incr := True\<rparr>) args
      else (f, opt # args))"

text \<open>The body of the loop over the elements; the last component says that the score became not-a-number, which ends the command.  The value of
  the entry is assigned directly; the dictionary type of sorted sets copies no values.\<close>

definition zadd_element :: "('s :: linorder) zenv \<Rightarrow> zadd_flags \<Rightarrow> 's zset \<Rightarrow> 's zadd_counts \<Rightarrow> 's \<Rightarrow> bytes \<Rightarrow> nat list \<Rightarrow> ('s zset \<times> 's zadd_counts \<times> bool) option" where
  "zadd_element env f zs st score arg rs = do {
     let T = zsetDictType (seed env);
     let ele = tryObjectEncoding (args_shared env) (RStr arg);
     (d, de) \<leftarrow> dictFind T (zs_dict zs) ele;
     let zs = zs\<lparr>zs_dict := d\<rparr>;
     case de of
       Some x \<Rightarrow>
         if f_nx f then Some (zs, st\<lparr>last_score := score\<rparr>, False)
         else do {
           e \<leftarrow> entry_at d x;
           let curobj = fst e;
           curscore \<leftarrow> score_at zs (snd e);
           case (if f_incr f then fadd env score curscore else Some score) of
             None \<Rightarrow> Some (zs, st, True)
           | Some score \<Rightarrow>
               if score \<noteq> curscore then do {
                 (zsl, deleted) \<leftarrow> zslDelete (zs_zsl zs) curscore curobj;
                 if \<not> deleted then None
                 else do {
                   (zsl, znode) \<leftarrow> zslInsert zsl score curobj rs;
                   d \<leftarrow> dictSetVal T d x znode;
                   Some (\<lparr>zs_dict = d, zs_zsl = zsl\<rparr>, st\<lparr>updated := updated st + 1, processed := processed st + 1, last_score := score\<rparr>, False)
                 }
               }
               else Some (zs, st\<lparr>processed := processed st + 1, last_score := score\<rparr>, False)
         }
     | None \<Rightarrow>
         if f_xx f then Some (zs, st\<lparr>last_score := score\<rparr>, False)
         else do {
           (zsl, znode) \<leftarrow> zslInsert (zs_zsl zs) score ele rs;
           (d, ok) \<leftarrow> dictAdd T (can_resize env) (uninit env) d ele znode;
           if \<not> ok then None
           else Some (\<lparr>zs_dict = d, zs_zsl = zsl\<rparr>, st\<lparr>added := added st + 1, processed := processed st + 1, last_score := score\<rparr>, False)
         }
   }"

fun zadd_loop :: "('s :: linorder) zenv \<Rightarrow> zadd_flags \<Rightarrow> 's zset \<Rightarrow> 's zadd_counts \<Rightarrow> ('s \<times> bytes) list \<Rightarrow> nat list list \<Rightarrow> ('s zset \<times> 's zadd_counts \<times> bool) option" where
  "zadd_loop env f zs st [] rss = Some (zs, st, False)"
| "zadd_loop env f zs st (x # xs) [] = None"
| "zadd_loop env f zs st ((score, arg) # xs) (rs # rss) = do {
     (zs, st, nan) \<leftarrow> zadd_element env f zs st score arg rs;
     if nan then Some (zs, st, True) else zadd_loop env f zs st xs rss
   }"

fun zadd_pairs :: "bytes list \<Rightarrow> (bytes \<times> bytes) list" where
  "zadd_pairs (s # m # args) = (s, m) # zadd_pairs args"
| "zadd_pairs args = []"

fun parse_scores :: "(bytes \<Rightarrow> 's option) \<Rightarrow> (bytes \<times> bytes) list \<Rightarrow> ('s \<times> bytes) list option" where
  "parse_scores p [] = Some []"
| "parse_scores p ((s, m) # xs) = do { v \<leftarrow> p s; ys \<leftarrow> parse_scores p xs; Some ((v, m) # ys) }"

definition zadd_reply :: "zadd_flags \<Rightarrow> 's zadd_counts \<Rightarrow> 's zreply" where
  "zadd_reply f st =
     (if f_incr f then if processed st > 0 then RpScore (last_score st) else RpNil
      else RpInt (int (if f_ch f then added st + updated st else added st)))"

definition zadd_run :: "('s :: linorder) zenv \<Rightarrow> zadd_flags \<Rightarrow> 's zset \<Rightarrow> 's zadd_counts \<Rightarrow> ('s \<times> bytes) list \<Rightarrow> nat list list \<Rightarrow> ('s zkey \<times> 's zreply \<times> nat) option" where
  "zadd_run env f zs st xs rss = do {
     (zs, st, nan) \<leftarrow> zadd_loop env f zs st xs rss;
     Some (ZKey zs, if nan then RpErr NaNErr else zadd_reply f st, added st + updated st)
   }"

text \<open>\<open>args\<close> are the arguments after the key, and \<open>rss\<close> the values of \<open>random()\<close> for each of the elements.  The result is the key's new value,
  the reply and the number of changes.\<close>

definition zaddGenericCommand :: "('s :: {linorder, zero}) zenv \<Rightarrow> zadd_flags \<Rightarrow> 's zkey \<Rightarrow> bytes list \<Rightarrow> nat list list \<Rightarrow> ('s zkey \<times> 's zreply \<times> nat) option" where
  "zaddGenericCommand env f key args rss =
     (let (f, args) = zadd_options f args;
          elements = length args;
          st = \<lparr>added = 0, updated = 0, processed = 0, last_score = 0\<rparr>
      in if elements mod 2 \<noteq> 0 \<or> elements = 0 then Some (key, RpErr SyntaxErr, 0)
         else if f_nx f \<and> f_xx f then Some (key, RpErr XXandNXErr, 0)
         else if f_incr f \<and> elements div 2 > 1 then Some (key, RpErr IncrPairErr, 0)
         else case parse_scores (parse_score env) (zadd_pairs args) of
           None \<Rightarrow> Some (key, RpErr NotFloatErr, 0)
         | Some xs \<Rightarrow>
             (case key of
                NoKey \<Rightarrow> if f_xx f then Some (NoKey, zadd_reply f st, 0)
                  else do { zs \<leftarrow> createZsetObject; zadd_run env f zs st xs rss }
              | WrongType \<Rightarrow> Some (WrongType, RpErr WrongTypeErr, 0)
              | ZKey zs \<Rightarrow> zadd_run env f zs st xs rss))"

definition zaddCommand :: "('s :: {linorder, zero}) zenv \<Rightarrow> 's zkey \<Rightarrow> bytes list \<Rightarrow> nat list list \<Rightarrow> ('s zkey \<times> 's zreply \<times> nat) option" where
  "zaddCommand env = zaddGenericCommand env \<lparr>f_incr = False, f_nx = False, f_xx = False, f_ch = False\<rparr>"

definition zincrbyCommand :: "('s :: {linorder, zero}) zenv \<Rightarrow> 's zkey \<Rightarrow> bytes list \<Rightarrow> nat list list \<Rightarrow> ('s zkey \<times> 's zreply \<times> nat) option" where
  "zincrbyCommand env = zaddGenericCommand env \<lparr>f_incr = True, f_nx = False, f_xx = False, f_ch = False\<rparr>"

section \<open>ZREM and ZREMRANGE\<close>

text \<open>The key is deleted with its last member.\<close>

fun zrem_loop :: "('s :: linorder) zenv \<Rightarrow> 's zset \<Rightarrow> bytes list \<Rightarrow> nat \<Rightarrow> ('s zkey \<times> nat) option" where
  "zrem_loop env zs [] deleted = Some (ZKey zs, deleted)"
| "zrem_loop env zs (m # ms) deleted = do {
     let T = zsetDictType (seed env);
     (d, de) \<leftarrow> dictFind T (zs_dict zs) (RStr m);
     let zs = zs\<lparr>zs_dict := d\<rparr>;
     case de of
       None \<Rightarrow> zrem_loop env zs ms deleted
     | Some x \<Rightarrow> do {
         e \<leftarrow> entry_at d x;
         score \<leftarrow> score_at zs (snd e);
         (zsl, ok) \<leftarrow> zslDelete (zs_zsl zs) score (RStr m);
         if \<not> ok then None
         else do {
           (d, found, freed) \<leftarrow> dictDelete T d (RStr m);
           let d = tryResizeHashTable (can_resize env) d;
           if dictSize d = 0 then Some (NoKey, deleted + 1)
           else zrem_loop env \<lparr>zs_dict = d, zs_zsl = zsl\<rparr> ms (deleted + 1)
         }
       }
   }"

definition zremCommand :: "('s :: linorder) zenv \<Rightarrow> 's zkey \<Rightarrow> bytes list \<Rightarrow> ('s zkey \<times> 's zreply \<times> nat) option" where
  "zremCommand env key members = (case key of
     NoKey \<Rightarrow> Some (key, RpInt 0, 0)
   | WrongType \<Rightarrow> Some (key, RpErr WrongTypeErr, 0)
   | ZKey zs \<Rightarrow> do { (key, deleted) \<leftarrow> zrem_loop env zs members 0; Some (key, RpInt (int deleted), deleted) })"

datatype 's rangetype = RankRange int int | ScoreRange "'s zrangespec" | LexRange zlexrangespec

text \<open>Negative indexes count from the end; the result is empty or a range of valid indexes.\<close>

definition sanitize :: "int \<Rightarrow> int \<Rightarrow> nat \<Rightarrow> (nat \<times> nat) option" where
  "sanitize start end' llen =
     (let start = (if start < 0 then int llen + start else start);
          end' = (if end' < 0 then int llen + end' else end');
          start = (if start < 0 then 0 else start)
      in if start > end' \<or> start \<ge> int llen then None
         else Some (nat start, nat (if end' \<ge> int llen then int llen - 1 else end')))"

text \<open>The deletion itself; none if the range of indexes is empty.\<close>

definition zremrange_delete :: "('s :: linorder) zenv \<Rightarrow> 's zset \<Rightarrow> 's rangetype \<Rightarrow> ('s zskiplist \<times> (robj, addr) dict \<times> nat) option option" where
  "zremrange_delete env zs rt = (case rt of
     RankRange start end' \<Rightarrow>
       (case sanitize start end' (zsetLength zs) of
          None \<Rightarrow> Some None
        | Some (start, end') \<Rightarrow> map_option Some (zslDeleteRangeByRank (zsetDictType (seed env)) (zs_zsl zs) (start + 1) (end' + 1) (zs_dict zs)))
   | ScoreRange rg \<Rightarrow> map_option Some (zslDeleteRangeByScore (zsetDictType (seed env)) (zs_zsl zs) rg (zs_dict zs))
   | LexRange rg \<Rightarrow> map_option Some (zslDeleteRangeByLex (zsetDictType (seed env)) (zs_zsl zs) rg (zs_dict zs)))"

definition zremrangeGenericCommand :: "('s :: linorder) zenv \<Rightarrow> 's zkey \<Rightarrow> 's rangetype \<Rightarrow> ('s zkey \<times> 's zreply \<times> nat) option" where
  "zremrangeGenericCommand env key rt = (case key of
     NoKey \<Rightarrow> Some (key, RpInt 0, 0)
   | WrongType \<Rightarrow> Some (key, RpErr WrongTypeErr, 0)
   | ZKey zs \<Rightarrow> do {
       res \<leftarrow> zremrange_delete env zs rt;
       case res of
         None \<Rightarrow> Some (key, RpInt 0, 0)
       | Some (zsl, d, deleted) \<Rightarrow> do {
           let d = tryResizeHashTable (can_resize env) d;
           Some (if dictSize d = 0 then NoKey else ZKey \<lparr>zs_dict = d, zs_zsl = zsl\<rparr>, RpInt (int deleted), deleted)
         }
     })"

section \<open>Queries\<close>

definition zcardCommand :: "'s zkey \<Rightarrow> 's zreply" where
  "zcardCommand key = (case key of NoKey \<Rightarrow> RpInt 0 | WrongType \<Rightarrow> RpErr WrongTypeErr | ZKey zs \<Rightarrow> RpInt (int (zsetLength zs)))"

definition zscoreCommand :: "'s zenv \<Rightarrow> 's zkey \<Rightarrow> bytes \<Rightarrow> ('s zkey \<times> 's zreply) option" where
  "zscoreCommand env key m = (case key of
     NoKey \<Rightarrow> Some (key, RpNil)
   | WrongType \<Rightarrow> Some (key, RpErr WrongTypeErr)
   | ZKey zs \<Rightarrow> do { (zs, s) \<leftarrow> zsetScore env zs (RStr m); Some (ZKey zs, case s of None \<Rightarrow> RpNil | Some s \<Rightarrow> RpScore s) })"

definition zrankGenericCommand :: "('s :: linorder) zenv \<Rightarrow> bool \<Rightarrow> 's zkey \<Rightarrow> bytes \<Rightarrow> ('s zkey \<times> 's zreply) option" where
  "zrankGenericCommand env reverse key m = (case key of
     NoKey \<Rightarrow> Some (key, RpNil)
   | WrongType \<Rightarrow> Some (key, RpErr WrongTypeErr)
   | ZKey zs \<Rightarrow> do {
       let llen = zsetLength zs;
       (d, de) \<leftarrow> dictFind (zsetDictType (seed env)) (zs_dict zs) (RStr m);
       let zs = zs\<lparr>zs_dict := d\<rparr>;
       case de of
         None \<Rightarrow> Some (ZKey zs, RpNil)
       | Some x \<Rightarrow> do {
           e \<leftarrow> entry_at d x;
           score \<leftarrow> score_at zs (snd e);
           rank \<leftarrow> zslGetRank (zs_zsl zs) score (RStr m);
           if rank = 0 then None
           else Some (ZKey zs, RpInt (if reverse then int llen - int rank else int rank - 1))
         }
     })"

text \<open>The two counting commands differ only in the searches for the ends of the range.\<close>

definition count_range :: "('s :: linorder) zskiplist \<Rightarrow> addr option option \<Rightarrow> addr option option \<Rightarrow> int option" where
  "count_range zsl first last' = do {
     zn \<leftarrow> first;
     case zn of
       None \<Rightarrow> Some 0
     | Some x \<Rightarrow> do {
         n \<leftarrow> heap zsl x;
         ob \<leftarrow> zn_obj n;
         rank \<leftarrow> zslGetRank zsl (zn_score n) ob;
         let count = to_int32 (int (zlength zsl) - (int rank - 1));
         zn \<leftarrow> last';
         case zn of
           None \<Rightarrow> Some count
         | Some x \<Rightarrow> do {
             n \<leftarrow> heap zsl x;
             ob \<leftarrow> zn_obj n;
             rank \<leftarrow> zslGetRank zsl (zn_score n) ob;
             Some (to_int32 (count - (int (zlength zsl) - int rank)))
           }
       }
   }"

definition zcountCommand :: "('s :: linorder) zkey \<Rightarrow> 's zrangespec \<Rightarrow> 's zreply option" where
  "zcountCommand key rg = (case key of
     NoKey \<Rightarrow> Some (RpInt 0)
   | WrongType \<Rightarrow> Some (RpErr WrongTypeErr)
   | ZKey zs \<Rightarrow> map_option RpInt (count_range (zs_zsl zs) (zslFirstInRange (zs_zsl zs) rg) (zslLastInRange (zs_zsl zs) rg)))"

definition zlexcountCommand :: "('s :: linorder) zkey \<Rightarrow> zlexrangespec \<Rightarrow> 's zreply option" where
  "zlexcountCommand key rg = (case key of
     NoKey \<Rightarrow> Some (RpInt 0)
   | WrongType \<Rightarrow> Some (RpErr WrongTypeErr)
   | ZKey zs \<Rightarrow> map_option RpInt (count_range (zs_zsl zs) (zslFirstInLexRange (zs_zsl zs) rg) (zslLastInLexRange (zs_zsl zs) rg)))"

text \<open>Going through the nodes, in either direction.\<close>

definition next_node :: "bool \<Rightarrow> 's zskiplistNode \<Rightarrow> addr option option" where
  "next_node reverse n = (if reverse then Some (backward n) else do { l \<leftarrow> arr_get (levels n) 0; Some (forward l) })"

definition reply_item :: "bool \<Rightarrow> 's zskiplistNode \<Rightarrow> (bytes \<times> 's option) option" where
  "reply_item withscores n = do {
     ob \<leftarrow> zn_obj n;
     s \<leftarrow> getDecodedObject ob;
     Some (s, if withscores then Some (zn_score n) else None)
   }"

fun range_loop :: "bool \<Rightarrow> bool \<Rightarrow> 's zheap \<Rightarrow> nat \<Rightarrow> addr option \<Rightarrow> (bytes \<times> 's option) list option" where
  "range_loop reverse withscores h 0 ln = Some []"
| "range_loop reverse withscores h (Suc k) ln = do {
     x \<leftarrow> ln;
     n \<leftarrow> h x;
     item \<leftarrow> reply_item withscores n;
     ln \<leftarrow> next_node reverse n;
     items \<leftarrow> range_loop reverse withscores h k ln;
     Some (item # items)
   }"

definition zrangeGenericCommand :: "bool \<Rightarrow> 's zkey \<Rightarrow> int \<Rightarrow> int \<Rightarrow> bool \<Rightarrow> 's zreply option" where
  "zrangeGenericCommand reverse key start end' withscores = (case key of
     NoKey \<Rightarrow> Some (RpList [])
   | WrongType \<Rightarrow> Some (RpErr WrongTypeErr)
   | ZKey zs \<Rightarrow> do {
       let zsl = zs_zsl zs;
       let llen = zsetLength zs;
       case sanitize start end' llen of
         None \<Rightarrow> Some (RpList [])
       | Some (start, end') \<Rightarrow> do {
           let rangelen = end' - start + 1;
           ln \<leftarrow> (if reverse then if start > 0 then zslGetElementByRank zsl (llen - start) else Some (tail zsl)
                  else if start > 0 then zslGetElementByRank zsl (start + 1)
                  else do { l \<leftarrow> level_at (heap zsl) (header zsl) 0; Some (forward l) });
           items \<leftarrow> range_loop reverse withscores (heap zsl) rangelen ln;
           Some (RpList items)
         }
     })"

text \<open>\<open>while (ln && offset--)\<close> and \<open>while (ln && limit--)\<close>: a negative count does not end the loop.\<close>

partial_function (option) offset_loop :: "bool \<Rightarrow> 's zheap \<Rightarrow> addr option \<Rightarrow> int \<Rightarrow> addr option option" where
  "offset_loop reverse h ln offset = (case ln of
     None \<Rightarrow> Some None
   | Some x \<Rightarrow>
       if offset = 0 then Some ln
       else do { n \<leftarrow> h x; ln \<leftarrow> next_node reverse n; offset_loop reverse h ln (offset - 1) })"

partial_function (option) limit_loop ::
  "('s zskiplistNode \<Rightarrow> bool option) \<Rightarrow> bool \<Rightarrow> bool \<Rightarrow> 's zheap \<Rightarrow> addr option \<Rightarrow> int \<Rightarrow> (bytes \<times> 's option) list option" where
  "limit_loop inrange reverse withscores h ln limit = (case ln of
     None \<Rightarrow> Some []
   | Some x \<Rightarrow>
       if limit = 0 then Some []
       else do {
         n \<leftarrow> h x;
         b \<leftarrow> inrange n;
         if \<not> b then Some []
         else do {
           item \<leftarrow> reply_item withscores n;
           ln \<leftarrow> next_node reverse n;
           items \<leftarrow> limit_loop inrange reverse withscores h ln (limit - 1);
           Some (item # items)
         }
       })"

definition list_range :: "('s zskiplistNode \<Rightarrow> bool option) \<Rightarrow> bool \<Rightarrow> bool \<Rightarrow> 's zskiplist \<Rightarrow> addr option option \<Rightarrow> int \<Rightarrow> int \<Rightarrow> 's zreply option" where
  "list_range inrange reverse withscores zsl first offset limit = do {
     ln \<leftarrow> first;
     if ln = None then Some (RpList [])
     else do {
       ln \<leftarrow> offset_loop reverse (heap zsl) ln offset;
       items \<leftarrow> limit_loop inrange reverse withscores (heap zsl) ln limit;
       Some (RpList items)
     }
   }"

definition genericZrangebyscoreCommand :: "bool \<Rightarrow> ('s :: linorder) zkey \<Rightarrow> 's zrangespec \<Rightarrow> bool \<Rightarrow> int \<Rightarrow> int \<Rightarrow> 's zreply option" where
  "genericZrangebyscoreCommand reverse key rg withscores offset limit = (case key of
     NoKey \<Rightarrow> Some (RpList [])
   | WrongType \<Rightarrow> Some (RpErr WrongTypeErr)
   | ZKey zs \<Rightarrow> list_range (\<lambda>n. Some (if reverse then zslValueGteMin (zn_score n) rg else zslValueLteMax (zn_score n) rg)) reverse withscores (zs_zsl zs)
       (if reverse then zslLastInRange (zs_zsl zs) rg else zslFirstInRange (zs_zsl zs) rg) offset limit)"

definition genericZrangebylexCommand :: "bool \<Rightarrow> ('s :: linorder) zkey \<Rightarrow> zlexrangespec \<Rightarrow> int \<Rightarrow> int \<Rightarrow> 's zreply option" where
  "genericZrangebylexCommand reverse key rg offset limit = (case key of
     NoKey \<Rightarrow> Some (RpList [])
   | WrongType \<Rightarrow> Some (RpErr WrongTypeErr)
   | ZKey zs \<Rightarrow> list_range (\<lambda>n. do { ob \<leftarrow> zn_obj n; if reverse then zslLexValueGteMin ob rg else zslLexValueLteMax ob rg }) reverse False (zs_zsl zs)
       (if reverse then zslLastInLexRange (zs_zsl zs) rg else zslFirstInLexRange (zs_zsl zs) rg) offset limit)"

end
