(* ===== verification/Zset_Rep.thy ===== *)
theory Zset_Rep
  imports Zset
begin

text \<open>
  The representation of a sorted set: its dictionary and its skip list hold the same members, and every dictionary value is the address of the
  member's node.  Each change of one is matched by the change of the other.
\<close>

section \<open>Members and scores\<close>

definition zmap :: "'s zel list \<Rightarrow> bytes \<Rightarrow> 's option" where
  "zmap xs = map_of (map (\<lambda>p. (obj_bytes (snd p), fst p)) xs)"

lemma zmap_Some:
  assumes "distinct (member_bytes xs)"
  shows "zmap xs b = Some s \<longleftrightarrow> (\<exists>ob. (s, ob) \<in> set xs \<and> obj_bytes ob = b)"
proof -
  have "distinct (map fst (map (\<lambda>p. (obj_bytes (snd p), fst p)) xs))" using assms by (simp add: member_bytes_def comp_def)
  then show ?thesis unfolding zmap_def by (subst map_of_eq_Some_iff) force+
qed

lemma zmap_None: "zmap xs b = None \<longleftrightarrow> b \<notin> set (member_bytes xs)"
  by (auto simp: zmap_def map_of_eq_None_iff member_bytes_def image_iff)

lemma zmap_eqI:
  assumes "distinct (member_bytes xs)" "\<And>b s. m b = Some s \<longleftrightarrow> (\<exists>ob. (s, ob) \<in> set xs \<and> obj_bytes ob = b)"
  shows "zmap xs = m"
proof
  fix b
  show "zmap xs b = m b" using zmap_Some [OF assms(1)] assms(2) by (cases "m b"; cases "zmap xs b") (metis option.distinct(1) option.inject)+
qed

lemma mset_zins: "mset (zins p xs) = add_mset p (mset xs)"
proof -
  have "mset xs = mset (takeWhile (\<lambda>q. key_less q p) xs @ dropWhile (\<lambda>q. key_less q p) xs)" by simp
  then show ?thesis unfolding zins_def by (simp only: mset_append mset.simps union_mset_add_mset_right)
qed

lemma distinct_zins: "distinct (member_bytes (zins p xs)) \<longleftrightarrow> obj_bytes (snd p) \<notin> set (member_bytes xs) \<and> distinct (member_bytes xs)"
proof -
  have "mset (member_bytes (zins p xs)) = mset (member_bytes (p # xs))" by (simp add: member_bytes_def mset_zins)
  then show ?thesis by (metis distinct.simps(2) member_bytes_Cons mset_eq_imp_distinct_iff)
qed

lemma zmap_zins:
  assumes "distinct (member_bytes xs)" "b \<notin> set (member_bytes xs)" "b = obj_bytes ob"
  shows "zmap (zins (s, ob) xs) = (zmap xs)(b \<mapsto> s)"
proof (rule zmap_eqI)
  show "distinct (member_bytes (zins (s, ob) xs))" using assms by (simp add: distinct_zins)
  have "(t, ob') \<notin> set xs" if "obj_bytes ob' = b" for t ob' using assms(2) that by (force simp: member_bytes_def)
  then show "((zmap xs)(b \<mapsto> s)) c = Some t \<longleftrightarrow> (\<exists>ob'. (t, ob') \<in> set (zins (s, ob) xs) \<and> obj_bytes ob' = c)" for c t
    using assms(3) zmap_Some [OF assms(1), of c t] by auto
qed

lemma distinct_filter: "distinct (member_bytes xs) \<Longrightarrow> distinct (member_bytes (filter P xs))"
  by (simp add: member_bytes_def distinct_map_filter)

lemma zmap_filter:
  assumes "distinct (member_bytes xs)"
  shows "zmap (filter P xs) b = Some s \<longleftrightarrow> (\<exists>ob. (s, ob) \<in> set xs \<and> P (s, ob) \<and> obj_bytes ob = b)"
  using zmap_Some [OF distinct_filter [OF assms], of P b s] by auto

lemma zmap_zdel:
  assumes "distinct (member_bytes xs)" "zmap xs (obj_bytes ob) = Some s"
  shows "zmap (zdel (s, ob) xs) = (zmap xs)(obj_bytes ob := None)"
proof (rule zmap_eqI)
  show "distinct (member_bytes (zdel (s, ob) xs))" using distinct_filter [OF assms(1)] by (simp add: zdel_def)
  fix c t
  have "s' = s" if "(s', ob') \<in> set xs" "obj_bytes ob' = obj_bytes ob" for s' ob'
    using zmap_Some [OF assms(1), of "obj_bytes ob" s'] assms(2) that by auto
  then show "((zmap xs)(obj_bytes ob := None)) c = Some t \<longleftrightarrow> (\<exists>ob'. (t, ob') \<in> set (zdel (s, ob) xs) \<and> obj_bytes ob' = c)"
    using zmap_Some [OF assms(1), of c t] by (auto simp: zdel_def same_key_def)
qed

section \<open>The dictionary type\<close>

lemma zkeyEq [simp]: "keyEq (zsetDictType sd) a b \<longleftrightarrow> obj_bytes a = obj_bytes b"
  by (auto simp: keyEq_def dictCompareKeys_def zsetDictType_def dictEncObjKeyCompare_bytes)

lemma ztype_ok: "dict_type_ok (zsetDictType sd)"
  by (rule dict_type_okI [where view = obj_bytes and cmp = dictEncObjKeyCompare and hash = "dictGenHashFunction sd"])
    (simp_all add: zsetDictType_def dictEncObjKeyCompare_bytes dictEncObjHash_bytes)

lemma zstored [simp]: "dictStoredVal (zsetDictType sd) v = v"
  by (simp add: dictStoredVal_def zsetDictType_def)

lemma tryObjectEncoding_bytes: "obj_bytes (tryObjectEncoding refs ob) = obj_bytes ob"
proof (cases ob)
  case (RStr s)
  have "idec (sint (word_of_int v :: 64 word)) = s" if "string2l s = Some v" for v
  proof -
    have v: "string2ll s = Some v" using that by (auto simp: string2l_def split: option.splits if_splits)
    then have "int64_range v" "s = idec v" using string2ll_iff [of s v] by auto
    then show ?thesis by (simp add: int64_range_def signed_of_int signed_take_bit_int_eq_self)
  qed
  then show ?thesis using RStr by (auto simp: tryObjectEncoding_def obj_bytes_def split: option.splits)
qed (simp add: tryObjectEncoding_def)

section \<open>The representation\<close>

definition zset_rep :: "'s zenv \<Rightarrow> ('s :: linorder) zset \<Rightarrow> 's ent list \<Rightarrow> 's zel list \<Rightarrow> bool" where
  "zset_rep env zs ns xs \<longleftrightarrow> zsl_rep (zs_zsl zs) ns xs \<and> distinct (member_bytes xs) \<and>
     dict_inv (zsetDictType (seed env)) (zs_dict zs) \<and> dictSize (zs_dict zs) = length xs \<and>
     (\<forall>k a. dict_map (zsetDictType (seed env)) (zs_dict zs) k = Some a \<longleftrightarrow> (\<exists>e \<in> set (tl ns). ea e = a \<and> obj_bytes (eo e) = obj_bytes k))"

lemma zset_repD:
  assumes "zset_rep env zs ns xs"
  shows "zsl_rep (zs_zsl zs) ns xs" "distinct (member_bytes xs)" "dict_inv (zsetDictType (seed env)) (zs_dict zs)" "dictSize (zs_dict zs) = length xs"
    "dict_map (zsetDictType (seed env)) (zs_dict zs) k = Some a \<longleftrightarrow> (\<exists>e \<in> set (tl ns). ea e = a \<and> obj_bytes (eo e) = obj_bytes k)"
  using assms by (auto simp: zset_rep_def)

lemma rep_members:
  assumes "zsl_rep zsl ns xs"
  shows "(\<exists>e \<in> set (tl ns). es e = s \<and> obj_bytes (eo e) = b) \<longleftrightarrow> (\<exists>ob. (s, ob) \<in> set xs \<and> obj_bytes ob = b)"
    "e \<in> set (tl ns) \<Longrightarrow> heap zsl (ea e) \<noteq> None \<and> map_option zn_score (heap zsl (ea e)) = Some (es e)"
proof -
  obtain e0 ms where ms: "ns = e0 # ms" "zsl_ok zsl (e0 # ms)" "map content ms = xs" using assms by (rule zsl_repE)
  have "set xs = (\<lambda>e. (es e, eo e)) ` set ms" using ms(3) by (auto simp: content_def)
  then show "(\<exists>e \<in> set (tl ns). es e = s \<and> obj_bytes (eo e) = b) \<longleftrightarrow> (\<exists>ob. (s, ob) \<in> set xs \<and> obj_bytes ob = b)" by (auto simp: ms(1))
  assume "e \<in> set (tl ns)"
  then obtain A B where "ms = A @ e # B" by (auto simp: ms(1) in_set_conv_decomp)
  then have "zsl_ok zsl ((e0 # A) @ e # B)" using ms(2) by simp
  from node_at [OF this] show "heap zsl (ea e) \<noteq> None \<and> map_option zn_score (heap zsl (ea e)) = Some (es e)" by (auto simp: content_def)
qed

text \<open>A lookup in the dictionary finds the node of the member, and may move entries between its tables.\<close>

lemma zset_find:
  assumes "zset_rep env zs ns xs"
  shows "\<exists>d r. dictFind (zsetDictType (seed env)) (zs_dict zs) k = Some (d, r) \<and> zset_rep env (zs\<lparr>zs_dict := d\<rparr>) ns xs \<and>
    (case r of None \<Rightarrow> zmap xs (obj_bytes k) = None
     | Some x \<Rightarrow> \<exists>e s. ref_ok (zsetDictType (seed env)) d k x \<and> entry_at d x = Some e \<and> obj_bytes (fst e) = obj_bytes k \<and>
         score_at (zs\<lparr>zs_dict := d\<rparr>) (snd e) = Some s \<and> zmap xs (obj_bytes k) = Some s)"
proof -
  let ?T = "zsetDictType (seed env) :: (robj, addr) dictType"
  note z = zset_repD [OF assms]
  obtain d r where f: "dictFind ?T (zs_dict zs) k = Some (d, r)" "same_content ?T (zs_dict zs) d"
    "case r of None \<Rightarrow> dict_map ?T (zs_dict zs) k = None
     | Some x \<Rightarrow> ref_ok ?T d k x \<and> (\<exists>e. entry_at d x = Some e \<and> dict_map ?T (zs_dict zs) k = Some (snd e) \<and> keyEq ?T k (fst e))"
    using dictFind_correct [OF ztype_ok z(3), of k] by blast
  note sc = same_contentD [OF ztype_ok z(3) f(2)]
  have rep: "zset_rep env (zs\<lparr>zs_dict := d\<rparr>) ns xs" using assms sc by (simp add: zset_rep_def)
  have res: "case r of None \<Rightarrow> zmap xs (obj_bytes k) = None
     | Some x \<Rightarrow> \<exists>e s. ref_ok ?T d k x \<and> entry_at d x = Some e \<and> obj_bytes (fst e) = obj_bytes k \<and>
         score_at (zs\<lparr>zs_dict := d\<rparr>) (snd e) = Some s \<and> zmap xs (obj_bytes k) = Some s"
  proof (cases r)
    case None
    then have "\<not> (\<exists>e \<in> set (tl ns). obj_bytes (eo e) = obj_bytes k)" using f(3) z(5) [of k] by auto
    then have "zmap xs (obj_bytes k) \<noteq> Some s" for s using rep_members(1) [OF z(1), of s "obj_bytes k"] zmap_Some [OF z(2), of "obj_bytes k" s] by blast
    then show ?thesis using None by (cases "zmap xs (obj_bytes k)") auto
  next
    case (Some x)
    then obtain e where e: "ref_ok ?T d k x" "entry_at d x = Some e" "dict_map ?T (zs_dict zs) k = Some (snd e)" "obj_bytes k = obj_bytes (fst e)"
      using f(3) by auto
    obtain en where en: "en \<in> set (tl ns)" "ea en = snd e" "obj_bytes (eo en) = obj_bytes k" using e(3) z(5) by blast
    have "zmap xs (obj_bytes k) = Some (es en)" using zmap_Some [OF z(2), of "obj_bytes k" "es en"] rep_members(1) [OF z(1), of "es en" "obj_bytes k"] en by blast
    moreover have "score_at (zs\<lparr>zs_dict := d\<rparr>) (snd e) = Some (es en)" using rep_members(2) [OF z(1) en(1)] en(2) by (simp add: score_at_def)
    ultimately show ?thesis using Some e(1,2,4) by simp
  qed
  show ?thesis by (intro exI conjI, rule f(1), rule rep, rule res)
qed

section \<open>Changes\<close>

lemma rep_length: "zsl_rep zsl ns xs \<Longrightarrow> length ns = Suc (length xs)"
  by (erule zsl_repE) (simp only: list.size(4) add_0_right add_Suc_right)

lemma rep_bytes: "zsl_rep zsl ns xs \<Longrightarrow> member_bytes xs = map (\<lambda>e. obj_bytes (eo e)) (tl ns)"
  by (auto simp: zsl_rep_def member_bytes_def content_def)

lemma absent_key: "obj_bytes ob \<notin> set (member_bytes xs) \<Longrightarrow> \<forall>q \<in> set xs. \<not> same_key q (s, ob)"
  unfolding member_bytes_def same_key_def set_map by (metis image_eqI snd_conv)

lemma zmap_rep:
  assumes "zset_rep env zs ns xs"
  shows "zmap xs b = Some s \<longleftrightarrow> (\<exists>e \<in> set (tl ns). es e = s \<and> obj_bytes (eo e) = b)"
  unfolding zmap_Some [OF zset_repD(2) [OF assms]] rep_members(1) [OF zset_repD(1) [OF assms]] ..

lemma zset_insert_new:
  assumes "zset_rep env zs ns xs" "robj_ok ob" "zmap xs (obj_bytes ob) = None" "length xs < 2 ^ 30" "zslRandomLevel rs = Some lv"
  shows "\<exists>zsl node d ns'. zslInsert (zs_zsl zs) s ob rs = Some (zsl, node) \<and> dictAdd (zsetDictType (seed env)) cr junk (zs_dict zs) ob node = Some (d, True) \<and>
    zset_rep env \<lparr>zs_dict = d, zs_zsl = zsl\<rparr> ns' (zins (s, ob) xs)"
proof -
  let ?T = "zsetDictType (seed env) :: (robj, addr) dictType"
  note z = zset_repD [OF assms(1)]
  have no: "obj_bytes ob \<notin> set (member_bytes xs)" using assms(3) by (simp add: zmap_None)
  then have "\<forall>q \<in> set xs. \<not> same_key q (s, ob)" by (rule absent_key)
  moreover have "Suc (length xs) < 2 ^ 32" using assms(4) by simp
  ultimately obtain zsl node A B where i: "zslInsert (zs_zsl zs) s ob rs = Some (zsl, node)" "ns = A @ B" "A \<noteq> []"
    "zsl_rep zsl (A @ \<lparr>ea = node, eh = lv, es = s, eo = ob\<rparr> # B) (zins (s, ob) xs)"
    using zslInsert_content [OF z(1) _ assms(2) _ assms(5)] by metis
  have none: "dict_map ?T (zs_dict zs) ob = None"
    using z(5) [of ob] no rep_bytes [OF z(1)] by (cases "dict_map ?T (zs_dict zs) ob") force+
  obtain d where d: "dictAdd ?T cr junk (zs_dict zs) ob node = Some (d, True)" "dict_inv ?T d"
    "dict_map ?T d = map_upd (keyEq ?T) (dict_map ?T (zs_dict zs)) ob node" "dictSize d = Suc (length xs)"
    using dictAdd_correct [OF ztype_ok z(3), of cr junk ob node] none z(4) assms(4) by auto
  have tls: "set (tl (A @ \<lparr>ea = node, eh = lv, es = s, eo = ob\<rparr> # B)) = insert \<lparr>ea = node, eh = lv, es = s, eo = ob\<rparr> (set (tl ns))"
    using i(2,3) by (cases A) auto
  have old: "obj_bytes (eo e) \<noteq> obj_bytes ob" if "e \<in> set (tl ns)" for e using no that rep_bytes [OF z(1)] by force
  have "dict_map ?T d k = Some a \<longleftrightarrow> (\<exists>e \<in> insert \<lparr>ea = node, eh = lv, es = s, eo = ob\<rparr> (set (tl ns)). ea e = a \<and> obj_bytes (eo e) = obj_bytes k)" for k a
    using z(5) [of k a] old by (auto simp: d(3) map_upd_def)
  then have "zset_rep env \<lparr>zs_dict = d, zs_zsl = zsl\<rparr> (A @ \<lparr>ea = node, eh = lv, es = s, eo = ob\<rparr> # B) (zins (s, ob) xs)"
    using i(4) d(2,4) no z(2) unfolding zset_rep_def tls by (simp add: distinct_zins)
  then show ?thesis using i(1) d(1) by blast
qed

text \<open>What deletion of a member leaves of the nodes.\<close>

lemma zset_delete_node:
  assumes "zset_rep env zs ns xs" "robj_ok ob" "zmap xs (obj_bytes ob) = Some s" "length xs < 2 ^ 32"
  shows "\<exists>zsl A x B. zslDelete (zs_zsl zs) s ob = Some (zsl, True) \<and> ns = A @ x # B \<and> A \<noteq> [] \<and> zsl_rep zsl (A @ B) (zdel (s, ob) xs) \<and>
    x \<in> set (tl ns) \<and> obj_bytes (eo x) = obj_bytes ob \<and> (\<forall>e. e \<in> set (tl (A @ B)) \<longleftrightarrow> e \<in> set (tl ns) \<and> obj_bytes (eo e) \<noteq> obj_bytes ob) \<and> length xs = Suc (length (zdel (s, ob) xs))"
proof -
  note z = zset_repD [OF assms(1)]
  obtain ob' where "(s, ob') \<in> set xs" "obj_bytes ob' = obj_bytes ob" using assms(3) zmap_Some [OF z(2)] by blast
  then have ex: "\<exists>q \<in> set xs. same_key q (s, ob)" by (force simp: same_key_def)
  obtain zsl A x B where i: "zslDelete (zs_zsl zs) s ob = Some (zsl, True)" "ns = A @ x # B" "A \<noteq> []" "same_key (content x) (s, ob)" "zsl_rep zsl (A @ B) (zdel (s, ob) xs)"
    using zslDelete_content [OF z(1) assms(4,2), of s] ex by auto
  have tls: "tl ns = tl A @ x # B" "tl (A @ B) = tl A @ B" using i(2,3) by (cases A; simp)+
  have b: "obj_bytes (eo x) = obj_bytes ob" using i(4) by (simp add: same_key_def content_def)
  have dis: "distinct (map (\<lambda>e. obj_bytes (eo e)) (tl A @ x # B))" using z(2) unfolding rep_bytes [OF z(1)] tls .
  have "obj_bytes (eo x) \<notin> (\<lambda>e. obj_bytes (eo e)) ` set (tl A @ B)" using dis by (simp add: image_Un)
  then have "obj_bytes (eo e) \<noteq> obj_bytes ob" if "e \<in> set (tl A @ B)" for e using that b by (metis image_eqI)
  then have "\<forall>e. e \<in> set (tl (A @ B)) \<longleftrightarrow> e \<in> set (tl ns) \<and> obj_bytes (eo e) \<noteq> obj_bytes ob" unfolding tls using b by auto
  moreover have "length xs = Suc (length (zdel (s, ob) xs))" using rep_length [OF z(1)] rep_length [OF i(5)] i(2) by simp
  moreover have "x \<in> set (tl ns)" unfolding tls by simp
  ultimately show ?thesis using i b by blast
qed

lemma distinct_zdel: "distinct (member_bytes xs) \<Longrightarrow> distinct (member_bytes (zdel p xs))"
  unfolding zdel_def by (rule distinct_filter)

lemma zset_delete:
  assumes "zset_rep env zs ns xs" "robj_ok ob" "zmap xs (obj_bytes ob) = Some s" "length xs < 2 ^ 32"
  shows "\<exists>zsl d evs ns'. zslDelete (zs_zsl zs) s ob = Some (zsl, True) \<and> dictDelete (zsetDictType (seed env)) (zs_dict zs) ob = Some (d, True, evs) \<and>
    zset_rep env \<lparr>zs_dict = d, zs_zsl = zsl\<rparr> ns' (zdel (s, ob) xs)"
proof -
  let ?T = "zsetDictType (seed env) :: (robj, addr) dictType"
  note z = zset_repD [OF assms(1)]
  obtain zsl A x B where i: "zslDelete (zs_zsl zs) s ob = Some (zsl, True)" "ns = A @ x # B" "zsl_rep zsl (A @ B) (zdel (s, ob) xs)"
    "x \<in> set (tl ns)" "obj_bytes (eo x) = obj_bytes ob" "\<forall>e. e \<in> set (tl (A @ B)) \<longleftrightarrow> e \<in> set (tl ns) \<and> obj_bytes (eo e) \<noteq> obj_bytes ob" "length xs = Suc (length (zdel (s, ob) xs))"
    using zset_delete_node [OF assms] by blast
  have "dict_map ?T (zs_dict zs) ob = Some (ea x)" using z(5) i(4,5) by blast
  then obtain d evs where d: "dictGenericDelete ?T (zs_dict zs) ob False = Some (d, True, evs)" "dict_inv ?T d"
    "dict_map ?T d = map_del (keyEq ?T) (dict_map ?T (zs_dict zs)) ob" "\<exists>e. mset (entries (zs_dict zs)) = add_mset e (mset (entries d))"
    using dictGenericDelete_correct [OF ztype_ok z(3), of ob False] by auto
  have "size (mset (entries (zs_dict zs))) = Suc (size (mset (entries d)))" using d(4) by (metis size_add_mset)
  then have sz: "dictSize d = length (zdel (s, ob) xs)" using dictSize_entries [OF z(3)] dictSize_entries [OF d(2)] z(4) i(7) by simp
  have "dict_map ?T d k = Some a \<longleftrightarrow> (\<exists>e \<in> set (tl (A @ B)). ea e = a \<and> obj_bytes (eo e) = obj_bytes k)" for k a
    using z(5) [of k a] i(6) by (auto simp: d(3) map_del_def)
  then have "zset_rep env \<lparr>zs_dict = d, zs_zsl = zsl\<rparr> (A @ B) (zdel (s, ob) xs)"
    using i(3) d(2) sz distinct_zdel [OF z(2)] unfolding zset_rep_def by simp
  then show ?thesis using i(1) d(1) by (auto simp: dictDelete_def)
qed

text \<open>A member that gets another score moves to a new node, and its dictionary entry follows.\<close>

lemma zset_move:
  assumes "zset_rep env zs ns xs" "robj_ok (fst e)" "zmap xs (obj_bytes (fst e)) = Some cur" "length xs < 2 ^ 30" "zslRandomLevel rs = Some lv"
    "ref_ok (zsetDictType (seed env)) (zs_dict zs) k x" "entry_at (zs_dict zs) x = Some e" "obj_bytes (fst e) = obj_bytes k"
  shows "\<exists>zsl1 zsl node d ns'. zslDelete (zs_zsl zs) cur (fst e) = Some (zsl1, True) \<and> zslInsert zsl1 s (fst e) rs = Some (zsl, node) \<and>
    dictSetVal (zsetDictType (seed env)) (zs_dict zs) x node = Some d \<and> zset_rep env \<lparr>zs_dict = d, zs_zsl = zsl\<rparr> ns' (zins (s, fst e) (zdel (cur, fst e) xs))"
proof -
  let ?T = "zsetDictType (seed env) :: (robj, addr) dictType" and ?ob = "fst e"
  let ?ys = "zdel (cur, ?ob) xs"
  note z = zset_repD [OF assms(1)]
  have l32: "length xs < 2 ^ 32" using assms(4) by simp
  obtain zsl1 A0 x0 B0 where i: "zslDelete (zs_zsl zs) cur ?ob = Some (zsl1, True)" "zsl_rep zsl1 (A0 @ B0) ?ys" "A0 \<noteq> []"
    "\<forall>e. e \<in> set (tl (A0 @ B0)) \<longleftrightarrow> e \<in> set (tl ns) \<and> obj_bytes (eo e) \<noteq> obj_bytes ?ob" "length xs = Suc (length ?ys)"
    using zset_delete_node [OF assms(1-3) l32] by blast
  have no: "obj_bytes ?ob \<notin> set (member_bytes ?ys)" unfolding rep_bytes [OF i(2)] using i(4) by auto
  then have "\<forall>q \<in> set ?ys. \<not> same_key q (s, ?ob)" by (rule absent_key)
  moreover have "Suc (length ?ys) < 2 ^ 32" using i(5) l32 by simp
  ultimately obtain zsl node A B where j: "zslInsert zsl1 s ?ob rs = Some (zsl, node)" "A0 @ B0 = A @ B" "A \<noteq> []"
    "zsl_rep zsl (A @ \<lparr>ea = node, eh = lv, es = s, eo = ?ob\<rparr> # B) (zins (s, ?ob) ?ys)"
    using zslInsert_content [OF i(2) _ assms(2) _ assms(5)] by metis
  obtain t u v where x: "x = (t, u, v)" by (cases x)
  obtain d M where d: "dictSetVal ?T (zs_dict zs) x node = Some d" "dict_inv ?T d" "mset (entries (zs_dict zs)) = add_mset e M"
    "mset (entries d) = add_mset (?ob, node) M"
    using dictSetVal_correct [OF ztype_ok z(3), of k t u v e node] assms(6,7) unfolding x by auto
  have keq: "keyEq ?T k (fst e)" using assms(8) by simp
  have dm: "dict_map ?T d = map_upd (keyEq ?T) (dict_map ?T (zs_dict zs)) k node"
    using alookup_assign(2) [OF ztype_ok dict_invD(3) [OF z(3)] keq d(3,4)] by (simp add: dict_map_def)
  have "size (mset (entries d)) = size (mset (entries (zs_dict zs)))" by (simp only: d(3,4) size_add_mset)
  then have sz: "dictSize d = length (zins (s, ?ob) ?ys)" using dictSize_entries [OF z(3)] dictSize_entries [OF d(2)] z(4) i(5) by simp
  have tls: "set (tl (A @ \<lparr>ea = node, eh = lv, es = s, eo = ?ob\<rparr> # B)) = insert \<lparr>ea = node, eh = lv, es = s, eo = ?ob\<rparr> (set (tl (A0 @ B0)))"
    unfolding j(2) using j(3) by (cases A) auto
  have "dict_map ?T d k' = Some a \<longleftrightarrow> (\<exists>e \<in> insert \<lparr>ea = node, eh = lv, es = s, eo = ?ob\<rparr> (set (tl (A0 @ B0))). ea e = a \<and> obj_bytes (eo e) = obj_bytes k')" for k' a
    using z(5) [of k' a] i(4) assms(8) by (auto simp: dm map_upd_def)
  then have "zset_rep env \<lparr>zs_dict = d, zs_zsl = zsl\<rparr> (A @ \<lparr>ea = node, eh = lv, es = s, eo = ?ob\<rparr> # B) (zins (s, ?ob) ?ys)"
    using j(4) d(2) sz no distinct_zdel [OF z(2)] unfolding zset_rep_def tls by (simp add: distinct_zins)
  then show ?thesis using i(1) j(1) d(1) by blast
qed

end
