(* ===== verification/Zset_Map.thy ===== *)
theory Zset_Map
  imports Zset_Rep
begin

text \<open>
  Sorted sets as finite maps from members to scores.  The commands on the dictionary and the skip list have the replies and the effect their
  specifications on maps have; the order of the members is that of their scores and bytes.
\<close>

section \<open>Specifications\<close>

text \<open>One element of ZADD on the map, with its counters and whether the score became not-a-number.\<close>

definition zadd_spec_element :: "('s \<Rightarrow> 's \<Rightarrow> 's option) \<Rightarrow> zadd_flags \<Rightarrow> (bytes \<Rightarrow> 's option) \<Rightarrow> 's zadd_counts \<Rightarrow> 's \<Rightarrow> bytes \<Rightarrow> (bytes \<Rightarrow> 's option) \<times> 's zadd_counts \<times> bool" where
  "zadd_spec_element add f m st score b = (case m b of
     None \<Rightarrow> if f_xx f then (m, st\<lparr>last_score := score\<rparr>, False)
       else (m(b \<mapsto> score), st\<lparr>added := added st + 1, processed := processed st + 1, last_score := score\<rparr>, False)
   | Some cur \<Rightarrow> if f_nx f then (m, st\<lparr>last_score := score\<rparr>, False)
       else (case (if f_incr f then add score cur else Some score) of
         None \<Rightarrow> (m, st, True)
       | Some s \<Rightarrow> if s = cur then (m, st\<lparr>processed := processed st + 1, last_score := s\<rparr>, False)
           else (m(b \<mapsto> s), st\<lparr>updated := updated st + 1, processed := processed st + 1, last_score := s\<rparr>, False)))"

fun zadd_spec_loop :: "('s \<Rightarrow> 's \<Rightarrow> 's option) \<Rightarrow> zadd_flags \<Rightarrow> (bytes \<Rightarrow> 's option) \<Rightarrow> 's zadd_counts \<Rightarrow> ('s \<times> bytes) list \<Rightarrow> (bytes \<Rightarrow> 's option) \<times> 's zadd_counts \<times> bool" where
  "zadd_spec_loop add f m st [] = (m, st, False)"
| "zadd_spec_loop add f m st ((score, b) # xs) =
     (let (m, st, nan) = zadd_spec_element add f m st score b in if nan then (m, st, True) else zadd_spec_loop add f m st xs)"

definition zadd_spec :: "('s :: zero) zenv \<Rightarrow> zadd_flags \<Rightarrow> (bytes \<Rightarrow> 's option) \<Rightarrow> bytes list \<Rightarrow> (bytes \<Rightarrow> 's option) \<times> 's zreply \<times> nat" where
  "zadd_spec env f m args =
     (let (f, args) = zadd_options f args
      in if odd (length args) \<or> args = [] then (m, RpErr SyntaxErr, 0)
         else if f_nx f \<and> f_xx f then (m, RpErr XXandNXErr, 0)
         else if f_incr f \<and> length args > 2 then (m, RpErr IncrPairErr, 0)
         else case parse_scores (parse_score env) (zadd_pairs args) of
           None \<Rightarrow> (m, RpErr NotFloatErr, 0)
         | Some xs \<Rightarrow>
             (case zadd_spec_loop (fadd env) f m \<lparr>added = 0, updated = 0, processed = 0, last_score = 0\<rparr> xs of
                (m, st, nan) \<Rightarrow> (m, if nan then RpErr NaNErr else zadd_reply f st, added st + updated st)))"

text \<open>The position of a member with a given score.\<close>

definition rank_in :: "(bytes \<Rightarrow> ('s :: linorder) option) \<Rightarrow> 's \<Rightarrow> bytes \<Rightarrow> nat" where
  "rank_in m s b = card {c. \<exists>t. m c = Some t \<and> (t < s \<or> t = s \<and> byte_less c b)}"

section \<open>ZADD\<close>

lemma zadd_element_refines:
  assumes "zset_rep env zs ns xs" "length b < 2 ^ 31" "length xs < 2 ^ 30" "zslRandomLevel rs = Some lv"
  shows "\<exists>zs' ns' ys. zadd_element env f zs st score b rs = Some (zs', snd (zadd_spec_element (fadd env) f (zmap xs) st score b)) \<and>
    zset_rep env zs' ns' ys \<and> zmap ys = fst (zadd_spec_element (fadd env) f (zmap xs) st score b) \<and> length ys \<le> Suc (length xs) \<and> (xs \<noteq> [] \<or> \<not> f_xx f \<longrightarrow> ys \<noteq> [])"
proof -
  let ?T = "zsetDictType (seed env) :: (robj, addr) dictType" and ?ele = "tryObjectEncoding (args_shared env) (RStr b)"
  have b: "obj_bytes ?ele = b" using tryObjectEncoding_bytes by (simp add: obj_bytes_def)
  then have ok: "robj_ok ?ele" using assms(2) by (simp add: robj_ok_def)
  obtain d r where f: "dictFind ?T (zs_dict zs) ?ele = Some (d, r)" "zset_rep env (zs\<lparr>zs_dict := d\<rparr>) ns xs"
    "case r of None \<Rightarrow> zmap xs b = None
     | Some x \<Rightarrow> \<exists>e s. ref_ok ?T d ?ele x \<and> entry_at d x = Some e \<and> obj_bytes (fst e) = b \<and> score_at (zs\<lparr>zs_dict := d\<rparr>) (snd e) = Some s \<and> zmap xs b = Some s"
    using zset_find [OF assms(1), of ?ele] unfolding b by blast
  let ?zs = "zs\<lparr>zs_dict := d\<rparr>"
  note z = zset_repD [OF f(2)]
  show ?thesis
  proof (cases r)
    case None
    then have no: "zmap xs b = None" using f(3) by simp
    then have no': "b \<notin> set (member_bytes xs)" by (simp add: zmap_None)
    obtain zsl node d' ns' where i: "zslInsert (zs_zsl ?zs) score ?ele rs = Some (zsl, node)" "dictAdd ?T (can_resize env) (uninit env) (zs_dict ?zs) ?ele node = Some (d', True)"
      "zset_rep env \<lparr>zs_dict = d', zs_zsl = zsl\<rparr> ns' (zins (score, ?ele) xs)"
      using zset_insert_new [OF f(2) ok _ assms(3,4)] no b by metis
    have m: "zmap (zins (score, ?ele) xs) = (zmap xs)(b \<mapsto> score)" by (rule zmap_zins [OF z(2) no' b [symmetric]])
    have ne: "zins (score, ?ele) xs \<noteq> []" by (simp add: zins_def)
    show ?thesis
    proof (cases "f_xx f")
      case True
      then show ?thesis using f(1,2) None no by (intro exI [of _ ?zs] exI [of _ ns] exI [of _ xs]) (simp add: zadd_element_def zadd_spec_element_def)
    next
      case False
      then show ?thesis using f(1) None no i m ne
        by (intro exI [of _ "\<lparr>zs_dict = d', zs_zsl = zsl\<rparr>"] exI [of _ ns'] exI [of _ "zins (score, ?ele) xs"]) (simp add: zadd_element_def zadd_spec_element_def)
    qed
  next
    case (Some x)
    then obtain e cur where e: "ref_ok ?T (zs_dict ?zs) ?ele x" "entry_at (zs_dict ?zs) x = Some e" "obj_bytes (fst e) = b" "score_at ?zs (snd e) = Some cur" "zmap xs b = Some cur"
      using f(3) by auto
    have ne: "xs \<noteq> []" using e(5) by (auto simp: zmap_def)
    show ?thesis
    proof (cases "f_nx f")
      case True
      then show ?thesis using f(1,2) Some e(5) ne by (intro exI [of _ ?zs] exI [of _ ns] exI [of _ xs]) (simp add: zadd_element_def zadd_spec_element_def)
    next
      case nx: False
      let ?new = "if f_incr f then fadd env score cur else Some score"
      have step: "zadd_element env f zs st score b rs = (case ?new of None \<Rightarrow> Some (?zs, st, True)
         | Some score \<Rightarrow> if score \<noteq> cur then do {
             (zsl, deleted) \<leftarrow> zslDelete (zs_zsl ?zs) cur (fst e);
             if \<not> deleted then None
             else do { (zsl, znode) \<leftarrow> zslInsert zsl score (fst e) rs; d \<leftarrow> dictSetVal ?T d x znode;
               Some (\<lparr>zs_dict = d, zs_zsl = zsl\<rparr>, st\<lparr>updated := updated st + 1, processed := processed st + 1, last_score := score\<rparr>, False) } }
           else Some (?zs, st\<lparr>processed := processed st + 1, last_score := score\<rparr>, False))"
        by (simp only: zadd_element_def Let_def f(1) Some Option.bind.bind_lunit prod.case option.case nx if_False e(2) [simplified] e(4))
      have spec: "zadd_spec_element (fadd env) f (zmap xs) st score b = (case ?new of None \<Rightarrow> (zmap xs, st, True)
         | Some s \<Rightarrow> if s = cur then (zmap xs, st\<lparr>processed := processed st + 1, last_score := s\<rparr>, False)
           else ((zmap xs)(b \<mapsto> s), st\<lparr>updated := updated st + 1, processed := processed st + 1, last_score := s\<rparr>, False))"
        by (simp only: zadd_spec_element_def e(5) option.case nx if_False)
      show ?thesis
      proof (cases ?new)
        case None
        show ?thesis unfolding step spec None option.case using f(2) ne by (intro exI [of _ ?zs] exI [of _ ns] exI [of _ xs]) simp
      next
        case new: (Some s)
        show ?thesis
        proof (cases "s = cur")
          case True
          then show ?thesis unfolding step spec new option.case using f(2) ne by (intro exI [of _ ?zs] exI [of _ ns] exI [of _ xs]) simp
        next
          case False
          have "robj_ok (fst e)" "zmap xs (obj_bytes (fst e)) = Some cur" "obj_bytes (fst e) = obj_bytes ?ele" using e(3,5) assms(2) b by (simp_all add: robj_ok_def)
          then obtain zsl1 zsl node d' ns' where i: "zslDelete (zs_zsl ?zs) cur (fst e) = Some (zsl1, True)" "zslInsert zsl1 s (fst e) rs = Some (zsl, node)"
            "dictSetVal ?T (zs_dict ?zs) x node = Some d'" "zset_rep env \<lparr>zs_dict = d', zs_zsl = zsl\<rparr> ns' (zins (s, fst e) (zdel (cur, fst e) xs))"
            using zset_move [OF f(2) _ _ assms(3,4) e(1,2)] by blast
          let ?ys = "zdel (cur, fst e) xs"
          have mz: "zmap ?ys = (zmap xs)(b := None)" using zmap_zdel [OF z(2), of "fst e" cur] e(3,5) by simp
          then have "b \<notin> set (member_bytes ?ys)" by (metis fun_upd_same zmap_None)
          then have m: "zmap (zins (s, fst e) ?ys) = (zmap xs)(b \<mapsto> s)" using zmap_zins [OF distinct_zdel [OF z(2)] _ e(3) [symmetric]] mz by simp
          have "length ?ys \<le> length xs" by (simp add: zdel_def)
          moreover have "zins (s, fst e) ?ys \<noteq> []" by (simp add: zins_def)
          ultimately show ?thesis unfolding step spec new option.case using False i m
            by (intro exI [of _ "\<lparr>zs_dict = d', zs_zsl = zsl\<rparr>"] exI [of _ ns'] exI [of _ "zins (s, fst e) ?ys"]) simp
        qed
      qed
    qed
  qed
qed

text \<open>The random values give every element a level.\<close>

definition levels_ok :: "nat list list \<Rightarrow> nat \<Rightarrow> bool" where
  "levels_ok rss k \<longleftrightarrow> k \<le> length rss \<and> (\<forall>rs \<in> set rss. zslRandomLevel rs \<noteq> None)"

lemma zadd_loop_refines:
  assumes "zset_rep env zs ns xs" "\<forall>p \<in> set els. length (snd p) < 2 ^ 31" "length xs + length els \<le> 2 ^ 30" "levels_ok rss (length els)"
  shows "\<exists>zs' ns' ys. zadd_loop env f zs st els rss = Some (zs', snd (zadd_spec_loop (fadd env) f (zmap xs) st els)) \<and>
    zset_rep env zs' ns' ys \<and> zmap ys = fst (zadd_spec_loop (fadd env) f (zmap xs) st els) \<and> (xs \<noteq> [] \<or> \<not> f_xx f \<and> els \<noteq> [] \<longrightarrow> ys \<noteq> [])"
  using assms
proof (induction els arbitrary: zs ns xs st rss)
  case Nil
  then show ?case by auto
next
  case (Cons p els)
  obtain score b where p: "p = (score, b)" by (rule prod.exhaust)
  obtain rs rss' where rss: "rss = rs # rss'" using Cons.prems(4) by (cases rss) (auto simp: levels_ok_def)
  obtain lv where lv: "zslRandomLevel rs = Some lv" using Cons.prems(4) rss by (auto simp: levels_ok_def)
  let ?r = "zadd_spec_element (fadd env) f (zmap xs) st score b"
  obtain zs1 ns1 ys where s: "zadd_element env f zs st score b rs = Some (zs1, snd ?r)" "zset_rep env zs1 ns1 ys" "zmap ys = fst ?r"
    "length ys \<le> Suc (length xs)" "xs \<noteq> [] \<or> \<not> f_xx f \<longrightarrow> ys \<noteq> []"
    using zadd_element_refines [OF Cons.prems(1) _ _ lv, of b f st score] Cons.prems(2,3) p by auto
  obtain m st1 nan where r: "?r = (m, st1, nan)" by (metis prod.exhaust)
  show ?case
  proof (cases nan)
    case True
    then show ?thesis using s r unfolding p rss by (intro exI [of _ zs1] exI [of _ ns1] exI [of _ ys]) simp
  next
    case False
    have "\<exists>zs' ns' ys'. zadd_loop env f zs1 st1 els rss' = Some (zs', snd (zadd_spec_loop (fadd env) f (zmap ys) st1 els)) \<and>
      zset_rep env zs' ns' ys' \<and> zmap ys' = fst (zadd_spec_loop (fadd env) f (zmap ys) st1 els) \<and> (ys \<noteq> [] \<or> \<not> f_xx f \<and> els \<noteq> [] \<longrightarrow> ys' \<noteq> [])"
      by (rule Cons.IH [OF s(2)]) (use Cons.prems(2-4) s(4) rss in \<open>auto simp: levels_ok_def\<close>)
    then show ?thesis using s r False unfolding p rss by auto
  qed
qed

definition zkey_rep :: "'s zenv \<Rightarrow> ('s :: linorder) zkey \<Rightarrow> (bytes \<Rightarrow> 's option) \<Rightarrow> bool" where
  "zkey_rep env key m \<longleftrightarrow> (case key of
     NoKey \<Rightarrow> m = Map.empty
   | WrongType \<Rightarrow> False
   | ZKey zs \<Rightarrow> \<exists>ns xs. zset_rep env zs ns xs \<and> xs \<noteq> [] \<and> zmap xs = m)"

lemma length_pairs: "length (zadd_pairs args) = length args div 2"
  by (induction args rule: zadd_pairs.induct) auto

lemma parse_scores_members:
  "parse_scores p xs = Some ys \<Longrightarrow> length ys = length xs \<and> (\<forall>q \<in> set ys. snd q \<in> snd ` set xs)"
proof (induction p xs arbitrary: ys rule: parse_scores.induct)
  case (2 p s m xs)
  obtain v zs where v: "p s = Some v" "parse_scores p xs = Some zs" "ys = (v, m) # zs" using 2(2) by (auto simp: bind_eq_Some_conv)
  then show ?case using 2(1) [OF v(1,2)] by auto
qed simp

lemma pairs_members: "q \<in> set (zadd_pairs args) \<Longrightarrow> snd q \<in> set args"
  by (induction args rule: zadd_pairs.induct) auto

lemma options_members: "set (snd (zadd_options f args)) \<subseteq> set args \<and> length (snd (zadd_options f args)) \<le> length args"
  by (induction f args rule: zadd_options.induct) (auto split: if_splits)

lemma createZsetObject_rep: "\<exists>zs ns. createZsetObject = Some zs \<and> zset_rep env (zs :: ('s :: {linorder, zero}) zset) ns []"
proof -
  obtain zsl :: "'s zskiplist" and e0 where c: "zslCreate = Some zsl" "zsl_rep zsl [e0] []" using zslCreate_content by blast
  have "entries (dictCreate :: (robj, addr) dict) = []" "dict_inv (zsetDictType (seed env)) (dictCreate :: (robj, addr) dict)"
    using dict_inv_create by (auto simp: entries_def ht_entries_def dictCreate_def dictReset_def)
  then have "zset_rep env \<lparr>zs_dict = dictCreate, zs_zsl = zsl\<rparr> [e0] []"
    using c(2) dictSize_entries [of "zsetDictType (seed env)" "dictCreate :: (robj, addr) dict"] by (simp add: zset_rep_def dict_map_def alookup_def)
  moreover have "createZsetObject = Some \<lparr>zs_dict = dictCreate, zs_zsl = zsl\<rparr>" by (simp only: createZsetObject_def c(1) Option.bind.bind_lunit)
  ultimately show ?thesis by blast
qed

definition zadd_ok :: "(bytes \<Rightarrow> 's option) \<Rightarrow> bytes list \<Rightarrow> nat list list \<Rightarrow> bool" where
  "zadd_ok m args rss \<longleftrightarrow> card (dom m) + length args \<le> 2 ^ 30 \<and> (\<forall>a \<in> set args. length a < 2 ^ 31) \<and> levels_ok rss (length args)"

lemma dom_zmap: "dom (zmap xs) = set (member_bytes xs)"
  using zmap_None [of xs] by (auto simp: dom_def)

lemma card_zmap: "distinct (member_bytes xs) \<Longrightarrow> card (dom (zmap xs)) = length xs"
  by (simp add: dom_zmap distinct_card) (simp add: member_bytes_def)

lemma zadd_spec_absent: "f_xx f \<Longrightarrow> zadd_spec_loop add f Map.empty st els = (Map.empty, if els = [] then st else st\<lparr>last_score := fst (last els)\<rparr>, False)"
  by (induction els arbitrary: st) (auto simp: zadd_spec_element_def split: prod.splits)

lemma zadd_run_refines:
  assumes "zset_rep env zs ns xs" "\<forall>p \<in> set els. length (snd p) < 2 ^ 31" "length xs + length els \<le> 2 ^ 30" "levels_ok rss (length els)" "xs \<noteq> [] \<or> \<not> f_xx f \<and> els \<noteq> []"
  shows "\<exists>key. zadd_run env f zs st els rss = Some (key, case zadd_spec_loop (fadd env) f (zmap xs) st els of (m, st, nan) \<Rightarrow> (if nan then RpErr NaNErr else zadd_reply f st, added st + updated st)) \<and>
    zkey_rep env key (fst (zadd_spec_loop (fadd env) f (zmap xs) st els))"
proof -
  obtain m st' nan where r: "zadd_spec_loop (fadd env) f (zmap xs) st els = (m, st', nan)" by (metis prod.exhaust)
  obtain zs' ns' ys where "zadd_loop env f zs st els rss = Some (zs', st', nan)" "zset_rep env zs' ns' ys" "zmap ys = m" "ys \<noteq> []"
    using zadd_loop_refines [OF assms(1-4), of f st] assms(5) r by auto
  then show ?thesis unfolding r by (intro exI [of _ "ZKey zs'"]) (auto simp: zadd_run_def zkey_rep_def)
qed

lemma zaddGenericCommand_refines:
  assumes "zkey_rep env key m" "zadd_ok m args rss"
  shows "\<exists>key'. zaddGenericCommand env f key args rss = Some (key', snd (zadd_spec env f m args)) \<and> zkey_rep env key' (fst (zadd_spec env f m args))"
proof -
  obtain f' args' where o: "zadd_options f args = (f', args')" by (metis prod.exhaust)
  let ?st = "\<lparr>added = 0, updated = 0, processed = 0, last_score = 0\<rparr>"
  note defs = zaddGenericCommand_def zadd_spec_def o Let_def prod.case
  have ev: "length args' mod 2 \<noteq> 0 \<or> length args' = 0 \<longleftrightarrow> odd (length args') \<or> args' = []" by (auto simp: odd_iff_mod_2_eq_one)
  have el: "1 < length args' div 2 \<longleftrightarrow> 2 < length args'" if "even (length args')" using that by (auto elim!: evenE)
  show ?thesis
  proof (cases "odd (length args') \<or> args' = [] \<or> f_nx f' \<and> f_xx f' \<or> f_incr f' \<and> 2 < length args' \<or> parse_scores (parse_score env) (zadd_pairs args') = None")
    case True
    then show ?thesis using assms(1) el unfolding defs ev by (cases "odd (length args')"; cases "args' = []"; cases "f_nx f' \<and> f_xx f'"; cases "f_incr f' \<and> 2 < length args'") auto
  next
    case False
    then obtain els where els: "parse_scores (parse_score env) (zadd_pairs args') = Some els" by auto
    have le: "length els \<le> length args'" "els \<noteq> []" using parse_scores_members [OF els] False by (auto simp: length_pairs elim!: evenE)
    have "snd q \<in> set args" if "q \<in> set els" for q
    proof -
      have "snd q \<in> snd ` set (zadd_pairs args')" using parse_scores_members [OF els] that by blast
      then show ?thesis using pairs_members options_members [of f args] o by auto
    qed
    then have lens: "\<forall>p \<in> set els. length (snd p) < 2 ^ 31" using assms(2) by (auto simp: zadd_ok_def)
    have la: "length els \<le> length args" using le options_members [of f args] o by auto
    then have lv: "levels_ok rss (length els)" using assms(2) by (auto simp: zadd_ok_def levels_ok_def)
    have g: "\<not> (odd (length args') \<or> args' = [])" "\<not> (f_nx f' \<and> f_xx f')" "\<not> (f_incr f' \<and> 2 < length args')" "\<not> (f_incr f' \<and> 1 < length args' div 2)" using False el by auto
    have C: "zaddGenericCommand env f key args rss = (case key of
        NoKey \<Rightarrow> if f_xx f' then Some (NoKey, zadd_reply f' ?st, 0) else do { zs \<leftarrow> createZsetObject; zadd_run env f' zs ?st els rss }
      | WrongType \<Rightarrow> Some (WrongType, RpErr WrongTypeErr, 0) | ZKey zs \<Rightarrow> zadd_run env f' zs ?st els rss)"
      unfolding defs ev if_not_P [OF g(1)] if_not_P [OF g(2)] if_not_P [OF g(4)] els option.case ..
    have S: "zadd_spec env f m args = (case zadd_spec_loop (fadd env) f' m ?st els of (m, st, nan) \<Rightarrow> (m, if nan then RpErr NaNErr else zadd_reply f' st, added st + updated st))"
      unfolding defs if_not_P [OF g(1)] if_not_P [OF g(2)] if_not_P [OF g(3)] els option.case ..
    obtain m' st' nan where r: "zadd_spec_loop (fadd env) f' m ?st els = (m', st', nan)" by (metis prod.exhaust)
    show ?thesis
    proof (cases key)
      case NoKey
      then have m: "m = Map.empty" using assms(1) by (simp add: zkey_rep_def)
      show ?thesis
      proof (cases "f_xx f'")
        case True
        then show ?thesis using C [unfolded NoKey] S NoKey m le(2) zadd_spec_absent [OF True, of "fadd env" ?st els] by (simp add: zkey_rep_def zadd_reply_def)
      next
        case False
        obtain zs ns where c: "createZsetObject = Some zs" "zset_rep env zs ns []" using createZsetObject_rep by blast
        have zm: "zmap [] = m" using m by (simp add: zmap_def fun_eq_iff)
        have "length ([] :: 'a zel list) + length els \<le> 2 ^ 30" using la assms(2) by (simp add: zadd_ok_def)
        from zadd_run_refines [OF c(2) lens this lv, of f' ?st] False le(2)
        show ?thesis unfolding C S unfolding zm r NoKey zkey.case if_not_P [OF False] c(1) Option.bind.bind_lunit prod.case fst_conv snd_conv by blast
      qed
    next
      case (ZKey zs)
      then obtain ns xs where z: "zset_rep env zs ns xs" "xs \<noteq> []" "zmap xs = m" using assms(1) by (auto simp: zkey_rep_def)
      have "length xs + length els \<le> 2 ^ 30" using la assms(2) card_zmap [OF zset_repD(2) [OF z(1)]] z(3) by (simp add: zadd_ok_def)
      from zadd_run_refines [OF z(1) lens this lv, of f' ?st] z(2) show ?thesis unfolding C S unfolding z(3) r ZKey zkey.case prod.case fst_conv snd_conv by blast
    qed (use assms(1) in \<open>simp add: zkey_rep_def\<close>)
  qed
qed

section \<open>ZREM\<close>

lemma zset_resize:
  assumes "zset_rep env \<lparr>zs_dict = d, zs_zsl = zsl\<rparr> ns xs" "length xs < 2 ^ 31"
  shows "zset_rep env \<lparr>zs_dict = tryResizeHashTable c d, zs_zsl = zsl\<rparr> ns xs"
proof -
  note z = zset_repD [OF assms(1), simplified]
  have "ht_used (ht0 d) < 2 ^ 31" using z(4) assms(2) by (simp add: dictSize_def)
  then have "same_content (zsetDictType (seed env)) d (tryResizeHashTable c d)"
    using dictResize_content [OF z(3)] z(3) by (auto simp: tryResizeHashTable_def same_content_def)
  from same_contentD [OF ztype_ok z(3) this] show ?thesis using assms(1) by (simp add: zset_rep_def)
qed

lemma zrem_loop_refines:
  assumes "zset_rep env zs ns xs" "xs \<noteq> []" "\<forall>m \<in> set ms. length m < 2 ^ 31" "length xs < 2 ^ 31"
  shows "\<exists>key. zrem_loop env zs ms k = Some (key, k + card (dom (zmap xs) \<inter> set ms)) \<and> zkey_rep env key (zmap xs |` (- set ms))"
  using assms
proof (induction ms arbitrary: zs ns xs k)
  case Nil
  then show ?case by (auto simp: zkey_rep_def)
next
  case (Cons b ms)
  let ?T = "zsetDictType (seed env) :: (robj, addr) dictType"
  have b: "obj_bytes (RStr b) = b" "robj_ok (RStr b)" using Cons.prems(3) by (simp_all add: obj_bytes_def robj_ok_def)
  obtain d r where f: "dictFind ?T (zs_dict zs) (RStr b) = Some (d, r)" "zset_rep env (zs\<lparr>zs_dict := d\<rparr>) ns xs"
    "case r of None \<Rightarrow> zmap xs b = None | Some x \<Rightarrow> \<exists>e s. ref_ok ?T d (RStr b) x \<and> entry_at d x = Some e \<and> obj_bytes (fst e) = b \<and>
       score_at (zs\<lparr>zs_dict := d\<rparr>) (snd e) = Some s \<and> zmap xs b = Some s"
    using zset_find [OF Cons.prems(1), of "RStr b"] unfolding b(1) by blast
  let ?zs = "zs\<lparr>zs_dict := d\<rparr>"
  have fin: "finite (dom (zmap xs))" by (simp add: dom_zmap)
  show ?case
  proof (cases r)
    case None
    then have no: "zmap xs b = None" using f(3) by simp
    then have "dom (zmap xs) \<inter> set (b # ms) = dom (zmap xs) \<inter> set ms" "zmap xs |` (- set (b # ms)) = zmap xs |` (- set ms)" by (auto simp: restrict_map_def fun_eq_iff)
    moreover have "zrem_loop env zs (b # ms) k = zrem_loop env ?zs ms k" by (simp only: zrem_loop.simps Let_def f(1) None Option.bind.bind_lunit prod.case option.case)
    ultimately show ?thesis using Cons.IH [OF f(2) Cons.prems(2) _ Cons.prems(4)] Cons.prems(3) by simp
  next
    case (Some x)
    then obtain e s where e: "entry_at d x = Some e" "score_at ?zs (snd e) = Some s" "zmap xs b = Some s" using f(3) by auto
    have l: "length xs < 2 ^ 32" using Cons.prems(4) by simp
    obtain zsl d1 evs ns1 where i: "zslDelete (zs_zsl ?zs) s (RStr b) = Some (zsl, True)" "dictDelete ?T (zs_dict ?zs) (RStr b) = Some (d1, True, evs)"
      "zset_rep env \<lparr>zs_dict = d1, zs_zsl = zsl\<rparr> ns1 (zdel (s, RStr b) xs)"
      using zset_delete [OF f(2) b(2) _ l, of s] e(3) b(1) by auto
    let ?ys = "zdel (s, RStr b) xs" and ?d2 = "tryResizeHashTable (can_resize env) d1"
    have ly: "length ?ys < 2 ^ 31" using Cons.prems(4) by (auto simp: zdel_def intro: le_less_trans [OF length_filter_le])
    have rep: "zset_rep env \<lparr>zs_dict = ?d2, zs_zsl = zsl\<rparr> ns1 ?ys" by (rule zset_resize [OF i(3) ly])
    have sz: "dictSize ?d2 = length ?ys" using zset_repD(4) [OF rep] by simp
    have m: "zmap ?ys = (zmap xs)(b := None)" using zmap_zdel [OF zset_repD(2) [OF f(2)], of "RStr b" s] e(3) b(1) by simp
    have step: "zrem_loop env zs (b # ms) k = (if dictSize ?d2 = 0 then Some (NoKey, k + 1) else zrem_loop env \<lparr>zs_dict = ?d2, zs_zsl = zsl\<rparr> ms (k + 1))"
      using i(1,2) by (simp only: zrem_loop.simps Let_def f(1) Some Option.bind.bind_lunit prod.case option.case e(1,2)) simp
    have res: "zmap xs |` (- set (b # ms)) = zmap ?ys |` (- set ms)" unfolding m by (auto simp: restrict_map_def fun_eq_iff)
    have "dom (zmap xs) \<inter> set (b # ms) = insert b (dom (zmap ?ys) \<inter> set ms)" unfolding m using e(3) by auto
    moreover have "b \<notin> dom (zmap ?ys) \<inter> set ms" unfolding m by simp
    moreover have "finite (dom (zmap ?ys) \<inter> set ms)" by simp
    ultimately have cd: "card (dom (zmap xs) \<inter> set (b # ms)) = Suc (card (dom (zmap ?ys) \<inter> set ms))" by simp
    show ?thesis
    proof (cases "?ys = []")
      case True
      then show ?thesis using step sz cd unfolding res True by (simp add: zkey_rep_def zmap_def)
    next
      case False
      then show ?thesis using step sz cd Cons.IH [OF rep False _ ly, of "k + 1"] Cons.prems(3) unfolding res by simp
    qed
  qed
qed

lemma zremCommand_refines:
  assumes "zkey_rep env key m" "\<forall>b \<in> set ms. length b < 2 ^ 31" "card (dom m) < 2 ^ 31"
  shows "\<exists>key'. zremCommand env key ms = Some (key', RpInt (int (card (dom m \<inter> set ms))), card (dom m \<inter> set ms)) \<and> zkey_rep env key' (m |` (- set ms))"
proof (cases key)
  case (ZKey zs)
  then obtain ns xs where z: "zset_rep env zs ns xs" "xs \<noteq> []" "zmap xs = m" using assms(1) by (auto simp: zkey_rep_def)
  have "length xs < 2 ^ 31" using assms(3) card_zmap [OF zset_repD(2) [OF z(1)]] z(3) by simp
  from zrem_loop_refines [OF z(1,2) assms(2) this, of 0] show ?thesis using ZKey z(3) by (auto simp: zremCommand_def)
qed (use assms(1) in \<open>auto simp: zremCommand_def zkey_rep_def\<close>)

section \<open>Order\<close>

lemma rank_set:
  assumes "zset_sorted (as @ (s, ob) # bs)" "distinct (member_bytes (as @ (s, ob) # bs))"
  shows "{c. \<exists>t. zmap (as @ (s, ob) # bs) c = Some t \<and> (t < s \<or> t = s \<and> byte_less c (obj_bytes ob))} = set (member_bytes as)"
proof -
  let ?xs = "as @ (s, ob) # bs"
  have P: "zmap ?xs c = Some t \<and> (t < s \<or> t = s \<and> byte_less c (obj_bytes ob)) \<longleftrightarrow> (\<exists>o'. (t, o') \<in> set ?xs \<and> obj_bytes o' = c \<and> key_less (t, o') (s, ob))" for c t
    unfolding zmap_Some [OF assms(2)] by (auto simp: key_less_def)
  have "key_less p (s, ob) \<longleftrightarrow> p \<in> set as" if "p \<in> set ?xs" for p
  proof
    assume l: "key_less p (s, ob)"
    show "p \<in> set as"
    proof (rule ccontr)
      assume "p \<notin> set as"
      then have "p = (s, ob) \<or> key_less (s, ob) p" using that sorted_split(2) [OF assms(1)] by auto
      then show False using l key_less_trans key_less_irrefl by blast
    qed
  qed (use sorted_split(1) [OF assms(1)] in blast)
  then have Q: "(t, o') \<in> set ?xs \<and> obj_bytes o' = c \<and> key_less (t, o') (s, ob) \<longleftrightarrow> (t, o') \<in> set as \<and> obj_bytes o' = c" for t o' c by auto
  show ?thesis unfolding P Q member_bytes_def by force
qed

lemma rank_split:
  assumes "zset_sorted (as @ (s, ob) # bs)" "distinct (member_bytes (as @ (s, ob) # bs))"
  shows "rank_in (zmap (as @ (s, ob) # bs)) s (obj_bytes ob) = length as"
proof -
  have "distinct (member_bytes as)" using assms(2) by simp
  then have "card (set (member_bytes as)) = length as" by (simp add: distinct_card) (simp add: member_bytes_def)
  then show ?thesis unfolding rank_in_def rank_set [OF assms] .
qed

lemma zmap_split:
  assumes "zmap xs b = Some s" "distinct (member_bytes xs)"
  obtains as ob bs where "xs = as @ (s, ob) # bs" "obj_bytes ob = b"
proof -
  obtain ob where ob: "(s, ob) \<in> set xs" "obj_bytes ob = b" using assms(1) unfolding zmap_Some [OF assms(2)] by blast
  obtain as bs where "xs = as @ (s, ob) # bs" using split_list [OF ob(1)] by blast
  then show ?thesis using that ob(2) by blast
qed

section \<open>Removal of ranges\<close>

definition remove_spec :: "(bytes \<Rightarrow> 's option) \<Rightarrow> ('s \<Rightarrow> bytes \<Rightarrow> bool) \<Rightarrow> bytes \<Rightarrow> 's option" where
  "remove_spec m P b = (case m b of None \<Rightarrow> None | Some s \<Rightarrow> if P s b then None else Some s)"

definition count_spec :: "(bytes \<Rightarrow> 's option) \<Rightarrow> ('s \<Rightarrow> bytes \<Rightarrow> bool) \<Rightarrow> nat" where
  "count_spec m P = card {b. \<exists>s. m b = Some s \<and> P s b}"

abbreviation on_key :: "('s \<Rightarrow> bytes \<Rightarrow> bool) \<Rightarrow> 's zel \<Rightarrow> bool" where
  "on_key P p \<equiv> P (fst p) (obj_bytes (snd p))"

lemma zmap_remove:
  assumes "distinct (member_bytes xs)"
  shows "zmap (filter (\<lambda>p. \<not> on_key P p) xs) = remove_spec (zmap xs) P"
proof (rule zmap_eqI [OF distinct_filter [OF assms]])
  fix b s
  have "remove_spec (zmap xs) P b = Some s \<longleftrightarrow> zmap xs b = Some s \<and> \<not> P s b" by (auto simp: remove_spec_def split: option.splits)
  then show "remove_spec (zmap xs) P b = Some s \<longleftrightarrow> (\<exists>ob. (s, ob) \<in> set (filter (\<lambda>p. \<not> on_key P p) xs) \<and> obj_bytes ob = b)"
    unfolding zmap_Some [OF assms] by auto
qed

lemma zmap_count:
  assumes "distinct (member_bytes xs)"
  shows "count_spec (zmap xs) P = length (filter (on_key P) xs)"
proof -
  have "{b. \<exists>s. zmap xs b = Some s \<and> P s b} = set (member_bytes (filter (on_key P) xs))"
    unfolding zmap_Some [OF assms] member_bytes_def by force
  then show ?thesis using distinct_card [OF distinct_filter [OF assms], of "on_key P"] by (simp add: count_spec_def) (simp add: member_bytes_def)
qed

lemma dels_size:
  assumes "dict_inv (zsetDictType sd) (d :: (robj, 'v) dict)" "distinct (map obj_bytes obs)" "\<forall>ob \<in> set obs. dict_map (zsetDictType sd) d ob \<noteq> None" "dels (dict_del (zsetDictType sd)) obs d = Some d'"
  shows "dictSize d' + length obs = dictSize d"
  using assms
proof (induction obs arbitrary: d)
  case (Cons ob obs)
  let ?T = "zsetDictType sd :: (robj, 'v) dictType"
  obtain d1 evs where d1: "dictGenericDelete ?T d ob False = Some (d1, True, evs)" "dict_inv ?T d1" "dict_map ?T d1 = map_del (keyEq ?T) (dict_map ?T d) ob"
    "\<exists>e. mset (entries d) = add_mset e (mset (entries d1))"
    using dictGenericDelete_correct [OF ztype_ok Cons.prems(1), of ob False] Cons.prems(3) by auto
  have "size (mset (entries d)) = Suc (size (mset (entries d1)))" using d1(4) by (metis size_add_mset)
  then have sz: "dictSize d = Suc (dictSize d1)" using dictSize_entries [OF Cons.prems(1)] dictSize_entries [OF d1(2)] by simp
  have del: "dict_del ?T d ob = Some d1" using d1(1) by (simp add: dict_del_def dictDelete_def)
  have "dictSize d' + length obs = dictSize d1"
  proof (rule Cons.IH [OF d1(2)])
    show "\<forall>o' \<in> set obs. dict_map ?T d1 o' \<noteq> None"
    proof
      fix o'
      assume o: "o' \<in> set obs"
      then have "obj_bytes ob \<noteq> obj_bytes o'" using Cons.prems(2) by (metis distinct.simps(2) image_eqI list.simps(9) set_map)
      then show "dict_map ?T d1 o' \<noteq> None" using Cons.prems(3) o by (simp add: d1(3) map_del_def)
    qed
  qed (use Cons.prems(2,4) del in simp_all)
  then show ?case using sz by simp
qed simp

lemma dels_zset:
  assumes "zset_rep env zs ns xs" "\<forall>p \<in> set cs. p \<in> set xs"
  shows "\<exists>d'. dels (dict_del (zsetDictType (seed env))) (map snd cs) (zs_dict zs) = Some d' \<and> dict_inv (zsetDictType (seed env)) d' \<and>
    dict_map (zsetDictType (seed env)) d' = (\<lambda>k. if \<exists>ob \<in> set (map snd cs). obj_bytes ob = obj_bytes k then None else dict_map (zsetDictType (seed env)) (zs_dict zs) k)"
  using dels_ok [OF ztype_ok zset_repD(3) [OF assms(1)], of "map snd cs"] by simp

text \<open>The skip list and the dictionary agree after the removal of a run of nodes.\<close>

lemma zset_remove_run:
  assumes "zset_rep env zs ns xs" "ns = A @ C @ B" "A \<noteq> []" "map content C = cs" "zsl_rep z (A @ B) ys"
    "dels (dict_del (zsetDictType (seed env))) (map snd cs) (zs_dict zs) = Some d'" "dict_inv (zsetDictType (seed env)) d'"
    "dict_map (zsetDictType (seed env)) d' = (\<lambda>k. if \<exists>ob \<in> set (map snd cs). obj_bytes ob = obj_bytes k then None else dict_map (zsetDictType (seed env)) (zs_dict zs) k)"
  shows "zset_rep env \<lparr>zs_dict = d', zs_zsl = z\<rparr> (A @ B) ys"
proof -
  let ?T = "zsetDictType (seed env) :: (robj, addr) dictType"
  note zr = zset_repD [OF assms(1)]
  have tls: "tl ns = tl A @ C @ B" "tl (A @ B) = tl A @ B" using assms(2,3) by (cases A; simp)+
  have dis: "distinct (map (\<lambda>e. obj_bytes (eo e)) (tl A @ C @ B))" using zr(2) unfolding rep_bytes [OF zr(1)] tls .
  have obs: "map snd cs = map eo C" using assms(4) by (auto simp: content_def)
  have dy: "distinct (member_bytes ys)" using dis unfolding rep_bytes [OF assms(5)] tls by auto
  have dc: "distinct (map obj_bytes (map snd cs))" using dis unfolding obs by (simp add: comp_def)
  have "dict_map ?T (zs_dict zs) ob \<noteq> None" if ob: "ob \<in> set (map snd cs)" for ob
  proof -
    obtain e where "e \<in> set C" "eo e = ob" using ob unfolding obs by auto
    then show ?thesis using zr(5) [of ob "ea e"] tls by auto
  qed
  then have "dictSize d' + length cs = length xs" using dels_size [OF zr(3) dc _ assms(6)] zr(4) by simp
  moreover have "length xs = length C + length ys" using rep_length [OF zr(1)] rep_length [OF assms(5)] assms(2) by simp
  moreover have "length C = length cs" using assms(4) by (metis length_map)
  ultimately have sz: "dictSize d' = length ys" by simp
  have in_C: "(\<exists>ob \<in> set (map snd cs). obj_bytes ob = obj_bytes k) \<longleftrightarrow> (\<exists>e \<in> set C. obj_bytes (eo e) = obj_bytes k)" for k unfolding obs by auto
  have sep: "obj_bytes (eo e) \<noteq> obj_bytes (eo e')" if "e \<in> set C" "e' \<in> set (tl A @ B)" for e e'
    using dis that by (auto simp: image_iff)
  have "dict_map ?T d' k = Some a \<longleftrightarrow> (\<exists>e \<in> set (tl (A @ B)). ea e = a \<and> obj_bytes (eo e) = obj_bytes k)" for k a
  proof (cases "\<exists>e \<in> set C. obj_bytes (eo e) = obj_bytes k")
    case True
    then have "\<not> (\<exists>e \<in> set (tl A @ B). obj_bytes (eo e) = obj_bytes k)" using sep by metis
    then show ?thesis unfolding assms(8) in_C tls using True by auto
  next
    case False
    then show ?thesis unfolding assms(8) in_C using zr(5) [of k a] tls by auto
  qed
  then show ?thesis using assms(5,7) dy sz unfolding zset_rep_def by simp
qed

lemma sanitize_bounds: "sanitize start end' llen = Some (lo, hi) \<Longrightarrow> lo \<le> hi \<and> hi < llen"
  by (auto simp: sanitize_def Let_def split: if_splits)

text \<open>What a range of indexes means: those between the two ends, where a negative end counts from behind the last element.\<close>

definition in_index :: "int \<Rightarrow> int \<Rightarrow> nat \<Rightarrow> nat \<Rightarrow> bool" where
  "in_index start end' llen i \<longleftrightarrow> i < llen \<and> (if start < 0 then int llen + start else start) \<le> int i \<and> int i \<le> (if end' < 0 then int llen + end' else end')"

lemma sanitize_exact: "in_index start end' llen i = (case sanitize start end' llen of None \<Rightarrow> False | Some (lo, hi) \<Rightarrow> lo \<le> i \<and> i \<le> hi)"
  by (auto simp: in_index_def sanitize_def Let_def)

lemma filter_index:
  assumes "\<And>i. i < length xs \<Longrightarrow> r (xs ! i) = i"
  shows "filter (\<lambda>p. lo \<le> r p \<and> r p \<le> hi) xs = take (hi + 1 - lo) (drop lo xs)"
    "lo \<le> hi \<Longrightarrow> filter (\<lambda>p. \<not> (lo \<le> r p \<and> r p \<le> hi)) xs = take lo xs @ drop (Suc hi) xs"
  using assms
proof (induction xs rule: rev_induct)
  case (snoc x xs)
  {
    case 1
    have r: "r x = length xs" "\<And>i. i < length xs \<Longrightarrow> r (xs ! i) = i" using 1 by (metis length_append_singleton less_Suc_eq nth_append_length, metis length_append_singleton less_Suc_eq nth_append)
    then show ?case using snoc.IH(1) by (auto simp: Suc_diff_le)
  next
    case 2
    have r: "r x = length xs" "\<And>i. i < length xs \<Longrightarrow> r (xs ! i) = i" using 2 by (metis length_append_singleton less_Suc_eq nth_append_length, metis length_append_singleton less_Suc_eq nth_append)
    then show ?case using snoc.IH(2) [OF 2(1)] 2(1) by auto
  }
qed simp_all

text \<open>What a range removes, by score and member; ranges of members need equal scores.\<close>

definition range_pred :: "(bytes \<Rightarrow> ('s :: linorder) option) \<Rightarrow> 's rangetype \<Rightarrow> 's \<Rightarrow> bytes \<Rightarrow> bool" where
  "range_pred m rt s b = (case rt of
     RankRange start end' \<Rightarrow> in_index start end' (card (dom m)) (rank_in m s b)
   | ScoreRange rg \<Rightarrow> zslValueGteMin s rg \<and> zslValueLteMax s rg
   | LexRange rg \<Rightarrow> lex_gte rg b \<and> lex_lte rg b)"

definition range_ok :: "(bytes \<Rightarrow> 's option) \<Rightarrow> 's rangetype \<Rightarrow> bool" where
  "range_ok m rt \<longleftrightarrow> (case rt of LexRange rg \<Rightarrow> lex_ok rg \<and> (\<exists>s. ran m \<subseteq> {s}) | _ \<Rightarrow> True)"

lemma rank_nth:
  assumes "zset_sorted xs" "distinct (member_bytes xs)" "i < length xs"
  shows "rank_in (zmap xs) (fst (xs ! i)) (obj_bytes (snd (xs ! i))) = i"
proof -
  have "xs = take i xs @ xs ! i # drop (Suc i) xs" using assms(3) by (rule id_take_nth_drop)
  then have "xs = take i xs @ (fst (xs ! i), snd (xs ! i)) # drop (Suc i) xs" by simp
  then have "rank_in (zmap xs) (fst (xs ! i)) (obj_bytes (snd (xs ! i))) = length (take i xs)" using rank_split assms(1,2) by metis
  then show ?thesis using assms(3) by simp
qed

lemma same_scores:
  assumes "distinct (member_bytes xs)" "ran (zmap xs) \<subseteq> {s}"
  shows "\<forall>p \<in> set xs. fst p = s"
proof
  fix p
  assume "p \<in> set xs"
  then have "zmap xs (obj_bytes (snd p)) = Some (fst p)" using zmap_Some [OF assms(1)] by (metis prod.collapse)
  then show "fst p = s" using assms(2) by (auto simp: ran_def)
qed

lemma zset_length:
  assumes "zset_rep env zs ns xs"
  shows "zsetLength zs = length xs"
proof -
  have "zsl_ok (zs_zsl zs) ns" using zset_repD(1) [OF assms] by (simp add: zsl_rep_def)
  then have "zsetLength zs = length ns - 1" unfolding zsetLength_def zsl_ok_def by blast
  then show ?thesis using rep_length [OF zset_repD(1) [OF assms]] by simp
qed

lemma zsl_delete_range:
  assumes "zset_rep env zs ns xs" "length xs < 2 ^ 31" "range_ok (zmap xs) rt" "\<And>start end'. rt = RankRange start end' \<Longrightarrow> sanitize start end' (length xs) \<noteq> None"
  shows "\<exists>z d A B. zremrange_delete env zs rt =
       Some (Some (z, d, length (filter (on_key (range_pred (zmap xs) rt)) xs))) \<and>
     zset_rep env \<lparr>zs_dict = d, zs_zsl = z\<rparr> (A @ B) (filter (\<lambda>p. \<not> on_key (range_pred (zmap xs) rt) p) xs)"
proof -
  let ?T = "zsetDictType (seed env) :: (robj, addr) dictType"
  let ?cs = "filter (on_key (range_pred (zmap xs) rt)) xs" and ?ys = "filter (\<lambda>p. \<not> on_key (range_pred (zmap xs) rt) p) xs"
  note z = zset_repD [OF assms(1)]
  have l: "length xs < 2 ^ 32" using assms(2) by simp
  have zl: "zsetLength zs = length xs" by (rule zset_length [OF assms(1)])
  obtain d where d: "dels (dict_del ?T) (map snd ?cs) (zs_dict zs) = Some d" "dict_inv ?T d"
    "dict_map ?T d = (\<lambda>k. if \<exists>ob \<in> set (map snd ?cs). obj_bytes ob = obj_bytes k then None else dict_map ?T (zs_dict zs) k)"
    using dels_zset [OF assms(1), of ?cs] by auto
  have "\<exists>z A C B. zremrange_delete env zs rt = Some (Some (z, d, length ?cs)) \<and> ns = A @ C @ B \<and> A \<noteq> [] \<and> map content C = ?cs \<and> zsl_rep z (A @ B) ?ys"
  proof (cases rt)
    case (RankRange start end')
    obtain lo hi where s: "sanitize start end' (length xs) = Some (lo, hi)" using assms(4) [OF RankRange] by auto
    note b = sanitize_bounds [OF s]
    have srt: "zset_sorted xs" using z(1) by (simp add: zsl_rep_def)
    have rp: "range_pred (zmap xs) rt = (\<lambda>s b. lo \<le> rank_in (zmap xs) s b \<and> rank_in (zmap xs) s b \<le> hi)"
      by (intro ext) (simp add: range_pred_def RankRange card_zmap [OF z(2)] sanitize_exact s)
    have f: "?cs = take (hi + 1 - lo) (drop lo xs)" "?ys = take lo xs @ drop (Suc hi) xs"
      unfolding rp using filter_index [of xs "\<lambda>p. rank_in (zmap xs) (fst p) (obj_bytes (snd p))" lo hi] rank_nth [OF srt z(2)] b by auto
    have lc: "length ?cs = hi + 1 - lo" unfolding f using b by (simp add: min_def, linarith)
    have dd: "dels (dict_del ?T) (map snd (take (hi + 1 + 1 - (lo + 1)) (drop (lo + 1 - 1) xs))) (zs_dict zs) = Some d" using d(1) unfolding f by simp
    have mm: "min (hi + 1 + 1 - (lo + 1)) (length xs + 1 - (lo + 1)) = length ?cs" "max (lo + 1 - 1) (hi + 1) = Suc hi" unfolding lc using b by auto
    obtain y A C B where "zslDeleteRangeByRank ?T (zs_zsl zs) (lo + 1) (hi + 1) (zs_dict zs) = Some (y, d, length ?cs)" "ns = A @ C @ B" "A \<noteq> []" "map content C = ?cs" "zsl_rep y (A @ B) ?ys"
      using zslDeleteRangeByRank_content [OF z(1) l _ dd, unfolded mm] unfolding f by auto
    then show ?thesis using s zl RankRange by (auto simp: zremrange_delete_def)
  next
    case (ScoreRange rg)
    have rp: "on_key (range_pred (zmap xs) rt) p = in_range rg p" for p by (simp add: range_pred_def ScoreRange in_range_def)
    obtain y A C B where "zslDeleteRangeByScore ?T (zs_zsl zs) rg (zs_dict zs) = Some (y, d, length ?cs)" "ns = A @ C @ B" "A \<noteq> []" "map content C = ?cs" "zsl_rep y (A @ B) ?ys"
      using zslDeleteRangeByScore_content [OF z(1) l d(1) [unfolded rp]] unfolding rp by (elim exE conjE)
    then show ?thesis using ScoreRange by (auto simp: zremrange_delete_def)
  next
    case (LexRange rg)
    have rp: "on_key (range_pred (zmap xs) rt) p = in_lex rg p" for p by (simp add: range_pred_def LexRange in_lex_def)
    obtain s where lx: "lex_ok rg" "\<forall>p \<in> set xs. fst p = s" using assms(3) LexRange same_scores [OF z(2)] by (auto simp: range_ok_def)
    obtain y A C B where "zslDeleteRangeByLex ?T (zs_zsl zs) rg (zs_dict zs) = Some (y, d, length ?cs)" "ns = A @ C @ B" "A \<noteq> []" "map content C = ?cs" "zsl_rep y (A @ B) ?ys"
      using zslDeleteRangeByLex_content [OF z(1) l lx(2,1) d(1) [unfolded rp]] unfolding rp by (elim exE conjE)
    then show ?thesis using LexRange by (auto simp: zremrange_delete_def)
  qed
  then show ?thesis using zset_remove_run [OF assms(1) _ _ _ _ d] by blast
qed

lemma zremrange_refines:
  assumes "zkey_rep env key m" "card (dom m) < 2 ^ 31" "range_ok m rt"
  shows "\<exists>key'. zremrangeGenericCommand env key rt = Some (key', RpInt (int (count_spec m (range_pred m rt))), count_spec m (range_pred m rt)) \<and>
    zkey_rep env key' (remove_spec m (range_pred m rt))"
proof (cases key)
  case NoKey
  then have "m = Map.empty" using assms(1) by (simp add: zkey_rep_def)
  then show ?thesis using NoKey by (simp add: zremrangeGenericCommand_def zkey_rep_def count_spec_def remove_spec_def fun_eq_iff)
next
  case WrongType
  then show ?thesis using assms(1) by (simp add: zkey_rep_def)
next
  case (ZKey zs)
  then obtain ns xs where z: "zset_rep env zs ns xs" "xs \<noteq> []" "zmap xs = m" using assms(1) by (auto simp: zkey_rep_def)
  note zr = zset_repD [OF z(1)]
  have cd: "card (dom m) = length xs" using card_zmap [OF zr(2)] z(3) by simp
  have zl: "zsetLength zs = length xs" by (rule zset_length [OF z(1)])
  show ?thesis
  proof (cases "\<exists>start end'. rt = RankRange start end' \<and> sanitize start end' (length xs) = None")
    case True
    then obtain start end' where rt: "rt = RankRange start end'" "sanitize start end' (length xs) = None" by blast
    have rp: "range_pred m rt = (\<lambda>s b. False)" by (intro ext) (simp add: range_pred_def sanitize_exact rt cd)
    have "remove_spec m (\<lambda>s b. False) = m" by (auto simp: remove_spec_def fun_eq_iff split: option.splits)
    then show ?thesis unfolding rp using ZKey assms(1) rt zl by (simp add: zremrangeGenericCommand_def zremrange_delete_def count_spec_def)
  next
    case False
    let ?n = "count_spec m (range_pred m rt)" and ?ys = "filter (\<lambda>p. \<not> on_key (range_pred m rt) p) xs"
    have n: "?n = length (filter (on_key (range_pred m rt)) xs)" using zmap_count [OF zr(2)] unfolding z(3) .
    obtain y d A B where r: "zremrange_delete env zs rt = Some (Some (y, d, ?n))"
      "zset_rep env \<lparr>zs_dict = d, zs_zsl = y\<rparr> (A @ B) ?ys"
      using zsl_delete_range [OF z(1), of rt] assms(2,3) False unfolding n z(3) cd by auto
    let ?d = "tryResizeHashTable (can_resize env) d"
    have "length ?ys < 2 ^ 31" using assms(2) cd by (metis le_less_trans length_filter_le)
    then have rep: "zset_rep env \<lparr>zs_dict = ?d, zs_zsl = y\<rparr> (A @ B) ?ys" by (rule zset_resize [OF r(2)])
    have m': "zmap ?ys = remove_spec m (range_pred m rt)" using zmap_remove [OF zr(2), of "range_pred m rt"] unfolding z(3) .
    have sz: "dictSize ?d = length ?ys" using zset_repD(4) [OF rep] by simp
    have "zremrangeGenericCommand env key rt = Some (if dictSize ?d = 0 then NoKey else ZKey \<lparr>zs_dict = ?d, zs_zsl = y\<rparr>, RpInt (int ?n), ?n)"
      unfolding zremrangeGenericCommand_def ZKey zkey.case Let_def r(1) Option.bind.bind_lunit option.case prod.case ..
    moreover have "zkey_rep env (if dictSize ?d = 0 then NoKey else ZKey \<lparr>zs_dict = ?d, zs_zsl = y\<rparr>) (remove_spec m (range_pred m rt))"
    proof (cases "?ys = []")
      case True
      then have "remove_spec m (range_pred m rt) = Map.empty" using m' unfolding True by (simp add: zmap_def fun_eq_iff)
      then show ?thesis using sz unfolding True by (simp add: zkey_rep_def)
    next
      case False
      then have "dictSize ?d \<noteq> 0" using sz by simp
      then show ?thesis using rep m' False by (auto simp: zkey_rep_def)
    qed
    ultimately show ?thesis by blast
  qed
qed

section \<open>Queries\<close>

lemma zkey_ZKey:
  assumes "zkey_rep env (ZKey zs) m"
  obtains ns xs where "zset_rep env zs ns xs" "xs \<noteq> []" "zmap xs = m" "card (dom m) = length xs"
proof -
  obtain ns xs where z: "zset_rep env zs ns xs" "xs \<noteq> []" "zmap xs = m" using assms by (auto simp: zkey_rep_def)
  then show ?thesis using that [OF z] card_zmap [OF zset_repD(2) [OF z(1)]] by simp
qed

lemma zcardCommand_refines: "zkey_rep env key m \<Longrightarrow> zcardCommand key = RpInt (int (card (dom m)))"
proof (cases key)
  case (ZKey zs)
  assume "zkey_rep env key m"
  then obtain ns xs where "zset_rep env zs ns xs" "card (dom m) = length xs" unfolding ZKey by (rule zkey_ZKey)
  then show ?thesis using ZKey zset_length by (simp add: zcardCommand_def)
qed (simp_all add: zkey_rep_def zcardCommand_def)

lemma zscoreCommand_refines:
  assumes "zkey_rep env key m"
  shows "\<exists>key'. zscoreCommand env key b = Some (key', case m b of None \<Rightarrow> RpNil | Some s \<Rightarrow> RpScore s) \<and> zkey_rep env key' m"
proof (cases key)
  case (ZKey zs)
  obtain ns xs where z: "zset_rep env zs ns xs" "xs \<noteq> []" "zmap xs = m" using assms unfolding ZKey by (rule zkey_ZKey)
  have b: "obj_bytes (RStr b) = b" by (simp add: obj_bytes_def)
  obtain d r where f: "dictFind (zsetDictType (seed env)) (zs_dict zs) (RStr b) = Some (d, r)" "zset_rep env (zs\<lparr>zs_dict := d\<rparr>) ns xs"
    "case r of None \<Rightarrow> m b = None | Some x \<Rightarrow> \<exists>e s. entry_at d x = Some e \<and> score_at (zs\<lparr>zs_dict := d\<rparr>) (snd e) = Some s \<and> m b = Some s"
    using zset_find [OF z(1), of "RStr b"] unfolding b z(3) by (auto split: option.splits)
  have k: "zkey_rep env (ZKey (zs\<lparr>zs_dict := d\<rparr>)) m" using f(2) z(2,3) by (auto simp: zkey_rep_def)
  show ?thesis
  proof (cases r)
    case None
    then show ?thesis using f(1,3) k ZKey by (simp add: zscoreCommand_def zsetScore_def)
  next
    case (Some x)
    then show ?thesis using f(1,3) k ZKey by (auto simp: zscoreCommand_def zsetScore_def)
  qed
qed (use assms in \<open>simp_all add: zkey_rep_def zscoreCommand_def\<close>)

definition rank_reply :: "(bytes \<Rightarrow> ('s :: linorder) option) \<Rightarrow> bool \<Rightarrow> bytes \<Rightarrow> 's zreply" where
  "rank_reply m reverse b = (case m b of
     None \<Rightarrow> RpNil
   | Some s \<Rightarrow> RpInt (if reverse then int (card (dom m)) - 1 - int (rank_in m s b) else int (rank_in m s b)))"

lemma zset_rank:
  assumes "zset_rep env zs ns xs" "length xs < 2 ^ 32" "robj_ok ob" "zmap xs (obj_bytes ob) = Some s"
  shows "zslGetRank (zs_zsl zs) s ob = Some (Suc (rank_in (zmap xs) s (obj_bytes ob)))"
proof -
  note z = zset_repD [OF assms(1)]
  obtain as ob' bs where xs: "xs = as @ (s, ob') # bs" "obj_bytes ob' = obj_bytes ob" using assms(4) z(2) by (rule zmap_split)
  have "zset_sorted xs" using z(1) by (simp add: zsl_rep_def)
  then have "rank_in (zmap xs) s (obj_bytes ob) = length as" using rank_split [of as s ob' bs] z(2) xs by simp
  moreover have "zslGetRank (zs_zsl zs) s ob = Some (Suc (length as))"
    using zslGetRank_member [of "zs_zsl zs" ns as s ob' bs ob] z(1,2) assms(2,3) xs by simp
  ultimately show ?thesis by simp
qed

lemma zrankGenericCommand_refines:
  assumes "zkey_rep env key m" "length b < 2 ^ 31" "card (dom m) < 2 ^ 32"
  shows "\<exists>key'. zrankGenericCommand env reverse key b = Some (key', rank_reply m reverse b) \<and> zkey_rep env key' m"
proof (cases key)
  case (ZKey zs)
  obtain ns xs where z: "zset_rep env zs ns xs" "xs \<noteq> []" "zmap xs = m" "card (dom m) = length xs" using assms(1) unfolding ZKey by (rule zkey_ZKey)
  have b: "obj_bytes (RStr b) = b" "robj_ok (RStr b)" using assms(2) by (simp_all add: obj_bytes_def robj_ok_def)
  obtain d r where f: "dictFind (zsetDictType (seed env)) (zs_dict zs) (RStr b) = Some (d, r)" "zset_rep env (zs\<lparr>zs_dict := d\<rparr>) ns xs"
    "case r of None \<Rightarrow> m b = None | Some x \<Rightarrow> \<exists>e s. entry_at d x = Some e \<and> score_at (zs\<lparr>zs_dict := d\<rparr>) (snd e) = Some s \<and> m b = Some s"
    using zset_find [OF z(1), of "RStr b"] unfolding b z(3) by (auto split: option.splits)
  have k: "zkey_rep env (ZKey (zs\<lparr>zs_dict := d\<rparr>)) m" using f(2) z(2,3) by (auto simp: zkey_rep_def)
  have len: "zsetLength zs = card (dom m)" using zset_length [OF z(1)] z(4) by simp
  show ?thesis
  proof (cases r)
    case None
    then show ?thesis using f(1,3) k ZKey by (simp add: zrankGenericCommand_def rank_reply_def)
  next
    case (Some x)
    then obtain e s where e: "entry_at d x = Some e" "score_at (zs\<lparr>zs_dict := d\<rparr>) (snd e) = Some s" "m b = Some s" using f(3) by auto
    have rk: "zslGetRank (zs_zsl zs) s (RStr b) = Some (Suc (rank_in m s b))"
      using zset_rank [OF f(2) _ b(2), of s] assms(3) z(3,4) e(3) b(1) by simp
    then show ?thesis using f(1) Some e k ZKey len by (simp add: zrankGenericCommand_def rank_reply_def)
  qed
qed (use assms in \<open>simp_all add: zkey_rep_def zrankGenericCommand_def rank_reply_def\<close>)

text \<open>Counting by the ranks of the first and the last member of the range.\<close>

lemma count_range_exact:
  assumes "zset_rep env zs ns xs" "length xs < 2 ^ 31" "zsl = zs_zsl zs" "xs = as @ cs @ bs" "filter P xs = cs" "find P xs = (case cs of [] \<Rightarrow> None | p # _ \<Rightarrow> Some p)"
    "find P (rev xs) = (case rev cs of [] \<Rightarrow> None | p # _ \<Rightarrow> Some p)"
    "case find P xs of None \<Rightarrow> r1 = None | Some p \<Rightarrow> \<exists>a. r1 = Some a \<and> points zsl a p" "case find P (rev xs) of None \<Rightarrow> r2 = None | Some p \<Rightarrow> \<exists>a. r2 = Some a \<and> points zsl a p"
  shows "count_range zsl (Some r1) (Some r2) = Some (int (length (filter P xs)))"
proof (cases "cs = []")
  case True
  then show ?thesis using assms(6,8) unfolding assms(5) True by (simp add: count_range_def)
next
  case False
  note z = zset_repD [OF assms(1)]
  have rank: "zslGetRank zsl (fst p) (snd p) = Some (Suc (length us))" if "xs = us @ p # vs" for us p vs
  proof -
    have "robj_ok (snd p)" using z(1) that zset_sortedD [of xs p] by (simp add: zsl_rep_def)
    then show ?thesis using zslGetRank_member [of zsl ns us "fst p" "snd p" vs "snd p"] z(1,2) assms(2,3) that by simp
  qed
  have xs1: "xs = as @ cs ! 0 # (tl cs @ bs)" using assms(4) False by (cases cs) simp_all
  have xs2: "xs = (as @ butlast cs) @ last cs # bs" using assms(4) False by (cases cs rule: rev_cases) simp_all
  have "find P xs = Some (cs ! 0)" using assms(6) False by (cases cs) auto
  then obtain a n where a: "r1 = Some a" "heap zsl a = Some n" "zn_score n = fst (cs ! 0)" "zn_obj n = Some (snd (cs ! 0))" using assms(8) by (auto simp: points_def)
  have "find P (rev xs) = Some (last cs)" using assms(7) False by (cases cs rule: rev_cases) auto
  then obtain b l where b: "r2 = Some b" "heap zsl b = Some l" "zn_score l = fst (last cs)" "zn_obj l = Some (snd (last cs))" using assms(9) by (auto simp: points_def)
  have zl: "zlength zsl = length xs" using zset_length [OF assms(1)] assms(3) by (simp add: zsetLength_def)
  have ra: "zslGetRank zsl (zn_score n) (snd (cs ! 0)) = Some (Suc (length as))" using rank [OF xs1] a(3) by simp
  have rb: "zslGetRank zsl (zn_score l) (snd (last cs)) = Some (length as + length cs)" using rank [OF xs2] b(3) False by simp
  have i1: "to_int32 (int (length xs) - int (length as)) = int (length xs) - int (length as)" using assms(2,4) by (intro to_int32_id) auto
  have i2: "to_int32 (int (length xs) - int (length as) - (int (length xs) - int (length as + length cs))) = int (length cs)" using assms(2,4) by (subst to_int32_id) auto
  show ?thesis unfolding assms(5) count_range_def a(1) b(1) Option.bind.bind_lunit option.case a(2,4) ra b(2,4) rb Let_def zl using i1 i2 by simp
qed

lemma find_filter: "find P xs = (case filter P xs of [] \<Rightarrow> None | p # _ \<Rightarrow> Some p)"
  by (induction xs) auto

lemma range_run:
  assumes "zset_sorted xs" "\<And>p q. p \<in> set xs \<Longrightarrow> q \<in> set xs \<Longrightarrow> key_less p q \<Longrightarrow> G p \<Longrightarrow> G q" "\<And>p q. p \<in> set xs \<Longrightarrow> q \<in> set xs \<Longrightarrow> key_less p q \<Longrightarrow> L q \<Longrightarrow> L p"
  obtains as bs where "xs = as @ filter (\<lambda>p. G p \<and> L p) xs @ bs" "\<forall>p \<in> set as. \<not> G p" "\<forall>p \<in> set bs. G p \<and> \<not> L p"
proof -
  have rel: "sorted_wrt (\<lambda>p q. key_less p q \<and> p \<in> set xs \<and> q \<in> set xs) xs"
    using assms(1) unfolding zset_sorted_def by (auto intro: sorted_wrt_mono_rel)
  obtain as cs bs where p: "xs = as @ cs @ bs" "\<forall>p \<in> set as. \<not> G p" "\<forall>p \<in> set (cs @ bs). G p" "\<forall>p \<in> set cs. L p" "\<forall>p \<in> set bs. \<not> L p"
    by (rule range_parts [OF rel, of G L]) (use assms(2,3) in blast)+
  have "filter (\<lambda>p. G p \<and> L p) xs = cs" using p by (auto simp: filter_empty_conv filter_id_conv)
  then show ?thesis using p that [of as bs] by auto
qed

lemma zcountCommand_refines:
  assumes "zkey_rep env key m" "card (dom m) < 2 ^ 31"
  shows "zcountCommand key rg = Some (RpInt (int (count_spec m (\<lambda>s b. zslValueGteMin s rg \<and> zslValueLteMax s rg))))"
proof (cases key)
  case (ZKey zs)
  obtain ns xs where z: "zset_rep env zs ns xs" "xs \<noteq> []" "zmap xs = m" "card (dom m) = length xs" using assms(1) unfolding ZKey by (rule zkey_ZKey)
  note zr = zset_repD [OF z(1)]
  have srt: "zset_sorted xs" using zr(1) by (simp add: zsl_rep_def)
  have l: "length xs < 2 ^ 31" "length xs < 2 ^ 32" using assms(2) z(4) by simp_all
  obtain r1 where r1: "zslFirstInRange (zs_zsl zs) rg = Some r1" "case find (in_range rg) xs of None \<Rightarrow> r1 = None | Some p \<Rightarrow> \<exists>a. r1 = Some a \<and> points (zs_zsl zs) a p"
    using zslFirstInRange_content [OF zr(1) l(2)] by blast
  obtain r2 where r2: "zslLastInRange (zs_zsl zs) rg = Some r2" "case find (in_range rg) (rev xs) of None \<Rightarrow> r2 = None | Some p \<Rightarrow> \<exists>a. r2 = Some a \<and> points (zs_zsl zs) a p"
    using zslLastInRange_content [OF zr(1) l(2)] by blast
  obtain as bs where ab: "xs = as @ filter (\<lambda>p. zslValueGteMin (fst p) rg \<and> zslValueLteMax (fst p) rg) xs @ bs"
    by (rule range_run [where G = "\<lambda>p. zslValueGteMin (fst p) rg" and L = "\<lambda>p. zslValueLteMax (fst p) rg", OF srt]) (blast dest: score_bounds)+
  have eq: "(\<lambda>p. zslValueGteMin (fst p) rg \<and> zslValueLteMax (fst p) rg) = in_range rg" by (simp add: in_range_def [abs_def])
  have "count_range (zs_zsl zs) (Some r1) (Some r2) = Some (int (length (filter (in_range rg) xs)))"
    by (rule count_range_exact [OF z(1) l(1) refl ab [unfolded eq] refl find_filter _ r1(2) r2(2)]) (simp add: find_filter rev_filter)
  moreover have "count_spec m (\<lambda>s b. zslValueGteMin s rg \<and> zslValueLteMax s rg) = length (filter (in_range rg) xs)"
    using zmap_count [OF zr(2), of "\<lambda>s b. zslValueGteMin s rg \<and> zslValueLteMax s rg"] unfolding z(3) eq .
  ultimately show ?thesis using ZKey r1(1) r2(1) by (simp add: zcountCommand_def)
qed (use assms in \<open>simp_all add: zkey_rep_def zcountCommand_def count_spec_def\<close>)

end
