(* ===== verification/Zset_List.thy ===== *)
theory Zset_List
  imports Zset_Map
begin

text \<open>
  Commands that list members: by index, by score and by member, in either direction, with an offset and a limit.  The replies are parts of one
  list, the members in increasing order of score and bytes.
\<close>

section \<open>Paths along the nodes\<close>

fun path :: "bool \<Rightarrow> 's zheap \<Rightarrow> addr option \<Rightarrow> 's zel list \<Rightarrow> bool" where
  "path reverse h ln [] \<longleftrightarrow> ln = None"
| "path reverse h ln (p # ps) \<longleftrightarrow> (\<exists>x n ln'. ln = Some x \<and> h x = Some n \<and> zn_score n = fst p \<and> zn_obj n = Some (snd p) \<and>
     next_node reverse n = Some ln' \<and> path reverse h ln' ps)"

definition items :: "bool \<Rightarrow> 's zel list \<Rightarrow> (bytes \<times> 's option) list" where
  "items withscores ps = map (\<lambda>p. (obj_bytes (snd p), if withscores then Some (fst p) else None)) ps"

lemma items_Cons [simp]: "items withscores (p # ps) = (obj_bytes (snd p), if withscores then Some (fst p) else None) # items withscores ps"
  by (simp add: items_def)

lemma items_Nil [simp]: "items withscores [] = []"
  by (simp add: items_def)

lemma reply_item_exact: "zn_score n = fst p \<Longrightarrow> zn_obj n = Some (snd p) \<Longrightarrow> reply_item withscores n = Some (obj_bytes (snd p), if withscores then Some (fst p) else None)"
  by (simp add: reply_item_def getDecodedObject_bytes)

lemma path_forward:
  "zsl_ok zsl (A @ B) \<Longrightarrow> A \<noteq> [] \<Longrightarrow> path False (heap zsl) (case B of [] \<Rightarrow> None | y # _ \<Rightarrow> Some (ea y)) (map content B)"
proof (induction B arbitrary: A)
  case (Cons y B)
  obtain n where n: "heap zsl (ea y) = Some n" "zn_score n = fst (content y)" "zn_obj n = Some (snd (content y))" using node_at [OF Cons.prems] by blast
  have ok: "zsl_ok zsl ((A @ [y]) @ B)" using Cons.prems(1) by simp
  have "level_at (heap zsl) (ea y) 0 = Some \<lparr>forward = (case B of [] \<Rightarrow> None | y # _ \<Rightarrow> Some (ea y)), span = word_of_nat (spn 0 B)\<rparr>" using level0_ok [OF ok] by simp
  then have "next_node False n = Some (case B of [] \<Rightarrow> None | y # _ \<Rightarrow> Some (ea y))" using n(1) by (simp add: next_node_def level_at_def)
  then show ?case using n Cons.IH [OF ok] by auto
qed simp

lemma path_backward:
  "zsl_ok zsl (A @ x # B) \<Longrightarrow> A \<noteq> [] \<Longrightarrow> path True (heap zsl) (Some (ea x)) (map content (x # rev (tl A)))"
proof (induction A arbitrary: x B rule: rev_induct)
  case (snoc w A)
  obtain n where n: "heap zsl (ea x) = Some n" "zn_score n = fst (content x)" "zn_obj n = Some (snd (content x))"
    "backward n = (if length (A @ [w]) \<le> 1 then None else Some (ea w))" using node_at [OF snoc.prems] by auto
  show ?case
  proof (cases "A = []")
    case True
    then show ?thesis using n by (simp add: next_node_def)
  next
    case False
    have "zsl_ok zsl (A @ w # x # B)" using snoc.prems(1) by simp
    from snoc.IH [OF this False] have "path True (heap zsl) (Some (ea w)) (map content (w # rev (tl A)))" .
    moreover have "next_node True n = Some (Some (ea w))" using n(4) False by (simp add: next_node_def)
    moreover have "rev (tl (A @ [w])) = w # rev (tl A)" using False by simp
    ultimately show ?thesis using n by simp
  qed
qed simp

lemma range_loop_exact: "path reverse h ln ps \<Longrightarrow> k \<le> length ps \<Longrightarrow> range_loop reverse withscores h k ln = Some (items withscores (take k ps))"
proof (induction ps arbitrary: ln k)
  case (Cons p ps)
  then obtain x n ln' where n: "ln = Some x" "h x = Some n" "zn_score n = fst p" "zn_obj n = Some (snd p)" "next_node reverse n = Some ln'" "path reverse h ln' ps" by auto
  show ?case
  proof (cases k)
    case (Suc j)
    then show ?thesis using Cons.IH [OF n(6), of j] Cons.prems(2) n(1,2,5) reply_item_exact [OF n(3,4)] by simp
  qed simp
qed simp

lemma offset_loop_exact: "path reverse h ln ps \<Longrightarrow> \<exists>ln'. offset_loop reverse h ln off = Some ln' \<and> path reverse h ln' (if off < 0 then [] else drop (nat off) ps)"
proof (induction ps arbitrary: ln off)
  case Nil
  then show ?case by (simp add: offset_loop.simps)
next
  case (Cons p ps)
  then obtain x n ln' where n: "ln = Some x" "h x = Some n" "next_node reverse n = Some ln'" "path reverse h ln' ps" by auto
  show ?case
  proof (cases "off = 0")
    case True
    then have "offset_loop reverse h ln off = Some ln" using n(1) by (subst offset_loop.simps) simp
    moreover have "(if off < 0 then [] else drop (nat off) (p # ps)) = p # ps" using True by simp
    ultimately show ?thesis using Cons.prems by metis
  next
    case False
    have "offset_loop reverse h ln off = offset_loop reverse h ln' (off - 1)" using n(1-3) False by (subst offset_loop.simps) simp
    moreover have "(if off < 0 then [] else drop (nat off) (p # ps)) = (if off - 1 < 0 then [] else drop (nat (off - 1)) ps)"
      using False by (auto simp: drop_Cons' nat_diff_distrib)
    ultimately show ?thesis using Cons.IH [OF n(4), of "off - 1"] by simp
  qed
qed

lemma limit_loop_exact:
  "path reverse h ln ps \<Longrightarrow> (\<And>n p. p \<in> set ps \<Longrightarrow> zn_score n = fst p \<Longrightarrow> zn_obj n = Some (snd p) \<Longrightarrow> inrange n = Some (Q p)) \<Longrightarrow>
   limit_loop inrange reverse withscores h ln lim = Some (items withscores (takeWhile Q (if lim < 0 then ps else take (nat lim) ps)))"
proof (induction ps arbitrary: ln lim)
  case Nil
  then show ?case by (simp add: limit_loop.simps)
next
  case (Cons p ps)
  obtain x n ln' where n: "ln = Some x" "h x = Some n" "zn_score n = fst p" "zn_obj n = Some (snd p)" "next_node reverse n = Some ln'" "path reverse h ln' ps"
    using Cons.prems(1) by auto
  have q: "inrange n = Some (Q p)" using Cons.prems(2) [of p n] n(3,4) by simp
  have IH: "limit_loop inrange reverse withscores h ln' (lim - 1) = Some (items withscores (takeWhile Q (if lim - 1 < 0 then ps else take (nat (lim - 1)) ps)))"
    by (rule Cons.IH [OF n(6)]) (use Cons.prems(2) in auto)
  show ?case
  proof (cases "lim = 0")
    case True
    then have "limit_loop inrange reverse withscores h ln lim = Some []" using n(1) by (subst limit_loop.simps) simp
    then show ?thesis using True by simp
  next
    case False
    have t: "(if lim < 0 then p # ps else take (nat lim) (p # ps)) = p # (if lim - 1 < 0 \<and> lim < 0 then ps else take (nat (lim - 1)) ps)"
      using False by (auto simp: take_Cons' nat_diff_distrib)
    have e: "(if lim - 1 < 0 \<and> lim < 0 then ps else take (nat (lim - 1)) ps) = (if lim - 1 < 0 then ps else take (nat (lim - 1)) ps)" using False by auto
    have "limit_loop inrange reverse withscores h ln lim = (if Q p then Some (items withscores (p # takeWhile Q (if lim - 1 < 0 then ps else take (nat (lim - 1)) ps))) else Some [])"
      using n(1,2,5) q False reply_item_exact [OF n(3,4), of withscores] IH by (subst limit_loop.simps) simp
    then show ?thesis unfolding t e by simp
  qed
qed

text \<open>The part of a list an offset and a limit select; a negative offset selects nothing, a negative limit does not limit.\<close>

definition slice :: "int \<Rightarrow> int \<Rightarrow> 'a list \<Rightarrow> 'a list" where
  "slice off lim xs = (if off < 0 then [] else if lim < 0 then drop (nat off) xs else take (nat lim) (drop (nat off) xs))"

lemma takeWhile_slice:
  assumes "\<forall>p \<in> set cs. Q p" "\<forall>p \<in> set bs. \<not> Q p"
  shows "takeWhile Q (if lim < 0 then (if off < 0 then [] else drop (nat off) (cs @ bs)) else take (nat lim) (if off < 0 then [] else drop (nat off) (cs @ bs))) = slice off lim cs"
proof -
  have tb: "takeWhile Q (us @ vs) = us" if "set us \<subseteq> set cs" "set vs \<subseteq> set bs" for us vs
  proof -
    have "takeWhile Q vs = []" using assms(2) that(2) by (cases vs) auto
    then show ?thesis using assms(1) that(1) by (subst takeWhile_append2) auto
  qed
  show ?thesis unfolding slice_def using tb [of "drop (nat off) cs" "drop (nat off - length cs) bs"]
      tb [of "take (nat lim) (drop (nat off) cs)" "take (nat lim - length (drop (nat off) cs)) (drop (nat off - length cs) bs)"]
    by (auto simp: dest: in_set_takeD in_set_dropD)
qed

section \<open>Listing by index\<close>

lemma entry_path:
  assumes "zsl_rep zsl ns xs" "1 \<le> i" "i \<le> length xs"
  shows "path False (heap zsl) (Some (ea (ns ! i))) (drop (i - 1) xs)" "path True (heap zsl) (Some (ea (ns ! i))) (rev (take i xs))"
proof -
  obtain e0 ms where ms: "ns = e0 # ms" "zsl_ok zsl (e0 # ms)" "map content ms = xs" "length ms = length xs" using assms(1) by (rule zsl_repE)
  have i: "i - 1 < length ms" "ns ! i = ms ! (i - 1)" "i = Suc (i - 1)" using assms(2,3) ms(1,4) by (auto simp: nth_Cons')
  let ?x = "ms ! (i - 1)" and ?A = "e0 # take (i - 1) ms" and ?B = "drop i ms"
  have d: "drop (i - 1) ms = ?x # ?B" using Cons_nth_drop_Suc [OF i(1)] i(3) by simp
  then have "ms = take (i - 1) ms @ ?x # ?B" by (metis append_take_drop_id)
  then have ok: "zsl_ok zsl (?A @ ?x # ?B)" using ms(2) by simp
  have "path False (heap zsl) (Some (ea ?x)) (map content (?x # ?B))" using path_forward [OF ok] by simp
  then show "path False (heap zsl) (Some (ea (ns ! i))) (drop (i - 1) xs)" unfolding i(2) ms(3) [symmetric] drop_map d .
  have "path True (heap zsl) (Some (ea ?x)) (map content (?x # rev (take (i - 1) ms)))" using path_backward [OF ok] by simp
  moreover have "take i ms = take (i - 1) ms @ [?x]" using take_Suc_conv_app_nth [OF i(1)] i(3) by simp
  then have "map content (?x # rev (take (i - 1) ms)) = rev (take i xs)" unfolding ms(3) [symmetric] take_map by (simp add: rev_map)
  ultimately show "path True (heap zsl) (Some (ea (ns ! i))) (rev (take i xs))" unfolding i(2) by (simp only:)
qed

lemma end_paths:
  assumes "zsl_rep zsl ns xs" "xs \<noteq> []"
  shows "\<exists>l. level_at (heap zsl) (header zsl) 0 = Some l \<and> path False (heap zsl) (forward l) xs" "path True (heap zsl) (tail zsl) (rev xs)"
proof -
  obtain e0 ms where ms: "ns = e0 # ms" "zsl_ok zsl (e0 # ms)" "map content ms = xs" "length ms = length xs" using assms(1) by (rule zsl_repE)
  have ok: "zsl_ok zsl ([e0] @ ms)" using ms(2) by simp
  have "header zsl = ea e0" using ms(2) by (simp add: zsl_ok_def)
  then show "\<exists>l. level_at (heap zsl) (header zsl) 0 = Some l \<and> path False (heap zsl) (forward l) xs"
    using level0_ok [OF ok] path_forward [OF ok] ms(3) by simp
  have ne: "ms \<noteq> []" using ms(4) assms(2) by auto
  have t: "tail zsl = Some (ea (last ms))" using ms(2) ne by (auto simp: zsl_ok_def)
  have "ns ! length xs = last ms" using ne ms(1,4) assms(2) by (simp add: last_conv_nth nth_Cons')
  then show "path True (heap zsl) (tail zsl) (rev xs)" using entry_path(2) [OF assms(1), of "length xs"] t assms(2) by (cases xs) simp_all
qed

lemma zrange_exact:
  assumes "zset_rep env zs ns xs" "xs \<noteq> []" "length xs < 2 ^ 32"
  shows "zrangeGenericCommand reverse (ZKey zs) start end' withscores = Some (RpList (case sanitize start end' (length xs) of
      None \<Rightarrow> [] | Some (lo, hi) \<Rightarrow> items withscores (take (hi - lo + 1) (drop lo (if reverse then rev xs else xs)))))"
proof (cases "sanitize start end' (length xs)")
  case None
  then show ?thesis using zset_length [OF assms(1)] by (simp add: zrangeGenericCommand_def)
next
  case (Some b)
  obtain lo hi where b: "b = (lo, hi)" by (rule prod.exhaust)
  then have h: "lo \<le> hi" "hi < length xs" using sanitize_bounds [of start end' "length xs" lo hi] Some by auto
  let ?zsl = "zs_zsl zs" and ?ys = "if reverse then rev xs else xs"
  note zr = zset_repD(1) [OF assms(1)]
  let ?ln = "if reverse then if lo > 0 then zslGetElementByRank ?zsl (length xs - lo) else Some (tail ?zsl)
     else if lo > 0 then zslGetElementByRank ?zsl (lo + 1) else do { l \<leftarrow> level_at (heap ?zsl) (header ?zsl) 0; Some (forward l) }"
  have "\<exists>ln. ?ln = Some ln \<and> path reverse (heap ?zsl) ln (drop lo ?ys)"
  proof (cases "lo = 0")
    case True
    then show ?thesis using end_paths [OF zr assms(2)] by (cases reverse) auto
  next
    case False
    then show ?thesis using h zslGetElementByRank_content [OF zr assms(3)] entry_path(1) [OF zr, of "lo + 1"] entry_path(2) [OF zr, of "length xs - lo"]
      by (cases reverse) (simp_all add: drop_rev)
  qed
  then obtain ln where ln: "?ln = Some ln" "path reverse (heap ?zsl) ln (drop lo ?ys)" by blast
  have "hi - lo + 1 \<le> length (drop lo ?ys)" using h by simp
  from range_loop_exact [OF ln(2) this, of withscores] show ?thesis
    unfolding zrangeGenericCommand_def zkey.case Let_def zset_length [OF assms(1)] Some b option.case prod.case ln(1) Option.bind.bind_lunit by simp
qed

section \<open>Listing by score and by member\<close>

lemma points_entry:
  assumes "zsl_rep zsl ns xs" "points zsl a p"
  shows "\<exists>i. 1 \<le> i \<and> i \<le> length xs \<and> a = ea (ns ! i) \<and> xs ! (i - 1) = p"
proof -
  obtain e0 ms where ms: "ns = e0 # ms" "zsl_ok zsl (e0 # ms)" "map content ms = xs" "length ms = length xs" using assms(1) by (rule zsl_repE)
  obtain n where n: "heap zsl a = Some n" "zn_score n = fst p" "zn_obj n = Some (snd p)" using assms(2) by (auto simp: points_def)
  have "a \<in> ea ` set (e0 # ms)" using n(1) ms(2) unfolding zsl_ok_def by blast
  moreover have "a \<noteq> ea e0"
  proof
    assume "a = ea e0"
    have "node_ok (zlevel zsl) (heap zsl) [] e0 ms" using ms(2) list_okD [of _ _ "[]"] by (auto simp: zsl_ok_def)
    then show False using n(1,3) \<open>a = ea e0\<close> by (auto simp: node_ok_def)
  qed
  ultimately obtain A x B where x: "ms = A @ x # B" "a = ea x" by (auto simp: in_set_conv_decomp)
  then have "zsl_ok zsl ((e0 # A) @ x # B)" using ms(2) by simp
  from node_at [OF this] have "content x = p" using n x(2) by (auto simp: prod_eq_iff)
  moreover have "xs ! length A = content x" using ms(3) x(1) by (auto simp: nth_append)
  moreover have "length A < length xs" using ms(4) x(1) by simp
  ultimately show ?thesis using x ms(1) by (intro exI [of _ "Suc (length A)"]) simp
qed

lemma index_unique: "distinct xs \<Longrightarrow> xs = us @ p # vs \<Longrightarrow> j < length xs \<Longrightarrow> xs ! j = p \<Longrightarrow> j = length us"
  using nth_eq_iff_index_eq [of xs j "length us"] by simp

lemma list_range_exact:
  assumes "zsl_rep zsl ns xs" "distinct xs" "(if reverse then rev xs else xs) = as @ cs @ bs"
    "case cs of [] \<Rightarrow> r = None | p # _ \<Rightarrow> \<exists>a. r = Some a \<and> points zsl a p"
    "\<forall>p \<in> set cs. Q p" "\<forall>p \<in> set bs. \<not> Q p"
    "\<And>n p. p \<in> set xs \<Longrightarrow> zn_score n = fst p \<Longrightarrow> zn_obj n = Some (snd p) \<Longrightarrow> inrange n = Some (Q p)"
  shows "list_range inrange reverse withscores zsl (Some r) off lim = Some (RpList (items withscores (slice off lim cs)))"
proof (cases cs)
  case Nil
  then show ?thesis using assms(4) by (simp add: list_range_def slice_def)
next
  case (Cons p cs')
  then obtain a where a: "r = Some a" "points zsl a p" using assms(4) by auto
  obtain i where i: "1 \<le> i" "i \<le> length xs" "a = ea (ns ! i)" "xs ! (i - 1) = p" using points_entry [OF assms(1) a(2)] by blast
  have path: "path reverse (heap zsl) r (cs @ bs)"
  proof (cases reverse)
    case False
    then have xs: "xs = as @ p # (cs' @ bs)" using assms(3) Cons by simp
    then have "i - 1 = length as" using i(1,2,4) by (intro index_unique [OF assms(2)]) simp_all
    then show ?thesis using entry_path(1) [OF assms(1) i(1,2)] a(1) i(3) xs Cons False by simp
  next
    case True
    then have "rev xs = as @ cs @ bs" using assms(3) by simp
    then have xs: "xs = rev (cs' @ bs) @ p # rev as" using Cons by (simp add: rev_swap)
    then have "i - 1 = length (rev (cs' @ bs))" using i(1,2,4) by (intro index_unique [OF assms(2)]) simp_all
    then have "i = Suc (length (rev (cs' @ bs)))" using i(1) by simp
    then have "rev (take i xs) = p # cs' @ bs" using xs by simp
    then show ?thesis using entry_path(2) [OF assms(1) i(1,2)] a(1) i(3) Cons True by simp
  qed
  obtain ln where ln: "offset_loop reverse (heap zsl) r off = Some ln" "path reverse (heap zsl) ln (if off < 0 then [] else drop (nat off) (cs @ bs))"
    using offset_loop_exact [OF path] by blast
  have sub: "set (if off < 0 then [] else drop (nat off) (cs @ bs)) \<subseteq> set xs"
  proof -
    have "set (cs @ bs) \<subseteq> set (as @ cs @ bs)" by auto
    then have "set (cs @ bs) \<subseteq> set xs" unfolding assms(3) [symmetric] by (auto split: if_splits)
    then show ?thesis using set_drop_subset [of "nat off" "cs @ bs"] by auto
  qed
  have "limit_loop inrange reverse withscores (heap zsl) ln lim = Some (items withscores (slice off lim cs))"
    unfolding takeWhile_slice [OF assms(5,6), of lim off, symmetric] by (rule limit_loop_exact [OF ln(2)]) (use sub assms(7) in blast)
  then show ?thesis using a(1) ln(1) by (simp add: list_range_def)
qed

lemma sorted_distinct: "zset_sorted xs \<Longrightarrow> distinct xs"
  unfolding zset_sorted_def by (induction xs) (auto dest: key_less_irrefl [THEN notE, rotated])

lemma zrangebyscore_exact:
  assumes "zset_rep env zs ns xs" "length xs < 2 ^ 32"
  shows "genericZrangebyscoreCommand reverse (ZKey zs) rg withscores off lim =
    Some (RpList (items withscores (slice off lim (filter (in_range rg) (if reverse then rev xs else xs)))))"
proof -
  let ?zsl = "zs_zsl zs" and ?G = "\<lambda>p :: 'a zel. zslValueGteMin (fst p) rg" and ?L = "\<lambda>p :: 'a zel. zslValueLteMax (fst p) rg"
  note zr = zset_repD(1) [OF assms(1)]
  have srt: "zset_sorted xs" using zr by (simp add: zsl_rep_def)
  have eq: "(\<lambda>p. ?G p \<and> ?L p) = in_range rg" by (simp add: in_range_def [abs_def])
  obtain as bs where ab: "xs = as @ filter (\<lambda>p. ?G p \<and> ?L p) xs @ bs" "\<forall>p \<in> set as. \<not> ?G p" "\<forall>p \<in> set bs. ?G p \<and> \<not> ?L p"
    by (rule range_run [where G = ?G and L = ?L, OF srt]) (blast dest: score_bounds)+
  let ?cs = "filter (in_range rg) xs" and ?inr = "\<lambda>n :: 'a zskiplistNode. Some (if reverse then zslValueGteMin (zn_score n) rg else zslValueLteMax (zn_score n) rg)"
  have cs: "\<forall>p \<in> set ?cs. ?G p \<and> ?L p" by (simp add: in_range_def)
  show ?thesis
  proof (cases reverse)
    case False
    obtain r where r: "zslFirstInRange ?zsl rg = Some r" "case find (in_range rg) xs of None \<Rightarrow> r = None | Some p \<Rightarrow> \<exists>a. r = Some a \<and> points ?zsl a p"
      using zslFirstInRange_content [OF zr assms(2)] by blast
    have "list_range ?inr reverse withscores ?zsl (Some r) off lim = Some (RpList (items withscores (slice off lim ?cs)))"
    proof (rule list_range_exact [OF zr sorted_distinct [OF srt], where Q = ?L])
      show "(if reverse then rev xs else xs) = as @ ?cs @ bs" using ab(1) False unfolding eq by simp
      show "case ?cs of [] \<Rightarrow> r = None | p # _ \<Rightarrow> \<exists>a. r = Some a \<and> points ?zsl a p" using r(2) unfolding find_filter by (auto split: list.splits)
    qed (use cs ab(3) False in auto)
    then show ?thesis using r(1) False by (simp add: genericZrangebyscoreCommand_def)
  next
    case True
    obtain r where r: "zslLastInRange ?zsl rg = Some r" "case find (in_range rg) (rev xs) of None \<Rightarrow> r = None | Some p \<Rightarrow> \<exists>a. r = Some a \<and> points ?zsl a p"
      using zslLastInRange_content [OF zr assms(2)] by blast
    have "list_range ?inr reverse withscores ?zsl (Some r) off lim = Some (RpList (items withscores (slice off lim (rev ?cs))))"
    proof (rule list_range_exact [OF zr sorted_distinct [OF srt], where Q = ?G])
      show "(if reverse then rev xs else xs) = rev bs @ rev ?cs @ rev as" using arg_cong [OF ab(1), of rev] True unfolding eq by simp
      show "case rev ?cs of [] \<Rightarrow> r = None | p # _ \<Rightarrow> \<exists>a. r = Some a \<and> points ?zsl a p" using r(2) unfolding find_filter rev_filter by (auto split: list.splits)
    qed (use cs ab(2) True in auto)
    then show ?thesis using r(1) True by (simp add: genericZrangebyscoreCommand_def rev_filter)
  qed
qed

lemma zrangebylex_exact:
  assumes "zset_rep env zs ns xs" "length xs < 2 ^ 32" "\<forall>p \<in> set xs. fst p = s" "lex_ok rg" "\<not> lex_clash rg"
  shows "genericZrangebylexCommand reverse (ZKey zs) rg off lim = Some (RpList (items False (slice off lim (filter (in_lex rg) (if reverse then rev xs else xs)))))"
proof -
  let ?zsl = "zs_zsl zs" and ?G = "\<lambda>p :: 'a zel. lex_gte rg (obj_bytes (snd p))" and ?L = "\<lambda>p :: 'a zel. lex_lte rg (obj_bytes (snd p))"
  note zr = zset_repD(1) [OF assms(1)]
  have srt: "zset_sorted xs" using zr by (simp add: zsl_rep_def)
  have eq: "(\<lambda>p. ?G p \<and> ?L p) = in_lex rg" by (simp add: in_lex_def [abs_def])
  obtain as bs where ab: "xs = as @ filter (\<lambda>p. ?G p \<and> ?L p) xs @ bs" "\<forall>p \<in> set as. \<not> ?G p" "\<forall>p \<in> set bs. ?G p \<and> \<not> ?L p"
    by (rule range_run [where G = ?G and L = ?L, OF srt]) (blast dest: lex_bounds [OF assms(3)])+
  let ?cs = "filter (in_lex rg) xs" and ?inr = "\<lambda>n :: 'a zskiplistNode. do { ob \<leftarrow> zn_obj n; if reverse then zslLexValueGteMin ob rg else zslLexValueLteMax ob rg }"
  have cs: "\<forall>p \<in> set ?cs. ?G p \<and> ?L p" by (simp add: in_lex_def)
  note conds = lex_conds(2,3) [OF assms(4) srt]
  show ?thesis
  proof (cases reverse)
    case False
    obtain r where r: "zslFirstInLexRange ?zsl rg = Some r" "case find (in_lex rg) xs of None \<Rightarrow> r = None | Some p \<Rightarrow> \<exists>a. r = Some a \<and> points ?zsl a p"
      using zslFirstInLexRange_content [OF zr assms(2-5)] by blast
    have "list_range ?inr reverse False ?zsl (Some r) off lim = Some (RpList (items False (slice off lim ?cs)))"
    proof (rule list_range_exact [OF zr sorted_distinct [OF srt], where Q = ?L])
      show "(if reverse then rev xs else xs) = as @ ?cs @ bs" using ab(1) False unfolding eq by simp
      show "case ?cs of [] \<Rightarrow> r = None | p # _ \<Rightarrow> \<exists>a. r = Some a \<and> points ?zsl a p" using r(2) unfolding find_filter by (auto split: list.splits)
      show "?inr n = Some (?L p)" if "p \<in> set xs" "zn_obj n = Some (snd p)" for n p using conds(1) [OF that] by (simp only: False if_False)
    qed (use cs ab(3) in auto)
    then show ?thesis using r(1) False by (simp add: genericZrangebylexCommand_def)
  next
    case True
    obtain r where r: "zslLastInLexRange ?zsl rg = Some r" "case find (in_lex rg) (rev xs) of None \<Rightarrow> r = None | Some p \<Rightarrow> \<exists>a. r = Some a \<and> points ?zsl a p"
      using zslLastInLexRange_content [OF zr assms(2-5)] by blast
    have "list_range ?inr reverse False ?zsl (Some r) off lim = Some (RpList (items False (slice off lim (rev ?cs))))"
    proof (rule list_range_exact [OF zr sorted_distinct [OF srt], where Q = ?G])
      show "(if reverse then rev xs else xs) = rev bs @ rev ?cs @ rev as" using arg_cong [OF ab(1), of rev] True unfolding eq by simp
      show "case rev ?cs of [] \<Rightarrow> r = None | p # _ \<Rightarrow> \<exists>a. r = Some a \<and> points ?zsl a p" using r(2) unfolding find_filter rev_filter by (auto split: list.splits)
      show "?inr n = Some (?G p)" if "p \<in> set xs" "zn_obj n = Some (snd p)" for n p using conds(2) [OF that] by (simp only: True if_True)
    qed (use cs ab(2) in auto)
    then show ?thesis using r(1) True by (simp add: genericZrangebylexCommand_def rev_filter)
  qed
qed

section \<open>The order of the members\<close>

text \<open>The members of a map with their scores, in increasing order of score and bytes.\<close>

definition zlisting :: "(bytes \<Rightarrow> ('s :: linorder) option) \<Rightarrow> (bytes \<times> 's) list \<Rightarrow> bool" where
  "zlisting m ys \<longleftrightarrow> sorted_wrt (\<lambda>x y. snd x < snd y \<or> snd x = snd y \<and> byte_less (fst x) (fst y)) ys \<and> distinct (map fst ys) \<and> map_of ys = m"

definition with_scores :: "bool \<Rightarrow> (bytes \<times> 's) list \<Rightarrow> (bytes \<times> 's option) list" where
  "with_scores withscores ys = map (\<lambda>y. (fst y, if withscores then Some (snd y) else None)) ys"

definition view :: "'s zel list \<Rightarrow> (bytes \<times> 's) list" where
  "view xs = map (\<lambda>p. (obj_bytes (snd p), fst p)) xs"

lemma zlisting_view:
  assumes "zset_sorted xs" "distinct (member_bytes xs)"
  shows "zlisting (zmap xs) (view xs)"
proof -
  have "sorted_wrt (\<lambda>x y. snd x < snd y \<or> snd x = snd y \<and> byte_less (fst x) (fst y)) (view xs)"
    using assms(1) by (simp add: zset_sorted_def view_def sorted_wrt_map key_less_def [abs_def])
  moreover have "distinct (map fst (view xs))" using assms(2) by (simp add: view_def member_bytes_def comp_def)
  ultimately show ?thesis by (simp add: zlisting_def zmap_def view_def)
qed

lemma items_view: "items withscores xs = with_scores withscores (view xs)"
  by (simp add: items_def with_scores_def view_def)

lemma view_parts: "view (take k xs) = take k (view xs)" "view (drop k xs) = drop k (view xs)" "view (rev xs) = rev (view xs)" "view (slice off lim xs) = slice off lim (view xs)"
  by (simp_all add: view_def take_map drop_map rev_map slice_def)

lemma view_filter: "view (filter (\<lambda>p. P (fst p) (obj_bytes (snd p))) xs) = filter (\<lambda>y. P (snd y) (fst y)) (view xs)"
  by (simp add: view_def filter_map comp_def)

definition zrange_spec :: "bool \<Rightarrow> int \<Rightarrow> int \<Rightarrow> (bytes \<times> 's) list \<Rightarrow> (bytes \<times> 's) list" where
  "zrange_spec reverse start end' ys = map ((!) (if reverse then rev ys else ys)) (filter (in_index start end' (length ys)) [0..<length ys])"

lemma zrange_spec_slice:
  "zrange_spec reverse start end' ys = (case sanitize start end' (length ys) of
     None \<Rightarrow> [] | Some (lo, hi) \<Rightarrow> take (hi - lo + 1) (drop lo (if reverse then rev ys else ys)))"
proof (cases "sanitize start end' (length ys)")
  case None
  then show ?thesis by (simp add: zrange_spec_def sanitize_exact)
next
  case (Some b)
  obtain lo hi where b: "b = (lo, hi)" by (rule prod.exhaust)
  have h: "lo \<le> hi" using sanitize_bounds [of start end' "length ys" lo hi] Some b by auto
  let ?zs = "if reverse then rev ys else ys"
  have "filter (in_index start end' (length ys)) [0..<length ys] = filter (\<lambda>i. lo \<le> i \<and> i \<le> hi) [0..<length ys]"
    by (rule filter_cong) (simp_all add: sanitize_exact Some b)
  also have "\<dots> = take (hi + 1 - lo) (drop lo [0..<length ys])" by (rule filter_index(1)) simp
  finally have "zrange_spec reverse start end' ys = take (hi + 1 - lo) (drop lo (map ((!) ?zs) [0..<length ?zs]))"
    unfolding zrange_spec_def by (simp add: take_map drop_map)
  then show ?thesis using h by (simp only: map_nth Some b option.case prod.case Suc_eq_plus1 [symmetric] Suc_diff_le)
qed

lemma zkey_listing:
  assumes "zkey_rep env key m" "card (dom m) < 2 ^ 31"
  shows "\<exists>ys. zlisting m ys \<and>
    (\<forall>reverse start end' withscores. zrangeGenericCommand reverse key start end' withscores = Some (RpList (with_scores withscores (zrange_spec reverse start end' ys)))) \<and>
    (\<forall>reverse rg withscores off lim. genericZrangebyscoreCommand reverse key rg withscores off lim =
       Some (RpList (with_scores withscores (slice off lim (filter (\<lambda>y. zslValueGteMin (snd y) rg \<and> zslValueLteMax (snd y) rg) (if reverse then rev ys else ys)))))) \<and>
    (\<forall>reverse rg off lim. lex_ok rg \<and> \<not> lex_clash rg \<and> (\<exists>s. ran m \<subseteq> {s}) \<longrightarrow> genericZrangebylexCommand reverse key rg off lim =
       Some (RpList (with_scores False (slice off lim (filter (\<lambda>y. lex_gte rg (fst y) \<and> lex_lte rg (fst y)) (if reverse then rev ys else ys))))))"
proof (cases key)
  case NoKey
  then have "m = Map.empty" using assms(1) by (simp add: zkey_rep_def)
  then show ?thesis using NoKey
    by (intro exI [of _ "[]"]) (simp add: zlisting_def zrangeGenericCommand_def genericZrangebyscoreCommand_def genericZrangebylexCommand_def zrange_spec_def slice_def with_scores_def)
next
  case WrongType
  then show ?thesis using assms(1) by (simp add: zkey_rep_def)
next
  case (ZKey zs)
  obtain ns xs where z: "zset_rep env zs ns xs" "xs \<noteq> []" "zmap xs = m" "card (dom m) = length xs" using assms(1) unfolding ZKey by (rule zkey_ZKey)
  note zr = zset_repD [OF z(1)]
  have l: "length xs < 2 ^ 32" using assms(2) z(4) by simp
  have "zset_sorted xs" using zr(1) by (simp add: zsl_rep_def)
  then have a: "zlisting m (view xs)" using zlisting_view zr(2) z(3) by blast
  have lv: "length (view xs) = length xs" by (simp add: view_def)
  have d: "(if reverse then rev (view xs) else view xs) = view (if reverse then rev xs else xs)" for reverse by (simp add: view_parts)
  have b: "zrangeGenericCommand reverse key start end' withscores = Some (RpList (with_scores withscores (zrange_spec reverse start end' (view xs))))" for reverse start end' withscores
    unfolding ZKey zrange_exact [OF z(1,2) l] zrange_spec_slice lv d items_view by (auto simp: view_parts with_scores_def split: option.splits)
  have c: "genericZrangebyscoreCommand reverse key rg withscores off lim =
      Some (RpList (with_scores withscores (slice off lim (filter (\<lambda>y. zslValueGteMin (snd y) rg \<and> zslValueLteMax (snd y) rg) (if reverse then rev (view xs) else view xs)))))" for reverse rg withscores off lim
    unfolding ZKey zrangebyscore_exact [OF z(1) l] d items_view view_parts(4) in_range_def view_filter [of "\<lambda>s b. zslValueGteMin s rg \<and> zslValueLteMax s rg"] ..
  have e: "genericZrangebylexCommand reverse key rg off lim =
      Some (RpList (with_scores False (slice off lim (filter (\<lambda>y. lex_gte rg (fst y) \<and> lex_lte rg (fst y)) (if reverse then rev (view xs) else view xs)))))"
    if lx: "lex_ok rg \<and> \<not> lex_clash rg \<and> (\<exists>s. ran m \<subseteq> {s})" for reverse rg off lim
  proof -
    obtain s where "\<forall>p \<in> set xs. fst p = s" using lx same_scores [OF zr(2)] z(3) by auto
    from zrangebylex_exact [OF z(1) l this, of rg reverse off lim] lx
    show ?thesis unfolding ZKey d items_view view_parts(4) in_lex_def view_filter [of "\<lambda>s b. lex_gte rg b \<and> lex_lte rg b"] by blast
  qed
  show ?thesis using a b c e by (intro exI [of _ "view xs"]) blast
qed

lemma sorted_wrt_unique:
  assumes "\<And>x y. R x y \<Longrightarrow> \<not> R y x"
  shows "sorted_wrt R xs \<Longrightarrow> sorted_wrt R ys \<Longrightarrow> set xs = set ys \<Longrightarrow> xs = ys"
proof (induction xs arbitrary: ys)
  case (Cons x xs)
  then obtain y zs where ys: "ys = y # zs" by (cases ys) auto
  have "x = y"
  proof (rule ccontr)
    assume "x \<noteq> y"
    then have "y \<in> set xs" "x \<in> set zs" using Cons.prems(3) ys by auto
    then show False using Cons.prems(1,2) ys assms by auto
  qed
  moreover have "x \<notin> set xs" "y \<notin> set zs" using Cons.prems(1,2) ys assms by auto
  ultimately have "set xs = set zs" using Cons.prems(3) ys by auto
  then show ?case using Cons.IH [of zs] Cons.prems(1,2) ys \<open>x = y\<close> by simp
qed simp

text \<open>There is exactly one list of the members of a map in this order.\<close>

lemma zlisting_unique:
  assumes "zlisting m xs" "zlisting m ys"
  shows "xs = ys"
proof (rule sorted_wrt_unique [where R = "\<lambda>x y. snd x < snd y \<or> snd x = snd y \<and> byte_less (fst x) (fst y)"])
  have "set xs = {(b, s). m b = Some s}" "set ys = {(b, s). m b = Some s}"
    using assms map_of_eq_Some_iff [of xs] map_of_eq_Some_iff [of ys] by (auto simp: zlisting_def)
  then show "set xs = set ys" by simp
qed (use assms in \<open>auto simp: zlisting_def dest: byte_less_asym\<close>)

end
