(* ===== verification/Zset_Trace.thy ===== *)
theory Zset_Trace
  imports Zset_List
begin

text \<open>
  Histories of commands on a key that holds a sorted set, and what they promise.
\<close>

section \<open>Commands\<close>

datatype 's zop =
    OpAdd zadd_flags "bytes list" "nat list list"
  | OpRem "bytes list"
  | OpRemRange "'s rangetype"
  | OpScore bytes
  | OpCard
  | OpRank bool bytes
  | OpCount "'s zrangespec"

definition run_zop :: "('s :: {linorder, zero}) zenv \<Rightarrow> 's zkey \<Rightarrow> 's zop \<Rightarrow> ('s zkey \<times> 's zreply) option" where
  "run_zop env key x = (case x of
     OpAdd f args rss \<Rightarrow> map_option (\<lambda>(key, r, n). (key, r)) (zaddGenericCommand env f key args rss)
   | OpRem ms \<Rightarrow> map_option (\<lambda>(key, r, n). (key, r)) (zremCommand env key ms)
   | OpRemRange rt \<Rightarrow> map_option (\<lambda>(key, r, n). (key, r)) (zremrangeGenericCommand env key rt)
   | OpScore b \<Rightarrow> zscoreCommand env key b
   | OpCard \<Rightarrow> Some (key, zcardCommand key)
   | OpRank reverse b \<Rightarrow> zrankGenericCommand env reverse key b
   | OpCount rg \<Rightarrow> map_option (Pair key) (zcountCommand key rg))"

definition spec_zop :: "('s :: {linorder, zero}) zenv \<Rightarrow> (bytes \<Rightarrow> 's option) \<Rightarrow> 's zop \<Rightarrow> (bytes \<Rightarrow> 's option) \<times> 's zreply" where
  "spec_zop env m x = (case x of
     OpAdd f args rss \<Rightarrow> (case zadd_spec env f m args of (m, r, n) \<Rightarrow> (m, r))
   | OpRem ms \<Rightarrow> (m |` (- set ms), RpInt (int (card (dom m \<inter> set ms))))
   | OpRemRange rt \<Rightarrow> (remove_spec m (range_pred m rt), RpInt (int (count_spec m (range_pred m rt))))
   | OpScore b \<Rightarrow> (m, case m b of None \<Rightarrow> RpNil | Some s \<Rightarrow> RpScore s)
   | OpCard \<Rightarrow> (m, RpInt (int (card (dom m))))
   | OpRank reverse b \<Rightarrow> (m, rank_reply m reverse b)
   | OpCount rg \<Rightarrow> (m, RpInt (int (count_spec m (\<lambda>s b. zslValueGteMin s rg \<and> zslValueLteMax s rg)))))"

text \<open>Fewer than \<open>2 ^ 30\<close> members, strings shorter than \<open>2 ^ 31\<close>, a level for every new node, and equal scores for ranges of members.\<close>

definition zop_ok :: "(bytes \<Rightarrow> 's option) \<Rightarrow> 's zop \<Rightarrow> bool" where
  "zop_ok m x \<longleftrightarrow> card (dom m) < 2 ^ 30 \<and> (case x of
     OpAdd f args rss \<Rightarrow> zadd_ok m args rss
   | OpRem ms \<Rightarrow> \<forall>b \<in> set ms. length b < 2 ^ 31
   | OpRemRange rt \<Rightarrow> range_ok m rt
   | OpRank reverse b \<Rightarrow> length b < 2 ^ 31
   | _ \<Rightarrow> True)"

lemma run_zop_refines:
  assumes "zkey_rep env key m" "zop_ok m x"
  shows "\<exists>key'. run_zop env key x = Some (key', snd (spec_zop env m x)) \<and> zkey_rep env key' (fst (spec_zop env m x))"
proof (cases x)
  case (OpAdd f args rss)
  then show ?thesis using zaddGenericCommand_refines [OF assms(1), of args rss f] assms(2) by (auto simp: run_zop_def spec_zop_def zop_ok_def split: prod.splits)
next
  case (OpRem ms)
  then show ?thesis using zremCommand_refines [OF assms(1), of ms] assms(2) by (auto simp: run_zop_def spec_zop_def zop_ok_def)
next
  case (OpRemRange rt)
  then show ?thesis using zremrange_refines [OF assms(1), of rt] assms(2) by (auto simp: run_zop_def spec_zop_def zop_ok_def)
next
  case (OpScore b)
  then show ?thesis using zscoreCommand_refines [OF assms(1), of b] by (simp add: run_zop_def spec_zop_def)
next
  case OpCard
  then show ?thesis using zcardCommand_refines [OF assms(1)] assms(1) by (simp add: run_zop_def spec_zop_def)
next
  case (OpRank reverse b)
  then show ?thesis using zrankGenericCommand_refines [OF assms(1), of b reverse] assms(2) by (simp add: run_zop_def spec_zop_def zop_ok_def)
next
  case (OpCount rg)
  then show ?thesis using zcountCommand_refines [OF assms(1), of rg] assms by (simp add: run_zop_def spec_zop_def zop_ok_def)
qed

interpretation zs: refinement "zkey_rep env" "run_zop env" "spec_zop env" zop_ok
  for env :: "('s :: {linorder, zero}) zenv"
  by unfold_locales (rule run_zop_refines)

text \<open>Integer scores, for the examples.\<close>

definition plain_env :: "int zenv" where
  "plain_env = \<lparr>seed = 0, can_resize = True, uninit = 0, args_shared = False, fadd = (\<lambda>a b. Some (a + b)), parse_score = string2ll\<rparr>"

definition no_flags :: zadd_flags where
  "no_flags = \<lparr>f_incr = False, f_nx = False, f_xx = False, f_ch = False\<rparr>"

section \<open>Ranges with the text of a shared object\<close>

text \<open>The range from the smallest string up to \<open>minstring\<close>, exclusive.\<close>

definition below_minstring :: zlexrangespec where
  "below_minstring = \<lparr>lex_min = LexMin, lex_max = LexStr (RStr [109, 105, 110, 115, 116, 114, 105, 110, 103]), lex_minex = False, lex_maxex = True\<rparr>"

lemma below_minstring_clash: "lex_clash below_minstring" "lex_ok below_minstring"
  by (simp_all add: lex_clash_def lex_ok_def below_minstring_def bound_obj_def obj_bytes_def robj_ok_def)

lemma below_minstring_pred: "range_pred m (LexRange below_minstring) s b \<longleftrightarrow> byte_less b [109, 105, 110, 115, 116, 114, 105, 110, 103]"
  by (simp add: range_pred_def lex_gte_def lex_lte_def below_minstring_def obj_bytes_def)

lemma clash_replies:
  assumes "lex_clash rg" "lex_ok rg" "key \<noteq> WrongType"
  shows "genericZrangebylexCommand reverse key rg off lim = Some (RpList [])" "zlexcountCommand key rg = Some (RpInt 0)"
  using assms(3) lex_clash_empty [OF assms(1,2)]
  by (cases key; simp add: genericZrangebylexCommand_def list_range_def)
    (cases key; simp add: zlexcountCommand_def count_range_def lex_clash_empty [OF assms(1,2)] assms(3))+

lemma demo_scores: "string2ll [49] = Some 1" "string2ll [50] = Some 2" "string2ll [53] = Some 5"
  by code_simp+

lemma demo_options:
  "zadd_options f [[49], [97], [50], [98]] = (f, [[49], [97], [50], [98]])" "zadd_options f [[53], [97]] = (f, [[53], [97]])"
  by (simp_all add: dictSdsKeyCaseCompare_def tolower_def)

lemma demo_zadd:
  "zadd_spec plain_env no_flags Map.empty [[49], [97], [50], [98]] = ([[97] \<mapsto> 1, [98] \<mapsto> 2], RpInt 2, 2)"
  "zadd_spec plain_env (no_flags\<lparr>f_incr := True\<rparr>) [[97] \<mapsto> 1, [98] \<mapsto> 2] [[53], [97]] = ([[97] \<mapsto> 1, [98] \<mapsto> 2, [97] \<mapsto> 6], RpScore 6, 1)"
  by (simp_all add: zadd_spec_def demo_options demo_scores plain_env_def no_flags_def zadd_spec_element_def zadd_reply_def del: zadd_options.simps)

definition demo_ops :: "int zop list" where
  "demo_ops = [OpAdd no_flags [[49], [97], [50], [98]] [[16384], [16384], [16384], [16384]], OpAdd (no_flags\<lparr>f_incr := True\<rparr>) [[53], [97]] [[16384], [16384]]]"

lemma demo_level: "zslRandomLevel [16384] = Some 1"
  by (simp add: zslRandomLevel_def ZSKIPLIST_MAXLEVEL_def)

lemma demo_history:
  "spec_ops (spec_zop plain_env) Map.empty demo_ops = ([[97] \<mapsto> 1, [98] \<mapsto> 2, [97] \<mapsto> 6], [RpInt 2, RpScore 6])"
  "ops_ok (spec_zop plain_env) zop_ok Map.empty demo_ops"
  by (simp_all add: demo_ops_def spec_zop_def zop_ok_def zadd_ok_def levels_ok_def demo_zadd demo_level)

definition demo_one :: "int zop list" where
  "demo_one = [OpAdd no_flags [[49], [97]] [[16384], [16384]]]"

lemma demo_one_zadd: "zadd_spec plain_env no_flags Map.empty [[49], [97]] = ([[97] \<mapsto> 1], RpInt 1, 1)"
proof -
  have "zadd_options f [[49], [97]] = (f, [[49], [97]])" for f by (simp add: dictSdsKeyCaseCompare_def tolower_def)
  then show ?thesis by (simp add: zadd_spec_def demo_scores plain_env_def no_flags_def zadd_spec_element_def zadd_reply_def del: zadd_options.simps)
qed

lemma demo_one_history:
  "spec_ops (spec_zop plain_env) Map.empty demo_one = ([[97] \<mapsto> 1], [RpInt 1])" "ops_ok (spec_zop plain_env) zop_ok Map.empty demo_one"
  by (simp_all add: demo_one_def spec_zop_def zop_ok_def zadd_ok_def levels_ok_def demo_one_zadd demo_level)

lemma history_key:
  assumes "ops_ok (spec_zop env) zop_ok Map.empty ops" "run_ops (run_zop env) NoKey ops = Some (key, replies)"
  shows "zkey_rep env key (fst (spec_ops (spec_zop env) Map.empty ops))"
  using zs.history_refines [of env NoKey Map.empty ops] assms by (auto simp: zkey_rep_def)

lemma demo_run: "\<exists>key. run_ops (run_zop plain_env) NoKey demo_ops = Some (key, [RpInt 2, RpScore 6])"
  using zs.history_refines [OF _ demo_history(2), of NoKey] by (auto simp: zkey_rep_def demo_history(1))

lemma demo_one_run: "\<exists>zs. run_ops (run_zop plain_env) NoKey demo_one = Some (ZKey zs, [RpInt 1])"
proof -
  obtain key where key: "run_ops (run_zop plain_env) NoKey demo_one = Some (key, [RpInt 1])" "zkey_rep plain_env key [[97] \<mapsto> 1]"
    using zs.history_refines [OF _ demo_one_history(2), of NoKey] by (auto simp: zkey_rep_def demo_one_history(1))
  then show ?thesis by (cases key) (auto simp: zkey_rep_def)
qed

lemma demo_listing:
  assumes "zlisting [[97] \<mapsto> (1 :: int), [98] \<mapsto> 2, [97] \<mapsto> 6] ys"
  shows "ys = [([98], 2), ([97], 6)]"
  by (rule zlisting_unique [OF assms]) (auto simp: zlisting_def fun_eq_iff)

lemma zkey_memory:
  assumes "zkey_rep env (ZKey zs) m"
  shows "zslFree (zs_zsl zs) = Some Map.empty \<and> (\<forall>b s. m b = Some s \<longrightarrow>
      (\<exists>a n ob. dict_map (zsetDictType (seed env)) (zs_dict zs) (RStr b) = Some a \<and> heap (zs_zsl zs) a = Some n \<and> zn_score n = s \<and> zn_obj n = Some ob \<and> obj_bytes ob = b))"
proof (intro conjI allI impI)
  obtain ns xs where z: "zset_rep env zs ns xs" "zmap xs = m" using assms by (auto simp: zkey_rep_def)
  note zr = zset_repD [OF z(1)]
  show "zslFree (zs_zsl zs) = Some Map.empty" by (rule zslFree_content [OF zr(1)])
  fix b s
  assume "m b = Some s"
  then obtain e where e: "e \<in> set (tl ns)" "es e = s" "obj_bytes (eo e) = b" using zmap_rep [OF z(1)] z(2) by blast
  obtain e0 ms where ms: "ns = e0 # ms" "zsl_ok (zs_zsl zs) (e0 # ms)" using zr(1) by (rule zsl_repE)
  obtain A B where "ms = A @ e # B" using e(1) ms(1) by (auto simp: in_set_conv_decomp)
  then have "zsl_ok (zs_zsl zs) ((e0 # A) @ e # B)" using ms(2) by simp
  from node_at [OF this] obtain n where "heap (zs_zsl zs) (ea e) = Some n" "zn_score n = s" "zn_obj n = Some (eo e)" using e(2) by (auto simp: content_def)
  moreover have "dict_map (zsetDictType (seed env)) (zs_dict zs) (RStr b) = Some (ea e)" using zr(5) e by (auto simp: obj_bytes_def)
  ultimately show "\<exists>a n ob. dict_map (zsetDictType (seed env)) (zs_dict zs) (RStr b) = Some a \<and> heap (zs_zsl zs) a = Some n \<and> zn_score n = s \<and> zn_obj n = Some ob \<and> obj_bytes ob = b"
    using e(3) by blast
qed

section \<open>Properties\<close>

text \<open>
  C2: any history of ZADD (with all its options), ZINCRBY, ZREM, ZREMRANGEBYRANK, ZREMRANGEBYSCORE, ZREMRANGEBYLEX, ZSCORE, ZCARD, ZRANK,
  ZREVRANK and ZCOUNT on a key that holds a skip-list-encoded sorted set runs without a fault, no assertion of the code fails, and it gives the
  replies its specification on a map from members to scores gives; the key exists at the end exactly if the map is not empty, and then its
  dictionary and its skip list hold that map.  Assumed: fewer than \<open>2 ^ 30\<close> members, strings shorter than \<open>2 ^ 31\<close> bytes, and equal scores
  where a range of members is removed.
\<close>

theorem sorted_set_history:
  assumes "ops_ok (spec_zop env) zop_ok Map.empty ops"
  shows "\<exists>key. run_ops (run_zop env) NoKey ops = Some (key, snd (spec_ops (spec_zop env) Map.empty ops)) \<and>
    zkey_rep env key (fst (spec_ops (spec_zop env) Map.empty ops))"
  by (rule zs.history_refines [OF _ assms]) (simp add: zkey_rep_def)

theorem sorted_set_history_witness:
  "\<exists>key. run_ops (run_zop plain_env) NoKey demo_ops = Some (key, [RpInt 2, RpScore 6]) \<and> zkey_rep plain_env key [[97] \<mapsto> 1, [98] \<mapsto> 2, [97] \<mapsto> 6]"
  using sorted_set_history [of plain_env demo_ops] by (simp add: demo_history)

text \<open>
  C3: after any such history, ZRANGE, ZREVRANGE, ZRANGEBYSCORE, ZREVRANGEBYSCORE, ZRANGEBYLEX and ZREVRANGEBYLEX list parts of one list, the members
  with their scores in increasing order of score and bytes: the members at the given indexes, where negative ones count from the end, or those
  in the range, in either direction, after the offset and up to the limit.  A negative offset gives the empty list and a negative limit
  does not limit.  For ranges of members the scores are equal, and the range does not meet the case below.
\<close>

theorem sorted_set_listing:
  assumes "ops_ok (spec_zop env) zop_ok Map.empty ops" "run_ops (run_zop env) NoKey ops = Some (key, replies)"
    "card (dom (fst (spec_ops (spec_zop env) Map.empty ops))) < 2 ^ 31"
  shows "\<exists>ys. zlisting (fst (spec_ops (spec_zop env) Map.empty ops)) ys \<and>
    (\<forall>reverse start end' withscores. zrangeGenericCommand reverse key start end' withscores = Some (RpList (with_scores withscores (zrange_spec reverse start end' ys)))) \<and>
    (\<forall>reverse rg withscores off lim. genericZrangebyscoreCommand reverse key rg withscores off lim =
       Some (RpList (with_scores withscores (slice off lim (filter (\<lambda>y. zslValueGteMin (snd y) rg \<and> zslValueLteMax (snd y) rg) (if reverse then rev ys else ys)))))) \<and>
    (\<forall>reverse rg off lim. lex_ok rg \<and> \<not> lex_clash rg \<and> (\<exists>s. ran (fst (spec_ops (spec_zop env) Map.empty ops)) \<subseteq> {s}) \<longrightarrow> genericZrangebylexCommand reverse key rg off lim =
       Some (RpList (with_scores False (slice off lim (filter (\<lambda>y. lex_gte rg (fst y) \<and> lex_lte rg (fst y)) (if reverse then rev ys else ys))))))"
  by (rule zkey_listing [OF history_key [OF assms(1,2)] assms(3)])

theorem sorted_set_listing_witness:
  "\<exists>key. run_ops (run_zop plain_env) NoKey demo_ops = Some (key, [RpInt 2, RpScore 6]) \<and>
    zrangeGenericCommand False key 0 (-1) True = Some (RpList [([98], Some 2), ([97], Some 6)])"
proof -
  obtain key where key: "run_ops (run_zop plain_env) NoKey demo_ops = Some (key, [RpInt 2, RpScore 6])" using demo_run by blast
  have card: "card (dom (fst (spec_ops (spec_zop plain_env) Map.empty demo_ops))) < 2 ^ 31" by (simp add: demo_history)
  obtain ys where ys: "zlisting [[97] \<mapsto> 1, [98] \<mapsto> 2, [97] \<mapsto> 6] ys"
    "zrangeGenericCommand False key 0 (-1) True = Some (RpList (with_scores True (zrange_spec False 0 (-1) ys)))"
    using sorted_set_listing [OF demo_history(2) key card] unfolding demo_history(1) fst_conv by blast
  have "ys = [([98], 2), ([97], 6)]" using ys(1) by (rule demo_listing)
  then show ?thesis using key ys(2) by (simp add: zrange_spec_def in_index_def with_scores_def upt_rec)
qed

text \<open>
  C15: the range from \<open>-\<close> to \<open>(minstring\<close> is taken for an empty one: ZRANGEBYLEX and ZLEXCOUNT find nothing in it, whatever the set
  holds, since the check for empty ranges compares the bounds' texts, and the shared object that stands for the smallest string holds the
  bytes of \<open>minstring\<close>.  ZREMRANGEBYLEX on the same range does remove the members below \<open>minstring\<close>.
\<close>

theorem lex_range_minstring_lost:
  assumes "ops_ok (spec_zop env) zop_ok Map.empty ops" "run_ops (run_zop env) NoKey ops = Some (key, replies)"
    "card (dom (fst (spec_ops (spec_zop env) Map.empty ops))) < 2 ^ 31" "ran (fst (spec_ops (spec_zop env) Map.empty ops)) \<subseteq> {s}"
  shows "zslParseLexRange (RStr [45]) (RStr [40, 109, 105, 110, 115, 116, 114, 105, 110, 103]) = Some below_minstring \<and>
    genericZrangebylexCommand reverse key below_minstring off lim = Some (RpList []) \<and> zlexcountCommand key below_minstring = Some (RpInt 0) \<and>
    (\<exists>key'. zremrangeGenericCommand env key (LexRange below_minstring) =
       Some (key', RpInt (int (count_spec (fst (spec_ops (spec_zop env) Map.empty ops)) (\<lambda>s b. byte_less b [109, 105, 110, 115, 116, 114, 105, 110, 103]))),
         count_spec (fst (spec_ops (spec_zop env) Map.empty ops)) (\<lambda>s b. byte_less b [109, 105, 110, 115, 116, 114, 105, 110, 103])))"
proof -
  let ?m = "fst (spec_ops (spec_zop env) Map.empty ops)"
  have rep: "zkey_rep env key ?m" by (rule history_key [OF assms(1,2)])
  then have w: "key \<noteq> WrongType" by (auto simp: zkey_rep_def)
  have "range_ok ?m (LexRange below_minstring)" using below_minstring_clash(2) assms(4) by (auto simp: range_ok_def)
  from zremrange_refines [OF rep assms(3) this] have "\<exists>key'. zremrangeGenericCommand env key (LexRange below_minstring) =
       Some (key', RpInt (int (count_spec ?m (\<lambda>s b. byte_less b [109, 105, 110, 115, 116, 114, 105, 110, 103]))),
         count_spec ?m (\<lambda>s b. byte_less b [109, 105, 110, 115, 116, 114, 105, 110, 103]))"
    unfolding below_minstring_pred [abs_def] by blast
  then show ?thesis using clash_replies [OF below_minstring_clash w] by (simp add: zslParseLexRange_def zslParseLexRangeItem_def below_minstring_def)
qed

theorem lex_range_minstring_lost_witness:
  "\<exists>key key'. run_ops (run_zop plain_env) NoKey demo_one = Some (key, [RpInt 1]) \<and> genericZrangebylexCommand False key below_minstring 0 (-1) = Some (RpList []) \<and>
    zremrangeGenericCommand plain_env key (LexRange below_minstring) = Some (key', RpInt 1, 1)"
proof -
  obtain key where key: "run_ops (run_zop plain_env) NoKey demo_one = Some (key, [RpInt 1])" using demo_one_run by blast
  have "card (dom (fst (spec_ops (spec_zop plain_env) Map.empty demo_one))) < 2 ^ 31" "ran (fst (spec_ops (spec_zop plain_env) Map.empty demo_one)) \<subseteq> {1}"
    by (simp_all add: demo_one_history)
  from lex_range_minstring_lost [OF demo_one_history(2) key this, of False 0 "-1"] show ?thesis using key
    by (auto simp: demo_one_history count_spec_def)
qed

text \<open>
  C4: after any such history no score pointer dangles: the dictionary maps every member to a node that is allocated and holds this member and its
  score; and \<open>zslFree\<close> on the skip list reads no released node, releases every node exactly once and leaves none.
\<close>

theorem sorted_set_memory:
  assumes "ops_ok (spec_zop env) zop_ok Map.empty ops" "run_ops (run_zop env) NoKey ops = Some (ZKey zs, replies)"
  shows "zslFree (zs_zsl zs) = Some Map.empty \<and>
    (\<forall>b s. fst (spec_ops (spec_zop env) Map.empty ops) b = Some s \<longrightarrow>
      (\<exists>a n ob. dict_map (zsetDictType (seed env)) (zs_dict zs) (RStr b) = Some a \<and> heap (zs_zsl zs) a = Some n \<and> zn_score n = s \<and> zn_obj n = Some ob \<and> obj_bytes ob = b))"
  by (rule zkey_memory [OF history_key [OF assms]])

theorem sorted_set_memory_witness:
  "\<exists>zs. run_ops (run_zop plain_env) NoKey demo_one = Some (ZKey zs, [RpInt 1]) \<and> zslFree (zs_zsl zs) = Some Map.empty"
proof -
  obtain zs where "run_ops (run_zop plain_env) NoKey demo_one = Some (ZKey zs, [RpInt 1])" using demo_one_run by blast
  then show ?thesis using sorted_set_memory [OF demo_one_history(2)] by blast
qed

end
