(* ===== verification/Spec2Isabelle.thy ===== *)
theory Spec2Isabelle
  imports Prelude Interfaces Intset Util Glob Dict Dict_Map Dict_Scan Dict_Iter Dict_Types Ziplist Ziplist_Rep
    Ziplist_Ops Ziplist_Del Ziplist_Seq Sds Sds_Text Sds_Split Protocol Client_Output Backlog Replication Repl_Inv Repl_Stream
    Skiplist Skiplist_Inv Skiplist_Ops Skiplist_Del Skiplist_Seq Skiplist_Range Zset Zset_Rep Zset_Map Zset_List
    Zset_Trace
begin

text \<open>
  Verification of the data structures of Redis 3.2.8 (\<^verbatim>\<open>src/redis-3.2.8/src\<close>).

  \<^bold>\<open>The program.\<close>  A Redis server keeps its keyspace in hash tables (\<^verbatim>\<open>dict.c\<close>) whose keys are dynamic strings
  (\<^verbatim>\<open>sds.c\<close>) and whose values are built from a few compact containers: integer sets (\<^verbatim>\<open>intset.c\<close>), ziplists
  (\<^verbatim>\<open>ziplist.c\<close>), further hash tables.  A sorted set (\<^verbatim>\<open>t_zset.c\<close>) is a skip list together with a hash table whose values point
  into the skip list's nodes.  \<^verbatim>\<open>util.c\<close> holds the number conversions and the glob matcher the
  commands share.  The ziplist calls the number conversions (a decimal string is stored as an integer when it is the
  canonical form of one), the hash table is parametrised by the callbacks of a \<open>dictType\<close>, which \<^verbatim>\<open>server.c\<close> builds
  from the string functions, and the SCAN command walks a hash table with \<open>dictScan\<close> while other
  commands change it.

  \<^bold>\<open>How the code is modelled.\<close>  Memory blocks are lists of bytes (\<open>8 word\<close>); every access goes through the checked functions of
  \<open>Prelude\<close> (\<open>mem_read\<close>, \<open>mem_write\<close>, \<open>mem_get\<close>, \<open>mem_set\<close>, \<open>mem_move\<close>), so an access outside a block, a failed \<open>assert\<close> and a read
  of a missing argument are the value \<open>None\<close>; a theorem that gives \<open>Some\<close> shows there is none.
  Structs are records, C integers are words or
  \<open>nat\<close>/\<open>int\<close> with the reduction written out where a value can leave its range.  The allocator does not fail:
  \<open>zmalloc\<close> aborts the process instead of returning.  The nodes of a skip list live in a heap, a map from addresses, and reading a released
  node is a fault.  Nodes of a hash chain are list elements, as the chains are only reached through
  their bucket.

  \<^bold>\<open>Theories.\<close>
  \<^item> \<open>Prelude\<close>: memory functions, little-endian integers, shared list lemmas; the collections \<open>mem_simps\<close> and \<open>le_simps\<close>.
  \<^item> \<open>Interfaces\<close>: the contracts, as locales.  \<open>bounded_set\<close> (a set with add, remove, member), \<open>prefix_codec\<close> (an encoding
    that can be decoded from a prefix), \<open>map_store\<close> (a finite map with maintenance operations), \<open>seq_store\<close> (a sequence with positional
    operations), \<open>byte_builder\<close> (a buffer that grows at its end), \<open>refinement\<close> (a state machine and the specification of its steps), each with the abstract operations and the theorem that traces of operations refine them.
  \<^item> \<open>Intset\<close>: \<^verbatim>\<open>intset.c\<close>, the sorted array in one of three widths; interpreted as a \<open>bounded_set\<close>.
  \<^item> \<open>Util\<close>, \<open>Glob\<close>: \<open>ll2string\<close>, \<open>string2ll\<close>, \<open>string2l\<close>, \<open>digits10\<close>; \<open>stringmatchlen\<close>.
  \<^item> \<open>Dict\<close>, \<open>Dict_Map\<close>, \<open>Dict_Iter\<close>, \<open>Dict_Scan\<close>: \<^verbatim>\<open>dict.c\<close> with incremental rehashing; the invariant and the map it stands
    for, the interpretation as \<open>map_store\<close>, safe and unsafe iterators, sampling, and the reverse-binary cursor.
  \<^item> \<open>Dict_Types\<close>: the hash functions and the \<open>dictType\<close> tables of \<^verbatim>\<open>server.c\<close>.
  \<^item> \<open>Ziplist\<close>, \<open>Ziplist_Rep\<close>, \<open>Ziplist_Ops\<close>, \<open>Ziplist_Del\<close>, \<open>Ziplist_Seq\<close>: \<^verbatim>\<open>ziplist.c\<close>.  The code; the layout of a list of
    entries and the entry codecs; insertion and the cascading update of the \<open>prevlen\<close> fields; deletion and
    merging; walking, search and the interpretation as \<open>seq_store\<close>.
  \<^item> \<open>Sds\<close>, \<open>Sds_Text\<close>, \<open>Sds_Split\<close>: \<^verbatim>\<open>sds.c\<close> and \<^verbatim>\<open>sds.h\<close>.  Headers, growth and in-place changes with the invariant \<open>sds_ok\<close>; integers
    to text and formatting; quoting, splitting and joining, and the arguments a monitor is sent; interpreted as a \<open>byte_builder\<close>.
  \<^item> \<open>Protocol\<close>: the request parser of \<^verbatim>\<open>networking.c\<close> on the query buffer, and the command encoder of \<^verbatim>\<open>aof.c\<close>; the parser executes
    encoded commands exactly, however the connection cuts them into pieces.
  \<^item> \<open>Client_Output\<close>: the output buffers of a client of \<^verbatim>\<open>networking.c\<close>: when a reply may be appended and a write is scheduled, writes before the event
    loop sleeps and when the socket is writable, and the copy of one client's buffers to another.
  \<^item> \<open>Backlog\<close>, \<open>Replication\<close>, \<open>Repl_Inv\<close>, \<open>Repl_Stream\<close>: the master's side of \<^verbatim>\<open>replication.c\<close>.  The circular backlog and the propagation of commands;
    SYNC, PSYNC, background saves (\<^verbatim>\<open>rdb.c\<close>, the parent's side) and the periodic work, with the operating system's answers as arguments;
    all of them as a transition system with a history of the stream, the announced and the requested offsets, and its invariant; in the reachable states
    the backlog is the end of the stream and every slave has been given exactly the stream from its own offset on.  The transition
    system leaves out a PSYNC with the right run id and an offset that is no number and clients that switched their replies off; what the former leads
    to is a theorem of its own.
  \<^item> \<open>Skiplist\<close>, \<open>Skiplist_Inv\<close>, \<open>Skiplist_Ops\<close>, \<open>Skiplist_Del\<close>, \<open>Skiplist_Seq\<close>, \<open>Skiplist_Range\<close>: the skip list of \<^verbatim>\<open>t_zset.c\<close>.  The code;
    pointers and spans of every level as functions of one list of nodes, and the search loops; insertion; deletion; all operations on the sorted list
    of scores and members, creation and release; ranks, ranges of scores and of members, deletion of ranges.
  \<^item> \<open>Zset\<close>, \<open>Zset_Rep\<close>, \<open>Zset_Map\<close>, \<open>Zset_List\<close>, \<open>Zset_Trace\<close>: the sorted set commands on skip list and hash table.  The code; the invariant that
    both hold the same members and every dictionary value is the address of the member's node; the commands refine operations on a map
    from members to scores; the commands that list members; histories of commands, the interpretation of \<open>refinement\<close>, and the properties.

  \<^bold>\<open>Bounds and fuel.\<close>  The cascading update of a ziplist and the iterator of a hash table are loops with a fuel argument: the
  length of the block, respectively the number of buckets and nodes, which the lemmas show to be enough
  (every theorem gives \<open>Some\<close>).  The copying loops of the backlog, the walks along a skip list and the parser's loops that may not end are partial functions into
  \<open>option\<close>, shown to return.  \<open>dictGetRandomKey\<close> draws until it hits an occupied bucket, so its model counts the draws: it is shown
  that no draw leaves the tables and that it returns once \<open>random()\<close> gives a value that hits.  The glob matcher's fuel is shown to be enough for
  patterns without classes and zero bytes.  All other loops are total functions with a termination measure.  Ziplists are assumed to stay below
  4 GB (their \<open>zlbytes\<close> field), integer sets below \<open>2 ^ 32\<close> elements, strings below \<open>2 ^ 62\<close> bytes (below \<open>2 ^ 31\<close> for the functions that
  compute in \<open>int\<close>, which are also the hash functions and key comparisons of the dictionary types).  A skip list has fewer than \<open>2 ^ 32\<close> nodes (spans are \<open>unsigned int\<close>) and a sorted set fewer than \<open>2 ^ 30\<close> members, the
  limit of the growth of its hash table in the model.  Scores are a linear order, so not-a-number is excluded as the code's assertions exclude it;
  the sum of two scores, which may be not-a-number, and the conversion of arguments to scores are parameters.

  \<^bold>\<open>Not modelled.\<close>  The event loop, sockets, output buffer limits and the boundaries between reply objects, the file formats of persistence, the slave's side of replication, cluster and sentinel; the
  command implementations other than those of sorted sets, ziplist-encoded sorted sets (their scores are text made by \<open>printf\<close>), ZUNIONSTORE,
  ZINTERSTORE and ZSCAN, the scripting engine and the command line tools; floating point conversions, debug reports and self tests; and
  everything under \<^verbatim>\<open>deps\<close>.  The files directly under \<^verbatim>\<open>src\<close> repeat those of \<^verbatim>\<open>src/redis-3.2.8/src\<close>.
\<close>

end
